(* ===== verification/Prelude.thy ===== *)
theory Prelude imports Complex_Main "HOL-Library.Word" "HOL-Library.Multiset" begin

text \<open>
  Shared vocabulary of the development: the C integer types as words, C pointers, the named
  theorem collections the component theories extend, and the lemmas on lists, multisets and
  cyclic indices that several components use.
\<close>

unbundle bit_operations_syntax

section \<open>C types\<close>

type_synonym u8 = "8 word"
type_synonym u16 = "16 word"
type_synonym u32 = "32 word"
type_synonym u64 = "64 word"

text \<open>
  A signed \<open>int\<close> or \<open>long long\<close> is the word of its bit pattern; where the code
  orders or prints it, it is read with \<open>sint\<close>. A \<open>size_t\<close> that only counts
  objects in memory is a \<open>nat\<close>. A pointer is a 64-bit address and \<open>NULL\<close> is 0.
\<close>

type_synonym s32 = "32 word"
type_synonym s64 = "64 word"
type_synonym ptr = "64 word"

abbreviation null_ptr :: ptr where
  "null_ptr \<equiv> 0"

section \<open>Collections\<close>

named_theorems heap_simps \<open>rewrite rules of the array heaps\<close>
named_theorems queue_defs \<open>definitions of the bounded queues\<close>
named_theorems probe_intros \<open>introduction rules of the open-addressing tables\<close>
named_theorems sched_defs \<open>definitions of the scheduler steps\<close>

section \<open>Lists and multisets\<close>

lemma mset_move:
  assumes "i < length xs" and "j < length xs" and "i \<noteq> j"
  shows "mset (xs[i := xs ! j, j := x]) = mset (xs[i := x])"
proof -
  have "xs[i := xs ! j, j := x] = (xs[i := x])[i := (xs[i := x]) ! j, j := (xs[i := x]) ! i]"
    using assms by simp
  moreover have "mset ((xs[i := x])[i := (xs[i := x]) ! j, j := (xs[i := x]) ! i]) = mset (xs[i := x])"
    using mset_swap [of j "xs[i := x]" i] assms by simp
  ultimately show ?thesis by simp
qed

lemma mset_insert_at:
  "n \<le> length xs \<Longrightarrow> mset (take n xs @ [x] @ drop n xs) = add_mset x (mset xs)"
  by (metis append_take_drop_id mset.simps(2) mset_append union_mset_add_mset_left
      union_mset_add_mset_right append_Cons append_Nil)

lemma set_update_ok:
  "\<forall>y\<in>set xs. P y \<Longrightarrow> P x \<Longrightarrow> \<forall>y\<in>set (xs[i := x]). P y"
  using set_update_subset_insert [of xs i x] by auto

lemma set_mset_eqI: "mset xs = mset ys \<Longrightarrow> set xs = set ys"
  by (metis set_mset_mset)

lemma mset_butlast_last:
  "xs \<noteq> [] \<Longrightarrow> mset xs = add_mset (last xs) (mset (butlast xs))"
  by (metis append_butlast_last_id mset.simps(1,2) mset_append add_mset_add_single)

lemma mset_hd_tl: "xs \<noteq> [] \<Longrightarrow> mset xs = add_mset (hd xs) (mset (tl xs))"
  by (cases xs) auto

section \<open>Sorting\<close>

text \<open>
  The library's \<open>qsort\<close>, as the stable sort the GNU C library implements it by. The
  properties use only that the result is a permutation in the order of the comparison.
\<close>

fun insert_by :: "('a \<Rightarrow> 'a \<Rightarrow> int) \<Rightarrow> 'a \<Rightarrow> 'a list \<Rightarrow> 'a list" where
  "insert_by cmp x [] = [x]"
| "insert_by cmp x (y # ys) = (if cmp x y \<le> 0 then x # y # ys else y # insert_by cmp x ys)"

fun qsort :: "('a \<Rightarrow> 'a \<Rightarrow> int) \<Rightarrow> 'a list \<Rightarrow> 'a list" where
  "qsort cmp [] = []"
| "qsort cmp (x # xs) = insert_by cmp x (qsort cmp xs)"

lemma mset_insert_by: "mset (insert_by cmp x ys) = add_mset x (mset ys)"
  by (induction ys) auto

lemma mset_qsort: "mset (qsort cmp xs) = mset xs"
  by (induction xs) (auto simp: mset_insert_by)

lemma length_qsort: "length (qsort cmp xs) = length xs"
  by (metis mset_qsort size_mset)

lemma set_qsort: "set (qsort cmp xs) = set xs"
  by (rule set_mset_eqI) (rule mset_qsort)

lemma set_insert_by: "set (insert_by cmp x ys) = insert x (set ys)"
  by (metis mset_insert_by set_mset_add_mset_insert set_mset_mset)

end
