(* ===== verification/Cdouble.thy ===== *)
theory Cdouble imports Prelude begin

text \<open>
  The C type \<open>double\<close>, as far as the program compares scores with it: a NaN is unordered
  with everything, the two infinities bound the finite values, and a finite double is the real
  number it denotes. \<open>+0.0\<close> and \<open>-0.0\<close> are the one value \<open>Fin 0\<close>, as
  no comparison tells them apart. The class operations \<open>\<lt>\<close> and
  \<open>\<le>\<close> are C's comparison operators.
\<close>

datatype double = NaN | NInf | Fin real | PInf

instantiation double :: ord
begin

fun less_double :: "double \<Rightarrow> double \<Rightarrow> bool" where
  "less_double NaN y = False"
| "less_double x NaN = False"
| "less_double x NInf = False"
| "less_double NInf y = True"
| "less_double PInf y = False"
| "less_double x PInf = True"
| "less_double (Fin a) (Fin b) = (a < b)"

fun less_eq_double :: "double \<Rightarrow> double \<Rightarrow> bool" where
  "less_eq_double NaN y = False"
| "less_eq_double x NaN = False"
| "less_eq_double NInf y = True"
| "less_eq_double x NInf = False"
| "less_eq_double x PInf = True"
| "less_eq_double PInf y = False"
| "less_eq_double (Fin a) (Fin b) = (a \<le> b)"

instance ..

end

definition not_nan :: "double \<Rightarrow> bool" where
  "not_nan x \<longleftrightarrow> x \<noteq> NaN"

lemma not_nan_simps [simp]:
  "not_nan (Fin a)" "not_nan NInf" "not_nan PInf" "\<not> not_nan NaN"
  by (simp_all add: not_nan_def)

lemma double_asym: "(x::double) < y \<Longrightarrow> \<not> y < x"
  by (cases x; cases y) auto

lemma double_irrefl [simp]: "\<not> (x::double) < x"
  by (cases x) auto

lemma double_negtrans:
  "not_nan y \<Longrightarrow> \<not> x < y \<Longrightarrow> \<not> y < z \<Longrightarrow> \<not> (x::double) < z"
  by (cases x; cases y; cases z) auto

lemma double_not_less:
  "not_nan x \<Longrightarrow> not_nan y \<Longrightarrow> (\<not> (x::double) < y) = (y \<le> x)"
  by (cases x; cases y) auto

lemma double_trans: "(x::double) < y \<Longrightarrow> y < z \<Longrightarrow> x < z"
  by (cases x; cases y; cases z) auto

lemma double_le_trans: "(x::double) \<le> y \<Longrightarrow> y \<le> z \<Longrightarrow> x \<le> z"
  by (cases x; cases y; cases z) auto

lemma double_le_refl: "not_nan x \<Longrightarrow> (x::double) \<le> x"
  by (cases x) auto

lemma double_less_imp_le: "(x::double) < y \<Longrightarrow> x \<le> y"
  by (cases x; cases y) auto

lemma double_le_less_trans: "(x::double) \<le> y \<Longrightarrow> y < z \<Longrightarrow> x < z"
  by (cases x; cases y; cases z) auto

lemma double_less_le_trans: "(x::double) < y \<Longrightarrow> y \<le> z \<Longrightarrow> x < z"
  by (cases x; cases y; cases z) auto

lemma double_le_imp_not_less: "(x::double) \<le> y \<Longrightarrow> \<not> y < x"
  by (cases x; cases y) auto

lemma double_le_not_nan: "(x::double) \<le> y \<Longrightarrow> not_nan x \<and> not_nan y"
  by (cases x; cases y) auto

end
