(* ===== verification/HeapArray.thy ===== *)
theory HeapArray imports Cdouble begin

text \<open>
  The array-based binary heaps. Every queue file of the program carries its own copy of the
  same two loops, with the comparison turned round for the min-heaps; here they are two
  functions over a comparison \<open>b\<close>, where \<open>b x y\<close> says that \<open>x\<close> belongs above
  \<open>y\<close>. The loops move entries into a hole and write the moved node once, as the code does.
  The locale \<open>heap_order\<close> says what a comparison has to promise and proves the loops
  correct once for all four copies.
\<close>

section \<open>Entries and growable arrays\<close>

record qentry =
  entry_id :: u32
  graph_data :: ptr
  score :: double

text \<open>
  \<open>MaxHeap\<close>, \<open>MinHeap\<close>, \<open>SortedArray\<close> and \<open>DynamicArray\<close> are the same struct: a
  pointer to an array of node pointers, its size and its capacity. The list holds the first
  \<open>size\<close> nodes.
\<close>

record earray =
  entries :: "qentry list"
  capacity :: nat

definition asize :: "earray \<Rightarrow> nat" where
  "asize a = length (entries a)"

text \<open>The growth step every insertion starts with: double a full array, or give it a first size.\<close>

definition grow_if_full :: "nat \<Rightarrow> earray \<Rightarrow> earray" where
  "grow_if_full first a =
     (if asize a = capacity a
      then a\<lparr>capacity := (if capacity a \<noteq> 0 then capacity a * 2 else first)\<rparr>
      else a)"

lemma grow_if_full_entries [simp]: "entries (grow_if_full n a) = entries a"
  by (simp add: grow_if_full_def)

section \<open>The two loops\<close>

abbreviation par :: "nat \<Rightarrow> nat" where
  "par i \<equiv> (i - Suc 0) div 2"

fun sift_up :: "('a \<Rightarrow> 'a \<Rightarrow> bool) \<Rightarrow> 'a list \<Rightarrow> nat \<Rightarrow> 'a \<Rightarrow> 'a list" where
  "sift_up b xs pos node =
     (if 0 < pos then
        if b node (xs ! par pos)
        then sift_up b (xs[pos := xs ! par pos]) (par pos) node
        else xs[pos := node]
      else xs[pos := node])"

declare sift_up.simps [simp del]

text \<open>The child the code calls \<open>largest\<close> (or \<open>smallest\<close>).\<close>

definition best_child :: "('a \<Rightarrow> 'a \<Rightarrow> bool) \<Rightarrow> 'a list \<Rightarrow> nat \<Rightarrow> nat" where
  "best_child b xs pos =
     (let left = 2 * pos + 1; right = 2 * pos + 2
      in if right < length xs \<and> b (xs ! right) (xs ! left) then right else left)"

function sift_down :: "('a \<Rightarrow> 'a \<Rightarrow> bool) \<Rightarrow> 'a list \<Rightarrow> nat \<Rightarrow> 'a \<Rightarrow> 'a list" where
  "sift_down b xs pos node =
     (if 2 * pos + 1 < length xs then
        if b (xs ! best_child b xs pos) node
        then sift_down b (xs[pos := xs ! best_child b xs pos]) (best_child b xs pos) node
        else xs[pos := node]
      else xs[pos := node])"
  by pat_completeness auto
termination
  by (relation "measure (\<lambda>(b, xs, pos, node). length xs - pos)")
    (auto simp: best_child_def Let_def)

declare sift_down.simps [simp del]

definition heap_push :: "('a \<Rightarrow> 'a \<Rightarrow> bool) \<Rightarrow> 'a list \<Rightarrow> 'a \<Rightarrow> 'a list" where
  "heap_push b xs node = sift_up b (xs @ [node]) (length xs) node"

definition heap_pop :: "('a \<Rightarrow> 'a \<Rightarrow> bool) \<Rightarrow> 'a list \<Rightarrow> ('a \<times> 'a list) option" where
  "heap_pop b xs =
     (if xs = [] then None
      else let top = xs ! 0; rest = butlast xs
           in if rest = [] then Some (top, [])
              else Some (top, sift_down b rest 0 (last xs)))"

text \<open>A scan that pushes every node and pops the root again when more than \<open>m\<close> are left.\<close>

fun keep_scan :: "('a \<Rightarrow> 'a \<Rightarrow> bool) \<Rightarrow> nat \<Rightarrow> 'a list \<Rightarrow> 'a list \<Rightarrow> 'a list" where
  "keep_scan b m [] hs = hs"
| "keep_scan b m (n # ns) hs =
     keep_scan b m ns
       (if m < length (heap_push b hs n)
        then (case heap_pop b (heap_push b hs n) of None \<Rightarrow> [] | Some (x, rest) \<Rightarrow> rest)
        else heap_push b hs n)"

text \<open>Build a heap in place: sift the nodes \<open>i - 1, \<dots>, 0\<close> down, in this order.\<close>

fun heapify_loop :: "('a \<Rightarrow> 'a \<Rightarrow> bool) \<Rightarrow> nat \<Rightarrow> 'a list \<Rightarrow> 'a list" where
  "heapify_loop b 0 xs = xs"
| "heapify_loop b (Suc i) xs = heapify_loop b i (sift_down b xs i (xs ! i))"

section \<open>What holds for any comparison\<close>

lemma best_child_bounds:
  "2 * pos + 1 < length xs \<Longrightarrow> pos < best_child b xs pos \<and> best_child b xs pos < length xs"
  by (auto simp: best_child_def Let_def)

lemma best_child_par [simp]: "par (best_child b xs pos) = pos"
  by (auto simp: best_child_def Let_def)

lemma par_less: "0 < i \<Longrightarrow> par i < i"
  by auto

lemma child_cases: "0 < i \<Longrightarrow> par i = pos \<Longrightarrow> i = 2 * pos + 1 \<or> i = 2 * pos + 2"
  by auto

lemma length_sift_up [heap_simps]: "length (sift_up b xs pos node) = length xs"
  by (induction b xs pos node rule: sift_up.induct) (subst sift_up.simps, simp)

lemma length_sift_down [heap_simps]: "length (sift_down b xs pos node) = length xs"
  by (induction b xs pos node rule: sift_down.induct) (subst sift_down.simps, simp)

lemma mset_sift_up [heap_simps]:
  "pos < length xs \<Longrightarrow> mset (sift_up b xs pos node) = mset (xs[pos := node])"
proof (induction b xs pos node rule: sift_up.induct)
  case (1 b xs pos node)
  show ?case
  proof (cases "0 < pos \<and> b node (xs ! par pos)")
    case True
    then have lt: "par pos < length xs" "par pos \<noteq> pos" using "1.prems" by auto
    have "mset (sift_up b xs pos node)
        = mset (xs[pos := xs ! par pos, par pos := node])"
      using True "1.IH" lt by (subst sift_up.simps) simp
    also have "\<dots> = mset (xs[pos := node])"
      using mset_move [of pos xs "par pos" node] "1.prems" lt by simp
    finally show ?thesis .
  next
    case False
    then show ?thesis by (subst sift_up.simps) auto
  qed
qed

lemma mset_sift_down [heap_simps]:
  "pos < length xs \<Longrightarrow> mset (sift_down b xs pos node) = mset (xs[pos := node])"
proof (induction b xs pos node rule: sift_down.induct)
  case (1 b xs pos node)
  let ?c = "best_child b xs pos"
  show ?case
  proof (cases "2 * pos + 1 < length xs \<and> b (xs ! ?c) node")
    case True
    then have lt: "?c < length xs" "?c \<noteq> pos" using best_child_bounds [of pos xs b] by auto
    have "mset (sift_down b xs pos node) = mset (xs[pos := xs ! ?c, ?c := node])"
      using True "1.IH" lt by (subst sift_down.simps) simp
    also have "\<dots> = mset (xs[pos := node])"
      using mset_move [of pos xs ?c node] "1.prems" lt by simp
    finally show ?thesis .
  next
    case False
    then show ?thesis by (subst sift_down.simps) auto
  qed
qed

lemma mset_heapify_loop [heap_simps]:
  "i \<le> length xs \<Longrightarrow> mset (heapify_loop b i xs) = mset xs"
  by (induction i arbitrary: xs) (simp_all add: heap_simps)

lemma length_heapify_loop [heap_simps]: "length (heapify_loop b i xs) = length xs"
  by (induction i arbitrary: xs) (simp_all add: heap_simps)

lemma length_heap_push [heap_simps]: "length (heap_push b xs x) = Suc (length xs)"
  by (simp add: heap_push_def heap_simps)

lemma mset_heap_push [heap_simps]: "mset (heap_push b xs x) = add_mset x (mset xs)"
  by (simp add: heap_push_def heap_simps)

lemma set_heap_push [heap_simps]: "set (heap_push b xs x) = insert x (set xs)"
  using mset_heap_push [of b xs x] by (metis set_mset_mset set_mset_add_mset_insert)

lemma heap_push_ne [simp]: "heap_push b xs x \<noteq> []"
  using length_heap_push [of b xs x] by (metis Zero_not_Suc list.size(3))

lemma heap_pop_None [simp]: "heap_pop b xs = None \<longleftrightarrow> xs = []"
  by (simp add: heap_pop_def Let_def)

lemma heap_pop_Some:
  assumes "heap_pop b xs = Some (x, ys)"
  shows "xs \<noteq> []" and "x = xs ! 0" and "mset xs = add_mset x (mset ys)"
    and "length xs = Suc (length ys)"
proof -
  show ne: "xs \<noteq> []" using assms by (auto simp: heap_pop_def)
  show x: "x = xs ! 0" using assms ne by (auto simp: heap_pop_def Let_def split: if_splits)
  show m: "mset xs = add_mset x (mset ys)"
  proof (cases "butlast xs = []")
    case True
    with ne obtain z where "xs = [z]" by (cases xs) (auto split: if_splits)
    then show ?thesis using assms by (auto simp: heap_pop_def Let_def)
  next
    case False
    then have ys: "ys = sift_down b (butlast xs) 0 (last xs)"
      using assms ne by (auto simp: heap_pop_def Let_def)
    obtain z zs where bl: "butlast xs = z # zs" using False by (cases "butlast xs") auto
    then have "xs = z # zs @ [last xs]" using ne by (metis append_butlast_last_id append_Cons)
    then have "x = z" and "mset xs = add_mset z (add_mset (last xs) (mset zs))"
      using x by (metis nth_Cons_0, metis mset.simps(2) mset_append union_mset_add_mset_right
          mset.simps(1) add.right_neutral)
    then show ?thesis using ys bl by (simp add: heap_simps)
  qed
  show "length xs = Suc (length ys)"
    using m by (metis size_mset size_add_mset)
qed

section \<open>Correctness for an ordering\<close>

text \<open>
  What the comparison promises on the nodes satisfying \<open>ok\<close> (here: nodes whose score is
  not NaN): it is asymmetric and its negation is transitive.
\<close>

definition heap_from :: "('a \<Rightarrow> 'a \<Rightarrow> bool) \<Rightarrow> nat \<Rightarrow> 'a list \<Rightarrow> bool" where
  "heap_from b lo xs \<longleftrightarrow>
     (\<forall>i. 0 < i \<and> i < length xs \<and> lo \<le> par i \<longrightarrow> \<not> b (xs ! i) (xs ! par i))"

abbreviation is_heap :: "('a \<Rightarrow> 'a \<Rightarrow> bool) \<Rightarrow> 'a list \<Rightarrow> bool" where
  "is_heap b \<equiv> heap_from b 0"

definition down_inv :: "('a \<Rightarrow> 'a \<Rightarrow> bool) \<Rightarrow> nat \<Rightarrow> 'a list \<Rightarrow> nat \<Rightarrow> bool" where
  "down_inv b lo ys pos \<longleftrightarrow>
     (\<forall>i. 0 < i \<and> i < length ys \<and> lo \<le> par i \<and> par i \<noteq> pos \<longrightarrow> \<not> b (ys ! i) (ys ! par i)) \<and>
     (0 < pos \<and> lo \<le> par pos \<longrightarrow>
       (\<forall>i. 0 < i \<and> i < length ys \<and> par i = pos \<longrightarrow> \<not> b (ys ! i) (ys ! par pos)))"

definition up_inv :: "('a \<Rightarrow> 'a \<Rightarrow> bool) \<Rightarrow> 'a list \<Rightarrow> nat \<Rightarrow> bool" where
  "up_inv b ys pos \<longleftrightarrow>
     (\<forall>i. 0 < i \<and> i < length ys \<and> i \<noteq> pos \<longrightarrow> \<not> b (ys ! i) (ys ! par i)) \<and>
     (0 < pos \<longrightarrow>
       (\<forall>i. 0 < i \<and> i < length ys \<and> par i = pos \<longrightarrow> \<not> b (ys ! i) (ys ! par pos)))"

locale heap_order =
  fixes b :: "'a \<Rightarrow> 'a \<Rightarrow> bool" and ok :: "'a \<Rightarrow> bool"
  assumes asym: "ok x \<Longrightarrow> ok y \<Longrightarrow> b x y \<Longrightarrow> \<not> b y x"
    and negtrans: "ok x \<Longrightarrow> ok y \<Longrightarrow> ok z \<Longrightarrow> \<not> b x y \<Longrightarrow> \<not> b y z \<Longrightarrow> \<not> b x z"
begin

lemma irrefl: "ok x \<Longrightarrow> \<not> b x x"
  using asym by blast

lemma up_step:
  assumes inv: "up_inv b (xs[pos := node]) pos" and pos: "0 < pos" "pos < length xs"
    and ok: "\<forall>x\<in>set xs. ok x" "ok node"
    and p: "p = par pos" and beats: "b node (xs ! p)"
  shows "up_inv b (xs[pos := xs ! p, p := node]) p"
proof -
  have pl: "p < pos" "p < length xs" using pos p by auto
  have okn: "\<And>i. i < length xs \<Longrightarrow> ok (xs ! i)" using ok(1) by auto
  have inv1: "\<And>i. 0 < i \<Longrightarrow> i < length xs \<Longrightarrow> i \<noteq> pos
      \<Longrightarrow> \<not> b (xs[pos := node] ! i) (xs[pos := node] ! par i)"
    and inv2: "\<And>i. 0 < i \<Longrightarrow> i < length xs \<Longrightarrow> par i = pos
      \<Longrightarrow> \<not> b (xs[pos := node] ! i) (xs[pos := node] ! p)"
    using inv pos unfolding up_inv_def p length_list_update by blast+
  have nb: "\<not> b (xs ! p) node" using asym [OF ok(2) okn beats] pl by simp
  have c1: "\<not> b (xs[pos := xs ! p, p := node] ! i) (xs[pos := xs ! p, p := node] ! q)"
    if i: "0 < i" "i < length xs" "i \<noteq> p" and q: "q = par i" for i q
  proof -
    have pi: "q < length xs" "q \<noteq> i" using i q by auto
    consider (a) "i = pos" | (b) "i \<noteq> pos" "q = pos" | (c) "i \<noteq> pos" "q = p" "q \<noteq> pos"
      | (d) "i \<noteq> pos" "q \<noteq> pos" "q \<noteq> p" by blast
    then show ?thesis
    proof cases
      case a
      then show ?thesis using nb q p pl pos by simp
    next
      case b
      then have "\<not> b (xs ! i) (xs ! p)" using inv2 [OF i(1,2)] q pl i by simp
      then show ?thesis using b i pl pos by simp
    next
      case c
      then have "\<not> b (xs ! i) (xs ! p)" using inv1 [OF i(1,2)] q by simp
      then have "\<not> b (xs ! i) node"
        using negtrans [OF okn [OF i(2)] okn [OF pl(2)] ok(2)] nb by simp
      then show ?thesis using c i pl by simp
    next
      case d
      then have "\<not> b (xs ! i) (xs ! q)" using inv1 [OF i(1,2)] q by simp
      then show ?thesis using d i by simp
    qed
  qed
  have c2: "\<not> b (xs[pos := xs ! p, p := node] ! i) (xs[pos := xs ! p, p := node] ! q)"
    if pp: "0 < p" and i: "0 < i" "i < length xs" "par i = p" and q: "q = par p" for i q
  proof -
    have g: "q < p" "i \<noteq> p" using pp q i by auto
    have ip: "\<not> b (xs ! p) (xs ! q)" using inv1 [OF pp pl(2)] pl g q by simp
    show ?thesis
    proof (cases "i = pos")
      case True
      then show ?thesis using ip g pl pos by simp
    next
      case False
      then have "\<not> b (xs ! i) (xs ! p)" using inv1 [OF i(1,2)] i pl by simp
      then have "\<not> b (xs ! i) (xs ! q)"
        using negtrans [OF okn [OF i(2)] okn [OF pl(2)] okn [of q]] ip g pl by simp
      then show ?thesis using False g pl by simp
    qed
  qed
  show ?thesis unfolding up_inv_def length_list_update using c1 c2 by blast
qed

lemma sift_up_heap:
  "up_inv b (xs[pos := node]) pos \<Longrightarrow> pos < length xs \<Longrightarrow> \<forall>x\<in>set xs. ok x \<Longrightarrow> ok node
    \<Longrightarrow> is_heap b (sift_up b xs pos node)"
proof (induction pos arbitrary: xs rule: less_induct)
  case (less pos)
  show ?case
  proof (cases "0 < pos \<and> b node (xs ! par pos)")
    case True
    then have pl: "par pos < pos" "0 < pos" by auto
    have "up_inv b (xs[pos := xs ! par pos, par pos := node]) (par pos)"
      using up_step [OF less.prems(1) pl(2) less.prems(2,3,4) refl] True by simp
    moreover have "\<forall>x\<in>set (xs[pos := xs ! par pos]). ok x"
      using less.prems pl by (intro set_update_ok) auto
    ultimately have "is_heap b (sift_up b (xs[pos := xs ! par pos]) (par pos) node)"
      using less.IH [OF pl(1), of "xs[pos := xs ! par pos]"] less.prems pl by simp
    then show ?thesis using True by (subst sift_up.simps) simp
  next
    case False
    have "\<not> b (xs[pos := node] ! i) (xs[pos := node] ! par i)" if "0 < i" "i < length xs" for i
    proof (cases "i = pos")
      case True
      then have "par i \<noteq> pos" using that by auto
      then show ?thesis using True False that by simp
    next
      case False
      then show ?thesis using less.prems(1) that by (simp add: up_inv_def)
    qed
    then show ?thesis using False
      by (subst sift_up.simps) (auto simp: heap_from_def)
  qed
qed

lemma heap_push_heap:
  assumes "is_heap b xs" and "\<forall>x\<in>set xs. ok x" and "ok node"
  shows "is_heap b (heap_push b xs node)"
proof -
  have "up_inv b (xs @ [node]) (length xs)"
  proof -
    have "\<not> b ((xs @ [node]) ! i) ((xs @ [node]) ! par i)" if "0 < i" "i < length xs" for i
    proof -
      have "par i < length xs" using that by auto
      then show ?thesis using assms(1) that by (auto simp: heap_from_def nth_append)
    qed
    then show ?thesis by (auto simp: up_inv_def)
  qed
  then show ?thesis
    unfolding heap_push_def using assms by (intro sift_up_heap) auto
qed

lemma best_child_best:
  assumes ok: "\<forall>x\<in>set xs. ok x" and i: "0 < i" "i < length xs" "par i = pos"
  shows "\<not> b (xs ! i) (xs ! best_child b xs pos)"
proof -
  have okn: "\<And>i. i < length xs \<Longrightarrow> ok (xs ! i)" using ok by auto
  have "i = 2 * pos + 1 \<or> i = 2 * pos + 2" using child_cases i(1,3) by blast
  then show ?thesis
  proof
    assume e: "i = 2 * pos + 1"
    then show ?thesis
      using irrefl [OF okn [OF i(2)]] i(2) asym [OF okn okn, of "2 * pos + 2" "2 * pos + 1"]
      by (auto simp: best_child_def Let_def)
  next
    assume e: "i = 2 * pos + 2"
    then show ?thesis
      using irrefl [OF okn [OF i(2)]] i(2) by (auto simp: best_child_def Let_def)
  qed
qed

lemma down_step:
  assumes inv: "down_inv b lo (xs[pos := node]) pos" and pos: "2 * pos + 1 < length xs" "lo \<le> pos"
    and ok: "\<forall>x\<in>set xs. ok x" "ok node"
    and c: "c = best_child b xs pos" and beats: "b (xs ! c) node"
  shows "down_inv b lo (xs[pos := xs ! c, c := node]) c"
proof -
  have cb: "pos < c" "c < length xs" "par c = pos"
    using best_child_bounds [OF pos(1), of b] by (auto simp: c)
  have pl: "pos < length xs" using pos by simp
  have okn: "\<And>i. i < length xs \<Longrightarrow> ok (xs ! i)" using ok(1) by auto
  have inv1: "\<And>i. 0 < i \<Longrightarrow> i < length xs \<Longrightarrow> lo \<le> par i \<Longrightarrow> par i \<noteq> pos
      \<Longrightarrow> \<not> b (xs[pos := node] ! i) (xs[pos := node] ! par i)"
    and inv2: "\<And>i. 0 < pos \<Longrightarrow> lo \<le> par pos \<Longrightarrow> 0 < i \<Longrightarrow> i < length xs \<Longrightarrow> par i = pos
      \<Longrightarrow> \<not> b (xs[pos := node] ! i) (xs[pos := node] ! par pos)"
    using inv unfolding down_inv_def length_list_update by blast+
  have nb: "\<not> b node (xs ! c)" using asym [OF okn [OF cb(2)] ok(2) beats] .
  have c1: "\<not> b (xs[pos := xs ! c, c := node] ! i) (xs[pos := xs ! c, c := node] ! q)"
    if i: "0 < i" "i < length xs" "lo \<le> q" "q \<noteq> c" and q: "q = par i" for i q
  proof -
    have pi: "q < length xs" "q \<noteq> i" using i q by auto
    consider (a) "i = c" | (b) "i \<noteq> c" "q = pos" | (c) "i \<noteq> c" "i = pos"
      | (d) "i \<noteq> c" "i \<noteq> pos" "q \<noteq> pos" by blast
    then show ?thesis
    proof cases
      case a
      then show ?thesis using nb q cb pl by simp
    next
      case b
      have "\<not> b (xs ! i) (xs ! c)" using best_child_best [OF ok(1) i(1,2)] b q c by simp
      then show ?thesis using b pi cb pl by simp
    next
      case c
      have "\<not> b (xs ! c) (xs ! q)" using inv2 [of c] cb c i q pi by simp
      then show ?thesis using c i pi pl by simp
    next
      case d
      then have "\<not> b (xs ! i) (xs ! q)" using inv1 [OF i(1,2)] q i by simp
      then show ?thesis using d i by simp
    qed
  qed
  have c2: "\<not> b (xs[pos := xs ! c, c := node] ! i) (xs[pos := xs ! c, c := node] ! par c)"
    if i: "0 < i" "i < length xs" "par i = c" for i
  proof -
    have ne: "i \<noteq> c" "c < i" using i cb by auto
    have "\<not> b (xs ! i) (xs ! c)" using inv1 [OF i(1,2)] i cb pos ne by simp
    then show ?thesis using cb ne pl by simp
  qed
  show ?thesis unfolding down_inv_def length_list_update using c1 c2 by blast
qed

lemma sift_down_heap:
  "down_inv b lo (xs[pos := node]) pos \<Longrightarrow> pos < length xs \<Longrightarrow> lo \<le> pos
    \<Longrightarrow> \<forall>x\<in>set xs. ok x \<Longrightarrow> ok node \<Longrightarrow> heap_from b lo (sift_down b xs pos node)"
proof (induction "length xs - pos" arbitrary: xs pos rule: less_induct)
  case less
  let ?c = "best_child b xs pos"
  show ?case
  proof (cases "2 * pos + 1 < length xs \<and> b (xs ! ?c) node")
    case True
    then have cb: "pos < ?c" "?c < length xs" using best_child_bounds [of pos xs b] by auto
    have "down_inv b lo (xs[pos := xs ! ?c, ?c := node]) ?c"
      using down_step [OF less.prems(1) _ less.prems(3,4,5) refl] True by simp
    moreover have "\<forall>x\<in>set (xs[pos := xs ! ?c]). ok x"
      using less.prems cb by (intro set_update_ok) auto
    ultimately have "heap_from b lo (sift_down b (xs[pos := xs ! ?c]) ?c node)"
      using less.hyps [of "xs[pos := xs ! ?c]" ?c] less.prems cb by simp
    then show ?thesis using True by (subst sift_down.simps) simp
  next
    case False
    have "\<not> b (xs[pos := node] ! i) (xs[pos := node] ! par i)"
      if i: "0 < i" "i < length xs" "lo \<le> par i" for i
    proof (cases "par i = pos")
      case True
      have l: "2 * pos + 1 < length xs" using child_cases [OF i(1) True] i by auto
      then have nb: "\<not> b (xs ! ?c) node" using False by simp
      have cl: "?c < length xs" using best_child_bounds [OF l] by auto
      have "\<not> b (xs ! i) node"
        using negtrans [of "xs ! i" "xs ! ?c" node] best_child_best [OF less.prems(4) i(1,2) True]
          nb i cl less.prems(4,5) by simp
      moreover have "i \<noteq> pos" using True i by auto
      ultimately show ?thesis using True less.prems(2) by simp
    next
      case False
      then show ?thesis using less.prems(1) i by (simp add: down_inv_def)
    qed
    then show ?thesis using False by (subst sift_down.simps) (auto simp: heap_from_def)
  qed
qed

lemma heap_pop_heap:
  assumes "is_heap b xs" and "\<forall>x\<in>set xs. ok x" and "heap_pop b xs = Some (x, ys)"
  shows "is_heap b ys"
proof (cases "butlast xs = []")
  case True
  then show ?thesis using assms(3) by (auto simp: heap_pop_def Let_def heap_from_def split: if_splits)
next
  case False
  then have ne: "xs \<noteq> []" by auto
  then have ys: "ys = sift_down b (butlast xs) 0 (last xs)"
    using assms(3) False by (auto simp: heap_pop_def Let_def)
  have "down_inv b 0 ((butlast xs)[0 := last xs]) 0"
  proof -
    have "\<not> b ((butlast xs)[0 := last xs] ! i) ((butlast xs)[0 := last xs] ! par i)"
      if "0 < i" "i < length xs - 1" "par i \<noteq> 0" for i
    proof -
      have "par i < length xs - 1" using that by auto
      then show ?thesis using assms(1) that by (auto simp: heap_from_def nth_butlast)
    qed
    then show ?thesis by (auto simp: down_inv_def)
  qed
  moreover have "\<forall>x\<in>set (butlast xs). ok x" using assms(2) by (auto dest: in_set_butlastD)
  moreover have "ok (last xs)" using assms(2) ne by auto
  ultimately show ?thesis unfolding ys using False
    by (intro sift_down_heap) (auto simp flip: length_greater_0_conv)
qed

lemma heap_root_best:
  assumes h: "is_heap b xs" and ok: "\<forall>x\<in>set xs. ok x" and "x \<in> set xs"
  shows "\<not> b x (xs ! 0)"
proof -
  have "i < length xs \<Longrightarrow> \<not> b (xs ! i) (xs ! 0)" for i
  proof (induction i rule: less_induct)
    case (less i)
    show ?case
    proof (cases "i = 0")
      case True
      then show ?thesis using irrefl ok less.prems by simp
    next
      case False
      then have p: "par i < i" "par i < length xs" using less.prems by auto
      have "\<not> b (xs ! i) (xs ! par i)" using h False less.prems by (auto simp: heap_from_def)
      moreover have "\<not> b (xs ! par i) (xs ! 0)" using less.IH p by blast
      moreover have "xs \<noteq> []" using less.prems by auto
      ultimately show ?thesis
        using negtrans [of "xs ! i" "xs ! par i" "xs ! 0"] ok p less.prems by simp
    qed
  qed
  then show ?thesis using assms(3) by (metis in_set_conv_nth)
qed

lemma heap_pop_best:
  assumes "is_heap b xs" and "\<forall>x\<in>set xs. ok x" and "heap_pop b xs = Some (x, ys)"
    and "y \<in> set ys"
  shows "\<not> b y x"
proof -
  have "mset xs = add_mset x (mset ys)" "x = xs ! 0" using heap_pop_Some [OF assms(3)] by auto
  then have "y \<in> set xs" using assms(4) by (metis insert_iff set_mset_add_mset_insert set_mset_mset)
  then show ?thesis using heap_root_best [OF assms(1,2)] \<open>x = xs ! 0\<close> by simp
qed

lemma heapify_loop_heap:
  "heap_from b i xs \<Longrightarrow> i \<le> length xs \<Longrightarrow> \<forall>x\<in>set xs. ok x \<Longrightarrow> is_heap b (heapify_loop b i xs)"
proof (induction i arbitrary: xs)
  case (Suc i)
  have "down_inv b i (xs[i := xs ! i]) i"
    using Suc.prems(1) by (auto simp: down_inv_def heap_from_def)
  then have "heap_from b i (sift_down b xs i (xs ! i))"
    using Suc.prems by (intro sift_down_heap) auto
  moreover have "set (sift_down b xs i (xs ! i)) = set xs"
    using mset_sift_down [of i xs b "xs ! i"] Suc.prems(2) by (intro set_mset_eqI) simp
  ultimately show ?case using Suc.IH Suc.prems by (simp add: heap_simps)
qed simp

lemma heapify_heap:
  assumes "\<forall>x\<in>set xs. ok x"
  shows "is_heap b (heapify_loop b (length xs div 2) xs)"
proof -
  have "heap_from b (length xs div 2) xs"
    unfolding heap_from_def by auto
  then show ?thesis using assms by (intro heapify_loop_heap) auto
qed

text \<open>
  The scan keeps \<open>m\<close> nodes, and every node it drops belongs above (or beside) all it keeps.
\<close>

lemma keep_scan_aux:
  assumes "is_heap b hs" and "\<forall>x\<in>set hs. ok x" and "\<forall>x\<in>set ns. ok x" and "\<forall>x\<in>#D0. ok x"
    and "length hs \<le> m" and "D0 \<noteq> {#} \<longrightarrow> length hs = m" and "\<forall>d\<in>#D0. \<forall>y\<in>set hs. \<not> b y d"
  shows "\<exists>D. mset (keep_scan b m ns hs) + D = mset hs + mset ns + D0 \<and>
    is_heap b (keep_scan b m ns hs) \<and> length (keep_scan b m ns hs) \<le> m \<and>
    (D \<noteq> {#} \<longrightarrow> length (keep_scan b m ns hs) = m) \<and>
    (\<forall>d\<in>#D. \<forall>y\<in>set (keep_scan b m ns hs). \<not> b y d)"
  using assms
proof (induction ns arbitrary: hs D0)
  case Nil
  then show ?case by (intro exI [of _ D0]) simp
next
  case (Cons n ns)
  let ?h = "heap_push b hs n"
  have h: "is_heap b ?h" "\<forall>x\<in>set ?h. ok x"
    using Cons.prems heap_push_heap by (auto simp: heap_simps)
  show ?case
  proof (cases "m < length ?h")
    case False
    then have "D0 = {#}" using Cons.prems(6) by (auto simp: heap_simps)
    then show ?thesis using Cons.IH [of ?h "{#}"] Cons.prems h False
      by (simp add: heap_simps ac_simps)
  next
    case True
    then have lm: "length hs = m" using Cons.prems(5) by (simp add: heap_simps)
    obtain x rest where p: "heap_pop b ?h = Some (x, rest)"
      by (metis heap_pop_None heap_push_ne option.exhaust surj_pair)
    have m: "add_mset n (mset hs) = add_mset x (mset rest)" and lr: "length rest = m"
      using heap_pop_Some(3,4) [OF p] lm by (simp_all add: heap_simps)
    have sub: "set rest \<subseteq> set ?h" "x \<in> set ?h"
      using heap_pop_Some(3) [OF p] by (metis set_mset_mset set_mset_add_mset_insert subset_insertI
        insertI1)+
    have new: "\<not> b y d" if d: "d \<in># add_mset x D0" and y: "y \<in> set rest" for d y
    proof (cases "d = x")
      case True
      then show ?thesis using heap_pop_best [OF h p y] by simp
    next
      case False
      then have d0: "d \<in># D0" using d by simp
      show ?thesis
      proof (cases "y \<in> set hs")
        case True
        then show ?thesis using Cons.prems(7) d0 by blast
      next
        case False
        then have yn: "y = n" using sub(1) y by (auto simp: heap_simps)
        have "x \<in> set hs"
        proof (rule ccontr)
          assume "x \<notin> set hs"
          then have "x = n" using sub(2) by (simp add: heap_simps)
          then have "mset hs = mset rest" using m by simp
          then show False using y False by (metis set_mset_mset)
        qed
        then have "\<not> b x d" using Cons.prems(7) d0 by blast
        moreover have "\<not> b y x" using heap_pop_best [OF h p y] .
        moreover have "ok y" "ok x" "ok d" using h(2) sub y Cons.prems(4) d0 by auto
        ultimately show ?thesis using negtrans by blast
      qed
    qed
    have step: "\<exists>D. mset (keep_scan b m ns rest) + D = mset rest + mset ns + add_mset x D0 \<and>
      is_heap b (keep_scan b m ns rest) \<and> length (keep_scan b m ns rest) \<le> m \<and>
      (D \<noteq> {#} \<longrightarrow> length (keep_scan b m ns rest) = m) \<and>
      (\<forall>d\<in>#D. \<forall>y\<in>set (keep_scan b m ns rest). \<not> b y d)"
      using heap_pop_heap [OF h p] h(2) sub Cons.prems(3,4) lr new
      by (intro Cons.IH) auto
    have eq: "mset rest + mset ns + add_mset x D0 = mset hs + mset (n # ns) + D0"
      using m by (metis mset.simps(2) union_mset_add_mset_left union_mset_add_mset_right)
    have scan: "keep_scan b m (n # ns) hs = keep_scan b m ns rest" using True p by simp
    show ?thesis using step unfolding scan eq .
  qed
qed

lemma keep_scan_best:
  assumes "\<forall>x\<in>set ns. ok x"
  shows "\<exists>D. mset (keep_scan b m ns []) + D = mset ns \<and> is_heap b (keep_scan b m ns []) \<and>
    length (keep_scan b m ns []) = min m (length ns) \<and>
    (\<forall>d\<in>#D. \<forall>y\<in>set (keep_scan b m ns []). \<not> b y d)"
proof -
  obtain D where D: "mset (keep_scan b m ns []) + D = mset ns" "is_heap b (keep_scan b m ns [])"
    "length (keep_scan b m ns []) \<le> m" "D \<noteq> {#} \<longrightarrow> length (keep_scan b m ns []) = m"
    "\<forall>d\<in>#D. \<forall>y\<in>set (keep_scan b m ns []). \<not> b y d"
    using keep_scan_aux [of "[]" ns "{#}" m] assms by (auto simp: heap_from_def)
  have "length (keep_scan b m ns []) + size D = length ns"
    using D(1) by (metis size_mset size_union)
  then have "length (keep_scan b m ns []) = min m (length ns)"
    using D(3,4) by (cases "D = {#}") (auto simp: min_def)
  then show ?thesis using D by blast
qed

lemma butlast_heap: "is_heap b xs \<Longrightarrow> is_heap b (butlast xs)"
  by (auto simp: heap_from_def nth_butlast)

end

section \<open>The two score orders\<close>

definition above_max :: "qentry \<Rightarrow> qentry \<Rightarrow> bool" where
  "above_max x y \<longleftrightarrow> score y < score x"

definition above_min :: "qentry \<Rightarrow> qentry \<Rightarrow> bool" where
  "above_min x y \<longleftrightarrow> score x < score y"

abbreviation scored :: "qentry \<Rightarrow> bool" where
  "scored e \<equiv> not_nan (score e)"

interpretation maxo: heap_order above_max scored
  by (unfold_locales; unfold above_max_def) (use double_asym double_negtrans in blast)+

interpretation mino: heap_order above_min scored
  by (unfold_locales; unfold above_min_def) (use double_asym double_negtrans in blast)+

end
