(* ===== verification/QueueInterface.thy ===== *)
theory QueueInterface imports HeapArray begin

text \<open>
  The contract of \<^verbatim>\<open>main/include/sgf-queue.h\<close>: what the fuzzer relies on, whichever of the
  four implementations \<^verbatim>\<open>SGF_QUEUE_IMPL\<close> selects. An enqueue takes the three fields of an
  entry and returns a status; \<open>None\<close> stands for undefined behaviour (a read outside the
  array). A dequeue returns \<open>None\<close> where the C function returns \<open>NULL\<close>. The locale
  \<open>bounded_queue\<close> holds the laws of every implementation, \<open>accounted_queue\<close> adds how many
  entries a dequeue frees without returning them, and \<open>lossless_queue\<close> is the contract of the
  implementations that never do.
\<close>

section \<open>A client: a sequence of calls\<close>

datatype queue_call = Enqueue u32 ptr double | Dequeue | Rescore u32 double

definition mk_entry :: "u32 \<Rightarrow> ptr \<Rightarrow> double \<Rightarrow> qentry" where
  "mk_entry i g s = \<lparr>entry_id = i, graph_data = g, score = s\<rparr>"

lemma score_mk_entry [simp]: "score (mk_entry i g s) = s"
  by (simp add: mk_entry_def)

lemma mk_entry_fields [simp]: "mk_entry (entry_id e) (graph_data e) (score e) = e"
  by (cases e) (simp add: mk_entry_def)

fun call_entries :: "queue_call list \<Rightarrow> qentry multiset" where
  "call_entries [] = {#}"
| "call_entries (Enqueue i g s # cs) = add_mset (mk_entry i g s) (call_entries cs)"
| "call_entries (Rescore i s # cs) = add_mset (mk_entry i null_ptr s) (call_entries cs)"
| "call_entries (Dequeue # cs) = call_entries cs"

fun call_scored :: "queue_call \<Rightarrow> bool" where
  "call_scored (Enqueue i g s) = not_nan s"
| "call_scored (Rescore i s) = not_nan s"
| "call_scored Dequeue = True"

text \<open>The calls in order, with the entries the dequeues returned.\<close>

fun run_calls ::
    "('q \<Rightarrow> u32 \<Rightarrow> ptr \<Rightarrow> double \<Rightarrow> (s32 \<times> 'q) option) \<Rightarrow> ('q \<Rightarrow> qentry option \<times> 'q)
      \<Rightarrow> queue_call list \<Rightarrow> 'q \<Rightarrow> (qentry list \<times> 'q) option" where
  "run_calls enq deq [] q = Some ([], q)"
| "run_calls enq deq (Enqueue i g s # cs) q =
     (case enq q i g s of None \<Rightarrow> None | Some (rc, q') \<Rightarrow> run_calls enq deq cs q')"
| "run_calls enq deq (Rescore i s # cs) q =
     (case enq q i null_ptr s of None \<Rightarrow> None | Some (rc, q') \<Rightarrow> run_calls enq deq cs q')"
| "run_calls enq deq (Dequeue # cs) q =
     (case deq q of
        (None, q') \<Rightarrow> run_calls enq deq cs q'
      | (Some e, q') \<Rightarrow>
          (case run_calls enq deq cs q' of None \<Rightarrow> None | Some (es, q'') \<Rightarrow> Some (e # es, q'')))"

text \<open>Dequeue until the queue answers \<open>NULL\<close>, at most \<open>n\<close> times; \<open>None\<close> if it has not by then.\<close>

fun drain :: "('q \<Rightarrow> qentry option \<times> 'q) \<Rightarrow> nat \<Rightarrow> 'q \<Rightarrow> (qentry list \<times> 'q) option" where
  "drain deq 0 q = None"
| "drain deq (Suc n) q =
     (case deq q of
        (None, q') \<Rightarrow> Some ([], q')
      | (Some e, q') \<Rightarrow>
          (case drain deq n q' of None \<Rightarrow> None | Some (es, q'') \<Rightarrow> Some (e # es, q'')))"

text \<open>
  The number of entries freed during these calls and during draining, when a dequeue that returns an
  entry frees \<open>frees q\<close> others.
\<close>

fun calls_free ::
    "('q \<Rightarrow> u32 \<Rightarrow> ptr \<Rightarrow> double \<Rightarrow> (s32 \<times> 'q) option) \<Rightarrow> ('q \<Rightarrow> qentry option \<times> 'q)
      \<Rightarrow> ('q \<Rightarrow> nat) \<Rightarrow> queue_call list \<Rightarrow> 'q \<Rightarrow> nat" where
  "calls_free enq deq frees [] q = 0"
| "calls_free enq deq frees (Enqueue i g s # cs) q =
     (case enq q i g s of None \<Rightarrow> 0 | Some (rc, q') \<Rightarrow> calls_free enq deq frees cs q')"
| "calls_free enq deq frees (Rescore i s # cs) q =
     (case enq q i null_ptr s of None \<Rightarrow> 0 | Some (rc, q') \<Rightarrow> calls_free enq deq frees cs q')"
| "calls_free enq deq frees (Dequeue # cs) q =
     (case deq q of
        (None, q') \<Rightarrow> calls_free enq deq frees cs q'
      | (Some e, q') \<Rightarrow> frees q + calls_free enq deq frees cs q')"

fun drain_frees :: "('q \<Rightarrow> qentry option \<times> 'q) \<Rightarrow> ('q \<Rightarrow> nat) \<Rightarrow> nat \<Rightarrow> 'q \<Rightarrow> nat" where
  "drain_frees deq frees 0 q = 0"
| "drain_frees deq frees (Suc n) q =
     (case deq q of (None, q') \<Rightarrow> 0 | (Some e, q') \<Rightarrow> frees q + drain_frees deq frees n q')"

definition descending :: "qentry list \<Rightarrow> bool" where
  "descending es \<longleftrightarrow> sorted_wrt (\<lambda>x y. \<not> score x < score y) es"

section \<open>The contract\<close>

locale bounded_queue =
  fixes enq :: "'q \<Rightarrow> u32 \<Rightarrow> ptr \<Rightarrow> double \<Rightarrow> (s32 \<times> 'q) option"
    and deq :: "'q \<Rightarrow> qentry option \<times> 'q"
    and content :: "'q \<Rightarrow> qentry multiset"
    and inv :: "'q \<Rightarrow> bool"
  assumes enq_ok: "inv q \<Longrightarrow> not_nan s \<Longrightarrow>
      \<exists>q'. enq q i g s = Some (0, q') \<and> inv q' \<and> content q' = add_mset (mk_entry i g s) (content q)"
    and deq_none: "inv q \<Longrightarrow> deq q = (None, q') \<Longrightarrow> content q = {#} \<and> q' = q"
    and deq_some: "inv q \<Longrightarrow> deq q = (Some e, q') \<Longrightarrow>
      inv q' \<and> add_mset e (content q') \<subseteq># content q"
begin

lemma run_calls_conserves:
  "inv q \<Longrightarrow> \<forall>c\<in>set cs. call_scored c \<Longrightarrow>
    \<exists>es q'. run_calls enq deq cs q = Some (es, q') \<and> inv q' \<and>
      mset es + content q' \<subseteq># call_entries cs + content q"
proof (induction cs arbitrary: q)
  case (Cons c cs)
  show ?case
  proof (cases c)
    case (Enqueue i g s)
    then obtain q1 where "enq q i g s = Some (0, q1)" "inv q1"
      "content q1 = add_mset (mk_entry i g s) (content q)"
      using enq_ok [of q s i g] Cons.prems by auto
    then show ?thesis using Cons.IH [of q1] Cons.prems Enqueue by auto
  next
    case (Rescore i s)
    then obtain q1 where "enq q i null_ptr s = Some (0, q1)" "inv q1"
      "content q1 = add_mset (mk_entry i null_ptr s) (content q)"
      using enq_ok [of q s i null_ptr] Cons.prems by auto
    then show ?thesis using Cons.IH [of q1] Cons.prems Rescore by auto
  next
    case Dequeue
    obtain r q1 where d: "deq q = (r, q1)" by force
    show ?thesis
    proof (cases r)
      case None
      then show ?thesis using Cons d Dequeue deq_none by fastforce
    next
      case (Some e)
      then have q1: "inv q1" "add_mset e (content q1) \<subseteq># content q"
        using deq_some d Cons.prems by auto
      then obtain es q' where r: "run_calls enq deq cs q1 = Some (es, q')" "inv q'"
        "mset es + content q' \<subseteq># call_entries cs + content q1"
        using Cons by fastforce
      have "add_mset e (mset es + content q') \<subseteq># call_entries cs + add_mset e (content q1)"
        using r(3) by simp
      also have "\<dots> \<subseteq># call_entries cs + content q" using q1(2) by simp
      finally show ?thesis using r d Some Dequeue by simp
    qed
  qed
qed simp

lemma drain_conserves:
  "inv q \<Longrightarrow> size (content q) < n \<Longrightarrow>
    \<exists>es q'. drain deq n q = Some (es, q') \<and> inv q' \<and> content q' = {#} \<and> mset es \<subseteq># content q"
proof (induction n arbitrary: q)
  case (Suc n)
  obtain r q1 where d: "deq q = (r, q1)" by force
  show ?case
  proof (cases r)
    case None
    then show ?thesis using Suc.prems d deq_none by fastforce
  next
    case (Some e)
    then have q1: "inv q1" "add_mset e (content q1) \<subseteq># content q" using deq_some d Suc by auto
    then have "size (content q1) < n" using Suc.prems size_mset_mono [OF q1(2)] by simp
    then obtain es q' where r: "drain deq n q1 = Some (es, q')" "inv q'" "content q' = {#}"
      "mset es \<subseteq># content q1"
      using Suc.IH q1 by blast
    have "add_mset e (mset es) \<subseteq># content q" using r(4) q1(2) by (meson mset_subset_eq_add_mset_cancel subset_mset.order_trans)
    then show ?thesis using r d Some by simp
  qed
qed simp

end

text \<open>Every entry is accounted for: it is returned, still there, or among those that were freed.\<close>

locale accounted_queue = bounded_queue enq deq content inv
  for enq :: "'q \<Rightarrow> u32 \<Rightarrow> ptr \<Rightarrow> double \<Rightarrow> (s32 \<times> 'q) option"
    and deq :: "'q \<Rightarrow> qentry option \<times> 'q"
    and content :: "'q \<Rightarrow> qentry multiset"
    and inv :: "'q \<Rightarrow> bool" +
  fixes frees :: "'q \<Rightarrow> nat"
  assumes deq_frees: "inv q \<Longrightarrow> deq q = (Some e, q') \<Longrightarrow> size (content q) = Suc (size (content q')) + frees q"
begin

lemma deq_account:
  assumes "inv q" and "deq q = (Some e, q')"
  shows "\<exists>F. content q = add_mset e (content q') + F \<and> size F = frees q"
proof -
  obtain F where F: "content q = add_mset e (content q') + F"
    using deq_some [OF assms] by (auto dest!: mset_subset_eq_exists_conv [THEN iffD1])
  then have "size F = frees q" using deq_frees [OF assms] by simp
  then show ?thesis using F by blast
qed

lemma run_calls_account:
  "inv q \<Longrightarrow> \<forall>c\<in>set cs. call_scored c \<Longrightarrow>
    \<exists>es q' F. run_calls enq deq cs q = Some (es, q') \<and> inv q' \<and>
      mset es + content q' + F = call_entries cs + content q \<and> size F = calls_free enq deq frees cs q"
proof (induction cs arbitrary: q)
  case (Cons c cs)
  have put: "\<exists>es q' F. run_calls enq deq cs q1 = Some (es, q') \<and> inv q' \<and>
      mset es + content q' + F = add_mset e (call_entries cs) + content q \<and> size F = calls_free enq deq frees cs q1"
    if "inv q1" "content q1 = add_mset e (content q)" for q1 e
    using Cons.IH [OF that(1)] Cons.prems(2) that(2) by auto
  show ?case
  proof (cases c)
    case (Enqueue i g s)
    then obtain q1 where "enq q i g s = Some (0, q1)" "inv q1"
      "content q1 = add_mset (mk_entry i g s) (content q)"
      using enq_ok [of q s i g] Cons.prems by auto
    then show ?thesis using put [of q1] Enqueue by simp
  next
    case (Rescore i s)
    then obtain q1 where "enq q i null_ptr s = Some (0, q1)" "inv q1"
      "content q1 = add_mset (mk_entry i null_ptr s) (content q)"
      using enq_ok [of q s i null_ptr] Cons.prems by auto
    then show ?thesis using put [of q1] Rescore by simp
  next
    case Dequeue
    obtain r q1 where d: "deq q = (r, q1)" by force
    show ?thesis
    proof (cases r)
      case None
      then show ?thesis using Cons d Dequeue deq_none by fastforce
    next
      case (Some e)
      then obtain F where F: "content q = add_mset e (content q1) + F" "size F = frees q" "inv q1"
        using deq_account [of q e q1] deq_some [of q e q1] d Cons.prems by auto
      then obtain es q' G where r: "run_calls enq deq cs q1 = Some (es, q')" "inv q'"
        "mset es + content q' + G = call_entries cs + content q1" "size G = calls_free enq deq frees cs q1"
        using Cons by fastforce
      have "mset (e # es) + content q' + (F + G) = add_mset e (mset es + content q' + G) + F" by simp
      also have "\<dots> = call_entries cs + content q" unfolding r(3) F(1) by simp
      finally show ?thesis using r(1,2,4) F(2) d Some Dequeue by (intro exI [of _ "e # es"] exI [of _ q'] exI [of _ "F + G"]) simp
    qed
  qed
qed simp

lemma drain_account:
  "inv q \<Longrightarrow> size (content q) < n \<Longrightarrow>
    \<exists>es q' F. drain deq n q = Some (es, q') \<and> inv q' \<and> content q' = {#} \<and> mset es + F = content q \<and>
      size F = drain_frees deq frees n q"
proof (induction n arbitrary: q)
  case (Suc n)
  obtain r q1 where d: "deq q = (r, q1)" by force
  show ?case
  proof (cases r)
    case None
    then show ?thesis using Suc.prems d deq_none by fastforce
  next
    case (Some e)
    then obtain F where F: "content q = add_mset e (content q1) + F" "size F = frees q" "inv q1"
      using deq_account [of q e q1] deq_some [of q e q1] d Suc.prems by auto
    then have "size (content q1) < n" using Suc.prems(2) by simp
    then obtain es q' G where r: "drain deq n q1 = Some (es, q')" "inv q'" "content q' = {#}"
      "mset es + G = content q1" "size G = drain_frees deq frees n q1"
      using Suc.IH F(3) by blast
    have "mset (e # es) + (F + G) = content q" unfolding F(1) r(4) [symmetric] by simp
    then show ?thesis using r(1-3,5) F(2) d Some by (intro exI [of _ "e # es"] exI [of _ q'] exI [of _ "F + G"]) simp
  qed
qed simp

end

locale lossless_queue = bounded_queue +
  assumes deq_lossless: "inv q \<Longrightarrow> deq q = (Some e, q') \<Longrightarrow> content q = add_mset e (content q')"
begin

lemma run_calls_exact:
  "inv q \<Longrightarrow> \<forall>c\<in>set cs. call_scored c \<Longrightarrow>
    \<exists>es q'. run_calls enq deq cs q = Some (es, q') \<and> inv q' \<and>
      mset es + content q' = call_entries cs + content q"
proof (induction cs arbitrary: q)
  case (Cons c cs)
  show ?case
  proof (cases c)
    case (Enqueue i g s)
    then obtain q1 where "enq q i g s = Some (0, q1)" "inv q1"
      "content q1 = add_mset (mk_entry i g s) (content q)"
      using enq_ok [of q s i g] Cons.prems by auto
    then show ?thesis using Cons.IH [of q1] Cons.prems Enqueue by auto
  next
    case (Rescore i s)
    then obtain q1 where "enq q i null_ptr s = Some (0, q1)" "inv q1"
      "content q1 = add_mset (mk_entry i null_ptr s) (content q)"
      using enq_ok [of q s i null_ptr] Cons.prems by auto
    then show ?thesis using Cons.IH [of q1] Cons.prems Rescore by auto
  next
    case Dequeue
    obtain r q1 where d: "deq q = (r, q1)" by force
    show ?thesis
    proof (cases r)
      case None
      then show ?thesis using Cons d Dequeue deq_none by fastforce
    next
      case (Some e)
      then have q1: "inv q1" "content q = add_mset e (content q1)"
        using deq_some deq_lossless d Cons.prems by auto
      then obtain es q' where "run_calls enq deq cs q1 = Some (es, q')" "inv q'"
        "mset es + content q' = call_entries cs + content q1"
        using Cons by fastforce
      then show ?thesis using q1 d Some Dequeue by simp
    qed
  qed
qed simp

lemma drain_exact:
  "inv q \<Longrightarrow> size (content q) < n \<Longrightarrow>
    \<exists>es q'. drain deq n q = Some (es, q') \<and> inv q' \<and> content q' = {#} \<and> mset es = content q"
proof (induction n arbitrary: q)
  case (Suc n)
  obtain r q1 where d: "deq q = (r, q1)" by force
  show ?case
  proof (cases r)
    case None
    then show ?thesis using Suc.prems d deq_none by fastforce
  next
    case (Some e)
    then have q1: "inv q1" "content q = add_mset e (content q1)"
      using deq_some deq_lossless d Suc.prems by auto
    then show ?thesis using Suc d Some by fastforce
  qed
qed simp

end

sublocale lossless_queue \<subseteq> accounted_queue enq deq content inv "\<lambda>_. 0"
  by unfold_locales (simp add: deq_lossless)

end
