(* ===== verification/QueueMaxheap.thy ===== *)
theory QueueMaxheap imports QueueInterface begin

text \<open>
  \<^verbatim>\<open>main/src/sgf-queue-maxheap.c\<close>: the single-tier baseline queue, a max-heap that grows
  without bound and always pops the entry of the highest score. It provides the
  \<open>lossless_queue\<close> contract.
\<close>

section \<open>State and operations\<close>

record maxheap_queue =
  heap :: earray

definition maxheap_push :: "earray \<Rightarrow> u32 \<Rightarrow> ptr \<Rightarrow> double \<Rightarrow> earray" where
  "maxheap_push h i gd s =
     (let h' = grow_if_full 256 h; node = mk_entry i gd s
      in h'\<lparr>entries := heap_push above_max (entries h') node\<rparr>)"

definition maxheap_pop :: "earray \<Rightarrow> (qentry \<times> earray) option" where
  "maxheap_pop h =
     (case heap_pop above_max (entries h) of
        None \<Rightarrow> None
      | Some (first, rest) \<Rightarrow> Some (first, h\<lparr>entries := rest\<rparr>))"

definition maxheap_create :: "nat \<Rightarrow> nat \<Rightarrow> nat \<Rightarrow> maxheap_queue" where
  "maxheap_create m r bad_cap = \<lparr>heap = \<lparr>entries = [], capacity = 256\<rparr>\<rparr>"

text \<open>The nodes passed to \<open>free\<close>, in order.\<close>

definition maxheap_destroy :: "maxheap_queue \<Rightarrow> qentry list" where
  "maxheap_destroy q = entries (heap q)"

definition maxheap_enqueue ::
    "maxheap_queue \<Rightarrow> u32 \<Rightarrow> ptr \<Rightarrow> double \<Rightarrow> (s32 \<times> maxheap_queue) option" where
  "maxheap_enqueue q i gd s = Some (0, q\<lparr>heap := maxheap_push (heap q) i gd s\<rparr>)"

definition maxheap_dequeue :: "maxheap_queue \<Rightarrow> qentry option \<times> maxheap_queue" where
  "maxheap_dequeue q =
     (if asize (heap q) = 0 then (None, q)
      else (case maxheap_pop (heap q) of
              None \<Rightarrow> (None, q)
            | Some (selected, h) \<Rightarrow> (Some selected, q\<lparr>heap := h\<rparr>)))"

definition maxheap_update_score ::
    "maxheap_queue \<Rightarrow> u32 \<Rightarrow> double \<Rightarrow> (s32 \<times> maxheap_queue) option" where
  "maxheap_update_score q i s = maxheap_enqueue q i null_ptr s"

definition maxheap_size :: "maxheap_queue \<Rightarrow> nat" where
  "maxheap_size q = asize (heap q)"

text \<open>The numbers of the statistics line.\<close>

definition maxheap_stats :: "maxheap_queue \<Rightarrow> nat list" where
  "maxheap_stats q = [asize (heap q), capacity (heap q), asize (heap q)]"

lemmas maxheap_defs [queue_defs] = maxheap_push_def maxheap_pop_def maxheap_create_def
  maxheap_enqueue_def maxheap_dequeue_def maxheap_update_score_def maxheap_size_def

section \<open>Invariant\<close>

definition maxheap_content :: "maxheap_queue \<Rightarrow> qentry multiset" where
  "maxheap_content q = mset (entries (heap q))"

definition maxheap_inv :: "maxheap_queue \<Rightarrow> bool" where
  "maxheap_inv q \<longleftrightarrow> is_heap above_max (entries (heap q)) \<and> (\<forall>e\<in>set (entries (heap q)). scored e) \<and>
     asize (heap q) \<le> capacity (heap q)"

lemma maxheap_create_inv: "maxheap_inv (maxheap_create m r b)"
  by (simp add: maxheap_inv_def maxheap_create_def heap_from_def asize_def)

lemma maxheap_create_content: "maxheap_content (maxheap_create m r b) = {#}"
  by (simp add: maxheap_content_def maxheap_create_def)

lemma maxheap_enqueue_ok:
  assumes "maxheap_inv q" and "not_nan s"
  shows "\<exists>q'. maxheap_enqueue q i gd s = Some (0, q') \<and> maxheap_inv q' \<and>
    maxheap_content q' = add_mset (mk_entry i gd s) (maxheap_content q)"
  using assms maxo.heap_push_heap [of "entries (heap q)" "mk_entry i gd s"]
  by (auto simp: maxheap_enqueue_def maxheap_push_def maxheap_inv_def maxheap_content_def
      Let_def heap_simps asize_def grow_if_full_def)

lemma maxheap_dequeue_Some:
  assumes "maxheap_inv q" and "maxheap_dequeue q = (Some e, q')"
  shows "heap_pop above_max (entries (heap q)) = Some (e, entries (heap q'))"
    and "maxheap_inv q'" and "maxheap_content q = add_mset e (maxheap_content q')"
proof -
  show p: "heap_pop above_max (entries (heap q)) = Some (e, entries (heap q'))"
    and c: "maxheap_content q = add_mset e (maxheap_content q')"
    using assms(2) heap_pop_Some(3)
    by (auto simp: maxheap_dequeue_def maxheap_pop_def maxheap_content_def
        split: if_splits option.splits)
  have "capacity (heap q') = capacity (heap q)"
    using assms(2) by (auto simp: maxheap_dequeue_def maxheap_pop_def split: if_splits option.splits)
  moreover have "set (entries (heap q')) \<subseteq> set (entries (heap q))"
    using c unfolding maxheap_content_def by (metis set_mset_mset set_mset_add_mset_insert subset_insertI)
  ultimately show "maxheap_inv q'"
    using assms(1) maxo.heap_pop_heap [OF _ _ p] heap_pop_Some(4) [OF p]
    by (auto simp: maxheap_inv_def asize_def)
qed

lemma maxheap_dequeue_None:
  "maxheap_dequeue q = (None, q') \<Longrightarrow> maxheap_content q = {#} \<and> q' = q"
  by (auto simp: maxheap_dequeue_def maxheap_pop_def maxheap_content_def asize_def
      split: if_splits option.splits)

interpretation maxq: lossless_queue maxheap_enqueue maxheap_dequeue maxheap_content maxheap_inv
proof unfold_locales
  fix q :: maxheap_queue and s i g e q'
  show "maxheap_inv q \<Longrightarrow> not_nan s \<Longrightarrow> \<exists>q'. maxheap_enqueue q i g s = Some (0, q') \<and>
    maxheap_inv q' \<and> maxheap_content q' = add_mset (mk_entry i g s) (maxheap_content q)"
    by (rule maxheap_enqueue_ok)
  show "maxheap_inv q \<Longrightarrow> maxheap_dequeue q = (None, q') \<Longrightarrow> maxheap_content q = {#} \<and> q' = q"
    by (rule maxheap_dequeue_None)
  show "maxheap_inv q \<Longrightarrow> maxheap_dequeue q = (Some e, q') \<Longrightarrow>
      maxheap_inv q' \<and> add_mset e (maxheap_content q') \<subseteq># maxheap_content q"
    using maxheap_dequeue_Some by simp
  show "maxheap_inv q \<Longrightarrow> maxheap_dequeue q = (Some e, q') \<Longrightarrow>
      maxheap_content q = add_mset e (maxheap_content q')"
    by (rule maxheap_dequeue_Some)
qed

section \<open>Draining in score order\<close>

lemma maxheap_dequeue_best:
  assumes "maxheap_inv q" and "maxheap_dequeue q = (Some e, q')" and "y \<in># maxheap_content q"
  shows "\<not> score e < score y"
proof -
  note p = maxheap_dequeue_Some(1) [OF assms(1,2)]
  have "y \<in> set (entries (heap q))" using assms(3) by (simp add: maxheap_content_def)
  then show ?thesis
    using maxo.heap_root_best [of "entries (heap q)" y] assms(1) heap_pop_Some(2) [OF p]
    by (simp add: maxheap_inv_def above_max_def)
qed

lemma maxheap_drain_descending:
  "maxheap_inv q \<Longrightarrow> drain maxheap_dequeue n q = Some (es, q') \<Longrightarrow>
    descending es \<and> set es \<subseteq> set_mset (maxheap_content q)"
proof (induction n arbitrary: q es)
  case (Suc n)
  obtain r q1 where d: "maxheap_dequeue q = (r, q1)" by force
  show ?case
  proof (cases r)
    case None
    then show ?thesis using Suc.prems d by (simp add: descending_def)
  next
    case (Some e)
    then obtain es1 where r: "drain maxheap_dequeue n q1 = Some (es1, q')" "es = e # es1"
      using Suc.prems d by (auto split: option.splits)
    note q1 = maxheap_dequeue_Some(2,3) [OF Suc.prems(1)] maxheap_dequeue_best [OF Suc.prems(1)]
    have "descending es1" "set es1 \<subseteq> set_mset (maxheap_content q1)"
      using Suc.IH [OF q1(1) r(1)] d Some by auto
    then show ?thesis using q1(2,3) d Some r(2) by (auto simp: descending_def)
  qed
qed simp

section \<open>Properties\<close>

text \<open>
  C36. \<open>maxheap_dequeue\<close> always selects the candidate of the maximum score: the entry it
  returns leaves the queue, no other entry does, and no entry of the queue has a higher score.
\<close>

theorem maxheap_dequeue_selects_max:
  assumes "maxheap_inv q" and "maxheap_dequeue q = (Some e, q')"
  shows "maxheap_content q = add_mset e (maxheap_content q') \<and> maxheap_inv q' \<and>
    (\<forall>y\<in>#maxheap_content q. \<not> score e < score y)"
  using maxheap_dequeue_Some(2,3) [OF assms] maxheap_dequeue_best [OF assms] by blast

text \<open>
  C35. From a fresh queue, any sequence of calls runs, and draining what they leave ends after at
  most one dequeue more than there are entries: it returns every remaining entry, highest score
  first.
\<close>

theorem maxheap_session_drains_in_order:
  assumes "\<forall>c\<in>set cs. call_scored c"
  shows "\<exists>es q ds q'. run_calls maxheap_enqueue maxheap_dequeue cs (maxheap_create m r b) = Some (es, q) \<and>
    drain maxheap_dequeue (Suc (maxheap_size q)) q = Some (ds, q') \<and> maxheap_size q' = 0 \<and>
    mset es + mset ds = call_entries cs \<and> descending ds"
proof -
  obtain es q where r: "run_calls maxheap_enqueue maxheap_dequeue cs (maxheap_create m r b) = Some (es, q)"
    "maxheap_inv q" "mset es + maxheap_content q = call_entries cs"
    using maxq.run_calls_exact [OF maxheap_create_inv assms, of m r b]
    by (auto simp: maxheap_create_content)
  have sz: "maxheap_size p = size (maxheap_content p)" for p
    by (simp add: maxheap_size_def maxheap_content_def asize_def)
  obtain ds q' where d: "drain maxheap_dequeue (Suc (maxheap_size q)) q = Some (ds, q')"
    "maxheap_content q' = {#}" "mset ds = maxheap_content q"
    using maxq.drain_exact [OF r(2), of "Suc (maxheap_size q)"] sz by auto
  show ?thesis using r d maxheap_drain_descending [OF r(2) d(1)] sz by simp
qed

section \<open>Witnesses\<close>

definition maxheap_sample :: maxheap_queue where
  "maxheap_sample =
     \<lparr>heap = \<lparr>entries = [mk_entry 1 16 (Fin 5), mk_entry 2 32 (Fin 3)], capacity = 4\<rparr>\<rparr>"

lemma maxheap_sample_inv: "maxheap_inv maxheap_sample"
  by (auto simp: maxheap_sample_def maxheap_inv_def asize_def heap_from_def above_max_def)

lemma maxheap_sample_dequeue:
  "maxheap_dequeue maxheap_sample = (Some (mk_entry 1 16 (Fin 5)), snd (maxheap_dequeue maxheap_sample))"
  by code_simp

theorem maxheap_dequeue_selects_max_witness:
  "maxheap_content maxheap_sample
    = add_mset (mk_entry 1 16 (Fin 5)) (maxheap_content (snd (maxheap_dequeue maxheap_sample)))"
  using maxheap_dequeue_selects_max [OF maxheap_sample_inv maxheap_sample_dequeue] by simp

theorem maxheap_session_drains_in_order_witness:
  "\<exists>es q. run_calls maxheap_enqueue maxheap_dequeue [Enqueue 1 16 (Fin 1), Dequeue, Rescore 2 (Fin 3)]
      (maxheap_create 0 0 0) = Some (es, q)"
  using maxheap_session_drains_in_order [of "[Enqueue 1 16 (Fin 1), Dequeue, Rescore 2 (Fin 3)]" 0 0 0]
  by auto

end
