(* ===== verification/QueueTiers.thy ===== *)
theory QueueTiers imports QueueInterface begin

text \<open>
  The lower tiers of the bounded queues: the runner-up array, kept in ascending score order by
  binary search and shifting, the unbounded overflow array, and the admission of an entry to
  them. \<^verbatim>\<open>sgf-queue-runner-up.c\<close> and \<^verbatim>\<open>sgf-queue-maxheap-bucket.c\<close> carry identical
  copies of this code under the prefixes \<open>rup_\<close> and \<open>mhb_\<close>; the theories of the two
  queues name their copies. The interface every queue implementation promises its
  caller is the locale \<open>bounded_queue\<close>, with \<open>lossless_queue\<close> above it.
\<close>

section \<open>Sorted array\<close>

function bsearch_pos :: "qentry list \<Rightarrow> double \<Rightarrow> nat \<Rightarrow> nat \<Rightarrow> nat" where
  "bsearch_pos xs s left right =
     (if left < right then
        let mid = (left + right) div 2
        in if score (xs ! mid) < s then bsearch_pos xs s (mid + 1) right
           else bsearch_pos xs s left mid
      else left)"
  by pat_completeness auto
termination
  by (relation "measure (\<lambda>(xs, s, left, right). right - left)") auto

declare bsearch_pos.simps [simp del]

text \<open>\<open>for (i = size; i > left; i--) entries[i] = entries[i - 1];\<close>\<close>

fun shift_right :: "'a list \<Rightarrow> nat \<Rightarrow> nat \<Rightarrow> 'a list" where
  "shift_right xs i left =
     (if left < i then shift_right (xs[i := xs ! (i - 1)]) (i - 1) left else xs)"

declare shift_right.simps [simp del]

text \<open>\<open>for (i = 0; i < size; i++) entries[i] = entries[i + 1];\<close>\<close>

function shift_left :: "'a list \<Rightarrow> nat \<Rightarrow> nat \<Rightarrow> 'a list" where
  "shift_left xs i n =
     (if i < n then shift_left (xs[i := xs ! (i + 1)]) (i + 1) n else xs)"
  by pat_completeness auto
termination
  by (relation "measure (\<lambda>(xs, i, n). n - i)") auto

declare shift_left.simps [simp del]

definition insert_sorted :: "qentry list \<Rightarrow> qentry \<Rightarrow> qentry list" where
  "insert_sorted xs node =
     (let left = bsearch_pos xs (score node) 0 (length xs)
      in (shift_right (xs @ [node]) (length xs) left)[left := node])"

definition sorted_insert :: "earray \<Rightarrow> qentry \<Rightarrow> earray" where
  "sorted_insert arr node =
     (let arr' = grow_if_full 64 arr in arr'\<lparr>entries := insert_sorted (entries arr') node\<rparr>)"

definition sorted_pop_max :: "earray \<Rightarrow> (qentry \<times> earray) option" where
  "sorted_pop_max arr =
     (if asize arr = 0 then None
      else Some (entries arr ! (asize arr - 1), arr\<lparr>entries := butlast (entries arr)\<rparr>))"

definition dynamic_append :: "earray \<Rightarrow> qentry \<Rightarrow> earray" where
  "dynamic_append arr node =
     (let arr' = grow_if_full 1024 arr in arr'\<lparr>entries := entries arr' @ [node]\<rparr>)"

text \<open>The worst runner-up leaves the array: \<open>size--\<close> and the shift to the left.\<close>

definition drop_worst :: "earray \<Rightarrow> earray" where
  "drop_worst arr =
     arr\<lparr>entries := take (asize arr - 1) (shift_left (entries arr) 0 (asize arr - 1))\<rparr>"

section \<open>Admission to the lower tiers\<close>

definition admit_lower :: "nat \<Rightarrow> earray \<Rightarrow> earray \<Rightarrow> qentry \<Rightarrow> earray \<times> earray" where
  "admit_lower r ru bad e =
     (if r = 0 then (ru, dynamic_append bad e)
      else if asize ru < capacity ru then (sorted_insert ru e, bad)
      else if 0 < asize ru \<and> score (entries ru ! 0) < score e
      then (sorted_insert (drop_worst ru) e, dynamic_append bad (entries ru ! 0))
      else (ru, dynamic_append bad e))"

section \<open>Lemmas\<close>

definition ascending :: "qentry list \<Rightarrow> bool" where
  "ascending xs \<longleftrightarrow> sorted_wrt (\<lambda>x y. \<not> score y < score x) xs"

lemma ascending_nth:
  "ascending xs \<Longrightarrow> i < j \<Longrightarrow> j < length xs \<Longrightarrow> \<not> score (xs ! j) < score (xs ! i)"
  unfolding ascending_def by (drule sorted_wrt_nth_less) auto

lemma bsearch_pos_step:
  "left < right \<Longrightarrow> score (xs ! ((left + right) div 2)) < s
    \<Longrightarrow> bsearch_pos xs s left right = bsearch_pos xs s ((left + right) div 2 + 1) right"
  "left < right \<Longrightarrow> \<not> score (xs ! ((left + right) div 2)) < s
    \<Longrightarrow> bsearch_pos xs s left right = bsearch_pos xs s left ((left + right) div 2)"
  "\<not> left < right \<Longrightarrow> bsearch_pos xs s left right = left"
  by (subst bsearch_pos.simps, simp add: Let_def)+

lemma bsearch_pos_bounds:
  "left \<le> right \<Longrightarrow> left \<le> bsearch_pos xs s left right \<and> bsearch_pos xs s left right \<le> right"
proof (induction xs s left right rule: bsearch_pos.induct)
  case (1 xs s left right)
  let ?mid = "(left + right) div 2"
  show ?case
  proof (cases "left < right")
    case True
    then have m: "left \<le> ?mid" "?mid < right" by auto
    show ?thesis
    proof (cases "score (xs ! ?mid) < s")
      case a: True
      then show ?thesis using "1.IH"(1) [OF True refl a] m
        unfolding bsearch_pos_step(1) [OF True a] by simp
    next
      case a: False
      then show ?thesis using "1.IH"(2) [OF True refl a] m
        unfolding bsearch_pos_step(2) [OF True a] by simp
    qed
  next
    case False
    then show ?thesis using "1.prems" unfolding bsearch_pos_step(3) [OF False] by simp
  qed
qed

text \<open>The search splits an ascending array at the first score that is not below \<open>s\<close>.\<close>

lemma bsearch_pos_split:
  assumes "ascending xs" and "\<forall>x\<in>set xs. scored x"
    and "left \<le> right" and "right \<le> length xs"
    and "\<forall>i<left. score (xs ! i) < s"
    and "\<forall>i. right \<le> i \<and> i < length xs \<longrightarrow> \<not> score (xs ! i) < s"
  shows "(\<forall>i<bsearch_pos xs s left right. score (xs ! i) < s) \<and>
    (\<forall>i. bsearch_pos xs s left right \<le> i \<and> i < length xs \<longrightarrow> \<not> score (xs ! i) < s)"
  using assms
proof (induction xs s left right rule: bsearch_pos.induct)
  case (1 xs s left right)
  show ?case
  proof (cases "left < right")
    case True
    let ?mid = "(left + right) div 2"
    have m: "left \<le> ?mid" "?mid < right" using True by auto
    have okn: "\<And>i. i < length xs \<Longrightarrow> not_nan (score (xs ! i))" using "1.prems"(2) by auto
    show ?thesis
    proof (cases "score (xs ! ?mid) < s")
      case mid: True
      have below: "score (xs ! i) < s" if "i < ?mid + 1" for i
      proof (cases "i = ?mid")
        case False
        then have "\<not> score (xs ! ?mid) < score (xs ! i)"
          using ascending_nth [OF "1.prems"(1), of i ?mid] that m "1.prems"(4) by simp
        moreover have "not_nan (score (xs ! i))" "not_nan (score (xs ! ?mid))"
          using okn [of i] okn [of ?mid] that m "1.prems"(4) by simp_all
        ultimately have "score (xs ! i) \<le> score (xs ! ?mid)" using double_not_less by blast
        then show ?thesis using double_le_less_trans mid by blast
      qed (simp add: mid)
      have "(\<forall>i<bsearch_pos xs s (?mid + 1) right. score (xs ! i) < s) \<and>
        (\<forall>i. bsearch_pos xs s (?mid + 1) right \<le> i \<and> i < length xs \<longrightarrow> \<not> score (xs ! i) < s)"
        by (intro "1.IH"(1) [OF True refl mid] "1.prems" allI impI) (use m below in simp_all)
      then show ?thesis unfolding bsearch_pos_step(1) [OF True mid] .
    next
      case mid: False
      have above: "\<not> score (xs ! i) < s" if "?mid \<le> i" "i < length xs" for i
      proof (cases "i = ?mid")
        case False
        then have "\<not> score (xs ! i) < score (xs ! ?mid)"
          using ascending_nth [OF "1.prems"(1), of ?mid i] that m by simp
        moreover have "not_nan (score (xs ! ?mid))" using okn [of ?mid] m "1.prems"(4) by simp
        ultimately show ?thesis using double_negtrans mid by blast
      qed (simp add: mid)
      have "(\<forall>i<bsearch_pos xs s left ?mid. score (xs ! i) < s) \<and>
        (\<forall>i. bsearch_pos xs s left ?mid \<le> i \<and> i < length xs \<longrightarrow> \<not> score (xs ! i) < s)"
        by (intro "1.IH"(2) [OF True refl mid] "1.prems"(1,2,5) allI impI)
          (use m above "1.prems"(4) in simp_all)
      then show ?thesis unfolding bsearch_pos_step(2) [OF True mid] .
    qed
  next
    case False
    then show ?thesis using "1.prems" unfolding bsearch_pos_step(3) [OF False] by simp
  qed
qed

lemma shift_right_eq:
  "left \<le> i \<Longrightarrow> i < length xs \<Longrightarrow>
    shift_right xs i left = take (Suc left) xs @ drop left (take i xs) @ drop (Suc i) xs"
proof (induction i arbitrary: xs)
  case 0
  then show ?case
    by (subst shift_right.simps) (simp add: append_take_drop_id)
next
  case (Suc i)
  show ?case
  proof (cases "left < Suc i")
    case True
    let ?ys = "xs[Suc i := xs ! i]"
    have "shift_right xs (Suc i) left = shift_right ?ys i left"
      using True by (subst shift_right.simps) simp
    also have "\<dots> = take (Suc left) ?ys @ drop left (take i ?ys) @ drop (Suc i) ?ys"
      using Suc True by simp
    also have "take (Suc left) ?ys = take (Suc left) xs" using True by simp
    also have "drop (Suc i) ?ys = xs ! i # drop (Suc (Suc i)) xs"
      using Suc.prems by (simp add: Cons_nth_drop_Suc [symmetric])
    also have "take i ?ys = take i xs" by simp
    also have "drop left (take i xs) @ xs ! i # drop (Suc (Suc i)) xs
        = drop left (take (Suc i) xs) @ drop (Suc (Suc i)) xs"
      using True Suc.prems by (simp add: take_Suc_conv_app_nth)
    finally show ?thesis .
  next
    case False
    then have l: "left = Suc i" using Suc.prems by simp
    then show ?thesis using Suc.prems
      by (subst shift_right.simps) simp
  qed
qed

lemma insert_sorted_eq:
  defines "p \<equiv> \<lambda>xs e. bsearch_pos xs (score e) 0 (length xs)"
  shows "insert_sorted xs e = take (p xs e) xs @ [e] @ drop (p xs e) xs"
proof -
  have p: "p xs e \<le> length xs" using bsearch_pos_bounds [of 0 "length xs"] by (simp add: p_def)
  have "insert_sorted xs e = (shift_right (xs @ [e]) (length xs) (p xs e))[p xs e := e]"
    by (simp add: insert_sorted_def p_def Let_def)
  also have "shift_right (xs @ [e]) (length xs) (p xs e)
      = take (Suc (p xs e)) (xs @ [e]) @ drop (p xs e) xs"
    using p by (subst shift_right_eq) auto
  also have "(take (Suc (p xs e)) (xs @ [e]) @ drop (p xs e) xs)[p xs e := e]
      = take (p xs e) xs @ [e] @ drop (p xs e) xs"
    using p by (auto simp: list_update_append take_Suc_conv_app_nth nth_append)
  finally show ?thesis .
qed

lemma mset_insert_sorted: "mset (insert_sorted xs e) = add_mset e (mset xs)"
proof -
  have "bsearch_pos xs (score e) 0 (length xs) \<le> length xs"
    using bsearch_pos_bounds [of 0 "length xs" xs "score e"] by simp
  then show ?thesis unfolding insert_sorted_eq by (rule mset_insert_at)
qed

lemma set_insert_sorted: "set (insert_sorted xs e) = insert e (set xs)"
  by (metis mset_insert_sorted set_mset_add_mset_insert set_mset_mset)

lemma length_insert_sorted: "length (insert_sorted xs e) = Suc (length xs)"
  by (metis mset_insert_sorted size_add_mset size_mset)

lemma ascending_insert_sorted:
  assumes "ascending xs" and "\<forall>x\<in>set xs. scored x" and "scored e"
  shows "ascending (insert_sorted xs e)"
proof -
  define p where "p = bsearch_pos xs (score e) 0 (length xs)"
  have p: "p \<le> length xs" using bsearch_pos_bounds [of 0 "length xs"] by (simp add: p_def)
  have lo: "\<forall>i<p. score (xs ! i) < score e"
    and hi: "\<forall>i. p \<le> i \<and> i < length xs \<longrightarrow> \<not> score (xs ! i) < score e"
    unfolding p_def by ((rule bsearch_pos_split [OF assms(1,2), THEN conjunct1]
      bsearch_pos_split [OF assms(1,2), THEN conjunct2]); auto)+
  have "\<forall>x\<in>set (take p xs). \<not> score e < score x"
    using lo p double_asym by (metis in_set_conv_nth length_take min.absorb2 nth_take)
  moreover have "\<forall>x\<in>set (drop p xs). \<not> score x < score e"
    using hi by (force simp: in_set_conv_nth)
  moreover have "sorted_wrt (\<lambda>x y. \<not> score y < score x) (take p xs @ drop p xs)"
    using assms(1) by (simp add: ascending_def)
  ultimately show ?thesis
    unfolding ascending_def insert_sorted_eq p_def [symmetric]
    by (auto simp: sorted_wrt_append simp del: append_take_drop_id)
qed

lemma shift_left_take:
  "i \<le> n \<Longrightarrow> n < length xs \<Longrightarrow>
    take n (shift_left xs i n) = take i xs @ take (n - i) (drop (Suc i) xs)"
proof (induction xs i n rule: shift_left.induct)
  case (1 xs i n)
  show ?case
  proof (cases "i < n")
    case True
    then have "take n (shift_left xs i n)
        = take (Suc i) (xs[i := xs ! Suc i]) @ take (n - Suc i) (drop (Suc (Suc i)) xs)"
      using "1.IH" "1.prems" by (subst shift_left.simps) simp
    also have "take (Suc i) (xs[i := xs ! Suc i]) = take i xs @ [xs ! Suc i]"
      using True "1.prems" by (simp add: take_Suc_conv_app_nth)
    also have "(take i xs @ [xs ! Suc i]) @ take (n - Suc i) (drop (Suc (Suc i)) xs)
        = take i xs @ take (n - i) (drop (Suc i) xs)"
    proof -
      have d: "drop (Suc i) xs = xs ! Suc i # drop (Suc (Suc i)) xs"
        using True "1.prems" by (simp add: Cons_nth_drop_Suc)
      have n: "n - i = Suc (n - Suc i)" using True by simp
      show ?thesis unfolding d n by simp
    qed
    finally show ?thesis .
  next
    case False
    then show ?thesis using "1.prems" by (subst shift_left.simps) simp
  qed
qed

lemma entries_drop_worst: "0 < asize arr \<Longrightarrow> entries (drop_worst arr) = tl (entries arr)"
  unfolding drop_worst_def asize_def
  by (simp add: shift_left_take drop_Suc)

lemma capacity_drop_worst [simp]: "capacity (drop_worst arr) = capacity arr"
  by (simp add: drop_worst_def)

lemma entries_dynamic_append [simp]: "entries (dynamic_append arr e) = entries arr @ [e]"
  by (simp add: dynamic_append_def Let_def)

lemma entries_sorted_insert [simp]: "entries (sorted_insert arr e) = insert_sorted (entries arr) e"
  by (simp add: sorted_insert_def Let_def)

lemma capacity_sorted_insert: "asize arr < capacity arr \<Longrightarrow> capacity (sorted_insert arr e) = capacity arr"
  by (simp add: sorted_insert_def Let_def grow_if_full_def)

text \<open>The array never exceeds the capacity the queue was created with.\<close>

definition runner_ok :: "nat \<Rightarrow> earray \<Rightarrow> bool" where
  "runner_ok r ru \<longleftrightarrow> capacity ru = r \<and> asize ru \<le> r \<and> ascending (entries ru) \<and>
     (\<forall>x\<in>set (entries ru). scored x)"

lemma ascending_tl: "ascending xs \<Longrightarrow> ascending (tl xs)"
  by (cases xs) (auto simp: ascending_def)

lemma ascending_butlast: "ascending xs \<Longrightarrow> ascending (butlast xs)"
  by (cases xs rule: rev_cases) (auto simp: ascending_def sorted_wrt_append)

lemma admit_lower_cases:
  "admit_lower r ru bad e = (ru, dynamic_append bad e) \<or>
   (asize ru < capacity ru \<and> admit_lower r ru bad e = (sorted_insert ru e, bad)) \<or>
   (0 < asize ru \<and>
    admit_lower r ru bad e = (sorted_insert (drop_worst ru) e, dynamic_append bad (entries ru ! 0)))"
  by (simp add: admit_lower_def)

lemma admit_lower_mset:
  assumes "admit_lower r ru bad e = (ru', bad')"
  shows "mset (entries ru') + mset (entries bad') = add_mset e (mset (entries ru) + mset (entries bad))"
  using admit_lower_cases [of r ru bad e]
proof (elim disjE conjE)
  assume a: "0 < asize ru"
    "admit_lower r ru bad e = (sorted_insert (drop_worst ru) e, dynamic_append bad (entries ru ! 0))"
  then have "entries ru \<noteq> []" by (auto simp: asize_def)
  then have "mset (entries ru) = add_mset (entries ru ! 0) (mset (tl (entries ru)))"
    by (metis mset_hd_tl hd_conv_nth)
  then show ?thesis using assms a by (auto simp: entries_drop_worst mset_insert_sorted)
qed (use assms in \<open>auto simp: mset_insert_sorted\<close>)

lemma admit_lower_runner_ok:
  assumes "admit_lower r ru bad e = (ru', bad')" and ok: "runner_ok r ru" and e: "scored e"
  shows "runner_ok r ru'"
  using admit_lower_cases [of r ru bad e] unfolding assms(1) prod.inject
proof (elim disjE conjE)
  assume "ru' = ru"
  then show ?thesis using ok by simp
next
  assume "asize ru < capacity ru" "ru' = sorted_insert ru e"
  then show ?thesis using ok e
    by (auto simp: runner_ok_def capacity_sorted_insert asize_def length_insert_sorted
        set_insert_sorted ascending_insert_sorted)
next
  assume evict: "0 < asize ru" "ru' = sorted_insert (drop_worst ru) e"
  let ?d = "drop_worst ru"
  have d: "entries ?d = tl (entries ru)" using evict by (simp add: entries_drop_worst)
  have a: "ascending (entries ?d)" using ok d by (simp add: runner_ok_def ascending_tl)
  have "set (tl (entries ru)) \<subseteq> set (entries ru)" by (cases "entries ru") auto
  then have s: "\<forall>x\<in>set (entries ?d). scored x"
    using ok d by (auto simp: runner_ok_def)
  have "length (entries ru) - 1 < length (entries ru)" using evict by (simp add: asize_def)
  then have c: "asize ?d < capacity ?d" using ok d by (simp add: runner_ok_def asize_def)
  show ?thesis
    using ascending_insert_sorted [OF a s e] s e c ok evict d
    by (auto simp: runner_ok_def capacity_sorted_insert asize_def length_insert_sorted
        set_insert_sorted)
qed

lemma admit_lower_runner_set:
  assumes "admit_lower r ru bad e = (ru', bad')"
  shows "set (entries ru') \<subseteq> insert e (set (entries ru))"
  using admit_lower_cases [of r ru bad e] unfolding assms(1) prod.inject
proof (elim disjE conjE)
  assume a: "0 < asize ru" "ru' = sorted_insert (drop_worst ru) e"
  have "set (tl (entries ru)) \<subseteq> set (entries ru)" by (cases "entries ru") auto
  then show ?thesis using a by (auto simp: set_insert_sorted entries_drop_worst)
qed (auto simp: set_insert_sorted)

lemma sorted_pop_max_Some:
  assumes "sorted_pop_max arr = Some (e, arr')"
  shows "mset (entries arr) = add_mset e (mset (entries arr'))" and "entries arr \<noteq> []"
    and "e = last (entries arr)" and "entries arr' = butlast (entries arr)"
    and "capacity arr' = capacity arr"
  using assms
  by (auto simp: sorted_pop_max_def asize_def mset_butlast_last last_conv_nth split: if_splits)

lemma sorted_pop_max_runner_ok:
  assumes "sorted_pop_max arr = Some (e, arr')" and "runner_ok r arr"
  shows "runner_ok r arr'" and "scored e"
  using assms sorted_pop_max_Some [OF assms(1)]
  by (auto simp: runner_ok_def ascending_butlast asize_def dest: in_set_butlastD)

lemma sorted_pop_max_None: "sorted_pop_max arr = None \<longleftrightarrow> entries arr = []"
  by (simp add: sorted_pop_max_def asize_def)

end
