(* ===== verification/QueueRunnerUp.thy ===== *)
theory QueueRunnerUp imports QueueTiers begin

text \<open>
  \<^verbatim>\<open>main/src/sgf-queue-runner-up.c\<close>: the three-tier queue. \<open>good_pile\<close> is a min-heap of
  at most \<open>m\<close> candidates, \<open>runner_up\<close> a sorted array of at most \<open>r\<close>,
  \<open>bad_pile\<close> the overflow. A dequeue takes the last leaf of the heap and promotes the best
  runner-up; when the two upper tiers are empty the heap is rebuilt from the overflow, of which
  only the best \<open>m\<close> survive. It provides the \<open>bounded_queue\<close> contract.
\<close>

section \<open>State and operations\<close>

record rup_queue =
  rup_good :: earray
  rup_runner :: earray
  rup_bad :: earray
  rup_m :: nat
  rup_r :: nat

definition rup_heappush :: "earray \<Rightarrow> u32 \<Rightarrow> ptr \<Rightarrow> double \<Rightarrow> earray" where
  "rup_heappush h i gd s =
     (let h' = grow_if_full 128 h; node = mk_entry i gd s
      in h'\<lparr>entries := heap_push above_min (entries h') node\<rparr>)"

definition rup_heappop :: "earray \<Rightarrow> (qentry \<times> earray) option" where
  "rup_heappop h =
     (case heap_pop above_min (entries h) of
        None \<Rightarrow> None
      | Some (first, rest) \<Rightarrow> Some (first, h\<lparr>entries := rest\<rparr>))"

definition rup_sorted_insert :: "earray \<Rightarrow> u32 \<Rightarrow> ptr \<Rightarrow> double \<Rightarrow> earray" where
  "rup_sorted_insert arr i gd s = sorted_insert arr (mk_entry i gd s)"

definition rup_sorted_pop_max :: "earray \<Rightarrow> (qentry \<times> earray) option" where
  "rup_sorted_pop_max arr = sorted_pop_max arr"

definition rup_dynamic_append :: "earray \<Rightarrow> u32 \<Rightarrow> ptr \<Rightarrow> double \<Rightarrow> earray" where
  "rup_dynamic_append arr i gd s = dynamic_append arr (mk_entry i gd s)"

definition rup_admit_to_runner_up :: "rup_queue \<Rightarrow> u32 \<Rightarrow> ptr \<Rightarrow> double \<Rightarrow> rup_queue" where
  "rup_admit_to_runner_up q i gd s =
     (let (ru, bad) = admit_lower (rup_r q) (rup_runner q) (rup_bad q) (mk_entry i gd s)
      in q\<lparr>rup_runner := ru, rup_bad := bad\<rparr>)"

fun rup_rebuild_scan :: "nat \<Rightarrow> qentry list \<Rightarrow> earray \<Rightarrow> earray" where
  "rup_rebuild_scan m [] gp = gp"
| "rup_rebuild_scan m (node # nodes) gp =
     (let gp' = rup_heappush gp (entry_id node) (graph_data node) (score node)
      in rup_rebuild_scan m nodes
           (if m < asize gp'
            then (case rup_heappop gp' of None \<Rightarrow> gp' | Some (evicted, gp'') \<Rightarrow> gp'')
            else gp'))"

definition rup_rebuild_from_bad :: "rup_queue \<Rightarrow> rup_queue" where
  "rup_rebuild_from_bad q =
     (if asize (rup_bad q) = 0 then q
      else q\<lparr>rup_good := rup_rebuild_scan (rup_m q) (entries (rup_bad q)) ((rup_good q)\<lparr>entries := []\<rparr>),
             rup_bad := (rup_bad q)\<lparr>entries := []\<rparr>,
             rup_runner := (rup_runner q)\<lparr>entries := []\<rparr>\<rparr>)"

definition rup_create :: "nat \<Rightarrow> nat \<Rightarrow> nat \<Rightarrow> rup_queue" where
  "rup_create m r bad_cap =
     \<lparr>rup_good = \<lparr>entries = [], capacity = m\<rparr>,
      rup_runner = \<lparr>entries = [], capacity = r\<rparr>,
      rup_bad = \<lparr>entries = [], capacity = (if bad_cap \<noteq> 0 then bad_cap else 100000)\<rparr>,
      rup_m = m, rup_r = r\<rparr>"

text \<open>The nodes passed to \<open>free\<close>, in order.\<close>

definition rup_destroy :: "rup_queue \<Rightarrow> qentry list" where
  "rup_destroy q = entries (rup_good q) @ entries (rup_runner q) @ entries (rup_bad q)"

definition rup_enqueue :: "rup_queue \<Rightarrow> u32 \<Rightarrow> ptr \<Rightarrow> double \<Rightarrow> (s32 \<times> rup_queue) option" where
  "rup_enqueue q i gd s =
     (if asize (rup_good q) < rup_m q
      then Some (0, q\<lparr>rup_good := rup_heappush (rup_good q) i gd s\<rparr>)
      else if asize (rup_good q) = 0 then None
      else if score (entries (rup_good q) ! 0) < s
      then (case rup_heappop (rup_good q) of
              None \<Rightarrow> None
            | Some (evicted, gp) \<Rightarrow>
                Some (0, rup_admit_to_runner_up (q\<lparr>rup_good := rup_heappush gp i gd s\<rparr>)
                           (entry_id evicted) (graph_data evicted) (score evicted)))
      else Some (0, rup_admit_to_runner_up q i gd s))"

text \<open>The tail of the dequeue: take the last leaf, then promote the best runner-up.\<close>

definition rup_take_leaf :: "rup_queue \<Rightarrow> qentry option \<times> rup_queue" where
  "rup_take_leaf q =
     (let gp = rup_good q; selected = entries gp ! (asize gp - 1);
          gp' = gp\<lparr>entries := butlast (entries gp)\<rparr>
      in (Some selected,
          (case rup_sorted_pop_max (rup_runner q) of
             None \<Rightarrow> q\<lparr>rup_good := gp'\<rparr>
           | Some (promoted, ru) \<Rightarrow>
               q\<lparr>rup_good := rup_heappush gp' (entry_id promoted) (graph_data promoted) (score promoted),
                 rup_runner := ru\<rparr>)))"

definition rup_dequeue :: "rup_queue \<Rightarrow> qentry option \<times> rup_queue" where
  "rup_dequeue q =
     (let q' = (if asize (rup_good q) = 0 \<and> asize (rup_runner q) = 0
                then rup_rebuild_from_bad q else q)
      in if asize (rup_good q') = 0 then (None, q') else rup_take_leaf q')"

definition rup_update_score :: "rup_queue \<Rightarrow> u32 \<Rightarrow> double \<Rightarrow> (s32 \<times> rup_queue) option" where
  "rup_update_score q i s = rup_enqueue q i null_ptr s"

definition rup_size :: "rup_queue \<Rightarrow> nat" where
  "rup_size q = asize (rup_good q) + asize (rup_runner q) + asize (rup_bad q)"

text \<open>The numbers of the statistics line.\<close>

definition rup_stats :: "rup_queue \<Rightarrow> nat list" where
  "rup_stats q =
     [asize (rup_good q), capacity (rup_good q), asize (rup_runner q), capacity (rup_runner q),
      asize (rup_bad q), capacity (rup_bad q),
      asize (rup_good q) + asize (rup_runner q) + asize (rup_bad q)]"

section \<open>Invariant\<close>

definition rup_content :: "rup_queue \<Rightarrow> qentry multiset" where
  "rup_content q = mset (entries (rup_good q)) + mset (entries (rup_runner q)) + mset (entries (rup_bad q))"

text \<open>
  The good pile is a min-heap within its bound, the runner-ups are sorted and within theirs, no
  runner-up beats a good one, and there are runner-ups only while the good pile is full.
\<close>

definition rup_inv :: "rup_queue \<Rightarrow> bool" where
  "rup_inv q \<longleftrightarrow>
     0 < rup_m q \<and> asize (rup_good q) \<le> rup_m q \<and> is_heap above_min (entries (rup_good q)) \<and>
     (\<forall>g\<in>set (entries (rup_good q)). scored g) \<and>
     runner_ok (rup_r q) (rup_runner q) \<and>
     (\<forall>g\<in>set (entries (rup_good q)). \<forall>x\<in>set (entries (rup_runner q)). \<not> score g < score x) \<and>
     (entries (rup_runner q) \<noteq> [] \<longrightarrow> asize (rup_good q) = rup_m q) \<and>
     (\<forall>x\<in>set (entries (rup_bad q)). scored x)"

lemma entries_rup_heappush [simp]:
  "entries (rup_heappush h i gd s) = heap_push above_min (entries h) (mk_entry i gd s)"
  by (simp add: rup_heappush_def Let_def)

lemma rup_heappop_Some:
  "rup_heappop h = Some (x, h') \<Longrightarrow> heap_pop above_min (entries h) = Some (x, entries h')"
  by (auto simp: rup_heappop_def split: option.splits)

lemma rup_heappop_None: "rup_heappop h = None \<longleftrightarrow> entries h = []"
  by (cases "entries h = []") (auto simp: rup_heappop_def heap_pop_def Let_def)

lemma rup_create_inv: "0 < m \<Longrightarrow> rup_inv (rup_create m r b)"
  by (simp add: rup_inv_def rup_create_def asize_def heap_from_def runner_ok_def ascending_def)

lemma rup_rebuild_scan_entries:
  "entries (rup_rebuild_scan m nodes gp) = keep_scan above_min m nodes (entries gp)"
proof (induction m nodes gp rule: rup_rebuild_scan.induct)
  case (2 m node nodes gp)
  let ?h = "heap_push above_min (entries gp) node"
  obtain x rest where "heap_pop above_min ?h = Some (x, rest)"
    by (metis heap_pop_None heap_push_ne option.exhaust surj_pair)
  then show ?case using 2
    by (simp add: Let_def asize_def rup_heappop_def)
qed simp

lemma rup_admit_fields [simp]:
  "rup_good (rup_admit_to_runner_up q i gd s) = rup_good q"
  "rup_m (rup_admit_to_runner_up q i gd s) = rup_m q"
  "rup_r (rup_admit_to_runner_up q i gd s) = rup_r q"
  by (simp_all add: rup_admit_to_runner_up_def split: prod.split)

text \<open>What admission keeps of the lower tiers, given that the good pile is full and beats \<open>e\<close>.\<close>

lemma rup_admit_ok:
  assumes "runner_ok (rup_r q) (rup_runner q)" and "scored e"
    and "\<forall>x\<in>set (entries (rup_bad q)). scored x"
  defines "q' \<equiv> rup_admit_to_runner_up q (entry_id e) (graph_data e) (score e)"
  shows "runner_ok (rup_r q) (rup_runner q')"
    and "mset (entries (rup_runner q')) + mset (entries (rup_bad q')) =
      add_mset e (mset (entries (rup_runner q)) + mset (entries (rup_bad q)))"
    and "\<forall>x\<in>set (entries (rup_bad q')). scored x"
    and "set (entries (rup_runner q')) \<subseteq> insert e (set (entries (rup_runner q)))"
proof -
  obtain ru bad where a: "admit_lower (rup_r q) (rup_runner q) (rup_bad q) e = (ru, bad)" by force
  have q': "rup_runner q' = ru" "rup_bad q' = bad"
    using a by (simp_all add: q'_def rup_admit_to_runner_up_def)
  show "runner_ok (rup_r q) (rup_runner q')"
    unfolding q' by (rule admit_lower_runner_ok [OF a assms(1,2)])
  show m: "mset (entries (rup_runner q')) + mset (entries (rup_bad q')) =
      add_mset e (mset (entries (rup_runner q)) + mset (entries (rup_bad q)))"
    unfolding q' by (rule admit_lower_mset [OF a])
  have "set (entries bad) \<subseteq> insert e (set (entries (rup_runner q)) \<union> set (entries (rup_bad q)))"
    using m unfolding q' by (metis UnCI insert_iff set_mset_add_mset_insert set_mset_mset
        set_mset_union subsetI)
  then show "\<forall>x\<in>set (entries (rup_bad q')). scored x"
    using assms(1-3) unfolding q' runner_ok_def by auto
  show "set (entries (rup_runner q')) \<subseteq> insert e (set (entries (rup_runner q)))"
    unfolding q' by (rule admit_lower_runner_set [OF a])
qed

lemma good_root_least:
  assumes "rup_inv q" and "g \<in> set (entries (rup_good q))"
  shows "\<not> score g < score (entries (rup_good q) ! 0)"
  using mino.heap_root_best [of "entries (rup_good q)" g] assms
  by (simp add: rup_inv_def above_min_def)

lemma rup_enqueue_lower:
  assumes q: "rup_inv q" "asize (rup_good q) = rup_m q" and e: "scored e"
    and le: "\<forall>g\<in>set (entries (rup_good q)). \<not> score g < score e"
  defines "q' \<equiv> rup_admit_to_runner_up q (entry_id e) (graph_data e) (score e)"
  shows "rup_inv q' \<and> rup_content q' = add_mset e (rup_content q)"
proof -
  note a = rup_admit_ok [of q e, folded q'_def]
  have p: "runner_ok (rup_r q) (rup_runner q)" "\<forall>x\<in>set (entries (rup_bad q)). scored x"
    using q(1) by (auto simp: rup_inv_def)
  have "\<forall>g\<in>set (entries (rup_good q)). \<forall>x\<in>set (entries (rup_runner q')). \<not> score g < score x"
    using a(4) [OF p(1) e p(2)] q(1) le by (auto simp: rup_inv_def)
  then have "rup_inv q'"
    using q a(1,3) [OF p(1) e p(2)] by (simp add: rup_inv_def q'_def)
  then show ?thesis using a(2) [OF p(1) e p(2)]
    by (simp add: rup_content_def q'_def add.assoc)
qed

lemma rup_enqueue_ok:
  assumes inv: "rup_inv q" and s: "not_nan s"
  shows "\<exists>q'. rup_enqueue q i gd s = Some (0, q') \<and> rup_inv q' \<and>
    rup_content q' = add_mset (mk_entry i gd s) (rup_content q)"
proof -
  let ?e = "mk_entry i gd s" and ?gp = "entries (rup_good q)"
  have hp: "is_heap above_min ?gp" "\<forall>g\<in>set ?gp. scored g" "0 < rup_m q"
    using inv by (auto simp: rup_inv_def)
  consider (room) "asize (rup_good q) < rup_m q"
    | (evict) "asize (rup_good q) = rup_m q" "score (?gp ! 0) < s"
    | (low) "asize (rup_good q) = rup_m q" "\<not> score (?gp ! 0) < s"
    using inv unfolding rup_inv_def by linarith
  then show ?thesis
  proof cases
    case room
    then have "entries (rup_runner q) = []" using inv by (auto simp: rup_inv_def)
    then have "rup_inv (q\<lparr>rup_good := rup_heappush (rup_good q) i gd s\<rparr>)"
      using inv room s mino.heap_push_heap [OF hp(1,2), of ?e]
      by (auto simp: rup_inv_def asize_def heap_simps)
    then show ?thesis using room by (simp add: rup_enqueue_def rup_content_def heap_simps)
  next
    case evict
    then have ne: "?gp \<noteq> []" using hp(3) by (auto simp: asize_def)
    then obtain x h where p: "rup_heappop (rup_good q) = Some (x, h)"
      using rup_heappop_None by (metis option.exhaust surj_pair)
    note hpop = rup_heappop_Some [OF p]
    have x: "x = ?gp ! 0" "mset ?gp = add_mset x (mset (entries h))"
      "length ?gp = Suc (length (entries h))"
      using heap_pop_Some [OF hpop] by auto
    have sub: "set (entries h) \<subseteq> set ?gp" "x \<in> set ?gp"
      using x(2) by (metis set_mset_mset set_mset_add_mset_insert subset_insertI insertI1)+
    let ?q1 = "q\<lparr>rup_good := rup_heappush h i gd s\<rparr>"
    have hh: "is_heap above_min (entries h)" using mino.heap_pop_heap [OF hp(1,2) hpop] .
    have low: "\<not> score ?e < score x" using evict x(1) double_asym by auto
    have run: "\<not> s < score y" if "y \<in> set (entries (rup_runner q))" for y
    proof -
      have "\<not> score x < score y" using inv sub that by (auto simp: rup_inv_def)
      moreover have "scored x" using hp(2) sub by blast
      ultimately show ?thesis using low double_negtrans [of "score x" s "score y"] by simp
    qed
    have inv1: "rup_inv ?q1"
      using inv s hh sub x(3) evict run mino.heap_push_heap [OF hh, of ?e]
      by (auto simp: rup_inv_def asize_def heap_simps)
    have sz: "asize (rup_good ?q1) = rup_m ?q1"
      using evict x(3) by (simp add: asize_def heap_simps)
    have "\<forall>g\<in>set (entries (rup_good ?q1)). \<not> score g < score x"
      using low good_root_least [OF inv] sub x(1) by (auto simp: heap_simps)
    then have fin: "rup_inv (rup_admit_to_runner_up ?q1 (entry_id x) (graph_data x) (score x)) \<and>
      rup_content (rup_admit_to_runner_up ?q1 (entry_id x) (graph_data x) (score x)) =
        add_mset x (rup_content ?q1)"
      using rup_enqueue_lower [OF inv1 sz, of x] hp(2) sub by blast
    moreover have "add_mset x (rup_content ?q1) = add_mset ?e (rup_content q)"
      using x(2) by (simp add: rup_content_def heap_simps)
    ultimately show ?thesis using evict ne p hp(3) by (simp add: rup_enqueue_def asize_def)
  next
    case low
    then have ne: "?gp \<noteq> []" using hp(3) by (auto simp: asize_def)
    have "\<not> score g < score ?e" if "g \<in> set ?gp" for g
    proof -
      have "\<not> score g < score (?gp ! 0)" using good_root_least [OF inv that] .
      moreover have "scored (?gp ! 0)" using hp(2) ne by simp
      ultimately show ?thesis using low double_negtrans by fastforce
    qed
    then show ?thesis using rup_enqueue_lower [OF inv low(1), of ?e] low ne s hp(3)
      by (simp add: rup_enqueue_def asize_def mk_entry_def)
  qed
qed

lemma rup_rebuild_ok:
  assumes inv: "rup_inv q" and e: "entries (rup_good q) = []" "entries (rup_runner q) = []"
  defines "q' \<equiv> rup_rebuild_from_bad q"
  shows "rup_inv q'" and "rup_content q' \<subseteq># rup_content q"
    and "asize (rup_good q') = min (rup_m q) (asize (rup_bad q))"
    and "entries (rup_runner q') = []" and "entries (rup_bad q') = []"
    and "\<forall>x\<in>#rup_content q - rup_content q'. \<forall>g\<in>set (entries (rup_good q')). \<not> score g < score x"
proof -
  let ?b = "entries (rup_bad q)" and ?k = "keep_scan above_min (rup_m q) (entries (rup_bad q)) []"
  have ok: "\<forall>x\<in>set ?b. scored x" using inv by (simp add: rup_inv_def)
  obtain D where D: "mset ?k + D = mset ?b" "is_heap above_min ?k"
    "length ?k = min (rup_m q) (length ?b)" "\<forall>d\<in>#D. \<forall>y\<in>set ?k. \<not> above_min y d"
    using mino.keep_scan_best [OF ok, of "rup_m q"] by blast
  have g: "entries (rup_good q') = ?k" and rb: "entries (rup_runner q') = []" "entries (rup_bad q') = []"
    using e by (auto simp: q'_def rup_rebuild_from_bad_def asize_def rup_rebuild_scan_entries)
  have cap: "capacity (rup_runner q') = capacity (rup_runner q)"
    "rup_m q' = rup_m q" "rup_r q' = rup_r q"
    by (simp_all add: q'_def rup_rebuild_from_bad_def)
  have sub: "set ?k \<subseteq> set ?b" using D(1) by (metis UnI1 set_mset_mset set_mset_union subsetI)
  show "asize (rup_good q') = min (rup_m q) (asize (rup_bad q))"
    using g D(3) by (simp add: asize_def)
  then show "rup_inv q'"
    using inv g rb cap D(2) sub ok e by (auto simp: rup_inv_def runner_ok_def asize_def ascending_def)
  have c: "rup_content q = mset ?b" "rup_content q' = mset ?k"
    using e g rb by (simp_all add: rup_content_def)
  show "rup_content q' \<subseteq># rup_content q" unfolding c D(1) [symmetric] by simp
  have "rup_content q - rup_content q' = D" unfolding c D(1) [symmetric] by simp
  then show "\<forall>x\<in>#rup_content q - rup_content q'. \<forall>g\<in>set (entries (rup_good q')). \<not> score g < score x"
    using D(4) g by (simp add: above_min_def)
  show "entries (rup_runner q') = []" "entries (rup_bad q') = []" by (fact rb)+
qed

lemma rup_take_leaf_ok:
  assumes inv: "rup_inv q" and ne: "entries (rup_good q) \<noteq> []"
    and d: "rup_take_leaf q = (Some e, q')"
  shows "rup_inv q'" and "rup_content q = add_mset e (rup_content q')"
    and "e \<in> set (entries (rup_good q))"
proof -
  let ?gp = "entries (rup_good q)" and ?ru = "entries (rup_runner q)"
  have e: "e = last ?gp" using d ne by (auto simp: rup_take_leaf_def Let_def asize_def last_conv_nth)
  then show es: "e \<in> set ?gp" using ne by simp
  have m: "mset ?gp = add_mset e (mset (butlast ?gp))" using mset_butlast_last [OF ne] e by simp
  have bl: "is_heap above_min (butlast ?gp)" "\<forall>g\<in>set (butlast ?gp). scored g"
    using inv mino.butlast_heap by (auto simp: rup_inv_def dest: in_set_butlastD)
  have bs: "set (butlast ?gp) \<subseteq> set ?gp" by (auto dest: in_set_butlastD)
  show "rup_inv q'" "rup_content q = add_mset e (rup_content q')"
  proof (atomize (full), cases "rup_sorted_pop_max (rup_runner q)")
    case None
    then have n: "?ru = []" by (simp add: rup_sorted_pop_max_def sorted_pop_max_None)
    have q': "q' = q\<lparr>rup_good := (rup_good q)\<lparr>entries := butlast ?gp\<rparr>\<rparr>"
      using d None by (auto simp: rup_take_leaf_def Let_def)
    have "rup_inv q'" using inv n bl by (auto simp: q' rup_inv_def asize_def)
    then show "rup_inv q' \<and> rup_content q = add_mset e (rup_content q')"
      using m by (simp add: q' rup_content_def)
  next
    case (Some pr)
    obtain p ru where pr: "pr = (p, ru)" by force
    with Some have sp: "sorted_pop_max (rup_runner q) = Some (p, ru)"
      by (simp add: rup_sorted_pop_max_def)
    note s = sorted_pop_max_Some [OF sp]
    have rok: "runner_ok (rup_r q) ru" "scored p"
      using sorted_pop_max_runner_ok [OF sp] inv by (auto simp: rup_inv_def)
    have full: "length ?gp = rup_m q" using inv s(2) by (simp add: rup_inv_def asize_def)
    have q': "q' = q\<lparr>rup_good := rup_heappush ((rup_good q)\<lparr>entries := butlast ?gp\<rparr>)
        (entry_id p) (graph_data p) (score p), rup_runner := ru\<rparr>"
      using d Some pr by (auto simp: rup_take_leaf_def Let_def)
    have asc: "\<forall>x\<in>set (entries ru). \<not> score p < score x"
      using inv s(2,3,4) unfolding rup_inv_def runner_ok_def ascending_def
      by (metis append_butlast_last_id list.set_intros(1) sorted_wrt_append)
    have rs: "set (entries ru) \<subseteq> set ?ru" using s(4) by (auto dest: in_set_butlastD)
    have tier: "\<forall>g\<in>set (butlast ?gp). \<forall>x\<in>set (entries ru). \<not> score g < score x"
      using inv bs rs unfolding rup_inv_def by blast
    have "rup_inv q'"
      using inv full bl tier rok asc mino.heap_push_heap [OF bl rok(2)]
      by (auto simp: q' rup_inv_def asize_def heap_simps)
    then show "rup_inv q' \<and> rup_content q = add_mset e (rup_content q')"
      using m s(1) by (simp add: q' rup_content_def heap_simps)
  qed
qed

lemma rup_take_leaf_runner:
  assumes "rup_take_leaf q = (Some e, q')"
  shows "set (entries (rup_runner q')) \<subseteq> set (entries (rup_runner q))"
proof (cases "sorted_pop_max (rup_runner q)")
  case None
  then show ?thesis using assms by (auto simp: rup_take_leaf_def rup_sorted_pop_max_def Let_def)
next
  case (Some pr)
  then obtain p ru where sp: "sorted_pop_max (rup_runner q) = Some (p, ru)" by (cases pr) simp
  then have "rup_runner q' = ru"
    using assms by (auto simp: rup_take_leaf_def rup_sorted_pop_max_def Let_def)
  then show ?thesis using sorted_pop_max_Some(4) [OF sp] by (auto dest: in_set_butlastD)
qed

lemma rup_dequeue_cases:
  assumes inv: "rup_inv q" and d: "rup_dequeue q = (r, q')"
  shows "(r = None \<and> rup_content q = {#} \<and> q' = q) \<or>
    (\<exists>q1 e. r = Some e \<and> rup_take_leaf q1 = (Some e, q') \<and> rup_inv q1 \<and> entries (rup_good q1) \<noteq> [] \<and>
      (q1 = q \<or> entries (rup_good q) = [] \<and> entries (rup_runner q) = [] \<and>
        q1 = rup_rebuild_from_bad q))"
proof -
  let ?b = "entries (rup_good q) = [] \<and> entries (rup_runner q) = []"
  define q1 where "q1 = (if ?b then rup_rebuild_from_bad q else q)"
  have i1: "rup_inv q1" using inv rup_rebuild_ok(1) by (simp add: q1_def)
  have d1: "(if asize (rup_good q1) = 0 then (None, q1) else rup_take_leaf q1) = (r, q')"
    using d unfolding rup_dequeue_def q1_def asize_def Let_def length_0_conv .
  show ?thesis
  proof (cases "entries (rup_good q1) = []")
    case True
    have b: ?b
    proof (rule ccontr)
      assume n: "\<not> ?b"
      then have "entries (rup_runner q) \<noteq> []" "entries (rup_good q) = []" using True by (auto simp: q1_def split: if_splits)
      then show False using inv by (auto simp: rup_inv_def asize_def)
    qed
    then have z: "asize (rup_bad q) = 0"
      using rup_rebuild_ok(3) [OF inv] True inv by (auto simp: q1_def asize_def rup_inv_def min_def split: if_splits)
    then have "q1 = q" using b by (simp add: q1_def rup_rebuild_from_bad_def)
    then show ?thesis using d1 True z b by (simp add: asize_def rup_content_def)
  next
    case False
    then have "rup_take_leaf q1 = (r, q')" using d1 by (simp add: asize_def)
    moreover obtain e where "r = Some e" using calculation by (auto simp: rup_take_leaf_def Let_def)
    ultimately show ?thesis using i1 False by (auto simp: q1_def split: if_splits)
  qed
qed

interpretation rupq: bounded_queue rup_enqueue rup_dequeue rup_content rup_inv
proof unfold_locales
  fix q :: rup_queue and s i g e q'
  show "rup_inv q \<Longrightarrow> not_nan s \<Longrightarrow> \<exists>q'. rup_enqueue q i g s = Some (0, q') \<and>
    rup_inv q' \<and> rup_content q' = add_mset (mk_entry i g s) (rup_content q)"
    by (rule rup_enqueue_ok)
  show "rup_inv q \<Longrightarrow> rup_dequeue q = (None, q') \<Longrightarrow> rup_content q = {#} \<and> q' = q"
    using rup_dequeue_cases [of q None q'] by blast
  show "rup_inv q \<Longrightarrow> rup_dequeue q = (Some e, q') \<Longrightarrow>
      rup_inv q' \<and> add_mset e (rup_content q') \<subseteq># rup_content q"
    using rup_dequeue_cases [of q "Some e" q'] rup_take_leaf_ok rup_rebuild_ok(2) [of q]
    by (metis option.distinct(1) option.inject subset_mset.order_refl)
qed

text \<open>A dequeue that rebuilds frees what is beyond the best \<open>m\<close> of the overflow, no other frees anything.\<close>

definition rup_frees :: "rup_queue \<Rightarrow> nat" where
  "rup_frees q = (if asize (rup_good q) = 0 \<and> asize (rup_runner q) = 0 then asize (rup_bad q) - rup_m q else 0)"

lemma rup_dequeue_frees:
  assumes "rup_inv q" and "rup_dequeue q = (Some e, q')"
  shows "size (rup_content q) = Suc (size (rup_content q')) + rup_frees q"
proof -
  obtain q1 where q1: "rup_take_leaf q1 = (Some e, q')" "rup_inv q1" "entries (rup_good q1) \<noteq> []"
    "q1 = q \<or> entries (rup_good q) = [] \<and> entries (rup_runner q) = [] \<and> q1 = rup_rebuild_from_bad q"
    using rup_dequeue_cases [OF assms] by blast
  have t: "rup_content q1 = add_mset e (rup_content q')" by (rule rup_take_leaf_ok [OF q1(2,3,1)])
  have "size (rup_content q) = size (rup_content q1) + rup_frees q"
  proof (cases "q1 = q")
    case False
    then have e: "entries (rup_good q) = []" "entries (rup_runner q) = []" "q1 = rup_rebuild_from_bad q" using q1(4) by auto
    show ?thesis using rup_rebuild_ok(3-5) [OF assms(1) e(1,2)] e
      by (simp add: rup_content_def rup_frees_def asize_def)
  qed (use q1(3) in \<open>simp add: rup_frees_def asize_def\<close>)
  then show ?thesis using t by simp
qed

interpretation rupa: accounted_queue rup_enqueue rup_dequeue rup_content rup_inv rup_frees
  by unfold_locales (rule rup_dequeue_frees)

section \<open>Properties\<close>

text \<open>
  C27. A dequeue of the runner-up queue keeps the tier invariant, returns an entry that no
  runner-up beats, and loses nothing unless the two upper tiers were empty and it rebuilt.
\<close>

theorem rup_dequeue_tiers:
  assumes "rup_inv q" and "rup_dequeue q = (Some e, q')"
  shows "rup_inv q' \<and> (\<forall>x\<in>set (entries (rup_runner q')). \<not> score e < score x) \<and>
    (asize (rup_good q) \<noteq> 0 \<longrightarrow> rup_content q = add_mset e (rup_content q'))"
proof -
  obtain q1 where q1: "rup_take_leaf q1 = (Some e, q')" "rup_inv q1" "entries (rup_good q1) \<noteq> []"
    "entries (rup_good q) \<noteq> [] \<longrightarrow> q1 = q"
    using rup_dequeue_cases [OF assms] by blast
  note t = rup_take_leaf_ok [OF q1(2,3,1)]
  have "set (entries (rup_runner q')) \<subseteq> set (entries (rup_runner q1))"
    by (rule rup_take_leaf_runner [OF q1(1)])
  then have "\<forall>x\<in>set (entries (rup_runner q')). \<not> score e < score x"
    using t(3) q1(2) unfolding rup_inv_def by blast
  moreover have "asize (rup_good q) \<noteq> 0 \<longrightarrow> q1 = q" using q1(4) by (simp add: asize_def)
  ultimately show ?thesis using t(1,2) by blast
qed

text \<open>
  A rebuild keeps the best \<open>m\<close> of the overflow in the good pile and frees the rest:
  every entry that leaves the queue scores no higher than every entry that stays.
\<close>

theorem rup_rebuild_keeps_best:
  assumes "rup_inv q" and "asize (rup_good q) = 0" and "asize (rup_runner q) = 0"
  shows "asize (rup_good (rup_rebuild_from_bad q)) = min (rup_m q) (asize (rup_bad q)) \<and>
    rup_content (rup_rebuild_from_bad q) \<subseteq># rup_content q \<and>
    (\<forall>x\<in>#rup_content q - rup_content (rup_rebuild_from_bad q).
      \<forall>g\<in>#rup_content (rup_rebuild_from_bad q). \<not> score g < score x)"
proof -
  have e: "entries (rup_good q) = []" "entries (rup_runner q) = []"
    using assms(2,3) by (simp_all add: asize_def)
  note r = rup_rebuild_ok [OF assms(1) e]
  have "set_mset (rup_content (rup_rebuild_from_bad q)) = set (entries (rup_good (rup_rebuild_from_bad q)))"
    using r(4,5) by (simp add: rup_content_def)
  then show ?thesis using r(2,3,6) by simp
qed

text \<open>
  Any sequence of enqueues, rescorings and dequeues on a fresh runner-up queue runs without
  undefined behaviour, and no entry is returned more often than it was put in.
\<close>

theorem rup_session_conserves:
  assumes "0 < m" and "\<forall>c\<in>set cs. call_scored c"
  shows "\<exists>es q. run_calls rup_enqueue rup_dequeue cs (rup_create m r b) = Some (es, q) \<and>
    rup_inv q \<and> mset es + rup_content q \<subseteq># call_entries cs"
proof -
  have "rup_content (rup_create m r b) = {#}" by (simp add: rup_content_def rup_create_def)
  then show ?thesis
    using rupq.run_calls_conserves [OF rup_create_inv [OF assms(1), of r b] assms(2)] by simp
qed

text \<open>
  The runner-up queue does not return the next best entry: of three entries scored 1, 3 and
  2 the first dequeue returns the one scored 2 and leaves the one scored 3.
\<close>

theorem rup_dequeue_not_next_best:
  "map_option (\<lambda>(es, q). (map score es, map score (entries (rup_good q))))
      (run_calls rup_enqueue rup_dequeue
        [Enqueue 1 1 (Fin 1), Enqueue 2 1 (Fin 3), Enqueue 3 1 (Fin 2), Dequeue] (rup_create 3 1 4))
    = Some ([Fin 2], [Fin 1, Fin 3])"
  by code_simp

section \<open>Witnesses\<close>

text \<open>A queue with all three tiers occupied, and one with only an overflow.\<close>

definition rup_sample :: rup_queue where
  "rup_sample =
     \<lparr>rup_good = \<lparr>entries = [mk_entry 1 16 (Fin 3), mk_entry 2 32 (Fin 5)], capacity = 2\<rparr>,
      rup_runner = \<lparr>entries = [mk_entry 3 48 (Fin 2)], capacity = 1\<rparr>,
      rup_bad = \<lparr>entries = [mk_entry 4 64 (Fin 1)], capacity = 4\<rparr>, rup_m = 2, rup_r = 1\<rparr>"

definition rup_overflow_sample :: rup_queue where
  "rup_overflow_sample =
     \<lparr>rup_good = \<lparr>entries = [], capacity = 2\<rparr>, rup_runner = \<lparr>entries = [], capacity = 1\<rparr>,
      rup_bad = \<lparr>entries = [mk_entry 4 64 (Fin 1), mk_entry 5 80 (Fin 7), mk_entry 6 96 (Fin 4)],
                 capacity = 4\<rparr>,
      rup_m = 2, rup_r = 1\<rparr>"

lemma rup_samples_inv: "rup_inv rup_sample" "rup_inv rup_overflow_sample"
  by (auto simp: rup_sample_def rup_overflow_sample_def rup_inv_def asize_def heap_from_def
      runner_ok_def ascending_def above_min_def less_Suc_eq)

lemma rup_sample_dequeue:
  "rup_dequeue rup_sample =
    (Some (mk_entry 2 32 (Fin 5)), snd (rup_dequeue rup_sample))"
  by code_simp

theorem rup_dequeue_tiers_witness:
  "list_all (\<lambda>x. \<not> Fin 5 < score x) (entries (rup_runner (snd (rup_dequeue rup_sample))))"
  using rup_dequeue_tiers [OF rup_samples_inv(1) rup_sample_dequeue] by (simp add: list_all_iff)

theorem rup_rebuild_keeps_best_witness:
  "asize (rup_good (rup_rebuild_from_bad rup_overflow_sample)) = 2"
  using rup_rebuild_keeps_best [OF rup_samples_inv(2)]
  by (simp add: rup_overflow_sample_def asize_def)

theorem rup_session_conserves_witness:
  "\<exists>es q. run_calls rup_enqueue rup_dequeue [Enqueue 1 16 (Fin 1), Rescore 2 (Fin 3), Dequeue]
      (rup_create 1 1 4) = Some (es, q) \<and> rup_inv q"
  using rup_session_conserves [of 1 "[Enqueue 1 16 (Fin 1), Rescore 2 (Fin 3), Dequeue]" 1 4] by auto

end
