(* ===== verification/QueueMaxheapBucket.thy ===== *)
theory QueueMaxheapBucket imports QueueTiers begin

text \<open>
  \<^verbatim>\<open>main/src/sgf-queue-maxheap-bucket.c\<close>: the three-tier queue driven by a threshold.
  \<open>good_pile\<close> is a max-heap of at most \<open>m\<close> candidates, and an entry is admitted to a
  full good pile when it beats \<open>threshold\<close>, the least score the pile had when the threshold
  was last computed; the entry it displaces is the root of the max-heap. It provides the
  \<open>bounded_queue\<close> contract.
\<close>

section \<open>State and operations\<close>

record mhb_queue =
  mhb_good :: earray
  mhb_runner :: earray
  mhb_bad :: earray
  mhb_m :: nat
  mhb_r :: nat
  mhb_threshold :: double
  mhb_filling :: bool

definition mhb_heappush :: "earray \<Rightarrow> u32 \<Rightarrow> ptr \<Rightarrow> double \<Rightarrow> earray" where
  "mhb_heappush h i gd s =
     (let h' = grow_if_full 128 h; node = mk_entry i gd s
      in h'\<lparr>entries := heap_push above_max (entries h') node\<rparr>)"

definition mhb_heappop :: "earray \<Rightarrow> (qentry \<times> earray) option" where
  "mhb_heappop h =
     (case heap_pop above_max (entries h) of
        None \<Rightarrow> None
      | Some (first, rest) \<Rightarrow> Some (first, h\<lparr>entries := rest\<rparr>))"

definition mhb_sorted_insert :: "earray \<Rightarrow> u32 \<Rightarrow> ptr \<Rightarrow> double \<Rightarrow> earray" where
  "mhb_sorted_insert arr i gd s = sorted_insert arr (mk_entry i gd s)"

definition mhb_sorted_pop_max :: "earray \<Rightarrow> (qentry \<times> earray) option" where
  "mhb_sorted_pop_max arr = sorted_pop_max arr"

definition mhb_dynamic_append :: "earray \<Rightarrow> u32 \<Rightarrow> ptr \<Rightarrow> double \<Rightarrow> earray" where
  "mhb_dynamic_append arr i gd s = dynamic_append arr (mk_entry i gd s)"

definition mhb_admit_to_runner_up :: "mhb_queue \<Rightarrow> u32 \<Rightarrow> ptr \<Rightarrow> double \<Rightarrow> mhb_queue" where
  "mhb_admit_to_runner_up q i gd s =
     (let (ru, bad) = admit_lower (mhb_r q) (mhb_runner q) (mhb_bad q) (mk_entry i gd s)
      in q\<lparr>mhb_runner := ru, mhb_bad := bad\<rparr>)"

text \<open>The loop that recomputes the threshold, started from the last entry.\<close>

definition mhb_min_score :: "qentry list \<Rightarrow> double" where
  "mhb_min_score es =
     foldl (\<lambda>t e. if score e < t then score e else t) (score (es ! (length es - 1))) es"

fun mhb_rebuild_scan :: "nat \<Rightarrow> qentry list \<Rightarrow> earray \<Rightarrow> earray" where
  "mhb_rebuild_scan m [] gp = gp"
| "mhb_rebuild_scan m (node # nodes) gp =
     (let gp' = mhb_heappush gp (entry_id node) (graph_data node) (score node)
      in mhb_rebuild_scan m nodes
           (if m < asize gp'
            then (case mhb_heappop gp' of None \<Rightarrow> gp' | Some (evicted, gp'') \<Rightarrow> gp'')
            else gp'))"

definition mhb_rebuild_from_bad :: "mhb_queue \<Rightarrow> mhb_queue" where
  "mhb_rebuild_from_bad q =
     (if asize (mhb_bad q) = 0 then q
      else let gp = mhb_rebuild_scan (mhb_m q) (entries (mhb_bad q)) ((mhb_good q)\<lparr>entries := []\<rparr>)
           in q\<lparr>mhb_good := gp,
                mhb_threshold := (if 0 < asize gp then mhb_min_score (entries gp) else Fin 0),
                mhb_bad := (mhb_bad q)\<lparr>entries := []\<rparr>,
                mhb_runner := (mhb_runner q)\<lparr>entries := []\<rparr>\<rparr>)"

definition mhb_create :: "nat \<Rightarrow> nat \<Rightarrow> nat \<Rightarrow> mhb_queue" where
  "mhb_create m r bad_cap =
     \<lparr>mhb_good = \<lparr>entries = [], capacity = m\<rparr>,
      mhb_runner = \<lparr>entries = [], capacity = r\<rparr>,
      mhb_bad = \<lparr>entries = [], capacity = (if bad_cap \<noteq> 0 then bad_cap else 100000)\<rparr>,
      mhb_m = m, mhb_r = r, mhb_threshold = Fin 0, mhb_filling = True\<rparr>"

text \<open>The nodes passed to \<open>free\<close>, in order.\<close>

definition mhb_destroy :: "mhb_queue \<Rightarrow> qentry list" where
  "mhb_destroy q = entries (mhb_good q) @ entries (mhb_runner q) @ entries (mhb_bad q)"

text \<open>The branch of the enqueue into a good pile with room.\<close>

definition mhb_fill :: "mhb_queue \<Rightarrow> u32 \<Rightarrow> ptr \<Rightarrow> double \<Rightarrow> mhb_queue" where
  "mhb_fill q i gd s =
     (let gp = mhb_heappush (mhb_good q) i gd s;
          t = (if mhb_filling q
               then (if asize gp = 1 then s else if s < mhb_threshold q then s else mhb_threshold q)
               else mhb_threshold q)
      in if asize gp = mhb_m q
         then q\<lparr>mhb_good := gp, mhb_filling := False, mhb_threshold := mhb_min_score (entries gp)\<rparr>
         else q\<lparr>mhb_good := gp, mhb_threshold := t\<rparr>)"

definition mhb_enqueue :: "mhb_queue \<Rightarrow> u32 \<Rightarrow> ptr \<Rightarrow> double \<Rightarrow> (s32 \<times> mhb_queue) option" where
  "mhb_enqueue q i gd s =
     (if asize (mhb_good q) < mhb_m q then Some (0, mhb_fill q i gd s)
      else if mhb_threshold q < s
      then (case mhb_heappop (mhb_good q) of
              None \<Rightarrow> None
            | Some (evicted, gp0) \<Rightarrow>
                (let gp = mhb_heappush gp0 i gd s;
                     q1 = mhb_admit_to_runner_up (q\<lparr>mhb_good := gp\<rparr>)
                            (entry_id evicted) (graph_data evicted) (score evicted)
                 in Some (0, q1\<lparr>mhb_threshold := mhb_min_score (entries gp)\<rparr>)))
      else Some (0, mhb_admit_to_runner_up q i gd s))"

text \<open>The tail of the dequeue: pop the root, then promote the best runner-up.\<close>

definition mhb_take_root :: "mhb_queue \<Rightarrow> qentry option \<times> mhb_queue" where
  "mhb_take_root q =
     (case mhb_heappop (mhb_good q) of
        None \<Rightarrow> (None, q)
      | Some (selected, gp) \<Rightarrow>
          (Some selected,
           (case mhb_sorted_pop_max (mhb_runner q) of
              None \<Rightarrow> q\<lparr>mhb_good := gp\<rparr>
            | Some (promoted, ru) \<Rightarrow>
                q\<lparr>mhb_good := mhb_heappush gp (entry_id promoted) (graph_data promoted) (score promoted),
                  mhb_runner := ru\<rparr>)))"

definition mhb_dequeue :: "mhb_queue \<Rightarrow> qentry option \<times> mhb_queue" where
  "mhb_dequeue q =
     (let q' = (if asize (mhb_good q) = 0 \<and> asize (mhb_runner q) = 0
                then mhb_rebuild_from_bad q else q)
      in if asize (mhb_good q') = 0 then (None, q') else mhb_take_root q')"

definition mhb_update_score :: "mhb_queue \<Rightarrow> u32 \<Rightarrow> double \<Rightarrow> (s32 \<times> mhb_queue) option" where
  "mhb_update_score q i s = mhb_enqueue q i null_ptr s"

definition mhb_size :: "mhb_queue \<Rightarrow> nat" where
  "mhb_size q = asize (mhb_good q) + asize (mhb_runner q) + asize (mhb_bad q)"

text \<open>The numbers of the statistics line.\<close>

definition mhb_stats :: "mhb_queue \<Rightarrow> nat list \<times> double" where
  "mhb_stats q =
     ([asize (mhb_good q), capacity (mhb_good q), asize (mhb_runner q), capacity (mhb_runner q),
       asize (mhb_bad q), capacity (mhb_bad q),
       asize (mhb_good q) + asize (mhb_runner q) + asize (mhb_bad q)], mhb_threshold q)"

section \<open>The threshold loop\<close>

lemma mhb_min_fold:
  assumes "not_nan t" and "\<forall>e\<in>set es. scored e"
  defines "m \<equiv> foldl (\<lambda>t e. if score e < t then score e else t) t es"
  shows "not_nan m \<and> m \<in> insert t (score ` set es) \<and> \<not> t < m \<and> (\<forall>e\<in>set es. \<not> score e < m)"
  using assms(1,2) unfolding m_def
proof (induction es arbitrary: t)
  case (Cons e es)
  let ?t = "if score e < t then score e else t"
  have t: "not_nan ?t" "\<not> t < ?t" "\<not> score e < ?t" using Cons.prems double_asym by auto
  let ?m = "foldl (\<lambda>t e. if score e < t then score e else t) ?t es"
  have ih: "not_nan ?m" "?m \<in> insert ?t (score ` set es)" "\<not> ?t < ?m" "\<forall>e\<in>set es. \<not> score e < ?m"
    using Cons.IH [OF t(1)] Cons.prems(2) by auto
  have "\<not> t < ?m" "\<not> score e < ?m"
    using double_negtrans [OF t(1) _ ih(3)] t(2,3) by blast+
  moreover have "?m \<in> insert t (score ` set (e # es))" using ih(2) by (auto split: if_splits)
  ultimately show ?case using ih(1,4) by simp
qed simp

lemma mhb_min_score_ok:
  assumes "es \<noteq> []" and "\<forall>e\<in>set es. scored e"
  shows "mhb_min_score es \<in> score ` set es" and "\<forall>e\<in>set es. \<not> score e < mhb_min_score es"
    and "not_nan (mhb_min_score es)"
proof -
  have l: "es ! (length es - 1) \<in> set es" using assms(1) by simp
  then have "not_nan (score (es ! (length es - 1)))" using assms(2) by blast
  note f = mhb_min_fold [OF this assms(2), folded mhb_min_score_def]
  show "mhb_min_score es \<in> score ` set es" using f l by auto
  show "\<forall>e\<in>set es. \<not> score e < mhb_min_score es" "not_nan (mhb_min_score es)" using f by blast+
qed

section \<open>Invariant\<close>

definition mhb_content :: "mhb_queue \<Rightarrow> qentry multiset" where
  "mhb_content q = mset (entries (mhb_good q)) + mset (entries (mhb_runner q)) + mset (entries (mhb_bad q))"

definition mhb_inv :: "mhb_queue \<Rightarrow> bool" where
  "mhb_inv q \<longleftrightarrow>
     0 < mhb_m q \<and> asize (mhb_good q) \<le> mhb_m q \<and> is_heap above_max (entries (mhb_good q)) \<and>
     (\<forall>g\<in>set (entries (mhb_good q)). scored g) \<and> runner_ok (mhb_r q) (mhb_runner q) \<and>
     (entries (mhb_runner q) \<noteq> [] \<longrightarrow> asize (mhb_good q) = mhb_m q) \<and>
     (\<forall>x\<in>set (entries (mhb_bad q)). scored x) \<and> not_nan (mhb_threshold q)"

lemma entries_mhb_heappush [simp]:
  "entries (mhb_heappush h i gd s) = heap_push above_max (entries h) (mk_entry i gd s)"
  by (simp add: mhb_heappush_def Let_def)

lemma mhb_heappop_Some:
  "mhb_heappop h = Some (x, h') \<Longrightarrow> heap_pop above_max (entries h) = Some (x, entries h')"
  by (auto simp: mhb_heappop_def split: option.splits)

lemma mhb_heappop_None: "mhb_heappop h = None \<longleftrightarrow> entries h = []"
  by (cases "entries h = []") (auto simp: mhb_heappop_def heap_pop_def Let_def)

lemma mhb_create_inv: "0 < m \<Longrightarrow> mhb_inv (mhb_create m r b)"
  by (simp add: mhb_inv_def mhb_create_def asize_def heap_from_def runner_ok_def ascending_def)

lemma mhb_rebuild_scan_entries:
  "entries (mhb_rebuild_scan m nodes gp) = keep_scan above_max m nodes (entries gp)"
proof (induction m nodes gp rule: mhb_rebuild_scan.induct)
  case (2 m node nodes gp)
  let ?h = "heap_push above_max (entries gp) node"
  obtain x rest where "heap_pop above_max ?h = Some (x, rest)"
    by (metis heap_pop_None heap_push_ne option.exhaust surj_pair)
  then show ?case using 2
    by (simp add: Let_def asize_def mhb_heappop_def)
qed simp

lemma mhb_admit_fields [simp]:
  "mhb_good (mhb_admit_to_runner_up q i gd s) = mhb_good q"
  "mhb_m (mhb_admit_to_runner_up q i gd s) = mhb_m q"
  "mhb_r (mhb_admit_to_runner_up q i gd s) = mhb_r q"
  "mhb_threshold (mhb_admit_to_runner_up q i gd s) = mhb_threshold q"
  by (simp_all add: mhb_admit_to_runner_up_def split: prod.split)

lemma mhb_admit_ok:
  assumes q: "mhb_inv q" "asize (mhb_good q) = mhb_m q" and e: "scored e"
  defines "q' \<equiv> mhb_admit_to_runner_up q (entry_id e) (graph_data e) (score e)"
  shows "mhb_inv q' \<and> mhb_content q' = add_mset e (mhb_content q)"
proof -
  obtain ru bad where a: "admit_lower (mhb_r q) (mhb_runner q) (mhb_bad q) e = (ru, bad)" by force
  have q': "mhb_runner q' = ru" "mhb_bad q' = bad" "mhb_good q' = mhb_good q" "mhb_m q' = mhb_m q"
    "mhb_r q' = mhb_r q" "mhb_threshold q' = mhb_threshold q"
    using a by (simp_all add: q'_def mhb_admit_to_runner_up_def)
  have rok: "runner_ok (mhb_r q) (mhb_runner q)" using q(1) by (simp add: mhb_inv_def)
  note m = admit_lower_mset [OF a]
  have "set (entries bad) \<subseteq> insert e (set (entries (mhb_runner q)) \<union> set (entries (mhb_bad q)))"
    using m by (metis UnCI insert_iff set_mset_add_mset_insert set_mset_mset set_mset_union subsetI)
  then have "\<forall>x\<in>set (entries bad). scored x"
    using q(1) e rok unfolding mhb_inv_def runner_ok_def by blast
  then have "mhb_inv q'"
    using q admit_lower_runner_ok [OF a rok e] by (simp add: mhb_inv_def q')
  then show ?thesis using m by (simp add: mhb_content_def q' add.assoc)
qed

lemma mhb_threshold_inv:
  "mhb_inv q \<Longrightarrow> not_nan t \<Longrightarrow> mhb_inv (q\<lparr>mhb_threshold := t\<rparr>)"
  by (simp add: mhb_inv_def)

lemma mhb_content_threshold: "mhb_content (q\<lparr>mhb_threshold := t\<rparr>) = mhb_content q"
  by (simp add: mhb_content_def)

lemma mhb_fill_ok:
  assumes inv: "mhb_inv q" and room: "asize (mhb_good q) < mhb_m q" and s: "not_nan s"
  shows "mhb_inv (mhb_fill q i gd s)"
    and "mhb_content (mhb_fill q i gd s) = add_mset (mk_entry i gd s) (mhb_content q)"
proof -
  let ?gp = "mhb_heappush (mhb_good q) i gd s" and ?q1 = "q\<lparr>mhb_good := mhb_heappush (mhb_good q) i gd s\<rparr>"
  have hp: "is_heap above_max (entries (mhb_good q))" "\<forall>g\<in>set (entries (mhb_good q)). scored g"
    using inv by (auto simp: mhb_inv_def)
  have "entries (mhb_runner q) = []" using inv room by (auto simp: mhb_inv_def)
  then have i1: "mhb_inv ?q1"
    using inv room s maxo.heap_push_heap [OF hp, of "mk_entry i gd s"]
    by (auto simp: mhb_inv_def asize_def heap_simps)
  then have "not_nan (mhb_min_score (entries ?gp))"
    by (intro mhb_min_score_ok(3)) (auto simp: mhb_inv_def)
  then have "mhb_inv (?q1\<lparr>mhb_threshold := t\<rparr>)" if "t \<in> {s, mhb_threshold q, mhb_min_score (entries ?gp)}" for t
    using i1 s that inv by (auto simp: mhb_inv_def)
  then show "mhb_inv (mhb_fill q i gd s)"
    by (auto simp: mhb_fill_def Let_def mhb_inv_def)
  show "mhb_content (mhb_fill q i gd s) = add_mset (mk_entry i gd s) (mhb_content q)"
    by (simp add: mhb_fill_def Let_def mhb_content_def heap_simps)
qed

lemma mhb_evict_ok:
  assumes inv: "mhb_inv q" and full: "asize (mhb_good q) = mhb_m q" and s: "not_nan s"
    and thr: "mhb_threshold q < s"
  shows "\<exists>q'. mhb_enqueue q i gd s = Some (0, q') \<and> mhb_inv q' \<and>
    mhb_content q' = add_mset (mk_entry i gd s) (mhb_content q) \<and>
    mhb_threshold q' = mhb_min_score (entries (mhb_good q')) \<and> entries (mhb_good q') \<noteq> []"
proof -
  let ?e = "mk_entry i gd s" and ?gp = "entries (mhb_good q)"
  have hp: "is_heap above_max ?gp" "\<forall>g\<in>set ?gp. scored g" "0 < mhb_m q"
    using inv by (auto simp: mhb_inv_def)
  have ne: "?gp \<noteq> []" using hp(3) full by (auto simp: asize_def)
  then obtain x h where p: "mhb_heappop (mhb_good q) = Some (x, h)"
    using mhb_heappop_None by (metis option.exhaust surj_pair)
  note hpop = mhb_heappop_Some [OF p]
  have x: "mset ?gp = add_mset x (mset (entries h))" "length ?gp = Suc (length (entries h))"
    using heap_pop_Some(3,4) [OF hpop] by auto
  have sub: "set (entries h) \<subseteq> set ?gp" "x \<in> set ?gp"
    using x(1) by (metis set_mset_mset set_mset_add_mset_insert subset_insertI insertI1)+
  define gp where "gp = mhb_heappush h i gd s"
  let ?q1 = "q\<lparr>mhb_good := gp\<rparr>"
  let ?q2 = "mhb_admit_to_runner_up ?q1 (entry_id x) (graph_data x) (score x)"
  have hh: "is_heap above_max (entries h)" using maxo.heap_pop_heap [OF hp(1,2) hpop] .
  have "\<forall>x\<in>set (entries h). scored x" using hp(2) sub by blast
  then have hg: "is_heap above_max (entries gp)" "\<forall>x\<in>set (entries gp). scored x"
    using maxo.heap_push_heap [OF hh, of ?e] s by (auto simp: gp_def heap_simps)
  have lg: "asize gp = mhb_m q" using x(2) full by (simp add: gp_def asize_def heap_simps)
  have i1: "mhb_inv ?q1" using inv hg lg by (simp add: mhb_inv_def)
  have "mhb_inv ?q2 \<and> mhb_content ?q2 = add_mset x (mhb_content ?q1)"
    using mhb_admit_ok [OF i1, of x] lg hp(2) sub by simp
  moreover have "add_mset x (mhb_content ?q1) = add_mset ?e (mhb_content q)"
    using x(1) by (simp add: mhb_content_def gp_def heap_simps)
  moreover have "not_nan (mhb_min_score (entries gp))"
    using hg(2) by (intro mhb_min_score_ok(3)) (simp_all add: gp_def)
  ultimately have r: "mhb_inv (?q2\<lparr>mhb_threshold := mhb_min_score (entries gp)\<rparr>)"
    "mhb_content (?q2\<lparr>mhb_threshold := mhb_min_score (entries gp)\<rparr>) = add_mset ?e (mhb_content q)"
    using mhb_threshold_inv by (simp_all add: mhb_content_threshold)
  have "mhb_enqueue q i gd s = Some (0, ?q2\<lparr>mhb_threshold := mhb_min_score (entries gp)\<rparr>)"
    using full thr p by (simp add: mhb_enqueue_def gp_def Let_def)
  moreover have "entries gp \<noteq> []" by (simp add: gp_def)
  ultimately show ?thesis using r
    by (intro exI [of _ "?q2\<lparr>mhb_threshold := mhb_min_score (entries gp)\<rparr>"]) simp
qed

lemma mhb_enqueue_ok:
  assumes inv: "mhb_inv q" and s: "not_nan s"
  shows "\<exists>q'. mhb_enqueue q i gd s = Some (0, q') \<and> mhb_inv q' \<and>
    mhb_content q' = add_mset (mk_entry i gd s) (mhb_content q)"
proof -
  consider (room) "asize (mhb_good q) < mhb_m q"
    | (evict) "asize (mhb_good q) = mhb_m q" "mhb_threshold q < s"
    | (low) "asize (mhb_good q) = mhb_m q" "\<not> mhb_threshold q < s"
    using inv unfolding mhb_inv_def by linarith
  then show ?thesis
  proof cases
    case room
    then show ?thesis using mhb_fill_ok [OF inv room s] by (simp add: mhb_enqueue_def)
  next
    case evict
    then show ?thesis using mhb_evict_ok [OF inv evict(1) s evict(2)] by blast
  next
    case low
    then show ?thesis using mhb_admit_ok [OF inv low(1), of "mk_entry i gd s"] s
      by (simp add: mhb_enqueue_def mk_entry_def)
  qed
qed

lemma mhb_rebuild_all:
  assumes inv: "mhb_inv q" and e: "entries (mhb_good q) = []" "entries (mhb_runner q) = []"
  defines "q' \<equiv> mhb_rebuild_from_bad q"
  shows "mhb_inv q' \<and> mhb_content q' \<subseteq># mhb_content q \<and>
    asize (mhb_good q') = min (mhb_m q) (asize (mhb_bad q)) \<and> entries (mhb_bad q') = [] \<and>
    entries (mhb_runner q') = [] \<and>
    (\<forall>x\<in>#mhb_content q - mhb_content q'. \<forall>g\<in>#mhb_content q'. \<not> score x < score g)"
proof -
  let ?b = "entries (mhb_bad q)" and ?k = "keep_scan above_max (mhb_m q) (entries (mhb_bad q)) []"
  have ok: "\<forall>x\<in>set ?b. scored x" using inv by (simp add: mhb_inv_def)
  obtain D where D: "mset ?k + D = mset ?b" "is_heap above_max ?k"
    "length ?k = min (mhb_m q) (length ?b)" "\<forall>d\<in>#D. \<forall>y\<in>set ?k. \<not> above_max y d"
    using maxo.keep_scan_best [OF ok, of "mhb_m q"] by blast
  have g: "entries (mhb_good q') = ?k" and rb: "entries (mhb_runner q') = []" "entries (mhb_bad q') = []"
    using e by (auto simp: q'_def mhb_rebuild_from_bad_def asize_def mhb_rebuild_scan_entries Let_def)
  have cap: "capacity (mhb_runner q') = capacity (mhb_runner q)" "mhb_m q' = mhb_m q" "mhb_r q' = mhb_r q"
    by (simp_all add: q'_def mhb_rebuild_from_bad_def Let_def)
  have sub: "set ?k \<subseteq> set ?b" using D(1) by (metis UnI1 set_mset_mset set_mset_union subsetI)
  have "not_nan (mhb_threshold q')"
  proof (cases "?b = []")
    case True
    then show ?thesis using inv by (simp add: q'_def mhb_rebuild_from_bad_def asize_def mhb_inv_def)
  next
    case False
    then have "?k \<noteq> []" using D(3) inv by (auto simp: mhb_inv_def min_def split: if_splits)
    moreover have "\<forall>x\<in>set ?k. scored x" using ok sub by blast
    ultimately have "not_nan (mhb_min_score ?k)" by (rule mhb_min_score_ok(3))
    then show ?thesis using False
      by (simp add: q'_def mhb_rebuild_from_bad_def asize_def mhb_rebuild_scan_entries Let_def)
  qed
  then have i: "mhb_inv q'"
    using inv g rb cap D(2,3) sub ok e by (auto simp: mhb_inv_def runner_ok_def asize_def ascending_def)
  have c: "mhb_content q = mset ?b" "mhb_content q' = mset ?k"
    using e g rb by (simp_all add: mhb_content_def)
  have d: "mhb_content q - mhb_content q' = D" unfolding c D(1) [symmetric] by simp
  show ?thesis unfolding d
    using i c D(4) g D(3) rb by (simp add: above_max_def asize_def flip: D(1))
qed

lemma mhb_take_root_ok:
  assumes inv: "mhb_inv q" and ne: "entries (mhb_good q) \<noteq> []" and d: "mhb_take_root q = (r, q')"
  shows "\<exists>e. r = Some e \<and> mhb_inv q' \<and> mhb_content q = add_mset e (mhb_content q') \<and>
    e \<in> set (entries (mhb_good q)) \<and> (\<forall>g\<in>set (entries (mhb_good q)). \<not> score e < score g)"
proof -
  let ?gp = "entries (mhb_good q)" and ?ru = "entries (mhb_runner q)"
  have hp: "is_heap above_max ?gp" "\<forall>g\<in>set ?gp. scored g" using inv by (auto simp: mhb_inv_def)
  obtain e h where p: "mhb_heappop (mhb_good q) = Some (e, h)"
    using ne mhb_heappop_None by (metis option.exhaust surj_pair)
  note hpop = mhb_heappop_Some [OF p]
  have x: "mset ?gp = add_mset e (mset (entries h))" "length ?gp = Suc (length (entries h))" "e = ?gp ! 0"
    using heap_pop_Some [OF hpop] by auto
  have sub: "set (entries h) \<subseteq> set ?gp" "e \<in> set ?gp"
    using x(1) by (metis set_mset_mset set_mset_add_mset_insert subset_insertI insertI1)+
  have best: "\<forall>g\<in>set ?gp. \<not> score e < score g"
    using maxo.heap_root_best [OF hp] x(3) by (simp add: above_max_def)
  have hh: "is_heap above_max (entries h)" "\<forall>x\<in>set (entries h). scored x"
    using maxo.heap_pop_heap [OF hp hpop] hp(2) sub by auto
  have rest: "mhb_inv q' \<and> mhb_content q = add_mset e (mhb_content q')"
  proof (cases "sorted_pop_max (mhb_runner q)")
    case None
    then have n: "?ru = []" by (simp add: sorted_pop_max_None)
    have q': "q' = q\<lparr>mhb_good := h\<rparr>"
      using d p None by (auto simp: mhb_take_root_def mhb_sorted_pop_max_def)
    then show ?thesis using inv n hh x by (auto simp: mhb_inv_def asize_def mhb_content_def)
  next
    case (Some pr)
    then obtain y ru where sp: "sorted_pop_max (mhb_runner q) = Some (y, ru)" by (cases pr) simp
    note s = sorted_pop_max_Some [OF sp]
    have rok: "runner_ok (mhb_r q) ru" "scored y"
      using sorted_pop_max_runner_ok [OF sp] inv by (auto simp: mhb_inv_def)
    have full: "length ?gp = mhb_m q" using inv s(2) by (simp add: mhb_inv_def asize_def)
    have q': "q' = q\<lparr>mhb_good := mhb_heappush h (entry_id y) (graph_data y) (score y), mhb_runner := ru\<rparr>"
      using d p sp by (auto simp: mhb_take_root_def mhb_sorted_pop_max_def)
    have "mhb_inv q'"
      using inv full hh rok x(2) maxo.heap_push_heap [OF hh rok(2)]
      by (auto simp: q' mhb_inv_def asize_def heap_simps)
    then show ?thesis using x(1) s(1) by (simp add: q' mhb_content_def heap_simps)
  qed
  have "r = Some e" using d p by (auto simp: mhb_take_root_def)
  then show ?thesis using rest sub best by blast
qed

lemma mhb_dequeue_cases:
  assumes inv: "mhb_inv q" and d: "mhb_dequeue q = (r, q')"
  shows "(r = None \<and> mhb_content q = {#} \<and> q' = q) \<or>
    (\<exists>q1. mhb_take_root q1 = (r, q') \<and> mhb_inv q1 \<and> entries (mhb_good q1) \<noteq> [] \<and>
      mhb_content q1 \<subseteq># mhb_content q \<and> (entries (mhb_good q) \<noteq> [] \<longrightarrow> q1 = q) \<and>
      (entries (mhb_good q) = [] \<longrightarrow> entries (mhb_runner q) = [] \<and> q1 = mhb_rebuild_from_bad q))"
proof -
  let ?b = "entries (mhb_good q) = [] \<and> entries (mhb_runner q) = []"
  define q1 where "q1 = (if ?b then mhb_rebuild_from_bad q else q)"
  have i1: "mhb_inv q1" "mhb_content q1 \<subseteq># mhb_content q"
    using inv mhb_rebuild_all [OF inv] by (simp_all add: q1_def)
  have d1: "(if asize (mhb_good q1) = 0 then (None, q1) else mhb_take_root q1) = (r, q')"
    using d unfolding mhb_dequeue_def q1_def asize_def Let_def length_0_conv .
  show ?thesis
  proof (cases "entries (mhb_good q1) = []")
    case True
    have b: ?b
    proof (rule ccontr)
      assume n: "\<not> ?b"
      then have "entries (mhb_runner q) \<noteq> []" "entries (mhb_good q) = []"
        using True by (auto simp: q1_def split: if_splits)
      then show False using inv by (auto simp: mhb_inv_def asize_def)
    qed
    then have z: "asize (mhb_bad q) = 0"
      using mhb_rebuild_all [OF inv] True inv
      by (auto simp: q1_def asize_def mhb_inv_def min_def split: if_splits)
    then have "q1 = q" using b by (simp add: q1_def mhb_rebuild_from_bad_def)
    then show ?thesis using d1 True z b by (simp add: asize_def mhb_content_def)
  next
    case False
    then have "mhb_take_root q1 = (r, q')" using d1 by (simp add: asize_def)
    then show ?thesis using i1 False by (auto simp: q1_def split: if_splits)
  qed
qed

interpretation mhbq: bounded_queue mhb_enqueue mhb_dequeue mhb_content mhb_inv
proof unfold_locales
  fix q :: mhb_queue and s i g e q'
  show "mhb_inv q \<Longrightarrow> not_nan s \<Longrightarrow> \<exists>q'. mhb_enqueue q i g s = Some (0, q') \<and>
    mhb_inv q' \<and> mhb_content q' = add_mset (mk_entry i g s) (mhb_content q)"
    by (rule mhb_enqueue_ok)
  show "mhb_inv q \<Longrightarrow> mhb_dequeue q = (None, q') \<Longrightarrow> mhb_content q = {#} \<and> q' = q"
    using mhb_dequeue_cases [of q None q'] mhb_take_root_ok by blast
  show "mhb_inv q \<Longrightarrow> mhb_dequeue q = (Some e, q') \<Longrightarrow>
      mhb_inv q' \<and> add_mset e (mhb_content q') \<subseteq># mhb_content q"
    using mhb_dequeue_cases [of q "Some e" q'] mhb_take_root_ok
    by (metis option.distinct(1) option.inject)
qed

text \<open>A dequeue that rebuilds frees all but \<open>m\<close> of the overflow, no other frees anything.\<close>

definition mhb_frees :: "mhb_queue \<Rightarrow> nat" where
  "mhb_frees q = (if asize (mhb_good q) = 0 \<and> asize (mhb_runner q) = 0 then asize (mhb_bad q) - mhb_m q else 0)"

lemma mhb_dequeue_frees:
  assumes "mhb_inv q" and "mhb_dequeue q = (Some e, q')"
  shows "size (mhb_content q) = Suc (size (mhb_content q')) + mhb_frees q"
proof -
  obtain q1 where q1: "mhb_take_root q1 = (Some e, q')" "mhb_inv q1" "entries (mhb_good q1) \<noteq> []"
    "entries (mhb_good q) \<noteq> [] \<longrightarrow> q1 = q"
    "entries (mhb_good q) = [] \<longrightarrow> entries (mhb_runner q) = [] \<and> q1 = mhb_rebuild_from_bad q"
    using mhb_dequeue_cases [OF assms] by blast
  have t: "mhb_content q1 = add_mset e (mhb_content q')" using mhb_take_root_ok [OF q1(2,3,1)] by auto
  have "size (mhb_content q) = size (mhb_content q1) + mhb_frees q"
  proof (cases "entries (mhb_good q) = []")
    case True
    then show ?thesis using mhb_rebuild_all [OF assms(1) True] q1(5)
      by (simp add: mhb_content_def mhb_frees_def asize_def)
  qed (use q1(4) in \<open>simp add: mhb_frees_def asize_def\<close>)
  then show ?thesis using t by simp
qed

interpretation mhba: accounted_queue mhb_enqueue mhb_dequeue mhb_content mhb_inv mhb_frees
  by unfold_locales (rule mhb_dequeue_frees)

section \<open>Properties\<close>

text \<open>
  C38. A rebuild of the max-heap bucket queue keeps the lowest scores: every entry it frees
  scores at least as high as every entry it keeps, as the scan pops the root of a max-heap.
\<close>

theorem mhb_rebuild_keeps_worst:
  assumes "mhb_inv q" and "asize (mhb_good q) = 0" and "asize (mhb_runner q) = 0"
  shows "asize (mhb_good (mhb_rebuild_from_bad q)) = min (mhb_m q) (asize (mhb_bad q)) \<and>
    mhb_content (mhb_rebuild_from_bad q) \<subseteq># mhb_content q \<and>
    (\<forall>x\<in>#mhb_content q - mhb_content (mhb_rebuild_from_bad q).
      \<forall>g\<in>#mhb_content (mhb_rebuild_from_bad q). \<not> score x < score g)"
proof -
  have "entries (mhb_good q) = []" "entries (mhb_runner q) = []"
    using assms(2,3) by (simp_all add: asize_def)
  then show ?thesis using mhb_rebuild_all [OF assms(1)] by blast
qed

text \<open>
  A dequeue of the max-heap bucket queue keeps the invariant, returns the best entry of a
  good pile that is not empty, and then loses nothing.
\<close>

theorem mhb_dequeue_best_of_good:
  assumes "mhb_inv q" and "mhb_dequeue q = (Some e, q')" and "asize (mhb_good q) \<noteq> 0"
  shows "mhb_inv q' \<and> mhb_content q = add_mset e (mhb_content q') \<and>
    (\<forall>g\<in>set (entries (mhb_good q)). \<not> score e < score g)"
proof -
  have ne: "entries (mhb_good q) \<noteq> []" using assms(3) by (simp add: asize_def)
  then have "mhb_take_root q = (Some e, q')" using mhb_dequeue_cases [OF assms(1,2)] by blast
  then show ?thesis using mhb_take_root_ok [OF assms(1) ne] by blast
qed

text \<open>
  An enqueue that passes the threshold of a full good pile recomputes the threshold as the
  least score of the pile: it is the score of one of its entries and no entry scores less.
\<close>

theorem mhb_enqueue_threshold:
  assumes "mhb_inv q" and "asize (mhb_good q) = mhb_m q" and "not_nan s" and "mhb_threshold q < s"
  shows "\<exists>q'. mhb_enqueue q i gd s = Some (0, q') \<and>
    mhb_threshold q' \<in> score ` set (entries (mhb_good q')) \<and>
    (\<forall>g\<in>set (entries (mhb_good q')). \<not> score g < mhb_threshold q')"
proof -
  obtain q' where q': "mhb_enqueue q i gd s = Some (0, q')" "mhb_inv q'"
    "mhb_threshold q' = mhb_min_score (entries (mhb_good q'))" "entries (mhb_good q') \<noteq> []"
    using mhb_evict_ok [OF assms] by blast
  then show ?thesis using q' mhb_min_score_ok [of "entries (mhb_good q')"] by (auto simp: mhb_inv_def)
qed

text \<open>
  The best entry is not always the next one: with \<open>m = 2\<close>, after entries scored 5, 1 and
  3 the entry scored 5 was displaced to the runner-ups, and the first dequeue returns the one
  scored 3.
\<close>

theorem mhb_displaces_best:
  "map_option (\<lambda>(es, q). (map score es, map score (entries (mhb_good q))))
      (run_calls mhb_enqueue mhb_dequeue
        [Enqueue 1 1 (Fin 5), Enqueue 2 1 (Fin 1), Enqueue 3 1 (Fin 3), Dequeue] (mhb_create 2 1 4))
    = Some ([Fin 3], [Fin 5, Fin 1])"
  by code_simp

section \<open>Witnesses\<close>

definition mhb_sample :: mhb_queue where
  "mhb_sample =
     \<lparr>mhb_good = \<lparr>entries = [mk_entry 1 16 (Fin 5), mk_entry 2 32 (Fin 3)], capacity = 2\<rparr>,
      mhb_runner = \<lparr>entries = [mk_entry 3 48 (Fin 2)], capacity = 1\<rparr>,
      mhb_bad = \<lparr>entries = [mk_entry 4 64 (Fin 1)], capacity = 4\<rparr>, mhb_m = 2, mhb_r = 1,
      mhb_threshold = Fin 3, mhb_filling = False\<rparr>"

definition mhb_overflow_sample :: mhb_queue where
  "mhb_overflow_sample =
     \<lparr>mhb_good = \<lparr>entries = [], capacity = 2\<rparr>, mhb_runner = \<lparr>entries = [], capacity = 1\<rparr>,
      mhb_bad = \<lparr>entries = [mk_entry 4 64 (Fin 1), mk_entry 5 80 (Fin 7), mk_entry 6 96 (Fin 4)],
                 capacity = 4\<rparr>,
      mhb_m = 2, mhb_r = 1, mhb_threshold = Fin 3, mhb_filling = False\<rparr>"

lemma mhb_samples_inv: "mhb_inv mhb_sample" "mhb_inv mhb_overflow_sample"
  by (auto simp: mhb_sample_def mhb_overflow_sample_def mhb_inv_def asize_def heap_from_def
      runner_ok_def ascending_def above_max_def less_Suc_eq)

lemma mhb_sample_dequeue:
  "mhb_dequeue mhb_sample = (Some (mk_entry 1 16 (Fin 5)), snd (mhb_dequeue mhb_sample))"
  by code_simp

theorem mhb_rebuild_keeps_worst_witness:
  "asize (mhb_good (mhb_rebuild_from_bad mhb_overflow_sample)) = 2"
  using mhb_rebuild_keeps_worst [OF mhb_samples_inv(2)]
  by (simp add: mhb_overflow_sample_def asize_def)

theorem mhb_dequeue_best_of_good_witness:
  "mhb_content mhb_sample = add_mset (mk_entry 1 16 (Fin 5)) (mhb_content (snd (mhb_dequeue mhb_sample)))"
  using mhb_dequeue_best_of_good [OF mhb_samples_inv(1) mhb_sample_dequeue]
  by (simp add: mhb_sample_def asize_def)

theorem mhb_enqueue_threshold_witness:
  "\<exists>q'. mhb_enqueue mhb_sample 9 1 (Fin 4) = Some (0, q') \<and>
    mhb_threshold q' \<in> score ` set (entries (mhb_good q'))"
  using mhb_enqueue_threshold [OF mhb_samples_inv(1), of "Fin 4" 9 1]
  by (auto simp: mhb_sample_def asize_def)

end
