(* ===== verification/QueueThresholdBucket.thy ===== *)
theory QueueThresholdBucket imports QueueInterface begin

text \<open>
  \<^verbatim>\<open>main/src/sgf-queue-threshold-bucket.c\<close>: the two-tier queue. \<open>good_pile\<close> is a
  min-heap of at most \<open>m\<close> candidates, \<open>bad_pile\<close> the overflow; every \<open>T\<close>
  operations, and whenever the heap runs empty, both are merged, sorted and split again. It
  provides the \<open>lossless_queue\<close> contract.
\<close>

section \<open>State and operations\<close>

record tbq_queue =
  tbq_good :: earray
  tbq_bad :: earray
  tbq_m :: nat
  tbq_T :: int
  tbq_ops :: nat

definition tbq_heappush :: "earray \<Rightarrow> u32 \<Rightarrow> ptr \<Rightarrow> double \<Rightarrow> earray" where
  "tbq_heappush h i gd s =
     (let h' = grow_if_full 128 h; node = mk_entry i gd s
      in h'\<lparr>entries := heap_push above_min (entries h') node\<rparr>)"

definition tbq_heappop :: "earray \<Rightarrow> (qentry \<times> earray) option" where
  "tbq_heappop h =
     (case heap_pop above_min (entries h) of
        None \<Rightarrow> None
      | Some (first, rest) \<Rightarrow> Some (first, h\<lparr>entries := rest\<rparr>))"

definition tbq_heapify :: "earray \<Rightarrow> earray" where
  "tbq_heapify h =
     (if asize h = 0 then h
      else h\<lparr>entries := heapify_loop above_min (asize h div 2) (entries h)\<rparr>)"

definition compare_nodes_desc :: "qentry \<Rightarrow> qentry \<Rightarrow> int" where
  "compare_nodes_desc a b =
     (if score b < score a then - 1 else if score a < score b then 1 else 0)"

definition tbq_rebuild :: "tbq_queue \<Rightarrow> tbq_queue" where
  "tbq_rebuild q =
     (let total = asize (tbq_good q) + asize (tbq_bad q)
      in if total = 0 then q
         else let everything = qsort compare_nodes_desc (entries (tbq_good q) @ entries (tbq_bad q));
                  take_m = (if tbq_m q < total then tbq_m q else total)
              in q\<lparr>tbq_good := tbq_heapify ((tbq_good q)\<lparr>entries := take take_m everything\<rparr>),
                   tbq_bad := (tbq_bad q)\<lparr>entries := drop take_m everything\<rparr>,
                   tbq_ops := 0\<rparr>)"

definition tbq_create :: "nat \<Rightarrow> nat \<Rightarrow> nat \<Rightarrow> tbq_queue" where
  "tbq_create m r bad_cap =
     \<lparr>tbq_good = \<lparr>entries = [], capacity = m\<rparr>,
      tbq_bad = \<lparr>entries = [], capacity = (if bad_cap \<noteq> 0 then bad_cap else 100000)\<rparr>,
      tbq_m = m, tbq_T = 2000, tbq_ops = 0\<rparr>"

text \<open>The nodes passed to \<open>free\<close>, in order.\<close>

definition tbq_destroy :: "tbq_queue \<Rightarrow> qentry list" where
  "tbq_destroy q = entries (tbq_good q) @ entries (tbq_bad q)"

definition tbq_bad_append :: "earray \<Rightarrow> qentry \<Rightarrow> earray" where
  "tbq_bad_append bp node =
     (let bp' = grow_if_full 1024 bp in bp'\<lparr>entries := entries bp' @ [node]\<rparr>)"

text \<open>The end of both operations: count it and rebuild when the period is over.\<close>

definition tbq_tick :: "tbq_queue \<Rightarrow> tbq_queue" where
  "tbq_tick q =
     (let q' = q\<lparr>tbq_ops := tbq_ops q + 1\<rparr>
      in if 0 < tbq_T q' \<and> nat (tbq_T q') \<le> tbq_ops q' then tbq_rebuild q' else q')"

definition tbq_enqueue :: "tbq_queue \<Rightarrow> u32 \<Rightarrow> ptr \<Rightarrow> double \<Rightarrow> (s32 \<times> tbq_queue) option" where
  "tbq_enqueue q i gd s =
     (if asize (tbq_good q) < tbq_m q
      then Some (0, tbq_tick (q\<lparr>tbq_good := tbq_heappush (tbq_good q) i gd s\<rparr>))
      else if asize (tbq_good q) = 0 then None
      else if score (entries (tbq_good q) ! 0) < s
      then (case tbq_heappop (tbq_good q) of
              None \<Rightarrow> None
            | Some (evicted, gp) \<Rightarrow>
                Some (0, tbq_tick (q\<lparr>tbq_good := tbq_heappush gp i gd s,
                                     tbq_bad := tbq_bad_append (tbq_bad q) evicted\<rparr>)))
      else Some (0, tbq_tick (q\<lparr>tbq_bad := tbq_bad_append (tbq_bad q) (mk_entry i gd s)\<rparr>)))"

definition tbq_dequeue :: "tbq_queue \<Rightarrow> qentry option \<times> tbq_queue" where
  "tbq_dequeue q =
     (let q1 = (if asize (tbq_good q) = 0 then tbq_rebuild q else q); gp = tbq_good q1
      in if asize gp = 0 then (None, q1)
         else let selected = entries gp ! (asize gp - 1);
                  q2 = q1\<lparr>tbq_good := gp\<lparr>entries := butlast (entries gp)\<rparr>\<rparr>
              in (Some selected, tbq_tick q2))"

definition tbq_update_score :: "tbq_queue \<Rightarrow> u32 \<Rightarrow> double \<Rightarrow> (s32 \<times> tbq_queue) option" where
  "tbq_update_score q i s = tbq_enqueue q i null_ptr s"

definition tbq_size :: "tbq_queue \<Rightarrow> nat" where
  "tbq_size q = asize (tbq_good q) + asize (tbq_bad q)"

text \<open>The numbers of the statistics line.\<close>

definition tbq_stats :: "tbq_queue \<Rightarrow> nat list" where
  "tbq_stats q =
     [asize (tbq_good q), capacity (tbq_good q), asize (tbq_bad q), capacity (tbq_bad q),
      tbq_ops q, asize (tbq_good q) + asize (tbq_bad q)]"

section \<open>Sorting\<close>

lemma compare_le: "compare_nodes_desc x y \<le> 0 \<longleftrightarrow> \<not> score x < score y"
  using double_asym by (auto simp: compare_nodes_desc_def)

lemma descending_insert_by:
  assumes "descending ys" and "\<forall>y\<in>set ys. scored y" and "scored x"
  shows "descending (insert_by compare_nodes_desc x ys)"
  using assms
proof (induction ys)
  case (Cons y ys)
  have tl: "descending ys" "\<forall>z\<in>set ys. \<not> score y < score z"
    using Cons.prems(1) by (auto simp: descending_def)
  show ?case
  proof (cases "score x < score y")
    case True
    have "descending (insert_by compare_nodes_desc x ys)" using Cons tl by simp
    moreover have "\<not> score y < score x" using True double_asym by blast
    ultimately show ?thesis using True tl
      by (simp add: compare_le descending_def set_insert_by)
  next
    case False
    have "\<not> score x < score z" if "z \<in> set ys" for z
      using False tl(2) that double_negtrans Cons.prems(2) by (metis list.set_intros(1))
    then show ?thesis using False Cons.prems(1) by (simp add: compare_le descending_def)
  qed
qed (simp add: descending_def)

lemma descending_qsort: "\<forall>x\<in>set xs. scored x \<Longrightarrow> descending (qsort compare_nodes_desc xs)"
  by (induction xs) (auto simp: set_qsort intro!: descending_insert_by, simp add: descending_def)

lemma descending_split:
  assumes "descending xs" and "x \<in> set (take n xs)" and "y \<in> set (drop n xs)"
  shows "\<not> score x < score y"
  using assms append_take_drop_id [of n xs] unfolding descending_def
  by (metis sorted_wrt_append)

section \<open>Invariant\<close>

definition tbq_content :: "tbq_queue \<Rightarrow> qentry multiset" where
  "tbq_content q = mset (entries (tbq_good q)) + mset (entries (tbq_bad q))"

text \<open>
  Both sizes stay within the allocated capacities; that of the good pile is the \<open>m\<close> it was
  created with.
\<close>

definition tbq_inv :: "tbq_queue \<Rightarrow> bool" where
  "tbq_inv q \<longleftrightarrow>
     0 < tbq_m q \<and> 0 < tbq_T q \<and> capacity (tbq_good q) = tbq_m q \<and> asize (tbq_good q) \<le> tbq_m q \<and>
     asize (tbq_bad q) \<le> capacity (tbq_bad q) \<and> is_heap above_min (entries (tbq_good q)) \<and>
     (\<forall>x\<in>set (entries (tbq_good q)). scored x) \<and> (\<forall>x\<in>set (entries (tbq_bad q)). scored x)"

lemma tbq_create_inv: "0 < m \<Longrightarrow> tbq_inv (tbq_create m r b)"
  by (simp add: tbq_inv_def tbq_create_def asize_def heap_from_def)

lemma tbq_heappush_fields:
  "entries (tbq_heappush h i gd s) = heap_push above_min (entries h) (mk_entry i gd s)"
  "asize h < capacity h \<Longrightarrow> capacity (tbq_heappush h i gd s) = capacity h"
  by (simp_all add: tbq_heappush_def Let_def grow_if_full_def)

lemma tbq_heappop_Some:
  assumes "tbq_heappop h = Some (x, h')"
  shows "heap_pop above_min (entries h) = Some (x, entries h')" and "capacity h' = capacity h"
  using assms by (auto simp: tbq_heappop_def split: option.splits)

lemma tbq_heappop_None: "tbq_heappop h = None \<longleftrightarrow> entries h = []"
  by (cases "entries h = []") (auto simp: tbq_heappop_def heap_pop_def Let_def)

lemma tbq_bad_append_fields:
  "entries (tbq_bad_append bp x) = entries bp @ [x]"
  "asize bp \<le> capacity bp \<Longrightarrow> Suc (asize bp) \<le> capacity (tbq_bad_append bp x)"
  by (auto simp: tbq_bad_append_def Let_def grow_if_full_def)

lemma tbq_heapify_ok:
  "mset (entries (tbq_heapify h)) = mset (entries h)"
  "capacity (tbq_heapify h) = capacity h"
  "\<forall>x\<in>set (entries h). scored x \<Longrightarrow> is_heap above_min (entries (tbq_heapify h))"
  using mino.heapify_heap [of "entries h"]
  by (auto simp: tbq_heapify_def heap_simps asize_def heap_from_def)

lemma length_tbq_heapify: "length (entries (tbq_heapify h)) = length (entries h)"
  by (rule mset_eq_length) (rule tbq_heapify_ok)

lemma set_tbq_heapify: "set (entries (tbq_heapify h)) = set (entries h)"
  by (rule set_mset_eqI) (rule tbq_heapify_ok)

text \<open>A rebuild splits the merged, sorted content at \<open>m\<close>.\<close>

lemma tbq_rebuild_all:
  assumes inv: "tbq_inv q"
  defines "q' \<equiv> tbq_rebuild q"
  shows "tbq_inv q' \<and> tbq_content q' = tbq_content q \<and>
      capacity (tbq_good q') = capacity (tbq_good q) \<and> capacity (tbq_bad q') = capacity (tbq_bad q) \<and>
      asize (tbq_good q') = min (tbq_m q) (tbq_size q) \<and>
      (\<forall>g\<in>set (entries (tbq_good q')). \<forall>x\<in>set (entries (tbq_bad q')). \<not> score g < score x) \<and>
      (tbq_size q \<noteq> 0 \<longrightarrow> tbq_ops q' = 0) \<and> tbq_T q' = tbq_T q"
proof (cases "tbq_size q = 0")
  case True
  then have "q' = q" by (simp add: q'_def tbq_rebuild_def tbq_size_def)
  then show ?thesis
    using inv True by (simp add: tbq_size_def asize_def)
next
  case False
  let ?all = "qsort compare_nodes_desc (entries (tbq_good q) @ entries (tbq_bad q))"
  define n where "n = min (tbq_m q) (tbq_size q)"
  have len: "length ?all = tbq_size q" by (simp add: length_qsort tbq_size_def asize_def)
  have q': "q' = q\<lparr>tbq_good := tbq_heapify ((tbq_good q)\<lparr>entries := take n ?all\<rparr>),
      tbq_bad := (tbq_bad q)\<lparr>entries := drop n ?all\<rparr>, tbq_ops := 0\<rparr>"
    using False by (auto simp: q'_def tbq_rebuild_def tbq_size_def n_def min_def Let_def)
  have ok: "\<forall>x\<in>set ?all. scored x" using inv by (auto simp: tbq_inv_def set_qsort)
  have tk: "\<forall>x\<in>set (take n ?all). scored x" "\<forall>x\<in>set (drop n ?all). scored x"
    using ok by (meson in_set_takeD in_set_dropD)+
  have sg: "asize (tbq_good q') = n"
    using len by (simp add: q' asize_def n_def length_tbq_heapify)
  have sb: "asize (tbq_bad q') \<le> asize (tbq_bad q)"
    using inv len by (auto simp: q' asize_def n_def tbq_inv_def tbq_size_def min_def)
  have c: "tbq_content q' = tbq_content q"
  proof -
    have "mset (take n ?all) + mset (drop n ?all) = mset ?all"
      by (metis append_take_drop_id mset_append)
    then show ?thesis by (simp add: q' tbq_content_def tbq_heapify_ok(1) mset_qsort)
  qed
  have split: "\<forall>g\<in>set (entries (tbq_good q')). \<forall>x\<in>set (entries (tbq_bad q')). \<not> score g < score x"
    using descending_split [OF descending_qsort [OF ok [unfolded set_qsort]]]
    by (simp add: q' set_tbq_heapify)
  have "tbq_inv q'"
    using inv sg sb tk tbq_heapify_ok(3) [of "(tbq_good q)\<lparr>entries := take n ?all\<rparr>"]
    by (simp add: q' tbq_inv_def tbq_heapify_ok(2) set_tbq_heapify length_tbq_heapify n_def asize_def)
  then show ?thesis
    using c sg split by (simp add: q' n_def tbq_heapify_ok(2))
qed

lemmas tbq_rebuild_ok =
  tbq_rebuild_all [THEN conjunct1]
  tbq_rebuild_all [THEN conjunct2, THEN conjunct1]
  tbq_rebuild_all [THEN conjunct2, THEN conjunct2, THEN conjunct1]
  tbq_rebuild_all [THEN conjunct2, THEN conjunct2, THEN conjunct2, THEN conjunct1]
  tbq_rebuild_all [THEN conjunct2, THEN conjunct2, THEN conjunct2, THEN conjunct2, THEN conjunct1]
  tbq_rebuild_all [THEN conjunct2, THEN conjunct2, THEN conjunct2, THEN conjunct2, THEN conjunct2, THEN conjunct1]
  tbq_rebuild_all [THEN conjunct2, THEN conjunct2, THEN conjunct2, THEN conjunct2, THEN conjunct2, THEN conjunct2, THEN conjunct1]
  tbq_rebuild_all [THEN conjunct2, THEN conjunct2, THEN conjunct2, THEN conjunct2, THEN conjunct2, THEN conjunct2, THEN conjunct2]

lemma tbq_tick_ok:
  assumes "tbq_inv q"
  shows "tbq_inv (tbq_tick q)" and "tbq_content (tbq_tick q) = tbq_content q"
    and "tbq_size q \<noteq> 0 \<Longrightarrow> int (tbq_ops (tbq_tick q)) < tbq_T q"
    and "nat (tbq_T q) \<le> tbq_ops q + 1 \<Longrightarrow>
      \<forall>g\<in>set (entries (tbq_good (tbq_tick q))). \<forall>x\<in>set (entries (tbq_bad (tbq_tick q))).
        \<not> score g < score x"
proof -
  let ?q = "q\<lparr>tbq_ops := tbq_ops q + 1\<rparr>"
  have i: "tbq_inv ?q" "0 < tbq_T q" using assms by (simp_all add: tbq_inv_def)
  note r = tbq_rebuild_ok [OF i(1)]
  have c: "tbq_content ?q = tbq_content q" "tbq_size ?q = tbq_size q"
    by (simp_all add: tbq_content_def tbq_size_def)
  show "tbq_inv (tbq_tick q)" "tbq_content (tbq_tick q) = tbq_content q"
    using i r(1,2) c by (simp_all add: tbq_tick_def Let_def)
  show "tbq_size q \<noteq> 0 \<Longrightarrow> int (tbq_ops (tbq_tick q)) < tbq_T q"
    using i r(7) c by (auto simp: tbq_tick_def Let_def)
  show "nat (tbq_T q) \<le> tbq_ops q + 1 \<Longrightarrow>
      \<forall>g\<in>set (entries (tbq_good (tbq_tick q))). \<forall>x\<in>set (entries (tbq_bad (tbq_tick q))).
        \<not> score g < score x"
    using i r(6) by (simp add: tbq_tick_def Let_def)
qed

text \<open>The queue as an enqueue leaves it before the tick.\<close>

lemma tbq_enqueue_parts:
  assumes inv: "tbq_inv q" and s: "not_nan s"
  shows "\<exists>q1. tbq_enqueue q i gd s = Some (0, tbq_tick q1) \<and> tbq_inv q1 \<and>
    tbq_content q1 = add_mset (mk_entry i gd s) (tbq_content q) \<and>
    tbq_T q1 = tbq_T q \<and> tbq_ops q1 = tbq_ops q \<and> tbq_m q1 = tbq_m q"
proof -
  let ?e = "mk_entry i gd s" and ?gp = "entries (tbq_good q)"
  have hp: "is_heap above_min ?gp" "\<forall>x\<in>set ?gp. scored x" "0 < tbq_m q" "capacity (tbq_good q) = tbq_m q"
    and bd: "asize (tbq_bad q) \<le> capacity (tbq_bad q)" "\<forall>x\<in>set (entries (tbq_bad q)). scored x"
    using inv by (auto simp: tbq_inv_def)
  consider (room) "asize (tbq_good q) < tbq_m q"
    | (evict) "asize (tbq_good q) = tbq_m q" "score (?gp ! 0) < s"
    | (low) "asize (tbq_good q) = tbq_m q" "\<not> score (?gp ! 0) < s"
    using inv unfolding tbq_inv_def by linarith
  then show ?thesis
  proof cases
    case room
    let ?q1 = "q\<lparr>tbq_good := tbq_heappush (tbq_good q) i gd s\<rparr>"
    have "tbq_inv ?q1"
      using inv room s hp mino.heap_push_heap [OF hp(1,2), of ?e]
      by (auto simp: tbq_inv_def asize_def heap_simps tbq_heappush_fields)
    then show ?thesis using room
      by (intro exI [of _ ?q1]) (simp add: tbq_enqueue_def tbq_content_def heap_simps tbq_heappush_fields)
  next
    case evict
    then have ne: "?gp \<noteq> []" using hp(3) by (auto simp: asize_def)
    then obtain x h where p: "tbq_heappop (tbq_good q) = Some (x, h)"
      using tbq_heappop_None by (metis option.exhaust surj_pair)
    note hpop = tbq_heappop_Some [OF p]
    have x: "mset ?gp = add_mset x (mset (entries h))" "length ?gp = Suc (length (entries h))"
      using heap_pop_Some(3,4) [OF hpop(1)] by auto
    have sub: "set (entries h) \<subseteq> set ?gp" "x \<in> set ?gp"
      using x(1) by (metis set_mset_mset set_mset_add_mset_insert subset_insertI insertI1)+
    let ?q1 = "q\<lparr>tbq_good := tbq_heappush h i gd s, tbq_bad := tbq_bad_append (tbq_bad q) x\<rparr>"
    have hh: "is_heap above_min (entries h)" using mino.heap_pop_heap [OF hp(1,2) hpop(1)] .
    have lt: "asize h < capacity h" using hpop(2) hp(4) evict x(2) by (simp add: asize_def)
    have "\<forall>x\<in>set (entries h). scored x" using hp(2) sub by blast
    then have "is_heap above_min (heap_push above_min (entries h) ?e)"
      using mino.heap_push_heap [OF hh, of ?e] s by simp
    moreover have "scored x" using hp(2) sub by blast
    ultimately have "tbq_inv ?q1"
      using inv s sub x(2) evict lt hpop(2) tbq_bad_append_fields(2) [OF bd(1), of x]
      by (auto simp: tbq_inv_def asize_def heap_simps tbq_heappush_fields tbq_bad_append_fields(1))
    moreover have "tbq_content ?q1 = add_mset ?e (tbq_content q)"
      using x(1) by (simp add: tbq_content_def heap_simps tbq_heappush_fields tbq_bad_append_fields)
    ultimately show ?thesis using evict ne p hp(3)
      by (intro exI [of _ ?q1]) (simp add: tbq_enqueue_def asize_def)
  next
    case low
    let ?q1 = "q\<lparr>tbq_bad := tbq_bad_append (tbq_bad q) ?e\<rparr>"
    have "tbq_inv ?q1"
      using inv s tbq_bad_append_fields(2) [OF bd(1), of ?e]
      by (auto simp: tbq_inv_def asize_def tbq_bad_append_fields(1))
    then show ?thesis using low hp(3)
      by (intro exI [of _ ?q1])
        (simp add: tbq_enqueue_def tbq_content_def tbq_bad_append_fields)
  qed
qed

lemma tbq_dequeue_ok:
  assumes inv: "tbq_inv q" and d: "tbq_dequeue q = (r, q')"
  shows "(r = None \<and> tbq_content q = {#} \<and> q' = q) \<or>
    (\<exists>e. r = Some e \<and> tbq_inv q' \<and> tbq_content q = add_mset e (tbq_content q'))"
proof -
  define q1 where "q1 = (if asize (tbq_good q) = 0 then tbq_rebuild q else q)"
  note rb = tbq_rebuild_ok [OF inv]
  have i1: "tbq_inv q1" "tbq_content q1 = tbq_content q" using inv rb(1,2) by (simp_all add: q1_def)
  let ?gp = "entries (tbq_good q1)"
  have d1: "(if asize (tbq_good q1) = 0 then (None, q1)
      else (Some (?gp ! (asize (tbq_good q1) - 1)),
        tbq_tick (q1\<lparr>tbq_good := (tbq_good q1)\<lparr>entries := butlast ?gp\<rparr>\<rparr>))) = (r, q')"
    using d unfolding tbq_dequeue_def q1_def [symmetric] Let_def .
  show ?thesis
  proof (cases "?gp = []")
    case True
    then have "tbq_size q = 0" using rb(5) inv
      by (auto simp: q1_def asize_def tbq_inv_def min_def split: if_splits)
    then have "q1 = q" "tbq_content q = {#}"
      by (simp_all add: q1_def tbq_rebuild_def tbq_size_def asize_def tbq_content_def)
    then show ?thesis using d1 True by (simp add: asize_def)
  next
    case False
    let ?q2 = "q1\<lparr>tbq_good := (tbq_good q1)\<lparr>entries := butlast ?gp\<rparr>\<rparr>"
    have rq: "r = Some (last ?gp)" "q' = tbq_tick ?q2"
      using d1 False by (simp_all add: asize_def last_conv_nth)
    have m: "mset ?gp = add_mset (last ?gp) (mset (butlast ?gp))" by (rule mset_butlast_last [OF False])
    have i2: "tbq_inv ?q2" using i1(1) mino.butlast_heap
      by (auto simp: tbq_inv_def asize_def dest: in_set_butlastD)
    have "tbq_content q1 = add_mset (last ?gp) (tbq_content ?q2)" using m by (simp add: tbq_content_def)
    then show ?thesis using rq tbq_tick_ok(1,2) [OF i2] i1(2) by auto
  qed
qed

interpretation tbqq: lossless_queue tbq_enqueue tbq_dequeue tbq_content tbq_inv
proof unfold_locales
  fix q :: tbq_queue and s i g e q'
  show "tbq_inv q \<Longrightarrow> not_nan s \<Longrightarrow> \<exists>q'. tbq_enqueue q i g s = Some (0, q') \<and>
    tbq_inv q' \<and> tbq_content q' = add_mset (mk_entry i g s) (tbq_content q)"
    using tbq_enqueue_parts tbq_tick_ok(1,2) by metis
  show "tbq_inv q \<Longrightarrow> tbq_dequeue q = (None, q') \<Longrightarrow> tbq_content q = {#} \<and> q' = q"
    using tbq_dequeue_ok [of q None q'] by blast
  show "tbq_inv q \<Longrightarrow> tbq_dequeue q = (Some e, q') \<Longrightarrow>
      tbq_inv q' \<and> add_mset e (tbq_content q') \<subseteq># tbq_content q"
    using tbq_dequeue_ok [of q "Some e" q'] by auto
  show "tbq_inv q \<Longrightarrow> tbq_dequeue q = (Some e, q') \<Longrightarrow> tbq_content q = add_mset e (tbq_content q')"
    using tbq_dequeue_ok [of q "Some e" q'] by auto
qed

section \<open>Properties\<close>

text \<open>
  C26. The threshold-bucket queue loses nothing: after any sequence of calls on a fresh queue,
  draining it ends and returns, with what was returned before, exactly the entries enqueued.
\<close>

theorem tbq_session_lossless:
  assumes "0 < m" and "\<forall>c\<in>set cs. call_scored c"
  shows "\<exists>es q ds q'. run_calls tbq_enqueue tbq_dequeue cs (tbq_create m r b) = Some (es, q) \<and>
    drain tbq_dequeue (Suc (tbq_size q)) q = Some (ds, q') \<and> tbq_size q' = 0 \<and>
    mset es + mset ds = call_entries cs"
proof -
  have sz: "tbq_size p = size (tbq_content p)" for p
    by (simp add: tbq_size_def tbq_content_def asize_def)
  have c0: "tbq_content (tbq_create m r b) = {#}" by (simp add: tbq_content_def tbq_create_def)
  obtain es q where r: "run_calls tbq_enqueue tbq_dequeue cs (tbq_create m r b) = Some (es, q)"
    "tbq_inv q" "mset es + tbq_content q = call_entries cs"
    using tbqq.run_calls_exact [OF tbq_create_inv [OF assms(1)] assms(2), of r b] c0 by auto
  obtain ds q' where "drain tbq_dequeue (Suc (tbq_size q)) q = Some (ds, q')"
    "tbq_content q' = {#}" "mset ds = tbq_content q"
    using tbqq.drain_exact [OF r(2), of "Suc (tbq_size q)"] sz by auto
  then show ?thesis using r sz by simp
qed

text \<open>
  C37. A rebuild of the threshold-bucket queue selects the top \<open>m\<close> of both piles and loses
  nothing; it writes inside the arrays as they are allocated.
\<close>

theorem tbq_rebuild_selects_top:
  assumes "tbq_inv q"
  defines "q' \<equiv> tbq_rebuild q"
  shows "tbq_content q' = tbq_content q \<and> asize (tbq_good q') = min (tbq_m q) (tbq_size q) \<and>
    (\<forall>g\<in>set (entries (tbq_good q')). \<forall>x\<in>set (entries (tbq_bad q')). \<not> score g < score x) \<and>
    is_heap above_min (entries (tbq_good q')) \<and>
    asize (tbq_good q') \<le> capacity (tbq_good q) \<and> asize (tbq_bad q') \<le> capacity (tbq_bad q)"
  using tbq_rebuild_all [OF assms(1)] by (auto simp: q'_def tbq_inv_def)

text \<open>
  An enqueue keeps the operation count below the period, and when it ends a period it leaves
  no entry of the overflow above one of the good pile.
\<close>

theorem tbq_enqueue_period:
  assumes "tbq_inv q" and "not_nan s"
  shows "\<exists>q'. tbq_enqueue q i gd s = Some (0, q') \<and> tbq_inv q' \<and> int (tbq_ops q') < tbq_T q \<and>
    (nat (tbq_T q) \<le> tbq_ops q + 1 \<longrightarrow>
      (\<forall>g\<in>set (entries (tbq_good q')). \<forall>x\<in>set (entries (tbq_bad q')). \<not> score g < score x))"
proof -
  obtain q1 where q1: "tbq_enqueue q i gd s = Some (0, tbq_tick q1)" "tbq_inv q1"
    "tbq_content q1 = add_mset (mk_entry i gd s) (tbq_content q)"
    "tbq_T q1 = tbq_T q" "tbq_ops q1 = tbq_ops q"
    using tbq_enqueue_parts [OF assms] by blast
  have "tbq_size q1 = size (tbq_content q1)" by (simp add: tbq_size_def tbq_content_def asize_def)
  then have "tbq_size q1 \<noteq> 0" using q1(3) by simp
  then show ?thesis using q1 tbq_tick_ok [OF q1(2)] by auto
qed

section \<open>Witnesses\<close>

definition tbq_sample :: tbq_queue where
  "tbq_sample =
     \<lparr>tbq_good = \<lparr>entries = [mk_entry 1 16 (Fin 3), mk_entry 2 32 (Fin 5)], capacity = 2\<rparr>,
      tbq_bad = \<lparr>entries = [mk_entry 4 64 (Fin 9)], capacity = 4\<rparr>,
      tbq_m = 2, tbq_T = 5, tbq_ops = 4\<rparr>"

lemma tbq_sample_inv: "tbq_inv tbq_sample"
  by (auto simp: tbq_sample_def tbq_inv_def asize_def heap_from_def above_min_def)

theorem tbq_session_lossless_witness:
  "\<exists>es q. run_calls tbq_enqueue tbq_dequeue [Enqueue 1 16 (Fin 1), Dequeue, Rescore 2 (Fin 3)]
      (tbq_create 1 0 1) = Some (es, q)"
  using tbq_session_lossless [of 1 "[Enqueue 1 16 (Fin 1), Dequeue, Rescore 2 (Fin 3)]" 0 1] by auto

theorem tbq_rebuild_selects_top_witness:
  "tbq_content (tbq_rebuild tbq_sample) = tbq_content tbq_sample"
  using tbq_rebuild_selects_top [OF tbq_sample_inv] by simp

theorem tbq_enqueue_period_witness:
  "\<exists>q'. tbq_enqueue tbq_sample 7 1 (Fin 6) = Some (0, q') \<and> int (tbq_ops q') < 5"
  using tbq_enqueue_period [OF tbq_sample_inv, of "Fin 6" 7 1] by (auto simp: tbq_sample_def)

end
