(* ===== verification/QueueDispatch.thy ===== *)
theory QueueDispatch
imports QueueMaxheap QueueRunnerUp QueueMaxheapBucket QueueThresholdBucket
begin

text \<open>
  \<^verbatim>\<open>main/src/sgf-queue-dispatch.c\<close>: the public queue of the fuzzer. A handle is a pointer
  to an operation table and the state of the implementation, here one constructor per table, or
  \<open>NULL\<close>. The dispatching operations provide the \<open>bounded_queue\<close> contract, from the
  contracts of the four implementations.
\<close>

section \<open>Handles and operations\<close>

datatype sgf_queue =
    ThresholdBucket tbq_queue
  | RunnerUp rup_queue
  | MaxheapBucket mhb_queue
  | Maxheap maxheap_queue

type_synonym queue_handle = "sgf_queue option"

definition sgf_queue_create :: "string option \<Rightarrow> nat \<Rightarrow> nat \<Rightarrow> nat \<Rightarrow> queue_handle" where
  "sgf_queue_create impl_name m r bad_cap =
     (let name = (case impl_name of None \<Rightarrow> ''maxheap'' | Some n \<Rightarrow> n)
      in if name = ''threshold_bucket'' then Some (ThresholdBucket (tbq_create m r bad_cap))
         else if name = ''runner_up'' then Some (RunnerUp (rup_create m r bad_cap))
         else if name = ''maxheap_bucket'' then Some (MaxheapBucket (mhb_create m r bad_cap))
         else if name = ''maxheap'' then Some (Maxheap (maxheap_create m r bad_cap))
         else None)"

definition sgf_queue_destroy :: "queue_handle \<Rightarrow> qentry list" where
  "sgf_queue_destroy h =
     (case h of None \<Rightarrow> []
      | Some (ThresholdBucket q) \<Rightarrow> tbq_destroy q
      | Some (RunnerUp q) \<Rightarrow> rup_destroy q
      | Some (MaxheapBucket q) \<Rightarrow> mhb_destroy q
      | Some (Maxheap q) \<Rightarrow> maxheap_destroy q)"

text \<open>The implementation's new state goes back under the same table.\<close>

definition keep_table :: "('a \<Rightarrow> sgf_queue) \<Rightarrow> (s32 \<times> 'a) option \<Rightarrow> (s32 \<times> queue_handle) option" where
  "keep_table c r = map_option (\<lambda>(rc, q). (rc, Some (c q))) r"

definition sgf_queue_enqueue ::
    "queue_handle \<Rightarrow> u32 \<Rightarrow> ptr \<Rightarrow> double \<Rightarrow> (s32 \<times> queue_handle) option" where
  "sgf_queue_enqueue h i gd s =
     (case h of None \<Rightarrow> Some (- 1, None)
      | Some (ThresholdBucket q) \<Rightarrow> keep_table ThresholdBucket (tbq_enqueue q i gd s)
      | Some (RunnerUp q) \<Rightarrow> keep_table RunnerUp (rup_enqueue q i gd s)
      | Some (MaxheapBucket q) \<Rightarrow> keep_table MaxheapBucket (mhb_enqueue q i gd s)
      | Some (Maxheap q) \<Rightarrow> keep_table Maxheap (maxheap_enqueue q i gd s))"

definition sgf_queue_dequeue :: "queue_handle \<Rightarrow> qentry option \<times> queue_handle" where
  "sgf_queue_dequeue h =
     (case h of None \<Rightarrow> (None, None)
      | Some (ThresholdBucket q) \<Rightarrow> map_prod id (Some \<circ> ThresholdBucket) (tbq_dequeue q)
      | Some (RunnerUp q) \<Rightarrow> map_prod id (Some \<circ> RunnerUp) (rup_dequeue q)
      | Some (MaxheapBucket q) \<Rightarrow> map_prod id (Some \<circ> MaxheapBucket) (mhb_dequeue q)
      | Some (Maxheap q) \<Rightarrow> map_prod id (Some \<circ> Maxheap) (maxheap_dequeue q))"

definition sgf_queue_update_score :: "queue_handle \<Rightarrow> u32 \<Rightarrow> double \<Rightarrow> (s32 \<times> queue_handle) option" where
  "sgf_queue_update_score h i s =
     (case h of None \<Rightarrow> Some (- 1, None)
      | Some (ThresholdBucket q) \<Rightarrow> keep_table ThresholdBucket (tbq_update_score q i s)
      | Some (RunnerUp q) \<Rightarrow> keep_table RunnerUp (rup_update_score q i s)
      | Some (MaxheapBucket q) \<Rightarrow> keep_table MaxheapBucket (mhb_update_score q i s)
      | Some (Maxheap q) \<Rightarrow> keep_table Maxheap (maxheap_update_score q i s))"

definition sgf_queue_size :: "queue_handle \<Rightarrow> nat" where
  "sgf_queue_size h =
     (case h of None \<Rightarrow> 0
      | Some (ThresholdBucket q) \<Rightarrow> tbq_size q
      | Some (RunnerUp q) \<Rightarrow> rup_size q
      | Some (MaxheapBucket q) \<Rightarrow> mhb_size q
      | Some (Maxheap q) \<Rightarrow> maxheap_size q)"

section \<open>The contract of the dispatcher\<close>

definition handle_content :: "queue_handle \<Rightarrow> qentry multiset" where
  "handle_content h =
     (case h of None \<Rightarrow> {#}
      | Some (ThresholdBucket q) \<Rightarrow> tbq_content q
      | Some (RunnerUp q) \<Rightarrow> rup_content q
      | Some (MaxheapBucket q) \<Rightarrow> mhb_content q
      | Some (Maxheap q) \<Rightarrow> maxheap_content q)"

definition handle_inv :: "queue_handle \<Rightarrow> bool" where
  "handle_inv h =
     (case h of None \<Rightarrow> False
      | Some (ThresholdBucket q) \<Rightarrow> tbq_inv q
      | Some (RunnerUp q) \<Rightarrow> rup_inv q
      | Some (MaxheapBucket q) \<Rightarrow> mhb_inv q
      | Some (Maxheap q) \<Rightarrow> maxheap_inv q)"

lemmas handle_defs = handle_content_def handle_inv_def keep_table_def

lemma handle_cases:
  assumes "handle_inv h"
  obtains (tbq) q where "h = Some (ThresholdBucket q)" "tbq_inv q"
    | (rup) q where "h = Some (RunnerUp q)" "rup_inv q"
    | (mhb) q where "h = Some (MaxheapBucket q)" "mhb_inv q"
    | (max) q where "h = Some (Maxheap q)" "maxheap_inv q"
  using assms by (auto simp: handle_inv_def split: option.splits sgf_queue.splits)

lemma handle_enqueue_ok:
  assumes "handle_inv h" and "not_nan s"
  shows "\<exists>h'. sgf_queue_enqueue h i gd s = Some (0, h') \<and> handle_inv h' \<and>
    handle_content h' = add_mset (mk_entry i gd s) (handle_content h)"
  using assms(1)
proof (cases rule: handle_cases)
  case (tbq q)
  then show ?thesis using tbqq.enq_ok [OF tbq(2) assms(2), of i gd]
    by (auto simp: sgf_queue_enqueue_def handle_defs)
next
  case (rup q)
  then show ?thesis using rupq.enq_ok [OF rup(2) assms(2), of i gd]
    by (auto simp: sgf_queue_enqueue_def handle_defs)
next
  case (mhb q)
  then show ?thesis using mhbq.enq_ok [OF mhb(2) assms(2), of i gd]
    by (auto simp: sgf_queue_enqueue_def handle_defs)
next
  case (max q)
  then show ?thesis using maxq.enq_ok [OF max(2) assms(2), of i gd]
    by (auto simp: sgf_queue_enqueue_def handle_defs)
qed

lemma handle_dequeue_ok:
  assumes "handle_inv h" and "sgf_queue_dequeue h = (r, h')"
  shows "(r = None \<longrightarrow> handle_content h = {#} \<and> h' = h) \<and>
    (r = Some e \<longrightarrow> handle_inv h' \<and> add_mset e (handle_content h') \<subseteq># handle_content h)"
  using assms(1)
proof (cases rule: handle_cases)
  case (tbq q)
  then obtain q' where "tbq_dequeue q = (r, q')" "h' = Some (ThresholdBucket q')"
    using assms(2) by (cases "tbq_dequeue q") (auto simp: sgf_queue_dequeue_def)
  then show ?thesis
    using tbq tbqq.deq_none [of q q'] tbqq.deq_some [of q e q'] by (auto simp: handle_defs)
next
  case (rup q)
  then obtain q' where "rup_dequeue q = (r, q')" "h' = Some (RunnerUp q')"
    using assms(2) by (cases "rup_dequeue q") (auto simp: sgf_queue_dequeue_def)
  then show ?thesis
    using rup rupq.deq_none [of q q'] rupq.deq_some [of q e q'] by (auto simp: handle_defs)
next
  case (mhb q)
  then obtain q' where "mhb_dequeue q = (r, q')" "h' = Some (MaxheapBucket q')"
    using assms(2) by (cases "mhb_dequeue q") (auto simp: sgf_queue_dequeue_def)
  then show ?thesis
    using mhb mhbq.deq_none [of q q'] mhbq.deq_some [of q e q'] by (auto simp: handle_defs)
next
  case (max q)
  then obtain q' where "maxheap_dequeue q = (r, q')" "h' = Some (Maxheap q')"
    using assms(2) by (cases "maxheap_dequeue q") (auto simp: sgf_queue_dequeue_def)
  then show ?thesis
    using max maxq.deq_none [of q q'] maxq.deq_some [of q e q'] by (auto simp: handle_defs)
qed

interpretation sgfq: bounded_queue sgf_queue_enqueue sgf_queue_dequeue handle_content handle_inv
proof unfold_locales
  fix h h' :: queue_handle and s i g e
  show "handle_inv h \<Longrightarrow> not_nan s \<Longrightarrow> \<exists>h'. sgf_queue_enqueue h i g s = Some (0, h') \<and>
    handle_inv h' \<and> handle_content h' = add_mset (mk_entry i g s) (handle_content h)"
    by (rule handle_enqueue_ok)
  show "handle_inv h \<Longrightarrow> sgf_queue_dequeue h = (None, h') \<Longrightarrow> handle_content h = {#} \<and> h' = h"
    using handle_dequeue_ok [of h None h'] by blast
  show "handle_inv h \<Longrightarrow> sgf_queue_dequeue h = (Some e, h') \<Longrightarrow>
      handle_inv h' \<and> add_mset e (handle_content h') \<subseteq># handle_content h"
    using handle_dequeue_ok [of h "Some e" h' e] by blast
qed

text \<open>How many entries the next dequeue frees: some only where a runner-up or a max-heap bucket queue rebuilds.\<close>

definition handle_frees :: "queue_handle \<Rightarrow> nat" where
  "handle_frees h =
     (case h of Some (RunnerUp q) \<Rightarrow> rup_frees q | Some (MaxheapBucket q) \<Rightarrow> mhb_frees q | _ \<Rightarrow> 0)"

lemma handle_dequeue_frees:
  assumes "handle_inv h" and "sgf_queue_dequeue h = (Some e, h')"
  shows "size (handle_content h) = Suc (size (handle_content h')) + handle_frees h"
  using assms(1)
proof (cases rule: handle_cases)
  case (tbq q)
  then obtain q' where "tbq_dequeue q = (Some e, q')" "h' = Some (ThresholdBucket q')"
    using assms(2) by (cases "tbq_dequeue q") (auto simp: sgf_queue_dequeue_def)
  then show ?thesis using tbq tbqq.deq_frees [of q e q'] by (simp add: handle_defs handle_frees_def)
next
  case (rup q)
  then obtain q' where "rup_dequeue q = (Some e, q')" "h' = Some (RunnerUp q')"
    using assms(2) by (cases "rup_dequeue q") (auto simp: sgf_queue_dequeue_def)
  then show ?thesis using rup rupa.deq_frees [of q e q'] by (simp add: handle_defs handle_frees_def)
next
  case (mhb q)
  then obtain q' where "mhb_dequeue q = (Some e, q')" "h' = Some (MaxheapBucket q')"
    using assms(2) by (cases "mhb_dequeue q") (auto simp: sgf_queue_dequeue_def)
  then show ?thesis using mhb mhba.deq_frees [of q e q'] by (simp add: handle_defs handle_frees_def)
next
  case (max q)
  then obtain q' where "maxheap_dequeue q = (Some e, q')" "h' = Some (Maxheap q')"
    using assms(2) by (cases "maxheap_dequeue q") (auto simp: sgf_queue_dequeue_def)
  then show ?thesis using max maxq.deq_frees [of q e q'] by (simp add: handle_defs handle_frees_def)
qed

interpretation sgfa: accounted_queue sgf_queue_enqueue sgf_queue_dequeue handle_content handle_inv handle_frees
  by unfold_locales (rule handle_dequeue_frees)

text \<open>The implementations that free nothing.\<close>

definition keeps_all :: "queue_handle \<Rightarrow> bool" where
  "keeps_all h \<longleftrightarrow> (case h of Some (ThresholdBucket q) \<Rightarrow> True | Some (Maxheap q) \<Rightarrow> True | _ \<Rightarrow> False)"

lemma keeps_all_step:
  assumes "keeps_all h"
  shows "handle_frees h = 0" and "sgf_queue_enqueue h i gd s = Some (rc, h1) \<Longrightarrow> keeps_all h1" and "keeps_all (snd (sgf_queue_dequeue h))"
  using assms by (auto simp: keeps_all_def handle_frees_def sgf_queue_enqueue_def sgf_queue_dequeue_def keep_table_def
      split: option.splits sgf_queue.splits)

lemma calls_free_none:
  "keeps_all h \<Longrightarrow> calls_free sgf_queue_enqueue sgf_queue_dequeue handle_frees cs h = 0"
proof (induction cs arbitrary: h)
  case (Cons c cs)
  have "keeps_all h1" if "sgf_queue_dequeue h = (x, h1)" for x h1 using keeps_all_step(3) [OF Cons.prems] that by simp
  then show ?case using Cons keeps_all_step(1) [OF Cons.prems] keeps_all_step(2) [OF Cons.prems]
    by (cases c) (auto split: option.split prod.split)
qed simp

lemma run_calls_keeps_all:
  "keeps_all h \<Longrightarrow> run_calls sgf_queue_enqueue sgf_queue_dequeue cs h = Some (es, h') \<Longrightarrow> keeps_all h'"
proof (induction cs arbitrary: h es)
  case (Cons c cs)
  have "keeps_all h1" if "sgf_queue_dequeue h = (x, h1)" for x h1 using keeps_all_step(3) [OF Cons.prems(1)] that by simp
  then show ?case using Cons keeps_all_step(2) [OF Cons.prems(1)]
    by (cases c) (fastforce split: option.splits prod.splits)+
qed simp

lemma drain_frees_none: "keeps_all h \<Longrightarrow> drain_frees sgf_queue_dequeue handle_frees n h = 0"
proof (induction n arbitrary: h)
  case (Suc n)
  have "keeps_all h1" if "sgf_queue_dequeue h = (x, h1)" for x h1 using keeps_all_step(3) [OF Suc.prems] that by simp
  then show ?case using Suc keeps_all_step(1) [OF Suc.prems] by (auto split: option.split prod.split)
qed simp

lemma create_contents:
  "tbq_content (tbq_create m r b) = {#}" "rup_content (rup_create m r b) = {#}"
  "mhb_content (mhb_create m r b) = {#}" "maxheap_content (maxheap_create m r b) = {#}"
  by (simp_all add: tbq_content_def rup_content_def mhb_content_def maxheap_create_content
      tbq_create_def rup_create_def mhb_create_def)

lemma sgf_queue_create_inv:
  assumes "sgf_queue_create n m r b = Some q" and "0 < m"
  shows "handle_inv (Some q)" and "handle_content (Some q) = {#}"
  using assms
  by (auto simp: sgf_queue_create_def handle_defs tbq_create_inv rup_create_inv mhb_create_inv
      maxheap_create_inv create_contents Let_def split: if_splits)

lemma sgf_queue_update_score_enqueue:
  "sgf_queue_update_score h i s = sgf_queue_enqueue h i null_ptr s"
  by (simp add: sgf_queue_update_score_def sgf_queue_enqueue_def tbq_update_score_def
      rup_update_score_def mhb_update_score_def maxheap_update_score_def split: option.splits sgf_queue.splits)

lemma sgf_queue_size_content: "sgf_queue_size h = size (handle_content h)"
  by (simp add: sgf_queue_size_def handle_content_def tbq_size_def rup_size_def mhb_size_def
      maxheap_size_def tbq_content_def rup_content_def mhb_content_def maxheap_content_def asize_def
      split: option.splits sgf_queue.splits)

lemma sgf_queue_destroy_content: "mset (sgf_queue_destroy h) = handle_content h"
  by (simp add: sgf_queue_destroy_def handle_content_def tbq_destroy_def rup_destroy_def mhb_destroy_def
      maxheap_destroy_def tbq_content_def rup_content_def mhb_content_def maxheap_content_def
      split: option.splits sgf_queue.splits)

section \<open>Properties\<close>

text \<open>
  C13. Whichever implementation is selected, with room for at least one entry in its first pile, any
  sequence of calls with scores that are numbers runs on a fresh queue, and then the queue can be drained: after at
  most one dequeue more than the size reported, it answers \<open>NULL\<close> and its size is 0. Every entry put
  in is accounted for: it was returned, during the calls or while draining, or it is one of those that
  were freed, whose number is exactly the sum, over the dequeues that found the upper piles of a
  runner-up or max-heap bucket queue empty, of what its overflow had beyond \<open>m\<close>. The other
  two implementations free none.
\<close>

theorem sgf_queue_session:
  assumes "sgf_queue_create n m r b = Some q0" and "0 < m" and "\<forall>c\<in>set cs. call_scored c"
  shows "\<exists>es q ds q' F. run_calls sgf_queue_enqueue sgf_queue_dequeue cs (Some q0) = Some (es, q) \<and>
    drain sgf_queue_dequeue (Suc (sgf_queue_size q)) q = Some (ds, q') \<and> sgf_queue_size q' = 0 \<and>
    mset es + mset ds + F = call_entries cs \<and>
    size F = calls_free sgf_queue_enqueue sgf_queue_dequeue handle_frees cs (Some q0) +
      drain_frees sgf_queue_dequeue handle_frees (Suc (sgf_queue_size q)) q \<and>
    (n \<noteq> Some ''runner_up'' \<and> n \<noteq> Some ''maxheap_bucket'' \<longrightarrow> F = {#})"
proof -
  note c = sgf_queue_create_inv [OF assms(1,2)]
  obtain es q F where r: "run_calls sgf_queue_enqueue sgf_queue_dequeue cs (Some q0) = Some (es, q)"
    "handle_inv q" "mset es + handle_content q + F = call_entries cs"
    "size F = calls_free sgf_queue_enqueue sgf_queue_dequeue handle_frees cs (Some q0)"
    using sgfa.run_calls_account [OF c(1) assms(3)] c(2) by auto
  obtain ds q' G where d: "drain sgf_queue_dequeue (Suc (sgf_queue_size q)) q = Some (ds, q')"
    "handle_content q' = {#}" "mset ds + G = handle_content q"
    "size G = drain_frees sgf_queue_dequeue handle_frees (Suc (sgf_queue_size q)) q"
    using sgfa.drain_account [OF r(2), of "Suc (sgf_queue_size q)"] sgf_queue_size_content by auto
  have e: "mset es + mset ds + (F + G) = call_entries cs" unfolding r(3) [symmetric] d(3) [symmetric] by simp
  have "F + G = {#}" if "n \<noteq> Some ''runner_up''" "n \<noteq> Some ''maxheap_bucket''"
  proof -
    have k: "keeps_all (Some q0)" using assms(1) that by (auto simp: sgf_queue_create_def keeps_all_def Let_def split: if_splits option.splits)
    then have "size F = 0" using r(1,4) calls_free_none by metis
    moreover have "size G = 0" using d(4) unfolding drain_frees_none [OF run_calls_keeps_all [OF k r(1)]] .
    ultimately show ?thesis by simp
  qed
  then show ?thesis using r(1,4) d(1,2,4) e
    by (intro exI [of _ es] exI [of _ q] exI [of _ ds] exI [of _ q'] exI [of _ "F + G"]) (simp add: sgf_queue_size_content)
qed

text \<open>
  An unknown implementation name gives \<open>NULL\<close>, and every operation on \<open>NULL\<close>
  answers with its error value and changes nothing.
\<close>

theorem sgf_queue_null_safe:
  "(sgf_queue_create n m r b = None \<longleftrightarrow>
      n \<notin> {None, Some ''threshold_bucket'', Some ''runner_up'', Some ''maxheap_bucket'', Some ''maxheap''}) \<and>
   sgf_queue_enqueue None i gd s = Some (- 1, None) \<and> sgf_queue_update_score None i s = Some (- 1, None) \<and>
   sgf_queue_dequeue None = (None, None) \<and> sgf_queue_size None = 0 \<and> sgf_queue_destroy None = []"
  by (auto simp: sgf_queue_create_def sgf_queue_enqueue_def sgf_queue_update_score_def
      sgf_queue_dequeue_def sgf_queue_size_def sgf_queue_destroy_def Let_def split: option.splits)

lemma sgf_queue_destroy_frees_all:
  "mset (sgf_queue_destroy h) = handle_content h \<and> length (sgf_queue_destroy h) = sgf_queue_size h"
  using sgf_queue_destroy_content [of h] sgf_queue_size_content [of h] by (metis size_mset)

text \<open>Four entries in piles of one: the third dequeue rebuilds and frees an entry.\<close>

theorem sgf_queue_session_witness:
  "\<exists>es q ds q' F. run_calls sgf_queue_enqueue sgf_queue_dequeue
      [Enqueue 1 16 (Fin 4), Enqueue 2 32 (Fin 3), Enqueue 3 48 (Fin 2), Enqueue 4 64 (Fin 1), Dequeue, Dequeue, Dequeue]
      (Some (RunnerUp (rup_create 1 1 8))) = Some (es, q) \<and> drain sgf_queue_dequeue (Suc (sgf_queue_size q)) q = Some (ds, q') \<and>
    length es = 3 \<and> ds = [] \<and> size F = 1 \<and>
    mset es + F = {#mk_entry 1 16 (Fin 4), mk_entry 2 32 (Fin 3), mk_entry 3 48 (Fin 2), mk_entry 4 64 (Fin 1)#}"
proof -
  let ?cs = "[Enqueue 1 16 (Fin 4), Enqueue 2 32 (Fin 3), Enqueue 3 48 (Fin 2), Enqueue 4 64 (Fin 1), Dequeue, Dequeue, Dequeue]"
    and ?q = "RunnerUp (rup_create 1 1 8)"
  have f: "calls_free sgf_queue_enqueue sgf_queue_dequeue handle_frees ?cs (Some ?q) = 1"
    and e: "map_option (\<lambda>(es, q). (length es, sgf_queue_size q)) (run_calls sgf_queue_enqueue sgf_queue_dequeue ?cs (Some ?q)) = Some (3, 0)"
    by code_simp+
  have h: "sgf_queue_create (Some ''runner_up'') 1 1 8 = Some ?q" "(0::nat) < 1" "\<forall>c\<in>set ?cs. call_scored c"
    by (simp_all add: sgf_queue_create_def)
  obtain es q ds q' F where s: "run_calls sgf_queue_enqueue sgf_queue_dequeue ?cs (Some ?q) = Some (es, q)"
    "drain sgf_queue_dequeue (Suc (sgf_queue_size q)) q = Some (ds, q')" "mset es + mset ds + F = call_entries ?cs"
    "size F = calls_free sgf_queue_enqueue sgf_queue_dequeue handle_frees ?cs (Some ?q) +
      drain_frees sgf_queue_dequeue handle_frees (Suc (sgf_queue_size q)) q"
    using sgf_queue_session [OF h] by blast
  have z: "length es = 3" using e s(1) by simp
  have "size (mset es + mset ds + F) = 4" unfolding s(3) by simp
  then have "length ds + size F = 1" using z by simp
  moreover have "1 \<le> size F" using s(4) f by simp
  ultimately have "length ds = 0" "size F = 1" by linarith+
  then show ?thesis using s z by (intro exI [of _ es] exI [of _ q] exI [of _ ds] exI [of _ q'] exI [of _ F]) simp
qed

end
