(* ===== verification/LinearProbe.thy ===== *)
theory LinearProbe imports Prelude begin

text \<open>
  Open addressing with linear probing, as the hash tables of the program use it: a table is an
  array of slots, a slot holds a key or is free, and a key is looked for from its home slot
  cyclically until a slot that holds it or a free one is met. The probing loop is the code's,
  with the capacity as fuel; the locale \<open>probe_table\<close> says what a table's slots and hash
  have to promise and proves search, store and re-insertion correct against the table's meaning
  as a partial map.
\<close>

section \<open>The probing loop\<close>

text \<open>
  \<open>while (true) { if (stop(idx)) return idx; idx = (idx + 1) % cap; if (idx == start) fail; }\<close>
\<close>

fun probe_loop :: "nat \<Rightarrow> (nat \<Rightarrow> bool) \<Rightarrow> nat \<Rightarrow> nat \<Rightarrow> nat \<Rightarrow> nat option" where
  "probe_loop 0 stop cap start idx = None"
| "probe_loop (Suc n) stop cap start idx =
     (if stop idx then Some idx
      else let idx' = (idx + 1) mod cap
           in if idx' = start then None else probe_loop n stop cap start idx')"

abbreviation probe :: "(nat \<Rightarrow> bool) \<Rightarrow> nat \<Rightarrow> nat \<Rightarrow> nat option" where
  "probe stop cap start \<equiv> probe_loop cap stop cap start start"

text \<open>The loop is a search along the cyclic sequence of slots: its fuel is never exhausted.\<close>

lemma probe_loop_find:
  assumes "start < cap" and "d < cap"
  shows "probe_loop (cap - d) stop cap start ((start + d) mod cap) =
    find stop (map (\<lambda>e. (start + e) mod cap) [d..<cap])"
  using assms
proof (induction "cap - d" arbitrary: d)
  case (Suc n)
  have c: "cap - d = Suc (cap - Suc d)" using Suc.prems by simp
  have u: "[d..<cap] = d # [Suc d..<cap]" using Suc.prems by (simp add: upt_conv_Cons)
  have nx: "Suc ((start + d) mod cap) mod cap = Suc (start + d) mod cap"
    by (simp add: mod_Suc_eq)
  show ?case
  proof (cases "Suc d < cap")
    case True
    have "(start + Suc d) mod cap \<noteq> start"
    proof
      assume "(start + Suc d) mod cap = start"
      then have "(start + Suc d) mod cap = start mod cap" using Suc.prems by simp
      then have "cap dvd Suc d" by (metis add_diff_cancel_left' le_add1 mod_eq_dvd_iff_nat)
      then show False using True by (simp add: nat_dvd_not_less)
    qed
    then show ?thesis
      using Suc.hyps(1) [of "Suc d"] Suc.hyps(2) Suc.prems True
      unfolding c u by (simp add: nx Let_def)
  next
    case False
    then have "Suc d = cap" using Suc.prems by simp
    moreover have "Suc (start + d) = start + Suc d" by simp
    ultimately have w: "Suc (start + d) mod cap = start" and e: "[Suc d..<cap] = []"
      using Suc.prems by (metis mod_add_self2 mod_less, simp)
    show ?thesis unfolding c u e by (simp add: nx w Let_def)
  qed
qed simp

definition probe_seq :: "nat \<Rightarrow> nat \<Rightarrow> nat list" where
  "probe_seq cap h = map (\<lambda>d. (h + d) mod cap) [0..<cap]"

lemma probe_find: "start < cap \<Longrightarrow> probe stop cap start = find stop (probe_seq cap start)"
  using probe_loop_find [of start cap 0 stop] by (simp add: probe_seq_def)

lemma probe_seq_set: "h < cap \<Longrightarrow> set (probe_seq cap h) = {..<cap}"
proof (rule set_eqI)
  fix i assume h: "h < cap"
  show "i \<in> set (probe_seq cap h) \<longleftrightarrow> i \<in> {..<cap}"
  proof
    assume "i \<in> {..<cap}"
    then have "i = (h + (i + cap - h) mod cap) mod cap" using h
      by (cases "h \<le> i") (auto simp: mod_add_right_eq)
    moreover have "(i + cap - h) mod cap < cap" using h by simp
    ultimately show "i \<in> set (probe_seq cap h)" by (auto simp: probe_seq_def image_iff intro!: bexI)
  qed (use h in \<open>auto simp: probe_seq_def\<close>)
qed

lemma probe_None: "start < cap \<Longrightarrow> probe stop cap start = None \<longleftrightarrow> (\<forall>i<cap. \<not> stop i)"
  by (auto simp: probe_find find_None_iff probe_seq_set)

lemma probe_Some:
  "start < cap \<Longrightarrow> probe stop cap start = Some i \<longleftrightarrow>
    (\<exists>d<cap. i = (start + d) mod cap \<and> stop i \<and> (\<forall>e<d. \<not> stop ((start + e) mod cap)))"
  by (auto simp: probe_find find_Some_iff probe_seq_def)

lemma probe_Some_stop: "start < cap \<Longrightarrow> probe stop cap start = Some i \<Longrightarrow> i < cap \<and> stop i"
  unfolding probe_find by (auto simp: find_Some_iff probe_seq_def)

lemma probe_cong:
  "start < cap \<Longrightarrow> (\<And>i. i < cap \<Longrightarrow> p i = q i) \<Longrightarrow> probe p cap start = probe q cap start"
  unfolding probe_find by (rule find_cong) (auto simp: probe_seq_set)

section \<open>Masked probing\<close>

text \<open>
  Tables whose capacity is a power of two mask the index of the next slot instead of dividing:
  \<open>while (!stop(index)) index = (index + 1) & mask;\<close>. The loop has no bound of its own;
  \<open>None\<close> says that no slot stops it in as many probes as the fuel.
\<close>

fun masked_probe :: "nat \<Rightarrow> (nat \<Rightarrow> bool) \<Rightarrow> 'w::len word \<Rightarrow> 'w word \<Rightarrow> nat option" where
  "masked_probe 0 stop msk index = None"
| "masked_probe (Suc n) stop msk index =
     (if stop (unat index) then Some (unat index) else masked_probe n stop msk ((index + 1) AND msk))"

lemma word_mask_mod:
  "k < LENGTH('w) \<Longrightarrow> unat ((x::'w::len word) AND (of_nat (2 ^ k) - 1)) = unat x mod 2 ^ k"
proof -
  assume k: "k < LENGTH('w)"
  have "(of_nat (2 ^ k) - 1 :: 'w word) = mask k" by (simp add: mask_eq_exp_minus_1)
  then have "unat (x AND (of_nat (2 ^ k) - 1)) = unat (take_bit k x)"
    by (simp only: take_bit_eq_mask)
  also have "\<dots> = take_bit k (unat x)" by (rule unsigned_take_bit_eq)
  finally show ?thesis by (simp only: take_bit_eq_mod)
qed

lemma masked_probe_find:
  fixes i :: "'w::len word"
  assumes "k < LENGTH('w)"
  shows "unat i < 2 ^ k \<Longrightarrow> masked_probe n stop (of_nat (2 ^ k) - 1) i =
    find stop (map (\<lambda>e. (unat i + e) mod 2 ^ k) [0..<n])"
proof (induction n arbitrary: i)
  case (Suc n)
  let ?i' = "(i + 1) AND (of_nat (2 ^ k) - 1)"
  have "(2::nat) ^ Suc k \<le> 2 ^ LENGTH('w)" using assms by (intro power_increasing) auto
  then have "unat i + 1 < 2 ^ LENGTH('w)" using Suc.prems by simp
  then have "unat (i + 1) = Suc (unat i)" by (simp add: unat_word_ariths)
  then have i': "unat ?i' = Suc (unat i) mod 2 ^ k" using word_mask_mod [OF assms, of "i + 1"] by simp
  have u: "[0..<Suc n] = 0 # map Suc [0..<n]" by (simp add: map_Suc_upt upt_conv_Cons del: upt_Suc)
  have "masked_probe n stop (of_nat (2 ^ k) - 1) ?i' =
      find stop (map (\<lambda>e. (Suc (unat i) mod 2 ^ k + e) mod 2 ^ k) [0..<n])"
    using Suc.IH [of ?i'] i' by simp
  also have "map (\<lambda>e. (Suc (unat i) mod 2 ^ k + e) mod 2 ^ k) [0..<n]
      = map (\<lambda>e. (unat i + Suc e) mod 2 ^ k) [0..<n]"
    by (simp add: mod_add_left_eq)
  finally show ?case unfolding u using Suc.prems by (simp add: comp_def)
qed simp

lemma masked_probe_probe:
  fixes h :: "'w::len word"
  assumes "k < LENGTH('w)"
  shows "masked_probe (2 ^ k) stop (of_nat (2 ^ k) - 1) (h AND (of_nat (2 ^ k) - 1)) =
    probe stop (2 ^ k) (unat (h AND (of_nat (2 ^ k) - 1)))"
proof -
  have "unat (h AND (of_nat (2 ^ k) - 1)) < 2 ^ k"
    using word_mask_mod [OF assms, of h] by simp
  then show ?thesis
    using masked_probe_find [OF assms, of "h AND (of_nat (2 ^ k) - 1)" "2 ^ k" stop]
    by (simp add: probe_find probe_seq_def)
qed

text \<open>A masked index is inside the table, whatever its capacity.\<close>

lemma masked_less: "0 < cap \<Longrightarrow> unat ((x::'w::len word) AND (of_nat cap - 1)) < cap"
proof -
  assume c: "0 < cap"
  show ?thesis
  proof (cases "cap < 2 ^ LENGTH('w)")
    case True
    have "x AND (of_nat cap - 1) \<le> of_nat cap - 1" by (rule word_and_le1)
    then have "unat (x AND (of_nat cap - 1)) \<le> unat (of_nat cap - 1 :: 'w word)" by (simp add: word_le_nat_alt)
    also have "unat (of_nat cap - 1 :: 'w word) = cap - 1"
    proof -
      have "(of_nat cap - 1 :: 'w word) = of_nat (cap - 1)" using c by (simp add: of_nat_diff)
      moreover have "unat (of_nat (cap - 1) :: 'w word) = cap - 1"
        using True by (simp add: unat_of_nat take_bit_nat_eq_self)
      ultimately show ?thesis by simp
    qed
    finally show ?thesis using c by linarith
  next
    case False
    have "unat (x AND (of_nat cap - 1)) < 2 ^ LENGTH('w)" by (rule unsigned_less)
    then show ?thesis using False by linarith
  qed
qed

section \<open>Tables\<close>

definition key_slot :: "('s \<Rightarrow> 'k option) \<Rightarrow> 's list \<Rightarrow> 'k \<Rightarrow> 's option" where
  "key_slot slot_key xs k = find (\<lambda>s. slot_key s = Some k) xs"

definition used :: "('s \<Rightarrow> 'k option) \<Rightarrow> 's list \<Rightarrow> nat" where
  "used slot_key xs = length (filter (\<lambda>s. slot_key s \<noteq> None) xs)"

definition unique_keys :: "('s \<Rightarrow> 'k option) \<Rightarrow> 's list \<Rightarrow> bool" where
  "unique_keys slot_key xs \<longleftrightarrow>
     (\<forall>i j. i < length xs \<and> j < length xs \<and> slot_key (xs ! i) \<noteq> None \<and>
       slot_key (xs ! i) = slot_key (xs ! j) \<longrightarrow> i = j)"

text \<open>No gap: between a key's home slot and the slot it is in, every slot is occupied.\<close>

definition no_gaps :: "('s \<Rightarrow> 'k option) \<Rightarrow> ('k \<Rightarrow> nat \<Rightarrow> nat) \<Rightarrow> 's list \<Rightarrow> bool" where
  "no_gaps slot_key home xs \<longleftrightarrow>
     (\<forall>i k. i < length xs \<and> slot_key (xs ! i) = Some k \<longrightarrow>
       (\<exists>d<length xs. i = (home k (length xs) + d) mod length xs \<and>
         (\<forall>e<d. slot_key (xs ! ((home k (length xs) + e) mod length xs)) \<noteq> None)))"

definition table_ok :: "('s \<Rightarrow> 'k option) \<Rightarrow> ('k \<Rightarrow> nat \<Rightarrow> nat) \<Rightarrow> 's list \<Rightarrow> bool" where
  "table_ok slot_key home xs \<longleftrightarrow> xs \<noteq> [] \<and> unique_keys slot_key xs \<and> no_gaps slot_key home xs"

text \<open>Where the search for a key stops: at the slot that holds it, or at a free one.\<close>

abbreviation stops_at :: "('s \<Rightarrow> 'k option) \<Rightarrow> 's list \<Rightarrow> 'k \<Rightarrow> nat \<Rightarrow> bool" where
  "stops_at slot_key xs k \<equiv> (\<lambda>i. slot_key (xs ! i) = None \<or> slot_key (xs ! i) = Some k)"

text \<open>The loop of a resize: put the occupied slots of the old table into the new one.\<close>

fun reinsert :: "('s \<Rightarrow> 'k option) \<Rightarrow> ('k \<Rightarrow> nat \<Rightarrow> nat) \<Rightarrow> 's list \<Rightarrow> 's list \<Rightarrow> 's list" where
  "reinsert slot_key home [] xs = xs"
| "reinsert slot_key home (s # old) xs =
     (case slot_key s of
        None \<Rightarrow> reinsert slot_key home old xs
      | Some k \<Rightarrow>
          (let start = home k (length xs);
               idx = (case probe (\<lambda>i. slot_key (xs ! i) = None) (length xs) start of
                        None \<Rightarrow> start | Some i \<Rightarrow> i)
           in reinsert slot_key home old (xs[idx := s])))"

lemma length_reinsert [simp]: "length (reinsert slot_key home old xs) = length xs"
  by (induction slot_key home old xs rule: reinsert.induct) (auto split: option.splits simp: Let_def)

lemma key_slot_Some:
  assumes "unique_keys slot_key xs"
  shows "key_slot slot_key xs k = Some s \<longleftrightarrow> (\<exists>i<length xs. xs ! i = s \<and> slot_key s = Some k)"
proof
  assume "key_slot slot_key xs k = Some s"
  then show "\<exists>i<length xs. xs ! i = s \<and> slot_key s = Some k"
    by (auto simp: key_slot_def find_Some_iff)
next
  assume "\<exists>i<length xs. xs ! i = s \<and> slot_key s = Some k"
  then obtain i where i: "i < length xs" "xs ! i = s" "slot_key s = Some k" by blast
  have "slot_key (xs ! j) \<noteq> Some k" if "j < i" for j
    using assms i that unfolding unique_keys_def
    by (metis less_trans nat_neq_iff option.distinct(1))
  then show "key_slot slot_key xs k = Some s" using i by (auto simp: key_slot_def find_Some_iff)
qed

lemma key_slot_set:
  "unique_keys slot_key xs \<Longrightarrow> key_slot slot_key xs k = Some s \<longleftrightarrow> s \<in> set xs \<and> slot_key s = Some k"
  unfolding key_slot_Some by (auto simp: in_set_conv_nth)

lemma key_slot_None:
  "key_slot slot_key xs k = None \<longleftrightarrow> (\<forall>i<length xs. slot_key (xs ! i) \<noteq> Some k)"
  by (auto simp: key_slot_def find_None_iff in_set_conv_nth)

lemma used_update_free:
  "i < length xs \<Longrightarrow> slot_key (xs ! i) = None \<Longrightarrow> slot_key s \<noteq> None \<Longrightarrow>
    used slot_key (xs[i := s]) = Suc (used slot_key xs)"
proof (induction xs arbitrary: i)
  case (Cons x xs)
  then show ?case by (cases i) (auto simp: used_def)
qed simp

lemma used_update_same:
  "i < length xs \<Longrightarrow> slot_key (xs ! i) \<noteq> None \<Longrightarrow> slot_key s \<noteq> None \<Longrightarrow>
    used slot_key (xs[i := s]) = used slot_key xs"
proof (induction xs arbitrary: i)
  case (Cons x xs)
  then show ?case by (cases i) (auto simp: used_def)
qed simp

lemma used_le: "used slot_key xs \<le> length xs"
  by (simp add: used_def)

lemma used_full: "(\<forall>i<length xs. slot_key (xs ! i) \<noteq> None) \<longleftrightarrow> used slot_key xs = length xs"
proof
  assume "\<forall>i<length xs. slot_key (xs ! i) \<noteq> None"
  then have "filter (\<lambda>s. slot_key s \<noteq> None) xs = xs" by (auto simp: filter_id_conv in_set_conv_nth)
  then show "used slot_key xs = length xs" by (simp add: used_def)
next
  assume u: "used slot_key xs = length xs"
  show "\<forall>i<length xs. slot_key (xs ! i) \<noteq> None"
  proof (intro allI impI notI)
    fix i assume "i < length xs" "slot_key (xs ! i) = None"
    then have "length (filter (\<lambda>s. slot_key s \<noteq> None) xs) < length xs"
      by (intro length_filter_less [of "xs ! i"]) auto
    then show False using u by (simp add: used_def)
  qed
qed

lemma used_card:
  assumes "unique_keys slot_key xs"
  shows "used slot_key xs = card {k. key_slot slot_key xs k \<noteq> None}"
    and "finite {k. key_slot slot_key xs k \<noteq> None}"
    and "distinct (map slot_key (filter (\<lambda>s. slot_key s \<noteq> None) xs))"
proof -
  let ?live = "filter (\<lambda>s. slot_key s \<noteq> None) xs"
  show d: "distinct (map slot_key ?live)"
    using assms
  proof (induction xs)
    case (Cons x xs)
    have "i = j" if "i < length xs" "j < length xs" "slot_key (xs ! i) \<noteq> None"
        "slot_key (xs ! i) = slot_key (xs ! j)" for i j
      using Cons.prems that unfolding unique_keys_def
      by (metis Suc_inject Suc_less_eq length_Cons nth_Cons_Suc)
    then have "unique_keys slot_key xs" unfolding unique_keys_def by blast
    then have ih: "distinct (map slot_key (filter (\<lambda>s. slot_key s \<noteq> None) xs))" by (rule Cons.IH)
    have "slot_key x \<noteq> slot_key y" if y: "y \<in> set xs" "slot_key x \<noteq> None" for y
    proof
      assume e: "slot_key x = slot_key y"
      obtain j where "j < length xs" "xs ! j = y" using y(1) by (auto simp: in_set_conv_nth)
      then have "(0::nat) = Suc j" using Cons.prems e y(2) unfolding unique_keys_def
        by (metis length_Cons nth_Cons_0 nth_Cons_Suc Suc_less_eq zero_less_Suc)
      then show False by simp
    qed
    then show ?case using ih by auto
  qed simp
  have s: "Some ` {k. key_slot slot_key xs k \<noteq> None} = set (map slot_key ?live)"
    by (auto simp: key_slot_None in_set_conv_nth image_iff) (metis nth_mem)+
  have "card (Some ` {k. key_slot slot_key xs k \<noteq> None}) = length ?live"
    unfolding s using distinct_card [OF d] by simp
  then show "used slot_key xs = card {k. key_slot slot_key xs k \<noteq> None}"
    by (simp add: used_def card_image)
  have "finite (Some ` {k. key_slot slot_key xs k \<noteq> None})" unfolding s by (rule finite_set)
  then show "finite {k. key_slot slot_key xs k \<noteq> None}" by (rule finite_imageD) (simp add: inj_on_def)
qed

text \<open>A table in which every key is in its home slot is in order.\<close>

lemma table_ok_home:
  assumes "xs \<noteq> []" and "\<And>i k. i < length xs \<Longrightarrow> slot_key (xs ! i) = Some k \<Longrightarrow> home k (length xs) = i"
  shows "table_ok slot_key home xs"
proof -
  have "unique_keys slot_key xs"
    unfolding unique_keys_def using assms(2) by (metis option.exhaust)
  moreover have "no_gaps slot_key home xs"
    unfolding no_gaps_def
  proof (intro allI impI)
    fix i k assume "i < length xs \<and> slot_key (xs ! i) = Some k"
    then show "\<exists>d<length xs. i = (home k (length xs) + d) mod length xs \<and>
        (\<forall>e<d. slot_key (xs ! ((home k (length xs) + e) mod length xs)) \<noteq> None)"
      using assms by (intro exI [of _ 0]) auto
  qed
  ultimately show ?thesis using assms(1) by (simp add: table_ok_def)
qed

locale probe_table =
  fixes slot_key :: "'s \<Rightarrow> 'k option" and home :: "'k \<Rightarrow> nat \<Rightarrow> nat"
  assumes home_less: "0 < cap \<Longrightarrow> home k cap < cap"
begin

lemma probe_finds:
  assumes ok: "table_ok slot_key home xs" and i: "i < length xs" "slot_key (xs ! i) = Some k"
  shows "probe (stops_at slot_key xs k) (length xs) (home k (length xs)) = Some i"
proof -
  have h: "home k (length xs) < length xs" using home_less i(1) by (cases xs) auto
  obtain d where d: "d < length xs" "i = (home k (length xs) + d) mod length xs"
    "\<forall>e<d. slot_key (xs ! ((home k (length xs) + e) mod length xs)) \<noteq> None"
    using ok i unfolding table_ok_def no_gaps_def by metis
  have "slot_key (xs ! ((home k (length xs) + e) mod length xs)) \<noteq> Some k" if e: "e < d" for e
  proof
    let ?j = "(home k (length xs) + e) mod length xs"
    assume "slot_key (xs ! ?j) = Some k"
    moreover have "?j < length xs" using h by (intro mod_less_divisor) auto
    ultimately have "?j = i" using ok i unfolding table_ok_def unique_keys_def by (metis option.discI)
    then have "(home k (length xs) + e) mod length xs = (home k (length xs) + d) mod length xs"
      using d(2) by simp
    then have "length xs dvd d - e" using e
      by (metis add_diff_cancel_left le_add_diff_inverse less_imp_le mod_eq_dvd_iff_nat nat_add_left_cancel_le)
    then show False using e d(1) by (simp add: nat_dvd_not_less)
  qed
  then show ?thesis using d i h by (auto simp: probe_Some)
qed

lemma probe_search:
  assumes ok: "table_ok slot_key home xs"
  shows "case probe (stops_at slot_key xs k) (length xs) (home k (length xs)) of
      None \<Rightarrow> key_slot slot_key xs k = None \<and> used slot_key xs = length xs
    | Some i \<Rightarrow> i < length xs \<and>
        (slot_key (xs ! i) = Some k \<and> key_slot slot_key xs k = Some (xs ! i) \<or>
         slot_key (xs ! i) = None \<and> key_slot slot_key xs k = None)"
proof -
  have h: "home k (length xs) < length xs" using home_less ok by (simp add: table_ok_def)
  have u: "unique_keys slot_key xs" using ok by (simp add: table_ok_def)
  show ?thesis
  proof (cases "probe (stops_at slot_key xs k) (length xs) (home k (length xs))")
    case None
    then have "\<forall>i<length xs. slot_key (xs ! i) \<noteq> None \<and> slot_key (xs ! i) \<noteq> Some k"
      using h by (auto simp: probe_None)
    then show ?thesis using None used_full [of xs slot_key] by (simp add: key_slot_None)
  next
    case (Some i)
    then have i: "i < length xs" "slot_key (xs ! i) = None \<or> slot_key (xs ! i) = Some k"
      using probe_Some_stop [OF h] by blast+
    show ?thesis
    proof (cases "slot_key (xs ! i) = None")
      case True
      have "slot_key (xs ! j) \<noteq> Some k" if "j < length xs" for j
        using probe_finds [OF ok that, of k] Some True by auto
      then show ?thesis using Some i True by (simp add: key_slot_None)
    next
      case False
      then show ?thesis using Some i u by (auto simp: key_slot_Some)
    qed
  qed
qed

lemma probe_absent:
  assumes "key_slot slot_key xs k = None" and "xs \<noteq> []"
  shows "probe (\<lambda>i. slot_key (xs ! i) = None) (length xs) (home k (length xs)) =
    probe (stops_at slot_key xs k) (length xs) (home k (length xs))"
  using assms home_less by (intro probe_cong) (auto simp: key_slot_None)

lemma probe_store:
  assumes ok: "table_ok slot_key home xs"
    and p: "probe (stops_at slot_key xs k) (length xs) (home k (length xs)) = Some i"
    and s: "slot_key s = Some k"
  shows "table_ok slot_key home (xs[i := s])"
    and "key_slot slot_key (xs[i := s]) k' = (if k' = k then Some s else key_slot slot_key xs k')"
    and "used slot_key (xs[i := s]) =
      (if slot_key (xs ! i) = None then Suc (used slot_key xs) else used slot_key xs)"
proof -
  let ?n = "length xs" and ?ys = "xs[i := s]"
  have h: "home k ?n < ?n" using home_less ok by (simp add: table_ok_def)
  have i: "i < ?n" and io: "slot_key (xs ! i) = None \<or> slot_key (xs ! i) = Some k"
    using probe_Some_stop [OF h p] by blast+
  obtain d where d: "d < ?n" "i = (home k ?n + d) mod ?n"
    "\<forall>e<d. \<not> stops_at slot_key xs k ((home k ?n + e) mod ?n)"
    using p h by (auto simp: probe_Some)
  have other: "slot_key (xs ! j) \<noteq> Some k" if "j < ?n" "j \<noteq> i" for j
    using probe_finds [OF ok that(1)] p that(2) by fastforce
  have u: "unique_keys slot_key ?ys"
  proof -
    have "a = b" if ab: "a < ?n" "b < ?n" "slot_key (?ys ! a) \<noteq> None" "slot_key (?ys ! a) = slot_key (?ys ! b)"
      for a b
    proof (cases "a = i \<or> b = i")
      case True
      then show ?thesis using ab s other i by (metis nth_list_update_eq nth_list_update_neq)
    next
      case False
      then show ?thesis using ab ok by (simp add: table_ok_def unique_keys_def)
    qed
    then show ?thesis unfolding unique_keys_def length_list_update by blast
  qed
  have occ: "slot_key (?ys ! j) \<noteq> None" if "slot_key (xs ! j) \<noteq> None" for j
    using that s i by (cases "j = i") auto
  have g: "no_gaps slot_key home ?ys"
    unfolding no_gaps_def length_list_update
  proof (intro allI impI)
    fix j k1
    assume j: "j < ?n \<and> slot_key (?ys ! j) = Some k1"
    show "\<exists>d<?n. j = (home k1 ?n + d) mod ?n \<and> (\<forall>e<d. slot_key (?ys ! ((home k1 ?n + e) mod ?n)) \<noteq> None)"
    proof (cases "j = i")
      case True
      then have "k1 = k" using j s i by simp
      moreover have "\<forall>e<d. slot_key (?ys ! ((home k ?n + e) mod ?n)) \<noteq> None" using d(3) occ by blast
      ultimately show ?thesis using d True by blast
    next
      case False
      then have "slot_key (xs ! j) = Some k1" using j by simp
      then obtain d1 where d1: "d1 < ?n" "j = (home k1 ?n + d1) mod ?n"
        "\<forall>e<d1. slot_key (xs ! ((home k1 ?n + e) mod ?n)) \<noteq> None"
        using ok j unfolding table_ok_def no_gaps_def by metis
      then have "\<forall>e<d1. slot_key (?ys ! ((home k1 ?n + e) mod ?n)) \<noteq> None" using occ by blast
      then show ?thesis using d1(1,2) by blast
    qed
  qed
  show ok': "table_ok slot_key home ?ys" using u g ok by (simp add: table_ok_def)
  show "key_slot slot_key ?ys k' = (if k' = k then Some s else key_slot slot_key xs k')"
  proof (cases "k' = k")
    case True
    then show ?thesis using u i s by (auto simp: key_slot_Some intro!: exI [of _ i])
  next
    case False
    have "key_slot slot_key ?ys k' = Some t \<longleftrightarrow> key_slot slot_key xs k' = Some t" for t
    proof -
      have "(\<exists>j<?n. ?ys ! j = t \<and> slot_key t = Some k') = (\<exists>j<?n. xs ! j = t \<and> slot_key t = Some k')"
        using False s io i by (metis nth_list_update_eq nth_list_update_neq option.distinct(1) option.inject)
      then show ?thesis using u ok by (simp add: key_slot_Some table_ok_def)
    qed
    then show ?thesis using False by (metis not_None_eq)
  qed
  show "used slot_key ?ys = (if slot_key (xs ! i) = None then Suc (used slot_key xs) else used slot_key xs)"
    using used_update_free [of i xs slot_key s] used_update_same [of i xs slot_key s] i s io by auto
qed

text \<open>Re-insertion into a table with room keeps what both tables say.\<close>

lemma reinsert_ok:
  assumes "table_ok slot_key home xs" and "unique_keys slot_key old"
    and "\<forall>k. key_slot slot_key old k \<noteq> None \<longrightarrow> key_slot slot_key xs k = None"
    and "used slot_key xs + used slot_key old \<le> length xs"
  shows "table_ok slot_key home (reinsert slot_key home old xs) \<and>
    used slot_key (reinsert slot_key home old xs) = used slot_key xs + used slot_key old \<and>
    (\<forall>k. key_slot slot_key (reinsert slot_key home old xs) k =
      (case key_slot slot_key old k of None \<Rightarrow> key_slot slot_key xs k | Some s \<Rightarrow> Some s))"
  using assms
proof (induction old arbitrary: xs)
  case Nil
  then show ?case by (simp add: used_def key_slot_def)
next
  case (Cons s old)
  have uo: "unique_keys slot_key old"
  proof -
    have "i = j" if "i < length old" "j < length old" "slot_key (old ! i) \<noteq> None"
        "slot_key (old ! i) = slot_key (old ! j)" for i j
      using Cons.prems(2) that unfolding unique_keys_def
      by (metis Suc_inject Suc_less_eq length_Cons nth_Cons_Suc)
    then show ?thesis unfolding unique_keys_def by blast
  qed
  show ?case
  proof (cases "slot_key s")
    case None
    then have "key_slot slot_key (s # old) k = key_slot slot_key old k"
      "used slot_key (s # old) = used slot_key old" for k
      by (simp_all add: key_slot_def used_def)
    then show ?thesis using Cons.IH [OF Cons.prems(1) uo] Cons.prems(3,4) None by simp
  next
    case (Some k)
    have ks: "key_slot slot_key (s # old) k' = (if k' = k then Some s else key_slot slot_key old k')" for k'
      using Some by (simp add: key_slot_def)
    have us: "used slot_key (s # old) = Suc (used slot_key old)" using Some by (simp add: used_def)
    have absent: "key_slot slot_key xs k = None" using Cons.prems(3) ks by simp
    have ne: "xs \<noteq> []" using Cons.prems(1) by (simp add: table_ok_def)
    note srch = probe_search [OF Cons.prems(1), of k]
    have "used slot_key xs < length xs" using Cons.prems(4) us by simp
    then obtain i where p: "probe (stops_at slot_key xs k) (length xs) (home k (length xs)) = Some i"
      "slot_key (xs ! i) = None"
      using srch absent by (auto split: option.splits)
    note st = probe_store [OF Cons.prems(1) p(1) Some]
    have old_k: "key_slot slot_key old k = None"
      unfolding key_slot_None
    proof (intro allI impI notI)
      fix j assume "j < length old" "slot_key (old ! j) = Some k"
      then have "(0::nat) = Suc j" using Cons.prems(2) Some unfolding unique_keys_def
        by (metis length_Cons nth_Cons_0 nth_Cons_Suc option.distinct(1) Suc_less_eq zero_less_Suc)
      then show False by simp
    qed
    have "reinsert slot_key home (s # old) xs = reinsert slot_key home old (xs[i := s])"
      using Some p(1) probe_absent [OF absent ne] by (simp add: Let_def)
    moreover have "\<forall>k'. key_slot slot_key old k' \<noteq> None \<longrightarrow> key_slot slot_key (xs[i := s]) k' = None"
      using Cons.prems(3) st(2) ks old_k by (metis)
    moreover have "used slot_key (xs[i := s]) + used slot_key old \<le> length (xs[i := s])"
      using st(3) p(2) Cons.prems(4) us by simp
    ultimately show ?thesis
      using Cons.IH [OF st(1) uo] st(2,3) p(2) ks us old_k by (auto split: option.splits)
  qed
qed

lemma free_table_ok:
  assumes "slot_key z = None" and "0 < n"
  shows "table_ok slot_key home (replicate n z)" and "used slot_key (replicate n z) = 0"
    and "key_slot slot_key (replicate n z) k = None"
  using assms by (auto simp: table_ok_def unique_keys_def no_gaps_def used_def key_slot_None filter_empty_conv)

end

end
