(* ===== verification/EventPairSet.thy ===== *)
theory EventPairSet imports LinearProbe begin

text \<open>
  \<^verbatim>\<open>main/src/event_pair_set.c\<close>: the two-level hash map from edges between events to their
  frequencies. A table of sources points to one table of destinations per source; both probe
  linearly and double at a load of 75 per cent. Capacities and sizes are numbers below
  \<open>2 ^ 32\<close> with the wrap-around of the C expressions written out; \<open>alloc n\<close> says
  whether a table of \<open>n\<close> slots can be allocated.
\<close>

section \<open>Events and their hash\<close>

record event_triple =
  thread_id :: s32
  instruction_id :: s64
  visit_id :: s32

definition hash_step :: "u32 \<Rightarrow> u32 \<Rightarrow> u32" where
  "hash_step h x = (push_bit 5 h + h) XOR x"

definition hash_event_triple :: "event_triple \<Rightarrow> nat \<Rightarrow> nat" where
  "hash_event_triple t cap =
     (let iid = instruction_id t;
          h1 = hash_step 5381 (thread_id t);
          h2 = hash_step h1 (ucast (iid AND 0xffffffff));
          h3 = hash_step h2 (ucast (drop_bit 32 iid));
          h4 = hash_step h3 (visit_id t)
      in unat h4 mod cap)"

definition event_triple_equal :: "event_triple \<Rightarrow> event_triple \<Rightarrow> bool" where
  "event_triple_equal a b \<longleftrightarrow>
     thread_id a = thread_id b \<and> instruction_id a = instruction_id b \<and> visit_id a = visit_id b"

lemma event_triple_equal_iff [simp]: "event_triple_equal a b \<longleftrightarrow> a = b"
  by (auto simp: event_triple_equal_def)

lemma hash_event_triple_less: "0 < cap \<Longrightarrow> hash_event_triple t cap < cap"
  by (simp add: hash_event_triple_def Let_def)

definition zero_triple :: event_triple where
  "zero_triple = \<lparr>thread_id = 0, instruction_id = 0, visit_id = 0\<rparr>"

text \<open>The load test both tables make: the products are 32-bit.\<close>

definition needs_resize :: "nat \<Rightarrow> nat \<Rightarrow> nat \<Rightarrow> bool" where
  "needs_resize sz cap lft \<longleftrightarrow> (cap * lft) mod 2 ^ 32 \<le> (sz * 100) mod 2 ^ 32"

section \<open>Destination maps\<close>

record dest_entry =
  destination :: event_triple
  frequency :: u32
  de_occupied :: bool
  de_deleted :: bool

record dest_map =
  dm_entries :: "dest_entry list"
  dm_capacity :: nat
  dm_size :: nat
  dm_load :: nat

definition zero_dest :: dest_entry where
  "zero_dest = \<lparr>destination = zero_triple, frequency = 0, de_occupied = False, de_deleted = False\<rparr>"

definition dest_key :: "dest_entry \<Rightarrow> event_triple option" where
  "dest_key e = (if de_occupied e \<and> \<not> de_deleted e then Some (destination e) else None)"

definition destination_map_create :: "(nat \<Rightarrow> bool) \<Rightarrow> nat \<Rightarrow> dest_map option" where
  "destination_map_create alloc initial =
     (let cap = (if initial < 16 then 16 else initial)
      in if alloc cap
         then Some \<lparr>dm_entries = replicate cap zero_dest, dm_capacity = cap, dm_size = 0, dm_load = 75\<rparr>
         else None)"

definition destination_map_resize :: "(nat \<Rightarrow> bool) \<Rightarrow> dest_map \<Rightarrow> nat \<Rightarrow> bool \<times> dest_map" where
  "destination_map_resize alloc dm new_cap =
     (if alloc new_cap
      then (True, dm\<lparr>dm_entries := reinsert dest_key hash_event_triple (dm_entries dm) (replicate new_cap zero_dest),
                     dm_capacity := new_cap, dm_size := used dest_key (dm_entries dm)\<rparr>)
      else (False, dm))"

definition destination_map_increment ::
    "(nat \<Rightarrow> bool) \<Rightarrow> dest_map option \<Rightarrow> event_triple \<Rightarrow> u32 \<times> dest_map option" where
  "destination_map_increment alloc dmap k =
     (case dmap of None \<Rightarrow> (0, None)
      | Some dm0 \<Rightarrow>
          (let dm = (if needs_resize (dm_size dm0) (dm_capacity dm0) (dm_load dm0)
                     then snd (destination_map_resize alloc dm0 ((dm_capacity dm0 * 2) mod 2 ^ 32))
                     else dm0);
               es = dm_entries dm;
               start = hash_event_triple k (dm_capacity dm)
           in case probe (\<lambda>i. \<not> de_occupied (es ! i) \<or> de_deleted (es ! i) \<or>
                              event_triple_equal (destination (es ! i)) k) (dm_capacity dm) start of
                None \<Rightarrow> (0, Some dm)
              | Some i \<Rightarrow>
                  (if \<not> de_occupied (es ! i) \<or> de_deleted (es ! i)
                   then (1, Some (dm\<lparr>dm_entries := es[i := \<lparr>destination = k, frequency = 1,
                                                       de_occupied = True, de_deleted = False\<rparr>],
                                     dm_size := dm_size dm + 1\<rparr>))
                   else (frequency (es ! i) + 1,
                         Some (dm\<lparr>dm_entries := es[i := (es ! i)\<lparr>frequency := frequency (es ! i) + 1\<rparr>]\<rparr>)))))"

definition destination_map_get_frequency :: "dest_map option \<Rightarrow> event_triple \<Rightarrow> u32" where
  "destination_map_get_frequency dmap k =
     (case dmap of None \<Rightarrow> 0
      | Some dm \<Rightarrow>
          (if dm_size dm = 0 then 0
           else let es = dm_entries dm; start = hash_event_triple k (dm_capacity dm)
                in case probe (\<lambda>i. \<not> de_occupied (es ! i) \<or>
                                 (\<not> de_deleted (es ! i) \<and> event_triple_equal (destination (es ! i)) k))
                          (dm_capacity dm) start of
                     None \<Rightarrow> 0
                   | Some i \<Rightarrow> if de_occupied (es ! i) then frequency (es ! i) else 0))"

definition destination_map_clear :: "dest_map \<Rightarrow> dest_map" where
  "destination_map_clear dm = dm\<lparr>dm_entries := replicate (dm_capacity dm) zero_dest, dm_size := 0\<rparr>"

section \<open>Correctness of the destination maps\<close>

interpretation dtab: probe_table dest_key hash_event_triple
  by unfold_locales (rule hash_event_triple_less)

definition dest_inv :: "dest_map \<Rightarrow> bool" where
  "dest_inv dm \<longleftrightarrow>
     length (dm_entries dm) = dm_capacity dm \<and> dm_load dm = 75 \<and> 16 \<le> dm_capacity dm \<and>
     table_ok dest_key hash_event_triple (dm_entries dm) \<and>
     dm_size dm = used dest_key (dm_entries dm) \<and> (\<forall>e\<in>set (dm_entries dm). \<not> de_deleted e)"

text \<open>What a destination map means: the frequency of a destination, 0 when it has none.\<close>

definition dest_freq :: "dest_map \<Rightarrow> event_triple \<Rightarrow> u32 option" where
  "dest_freq dm k = map_option frequency (key_slot dest_key (dm_entries dm) k)"

lemma dest_key_zero [simp]: "dest_key zero_dest = None" "\<not> de_deleted zero_dest"
  by (simp_all add: dest_key_def zero_dest_def)

lemma destination_map_create_ok:
  assumes "destination_map_create alloc n = Some dm"
  shows "dest_inv dm" and "dm_size dm = 0" and "dest_freq dm k = None"
    and "dm_capacity dm = max 16 n"
proof -
  have c: "(if n < 16 then 16 else n) = max 16 n" by simp
  have dm: "dm = \<lparr>dm_entries = replicate (max 16 n) zero_dest, dm_capacity = max 16 n, dm_size = 0, dm_load = 75\<rparr>"
    using assms unfolding destination_map_create_def Let_def c by (cases "alloc (max 16 n)") auto
  have "0 < max 16 n" by simp
  note f = dtab.free_table_ok [OF dest_key_zero(1) this]
  show "dest_inv dm" "dm_size dm = 0" "dest_freq dm k = None" "dm_capacity dm = max 16 n"
    using f by (simp_all add: dm dest_inv_def dest_freq_def)
qed

lemma reinsert_all:
  "(\<forall>e\<in>set old. P e) \<Longrightarrow> (\<forall>e\<in>set xs. P e) \<Longrightarrow> \<forall>e\<in>set (reinsert sk h old xs). P e"
proof (induction old arbitrary: xs)
  case (Cons s old)
  show ?case
  proof (cases "sk s")
    case None
    then show ?thesis using Cons by simp
  next
    case (Some k)
    have o: "\<forall>e\<in>set old. P e" using Cons.prems(1) by simp
    have "\<forall>e\<in>set (xs[j := s]). P e" for j using Cons.prems by (intro set_update_ok) auto
    then have "\<forall>e\<in>set (reinsert sk h old (xs[j := s])). P e" for j
      by (rule Cons.IH [OF o])
    then show ?thesis using Some by (simp add: Let_def)
  qed
qed simp

lemma destination_map_resize_ok:
  fixes alloc :: "nat \<Rightarrow> bool"
  assumes inv: "dest_inv dm" and n: "dm_capacity dm \<le> n"
  defines "dm' \<equiv> snd (destination_map_resize alloc dm n)"
  shows "dest_inv dm' \<and> dm_size dm' = dm_size dm \<and> dest_freq dm' = dest_freq dm \<and>
    dm_capacity dm' = (if alloc n then n else dm_capacity dm)"
proof (cases "alloc n")
  case True
  let ?new = "replicate n zero_dest"
  have n0: "0 < n" using inv n by (simp add: dest_inv_def)
  note f = dtab.free_table_ok [OF dest_key_zero(1) n0]
  have "used dest_key (dm_entries dm) \<le> n"
    using used_le [of dest_key "dm_entries dm"] inv n by (simp add: dest_inv_def)
  then have r: "table_ok dest_key hash_event_triple (reinsert dest_key hash_event_triple (dm_entries dm) ?new)"
    "used dest_key (reinsert dest_key hash_event_triple (dm_entries dm) ?new) = used dest_key (dm_entries dm)"
    "\<And>k. key_slot dest_key (reinsert dest_key hash_event_triple (dm_entries dm) ?new) k =
      key_slot dest_key (dm_entries dm) k"
    using dtab.reinsert_ok [OF f(1), of "dm_entries dm"] inv f(2,3)
    by (auto simp: dest_inv_def table_ok_def split: option.splits)
  have "\<forall>e\<in>set (reinsert dest_key hash_event_triple (dm_entries dm) ?new). \<not> de_deleted e"
    using inv by (intro reinsert_all) (auto simp: dest_inv_def)
  then show ?thesis using True inv r n
    by (auto simp: dm'_def destination_map_resize_def dest_inv_def dest_freq_def fun_eq_iff)
next
  case False
  then show ?thesis using inv by (simp add: dm'_def destination_map_resize_def)
qed

lemma dest_stops:
  assumes "dest_inv dm"
  shows "probe (\<lambda>i. \<not> de_occupied (dm_entries dm ! i) \<or> de_deleted (dm_entries dm ! i) \<or>
        event_triple_equal (destination (dm_entries dm ! i)) k) (dm_capacity dm) (hash_event_triple k (dm_capacity dm)) =
      probe (stops_at dest_key (dm_entries dm) k) (length (dm_entries dm)) (hash_event_triple k (length (dm_entries dm)))"
    and "probe (\<lambda>i. \<not> de_occupied (dm_entries dm ! i) \<or>
        (\<not> de_deleted (dm_entries dm ! i) \<and> event_triple_equal (destination (dm_entries dm ! i)) k))
        (dm_capacity dm) (hash_event_triple k (dm_capacity dm)) =
      probe (stops_at dest_key (dm_entries dm) k) (length (dm_entries dm)) (hash_event_triple k (length (dm_entries dm)))"
proof -
  have l: "dm_capacity dm = length (dm_entries dm)" "hash_event_triple k (length (dm_entries dm)) < length (dm_entries dm)"
    and nd: "\<forall>e\<in>set (dm_entries dm). \<not> de_deleted e"
    using assms hash_event_triple_less [of "length (dm_entries dm)"] by (simp_all add: dest_inv_def)
  show "probe (\<lambda>i. \<not> de_occupied (dm_entries dm ! i) \<or> de_deleted (dm_entries dm ! i) \<or>
        event_triple_equal (destination (dm_entries dm ! i)) k) (dm_capacity dm) (hash_event_triple k (dm_capacity dm)) =
      probe (stops_at dest_key (dm_entries dm) k) (length (dm_entries dm)) (hash_event_triple k (length (dm_entries dm)))"
    unfolding l(1) by (rule probe_cong [OF l(2)]) (use nd in \<open>auto simp: dest_key_def\<close>)
  show "probe (\<lambda>i. \<not> de_occupied (dm_entries dm ! i) \<or>
        (\<not> de_deleted (dm_entries dm ! i) \<and> event_triple_equal (destination (dm_entries dm ! i)) k))
        (dm_capacity dm) (hash_event_triple k (dm_capacity dm)) =
      probe (stops_at dest_key (dm_entries dm) k) (length (dm_entries dm)) (hash_event_triple k (length (dm_entries dm)))"
    unfolding l(1) by (rule probe_cong [OF l(2)]) (use nd in \<open>auto simp: dest_key_def\<close>)
qed

lemma dest_get_freq:
  assumes "dest_inv dm"
  shows "destination_map_get_frequency (Some dm) k = (case dest_freq dm k of None \<Rightarrow> 0 | Some c \<Rightarrow> c)"
proof (cases "dm_size dm = 0")
  case True
  then have "used dest_key (dm_entries dm) = 0" using assms by (simp add: dest_inv_def)
  then have "key_slot dest_key (dm_entries dm) k = None"
    by (auto simp: used_def key_slot_None filter_empty_conv)
  then show ?thesis using True by (simp add: destination_map_get_frequency_def dest_freq_def)
next
  case False
  have ok: "table_ok dest_key hash_event_triple (dm_entries dm)"
    and nd: "\<forall>e\<in>set (dm_entries dm). \<not> de_deleted e" using assms by (simp_all add: dest_inv_def)
  note s = dtab.probe_search [OF ok, of k] and st = dest_stops(2) [OF assms, of k]
  show ?thesis
  proof (cases "probe (stops_at dest_key (dm_entries dm) k) (length (dm_entries dm))
      (hash_event_triple k (length (dm_entries dm)))")
    case None
    then show ?thesis using s st False
      by (simp add: destination_map_get_frequency_def dest_freq_def Let_def)
  next
    case (Some i)
    have "destination_map_get_frequency (Some dm) k =
        (if de_occupied (dm_entries dm ! i) then frequency (dm_entries dm ! i) else 0)"
      unfolding destination_map_get_frequency_def using False st Some by (simp add: Let_def)
    moreover have "i < length (dm_entries dm)" using s Some by simp
    ultimately show ?thesis using s Some nd
      by (auto simp: dest_freq_def dest_key_def split: if_splits)
  qed
qed

lemma needs_resize_exact:
  "cap < 2 ^ 25 \<Longrightarrow> sz \<le> cap \<Longrightarrow> needs_resize sz cap 75 \<longleftrightarrow> cap * 75 \<le> sz * 100"
  by (simp add: needs_resize_def)

text \<open>
  The capacity follows the size: it is the initial one or at most four times the number of
  entries.
\<close>

definition roomy :: "nat \<Rightarrow> nat \<Rightarrow> nat \<Rightarrow> bool" where
  "roomy cap0 sz cap \<longleftrightarrow> cap \<le> max cap0 (4 * sz)"

lemma resize_roomy:
  "roomy cap0 sz cap \<Longrightarrow> cap * 75 \<le> sz * 100 \<Longrightarrow> roomy cap0 sz (2 * cap)"
  by (auto simp: roomy_def)

text \<open>The table an increment works on, after its load test.\<close>

definition dest_grown :: "(nat \<Rightarrow> bool) \<Rightarrow> dest_map \<Rightarrow> dest_map" where
  "dest_grown alloc dm =
     (if needs_resize (dm_size dm) (dm_capacity dm) (dm_load dm)
      then snd (destination_map_resize alloc dm ((dm_capacity dm * 2) mod 2 ^ 32)) else dm)"

lemma dest_inv_size: "dest_inv dm \<Longrightarrow> dm_size dm \<le> dm_capacity dm"
  using used_le [of dest_key "dm_entries dm"] by (simp add: dest_inv_def)

lemma dest_grown_ok:
  fixes alloc :: "nat \<Rightarrow> bool"
  assumes inv: "dest_inv dm" and cap: "dm_capacity dm < 2 ^ 25" and r: "roomy cap0 (dm_size dm) (dm_capacity dm)"
  defines "dm' \<equiv> dest_grown alloc dm"
  shows "dest_inv dm' \<and> dm_size dm' = dm_size dm \<and> dest_freq dm' = dest_freq dm \<and>
    roomy cap0 (dm_size dm') (dm_capacity dm') \<and>
    (alloc (2 * dm_capacity dm) \<longrightarrow> dm_size dm' < dm_capacity dm')"
proof -
  have l: "dm_load dm = 75" "0 < dm_capacity dm" using inv by (simp_all add: dest_inv_def)
  have w: "(dm_capacity dm * 2) mod 2 ^ 32 = 2 * dm_capacity dm" using cap by simp
  note nr = needs_resize_exact [OF cap dest_inv_size [OF inv]]
  show ?thesis
  proof (cases "dm_capacity dm * 75 \<le> dm_size dm * 100")
    case True
    then have "dm' = snd (destination_map_resize alloc dm (2 * dm_capacity dm))"
      using nr l w by (simp add: dm'_def dest_grown_def)
    then show ?thesis
      using destination_map_resize_ok [OF inv, of "2 * dm_capacity dm" alloc] r resize_roomy [OF r True]
        dest_inv_size [OF inv] l by simp
  next
    case False
    then have "dm' = dm" using nr l by (simp add: dm'_def dest_grown_def)
    then show ?thesis using inv r False by simp
  qed
qed

text \<open>One more occurrence of a destination.\<close>

definition bump :: "('k \<Rightarrow> u32 option) \<Rightarrow> 'k \<Rightarrow> ('k \<Rightarrow> u32 option)" where
  "bump f k = f(k \<mapsto> (case f k of None \<Rightarrow> 1 | Some c \<Rightarrow> c + 1))"

lemma dest_increment_ok:
  assumes inv: "dest_inv dm" and cap: "dm_capacity dm < 2 ^ 25"
    and room: "roomy cap0 (dm_size dm) (dm_capacity dm)" and al: "alloc (2 * dm_capacity dm)"
  shows "\<exists>dm'. destination_map_increment alloc (Some dm) k = (the (bump (dest_freq dm) k k), Some dm') \<and>
    dest_inv dm' \<and> dest_freq dm' = bump (dest_freq dm) k \<and>
    dm_size dm' = (if dest_freq dm k = None then dm_size dm + 1 else dm_size dm) \<and>
    roomy cap0 (dm_size dm') (dm_capacity dm')"
proof -
  define g where "g = dest_grown alloc dm"
  have g: "dest_inv g" "dm_size g = dm_size dm" "dest_freq g = dest_freq dm"
    "roomy cap0 (dm_size g) (dm_capacity g)" "dm_size g < dm_capacity g"
    using dest_grown_ok [OF inv cap room, of alloc] al unfolding g_def by blast+
  let ?es = "dm_entries g"
  let ?p = "probe (stops_at dest_key ?es k) (length ?es) (hash_event_triple k (length ?es))"
  have ok: "table_ok dest_key hash_event_triple ?es" and nd: "\<forall>e\<in>set ?es. \<not> de_deleted e"
    and lf: "dm_load g = 75" "16 \<le> dm_capacity g" "length ?es = dm_capacity g" "dm_size g = used dest_key ?es"
    using g(1) by (simp_all add: dest_inv_def)
  note srch = dtab.probe_search [OF ok, of k]
  have inc: "destination_map_increment alloc (Some dm) k =
      (case ?p of None \<Rightarrow> (0, Some g)
       | Some i \<Rightarrow> (if \<not> de_occupied (?es ! i) \<or> de_deleted (?es ! i)
           then (1, Some (g\<lparr>dm_entries := ?es[i := \<lparr>destination = k, frequency = 1,
                      de_occupied = True, de_deleted = False\<rparr>], dm_size := dm_size g + 1\<rparr>))
           else (frequency (?es ! i) + 1,
                 Some (g\<lparr>dm_entries := ?es[i := (?es ! i)\<lparr>frequency := frequency (?es ! i) + 1\<rparr>]\<rparr>))))"
    unfolding destination_map_increment_def option.case Let_def dest_grown_def [symmetric]
      g_def [symmetric] dest_stops(1) [OF g(1)] ..
  obtain i where p: "?p = Some i" and i: "i < length ?es"
    using srch g(5) lf by (cases ?p) auto
  have ndi: "\<not> de_deleted (?es ! i)" using nd i by simp
  define s where "s = (if de_occupied (?es ! i) then (?es ! i)\<lparr>frequency := frequency (?es ! i) + 1\<rparr>
      else \<lparr>destination = k, frequency = 1, de_occupied = True, de_deleted = False\<rparr>)"
  define dm' where "dm' = g\<lparr>dm_entries := ?es[i := s],
      dm_size := (if de_occupied (?es ! i) then dm_size g else dm_size g + 1)\<rparr>"
  have known: "de_occupied (?es ! i) \<Longrightarrow> dest_key (?es ! i) = Some k \<and> key_slot dest_key ?es k = Some (?es ! i)"
    "\<not> de_occupied (?es ! i) \<Longrightarrow> dest_key (?es ! i) = None \<and> key_slot dest_key ?es k = None"
    using srch p ndi by (auto simp: dest_key_def)
  have sk: "dest_key s = Some k" using known ndi by (auto simp: s_def dest_key_def split: if_splits)
  note st = dtab.probe_store [OF ok p sk]
  have fr: "dest_freq dm k = (if de_occupied (?es ! i) then Some (frequency (?es ! i)) else None)"
    using known by (simp add: g(3) [symmetric] dest_freq_def)
  have eq: "destination_map_increment alloc (Some dm) k = (the (bump (dest_freq dm) k k), Some dm')"
    using fr ndi unfolding inc p by (simp add: dm'_def s_def bump_def)
  have sd: "\<not> de_deleted s" using ndi by (simp add: s_def)
  have "\<forall>e\<in>set (?es[i := s]). \<not> de_deleted e" by (rule set_update_ok [OF nd sd])
  then have i': "dest_inv dm'"
    using st(1,3) lf known by (auto simp: dm'_def dest_inv_def)
  have f': "dest_freq dm' = bump (dest_freq dm) k"
  proof
    fix k'
    have "dest_freq dm' k' = (if k' = k then Some (frequency s) else dest_freq g k')"
      using st(2) by (simp add: dm'_def dest_freq_def)
    then show "dest_freq dm' k' = bump (dest_freq dm) k k'"
      using fr g(3) by (simp add: bump_def s_def)
  qed
  have "roomy cap0 (dm_size dm') (dm_capacity dm')"
    using g(4) by (auto simp: dm'_def roomy_def)
  then show ?thesis using eq i' f' fr g(2) by (auto simp: dm'_def)
qed

text \<open>Without memory an increment may fail, but it then changes nothing a lookup can see.\<close>

lemma dest_increment_full:
  assumes inv: "dest_inv dm" and cap: "dm_capacity dm < 2 ^ 25"
    and full: "dm_size dm = dm_capacity dm" and al: "\<not> alloc (2 * dm_capacity dm)"
    and new: "dest_freq dm k = None"
  shows "destination_map_increment alloc (Some dm) k = (0, Some dm)"
proof -
  have w: "(dm_capacity dm * 2) mod 2 ^ 32 = 2 * dm_capacity dm" using cap by simp
  have g: "dest_grown alloc dm = dm"
    using al unfolding dest_grown_def w destination_map_resize_def by simp
  have ok: "table_ok dest_key hash_event_triple (dm_entries dm)" using inv by (simp add: dest_inv_def)
  have "dm_size dm = used dest_key (dm_entries dm)" "length (dm_entries dm) = dm_capacity dm"
    using inv unfolding dest_inv_def by blast+
  then have "used dest_key (dm_entries dm) = length (dm_entries dm)" using full by linarith
  then have "\<forall>i<length (dm_entries dm). dest_key (dm_entries dm ! i) \<noteq> None"
    unfolding used_full .
  then have "probe (stops_at dest_key (dm_entries dm) k) (length (dm_entries dm))
      (hash_event_triple k (length (dm_entries dm))) = None"
    using dtab.probe_search [OF ok, of k] new by (auto simp: dest_freq_def split: option.splits)
  then show ?thesis
    unfolding destination_map_increment_def option.case Let_def dest_grown_def [symmetric] g
      dest_stops(1) [OF inv] by simp
qed

section \<open>The map of sources\<close>

record source_entry =
  se_source :: event_triple
  se_dest :: "dest_map option"
  se_occupied :: bool
  se_deleted :: bool

record event_graph_map =
  gm_entries :: "source_entry list"
  gm_capacity :: nat
  gm_size :: nat
  gm_load :: nat

definition zero_source :: source_entry where
  "zero_source = \<lparr>se_source = zero_triple, se_dest = None, se_occupied = False, se_deleted = False\<rparr>"

definition source_key :: "source_entry \<Rightarrow> event_triple option" where
  "source_key e = (if se_occupied e \<and> \<not> se_deleted e then Some (se_source e) else None)"

definition event_graph_map_create :: "(nat \<Rightarrow> bool) \<Rightarrow> nat \<Rightarrow> event_graph_map option" where
  "event_graph_map_create alloc initial =
     (let cap = (if initial < 16 then 16 else initial)
      in if alloc cap
         then Some \<lparr>gm_entries = replicate cap zero_source, gm_capacity = cap, gm_size = 0, gm_load = 75\<rparr>
         else None)"

definition event_graph_map_resize ::
    "(nat \<Rightarrow> bool) \<Rightarrow> event_graph_map \<Rightarrow> nat \<Rightarrow> bool \<times> event_graph_map" where
  "event_graph_map_resize alloc m new_cap =
     (if alloc new_cap
      then (True, m\<lparr>gm_entries := reinsert source_key hash_event_triple (gm_entries m) (replicate new_cap zero_source),
                    gm_capacity := new_cap, gm_size := used source_key (gm_entries m)\<rparr>)
      else (False, m))"

text \<open>The index of a source's entry; \<open>None\<close> where the C function returns \<open>NULL\<close>.\<close>

definition event_graph_map_find_source :: "event_graph_map \<Rightarrow> event_triple \<Rightarrow> nat option" where
  "event_graph_map_find_source m k =
     (if gm_size m = 0 then None
      else let es = gm_entries m; start = hash_event_triple k (gm_capacity m)
           in case probe (\<lambda>i. \<not> se_occupied (es ! i) \<or>
                            (\<not> se_deleted (es ! i) \<and> event_triple_equal (se_source (es ! i)) k))
                     (gm_capacity m) start of
                None \<Rightarrow> None
              | Some i \<Rightarrow> if se_occupied (es ! i) then Some i else None)"

text \<open>The last step of an increment: count the destination in the map of the source at \<open>i\<close>.\<close>

definition increment_at ::
    "(nat \<Rightarrow> bool) \<Rightarrow> event_graph_map \<Rightarrow> nat \<Rightarrow> event_triple \<Rightarrow> u32 \<times> event_graph_map" where
  "increment_at alloc m i to =
     (let e = gm_entries m ! i; (r, d) = destination_map_increment alloc (se_dest e) to
      in (r, m\<lparr>gm_entries := (gm_entries m)[i := e\<lparr>se_dest := d\<rparr>]\<rparr>))"

definition event_graph_map_increment ::
    "(nat \<Rightarrow> bool) \<Rightarrow> event_graph_map \<Rightarrow> event_triple \<Rightarrow> event_triple \<Rightarrow> u32 \<times> event_graph_map" where
  "event_graph_map_increment alloc m0 from_ev to =
     (let m = (if needs_resize (gm_size m0) (gm_capacity m0) (gm_load m0)
               then snd (event_graph_map_resize alloc m0 ((gm_capacity m0 * 2) mod 2 ^ 32)) else m0)
      in case event_graph_map_find_source m from_ev of
           Some i \<Rightarrow> increment_at alloc m i to
         | None \<Rightarrow>
             (let es = gm_entries m
              in case probe (\<lambda>i. \<not> se_occupied (es ! i) \<or> se_deleted (es ! i)) (gm_capacity m)
                        (hash_event_triple from_ev (gm_capacity m)) of
                   None \<Rightarrow> (0, m)
                 | Some i \<Rightarrow>
                     (case destination_map_create alloc 16 of
                        None \<Rightarrow>
                          (0, m\<lparr>gm_entries := es[i := (es ! i)\<lparr>se_source := from_ev, se_dest := None\<rparr>]\<rparr>)
                      | Some d \<Rightarrow>
                          increment_at alloc
                            (m\<lparr>gm_entries := es[i := \<lparr>se_source = from_ev, se_dest = Some d,
                                                    se_occupied = True, se_deleted = False\<rparr>],
                               gm_size := gm_size m + 1\<rparr>) i to)))"

definition event_graph_map_get_frequency :: "event_graph_map \<Rightarrow> event_triple \<Rightarrow> event_triple \<Rightarrow> u32" where
  "event_graph_map_get_frequency m from_ev to =
     (case event_graph_map_find_source m from_ev of
        None \<Rightarrow> 0
      | Some i \<Rightarrow> destination_map_get_frequency (se_dest (gm_entries m ! i)) to)"

definition event_graph_map_contains_edge :: "event_graph_map \<Rightarrow> event_triple \<Rightarrow> event_triple \<Rightarrow> bool" where
  "event_graph_map_contains_edge m from_ev to \<longleftrightarrow> 0 < event_graph_map_get_frequency m from_ev to"

definition event_graph_map_source_count :: "event_graph_map \<Rightarrow> nat" where
  "event_graph_map_source_count m = gm_size m"

definition live_sources :: "event_graph_map \<Rightarrow> source_entry list" where
  "live_sources m = filter (\<lambda>e. se_occupied e \<and> \<not> se_deleted e) (gm_entries m)"

text \<open>A live source without a destination map would be a null dereference: \<open>None\<close>.\<close>

definition event_graph_map_edge_count :: "event_graph_map \<Rightarrow> u32 option" where
  "event_graph_map_edge_count m =
     foldl (\<lambda>acc e. case (acc, se_dest e) of (Some n, Some d) \<Rightarrow> Some (n + of_nat (dm_size d)) | _ \<Rightarrow> None)
       (Some 0) (live_sources m)"

text \<open>The calls of the callback, in order.\<close>

definition event_graph_map_for_each :: "event_graph_map \<Rightarrow> (event_triple \<times> event_triple \<times> u32) list" where
  "event_graph_map_for_each m =
     concat (map (\<lambda>e. case se_dest e of None \<Rightarrow> []
       | Some d \<Rightarrow> map (\<lambda>x. (se_source e, destination x, frequency x))
                     (filter (\<lambda>x. de_occupied x \<and> \<not> de_deleted x) (dm_entries d))) (live_sources m))"

definition event_graph_map_clear :: "event_graph_map \<Rightarrow> event_graph_map" where
  "event_graph_map_clear m = m\<lparr>gm_entries := replicate (gm_capacity m) zero_source, gm_size := 0\<rparr>"

text \<open>The destination maps a destroy frees.\<close>

definition event_graph_map_destroy :: "event_graph_map \<Rightarrow> dest_map option list" where
  "event_graph_map_destroy m = map se_dest (live_sources m)"

section \<open>Correctness of the map of sources\<close>

interpretation stab: probe_table source_key hash_event_triple
  by unfold_locales (rule hash_event_triple_less)

definition graph_inv :: "event_graph_map \<Rightarrow> bool" where
  "graph_inv m \<longleftrightarrow>
     length (gm_entries m) = gm_capacity m \<and> gm_load m = 75 \<and> 16 \<le> gm_capacity m \<and>
     table_ok source_key hash_event_triple (gm_entries m) \<and>
     gm_size m = used source_key (gm_entries m) \<and> (\<forall>e\<in>set (gm_entries m). \<not> se_deleted e) \<and>
     (\<forall>e\<in>set (gm_entries m). se_occupied e \<longrightarrow>
        (\<exists>d. se_dest e = Some d \<and> dest_inv d \<and> roomy 16 (dm_size d) (dm_capacity d)))"

definition source_dest :: "event_graph_map \<Rightarrow> event_triple \<Rightarrow> dest_map option" where
  "source_dest m k = (case key_slot source_key (gm_entries m) k of None \<Rightarrow> None | Some e \<Rightarrow> se_dest e)"

text \<open>What the map means: the frequency of an edge, if it has one.\<close>

definition edge_freq :: "event_graph_map \<Rightarrow> event_triple \<times> event_triple \<Rightarrow> u32 option" where
  "edge_freq m ab = (case source_dest m (fst ab) of None \<Rightarrow> None | Some d \<Rightarrow> dest_freq d (snd ab))"

lemma source_key_zero [simp]: "source_key zero_source = None" "\<not> se_deleted zero_source" "\<not> se_occupied zero_source"
  by (simp_all add: source_key_def zero_source_def)

lemma event_graph_map_create_ok:
  assumes "event_graph_map_create alloc n = Some m"
  shows "graph_inv m" and "gm_size m = 0" and "edge_freq m ab = None" and "gm_capacity m = max 16 n"
proof -
  have c: "(if n < 16 then 16 else n) = max 16 n" by simp
  have m: "m = \<lparr>gm_entries = replicate (max 16 n) zero_source, gm_capacity = max 16 n, gm_size = 0, gm_load = 75\<rparr>"
    using assms unfolding event_graph_map_create_def Let_def c by (cases "alloc (max 16 n)") auto
  have "0 < max 16 n" by simp
  note f = stab.free_table_ok [OF source_key_zero(1) this]
  show "graph_inv m" "gm_size m = 0" "edge_freq m ab = None" "gm_capacity m = max 16 n"
    using f by (simp_all add: m graph_inv_def edge_freq_def source_dest_def)
qed

lemma find_source_ok:
  assumes "graph_inv m"
  shows "case event_graph_map_find_source m k of
      None \<Rightarrow> key_slot source_key (gm_entries m) k = None
    | Some i \<Rightarrow> i < length (gm_entries m) \<and> key_slot source_key (gm_entries m) k = Some (gm_entries m ! i) \<and>
        source_key (gm_entries m ! i) = Some k \<and>
        probe (stops_at source_key (gm_entries m) k) (length (gm_entries m))
          (hash_event_triple k (length (gm_entries m))) = Some i"
proof (cases "gm_size m = 0")
  case True
  then have "used source_key (gm_entries m) = 0" using assms by (simp add: graph_inv_def)
  then have "key_slot source_key (gm_entries m) k = None"
    by (auto simp: used_def key_slot_None filter_empty_conv)
  then show ?thesis using True by (simp add: event_graph_map_find_source_def)
next
  case False
  let ?es = "gm_entries m"
  have ok: "table_ok source_key hash_event_triple ?es" and nd: "\<forall>e\<in>set ?es. \<not> se_deleted e"
    and l: "gm_capacity m = length ?es" "hash_event_triple k (length ?es) < length ?es"
    using assms hash_event_triple_less [of "length ?es"] by (simp_all add: graph_inv_def)
  have st: "probe (\<lambda>i. \<not> se_occupied (?es ! i) \<or>
        (\<not> se_deleted (?es ! i) \<and> event_triple_equal (se_source (?es ! i)) k)) (length ?es)
        (hash_event_triple k (length ?es)) =
      probe (stops_at source_key ?es k) (length ?es) (hash_event_triple k (length ?es))"
    by (rule probe_cong [OF l(2)]) (use nd in \<open>auto simp: source_key_def\<close>)
  note s = stab.probe_search [OF ok, of k]
  have e: "event_graph_map_find_source m k =
      (case probe (stops_at source_key ?es k) (length ?es) (hash_event_triple k (length ?es)) of
         None \<Rightarrow> None | Some i \<Rightarrow> if se_occupied (?es ! i) then Some i else None)"
    unfolding event_graph_map_find_source_def l(1) Let_def st using False by simp
  show ?thesis
  proof (cases "probe (stops_at source_key ?es k) (length ?es) (hash_event_triple k (length ?es))")
    case None
    then show ?thesis using s unfolding e by simp
  next
    case (Some i)
    moreover have "i < length ?es" using s Some by simp
    moreover have "\<not> se_deleted (?es ! i)" using nd calculation(2) by simp
    ultimately show ?thesis using s unfolding e by (auto simp: source_key_def)
  qed
qed

end
