(* ===== verification/EventGraphCounts.thy ===== *)
theory EventGraphCounts imports EventPairSet begin

text \<open>
  What the two-level map of \<^verbatim>\<open>main/src/event_pair_set.c\<close> means: an increment counts one more
  occurrence of the edge, across both levels of hashing and their resizes, and after any number of
  increments the map holds exactly the number of occurrences of each edge.
\<close>

section \<open>One increment\<close>

definition graph_grown :: "(nat \<Rightarrow> bool) \<Rightarrow> event_graph_map \<Rightarrow> event_graph_map" where
  "graph_grown alloc m =
     (if needs_resize (gm_size m) (gm_capacity m) (gm_load m)
      then snd (event_graph_map_resize alloc m ((gm_capacity m * 2) mod 2 ^ 32)) else m)"

lemma graph_inv_size: "graph_inv m \<Longrightarrow> gm_size m \<le> gm_capacity m"
  using used_le [of source_key "gm_entries m"] by (simp add: graph_inv_def)

lemma event_graph_map_resize_ok:
  fixes alloc :: "nat \<Rightarrow> bool"
  assumes inv: "graph_inv m" and n: "gm_capacity m \<le> n" and al: "alloc n"
  defines "m' \<equiv> snd (event_graph_map_resize alloc m n)"
  shows "graph_inv m' \<and> gm_size m' = gm_size m \<and> gm_capacity m' = n \<and>
    (\<forall>k. key_slot source_key (gm_entries m') k = key_slot source_key (gm_entries m) k)"
proof -
  let ?new = "replicate n zero_source"
  have n0: "0 < n" using inv n by (simp add: graph_inv_def)
  note f = stab.free_table_ok [OF source_key_zero(1) n0]
  let ?P = "\<lambda>e. \<not> se_deleted e \<and> (se_occupied e \<longrightarrow>
      (\<exists>d. se_dest e = Some d \<and> dest_inv d \<and> roomy 16 (dm_size d) (dm_capacity d)))"
  have "used source_key (gm_entries m) \<le> n"
    using used_le [of source_key "gm_entries m"] inv n by (simp add: graph_inv_def)
  then have r: "table_ok source_key hash_event_triple (reinsert source_key hash_event_triple (gm_entries m) ?new)"
    "used source_key (reinsert source_key hash_event_triple (gm_entries m) ?new) = used source_key (gm_entries m)"
    "\<And>k. key_slot source_key (reinsert source_key hash_event_triple (gm_entries m) ?new) k =
      key_slot source_key (gm_entries m) k"
    using stab.reinsert_ok [OF f(1), of "gm_entries m"] inv f(2,3)
    by (auto simp: graph_inv_def table_ok_def split: option.splits)
  have "\<forall>e\<in>set (gm_entries m). ?P e" using inv by (auto simp: graph_inv_def)
  then have "\<forall>e\<in>set (reinsert source_key hash_event_triple (gm_entries m) ?new). ?P e"
    by (rule reinsert_all) simp
  then show ?thesis using inv r n al
    by (auto simp: m'_def event_graph_map_resize_def graph_inv_def)
qed

lemma graph_grown_ok:
  fixes alloc :: "nat \<Rightarrow> bool"
  assumes inv: "graph_inv m" and cap: "gm_capacity m < 2 ^ 25" and al: "alloc (2 * gm_capacity m)"
    and r: "roomy cap0 (gm_size m) (gm_capacity m)"
  defines "m' \<equiv> graph_grown alloc m"
  shows "graph_inv m' \<and> gm_size m' = gm_size m \<and> roomy cap0 (gm_size m) (gm_capacity m') \<and>
    gm_size m' < gm_capacity m' \<and>
    (\<forall>k. key_slot source_key (gm_entries m') k = key_slot source_key (gm_entries m) k)"
proof -
  have l: "gm_load m = 75" "0 < gm_capacity m" using inv by (simp_all add: graph_inv_def)
  have w: "(gm_capacity m * 2) mod 2 ^ 32 = 2 * gm_capacity m" using cap by simp
  note nr = needs_resize_exact [OF cap graph_inv_size [OF inv]]
  show ?thesis
  proof (cases "gm_capacity m * 75 \<le> gm_size m * 100")
    case True
    then have "m' = snd (event_graph_map_resize alloc m (2 * gm_capacity m))"
      using nr l w by (simp add: m'_def graph_grown_def)
    then show ?thesis
      using event_graph_map_resize_ok [OF inv, of "2 * gm_capacity m" alloc] al resize_roomy [OF r True] graph_inv_size [OF inv] l
      by simp
  next
    case False
    then have "m' = m" using nr l by (simp add: m'_def graph_grown_def)
    then show ?thesis using inv r False by simp
  qed
qed

text \<open>Replacing the destination map of a source that is in the table.\<close>

lemma increment_at_ok:
  assumes inv: "graph_inv m" and i: "i < length (gm_entries m)"
    and p: "probe (stops_at source_key (gm_entries m) a) (length (gm_entries m))
      (hash_event_triple a (length (gm_entries m))) = Some i"
    and k: "source_key (gm_entries m ! i) = Some a" and d: "se_dest (gm_entries m ! i) = Some d"
    and cap: "dm_capacity d < 2 ^ 25" and al: "alloc (2 * dm_capacity d)"
  shows "\<exists>m' d'. increment_at alloc m i b = (the (bump (dest_freq d) b b), m') \<and> graph_inv m' \<and>
    dest_freq d' = bump (dest_freq d) b \<and> gm_size m' = gm_size m \<and> gm_capacity m' = gm_capacity m \<and>
    (\<forall>k. source_dest m' k = (if k = a then Some d' else source_dest m k))"
proof -
  have e: "gm_entries m ! i \<in> set (gm_entries m)" "se_occupied (gm_entries m ! i)"
    using i k by (auto simp: source_key_def split: if_splits)
  then have dv: "dest_inv d" "roomy 16 (dm_size d) (dm_capacity d)"
    using inv d by (fastforce simp: graph_inv_def)+
  obtain d' where d': "destination_map_increment alloc (Some d) b = (the (bump (dest_freq d) b b), Some d')"
    "dest_inv d'" "dest_freq d' = bump (dest_freq d) b" "roomy 16 (dm_size d') (dm_capacity d')"
    using dest_increment_ok [where alloc = alloc and k = b, OF dv(1) cap dv(2) al] by blast
  define s where "s = (gm_entries m ! i)\<lparr>se_dest := Some d'\<rparr>"
  define m' where "m' = m\<lparr>gm_entries := (gm_entries m)[i := s]\<rparr>"
  have sk: "source_key s = Some a" "\<not> se_deleted s" "se_occupied s" "se_dest s = Some d'"
    using k e inv by (auto simp: s_def source_key_def graph_inv_def)
  have ok: "table_ok source_key hash_event_triple (gm_entries m)" using inv by (simp add: graph_inv_def)
  note st = stab.probe_store [OF ok p sk(1)]
  let ?P = "\<lambda>e. \<not> se_deleted e \<and> (se_occupied e \<longrightarrow>
      (\<exists>d. se_dest e = Some d \<and> dest_inv d \<and> roomy 16 (dm_size d) (dm_capacity d)))"
  have "\<forall>e\<in>set (gm_entries m). ?P e" using inv by (auto simp: graph_inv_def)
  then have "\<forall>e\<in>set ((gm_entries m)[i := s]). ?P e"
    using sk d' by (intro set_update_ok) auto
  then have "graph_inv m'" using inv st(1,3) k by (auto simp: m'_def graph_inv_def)
  moreover have "\<forall>k. source_dest m' k = (if k = a then Some d' else source_dest m k)"
    using st(2) sk(4) by (simp add: m'_def source_dest_def)
  moreover have "increment_at alloc m i b = (the (bump (dest_freq d) b b), m')"
    using d d'(1) by (simp add: increment_at_def m'_def s_def)
  ultimately show ?thesis using d'(3) by (auto simp: m'_def)
qed

lemma edge_freq_bump:
  assumes "\<forall>k. source_dest m' k = (if k = a then Some d' else source_dest m k)"
    and "dest_freq d' = bump f b" and "\<And>c. edge_freq m (a, c) = f c"
  shows "edge_freq m' = bump (edge_freq m) (a, b)"
proof
  fix ab :: "event_triple \<times> event_triple"
  obtain x y where "ab = (x, y)" by force
  then show "edge_freq m' ab = bump (edge_freq m) (a, b) ab"
    using assms(1,2) assms(3) [of y] assms(3) [of b]
    by (auto simp: bump_def edge_freq_def)
qed

lemma event_graph_map_increment_ok:
  fixes alloc :: "nat \<Rightarrow> bool"
  assumes inv: "graph_inv m" and cap: "gm_capacity m < 2 ^ 25" and al: "\<forall>n. alloc n"
    and r: "roomy cap0 (gm_size m) (gm_capacity m)"
    and dcap: "\<forall>d. source_dest m a = Some d \<longrightarrow> dm_capacity d < 2 ^ 25"
  shows "\<exists>m'. event_graph_map_increment alloc m a b = (the (bump (edge_freq m) (a, b) (a, b)), m') \<and>
    graph_inv m' \<and> edge_freq m' = bump (edge_freq m) (a, b) \<and>
    roomy cap0 (gm_size m') (gm_capacity m') \<and>
    (\<forall>k. source_dest m' k = None \<longleftrightarrow> k \<noteq> a \<and> source_dest m k = None)"
proof -
  define g where "g = graph_grown alloc m"
  have g: "graph_inv g" "gm_size g = gm_size m" "roomy cap0 (gm_size m) (gm_capacity g)"
    "gm_size g < gm_capacity g"
    and gk: "\<And>k. key_slot source_key (gm_entries g) k = key_slot source_key (gm_entries m) k"
    using graph_grown_ok [OF inv cap _ r, of alloc] al unfolding g_def by blast+
  have gd: "source_dest g k = source_dest m k" for k using gk by (simp add: source_dest_def)
  have ge: "edge_freq g = edge_freq m" by (simp add: edge_freq_def gd fun_eq_iff)
  have ok: "table_ok source_key hash_event_triple (gm_entries g)" and l: "gm_capacity g = length (gm_entries g)"
    using g(1) by (simp_all add: graph_inv_def)
  have inc: "event_graph_map_increment alloc m a b =
      (case event_graph_map_find_source g a of
           Some i \<Rightarrow> increment_at alloc g i b
         | None \<Rightarrow>
             (case probe (\<lambda>i. \<not> se_occupied (gm_entries g ! i) \<or> se_deleted (gm_entries g ! i))
                     (gm_capacity g) (hash_event_triple a (gm_capacity g)) of
                   None \<Rightarrow> (0, g)
                 | Some i \<Rightarrow>
                     (case destination_map_create alloc 16 of
                        None \<Rightarrow> (0, g\<lparr>gm_entries := (gm_entries g)
                                  [i := (gm_entries g ! i)\<lparr>se_source := a, se_dest := None\<rparr>]\<rparr>)
                      | Some d \<Rightarrow>
                          increment_at alloc
                            (g\<lparr>gm_entries := (gm_entries g)[i := \<lparr>se_source = a, se_dest = Some d,
                                                    se_occupied = True, se_deleted = False\<rparr>],
                               gm_size := gm_size g + 1\<rparr>) i b)))"
    unfolding event_graph_map_increment_def g_def graph_grown_def Let_def ..
  show ?thesis
  proof (cases "event_graph_map_find_source g a")
    case (Some i)
    have s: "i < length (gm_entries g)" "key_slot source_key (gm_entries g) a = Some (gm_entries g ! i)"
      "source_key (gm_entries g ! i) = Some a"
      "probe (stops_at source_key (gm_entries g) a) (length (gm_entries g))
          (hash_event_triple a (length (gm_entries g))) = Some i"
      using find_source_ok [OF g(1), of a] Some by auto
    have "gm_entries g ! i \<in> set (gm_entries g)" "se_occupied (gm_entries g ! i)"
      using s(1,3) by (auto simp: source_key_def split: if_splits)
    then obtain d where d: "se_dest (gm_entries g ! i) = Some d" using g(1) by (fastforce simp: graph_inv_def)
    then have sd: "source_dest m a = Some d" using s(2) gd [of a] by (simp add: source_dest_def)
    obtain m' d' where m': "increment_at alloc g i b = (the (bump (dest_freq d) b b), m')" "graph_inv m'"
      "dest_freq d' = bump (dest_freq d) b" "gm_size m' = gm_size g" "gm_capacity m' = gm_capacity g"
      "\<forall>k. source_dest m' k = (if k = a then Some d' else source_dest g k)"
      using increment_at_ok [OF g(1) s(1,4,3) d, of alloc b] dcap sd al by blast
    have f: "edge_freq m (a, c) = dest_freq d c" for c using sd by (simp add: edge_freq_def)
    have "edge_freq m' = bump (edge_freq m) (a, b)"
      using edge_freq_bump [OF m'(6,3)] f ge by simp
    moreover have "the (bump (dest_freq d) b b) = the (bump (edge_freq m) (a, b) (a, b))"
      using f by (simp add: bump_def)
    ultimately show ?thesis using m' g(2,3) gd Some by (auto simp: inc)
  next
    case None
    have absent: "key_slot source_key (gm_entries g) a = None" using find_source_ok [OF g(1), of a] None by simp
    have ne: "gm_entries g \<noteq> []" using ok by (simp add: table_ok_def)
    have lt: "hash_event_triple a (length (gm_entries g)) < length (gm_entries g)"
      using hash_event_triple_less ne by simp
    have nd: "\<forall>e\<in>set (gm_entries g). \<not> se_deleted e" using g(1) by (simp add: graph_inv_def)
    have "probe (\<lambda>i. \<not> se_occupied (gm_entries g ! i) \<or> se_deleted (gm_entries g ! i)) (length (gm_entries g))
          (hash_event_triple a (length (gm_entries g))) =
        probe (\<lambda>i. source_key (gm_entries g ! i) = None) (length (gm_entries g))
          (hash_event_triple a (length (gm_entries g)))"
      by (rule probe_cong [OF lt]) (auto simp: source_key_def)
    then have pr: "probe (\<lambda>i. \<not> se_occupied (gm_entries g ! i) \<or> se_deleted (gm_entries g ! i)) (length (gm_entries g))
          (hash_event_triple a (length (gm_entries g))) =
        probe (stops_at source_key (gm_entries g) a) (length (gm_entries g))
          (hash_event_triple a (length (gm_entries g)))"
      using stab.probe_absent [OF absent ne] by simp
    have "used source_key (gm_entries g) \<noteq> length (gm_entries g)"
      using g(1,4) by (auto simp: graph_inv_def)
    then obtain i where p: "probe (stops_at source_key (gm_entries g) a) (length (gm_entries g))
          (hash_event_triple a (length (gm_entries g))) = Some i"
      and i: "i < length (gm_entries g)" "source_key (gm_entries g ! i) = None"
      using stab.probe_search [OF ok, of a] absent by (auto split: option.splits)
    obtain d where d: "destination_map_create alloc 16 = Some d"
      using al by (simp add: destination_map_create_def)
    note dc = destination_map_create_ok [OF d]
    define s where "s = \<lparr>se_source = a, se_dest = Some d, se_occupied = True, se_deleted = False\<rparr>"
    have sk: "source_key s = Some a" "se_dest s = Some d" "\<not> se_deleted s" by (simp_all add: s_def source_key_def)
    note st = stab.probe_store [OF ok p sk(1)]
    define m1 where "m1 = g\<lparr>gm_entries := (gm_entries g)[i := s], gm_size := gm_size g + 1\<rparr>"
    let ?P = "\<lambda>e. \<not> se_deleted e \<and> (se_occupied e \<longrightarrow>
        (\<exists>d. se_dest e = Some d \<and> dest_inv d \<and> roomy 16 (dm_size d) (dm_capacity d)))"
    have "\<forall>e\<in>set (gm_entries g). ?P e" using g(1) by (auto simp: graph_inv_def)
    then have "\<forall>e\<in>set ((gm_entries g)[i := s]). ?P e"
      using sk dc by (intro set_update_ok) (auto simp: roomy_def)
    then have i1: "graph_inv m1" using g(1) st(1,3) i(2) by (auto simp: m1_def graph_inv_def)
    have at: "gm_entries m1 ! i = s" "i < length (gm_entries m1)" using i by (simp_all add: m1_def)
    have p1: "probe (stops_at source_key (gm_entries m1) a) (length (gm_entries m1))
          (hash_event_triple a (length (gm_entries m1))) = Some i"
      using stab.probe_finds [OF _ at(2), of a] i1 at(1) sk(1) by (simp add: graph_inv_def)
    obtain m' d' where m': "increment_at alloc m1 i b = (the (bump (dest_freq d) b b), m')" "graph_inv m'"
      "dest_freq d' = bump (dest_freq d) b" "gm_size m' = gm_size m1" "gm_capacity m' = gm_capacity m1"
      "\<forall>k. source_dest m' k = (if k = a then Some d' else source_dest m1 k)"
      using increment_at_ok [OF i1 at(2) p1, of d alloc b] at(1) sk dc(4) al by auto
    have s1: "source_dest m1 k = (if k = a then Some d else source_dest m k)" for k
      using st(2) sk(2) gk by (simp add: m1_def source_dest_def)
    have sn: "source_dest m a = None" using absent gk by (simp add: source_dest_def)
    have f: "edge_freq m (a, c) = dest_freq d c" for c using sn dc(3) by (simp add: edge_freq_def)
    have "\<forall>k. source_dest m' k = (if k = a then Some d' else source_dest m k)" using m'(6) s1 by simp
    then have e': "edge_freq m' = bump (edge_freq m) (a, b)" using edge_freq_bump m'(3) f by blast
    have "event_graph_map_increment alloc m a b = increment_at alloc m1 i b"
      unfolding inc using None p pr d l by (simp add: Let_def m1_def s_def)
    moreover have "the (bump (dest_freq d) b b) = the (bump (edge_freq m) (a, b) (a, b))"
      using f by (simp add: bump_def)
    moreover have "roomy cap0 (gm_size m') (gm_capacity m')"
      using g(2,3) m'(4,5) by (auto simp: m1_def roomy_def)
    ultimately show ?thesis using m' e' s1 by auto
  qed
qed

section \<open>Reading the map\<close>

lemma get_frequency_ok:
  assumes "graph_inv m"
  shows "event_graph_map_get_frequency m a b = (case edge_freq m (a, b) of None \<Rightarrow> 0 | Some c \<Rightarrow> c)"
proof (cases "event_graph_map_find_source m a")
  case None
  then show ?thesis using find_source_ok [OF assms, of a]
    by (simp add: event_graph_map_get_frequency_def edge_freq_def source_dest_def)
next
  case (Some i)
  then have i: "i < length (gm_entries m)" "key_slot source_key (gm_entries m) a = Some (gm_entries m ! i)"
    "source_key (gm_entries m ! i) = Some a"
    using find_source_ok [OF assms, of a] by auto
  then have "gm_entries m ! i \<in> set (gm_entries m)" "se_occupied (gm_entries m ! i)"
    by (auto simp: source_key_def split: if_splits)
  then obtain d where "se_dest (gm_entries m ! i) = Some d" "dest_inv d"
    using assms by (fastforce simp: graph_inv_def)
  then show ?thesis using Some i(2) dest_get_freq [of d b]
    by (simp add: event_graph_map_get_frequency_def edge_freq_def source_dest_def)
qed

lemma dm_size_card:
  assumes "dest_inv d"
  shows "dm_size d = card {b. dest_freq d b \<noteq> None}" and "finite {b. dest_freq d b \<noteq> None}"
  using used_card(1,2) [of dest_key "dm_entries d"] assms
  by (simp_all add: dest_inv_def table_ok_def dest_freq_def)

lemma live_sources_eq: "live_sources m = filter (\<lambda>e. source_key e \<noteq> None) (gm_entries m)"
  unfolding live_sources_def by (rule filter_cong) (auto simp: source_key_def)

lemma live_source:
  assumes "graph_inv m" and "e \<in> set (live_sources m)"
  obtains d where "se_dest e = Some d" "dest_inv d" "source_dest m (se_source e) = Some d"
    "source_key e = Some (se_source e)"
proof -
  have e: "e \<in> set (gm_entries m)" "se_occupied e" "\<not> se_deleted e"
    using assms(2) by (auto simp: live_sources_def)
  then obtain d where d: "se_dest e = Some d" "dest_inv d" using assms(1) by (fastforce simp: graph_inv_def)
  have k: "source_key e = Some (se_source e)" using e by (simp add: source_key_def)
  have "unique_keys source_key (gm_entries m)" using assms(1) by (simp add: graph_inv_def table_ok_def)
  moreover obtain i where "i < length (gm_entries m)" "gm_entries m ! i = e"
    using e(1) by (auto simp: in_set_conv_nth)
  ultimately have "key_slot source_key (gm_entries m) (se_source e) = Some e"
    using k by (auto simp: key_slot_Some)
  then have "source_dest m (se_source e) = Some d" using d by (simp add: source_dest_def)
  then show thesis using that d k by blast
qed

lemma source_dest_live:
  assumes "graph_inv m" and "source_dest m a = Some d"
  obtains e where "e \<in> set (live_sources m)" "se_source e = a" "se_dest e = Some d"
proof -
  have u: "unique_keys source_key (gm_entries m)" using assms(1) by (simp add: graph_inv_def table_ok_def)
  obtain e where "key_slot source_key (gm_entries m) a = Some e" "se_dest e = Some d"
    using assms(2) by (auto simp: source_dest_def split: option.splits)
  moreover then obtain i where "i < length (gm_entries m)" "gm_entries m ! i = e" "source_key e = Some a"
    using u by (auto simp: key_slot_Some)
  ultimately show thesis using that [of e]
    by (auto simp: live_sources_def source_key_def split: if_splits)
qed

lemma live_distinct:
  assumes "graph_inv m"
  shows "distinct (live_sources m)" and "inj_on se_source (set (live_sources m))"
    and "se_source ` set (live_sources m) = {a. source_dest m a \<noteq> None}"
    and "gm_size m = length (live_sources m)"
proof -
  have u: "unique_keys source_key (gm_entries m)" using assms by (simp add: graph_inv_def table_ok_def)
  then have d: "distinct (map source_key (live_sources m))"
    unfolding live_sources_eq by (rule used_card(3))
  then show "distinct (live_sources m)" by (simp add: distinct_map)
  have "inj_on source_key (set (live_sources m))" using d by (simp add: distinct_map)
  then show "inj_on se_source (set (live_sources m))"
    by (intro inj_onI) (metis inj_onD live_source [OF assms])
  show "se_source ` set (live_sources m) = {a. source_dest m a \<noteq> None}"
  proof (rule set_eqI)
    fix a
    show "a \<in> se_source ` set (live_sources m) \<longleftrightarrow> a \<in> {a. source_dest m a \<noteq> None}"
    proof
      assume "a \<in> se_source ` set (live_sources m)"
      then obtain e where e: "e \<in> set (live_sources m)" "a = se_source e" by blast
      obtain d where "source_dest m (se_source e) = Some d" using live_source [OF assms e(1)] .
      then show "a \<in> {a. source_dest m a \<noteq> None}" using e(2) by simp
    next
      assume "a \<in> {a. source_dest m a \<noteq> None}"
      then obtain d where "source_dest m a = Some d" by auto
      then show "a \<in> se_source ` set (live_sources m)" using source_dest_live [OF assms] by (metis imageI)
    qed
  qed
  show "gm_size m = length (live_sources m)"
    using assms by (simp add: graph_inv_def used_def live_sources_eq)
qed

lemma gm_size_card:
  assumes "graph_inv m"
  shows "gm_size m = card {a. source_dest m a \<noteq> None}" and "finite {a. source_dest m a \<noteq> None}"
proof -
  note l = live_distinct [OF assms]
  show "gm_size m = card {a. source_dest m a \<noteq> None}"
    using l(4) distinct_card [OF l(1)] card_image [OF l(2)] l(3) by simp
  show "finite {a. source_dest m a \<noteq> None}" unfolding l(3) [symmetric] by simp
qed

text \<open>The number of edges, level by level.\<close>

lemma edges_card:
  assumes "graph_inv m"
  shows "card (dom (edge_freq m)) = sum_list (map (\<lambda>e. dm_size (the (se_dest e))) (live_sources m))"
    and "finite (dom (edge_freq m))"
proof -
  note l = live_distinct [OF assms]
  let ?K = "{a. source_dest m a \<noteq> None}" and ?B = "\<lambda>a. {b. dest_freq (the (source_dest m a)) b \<noteq> None}"
  have d: "dom (edge_freq m) = Sigma ?K ?B"
    by (auto simp: edge_freq_def split: option.splits)
  have fb: "\<forall>a\<in>?K. finite (?B a)" and cb: "\<And>a. a \<in> ?K \<Longrightarrow> card (?B a) = dm_size (the (source_dest m a))"
  proof -
    have "dest_inv (the (source_dest m a))" if "a \<in> ?K" for a
      using that live_source [OF assms] unfolding l(3) [symmetric] by force
    then show "\<forall>a\<in>?K. finite (?B a)" "\<And>a. a \<in> ?K \<Longrightarrow> card (?B a) = dm_size (the (source_dest m a))"
      using dm_size_card by auto
  qed
  note fk = gm_size_card(2) [OF assms]
  show "finite (dom (edge_freq m))" unfolding d using fk fb by (intro finite_SigmaI) auto
  have "card (dom (edge_freq m)) = (\<Sum>a\<in>?K. card (?B a))" unfolding d by (rule card_SigmaI [OF fk fb])
  also have "\<dots> = (\<Sum>a\<in>?K. dm_size (the (source_dest m a)))" by (intro sum.cong refl cb)
  also have "\<dots> = (\<Sum>e\<in>set (live_sources m). dm_size (the (source_dest m (se_source e))))"
    unfolding l(3) [symmetric] by (simp add: sum.reindex [OF l(2)])
  also have "\<dots> = (\<Sum>e\<in>set (live_sources m). dm_size (the (se_dest e)))"
  proof (intro sum.cong refl)
    fix e assume "e \<in> set (live_sources m)"
    then obtain d where "se_dest e = Some d" "source_dest m (se_source e) = Some d"
      using live_source [OF assms] by blast
    then show "dm_size (the (source_dest m (se_source e))) = dm_size (the (se_dest e))" by simp
  qed
  finally show "card (dom (edge_freq m)) = sum_list (map (\<lambda>e. dm_size (the (se_dest e))) (live_sources m))"
    by (simp add: sum_list_distinct_conv_sum_set l(1))
qed

lemma edge_count_ok:
  assumes "graph_inv m"
  shows "event_graph_map_edge_count m = Some (of_nat (card (dom (edge_freq m))))"
proof -
  have fold: "foldl (\<lambda>acc e. case (acc, se_dest e) of (Some n, Some d) \<Rightarrow> Some (n + of_nat (dm_size d)) | _ \<Rightarrow> None)
      (Some n0) es = Some (n0 + of_nat (sum_list (map (\<lambda>e. dm_size (the (se_dest e))) es)))"
    if "\<forall>e\<in>set es. se_dest e \<noteq> None" for n0 :: u32 and es :: "source_entry list"
    using that by (induction es arbitrary: n0) (auto simp: algebra_simps)
  have "\<forall>e\<in>set (live_sources m). se_dest e \<noteq> None"
  proof
    fix e assume "e \<in> set (live_sources m)"
    then obtain d where "se_dest e = Some d" using live_source [OF assms] by blast
    then show "se_dest e \<noteq> None" by simp
  qed
  then show ?thesis
    unfolding event_graph_map_edge_count_def edges_card(1) [OF assms] by (subst fold) simp_all
qed

lemma dest_live:
  assumes "dest_inv d"
  shows "set (map (\<lambda>x. (destination x, frequency x)) (filter (\<lambda>x. de_occupied x \<and> \<not> de_deleted x) (dm_entries d)))
      = {(b, c). dest_freq d b = Some c}"
    and "length (filter (\<lambda>x. de_occupied x \<and> \<not> de_deleted x) (dm_entries d)) = dm_size d"
proof -
  have u: "unique_keys dest_key (dm_entries d)" using assms by (simp add: dest_inv_def table_ok_def)
  have "(b, c) \<in> set (map (\<lambda>x. (destination x, frequency x))
      (filter (\<lambda>x. de_occupied x \<and> \<not> de_deleted x) (dm_entries d))) \<longleftrightarrow> dest_freq d b = Some c" for b c
  proof -
    have "dest_freq d b = Some c \<longleftrightarrow> (\<exists>x\<in>set (dm_entries d). dest_key x = Some b \<and> frequency x = c)"
      using u by (auto simp: dest_freq_def key_slot_set)
    then show ?thesis by (auto simp: dest_key_def split: if_splits)
  qed
  then show "set (map (\<lambda>x. (destination x, frequency x)) (filter (\<lambda>x. de_occupied x \<and> \<not> de_deleted x) (dm_entries d)))
      = {(b, c). dest_freq d b = Some c}" by auto
  have "filter (\<lambda>x. de_occupied x \<and> \<not> de_deleted x) (dm_entries d) = filter (\<lambda>x. dest_key x \<noteq> None) (dm_entries d)"
    by (rule filter_cong) (auto simp: dest_key_def)
  then show "length (filter (\<lambda>x. de_occupied x \<and> \<not> de_deleted x) (dm_entries d)) = dm_size d"
    using assms by (simp add: dest_inv_def used_def)
qed

lemma for_each_ok:
  assumes "graph_inv m"
  shows "set (event_graph_map_for_each m) = {(a, b, c). edge_freq m (a, b) = Some c}"
    and "length (event_graph_map_for_each m) = card (dom (edge_freq m))"
proof -
  define visit where "visit e = (case se_dest e of None \<Rightarrow> []
       | Some d \<Rightarrow> map (\<lambda>x. (se_source e, destination x, frequency x))
                     (filter (\<lambda>x. de_occupied x \<and> \<not> de_deleted x) (dm_entries d)))" for e :: source_entry
  have fe: "event_graph_map_for_each m = concat (map visit (live_sources m))"
    by (simp add: event_graph_map_for_each_def visit_def [abs_def])
  have v: "set (visit e) = {(a, b, c). a = se_source e \<and> edge_freq m (a, b) = Some c} \<and>
      length (visit e) = dm_size (the (se_dest e))" if e: "e \<in> set (live_sources m)" for e
  proof -
    obtain d where d: "se_dest e = Some d" "dest_inv d" "source_dest m (se_source e) = Some d"
      using live_source [OF assms e] by metis
    have "set (visit e) = (\<lambda>(b, c). (se_source e, b, c)) ` {(b, c). dest_freq d b = Some c}"
      unfolding dest_live(1) [OF d(2), symmetric] using d(1) by (auto simp: visit_def image_iff)
    then show ?thesis using d dest_live(2) [OF d(2)] by (auto simp: edge_freq_def visit_def)
  qed
  have "(a, b, c) \<in> set (event_graph_map_for_each m) \<longleftrightarrow> edge_freq m (a, b) = Some c" for a b c
  proof
    assume "(a, b, c) \<in> set (event_graph_map_for_each m)"
    then show "edge_freq m (a, b) = Some c" using v by (auto simp: fe)
  next
    assume f: "edge_freq m (a, b) = Some c"
    then obtain d where "source_dest m a = Some d" by (auto simp: edge_freq_def split: option.splits)
    then obtain e where "e \<in> set (live_sources m)" "se_source e = a" using source_dest_live [OF assms] by metis
    then show "(a, b, c) \<in> set (event_graph_map_for_each m)" using v f by (auto simp: fe)
  qed
  then show "set (event_graph_map_for_each m) = {(a, b, c). edge_freq m (a, b) = Some c}" by auto
  show "length (event_graph_map_for_each m) = card (dom (edge_freq m))"
    unfolding fe edges_card(1) [OF assms] length_concat map_map
    by (rule arg_cong [of _ _ sum_list]) (use v in \<open>simp cong: map_cong\<close>)
qed

section \<open>Any number of increments\<close>

type_synonym edge = "event_triple \<times> event_triple"

fun run_increments :: "(nat \<Rightarrow> bool) \<Rightarrow> edge list \<Rightarrow> event_graph_map \<Rightarrow> u32 list \<times> event_graph_map" where
  "run_increments alloc [] m = ([], m)"
| "run_increments alloc ((a, b) # es) m =
     (let (r, m1) = event_graph_map_increment alloc m a b; (rs, m2) = run_increments alloc es m1
      in (r # rs, m2))"

definition edge_counts :: "edge list \<Rightarrow> edge \<Rightarrow> u32 option" where
  "edge_counts es ab = (if ab \<in> set es then Some (of_nat (count_list es ab)) else None)"

lemma bump_counts: "bump (edge_counts es) ab = edge_counts (es @ [ab])"
proof
  fix x
  show "bump (edge_counts es) ab x = edge_counts (es @ [ab]) x"
    by (cases "ab \<in> set es") (auto simp: bump_def edge_counts_def count_notin)
qed

lemma dom_edge_counts: "dom (edge_counts es) = set es"
  by (auto simp: edge_counts_def split: if_splits)

text \<open>The map after the edges \<open>es\<close> have been counted.\<close>

definition counted :: "nat \<Rightarrow> edge list \<Rightarrow> event_graph_map \<Rightarrow> bool" where
  "counted cap0 es m \<longleftrightarrow> graph_inv m \<and> edge_freq m = edge_counts es \<and>
     roomy cap0 (gm_size m) (gm_capacity m) \<and> (\<forall>a. source_dest m a = None \<longleftrightarrow> a \<notin> fst ` set es)"

lemma card_fst_le: "card (fst ` set es) \<le> length es"
  by (metis card_image_le card_length finite_set order_trans)

lemma counted_step:
  assumes c: "counted cap0 es m" and al: "\<forall>n. alloc n" and b: "cap0 < 2 ^ 25" "length es < 2 ^ 22"
  shows "\<exists>m'. event_graph_map_increment alloc m (fst ab) (snd ab) =
      (of_nat (count_list (es @ [ab]) ab), m') \<and> counted cap0 (es @ [ab]) m'"
proof -
  obtain a b where ab: "ab = (a, b)" by force
  have inv: "graph_inv m" and f: "edge_freq m = edge_counts es"
    and r: "roomy cap0 (gm_size m) (gm_capacity m)"
    and s: "\<And>a. source_dest m a = None \<longleftrightarrow> a \<notin> fst ` set es"
    using c by (auto simp: counted_def)
  have "{a. source_dest m a \<noteq> None} = fst ` set es" using s by auto
  then have "gm_size m \<le> length es" using gm_size_card(1) [OF inv] card_fst_le by simp
  then have cap: "gm_capacity m < 2 ^ 25" using r b by (simp add: roomy_def)
  have dcap: "dm_capacity d < 2 ^ 25" if d: "source_dest m a = Some d" for d
  proof -
    obtain e where e: "e \<in> set (live_sources m)" "se_dest e = Some d" using source_dest_live [OF inv d] .
    then have dv: "dest_inv d" "roomy 16 (dm_size d) (dm_capacity d)"
      using inv by (fastforce simp: graph_inv_def live_sources_def)+
    have "{b. dest_freq d b \<noteq> None} \<subseteq> snd ` set es"
    proof
      fix b assume "b \<in> {b. dest_freq d b \<noteq> None}"
      then have "edge_freq m (a, b) \<noteq> None" using d by (simp add: edge_freq_def)
      then have "(a, b) \<in> set es" using f by (auto simp: edge_counts_def split: if_splits)
      then show "b \<in> snd ` set es" by force
    qed
    then have "dm_size d \<le> card (snd ` set es)" unfolding dm_size_card(1) [OF dv(1)] by (intro card_mono) auto
    also have "\<dots> \<le> length es" by (metis card_image_le card_length finite_set order_trans)
    finally show ?thesis using dv(2) b by (simp add: roomy_def)
  qed
  obtain m' where m': "event_graph_map_increment alloc m a b = (the (bump (edge_freq m) (a, b) (a, b)), m')"
    "graph_inv m'" "edge_freq m' = bump (edge_freq m) (a, b)" "roomy cap0 (gm_size m') (gm_capacity m')"
    "\<forall>k. source_dest m' k = None \<longleftrightarrow> k \<noteq> a \<and> source_dest m k = None"
    using event_graph_map_increment_ok [OF inv cap al r] dcap by blast
  have "the (bump (edge_freq m) (a, b) (a, b)) = of_nat (count_list (es @ [ab]) ab)"
    unfolding f bump_counts by (simp add: edge_counts_def ab)
  moreover have "counted cap0 (es @ [ab]) m'"
    using m' s by (auto simp: counted_def f bump_counts ab)
  ultimately show ?thesis using m'(1) ab by simp
qed

lemma run_increments_ok:
  assumes "counted cap0 es0 m" and "\<forall>n. alloc n" and "cap0 < 2 ^ 25" and "length es0 + length es \<le> 2 ^ 22"
  shows "\<exists>rs m'. run_increments alloc es m = (rs, m') \<and> counted cap0 (es0 @ es) m' \<and> length rs = length es \<and>
    (\<forall>i<length es. rs ! i = of_nat (count_list (es0 @ take (Suc i) es) (es ! i)))"
  using assms
proof (induction es arbitrary: es0 m)
  case Nil
  then show ?case by simp
next
  case (Cons ab es)
  obtain a b where ab: "ab = (a, b)" by force
  obtain m1 where m1: "event_graph_map_increment alloc m a b = (of_nat (count_list (es0 @ [ab]) ab), m1)"
    "counted cap0 (es0 @ [ab]) m1"
    using counted_step [OF Cons.prems(1,2,3), of ab] Cons.prems(4) ab by auto
  obtain rs m2 where m2: "run_increments alloc es m1 = (rs, m2)" "counted cap0 ((es0 @ [ab]) @ es) m2"
    "length rs = length es"
    "\<forall>i<length es. rs ! i = of_nat (count_list ((es0 @ [ab]) @ take (Suc i) es) (es ! i))"
    using Cons.IH [OF m1(2) Cons.prems(2,3)] Cons.prems(4) by auto
  have "(of_nat (count_list (es0 @ [ab]) ab) # rs) ! i =
      of_nat (count_list (es0 @ take (Suc i) (ab # es)) ((ab # es) ! i))" if "i < length (ab # es)" for i
    using that m2(4) by (cases i) auto
  then show ?case using m1(1) m2 by (simp add: ab)
qed

lemma create_counted:
  assumes "event_graph_map_create alloc n = Some m"
  shows "counted (max 16 n) [] m"
proof -
  note c = event_graph_map_create_ok [OF assms]
  have "{a. source_dest m a \<noteq> None} = {}"
    using gm_size_card [OF c(1)] c(2) by auto
  then show ?thesis using c by (auto simp: counted_def edge_counts_def roomy_def fun_eq_iff)
qed

lemma clear_counted:
  assumes "graph_inv m"
  shows "counted (gm_capacity m) [] (event_graph_map_clear m)"
proof -
  have n: "0 < gm_capacity m" using assms by (simp add: graph_inv_def)
  note f = stab.free_table_ok [OF source_key_zero(1) n]
  have "graph_inv (event_graph_map_clear m)"
    using assms f by (simp add: event_graph_map_clear_def graph_inv_def)
  then show ?thesis using f
    by (auto simp: counted_def event_graph_map_clear_def edge_freq_def source_dest_def edge_counts_def
        roomy_def fun_eq_iff)
qed

section \<open>Properties\<close>

text \<open>
  C14. The event pair map counts edges: after any sequence of at most \<open>2 ^ 22\<close> increments the
  frequency of an edge is its number of occurrences, the source count is the number of distinct
  sources, the edge count that of distinct edges, and the iteration visits every edge exactly once
  with its frequency.
\<close>

theorem event_graph_map_counts_edges:
  assumes "event_graph_map_create (\<lambda>_. True) n = Some m0" and "n < 2 ^ 25" and "length es \<le> 2 ^ 22"
  shows "\<exists>rs m. run_increments (\<lambda>_. True) es m0 = (rs, m) \<and>
    (\<forall>a b. event_graph_map_get_frequency m a b = of_nat (count_list es (a, b))) \<and>
    event_graph_map_source_count m = card (fst ` set es) \<and>
    event_graph_map_edge_count m = Some (of_nat (card (set es))) \<and>
    set (event_graph_map_for_each m) = (\<lambda>(a, b). (a, b, of_nat (count_list es (a, b)))) ` set es \<and>
    length (event_graph_map_for_each m) = card (set es)"
proof -
  have "max 16 n < 2 ^ 25" using assms(2) by simp
  then obtain rs m where m: "run_increments (\<lambda>_. True) es m0 = (rs, m)" "counted (max 16 n) es m"
    using run_increments_ok [OF create_counted [OF assms(1)], of "\<lambda>_. True" es] assms(3) by auto
  have inv: "graph_inv m" and f: "edge_freq m = edge_counts es"
    and s: "{a. source_dest m a \<noteq> None} = fst ` set es"
    using m(2) by (auto simp: counted_def)
  have "set (event_graph_map_for_each m) = (\<lambda>(a, b). (a, b, of_nat (count_list es (a, b)))) ` set es"
    unfolding for_each_ok(1) [OF inv] f by (force simp: edge_counts_def split: if_splits)
  moreover have "event_graph_map_get_frequency m a b = of_nat (count_list es (a, b))" for a b
    unfolding get_frequency_ok [OF inv] f by (simp add: edge_counts_def count_notin)
  moreover have "event_graph_map_source_count m = card (fst ` set es)"
    unfolding event_graph_map_source_count_def gm_size_card(1) [OF inv] s ..
  ultimately show ?thesis
    using m(1) edge_count_ok [OF inv] for_each_ok(2) [OF inv] by (auto simp: f dom_edge_counts)
qed

text \<open>
  A full destination map that cannot grow rejects a new destination: the increment answers 0
  and the map is unchanged.
\<close>

theorem destination_map_full_rejects:
  assumes "dest_inv dm" and "dm_capacity dm < 2 ^ 25" and "dm_size dm = dm_capacity dm"
    and "\<not> alloc (2 * dm_capacity dm)" and "destination_map_get_frequency (Some dm) k = 0"
    and "0 \<notin> frequency ` set (dm_entries dm)"
  shows "destination_map_increment alloc (Some dm) k = (0, Some dm)"
proof -
  have u: "unique_keys dest_key (dm_entries dm)" using assms(1) by (simp add: dest_inv_def table_ok_def)
  have "dest_freq dm k = None"
  proof (cases "key_slot dest_key (dm_entries dm) k")
    case (Some e)
    then have "frequency e \<in> frequency ` set (dm_entries dm)" using u by (simp add: key_slot_set)
    then have "frequency e \<noteq> 0" using assms(6) by force
    then show ?thesis using dest_get_freq [OF assms(1), of k] assms(5) Some by (simp add: dest_freq_def)
  qed (simp add: dest_freq_def)
  then show ?thesis by (rule dest_increment_full [where alloc = alloc, OF assms(1-4)])
qed

section \<open>Witnesses\<close>

definition sample_event :: "nat \<Rightarrow> event_triple" where
  "sample_event i = \<lparr>thread_id = of_nat i, instruction_id = 7, visit_id = 0\<rparr>"

theorem event_graph_map_counts_edges_witness:
  "\<exists>rs m. run_increments (\<lambda>_. True) [(sample_event 0, sample_event 1), (sample_event 0, sample_event 1)]
      \<lparr>gm_entries = replicate 16 zero_source, gm_capacity = 16, gm_size = 0, gm_load = 75\<rparr> = (rs, m) \<and>
    event_graph_map_get_frequency m (sample_event 0) (sample_event 1) = 2"
  using event_graph_map_counts_edges [of 3 "\<lparr>gm_entries = replicate 16 zero_source, gm_capacity = 16,
      gm_size = 0, gm_load = 75\<rparr>" "[(sample_event 0, sample_event 1), (sample_event 0, sample_event 1)]"]
  by (auto simp: event_graph_map_create_def)

text \<open>A destination map filled to its capacity of 16, each destination in its home slot.\<close>

definition full_sample :: dest_map where
  "full_sample =
     \<lparr>dm_entries = map (\<lambda>i. \<lparr>destination = zero_triple\<lparr>visit_id := of_nat i XOR 5\<rparr>, frequency = 1,
        de_occupied = True, de_deleted = False\<rparr>) [0..<16],
      dm_capacity = 16, dm_size = 16, dm_load = 75\<rparr>"

lemma full_sample_home:
  "list_all (\<lambda>i. hash_event_triple (zero_triple\<lparr>visit_id := of_nat i XOR 5\<rparr>) 16 = i) [0..<16]"
  by (simp add: hash_event_triple_def hash_step_def zero_triple_def push_bit_eq_mult upt_rec)

lemma full_sample_inv: "dest_inv full_sample"
proof -
  have key: "dest_key (dm_entries full_sample ! i) = Some (zero_triple\<lparr>visit_id := of_nat i XOR 5\<rparr>)"
    if "i < 16" for i
    using that by (simp add: full_sample_def dest_key_def)
  have len: "length (dm_entries full_sample) = 16" by (simp add: full_sample_def)
  have ok: "table_ok dest_key hash_event_triple (dm_entries full_sample)"
  proof (rule table_ok_home)
    show "dm_entries full_sample \<noteq> []" using len by (metis list.size(3) zero_neq_numeral)
    fix i k
    assume "i < length (dm_entries full_sample)" "dest_key (dm_entries full_sample ! i) = Some k"
    then have "i < 16" "k = zero_triple\<lparr>visit_id := of_nat i XOR 5\<rparr>" using key len by auto
    then show "hash_event_triple k (length (dm_entries full_sample)) = i"
      using full_sample_home len by (simp only: list_all_iff) auto
  qed
  have "used dest_key (dm_entries full_sample) = 16"
    using used_full [of "dm_entries full_sample" dest_key] key len by auto
  then show ?thesis using ok by (auto simp: dest_inv_def full_sample_def)
qed

lemma full_sample_lacks:
  "destination_map_get_frequency (Some full_sample) (sample_event 0) = 0"
proof -
  have "key_slot dest_key (dm_entries full_sample) (sample_event 0) = None"
    by (auto simp: key_slot_None full_sample_def dest_key_def sample_event_def zero_triple_def)
  then show ?thesis by (simp add: dest_get_freq [OF full_sample_inv] dest_freq_def)
qed

theorem destination_map_full_rejects_witness:
  "destination_map_increment (\<lambda>n. n \<le> 16) (Some full_sample) (sample_event 0) = (0, Some full_sample)"
  by (rule destination_map_full_rejects [OF full_sample_inv _ _ _ full_sample_lacks])
    (auto simp: full_sample_def)

end
