(* ===== verification/Diversity.thy ===== *)
theory Diversity imports EventGraphCounts begin

text \<open>
  \<^verbatim>\<open>main/src/diversity_checker.c\<close>: which reads-from edges the campaign has explored. The two
  file-scope pointers are the state; the update of the modification-order map is commented out in
  the source, so only its pointer is kept.
\<close>

section \<open>State and operations\<close>

record diversity =
  explored_mo :: "event_graph_map option"
  explored_rf :: "event_graph_map option"

definition diversity_start :: diversity where
  "diversity_start = \<lparr>explored_mo = None, explored_rf = None\<rparr>"

definition diversity_checker_init :: "(nat \<Rightarrow> bool) \<Rightarrow> diversity \<Rightarrow> diversity" where
  "diversity_checker_init alloc st =
     (let mo = (case explored_mo st of None \<Rightarrow> event_graph_map_create alloc 256 | Some m \<Rightarrow> Some m);
          rf = (case explored_rf st of None \<Rightarrow> event_graph_map_create alloc 256 | Some m \<Rightarrow> Some m)
      in st\<lparr>explored_mo := mo, explored_rf := rf\<rparr>)"

definition mk_triple :: "s32 \<Rightarrow> s64 \<Rightarrow> s32 \<Rightarrow> event_triple" where
  "mk_triple t i v = \<lparr>thread_id = t, instruction_id = i, visit_id = v\<rparr>"

definition update_rf_coverage ::
    "(nat \<Rightarrow> bool) \<Rightarrow> s32 \<Rightarrow> s64 \<Rightarrow> s32 \<Rightarrow> s32 \<Rightarrow> s64 \<Rightarrow> s32 \<Rightarrow> diversity \<Rightarrow> s32 \<times> diversity" where
  "update_rf_coverage alloc ft fi fv tt ti tv st =
     (let st1 = (case explored_rf st of None \<Rightarrow> diversity_checker_init alloc st | Some _ \<Rightarrow> st);
          from_ev = mk_triple ft fi fv; to = mk_triple tt ti tv
      in case explored_rf st1 of
           None \<Rightarrow> (1, st1)
         | Some m \<Rightarrow>
             (let edge_exists = event_graph_map_contains_edge m from_ev to;
                  m' = snd (event_graph_map_increment alloc m from_ev to)
              in (if edge_exists then 0 else 1, st1\<lparr>explored_rf := Some m'\<rparr>)))"

definition get_rf_coverage_count :: "diversity \<Rightarrow> u32 option" where
  "get_rf_coverage_count st =
     (case explored_rf st of None \<Rightarrow> Some 0 | Some m \<Rightarrow> event_graph_map_edge_count m)"

definition get_rf_edge_frequency :: "s32 \<Rightarrow> s64 \<Rightarrow> s32 \<Rightarrow> s32 \<Rightarrow> s64 \<Rightarrow> s32 \<Rightarrow> diversity \<Rightarrow> u32" where
  "get_rf_edge_frequency ft fi fv tt ti tv st =
     (case explored_rf st of None \<Rightarrow> 0
      | Some m \<Rightarrow> event_graph_map_get_frequency m (mk_triple ft fi fv) (mk_triple tt ti tv))"

definition for_each_rf_edge :: "diversity \<Rightarrow> (event_triple \<times> event_triple \<times> u32) list" where
  "for_each_rf_edge st = (case explored_rf st of None \<Rightarrow> [] | Some m \<Rightarrow> event_graph_map_for_each m)"

definition diversity_checker_clear :: "diversity \<Rightarrow> diversity" where
  "diversity_checker_clear st =
     st\<lparr>explored_mo := map_option event_graph_map_clear (explored_mo st),
        explored_rf := map_option event_graph_map_clear (explored_rf st)\<rparr>"

definition diversity_checker_destroy :: "diversity \<Rightarrow> diversity" where
  "diversity_checker_destroy st = st\<lparr>explored_mo := None, explored_rf := None\<rparr>"

section \<open>A campaign\<close>

text \<open>The answers of a sequence of updates.\<close>

fun run_updates :: "(nat \<Rightarrow> bool) \<Rightarrow> edge list \<Rightarrow> diversity \<Rightarrow> s32 list \<times> diversity" where
  "run_updates alloc [] st = ([], st)"
| "run_updates alloc ((a, b) # es) st =
     (let (r, st1) = update_rf_coverage alloc (thread_id a) (instruction_id a) (visit_id a)
                       (thread_id b) (instruction_id b) (visit_id b) st;
          (rs, st2) = run_updates alloc es st1
      in (r # rs, st2))"

text \<open>The reads-from map has counted \<open>es\<close>, or does not exist yet.\<close>

definition explored :: "edge list \<Rightarrow> diversity \<Rightarrow> bool" where
  "explored es st \<longleftrightarrow> (case explored_rf st of None \<Rightarrow> es = [] | Some m \<Rightarrow> counted 256 es m)"

lemma mk_triple_fields [simp]: "mk_triple (thread_id a) (instruction_id a) (visit_id a) = a"
  by (simp add: mk_triple_def)

lemma count_bound: "count_list es ab \<le> length es"
  by (rule count_le_length)

lemma update_rf_coverage_step:
  assumes "explored es st" and "length es < 2 ^ 22"
  shows "\<exists>st'. update_rf_coverage (\<lambda>_. True) (thread_id a) (instruction_id a) (visit_id a)
      (thread_id b) (instruction_id b) (visit_id b) st = (if (a, b) \<in> set es then 0 else 1, st') \<and>
    explored (es @ [(a, b)]) st'"
proof -
  define st1 where "st1 = (case explored_rf st of None \<Rightarrow> diversity_checker_init (\<lambda>_. True) st | Some _ \<Rightarrow> st)"
  have "\<exists>m. explored_rf st1 = Some m \<and> counted 256 es m"
  proof (cases "explored_rf st")
    case None
    obtain m where m: "event_graph_map_create (\<lambda>_. True) 256 = Some m"
      by (simp add: event_graph_map_create_def)
    then have "explored_rf st1 = Some m" using None
      by (simp add: st1_def diversity_checker_init_def)
    then show ?thesis using create_counted [OF m] None assms(1) by (simp add: explored_def)
  next
    case (Some m)
    then show ?thesis using assms(1) by (simp add: st1_def explored_def)
  qed
  then obtain m where m: "explored_rf st1 = Some m" "counted 256 es m" by blast
  obtain m' where m': "event_graph_map_increment (\<lambda>_. True) m a b =
      (of_nat (count_list (es @ [(a, b)]) (a, b)), m')" "counted 256 (es @ [(a, b)]) m'"
    using counted_step [OF m(2), of "\<lambda>_. True" "(a, b)"] assms(2) by auto
  have inv: "graph_inv m" "edge_freq m = edge_counts es" using m(2) by (simp_all add: counted_def)
  have "event_graph_map_contains_edge m a b \<longleftrightarrow> (a, b) \<in> set es"
  proof (cases "(a, b) \<in> set es")
    case True
    then have c: "0 < count_list es (a, b)" by (metis count_list_0_iff neq0_conv)
    have "count_list es (a, b) < 2 ^ 32" using count_bound [of es "(a, b)"] assms(2) by simp
    then have "(of_nat (count_list es (a, b)) :: u32) \<noteq> 0"
      using c by (simp add: word_of_nat_eq_0_iff nat_dvd_not_less)
    then show ?thesis using True inv
      by (simp add: event_graph_map_contains_edge_def get_frequency_ok edge_counts_def word_neq_0_conv)
  next
    case False
    then show ?thesis using inv
      by (simp add: event_graph_map_contains_edge_def get_frequency_ok edge_counts_def)
  qed
  then have "update_rf_coverage (\<lambda>_. True) (thread_id a) (instruction_id a) (visit_id a)
      (thread_id b) (instruction_id b) (visit_id b) st =
      (if (a, b) \<in> set es then 0 else 1, st1\<lparr>explored_rf := Some m'\<rparr>)"
    unfolding update_rf_coverage_def st1_def [symmetric] using m(1) m'(1) by (simp add: Let_def)
  then show ?thesis using m'(2) by (simp add: explored_def)
qed

lemma run_updates_ok:
  assumes "explored es0 st" and "length es0 + length es \<le> 2 ^ 22"
  shows "\<exists>rs st'. run_updates (\<lambda>_. True) es st = (rs, st') \<and> explored (es0 @ es) st' \<and>
    rs = map (\<lambda>i. if es ! i \<in> set (es0 @ take i es) then 0 else 1) [0..<length es]"
  using assms
proof (induction es arbitrary: es0 st)
  case Nil
  then show ?case by simp
next
  case (Cons ab es)
  obtain a b where ab: "ab = (a, b)" by force
  obtain st1 where st1: "update_rf_coverage (\<lambda>_. True) (thread_id a) (instruction_id a) (visit_id a)
      (thread_id b) (instruction_id b) (visit_id b) st = (if (a, b) \<in> set es0 then 0 else 1, st1)"
    "explored (es0 @ [ab]) st1"
    using update_rf_coverage_step [OF Cons.prems(1), of a b] Cons.prems(2) ab by auto
  obtain rs st2 where st2: "run_updates (\<lambda>_. True) es st1 = (rs, st2)" "explored ((es0 @ [ab]) @ es) st2"
    "rs = map (\<lambda>i. if es ! i \<in> set ((es0 @ [ab]) @ take i es) then 0 else 1) [0..<length es]"
    using Cons.IH [OF st1(2)] Cons.prems(2) by auto
  have u: "[0..<length (ab # es)] = 0 # map Suc [0..<length es]"
    by (simp add: map_Suc_upt upt_conv_Cons del: upt_Suc)
  show ?case using st1(1) st2 unfolding u by (simp add: ab)
qed

section \<open>Properties\<close>

text \<open>
  C39. \<open>update_rf_coverage\<close> reports coverage exactly once per reads-from edge: over any
  sequence of at most \<open>2 ^ 22\<close> updates from the start of the program the answer is 1 at the
  first occurrence of an edge and 0 at every later one, and the coverage count is the number of
  distinct edges.
\<close>

theorem rf_coverage_first_occurrence:
  assumes "length es \<le> 2 ^ 22"
  shows "\<exists>rs st. run_updates (\<lambda>_. True) es diversity_start = (rs, st) \<and>
    rs = map (\<lambda>i. if es ! i \<in> set (take i es) then 0 else 1) [0..<length es] \<and>
    get_rf_coverage_count st = Some (of_nat (card (set es)))"
proof -
  have "explored [] diversity_start" by (simp add: explored_def diversity_start_def)
  then obtain rs st where r: "run_updates (\<lambda>_. True) es diversity_start = (rs, st)" "explored es st"
    "rs = map (\<lambda>i. if es ! i \<in> set (take i es) then 0 else 1) [0..<length es]"
    using run_updates_ok [of "[]" diversity_start es] assms by auto
  have "get_rf_coverage_count st = Some (of_nat (card (set es)))"
  proof (cases "explored_rf st")
    case None
    then show ?thesis using r(2) by (simp add: explored_def get_rf_coverage_count_def)
  next
    case (Some m)
    then have "graph_inv m" "edge_freq m = edge_counts es" using r(2) by (simp_all add: explored_def counted_def)
    then show ?thesis using Some
      by (simp add: get_rf_coverage_count_def edge_count_ok dom_edge_counts)
  qed
  then show ?thesis using r by blast
qed

theorem rf_coverage_first_occurrence_witness:
  "\<exists>st. run_updates (\<lambda>_. True) [(sample_event 0, sample_event 1), (sample_event 0, sample_event 1)]
      diversity_start = ([1, 0], st)"
  using rf_coverage_first_occurrence
    [of "[(sample_event 0, sample_event 1), (sample_event 0, sample_event 1)]"] by auto

end
