(* ===== verification/VerifyTable.thy ===== *)
theory VerifyTable imports LinearProbe begin

text \<open>
  The variable table of \<^verbatim>\<open>src/wmm-runtime/assert.c\<close>: an open-addressing table from
  variable names to truth values. Its capacities are powers of two and an index is masked instead
  of divided; the probing loop of an insertion has no bound of its own, so an insertion into a
  full table is the value \<open>None\<close>: it does not return. The operations run under a
  read-write lock and are modelled as atomic.
\<close>

section \<open>State\<close>

record verify_slot =
  vname :: string
  vvalue :: bool
  in_use :: bool

record verify_table =
  vslots :: "verify_slot list option"
  vcapacity :: nat
  vcount :: nat

text \<open>What the allocator grants: a table of so many slots, a copy of a name.\<close>

record memory =
  grants_slots :: "nat \<Rightarrow> bool"
  grants_copy :: "string \<Rightarrow> bool"

definition g_verify_vars :: verify_table where
  "g_verify_vars = \<lparr>vslots = None, vcapacity = 0, vcount = 0\<rparr>"

definition zero_slot :: verify_slot where
  "zero_slot = \<lparr>vname = [], vvalue = False, in_use = False\<rparr>"

section \<open>Operations\<close>

definition verify_hash_name :: "string \<Rightarrow> u64" where
  "verify_hash_name s =
     foldl (\<lambda>hash c. (hash XOR of_char c) * 1099511628211) 1469598103934665603 s"

definition verify_home :: "string \<Rightarrow> nat \<Rightarrow> nat" where
  "verify_home s cap = unat (verify_hash_name s AND (of_nat cap - 1))"

definition verify_table_init :: "memory \<Rightarrow> verify_table \<Rightarrow> bool \<times> verify_table" where
  "verify_table_init mem t =
     (case vslots t of Some _ \<Rightarrow> (True, t)
      | None \<Rightarrow>
          (if grants_slots mem 64
           then (True, t\<lparr>vslots := Some (replicate 64 zero_slot), vcapacity := 64, vcount := 0\<rparr>)
           else (False, t)))"

definition verify_table_insert_owned ::
    "memory \<Rightarrow> verify_table \<Rightarrow> string \<Rightarrow> bool \<Rightarrow> (bool \<times> verify_table) option" where
  "verify_table_insert_owned mem t name v =
     (case verify_table_init mem t of
        (True, t1) \<Rightarrow>
          (case vslots t1 of None \<Rightarrow> Some (False, t1)
           | Some slots \<Rightarrow>
               (case masked_probe (vcapacity t1) (\<lambda>i. \<not> in_use (slots ! i) \<or> vname (slots ! i) = name)
                       (of_nat (vcapacity t1) - 1)
                       (verify_hash_name name AND (of_nat (vcapacity t1) - 1)) of
                  None \<Rightarrow> None
                | Some i \<Rightarrow>
                    (if in_use (slots ! i)
                     then Some (True, t1\<lparr>vslots := Some (slots[i := (slots ! i)\<lparr>vvalue := v\<rparr>])\<rparr>)
                     else Some (True, t1\<lparr>vslots := Some (slots[i := \<lparr>vname = name, vvalue = v, in_use = True\<rparr>]),
                                        vcount := vcount t1 + 1\<rparr>))))
      | (False, t1) \<Rightarrow> Some (False, t1))"

fun verify_rehash_loop :: "memory \<Rightarrow> verify_slot list \<Rightarrow> verify_table \<Rightarrow> (bool \<times> verify_table) option" where
  "verify_rehash_loop mem [] t = Some (True, t)"
| "verify_rehash_loop mem (s # old) t =
     (if \<not> in_use s then verify_rehash_loop mem old t
      else (case verify_table_insert_owned mem t (vname s) (vvalue s) of
              None \<Rightarrow> None
            | Some (False, t') \<Rightarrow> Some (False, t')
            | Some (True, t') \<Rightarrow> verify_rehash_loop mem old t'))"

definition verify_table_rehash :: "memory \<Rightarrow> verify_table \<Rightarrow> nat \<Rightarrow> (bool \<times> verify_table) option" where
  "verify_table_rehash mem t new_cap =
     (if \<not> grants_slots mem new_cap then Some (False, t)
      else let old = (case vslots t of None \<Rightarrow> [] | Some s \<Rightarrow> s)
           in case verify_rehash_loop mem old
                     (t\<lparr>vslots := Some (replicate new_cap zero_slot), vcapacity := new_cap, vcount := 0\<rparr>) of
                None \<Rightarrow> None
              | Some (True, t') \<Rightarrow> Some (True, t')
              | Some (False, _) \<Rightarrow> Some (False, t\<lparr>vcount := length (filter in_use old)\<rparr>))"

definition verify_table_set :: "memory \<Rightarrow> verify_table \<Rightarrow> string \<Rightarrow> bool \<Rightarrow> (bool \<times> verify_table) option" where
  "verify_table_set mem t name v =
     (if name = [] then Some (False, t)
      else case verify_table_init mem t of
        (False, t1) \<Rightarrow> Some (False, t1)
      | (True, t1) \<Rightarrow>
          (case (if vcapacity t1 * 70 \<le> (vcount t1 + 1) * 100
                 then verify_table_rehash mem t1 (vcapacity t1 * 2) else Some (True, t1)) of
             None \<Rightarrow> None
           | Some (False, t2) \<Rightarrow> Some (False, t2)
           | Some (True, t2) \<Rightarrow>
               (if grants_copy mem name then verify_table_insert_owned mem t2 name v else Some (False, t2))))"

definition verify_table_get :: "verify_table \<Rightarrow> string \<Rightarrow> bool option" where
  "verify_table_get t name =
     (case vslots t of None \<Rightarrow> None
      | Some slots \<Rightarrow>
          (if name = [] then None
           else case masked_probe (vcapacity t) (\<lambda>i. \<not> in_use (slots ! i) \<or> vname (slots ! i) = name)
                       (of_nat (vcapacity t) - 1)
                       (verify_hash_name name AND (of_nat (vcapacity t) - 1)) of
                  None \<Rightarrow> None
                | Some i \<Rightarrow> if in_use (slots ! i) then Some (vvalue (slots ! i)) else None))"

section \<open>Masked probing is probing\<close>

lemma mask_mod: "k < 64 \<Longrightarrow> unat ((x::u64) AND (of_nat (2 ^ k) - 1)) = unat x mod 2 ^ k"
  by (rule word_mask_mod) simp

lemma masked_probe_eq:
  assumes "k < 64"
  shows "masked_probe (2 ^ k) stop (of_nat (2 ^ k) - 1) (verify_hash_name name AND (of_nat (2 ^ k) - 1)) =
    probe stop (2 ^ k) (verify_home name (2 ^ k))"
  unfolding verify_home_def by (rule masked_probe_probe) (use assms in simp)

lemma verify_home_less: "0 < cap \<Longrightarrow> verify_home s cap < cap"
  unfolding verify_home_def by (rule masked_less)

section \<open>The table as a map\<close>

definition vkey :: "verify_slot \<Rightarrow> string option" where
  "vkey s = (if in_use s then Some (vname s) else None)"

interpretation vtab: probe_table vkey verify_home
  by unfold_locales (rule verify_home_less)

definition slots_map :: "verify_slot list \<Rightarrow> string \<Rightarrow> bool option" where
  "slots_map slots name = map_option vvalue (key_slot vkey slots name)"

text \<open>A table with slots: a power of two of them, in order, counted.\<close>

definition live_table :: "verify_table \<Rightarrow> nat \<Rightarrow> verify_slot list \<Rightarrow> bool" where
  "live_table t k slots \<longleftrightarrow>
     vslots t = Some slots \<and> vcapacity t = 2 ^ k \<and> 6 \<le> k \<and> k < 64 \<and> length slots = 2 ^ k \<and>
     table_ok vkey verify_home slots \<and> vcount t = used vkey slots"

definition verify_inv :: "verify_table \<Rightarrow> bool" where
  "verify_inv t \<longleftrightarrow> vslots t = None \<or>
     (\<exists>k slots. live_table t k slots \<and> vcount t * 100 < vcapacity t * 70)"

definition verify_map :: "verify_table \<Rightarrow> string \<Rightarrow> bool option" where
  "verify_map t name = (case vslots t of None \<Rightarrow> None | Some slots \<Rightarrow> slots_map slots name)"

lemma vkey_zero [simp]: "vkey zero_slot = None"
  by (simp add: vkey_def zero_slot_def)

lemma stop_eq: "(\<not> in_use (slots ! i) \<or> vname (slots ! i) = name) = stops_at vkey slots name i"
  by (auto simp: vkey_def)

lemma fresh_live:
  assumes "6 \<le> k" and "k < 64" and "vslots t = Some (replicate (2 ^ k) zero_slot)"
    and "vcapacity t = 2 ^ k" and "vcount t = 0"
  shows "live_table t k (replicate (2 ^ k) zero_slot)" and "slots_map (replicate (2 ^ k) zero_slot) n = None"
  using assms vtab.free_table_ok [of zero_slot "2 ^ k"] by (simp_all add: live_table_def slots_map_def)

lemma verify_insert_ok:
  assumes l: "live_table t k slots" and room: "vcount t < vcapacity t"
  shows "\<exists>t' slots'. verify_table_insert_owned mem t name v = Some (True, t') \<and> live_table t' k slots' \<and>
    slots_map slots' = (slots_map slots)(name \<mapsto> v) \<and>
    vcount t' = (if slots_map slots name = None then vcount t + 1 else vcount t)"
proof -
  let ?p = "probe (stops_at vkey slots name) (length slots) (verify_home name (length slots))"
  have t: "vslots t = Some slots" "vcapacity t = length slots" "length slots = 2 ^ k" "k < 64" "6 \<le> k"
    "table_ok vkey verify_home slots" "vcount t = used vkey slots"
    using l by (simp_all add: live_table_def)
  have ins: "verify_table_insert_owned mem t name v =
      (case ?p of None \<Rightarrow> None
       | Some i \<Rightarrow> (if in_use (slots ! i) then Some (True, t\<lparr>vslots := Some (slots[i := (slots ! i)\<lparr>vvalue := v\<rparr>])\<rparr>)
           else Some (True, t\<lparr>vslots := Some (slots[i := \<lparr>vname = name, vvalue = v, in_use = True\<rparr>]),
                             vcount := vcount t + 1\<rparr>)))"
    unfolding verify_table_insert_owned_def verify_table_init_def t(1) option.case prod.case bool.case
      t(2) stop_eq t(3) masked_probe_eq [OF t(4)] ..
  note srch = vtab.probe_search [OF t(6), of name]
  obtain i where p: "?p = Some i" and i: "i < length slots"
    using srch room t by (cases ?p) auto
  define s where "s = (if in_use (slots ! i) then (slots ! i)\<lparr>vvalue := v\<rparr>
      else \<lparr>vname = name, vvalue = v, in_use = True\<rparr>)"
  have known: "in_use (slots ! i) \<Longrightarrow> vkey (slots ! i) = Some name \<and> key_slot vkey slots name = Some (slots ! i)"
    "\<not> in_use (slots ! i) \<Longrightarrow> vkey (slots ! i) = None \<and> key_slot vkey slots name = None"
    using srch p by (auto simp: vkey_def)
  have sk: "vkey s = Some name" "vvalue s = v" using known by (auto simp: s_def vkey_def split: if_splits)
  note st = vtab.probe_store [OF t(6) p sk(1)]
  define t' where "t' = t\<lparr>vslots := Some (slots[i := s]),
      vcount := (if in_use (slots ! i) then vcount t else vcount t + 1)\<rparr>"
  have "verify_table_insert_owned mem t name v = Some (True, t')"
    unfolding ins p by (simp add: t'_def s_def)
  moreover have "live_table t' k (slots[i := s])"
    using t st(1,3) known by (auto simp: live_table_def t'_def)
  moreover have "slots_map (slots[i := s]) = (slots_map slots)(name \<mapsto> v)"
    using st(2) sk(2) by (auto simp: slots_map_def fun_eq_iff)
  moreover have "vcount t' = (if slots_map slots name = None then vcount t + 1 else vcount t)"
    using known by (auto simp: t'_def slots_map_def)
  ultimately show ?thesis by blast
qed

lemma verify_rehash_loop_ok:
  assumes "live_table t k slots" and "distinct (map vname (filter in_use old))"
    and "\<forall>s\<in>set old. in_use s \<longrightarrow> slots_map slots (vname s) = None"
    and "vcount t + length (filter in_use old) \<le> vcapacity t"
  shows "\<exists>t' slots'. verify_rehash_loop mem old t = Some (True, t') \<and> live_table t' k slots' \<and>
    slots_map slots' = slots_map slots ++ slots_map old \<and>
    vcount t' = vcount t + length (filter in_use old)"
  using assms
proof (induction old arbitrary: t slots)
  case Nil
  then show ?case by (auto simp: slots_map_def key_slot_def map_add_def fun_eq_iff)
next
  case (Cons s old)
  show ?case
  proof (cases "in_use s")
    case False
    then have "slots_map (s # old) = slots_map old" by (auto simp: slots_map_def key_slot_def vkey_def)
    then show ?thesis using Cons.IH [OF Cons.prems(1)] Cons.prems(2-4) False by simp
  next
    case True
    obtain t1 slots1 where t1: "verify_table_insert_owned mem t (vname s) (vvalue s) = Some (True, t1)"
      "live_table t1 k slots1" "slots_map slots1 = (slots_map slots)(vname s \<mapsto> vvalue s)"
      "vcount t1 = vcount t + 1"
      using verify_insert_ok [OF Cons.prems(1), of mem "vname s" "vvalue s"] Cons.prems(3,4) True by auto
    have c: "vcapacity t1 = vcapacity t" using t1(2) Cons.prems(1) by (simp add: live_table_def)
    have d: "\<forall>u\<in>set old. in_use u \<longrightarrow> vname u \<noteq> vname s"
      using Cons.prems(2) True by (force simp: image_iff)
    obtain t2 slots2 where t2: "verify_rehash_loop mem old t1 = Some (True, t2)" "live_table t2 k slots2"
      "slots_map slots2 = slots_map slots1 ++ slots_map old" "vcount t2 = vcount t1 + length (filter in_use old)"
    proof -
      have "distinct (map vname (filter in_use old))" using Cons.prems(2) True by simp
      moreover have "\<forall>u\<in>set old. in_use u \<longrightarrow> slots_map slots1 (vname u) = None"
        using Cons.prems(3) d t1(3) by simp
      moreover have "vcount t1 + length (filter in_use old) \<le> vcapacity t1"
        using Cons.prems(4) True t1(4) c by simp
      ultimately show thesis using Cons.IH [OF t1(2)] that by blast
    qed
    have o: "slots_map old (vname s) = None"
      using d by (auto simp: slots_map_def key_slot_def find_None_iff vkey_def)
    have "slots_map (s # old) = (slots_map old)(vname s \<mapsto> vvalue s)"
      using True by (auto simp: slots_map_def key_slot_def vkey_def fun_eq_iff)
    then have "slots_map slots2 = slots_map slots ++ slots_map (s # old)"
      using t2(3) t1(3) o by (auto simp: map_add_def fun_eq_iff split: option.splits)
    then show ?thesis using t1 t2 True by auto
  qed
qed

lemma live_names_distinct:
  assumes "table_ok vkey verify_home slots"
  shows "distinct (map vname (filter in_use slots))" and "used vkey slots = length (filter in_use slots)"
proof -
  have f: "filter (\<lambda>s. vkey s \<noteq> None) slots = filter in_use slots"
    by (rule filter_cong) (auto simp: vkey_def)
  have "distinct (map vkey (filter in_use slots))"
    using used_card(3) [of vkey slots] assms f by (simp add: table_ok_def)
  moreover have "map vkey (filter in_use slots) = map Some (map vname (filter in_use slots))"
    by (auto simp: vkey_def)
  ultimately show "distinct (map vname (filter in_use slots))" by (auto simp: distinct_map inj_on_def)
  show "used vkey slots = length (filter in_use slots)" unfolding used_def f ..
qed

lemma verify_set_ok:
  assumes inv: "verify_inv t" and name: "name \<noteq> []" and mem: "\<forall>n. grants_slots mem n" "grants_copy mem name"
    and cap: "vcapacity t < 2 ^ 62"
  shows "\<exists>t'. verify_table_set mem t name v = Some (True, t') \<and> verify_inv t' \<and>
    verify_map t' = (verify_map t)(name \<mapsto> v) \<and>
    vcount t' = (if verify_map t name = None then (if vslots t = None then 0 else vcount t) + 1 else vcount t) \<and>
    vcapacity t' \<le> max (if vslots t = None then 64 else vcapacity t) (3 * ((if vslots t = None then 0 else vcount t) + 1))"
proof -
  define t1 where "t1 = snd (verify_table_init mem t)"
  have i: "verify_table_init mem t = (True, t1)" using mem(1)
    by (auto simp: t1_def verify_table_init_def split: option.splits)
  have "\<exists>k slots. live_table t1 k slots \<and> slots_map slots = verify_map t \<and> k < 62 \<and>
      vcount t1 * 100 < vcapacity t1 * 70 \<and> vcount t1 = (if vslots t = None then 0 else vcount t) \<and>
      vcapacity t1 = (if vslots t = None then 64 else vcapacity t)"
  proof (cases "vslots t")
    case None
    then have "t1 = t\<lparr>vslots := Some (replicate 64 zero_slot), vcapacity := 64, vcount := 0\<rparr>"
      using mem(1) by (simp add: t1_def verify_table_init_def)
    then show ?thesis using fresh_live [of 6 t1] None
      by (intro exI [of _ 6]) (auto simp: verify_map_def fun_eq_iff)
  next
    case (Some slots)
    then have "t1 = t" by (simp add: t1_def verify_table_init_def)
    moreover obtain k where "live_table t k slots" "vcount t * 100 < vcapacity t * 70"
      using inv Some by (auto simp: verify_inv_def live_table_def)
    moreover have "k < 62" using calculation(2) cap
      by (metis live_table_def nat_power_less_imp_less numeral_2_eq_2 zero_less_Suc)
    moreover have "slots_map slots = verify_map t" using Some by (auto simp: verify_map_def)
    moreover have "slots' = slots" if "live_table t k' slots'" for k' slots'
      using that Some by (simp add: live_table_def)
    ultimately show ?thesis using Some by (metis option.distinct(1))
  qed
  then obtain k slots where t1: "live_table t1 k slots" "slots_map slots = verify_map t" "k < 62"
    "vcount t1 * 100 < vcapacity t1 * 70" "vcount t1 = (if vslots t = None then 0 else vcount t)"
    "vcapacity t1 = (if vslots t = None then 64 else vcapacity t)" by blast
  have k6: "6 \<le> k" "vcapacity t1 = 2 ^ k" "vslots t1 = Some slots" "vcount t1 = used vkey slots"
    "table_ok vkey verify_home slots"
    using t1(1) by (simp_all add: live_table_def)
  have big: "(64::nat) \<le> 2 ^ k" using power_increasing [OF k6(1), of "2::nat"] by simp
  define r where "r = (if vcapacity t1 * 70 \<le> (vcount t1 + 1) * 100
      then verify_table_rehash mem t1 (vcapacity t1 * 2) else Some (True, t1))"
  have "\<exists>t2 k2 slots2. r = Some (True, t2) \<and> live_table t2 k2 slots2 \<and> slots_map slots2 = verify_map t \<and>
      (vcount t2 + 1) * 100 < vcapacity t2 * 70 \<and> vcount t2 = vcount t1 \<and>
      vcapacity t2 \<le> max (vcapacity t1) (3 * (vcount t1 + 1))"
  proof (cases "vcapacity t1 * 70 \<le> (vcount t1 + 1) * 100")
    case False
    then show ?thesis using t1 by (auto simp: r_def)
  next
    case True
    let ?f = "t1\<lparr>vslots := Some (replicate (2 ^ Suc k) zero_slot), vcapacity := 2 ^ Suc k, vcount := 0\<rparr>"
    have fl: "live_table ?f (Suc k) (replicate (2 ^ Suc k) zero_slot)"
      and fm: "\<And>n. slots_map (replicate (2 ^ Suc k) zero_slot) n = None"
      using fresh_live [of "Suc k" ?f] k6(1) t1(3) by simp_all
    note ln = live_names_distinct [OF k6(5)]
    have "length (filter in_use slots) \<le> 2 ^ k" using t1(4) k6 ln(2) by simp
    then obtain t2 slots2 where t2: "verify_rehash_loop mem slots ?f = Some (True, t2)" "live_table t2 (Suc k) slots2"
      "slots_map slots2 = slots_map (replicate (2 ^ Suc k) zero_slot) ++ slots_map slots"
      "vcount t2 = length (filter in_use slots)"
      using verify_rehash_loop_ok [OF fl ln(1), of mem] fm by auto
    have "r = Some (True, t2)"
      using True mem(1) k6(2,3) t2(1) by (simp add: r_def verify_table_rehash_def mult.commute)
    moreover have "slots_map slots2 = verify_map t"
      using t2(3) fm t1(2) by (auto simp: map_add_def fun_eq_iff split: option.splits)
    moreover have "vcapacity t2 = 2 ^ Suc k" using t2(2) by (simp add: live_table_def)
    moreover have "vcapacity t2 \<le> max (vcapacity t1) (3 * (vcount t1 + 1))"
      using True k6(2) calculation(3) by simp
    moreover have "(vcount t2 + 1) * 100 < 2 ^ Suc k * 70" using t1(4) t2(4) ln(2) k6 big by simp
    ultimately show ?thesis using t2(2,4) ln(2) k6(4)
      by (intro exI [of _ t2] exI [of _ "Suc k"] exI [of _ slots2]) simp
  qed
  then obtain t2 k2 slots2 where t2: "r = Some (True, t2)" "live_table t2 k2 slots2"
    "slots_map slots2 = verify_map t" "(vcount t2 + 1) * 100 < vcapacity t2 * 70" "vcount t2 = vcount t1"
    "vcapacity t2 \<le> max (vcapacity t1) (3 * (vcount t1 + 1))" by blast
  obtain t' slots' where t': "verify_table_insert_owned mem t2 name v = Some (True, t')" "live_table t' k2 slots'"
    "slots_map slots' = (slots_map slots2)(name \<mapsto> v)"
    "vcount t' = (if slots_map slots2 name = None then vcount t2 + 1 else vcount t2)"
    using verify_insert_ok [OF t2(2), of mem name v] t2(4) by auto
  have "verify_table_set mem t name v = Some (True, t')"
    unfolding verify_table_set_def i prod.case bool.case r_def [symmetric] t2(1) option.case
    using name mem(2) t'(1) by simp
  moreover have c: "vcapacity t' = vcapacity t2" using t'(2) t2(2) by (simp add: live_table_def)
  then have "verify_inv t'" using t' t2(4) by (auto simp: verify_inv_def)
  moreover have "verify_map t' = (verify_map t)(name \<mapsto> v)"
  proof -
    have "vslots t' = Some slots'" using t'(2) by (simp add: live_table_def)
    then have "verify_map t' = slots_map slots'" by (simp add: verify_map_def fun_eq_iff)
    then show ?thesis using t'(3) t2(3) by simp
  qed
  moreover have "vslots t = None \<Longrightarrow> verify_map t name = None" by (simp add: verify_map_def)
  ultimately show ?thesis using t'(4) t2(3,5,6) t1(5,6) c by auto
qed

lemma verify_get_ok:
  assumes "verify_inv t" and "name \<noteq> []"
  shows "verify_table_get t name = verify_map t name"
proof (cases "vslots t")
  case (Some slots)
  then obtain k where l: "live_table t k slots" using assms(1) by (auto simp: verify_inv_def live_table_def)
  then have t: "vcapacity t = length slots" "length slots = 2 ^ k" "k < 64" "table_ok vkey verify_home slots"
    by (simp_all add: live_table_def)
  let ?p = "probe (stops_at vkey slots name) (length slots) (verify_home name (length slots))"
  have "verify_table_get t name = (case ?p of None \<Rightarrow> None
      | Some i \<Rightarrow> if in_use (slots ! i) then Some (vvalue (slots ! i)) else None)"
    unfolding verify_table_get_def Some option.case t(1) stop_eq t(2) masked_probe_eq [OF t(3)]
    using assms(2) by simp
  then show ?thesis using vtab.probe_search [OF t(4), of name] Some
    by (auto simp: verify_map_def slots_map_def vkey_def split: option.splits if_splits)
qed (simp add: verify_table_get_def verify_map_def)

end
