(* ===== verification/VerifyAssert.thy ===== *)
theory VerifyAssert imports VerifyTable begin

text \<open>
  The assertion language of \<^verbatim>\<open>src/wmm-runtime/assert.c\<close>: boolean expressions over the stored
  variables, evaluated while they are parsed by recursive descent. A parser state is the rest of
  the input; an error carries the code's message. The mutually recursive functions take fuel,
  and \<open>verify_eval_expr\<close> gives enough of it: running out (\<open>NoFuel\<close>) never happens.
\<close>

section \<open>Lexical level\<close>

datatype verify_error =
  EmptyExpression | TrailingToken | MissingParen | IdentTooLong | Expected | UnknownVar | NoFuel

type_synonym 'a parsed = "verify_error + 'a \<times> string"

definition isspace :: "char \<Rightarrow> bool" where
  "isspace c = (let n = (of_char c :: nat) in n = 32 \<or> (9 \<le> n \<and> n \<le> 13))"

definition isalpha :: "char \<Rightarrow> bool" where
  "isalpha c = (let n = (of_char c :: nat) in (65 \<le> n \<and> n \<le> 90) \<or> (97 \<le> n \<and> n \<le> 122))"

definition isalnum :: "char \<Rightarrow> bool" where
  "isalnum c = (let n = (of_char c :: nat) in isalpha c \<or> (48 \<le> n \<and> n \<le> 57))"

abbreviation ident_start :: "char \<Rightarrow> bool" where
  "ident_start c \<equiv> isalpha c \<or> c = CHR ''_''"

abbreviation ident_char :: "char \<Rightarrow> bool" where
  "ident_char c \<equiv> isalnum c \<or> c = CHR ''_''"

definition verify_skip_ws :: "string \<Rightarrow> string" where
  "verify_skip_ws s = dropWhile isspace s"

text \<open>The copying loop into a buffer of \<open>cap\<close> bytes; \<open>written\<close> is the part copied so far.\<close>

fun ident_loop :: "nat \<Rightarrow> string \<Rightarrow> string \<Rightarrow> string parsed" where
  "ident_loop cap written [] = Inr (written, [])"
| "ident_loop cap written (ch # s) =
     (if \<not> ident_char ch then Inr (written, ch # s)
      else if cap \<le> length written + 1 then Inl IdentTooLong
      else ident_loop cap (written @ [ch]) s)"

definition verify_parse_ident :: "string \<Rightarrow> string parsed" where
  "verify_parse_ident s =
     (case s of [] \<Rightarrow> Inl Expected
      | c # _ \<Rightarrow> if ident_start c then ident_loop 256 [] s else Inl Expected)"

section \<open>Recursive descent\<close>

text \<open>The branches of \<open>verify_parse_primary\<close> that do not recurse.\<close>

definition verify_parse_name :: "(string \<Rightarrow> bool option) \<Rightarrow> string \<Rightarrow> bool parsed" where
  "verify_parse_name lookup s =
     (case verify_parse_ident s of
        Inl e \<Rightarrow> Inl e
      | Inr (name, rest) \<Rightarrow>
          (if name = ''true'' then Inr (True, rest)
           else if name = ''false'' then Inr (False, rest)
           else case lookup name of None \<Rightarrow> Inl UnknownVar | Some v \<Rightarrow> Inr (v, rest)))"

function (sequential) verify_parse_primary :: "(string \<Rightarrow> bool option) \<Rightarrow> nat \<Rightarrow> string \<Rightarrow> bool parsed"
  and verify_parse_unary :: "(string \<Rightarrow> bool option) \<Rightarrow> nat \<Rightarrow> string \<Rightarrow> bool parsed"
  and verify_parse_and :: "(string \<Rightarrow> bool option) \<Rightarrow> nat \<Rightarrow> string \<Rightarrow> bool parsed"
  and verify_and_loop :: "(string \<Rightarrow> bool option) \<Rightarrow> nat \<Rightarrow> bool \<Rightarrow> string \<Rightarrow> bool parsed"
  and verify_parse_or :: "(string \<Rightarrow> bool option) \<Rightarrow> nat \<Rightarrow> string \<Rightarrow> bool parsed"
  and verify_or_loop :: "(string \<Rightarrow> bool option) \<Rightarrow> nat \<Rightarrow> bool \<Rightarrow> string \<Rightarrow> bool parsed"
where
  "verify_parse_primary lookup 0 s = Inl NoFuel"
| "verify_parse_primary lookup (Suc n) s =
     (case verify_skip_ws s of
        [] \<Rightarrow> verify_parse_name lookup []
      | c # s1 \<Rightarrow>
          (if c = CHR ''('' then
             (case verify_parse_or lookup n s1 of
                Inl e \<Rightarrow> Inl e
              | Inr (v, s2) \<Rightarrow>
                  (case verify_skip_ws s2 of
                     [] \<Rightarrow> Inl MissingParen
                   | d # s3 \<Rightarrow> if d \<noteq> CHR '')'' then Inl MissingParen else Inr (v, s3)))
           else if c = CHR ''0'' then Inr (False, s1)
           else if c = CHR ''1'' then Inr (True, s1)
           else verify_parse_name lookup (c # s1)))"
| "verify_parse_unary lookup 0 s = Inl NoFuel"
| "verify_parse_unary lookup (Suc n) s =
     (case verify_skip_ws s of
        [] \<Rightarrow> verify_parse_primary lookup n []
      | c # s1 \<Rightarrow>
          (if c = CHR ''!'' then
             (case verify_parse_unary lookup n s1 of
                Inl e \<Rightarrow> Inl e | Inr (v, s2) \<Rightarrow> Inr (\<not> v, s2))
           else verify_parse_primary lookup n (c # s1)))"
| "verify_parse_and lookup 0 s = Inl NoFuel"
| "verify_parse_and lookup (Suc n) s =
     (case verify_parse_unary lookup n s of
        Inl e \<Rightarrow> Inl e | Inr (lhs, s1) \<Rightarrow> verify_and_loop lookup n lhs s1)"
| "verify_and_loop lookup 0 lhs s = Inl NoFuel"
| "verify_and_loop lookup (Suc n) lhs s =
     (case verify_skip_ws s of
        [] \<Rightarrow> Inr (lhs, [])
      | c # s1 \<Rightarrow>
          (if c \<noteq> CHR ''&'' then Inr (lhs, c # s1)
           else (case verify_parse_unary lookup n s1 of
                   Inl e \<Rightarrow> Inl e | Inr (rhs, s2) \<Rightarrow> verify_and_loop lookup n (lhs \<and> rhs) s2)))"
| "verify_parse_or lookup 0 s = Inl NoFuel"
| "verify_parse_or lookup (Suc n) s =
     (case verify_parse_and lookup n s of
        Inl e \<Rightarrow> Inl e | Inr (lhs, s1) \<Rightarrow> verify_or_loop lookup n lhs s1)"
| "verify_or_loop lookup 0 lhs s = Inl NoFuel"
| "verify_or_loop lookup (Suc n) lhs s =
     (case verify_skip_ws s of
        [] \<Rightarrow> Inr (lhs, [])
      | c # s1 \<Rightarrow>
          (if c \<noteq> CHR ''|'' then Inr (lhs, c # s1)
           else (case verify_parse_and lookup n s1 of
                   Inl e \<Rightarrow> Inl e | Inr (rhs, s2) \<Rightarrow> verify_or_loop lookup n (lhs \<or> rhs) s2)))"
  by pat_completeness auto
termination
  by (relation "measure (\<lambda>x. case x of
      Inl (Inl (l, n, s)) \<Rightarrow> n | Inl (Inr (Inl (l, n, s))) \<Rightarrow> n | Inl (Inr (Inr (l, n, s))) \<Rightarrow> n
    | Inr (Inl (l, n, b, s)) \<Rightarrow> n | Inr (Inr (Inl (l, n, s))) \<Rightarrow> n | Inr (Inr (Inr (l, n, b, s))) \<Rightarrow> n)") auto

definition verify_eval_expr :: "(string \<Rightarrow> bool option) \<Rightarrow> string option \<Rightarrow> verify_error + bool" where
  "verify_eval_expr lookup expr =
     (case expr of None \<Rightarrow> Inl EmptyExpression
      | Some s \<Rightarrow>
          (if s = [] then Inl EmptyExpression
           else case verify_parse_or lookup (4 * length s + 4) s of
             Inl e \<Rightarrow> Inl e
           | Inr (v, rest) \<Rightarrow> (if verify_skip_ws rest \<noteq> [] then Inl TrailingToken else Inr v)))"

text \<open>The entry points; \<open>None\<close> is \<open>abort\<close> (or an insertion that does not return).\<close>

definition VERIFY_STORE_VAR :: "memory \<Rightarrow> string option \<Rightarrow> bool \<Rightarrow> verify_table \<Rightarrow> verify_table option" where
  "VERIFY_STORE_VAR mem name v t =
     (case name of None \<Rightarrow> None
      | Some n \<Rightarrow>
          (if n = [] then None
           else case verify_table_set mem t n v of
             Some (True, t') \<Rightarrow> Some t' | _ \<Rightarrow> None))"

definition VERIFY_ASSERT :: "verify_table \<Rightarrow> string option \<Rightarrow> bool option" where
  "VERIFY_ASSERT t expr =
     (case verify_eval_expr (verify_table_get t) expr of
        Inl e \<Rightarrow> None | Inr v \<Rightarrow> if v then Some True else None)"

section \<open>The fuel is enough\<close>

lemma skip_ws_length: "length (verify_skip_ws s) \<le> length s"
  unfolding verify_skip_ws_def by (rule length_dropWhile_le)

lemma skip_ws_Cons: "verify_skip_ws s = c # s1 \<Longrightarrow> length s1 < length s"
  using skip_ws_length [of s] by simp

lemma ident_loop_rest: "ident_loop cap w s = Inr (name, rest) \<Longrightarrow> length rest \<le> length s"
  by (induction cap w s rule: ident_loop.induct) (auto split: if_splits)

lemma ident_loop_fuel: "ident_loop cap w s \<noteq> Inl NoFuel"
  by (induction cap w s rule: ident_loop.induct) auto

lemma parse_name_ok:
  "verify_parse_name lookup s \<noteq> Inl NoFuel"
  "verify_parse_name lookup s = Inr (v, rest) \<Longrightarrow> length rest \<le> length s"
  using ident_loop_fuel [of 256 "[]" s] ident_loop_rest [of 256 "[]" s]
  by (auto simp: verify_parse_name_def verify_parse_ident_def split: sum.splits prod.splits list.splits
      option.splits if_splits)

text \<open>A result that did not run out of fuel and leaves no more than it was given.\<close>

definition settled :: "bool parsed \<Rightarrow> nat \<Rightarrow> bool" where
  "settled r n \<longleftrightarrow> (case r of Inl e \<Rightarrow> e \<noteq> NoFuel | Inr (v, rest) \<Rightarrow> length rest \<le> n)"

lemma settled_bind:
  assumes "settled r n" and "\<And>v rest. r = Inr (v, rest) \<Longrightarrow> length rest \<le> n \<Longrightarrow> settled (f v rest) m"
  shows "settled (case r of Inl e \<Rightarrow> Inl e | Inr (v, rest) \<Rightarrow> f v rest) m"
  using assms by (auto simp: settled_def split: sum.splits)

lemma settled_mono: "settled r n \<Longrightarrow> n \<le> m \<Longrightarrow> settled r m"
  by (auto simp: settled_def split: sum.splits)

lemma settled_name: "length s \<le> n \<Longrightarrow> settled (verify_parse_name lookup s) n"
  using parse_name_ok [of lookup s] by (auto simp: settled_def split: sum.splits)

lemma fuel_enough:
  "(4 * length s + 1 \<le> n \<longrightarrow> settled (verify_parse_primary lookup n s) (length s)) \<and>
   (4 * length s + 2 \<le> n \<longrightarrow> settled (verify_parse_unary lookup n s) (length s)) \<and>
   (4 * length s + 3 \<le> n \<longrightarrow> settled (verify_parse_and lookup n s) (length s)) \<and>
   (\<forall>lhs. 4 * length s + 1 \<le> n \<longrightarrow> settled (verify_and_loop lookup n lhs s) (length s)) \<and>
   (4 * length s + 4 \<le> n \<longrightarrow> settled (verify_parse_or lookup n s) (length s)) \<and>
   (\<forall>lhs. 4 * length s + 1 \<le> n \<longrightarrow> settled (verify_or_loop lookup n lhs s) (length s))"
proof (induction n arbitrary: s)
  case (Suc n)
  have ih_p: "\<And>s. 4 * length s + 1 \<le> n \<Longrightarrow> settled (verify_parse_primary lookup n s) (length s)"
    and ih_u: "\<And>s. 4 * length s + 2 \<le> n \<Longrightarrow> settled (verify_parse_unary lookup n s) (length s)"
    and ih_a: "\<And>s. 4 * length s + 3 \<le> n \<Longrightarrow> settled (verify_parse_and lookup n s) (length s)"
    and ih_al: "\<And>s lhs. 4 * length s + 1 \<le> n \<Longrightarrow> settled (verify_and_loop lookup n lhs s) (length s)"
    and ih_o: "\<And>s. 4 * length s + 4 \<le> n \<Longrightarrow> settled (verify_parse_or lookup n s) (length s)"
    and ih_ol: "\<And>s lhs. 4 * length s + 1 \<le> n \<Longrightarrow> settled (verify_or_loop lookup n lhs s) (length s)"
    using Suc.IH by blast+
  have p: "settled (verify_parse_primary lookup (Suc n) s) (length s)" if f: "4 * length s + 1 \<le> Suc n"
  proof (cases "verify_skip_ws s")
    case Nil
    then show ?thesis by (simp add: settled_name)
  next
    case (Cons c s1)
    note l = skip_ws_Cons [OF Cons]
    have "settled (case verify_parse_or lookup n s1 of Inl e \<Rightarrow> Inl e
        | Inr (v, s2) \<Rightarrow> (case verify_skip_ws s2 of [] \<Rightarrow> Inl MissingParen
            | d # s3 \<Rightarrow> if d \<noteq> CHR '')'' then Inl MissingParen else Inr (v, s3))) (length s)"
    proof (rule settled_bind)
      show "settled (verify_parse_or lookup n s1) (length s1)" using f l by (intro ih_o) linarith
      fix v and s2 :: string assume "length s2 \<le> length s1"
      then show "settled (case verify_skip_ws s2 of [] \<Rightarrow> Inl MissingParen
            | d # s3 \<Rightarrow> if d \<noteq> CHR '')'' then Inl MissingParen else Inr (v, s3)) (length s)"
        using l skip_ws_Cons [of s2] by (fastforce simp: settled_def split: list.splits)
    qed
    moreover have "settled (Inr (b, s1)) (length s)" for b using l by (simp add: settled_def)
    moreover have "settled (verify_parse_name lookup (c # s1)) (length s)" using l by (intro settled_name) simp
    ultimately show ?thesis using Cons by simp
  qed
  have u: "settled (verify_parse_unary lookup (Suc n) s) (length s)" if f: "4 * length s + 2 \<le> Suc n"
  proof (cases "verify_skip_ws s")
    case Nil
    have "settled (verify_parse_primary lookup n []) (length s)"
      using ih_p [of "[]"] f by (auto intro: settled_mono)
    then show ?thesis using Nil by simp
  next
    case (Cons c s1)
    note l = skip_ws_Cons [OF Cons]
    have "settled (case verify_parse_unary lookup n s1 of Inl e \<Rightarrow> Inl e | Inr (v, s2) \<Rightarrow> Inr (\<not> v, s2)) (length s)"
    proof (rule settled_bind)
      show "settled (verify_parse_unary lookup n s1) (length s1)" using f l by (intro ih_u) linarith
    qed (use l in \<open>simp add: settled_def\<close>)
    moreover have "settled (verify_parse_primary lookup n (c # s1)) (length (c # s1))"
      using f l by (intro ih_p) simp
    then have "settled (verify_parse_primary lookup n (c # s1)) (length s)" by (rule settled_mono) (use l in simp)
    ultimately show ?thesis using Cons by simp
  qed
  have a: "settled (verify_parse_and lookup (Suc n) s) (length s)" if f: "4 * length s + 3 \<le> Suc n"
    unfolding verify_parse_and.simps
  proof (rule settled_bind)
    show "settled (verify_parse_unary lookup n s) (length s)" using f by (intro ih_u) simp
    fix v and rest :: string assume r: "length rest \<le> length s"
    then have "settled (verify_and_loop lookup n v rest) (length rest)" using f by (intro ih_al) simp
    then show "settled (verify_and_loop lookup n v rest) (length s)" using r by (rule settled_mono)
  qed
  have por: "settled (verify_parse_or lookup (Suc n) s) (length s)" if f: "4 * length s + 4 \<le> Suc n"
    unfolding verify_parse_or.simps
  proof (rule settled_bind)
    show "settled (verify_parse_and lookup n s) (length s)" using f by (intro ih_a) simp
    fix v and rest :: string assume r: "length rest \<le> length s"
    then have "settled (verify_or_loop lookup n v rest) (length rest)" using f by (intro ih_ol) simp
    then show "settled (verify_or_loop lookup n v rest) (length s)" using r by (rule settled_mono)
  qed
  have al: "settled (verify_and_loop lookup (Suc n) lhs s) (length s)" if f: "4 * length s + 1 \<le> Suc n" for lhs
  proof (cases "verify_skip_ws s")
    case (Cons c s1)
    note l = skip_ws_Cons [OF Cons]
    have "settled (case verify_parse_unary lookup n s1 of Inl e \<Rightarrow> Inl e
        | Inr (rhs, s2) \<Rightarrow> verify_and_loop lookup n (lhs \<and> rhs) s2) (length s)"
    proof (rule settled_bind)
      show "settled (verify_parse_unary lookup n s1) (length s1)" using f l by (intro ih_u) linarith
      fix v and rest :: string assume r: "length rest \<le> length s1"
      then have "settled (verify_and_loop lookup n (lhs \<and> v) rest) (length rest)" using f l by (intro ih_al) linarith
      then show "settled (verify_and_loop lookup n (lhs \<and> v) rest) (length s)" using r l by (auto intro: settled_mono)
    qed
    then show ?thesis using Cons l by (simp add: settled_def)
  qed (simp add: settled_def)
  have ol: "settled (verify_or_loop lookup (Suc n) lhs s) (length s)" if f: "4 * length s + 1 \<le> Suc n" for lhs
  proof (cases "verify_skip_ws s")
    case (Cons c s1)
    note l = skip_ws_Cons [OF Cons]
    have "settled (case verify_parse_and lookup n s1 of Inl e \<Rightarrow> Inl e
        | Inr (rhs, s2) \<Rightarrow> verify_or_loop lookup n (lhs \<or> rhs) s2) (length s)"
    proof (rule settled_bind)
      show "settled (verify_parse_and lookup n s1) (length s1)" using f l by (intro ih_a) linarith
      fix v and rest :: string assume r: "length rest \<le> length s1"
      then have "settled (verify_or_loop lookup n (lhs \<or> v) rest) (length rest)" using f l by (intro ih_ol) linarith
      then show "settled (verify_or_loop lookup n (lhs \<or> v) rest) (length s)" using r l by (auto intro: settled_mono)
    qed
    then show ?thesis using Cons l by (simp add: settled_def)
  qed (simp add: settled_def)
  show ?case using p u a al por ol by blast
qed simp

section \<open>Printing and reading back\<close>

datatype bexp = BConst bool | BVar string | BNot bexp | BAnd bexp bexp | BOr bexp bexp

fun beval :: "(string \<Rightarrow> bool) \<Rightarrow> bexp \<Rightarrow> bool" where
  "beval env (BConst b) = b"
| "beval env (BVar x) = env x"
| "beval env (BNot a) = (\<not> beval env a)"
| "beval env (BAnd a b) = (beval env a \<and> beval env b)"
| "beval env (BOr a b) = (beval env a \<or> beval env b)"

fun bvars :: "bexp \<Rightarrow> string set" where
  "bvars (BConst b) = {}"
| "bvars (BVar x) = {x}"
| "bvars (BNot a) = bvars a"
| "bvars (BAnd a b) = bvars a \<union> bvars b"
| "bvars (BOr a b) = bvars a \<union> bvars b"

definition parens :: "bool \<Rightarrow> string \<Rightarrow> string" where
  "parens c s = (if c then CHR ''('' # s @ '')'' else s)"

text \<open>The text of an expression in a context of precedence 0 (or), 1 (and) or 2 (unary).\<close>

fun bprint :: "nat \<Rightarrow> bexp \<Rightarrow> string" where
  "bprint l (BConst b) = (if b then ''1'' else ''0'')"
| "bprint l (BVar x) = x"
| "bprint l (BNot a) = CHR ''!'' # bprint 2 a"
| "bprint l (BAnd a b) = parens (1 < l) (bprint 1 a @ CHR ''&'' # bprint 2 b)"
| "bprint l (BOr a b) = parens (0 < l) (bprint 0 a @ CHR ''|'' # bprint 1 b)"

text \<open>A name the lexer reads as one variable.\<close>

definition valid_name :: "string \<Rightarrow> bool" where
  "valid_name x \<longleftrightarrow> x \<noteq> [] \<and> ident_start (hd x) \<and> list_all ident_char x \<and> length x < 256 \<and>
     x \<noteq> ''true'' \<and> x \<noteq> ''false''"

text \<open>What may follow an expression in the text.\<close>

definition delimited :: "string \<Rightarrow> bool" where
  "delimited rest \<longleftrightarrow> rest = [] \<or> hd rest \<in> {CHR '')'', CHR ''&'', CHR ''|''}"

lemma delimited_chars: "delimited (CHR ''&'' # s)" "delimited (CHR ''|'' # s)" "delimited (CHR '')'' # s)" "delimited []"
  by (simp_all add: delimited_def)

lemma skip_ws_char [simp]: "\<not> isspace c \<Longrightarrow> verify_skip_ws (c # s) = c # s" "verify_skip_ws [] = []"
  by (simp_all add: verify_skip_ws_def)

lemma not_space [simp]:
  "\<not> isspace (CHR ''('')" "\<not> isspace (CHR '')'')" "\<not> isspace (CHR ''&'')" "\<not> isspace (CHR ''|'')"
  "\<not> isspace (CHR ''!'')" "\<not> isspace (CHR ''0'')" "\<not> isspace (CHR ''1'')" "\<not> isspace (CHR ''_'')"
  by (simp_all add: isspace_def)

lemma alpha_not_space: "isalpha c \<Longrightarrow> \<not> isspace c"
  by (auto simp: isalpha_def isspace_def Let_def)

lemma not_ident [simp]:
  "\<not> isalnum (CHR '')'')" "\<not> isalnum (CHR ''&'')" "\<not> isalnum (CHR ''|'')"
  "\<not> isalpha (CHR ''('')" "\<not> isalpha (CHR ''0'')" "\<not> isalpha (CHR ''1'')" "\<not> isalpha (CHR ''!'')"
  by (simp_all add: isalnum_def isalpha_def)

lemma skip_ws_delimited [simp]: "delimited rest \<Longrightarrow> verify_skip_ws rest = rest"
  by (cases rest) (auto simp: delimited_def)

lemma ident_loop_name:
  "list_all ident_char x \<Longrightarrow> length w + length x < cap \<Longrightarrow> delimited rest \<Longrightarrow>
    ident_loop cap w (x @ rest) = Inr (w @ x, rest)"
proof (induction x arbitrary: w)
  case Nil
  then show ?case by (cases rest) (auto simp: delimited_def)
qed simp

lemma parse_name_var:
  assumes "valid_name x" and "delimited rest" and "lookup x = Some v"
  shows "verify_parse_name lookup (x @ rest) = Inr (v, rest)"
proof -
  obtain c cs where x: "x = c # cs" using assms(1) by (cases x) (auto simp: valid_name_def)
  have "verify_parse_ident (x @ rest) = Inr (x, rest)"
    using assms ident_loop_name [of x "[]" 256 rest] by (simp add: verify_parse_ident_def valid_name_def x)
  then show ?thesis using assms by (simp add: verify_parse_name_def valid_name_def)
qed

text \<open>How many rounds of its loop an expression leaves its parser in.\<close>

fun and_spine :: "bexp \<Rightarrow> nat" where
  "and_spine (BAnd a b) = Suc (and_spine a)"
| "and_spine e = 1"

fun or_spine :: "bexp \<Rightarrow> nat" where
  "or_spine (BOr a b) = Suc (or_spine a)"
| "or_spine e = 1"

definition reads_unary :: "(string \<Rightarrow> bool option) \<Rightarrow> (string \<Rightarrow> bool) \<Rightarrow> bexp \<Rightarrow> bool" where
  "reads_unary lookup env e \<longleftrightarrow>
     (\<forall>n rest. 4 * length (bprint 2 e @ rest) + 2 \<le> n \<and> delimited rest \<longrightarrow>
       verify_parse_unary lookup n (bprint 2 e @ rest) = Inr (beval env e, rest))"

definition reads_and :: "(string \<Rightarrow> bool option) \<Rightarrow> (string \<Rightarrow> bool) \<Rightarrow> bexp \<Rightarrow> bool" where
  "reads_and lookup env e \<longleftrightarrow>
     (\<forall>n rest. 4 * length (bprint 1 e @ rest) + 3 \<le> n \<and> delimited rest \<longrightarrow>
       verify_parse_and lookup n (bprint 1 e @ rest) =
         verify_and_loop lookup (n - and_spine e) (beval env e) rest)"

definition no_amp :: "string \<Rightarrow> bool" where
  "no_amp rest \<longleftrightarrow> delimited rest \<and> (rest = [] \<or> hd rest \<noteq> CHR ''&'')"

definition reads_or :: "(string \<Rightarrow> bool option) \<Rightarrow> (string \<Rightarrow> bool) \<Rightarrow> bexp \<Rightarrow> bool" where
  "reads_or lookup env e \<longleftrightarrow>
     (\<forall>n rest. 4 * length (bprint 0 e @ rest) + 4 \<le> n \<and> no_amp rest \<longrightarrow>
       verify_parse_or lookup n (bprint 0 e @ rest) =
         verify_or_loop lookup (n - or_spine e) (beval env e) rest)"

lemma spine_le:
  "and_spine e \<le> Suc (length (bprint 1 e))" "or_spine e \<le> Suc (length (bprint 0 e))"
  by (induction e) (auto simp: parens_def)

lemma and_loop_ends: "no_amp rest \<Longrightarrow> 0 < n \<Longrightarrow> verify_and_loop lookup n v rest = Inr (v, rest)"
  by (cases n; cases rest) (auto simp: no_amp_def delimited_def)

lemma or_loop_ends:
  "rest = [] \<or> (\<exists>r. rest = CHR '')'' # r) \<Longrightarrow> 0 < n \<Longrightarrow> verify_or_loop lookup n v rest = Inr (v, rest)"
  by (cases n) auto

lemma reads_unaryD:
  "reads_unary lookup env e \<Longrightarrow> 4 * length (bprint 2 e @ rest) + 2 \<le> n \<Longrightarrow> delimited rest \<Longrightarrow>
    verify_parse_unary lookup n (bprint 2 e @ rest) = Inr (beval env e, rest)"
  unfolding reads_unary_def by blast

lemma reads_andD:
  "reads_and lookup env e \<Longrightarrow> 4 * length (bprint 1 e @ rest) + 3 \<le> n \<Longrightarrow> delimited rest \<Longrightarrow>
    verify_parse_and lookup n (bprint 1 e @ rest) = verify_and_loop lookup (n - and_spine e) (beval env e) rest"
  unfolding reads_and_def by blast

lemma reads_orD:
  "reads_or lookup env e \<Longrightarrow> 4 * length (bprint 0 e @ rest) + 4 \<le> n \<Longrightarrow> no_amp rest \<Longrightarrow>
    verify_parse_or lookup n (bprint 0 e @ rest) = verify_or_loop lookup (n - or_spine e) (beval env e) rest"
  unfolding reads_or_def by blast

lemma reads_and_unary:
  assumes "reads_unary lookup env e" and "bprint 1 e = bprint 2 e" and "and_spine e = 1"
  shows "reads_and lookup env e"
  unfolding reads_and_def
proof (intro allI impI)
  fix n rest
  assume h: "4 * length (bprint 1 e @ rest) + 3 \<le> n \<and> delimited rest"
  then obtain m where m: "n = Suc m" by (cases n) auto
  then have "verify_parse_unary lookup m (bprint 2 e @ rest) = Inr (beval env e, rest)"
    using assms(1,2) h unfolding reads_unary_def by simp
  then show "verify_parse_and lookup n (bprint 1 e @ rest) =
      verify_and_loop lookup (n - and_spine e) (beval env e) rest"
    using assms(2,3) m by simp
qed

lemma reads_or_and:
  assumes "reads_and lookup env e" and "bprint 0 e = bprint 1 e" and "or_spine e = 1"
  shows "reads_or lookup env e"
  unfolding reads_or_def
proof (intro allI impI)
  fix n rest
  assume h: "4 * length (bprint 0 e @ rest) + 4 \<le> n \<and> no_amp rest"
  then obtain m where m: "n = Suc m" by (cases n) auto
  have "verify_parse_and lookup m (bprint 1 e @ rest) =
      verify_and_loop lookup (m - and_spine e) (beval env e) rest"
    using assms(1,2) h m unfolding reads_and_def no_amp_def by simp
  also have "\<dots> = Inr (beval env e, rest)"
    using h m assms(2) spine_le(1) [of e] by (intro and_loop_ends) auto
  finally show "verify_parse_or lookup n (bprint 0 e @ rest) =
      verify_or_loop lookup (n - or_spine e) (beval env e) rest"
    using assms(2,3) m by simp
qed

lemma reads_unary_paren:
  assumes "reads_or lookup env e" and "bprint 2 e = CHR ''('' # bprint 0 e @ '')''"
  shows "reads_unary lookup env e"
  unfolding reads_unary_def
proof (intro allI impI)
  fix n rest
  assume h: "4 * length (bprint 2 e @ rest) + 2 \<le> n \<and> delimited rest"
  have l: "4 * length (bprint 0 e @ CHR '')'' # rest) + 6 \<le> n" using h assms(2) by simp
  define m where "m = n - 2"
  have m: "n = Suc (Suc m)" "4 * length (bprint 0 e @ CHR '')'' # rest) + 4 \<le> m" using l by (simp_all add: m_def)
  have "verify_parse_or lookup m (bprint 0 e @ CHR '')'' # rest) =
      verify_or_loop lookup (m - or_spine e) (beval env e) (CHR '')'' # rest)"
    using assms(1) m(2) unfolding reads_or_def by (simp add: no_amp_def delimited_def)
  also have "\<dots> = Inr (beval env e, CHR '')'' # rest)"
    using m(2) spine_le(2) [of e] by (intro or_loop_ends) auto
  finally show "verify_parse_unary lookup n (bprint 2 e @ rest) = Inr (beval env e, rest)"
    using assms(2) m(1) by simp
qed

lemma two_fuel:
  assumes "k + 2 \<le> (n::nat)"
  obtains m where "n = Suc (Suc m)"
  using assms by (cases n; cases "n - 1") auto

lemma reads_all:
  assumes "\<forall>x\<in>bvars e. valid_name x \<and> lookup x = Some (env x)"
  shows "reads_unary lookup env e \<and> reads_and lookup env e \<and> reads_or lookup env e"
  using assms
proof (induction e)
  case (BConst b)
  have "reads_unary lookup env (BConst b)"
    unfolding reads_unary_def
  proof (intro allI impI)
    fix n rest
    assume h: "4 * length (bprint 2 (BConst b) @ rest) + 2 \<le> n \<and> delimited rest"
    obtain m where m: "n = Suc (Suc m)" by (rule two_fuel [of "4 * length (bprint 2 (BConst b) @ rest)" n]) (use h in simp)
    show "verify_parse_unary lookup n (bprint 2 (BConst b) @ rest) = Inr (beval env (BConst b), rest)"
      by (cases b) (simp_all add: m)
  qed
  then show ?case using reads_and_unary reads_or_and by simp
next
  case (BVar x)
  have v: "valid_name x" "lookup x = Some (env x)" using BVar by auto
  obtain c cs where x: "x = c # cs" "ident_start c" using v(1) by (cases x) (auto simp: valid_name_def)
  have c: "\<not> isspace c" "c \<noteq> CHR ''!''" "c \<noteq> CHR ''(''" "c \<noteq> CHR ''0''" "c \<noteq> CHR ''1''"
    using x(2) alpha_not_space by auto
  have "reads_unary lookup env (BVar x)"
    unfolding reads_unary_def
  proof (intro allI impI)
    fix n rest
    assume h: "4 * length (bprint 2 (BVar x) @ rest) + 2 \<le> n \<and> delimited rest"
    obtain m where m: "n = Suc (Suc m)" by (rule two_fuel [of "4 * length (bprint 2 (BVar x) @ rest)" n]) (use h in simp)
    show "verify_parse_unary lookup n (bprint 2 (BVar x) @ rest) = Inr (beval env (BVar x), rest)"
      using parse_name_var [of x rest lookup "env x"] v h c by (simp add: m x(1))
  qed
  then show ?case using reads_and_unary reads_or_and by simp
next
  case (BNot a)
  then have ih: "reads_unary lookup env a" by simp
  have "reads_unary lookup env (BNot a)"
    unfolding reads_unary_def
  proof (intro allI impI)
    fix n rest
    assume h: "4 * length (bprint 2 (BNot a) @ rest) + 2 \<le> n \<and> delimited rest"
    then obtain m where m: "n = Suc m" by (cases n) auto
    then have "verify_parse_unary lookup m (bprint 2 a @ rest) = Inr (beval env a, rest)"
      using ih h unfolding reads_unary_def by simp
    then show "verify_parse_unary lookup n (bprint 2 (BNot a) @ rest) = Inr (beval env (BNot a), rest)"
      by (simp add: m)
  qed
  then show ?case using reads_and_unary reads_or_and by simp
next
  case (BAnd a b)
  then have ih: "reads_and lookup env a" "reads_unary lookup env b" by simp_all
  have "reads_and lookup env (BAnd a b)"
    unfolding reads_and_def
  proof (intro allI impI)
    fix n rest
    assume h: "4 * length (bprint 1 (BAnd a b) @ rest) + 3 \<le> n \<and> delimited rest"
    have l: "4 * length (bprint 1 a @ CHR ''&'' # bprint 2 b @ rest) + 3 \<le> n" using h by (simp add: parens_def)
    have e1: "verify_parse_and lookup n (bprint 1 a @ CHR ''&'' # bprint 2 b @ rest) =
        verify_and_loop lookup (n - and_spine a) (beval env a) (CHR ''&'' # bprint 2 b @ rest)"
      by (rule reads_andD [OF ih(1) l delimited_chars(1)])
    define m where "m = n - and_spine a - 1"
    have m3: "n - Suc (and_spine a) = m" by (simp add: m_def)
    have m: "n - and_spine a = Suc m" "4 * length (bprint 2 b @ rest) + 2 \<le> m"
      using l spine_le(1) [of a] by (simp_all add: m_def)
    have "verify_parse_unary lookup m (bprint 2 b @ rest) = Inr (beval env b, rest)"
      by (rule reads_unaryD [OF ih(2) m(2)]) (use h in simp)
    then show "verify_parse_and lookup n (bprint 1 (BAnd a b) @ rest) =
        verify_and_loop lookup (n - and_spine (BAnd a b)) (beval env (BAnd a b)) rest"
      using e1 by (simp add: parens_def m(1) m3)
  qed
  moreover then have "reads_or lookup env (BAnd a b)" by (rule reads_or_and) (simp_all add: parens_def)
  moreover then have "reads_unary lookup env (BAnd a b)" by (rule reads_unary_paren) (simp add: parens_def)
  ultimately show ?case by simp
next
  case (BOr a b)
  then have ih: "reads_or lookup env a" "reads_and lookup env b" by simp_all
  have "reads_or lookup env (BOr a b)"
    unfolding reads_or_def
  proof (intro allI impI)
    fix n rest
    assume h: "4 * length (bprint 0 (BOr a b) @ rest) + 4 \<le> n \<and> no_amp rest"
    have l: "4 * length (bprint 0 a @ CHR ''|'' # bprint 1 b @ rest) + 4 \<le> n" using h by (simp add: parens_def)
    have e1: "verify_parse_or lookup n (bprint 0 a @ CHR ''|'' # bprint 1 b @ rest) =
        verify_or_loop lookup (n - or_spine a) (beval env a) (CHR ''|'' # bprint 1 b @ rest)"
      by (rule reads_orD [OF ih(1) l]) (simp add: no_amp_def delimited_def)
    define m where "m = n - or_spine a - 1"
    have m3: "n - Suc (or_spine a) = m" by (simp add: m_def)
    have m: "n - or_spine a = Suc m" "4 * length (bprint 1 b @ rest) + 3 \<le> m"
      using l spine_le(2) [of a] by (simp_all add: m_def)
    have "verify_parse_and lookup m (bprint 1 b @ rest) =
        verify_and_loop lookup (m - and_spine b) (beval env b) rest"
      by (rule reads_andD [OF ih(2) m(2)]) (use h in \<open>simp add: no_amp_def\<close>)
    also have "\<dots> = Inr (beval env b, rest)"
      using h m(2) spine_le(1) [of b] by (intro and_loop_ends) auto
    finally show "verify_parse_or lookup n (bprint 0 (BOr a b) @ rest) =
        verify_or_loop lookup (n - or_spine (BOr a b)) (beval env (BOr a b)) rest"
      using e1 by (simp add: parens_def m(1) m3)
  qed
  moreover then have "reads_unary lookup env (BOr a b)" by (rule reads_unary_paren) (simp add: parens_def)
  moreover then have "reads_and lookup env (BOr a b)" by (rule reads_and_unary) (simp_all add: parens_def)
  ultimately show ?case by simp
qed

section \<open>Properties\<close>

lemma reads_back:
  assumes "\<forall>x\<in>bvars e. valid_name x \<and> lookup x = Some (env x)"
  shows "verify_eval_expr lookup (Some (bprint 0 e)) = Inr (beval env e)"
proof -
  let ?s = "bprint 0 e"
  have ne: "?s \<noteq> []"
  proof
    assume "?s = []"
    then obtain x where "e = BVar x" "x = []" by (cases e) (auto simp: parens_def split: if_splits)
    then show False using assms by (simp add: valid_name_def)
  qed
  have "verify_parse_or lookup (4 * length ?s + 4) (?s @ []) =
      verify_or_loop lookup (4 * length ?s + 4 - or_spine e) (beval env e) []"
    by (rule reads_orD) (use reads_all [OF assms] in \<open>simp_all add: no_amp_def delimited_def\<close>)
  also have "\<dots> = Inr (beval env e, [])"
    using spine_le(2) [of e] by (intro or_loop_ends) auto
  finally show ?thesis using ne by (simp add: verify_eval_expr_def)
qed

text \<open>
  C28. Reading back: the text of any boolean expression, with its binary operators at their
  precedences and parentheses only where they are needed, evaluates to the value of the
  expression, whatever the nesting, when every variable is a legal name with a stored value.
\<close>
theorem verify_eval_printed:
  assumes "\<forall>x\<in>bvars e. valid_name x \<and> lookup x = Some (env x)"
  shows "verify_eval_expr lookup (Some (bprint 0 e)) = Inr (beval env e)"
  using assms by (rule reads_back)

text \<open>
  C40. The recursive descent ends on every input: with four units of fuel per character (and four
  more) an evaluation of any text, in any table, never runs out of fuel.
\<close>
theorem verify_eval_returns: "verify_eval_expr lookup expr \<noteq> Inl NoFuel"
proof (cases expr)
  case (Some s)
  have "settled (verify_parse_or lookup (4 * length s + 4) s) (length s)"
    using fuel_enough [of s "4 * length s + 4" lookup] by simp
  then show ?thesis using Some by (auto simp: verify_eval_expr_def settled_def split: sum.splits)
qed (simp add: verify_eval_expr_def)

text \<open>Stores in the order they are made.\<close>

fun store_all :: "memory \<Rightarrow> (string \<times> bool) list \<Rightarrow> verify_table \<Rightarrow> verify_table option" where
  "store_all mem [] t = Some t"
| "store_all mem ((n, v) # xs) t =
     (case VERIFY_STORE_VAR mem (Some n) v t of None \<Rightarrow> None | Some t' \<Rightarrow> store_all mem xs t')"

lemma store_ok:
  assumes "verify_inv t" and "n \<noteq> []" and "\<forall>k. grants_slots mem k" and "\<forall>x. grants_copy mem x"
    and "vcapacity t \<le> 64 + 3 * j" and "vcount t \<le> j" and "j < 2 ^ 60"
  shows "\<exists>t'. VERIFY_STORE_VAR mem (Some n) v t = Some t' \<and> verify_inv t' \<and>
    verify_map t' = (verify_map t)(n \<mapsto> v) \<and> vcapacity t' \<le> 64 + 3 * Suc j \<and> vcount t' \<le> Suc j"
proof -
  have "vcapacity t < 2 ^ 62" using assms(5,7) by simp
  then obtain t' where t': "verify_table_set mem t n v = Some (True, t')" "verify_inv t'"
    "verify_map t' = (verify_map t)(n \<mapsto> v)"
    "vcount t' = (if verify_map t n = None then (if vslots t = None then 0 else vcount t) + 1 else vcount t)"
    "vcapacity t' \<le> max (if vslots t = None then 64 else vcapacity t)
       (3 * ((if vslots t = None then 0 else vcount t) + 1))"
    using verify_set_ok [OF assms(1,2,3) assms(4) [rule_format]] by blast
  have "VERIFY_STORE_VAR mem (Some n) v t = Some t'" using assms(2) t'(1) by (simp add: VERIFY_STORE_VAR_def)
  moreover have "vcapacity t' \<le> 64 + 3 * Suc j" using t'(5) assms(5,6) by (simp split: if_splits)
  moreover have "vcount t' \<le> Suc j" using t'(4) assms(6) by (simp split: if_splits)
  ultimately show ?thesis using t'(2,3) by blast
qed

lemma store_all_ok:
  assumes "verify_inv t" and "\<forall>x\<in>set xs. fst x \<noteq> []" and mem: "\<forall>k. grants_slots mem k" "\<forall>x. grants_copy mem x"
    and "vcapacity t \<le> 64 + 3 * j" and "vcount t \<le> j" and "j + length xs < 2 ^ 60"
  shows "\<exists>t'. store_all mem xs t = Some t' \<and> verify_inv t' \<and> verify_map t' = verify_map t ++ map_of (rev xs)"
  using assms(1,2,5,6,7)
proof (induction xs arbitrary: t j)
  case (Cons x xs)
  obtain n v where x: "x = (n, v)" by (cases x)
  have n: "n \<noteq> []" and j: "j < 2 ^ 60" using Cons.prems(2,5) by (auto simp: x)
  obtain t1 where t1: "VERIFY_STORE_VAR mem (Some n) v t = Some t1" "verify_inv t1"
    "verify_map t1 = (verify_map t)(n \<mapsto> v)" "vcapacity t1 \<le> 64 + 3 * Suc j" "vcount t1 \<le> Suc j"
    using store_ok [OF Cons.prems(1) n mem Cons.prems(3,4) j] by blast
  have "\<forall>x\<in>set xs. fst x \<noteq> []" and "Suc j + length xs < 2 ^ 60" using Cons.prems(2,5) by simp_all
  then obtain t2 where t2: "store_all mem xs t1 = Some t2" "verify_inv t2" "verify_map t2 = verify_map t1 ++ map_of (rev xs)"
    using Cons.IH [OF t1(2) _ t1(4,5)] by blast
  have "store_all mem (x # xs) t = Some t2" using t1(1) t2(1) by (simp add: x)
  moreover have "verify_map t2 = verify_map t ++ map_of (rev (x # xs))"
    using t2(3) t1(3) by (simp add: x map_add_assoc [symmetric])
  ultimately show ?case using t2(2) by blast
qed simp

text \<open>
  C15. End to end: after any sequence of stores (as many as fit an address space, with memory
  available) no store has aborted, and the assertion of a printed expression over stored
  variables returns exactly when the expression is true under the value stored last for each
  variable; otherwise it aborts.
\<close>
theorem verify_assert_after_stores:
  assumes "\<forall>x\<in>set xs. fst x \<noteq> []" and "\<forall>k. grants_slots mem k" and "\<forall>x. grants_copy mem x"
    and "length xs < 2 ^ 60"
    and "\<forall>x\<in>bvars e. valid_name x \<and> map_of (rev xs) x = Some (env x)"
  shows "\<exists>t. store_all mem xs g_verify_vars = Some t \<and>
    VERIFY_ASSERT t (Some (bprint 0 e)) = (if beval env e then Some True else None)"
proof -
  have g: "verify_inv g_verify_vars" "verify_map g_verify_vars = Map.empty"
    by (simp_all add: g_verify_vars_def verify_inv_def verify_map_def fun_eq_iff)
  obtain t where t: "store_all mem xs g_verify_vars = Some t" "verify_inv t" "verify_map t = map_of (rev xs)"
    using store_all_ok [OF g(1) assms(1,2,3), of 0] assms(4) g(2) by (auto simp: g_verify_vars_def)
  have "verify_table_get t x = Some (env x)" if "x \<in> bvars e" for x
    using verify_get_ok [OF t(2), of x] t(3) assms(5) that by (auto simp: valid_name_def)
  then have "verify_eval_expr (verify_table_get t) (Some (bprint 0 e)) = Inr (beval env e)"
    using assms(5) reads_back [of e "verify_table_get t" env] by blast
  then show ?thesis using t(1) by (simp add: VERIFY_ASSERT_def)
qed

definition grants_all :: memory where
  "grants_all = \<lparr>grants_slots = (\<lambda>_. True), grants_copy = (\<lambda>_. True)\<rparr>"

theorem verify_eval_printed_witness:
  "verify_eval_expr (\<lambda>x. Some (x = ''a'')) (Some (bprint 0 (BAnd (BOr (BVar ''a'') (BVar ''b'')) (BNot (BVar ''c''))))) =
    Inr True"
  using verify_eval_printed [of "BAnd (BOr (BVar ''a'') (BVar ''b'')) (BNot (BVar ''c''))"
      "\<lambda>x. Some (x = ''a'')" "\<lambda>x. x = ''a''"]
  by (simp add: valid_name_def isalpha_def isalnum_def)

theorem verify_assert_after_stores_witness:
  "\<exists>t. store_all grants_all [(''a'', True), (''b'', True), (''b'', False)] g_verify_vars = Some t \<and>
    VERIFY_ASSERT t (Some (bprint 0 (BAnd (BVar ''a'') (BNot (BVar ''b''))))) = Some True"
  using verify_assert_after_stores [of "[(''a'', True), (''b'', True), (''b'', False)]" grants_all
      "BAnd (BVar ''a'') (BNot (BVar ''b''))" "\<lambda>x. x = ''a''"]
  by (simp add: valid_name_def isalpha_def isalnum_def grants_all_def)

end
