(* ===== verification/EventGraph.thy ===== *)
theory EventGraph imports LinearProbe begin

text \<open>
  The event graph of the runtime (\<^verbatim>\<open>src/wmm-runtime/eg.c\<close>, \<^verbatim>\<open>eg.h\<close>): an array of nodes, an
  array of reads-from edges, and a hash index from the dynamic key of a node (thread,
  instruction, visit) to its position in the array. The index is an array of positions with
  \<open>-1\<close> for free, probed with a mask, doubled at 70 percent; duplicate keys are allowed.
  A fatal error calls \<open>scheduler_terminate\<close>, which does not return: it is the outcome
  \<open>Exits\<close> with the exit status.
\<close>

section \<open>Outcomes\<close>

datatype 'a outcome = Returns 'a | Exits nat | Diverges

fun bind_outcome :: "'a outcome \<Rightarrow> ('a \<Rightarrow> 'b outcome) \<Rightarrow> 'b outcome" where
  "bind_outcome (Returns x) f = f x"
| "bind_outcome (Exits c) f = Exits c"
| "bind_outcome Diverges f = Diverges"

lemma bind_outcome_Returns [simp]:
  "bind_outcome r f = Returns y \<longleftrightarrow> (\<exists>x. r = Returns x \<and> f x = Returns y)"
  by (cases r) auto

text \<open>
  The statuses of a run that \<open>abort\<close> ends and of one that reads or writes through NULL, as a
  shell shows them, and, above every status, the outcome of behaviour that the code leaves undefined.
\<close>

definition ABORTED :: nat where "ABORTED = 134"
definition SEGFAULT :: nat where "SEGFAULT = 139"
definition UNDEFINED :: nat where "UNDEFINED = 256"

definition EXIT_EVENT_NOT_FOUND :: nat where "EXIT_EVENT_NOT_FOUND = 10"
definition EXIT_RF_TYPE_MISMATCH :: nat where "EXIT_RF_TYPE_MISMATCH = 12"
definition EXIT_INVALID_INPUT :: nat where "EXIT_INVALID_INPUT = EXIT_RF_TYPE_MISMATCH"

section \<open>Event types\<close>

definition EG_OP_READ :: s32 where "EG_OP_READ = 0"
definition EG_OP_WRITE :: s32 where "EG_OP_WRITE = 1"
definition EG_OP_RMW :: s32 where "EG_OP_RMW = 2"
definition EG_OP_FENCE :: s32 where "EG_OP_FENCE = 3"
definition EG_OP_CAS_SUCCESS :: s32 where "EG_OP_CAS_SUCCESS = 5"
definition EG_OP_CAS_FAIL :: s32 where "EG_OP_CAS_FAIL = 6"
definition EG_OP_CAS :: s32 where "EG_OP_CAS = 7"

lemmas eg_ops = EG_OP_READ_def EG_OP_WRITE_def EG_OP_RMW_def EG_OP_FENCE_def
  EG_OP_CAS_SUCCESS_def EG_OP_CAS_FAIL_def EG_OP_CAS_def

definition eg_is_read_like :: "s32 \<Rightarrow> bool" where
  "eg_is_read_like t \<longleftrightarrow>
     t = EG_OP_READ \<or> t = EG_OP_RMW \<or> t = EG_OP_CAS_SUCCESS \<or> t = EG_OP_CAS_FAIL"

definition eg_is_write_like :: "s32 \<Rightarrow> bool" where
  "eg_is_write_like t \<longleftrightarrow> t = EG_OP_WRITE \<or> t = EG_OP_RMW \<or> t = EG_OP_CAS_SUCCESS"

definition eg_is_rmw_like :: "s32 \<Rightarrow> bool" where
  "eg_is_rmw_like t \<longleftrightarrow> t = EG_OP_RMW \<or> t = EG_OP_CAS_SUCCESS"

definition eg_type_to_string :: "s32 \<Rightarrow> string" where
  "eg_type_to_string t =
     (if t = EG_OP_READ then ''R'' else if t = EG_OP_WRITE then ''W''
      else if t = EG_OP_FENCE then ''F'' else if t = EG_OP_RMW then ''RMW''
      else if t = EG_OP_CAS_SUCCESS then ''CAS_SUCCESS'' else if t = EG_OP_CAS_FAIL then ''CAS_FAIL''
      else if t = EG_OP_CAS then ''CAS'' else ''Unknown'')"

definition eg_string_to_type :: "string option \<Rightarrow> s32" where
  "eg_string_to_type str =
     (case str of None \<Rightarrow> - 1
      | Some s \<Rightarrow>
          (if s = ''R'' then EG_OP_READ else if s = ''W'' then EG_OP_WRITE
           else if s = ''F'' then EG_OP_FENCE else if s = ''RMW'' then EG_OP_RMW
           else if s = ''CAS_SUCCESS'' then EG_OP_CAS_SUCCESS else if s = ''CAS_FAIL'' then EG_OP_CAS_FAIL
           else if s = ''CAS'' then EG_OP_CAS else - 1))"

section \<open>State\<close>

text \<open>A C string is the list of its bytes before the terminator.\<close>

type_synonym cstring = "u8 list"

record eg_node =
  n_id :: u64
  n_tid :: u64
  n_iid :: s64
  n_loc_id :: u64
  n_vid :: s32
  n_type :: s32
  n_location :: cstring
  n_value :: s64

record eg_edge =
  src_id :: u64
  dst_id :: u64

text \<open>
  \<open>node_count\<close>, \<open>rf_count\<close> and \<open>hash_table_size\<close> are the lengths of their arrays.
\<close>

record eg_graph =
  eg_nodes :: "eg_node list"
  node_capacity :: nat
  rf_edges :: "eg_edge list"
  rf_capacity :: nat
  hash_table :: "int list"

text \<open>What the allocator grants: arrays of so many elements.\<close>

record eg_memory =
  grants_nodes :: "nat \<Rightarrow> bool"
  grants_edges :: "nat \<Rightarrow> bool"
  grants_table :: "nat \<Rightarrow> bool"

type_synonym dyn_key = "u64 \<times> s64 \<times> s32"

definition node_key :: "eg_node \<Rightarrow> dyn_key" where
  "node_key n = (n_tid n, n_iid n, n_vid n)"

section \<open>Operations\<close>

definition eg_create :: "eg_memory \<Rightarrow> eg_graph option" where
  "eg_create mem =
     (if grants_nodes mem 1024 \<and> grants_edges mem 1024 \<and> grants_table mem 1024
      then Some \<lparr>eg_nodes = [], node_capacity = 1024, rf_edges = [], rf_capacity = 1024,
                 hash_table = replicate 1024 (- 1)\<rparr>
      else None)"

definition hash_dynamic :: "dyn_key \<Rightarrow> u32 \<Rightarrow> u32" where
  "hash_dynamic k sz =
     (case k of (tid, iid, vid) \<Rightarrow>
        let h = tid XOR iid XOR scast vid;
            h = (NOT h) + push_bit 18 h;
            h = h XOR drop_bit 31 h;
            h = h * 2654435761;
            h = h XOR drop_bit 16 h
        in ucast (h AND ucast (sz - 1)))"

definition table_slot :: "int list \<Rightarrow> (nat \<Rightarrow> bool) \<Rightarrow> dyn_key \<Rightarrow> nat option" where
  "table_slot tbl stop k =
     masked_probe (length tbl) stop (of_nat (length tbl) - 1) (hash_dynamic k (of_nat (length tbl)))"

text \<open>The loop of a resize enters the nodes in the order of their positions.\<close>

fun rehash_nodes :: "int list \<Rightarrow> nat \<Rightarrow> eg_node list \<Rightarrow> int list option" where
  "rehash_nodes tbl i [] = Some tbl"
| "rehash_nodes tbl i (n # ns) =
     (case table_slot tbl (\<lambda>p. tbl ! p = - 1) (node_key n) of
        None \<Rightarrow> None
      | Some p \<Rightarrow> rehash_nodes (tbl[p := int i]) (Suc i) ns)"

definition eg_resize_hash_table :: "eg_memory \<Rightarrow> eg_graph \<Rightarrow> (bool \<times> eg_graph) outcome" where
  "eg_resize_hash_table mem g =
     (let new_size = length (hash_table g) * 2
      in if \<not> grants_table mem new_size then Returns (False, g)
         else case rehash_nodes (replicate new_size (- 1)) 0 (eg_nodes g) of
           None \<Rightarrow> Diverges
         | Some tbl \<Rightarrow> Returns (True, g\<lparr>hash_table := tbl\<rparr>))"

text \<open>
  \<open>eg_add_node\<close>: the four steps of the function. The bounded insertion loop stops after
  \<open>hash_table_size\<close> occupied slots, which is an error.
\<close>

definition eg_grow_nodes :: "eg_memory \<Rightarrow> eg_graph \<Rightarrow> eg_graph outcome" where
  "eg_grow_nodes mem g =
     (if node_capacity g \<le> length (eg_nodes g)
      then (if grants_nodes mem (node_capacity g * 2)
            then Returns (g\<lparr>node_capacity := node_capacity g * 2\<rparr>)
            else Exits EXIT_INVALID_INPUT)
      else Returns g)"

definition eg_grow_table :: "eg_memory \<Rightarrow> eg_graph \<Rightarrow> eg_graph outcome" where
  "eg_grow_table mem g =
     (if length (hash_table g) * 7 \<le> length (eg_nodes g) * 10
      then bind_outcome (eg_resize_hash_table mem g) (\<lambda>(_, g). Returns g)
      else Returns g)"

definition eg_enter_node :: "eg_graph \<Rightarrow> eg_node \<Rightarrow> eg_graph outcome" where
  "eg_enter_node g n =
     (let node_idx = length (eg_nodes g);
          g = g\<lparr>eg_nodes := eg_nodes g @ [n]\<rparr>
      in if length (hash_table g) \<le> length (eg_nodes g) then Exits EXIT_INVALID_INPUT
         else case table_slot (hash_table g) (\<lambda>p. hash_table g ! p = - 1) (node_key n) of
           None \<Rightarrow> Exits EXIT_INVALID_INPUT
         | Some p \<Rightarrow> Returns (g\<lparr>hash_table := (hash_table g)[p := int node_idx]\<rparr>))"

definition eg_add_node :: "eg_memory \<Rightarrow> eg_graph \<Rightarrow> u64 \<Rightarrow> dyn_key \<Rightarrow> u64 \<Rightarrow> s32 \<Rightarrow> cstring option \<Rightarrow> s64 \<Rightarrow>
    eg_graph outcome" where
  "eg_add_node mem g eid k loc_id ty loc val =
     (case k of (tid, iid, vid) \<Rightarrow>
        let n = \<lparr>n_id = eid, n_tid = tid, n_iid = iid, n_loc_id = loc_id, n_vid = vid, n_type = ty,
                 n_location = take 63 (case loc of None \<Rightarrow> [] | Some l \<Rightarrow> l), n_value = val\<rparr>
        in bind_outcome (eg_grow_nodes mem g)
             (\<lambda>g. bind_outcome (eg_grow_table mem g) (\<lambda>g. eg_enter_node g n)))"

text \<open>\<open>eg_add_edge_rf\<close>: the capacity is an \<open>int\<close>, whose doubling overflows from \<open>2 ^ 30\<close> on.\<close>

definition eg_add_edge_rf :: "eg_memory \<Rightarrow> eg_graph \<Rightarrow> u64 \<Rightarrow> u64 \<Rightarrow> eg_graph outcome" where
  "eg_add_edge_rf mem g write_id read_id =
     (let e = \<lparr>src_id = write_id, dst_id = read_id\<rparr>
      in if rf_capacity g \<le> length (rf_edges g)
         then (if 2 ^ 31 \<le> rf_capacity g * 2 then Exits UNDEFINED
               else if grants_edges mem (rf_capacity g * 2)
               then Returns (g\<lparr>rf_capacity := rf_capacity g * 2, rf_edges := rf_edges g @ [e]\<rparr>)
               else Exits EXIT_INVALID_INPUT)
         else Returns (g\<lparr>rf_edges := rf_edges g @ [e]\<rparr>))"

definition eg_find_node_by_id :: "eg_graph \<Rightarrow> u64 \<Rightarrow> eg_node option" where
  "eg_find_node_by_id g eid = find (\<lambda>n. n_id n = eid) (eg_nodes g)"

text \<open>
  The search loop has no bound: it ends at a free slot or at the key. The pointer it returns is
  the position of the node.
\<close>

definition eg_find_index :: "eg_graph \<Rightarrow> dyn_key \<Rightarrow> nat option outcome" where
  "eg_find_index g k =
     (let tbl = hash_table g
      in case table_slot tbl (\<lambda>p. tbl ! p = - 1 \<or> node_key (eg_nodes g ! nat (tbl ! p)) = k) k of
           None \<Rightarrow> Diverges
         | Some p \<Rightarrow> Returns (if tbl ! p = - 1 then None else Some (nat (tbl ! p))))"

definition eg_find_node_by_dynamic :: "eg_graph \<Rightarrow> dyn_key \<Rightarrow> eg_node option outcome" where
  "eg_find_node_by_dynamic g k =
     bind_outcome (eg_find_index g k) (\<lambda>i. Returns (map_option (\<lambda>i. eg_nodes g ! i) i))"

section \<open>The index finds the first node of a key\<close>

definition slot_key :: "int \<Rightarrow> int option" where
  "slot_key x = (if x = - 1 then None else Some x)"

definition home :: "dyn_key \<Rightarrow> nat \<Rightarrow> nat" where
  "home k sz = unat (hash_dynamic k (of_nat sz))"

text \<open>Probing for node \<open>i\<close> passes only slots of earlier nodes.\<close>

definition placed :: "int list \<Rightarrow> nat \<Rightarrow> dyn_key \<Rightarrow> bool" where
  "placed tbl i k \<longleftrightarrow>
     (\<exists>p. find (\<lambda>p. \<not> (0 \<le> tbl ! p \<and> tbl ! p < int i)) (probe_seq (length tbl) (home k (length tbl))) = Some p \<and>
       tbl ! p = int i)"

definition index_ok :: "eg_node list \<Rightarrow> int list \<Rightarrow> bool" where
  "index_ok ns tbl \<longleftrightarrow>
     (\<exists>j. length tbl = 2 ^ j \<and> j < 32) \<and> length ns < length tbl \<and> used slot_key tbl = length ns \<and>
     (\<forall>p<length tbl. tbl ! p = - 1 \<or> (0 \<le> tbl ! p \<and> tbl ! p < int (length ns))) \<and>
     (\<forall>i<length ns. placed tbl i (node_key (ns ! i)))"

definition graph_inv :: "eg_graph \<Rightarrow> bool" where
  "graph_inv g \<longleftrightarrow> index_ok (eg_nodes g) (hash_table g) \<and> 1024 \<le> length (hash_table g)"

lemma table_slot_find:
  assumes "length tbl = 2 ^ j" and "j < 32"
  shows "table_slot tbl stop k = find stop (probe_seq (length tbl) (home k (length tbl)))"
    and "home k (length tbl) < length tbl"
proof -
  obtain h :: u64 where h: "hash_dynamic k (of_nat (2 ^ j)) = ucast (h AND ucast (of_nat (2 ^ j) - 1 :: u32))"
    unfolding hash_dynamic_def Let_def by (cases k) auto
  have "(ucast (h AND ucast (of_nat (2 ^ j) - 1 :: u32)) :: u32) = ucast h AND (of_nat (2 ^ j) - 1)"
    by (rule bit_word_eqI) (auto simp: bit_simps)
  then have d: "hash_dynamic k (of_nat (2 ^ j)) = ucast h AND (of_nat (2 ^ j) - 1)" using h by simp
  have u: "unat (ucast h AND (of_nat (2 ^ j) - 1) :: u32) < 2 ^ j"
    using word_mask_mod [of j "ucast h :: u32"] assms(2) by simp
  then show less: "home k (length tbl) < length tbl" unfolding home_def assms(1) d .
  show "table_slot tbl stop k = find stop (probe_seq (length tbl) (home k (length tbl)))"
    using masked_probe_probe [of j stop "ucast h :: u32"] assms(2) probe_find [OF less, of stop]
    unfolding table_slot_def assms(1) d home_def by simp
qed

lemma placed_update:
  assumes "placed tbl i k" and "tbl ! q = - 1" and "q < length tbl" and "i \<noteq> m" and "i \<le> m"
  shows "placed (tbl[q := int m]) i k"
proof -
  let ?P = "\<lambda>t p. \<not> (0 \<le> t ! p \<and> t ! p < int i)"
  obtain p where p: "find (?P tbl) (probe_seq (length tbl) (home k (length tbl))) = Some p" "tbl ! p = int i"
    using assms(1) by (auto simp: placed_def)
  have "?P (tbl[q := int m]) = ?P tbl"
  proof (rule ext)
    fix x show "?P (tbl[q := int m]) x = ?P tbl x"
      using assms(2,3,5) by (cases "x = q") auto
  qed
  moreover have "tbl[q := int m] ! p = int i" using p(2) assms(2) by (cases "p = q") auto
  ultimately show ?thesis using p(1) by (simp add: placed_def)
qed

text \<open>Entering the next node into a free slot keeps the index.\<close>

lemma index_step:
  assumes ok: "index_ok ns tbl" and room: "Suc (length ns) < length tbl"
  shows "\<exists>p. table_slot tbl (\<lambda>p. tbl ! p = - 1) (node_key n) = Some p \<and>
    index_ok (ns @ [n]) (tbl[p := int (length ns)])"
proof -
  obtain j where j: "length tbl = 2 ^ j" "j < 32" using ok by (auto simp: index_ok_def)
  note ts = table_slot_find(1) [OF j, of _ "node_key n"] table_slot_find(2) [OF j, of "node_key n"]
  have range: "\<And>p. p < length tbl \<Longrightarrow> tbl ! p = - 1 \<or> (0 \<le> tbl ! p \<and> tbl ! p < int (length ns))"
    using ok by (simp add: index_ok_def)
  have "\<exists>p<length tbl. tbl ! p = - 1"
    using used_full [of tbl slot_key] ok room by (auto simp: index_ok_def slot_key_def split: if_splits)
  then obtain p where p: "table_slot tbl (\<lambda>p. tbl ! p = - 1) (node_key n) = Some p"
    using ts(1) probe_seq_set [OF ts(2)] by (cases "table_slot tbl (\<lambda>p. tbl ! p = - 1) (node_key n)")
      (auto simp: find_None_iff)
  have pl: "p < length tbl" "tbl ! p = - 1"
    using p ts(1) probe_seq_set [OF ts(2)] by (auto simp: find_Some_iff)
  let ?t = "tbl[p := int (length ns)]"
  have "find (\<lambda>q. \<not> (0 \<le> ?t ! q \<and> ?t ! q < int (length ns))) (probe_seq (length tbl) (home (node_key n) (length tbl)))
      = find (\<lambda>q. tbl ! q = - 1) (probe_seq (length tbl) (home (node_key n) (length tbl)))"
  proof (rule find_cong)
    fix q assume "q \<in> set (probe_seq (length tbl) (home (node_key n) (length tbl)))"
    then have "q < length tbl" using probe_seq_set [OF ts(2)] by auto
    then show "(\<not> (0 \<le> ?t ! q \<and> ?t ! q < int (length ns))) = (tbl ! q = - 1)"
      using range [of q] pl by (cases "q = p") auto
  qed simp
  then have new: "placed ?t (length ns) (node_key n)"
    using p ts(1) pl by (simp add: placed_def)
  have old: "placed ?t i (node_key (ns ! i))" if "i < length ns" for i
    using ok that pl by (intro placed_update) (auto simp: index_ok_def)
  have "used slot_key ?t = Suc (used slot_key tbl)"
    by (rule used_update_free) (use pl in \<open>auto simp: slot_key_def\<close>)
  moreover have "\<forall>q<length ?t. ?t ! q = - 1 \<or> (0 \<le> ?t ! q \<and> ?t ! q < int (length (ns @ [n])))"
    using range pl by (auto simp: nth_list_update) force
  moreover have "\<forall>i<length (ns @ [n]). placed ?t i (node_key ((ns @ [n]) ! i))"
    using new old by (auto simp: nth_append less_Suc_eq)
  ultimately have "index_ok (ns @ [n]) ?t" using ok room by (simp add: index_ok_def)
  then show ?thesis using p by blast
qed

lemma index_empty: "j < 32 \<Longrightarrow> index_ok [] (replicate (2 ^ j) (- 1))"
  by (auto simp: index_ok_def used_def slot_key_def)

lemma rehash_ok:
  assumes "index_ok ns tbl" and "length ns + length ms < length tbl"
  shows "\<exists>tbl'. rehash_nodes tbl (length ns) ms = Some tbl' \<and> length tbl' = length tbl \<and> index_ok (ns @ ms) tbl'"
  using assms
proof (induction ms arbitrary: ns tbl)
  case (Cons n ms)
  have "Suc (length ns) < length tbl" using Cons.prems(2) by simp
  then obtain p where p: "table_slot tbl (\<lambda>p. tbl ! p = - 1) (node_key n) = Some p"
    "index_ok (ns @ [n]) (tbl[p := int (length ns)])"
    using index_step [OF Cons.prems(1)] by blast
  show ?case using Cons.IH [OF p(2)] Cons.prems(2) p(1) by simp
qed simp

text \<open>
  The search ends, and finds what a scan of the array from its beginning finds: of several
  nodes of one key, the one added first.
\<close>

lemma find_index_first:
  assumes "graph_inv g"
  shows "eg_find_index g k = Returns (find (\<lambda>i. node_key (eg_nodes g ! i) = k) [0..<length (eg_nodes g)])"
proof -
  let ?ns = "eg_nodes g" and ?t = "hash_table g"
  have ok: "index_ok ?ns ?t" using assms by (simp add: graph_inv_def)
  then obtain j where j: "length ?t = 2 ^ j" "j < 32" by (auto simp: index_ok_def)
  let ?seq = "probe_seq (length ?t) (home k (length ?t))"
  let ?S = "\<lambda>p. ?t ! p = - 1 \<or> node_key (?ns ! nat (?t ! p)) = k"
  note ts = table_slot_find(1) [OF j, of _ k] table_slot_find(2) [OF j, of k]
  have range: "\<And>p. p < length ?t \<Longrightarrow> ?t ! p = - 1 \<or> (0 \<le> ?t ! p \<and> ?t ! p < int (length ?ns))"
    using ok by (simp add: index_ok_def)
  have inseq: "\<And>p. p \<in> set ?seq \<longleftrightarrow> p < length ?t" using probe_seq_set [OF ts(2)] by auto
  show ?thesis
  proof (cases "find (\<lambda>i. node_key (?ns ! i) = k) [0..<length ?ns]")
    case None
    then have no: "\<And>i. i < length ?ns \<Longrightarrow> node_key (?ns ! i) \<noteq> k" by (auto simp: find_None_iff)
    have "\<exists>p<length ?t. ?t ! p = - 1"
      using used_full [of ?t slot_key] ok by (auto simp: index_ok_def slot_key_def split: if_splits)
    then obtain p where p: "find ?S ?seq = Some p" using inseq by (cases "find ?S ?seq") (auto simp: find_None_iff)
    then have "p < length ?t" "?S p" by (auto simp: find_Some_iff inseq [symmetric])
    then have "?t ! p = - 1" using range [of p] no [of "nat (?t ! p)"] by (auto simp: nat_less_iff)
    then show ?thesis using p None by (simp add: eg_find_index_def Let_def ts(1))
  next
    case (Some i)
    then have i: "i < length ?ns" "node_key (?ns ! i) = k"
      "\<And>m. m < i \<Longrightarrow> node_key (?ns ! m) \<noteq> k" by (auto simp: find_Some_iff)
    let ?E = "\<lambda>p. \<not> (0 \<le> ?t ! p \<and> ?t ! p < int i)"
    obtain p where p: "find ?E ?seq = Some p" "?t ! p = int i"
      using ok i(1,2) by (auto simp: index_ok_def placed_def)
    obtain d where d: "d < length ?seq" "?seq ! d = p" "\<And>e. e < d \<Longrightarrow> \<not> ?E (?seq ! e)"
      using p(1) by (auto simp: find_Some_iff)
    have "find ?S ?seq = Some p"
      unfolding find_Some_iff
    proof (intro exI [of _ d] conjI allI impI)
      show "?S (?seq ! d)" using d(2) p(2) i(2) by simp
      fix e assume "e < d"
      then have "0 \<le> ?t ! (?seq ! e)" "?t ! (?seq ! e) < int i" using d(3) by auto
      then have "0 \<le> ?t ! (?seq ! e)" "nat (?t ! (?seq ! e)) < i" by linarith+
      then show "\<not> ?S (?seq ! e)" using i(3) by auto
    qed (use d in auto)
    then show ?thesis using p(2) Some by (simp add: eg_find_index_def Let_def ts(1))
  qed
qed

lemma find_by_position: "find P xs = map_option (nth xs) (find (\<lambda>i. P (xs ! i)) [0..<length xs])"
proof (induction xs)
  case (Cons x xs)
  have "[0..<length (x # xs)] = 0 # map Suc [0..<length xs]"
    by (simp add: map_Suc_upt upt_conv_Cons del: upt_Suc)
  moreover have "find (\<lambda>i. P ((x # xs) ! i)) (map Suc js) = map_option Suc (find (\<lambda>i. P (xs ! i)) js)" for js
    by (induction js) auto
  ultimately show ?case using Cons by (simp add: option.map_comp comp_def)
qed simp

lemma find_dynamic_first:
  "graph_inv g \<Longrightarrow> eg_find_node_by_dynamic g k = Returns (find (\<lambda>n. node_key n = k) (eg_nodes g))"
  by (simp add: eg_find_node_by_dynamic_def find_index_first find_by_position [of _ "eg_nodes g"])

section \<open>Adding a node\<close>

text \<open>The arguments of one call of \<open>eg_add_node\<close>, and the node it stores.\<close>

type_synonym add_call = "u64 \<times> dyn_key \<times> u64 \<times> s32 \<times> cstring option \<times> s64"

fun new_node :: "add_call \<Rightarrow> eg_node" where
  "new_node (eid, (tid, iid, vid), loc_id, ty, loc, val) =
     \<lparr>n_id = eid, n_tid = tid, n_iid = iid, n_loc_id = loc_id, n_vid = vid, n_type = ty,
      n_location = take 63 (case loc of None \<Rightarrow> [] | Some l \<Rightarrow> l), n_value = val\<rparr>"

fun add_call :: "eg_memory \<Rightarrow> eg_graph \<Rightarrow> add_call \<Rightarrow> eg_graph outcome" where
  "add_call mem g (eid, k, loc_id, ty, loc, val) = eg_add_node mem g eid k loc_id ty loc val"

definition grants_all :: "eg_memory \<Rightarrow> bool" where
  "grants_all mem \<longleftrightarrow> (\<forall>n. grants_nodes mem n) \<and> (\<forall>n. grants_edges mem n) \<and> (\<forall>n. grants_table mem n)"

lemma add_call_unfold:
  "add_call mem g c = bind_outcome (eg_grow_nodes mem g)
     (\<lambda>g. bind_outcome (eg_grow_table mem g) (\<lambda>g. eg_enter_node g (new_node c)))"
  by (cases c) (auto simp: eg_add_node_def Let_def split: prod.splits)

lemma grow_table_ok:
  assumes "graph_inv g" and "length (eg_nodes g) < 2 ^ 30"
  shows "\<exists>g'. eg_grow_table mem g = Returns g' \<and> graph_inv g' \<and> eg_nodes g' = eg_nodes g \<and> rf_edges g' = rf_edges g \<and>
    (grants_all mem \<longrightarrow> Suc (length (eg_nodes g)) < length (hash_table g'))"
proof (cases "length (hash_table g) * 7 \<le> length (eg_nodes g) * 10 \<and> grants_table mem (length (hash_table g) * 2)")
  case False
  then have "eg_grow_table mem g = Returns g"
    by (auto simp: eg_grow_table_def eg_resize_hash_table_def Let_def)
  then show ?thesis using assms False by (auto simp: graph_inv_def grants_all_def)
next
  case True
  obtain j where j: "length (hash_table g) = 2 ^ j" "length (eg_nodes g) < length (hash_table g)"
    using assms(1) by (auto simp: graph_inv_def index_ok_def)
  have "2 ^ j * 7 < (2::nat) ^ 30 * 10" using True j(1) assms(2) by linarith
  then have "(2::nat) ^ j < 2 ^ 31" by simp
  then have "j < 31" by (rule power_less_imp_less_exp [rotated]) simp
  then have "Suc j < 32" by simp
  then have "index_ok [] (replicate (2 ^ Suc j) (- 1))" by (rule index_empty)
  then obtain tbl where tbl: "rehash_nodes (replicate (2 ^ Suc j) (- 1)) 0 (eg_nodes g) = Some tbl"
    "length tbl = 2 ^ Suc j" "index_ok (eg_nodes g) tbl"
    using rehash_ok [of "[]" "replicate (2 ^ Suc j) (- 1)" "eg_nodes g"] j by auto
  have "eg_grow_table mem g = Returns (g\<lparr>hash_table := tbl\<rparr>)"
    using True tbl(1) j(1) by (simp add: eg_grow_table_def eg_resize_hash_table_def Let_def mult.commute)
  then show ?thesis using tbl(2,3) assms(1) j by (simp add: graph_inv_def)
qed

lemma enter_node_ok:
  assumes "graph_inv g"
  shows "if Suc (length (eg_nodes g)) < length (hash_table g)
    then \<exists>g'. eg_enter_node g n = Returns g' \<and> graph_inv g' \<and> eg_nodes g' = eg_nodes g @ [n] \<and> rf_edges g' = rf_edges g
    else eg_enter_node g n = Exits EXIT_INVALID_INPUT"
proof -
  have "index_ok (eg_nodes g) (hash_table g)" using assms by (simp add: graph_inv_def)
  then show ?thesis
    using index_step [of "eg_nodes g" "hash_table g" n] assms
    by (auto simp: eg_enter_node_def Let_def graph_inv_def)
qed

text \<open>A call either stores the node or ends the run with the exit code of invalid input.\<close>

lemma add_call_cases:
  assumes "graph_inv g" and "length (eg_nodes g) < 2 ^ 30"
  shows "(\<exists>g'. add_call mem g c = Returns g' \<and> graph_inv g' \<and> eg_nodes g' = eg_nodes g @ [new_node c] \<and>
      rf_edges g' = rf_edges g) \<or>
    (add_call mem g c = Exits EXIT_INVALID_INPUT \<and> \<not> grants_all mem)"
proof (cases "eg_grow_nodes mem g")
  case (Returns g1)
  then have g1: "graph_inv g1" "eg_nodes g1 = eg_nodes g" "rf_edges g1 = rf_edges g"
    using assms(1) by (auto simp: eg_grow_nodes_def graph_inv_def split: if_splits)
  then obtain g2 where g2: "eg_grow_table mem g1 = Returns g2" "graph_inv g2" "eg_nodes g2 = eg_nodes g"
    "rf_edges g2 = rf_edges g" "grants_all mem \<Longrightarrow> Suc (length (eg_nodes g)) < length (hash_table g2)"
    using grow_table_ok [of g1 mem] assms(2) by auto
  show ?thesis
    using enter_node_ok [OF g2(2), of "new_node c"] g2 Returns
    by (auto simp: add_call_unfold split: if_splits)
qed (auto simp: eg_grow_nodes_def add_call_unfold grants_all_def split: if_splits)

fun add_calls :: "eg_memory \<Rightarrow> eg_graph \<Rightarrow> add_call list \<Rightarrow> eg_graph outcome" where
  "add_calls mem g [] = Returns g"
| "add_calls mem g (c # cs) = bind_outcome (add_call mem g c) (\<lambda>g. add_calls mem g cs)"

lemma add_calls_cases:
  "graph_inv g \<Longrightarrow> length (eg_nodes g) + length cs \<le> 2 ^ 30 \<Longrightarrow>
    (\<exists>g'. add_calls mem g cs = Returns g' \<and> graph_inv g' \<and> eg_nodes g' = eg_nodes g @ map new_node cs \<and>
      rf_edges g' = rf_edges g) \<or>
    (add_calls mem g cs = Exits EXIT_INVALID_INPUT \<and> \<not> grants_all mem)"
proof (induction cs arbitrary: g)
  case (Cons c cs)
  have l: "length (eg_nodes g) < 2 ^ 30" using Cons.prems(2) by simp
  consider g1 where "add_call mem g c = Returns g1" "graph_inv g1" "eg_nodes g1 = eg_nodes g @ [new_node c]"
      "rf_edges g1 = rf_edges g"
    | "add_call mem g c = Exits EXIT_INVALID_INPUT" "\<not> grants_all mem"
    using add_call_cases [OF Cons.prems(1) l, of mem c] by blast
  then show ?case
  proof cases
    case 1
    then show ?thesis using Cons.IH [OF 1(2)] Cons.prems(2) by auto
  qed simp
qed simp

lemma create_inv: "eg_create mem = Some g \<Longrightarrow> graph_inv g \<and> eg_nodes g = [] \<and> rf_edges g = []"
  using index_empty [of 10] by (auto simp: eg_create_def graph_inv_def split: if_splits)

section \<open>Properties\<close>

text \<open>
  C18. The node index against the array: whatever nodes are added to a new graph, duplicates of a
  key included, with whatever growth of the arrays and of the index and whatever allocation
  failures on the way (up to \<open>2 ^ 27\<close> nodes, where no \<open>int\<close> of the code overflows), the
  calls either end the run with the exit status of invalid input, and
  then for lack of memory, or leave the nodes in order of the calls; then a lookup of any key
  ends and returns the first node added with the key, or none when there is none.
\<close>
theorem eg_index_finds_first:
  assumes "eg_create mem = Some g0" and "length cs \<le> 2 ^ 27"
  shows "case add_calls mem g0 cs of
      Returns g \<Rightarrow> eg_nodes g = map new_node cs \<and>
        (\<forall>k. eg_find_node_by_dynamic g k = Returns (find (\<lambda>n. node_key n = k) (map new_node cs)))
    | Exits c \<Rightarrow> c = EXIT_INVALID_INPUT \<and> \<not> grants_all mem
    | Diverges \<Rightarrow> False"
  using add_calls_cases [of g0 cs mem] create_inv [OF assms(1)] assms(2) find_dynamic_first by auto

text \<open>
  The names of the event types: every type with a name is read back from its name, no other
  number has a name that is read as a type, and the classification agrees with the names: what
  stores and reads is an RMW or a successful compare-and-swap.
\<close>
theorem eg_type_names:
  "eg_string_to_type (Some (eg_type_to_string t)) =
     (if t \<in> {EG_OP_READ, EG_OP_WRITE, EG_OP_RMW, EG_OP_FENCE, EG_OP_CAS_SUCCESS, EG_OP_CAS_FAIL, EG_OP_CAS}
      then t else - 1) \<and>
   (eg_is_rmw_like t \<longleftrightarrow> eg_is_read_like t \<and> eg_is_write_like t)"
  by (auto simp: eg_type_to_string_def eg_string_to_type_def eg_is_rmw_like_def eg_is_read_like_def
      eg_is_write_like_def eg_ops)

definition ample :: eg_memory where
  "ample = \<lparr>grants_nodes = (\<lambda>_. True), grants_edges = (\<lambda>_. True), grants_table = (\<lambda>_. True)\<rparr>"

theorem eg_index_finds_first_witness:
  "\<exists>g0. eg_create ample = Some g0 \<and>
    (case add_calls ample g0 [(1, (0, 7, 1), 0, 1, None, 5), (2, (0, 7, 1), 0, 1, None, 6)] of
       Returns g \<Rightarrow> map_option n_id (find (\<lambda>n. node_key n = (0, 7, 1)) (eg_nodes g)) = Some 1 \<and>
         (\<forall>k. eg_find_node_by_dynamic g k = Returns (find (\<lambda>n. node_key n = k) (eg_nodes g)))
     | Exits c \<Rightarrow> False | Diverges \<Rightarrow> False)"
proof -
  obtain g0 where g0: "eg_create ample = Some g0" by (simp add: eg_create_def ample_def)
  have "length [(1, (0, 7, 1), 0, 1, None, 5), (2, (0, 7, 1), 0, 1, None, 6) :: add_call] \<le> 2 ^ 27" by simp
  from eg_index_finds_first [OF g0 this] show ?thesis
    using g0 by (auto simp: node_key_def grants_all_def ample_def split: outcome.splits)
qed

end
