(* ===== verification/EventGraphBinary.thy ===== *)
theory EventGraphBinary imports EventGraph begin

text \<open>
  The binary wire format of an event graph and its loader (\<^verbatim>\<open>eg_binary.h\<close>,
  \<open>eg_deserialize_binary_mem\<close> in \<^verbatim>\<open>eg.c\<close>): a header, node
  records of 96 bytes and edge records of 48 bytes, little-endian, with the padding of the x86-64
  ABI. The loader is proved to accept only well-formed graphs and to read back what a reference
  writer puts on the wire.
\<close>

section \<open>Little-endian fields\<close>

fun le_nat :: "u8 list \<Rightarrow> nat" where
  "le_nat [] = 0"
| "le_nat (b # bs) = unat b + 256 * le_nat bs"

fun le_bytes :: "nat \<Rightarrow> nat \<Rightarrow> u8 list" where
  "le_bytes 0 x = []"
| "le_bytes (Suc n) x = of_nat (x mod 256) # le_bytes n (x div 256)"

definition field :: "u8 list \<Rightarrow> nat \<Rightarrow> nat \<Rightarrow> nat" where
  "field buf off n = le_nat (take n (drop off buf))"

lemma length_le_bytes [simp]: "length (le_bytes n x) = n"
  by (induction n arbitrary: x) auto

lemma le_nat_bytes: "le_nat (le_bytes n x) = x mod 256 ^ n"
proof (induction n arbitrary: x)
  case (Suc n)
  have "unat (of_nat (x mod 256) :: u8) = x mod 256" by (simp add: unat_of_nat)
  then show ?case using Suc [of "x div 256"] by (simp add: mod_mult2_eq)
qed simp

lemma field_skip: "length a \<le> off \<Longrightarrow> field (a @ b) off n = field b (off - length a) n"
  by (simp add: field_def)

lemma field_here: "field (le_bytes n x @ b) 0 n = x mod 256 ^ n"
  by (simp add: field_def le_nat_bytes)

section \<open>Locations\<close>

definition isspace_u8 :: "u8 \<Rightarrow> bool" where
  "isspace_u8 c \<longleftrightarrow> c = 32 \<or> (9 \<le> c \<and> c \<le> 13)"

definition digit_value :: "u8 \<Rightarrow> nat option" where
  "digit_value c =
     (if 48 \<le> c \<and> c \<le> 57 then Some (unat c - 48)
      else if 97 \<le> c \<and> c \<le> 122 then Some (unat c - 87)
      else if 65 \<le> c \<and> c \<le> 90 then Some (unat c - 55) else None)"

definition is_digit :: "nat \<Rightarrow> u8 \<Rightarrow> bool" where
  "is_digit base c = (case digit_value c of None \<Rightarrow> False | Some d \<Rightarrow> d < base)"

text \<open>
  What \<open>strtoull(s, \&end, 0)\<close> and \<open>strtol\<close> scan: the sign, the number and the
  rest of the text, or nothing when the text has no digits. Then the value is 0 and the rest is the
  text itself; a number out of range is \<open>ULLONG_MAX\<close>, \<open>LONG_MAX\<close> or \<open>LONG_MIN\<close>.
\<close>

definition scan_integer :: "cstring \<Rightarrow> (bool \<times> nat \<times> cstring) option" where
  "scan_integer s =
     (let s1 = dropWhile isspace_u8 s;
          neg = (s1 \<noteq> [] \<and> hd s1 = 45);
          s2 = (if s1 \<noteq> [] \<and> (hd s1 = 45 \<or> hd s1 = 43) then tl s1 else s1);
          hex = (length s2 \<ge> 3 \<and> s2 ! 0 = 48 \<and> (s2 ! 1 = 120 \<or> s2 ! 1 = 88) \<and> is_digit 16 (s2 ! 2));
          base = (if hex then 16 else if s2 \<noteq> [] \<and> hd s2 = 48 then 8 else 10);
          s3 = (if hex then drop 2 s2 else s2);
          ds = takeWhile (is_digit base) s3;
          v = foldl (\<lambda>a c. a * base + the (digit_value c)) 0 ds
      in if ds = [] then None else Some (neg, v, drop (length ds) s3))"

definition strtoull :: "cstring \<Rightarrow> u64 \<times> cstring" where
  "strtoull s =
     (case scan_integer s of None \<Rightarrow> (0, s)
      | Some (neg, v, rest) \<Rightarrow> (if 2 ^ 64 \<le> v then - 1 else if neg then - of_nat v else of_nat v, rest))"

definition strtol :: "cstring \<Rightarrow> s64 \<times> cstring" where
  "strtol s =
     (case scan_integer s of None \<Rightarrow> (0, s)
      | Some (neg, v, rest) \<Rightarrow>
          (if neg then (if 2 ^ 63 \<le> v then - (2 ^ 63) else - of_nat v)
           else if 2 ^ 63 \<le> v then 2 ^ 63 - 1 else of_nat v, rest))"

definition field_index_tag :: cstring where
  "field_index_tag = [58, 102, 105, 101, 108, 100, 95, 105, 110, 100, 101, 120, 61]"

definition parse_field_sensitive_loc_id :: "cstring option \<Rightarrow> u64" where
  "parse_field_sensitive_loc_id loc_str =
     (case loc_str of None \<Rightarrow> 0
      | Some s \<Rightarrow>
          (let (base, rest) = strtoull s
           in if take 13 rest = field_index_tag
              then base XOR foldl (\<lambda>hash c. (hash XOR ucast c) * 1099511628211) 14695981039346656037 (drop 13 rest)
              else base))"

section \<open>Records on the wire\<close>

record bin_node =
  bn_key :: dyn_key
  bn_type :: s32
  bn_location :: "u8 list"
  bn_value :: s64

record bin_edge =
  be_src :: dyn_key
  be_dst :: dyn_key

definition EG_BIN_MAGIC :: u32 where "EG_BIN_MAGIC = 0x31424745"
definition EG_BIN_VERSION :: u32 where "EG_BIN_VERSION = 1"

abbreviation header_size :: nat where "header_size \<equiv> 16"
abbreviation node_size :: nat where "node_size \<equiv> 96"
abbreviation edge_size :: nat where "edge_size \<equiv> 48"

definition read_node :: "u8 list \<Rightarrow> nat \<Rightarrow> bin_node" where
  "read_node buf off =
     \<lparr>bn_key = (of_nat (field buf off 8), of_nat (field buf (off + 8) 8), of_nat (field buf (off + 16) 4)),
      bn_type = of_nat (field buf (off + 20) 4),
      bn_location = take 64 (drop (off + 24) buf),
      bn_value = of_nat (field buf (off + 88) 8)\<rparr>"

definition read_edge :: "u8 list \<Rightarrow> nat \<Rightarrow> bin_edge" where
  "read_edge buf off =
     \<lparr>be_src = (of_nat (field buf off 8), of_nat (field buf (off + 8) 8), of_nat (field buf (off + 16) 4)),
      be_dst = (of_nat (field buf (off + 24) 8), of_nat (field buf (off + 32) 8), of_nat (field buf (off + 40) 4))\<rparr>"

section \<open>The loader\<close>

definition load_node :: "eg_memory \<Rightarrow> bin_node \<Rightarrow> eg_graph \<Rightarrow> eg_graph outcome" where
  "load_node mem bn g =
     (let loc_id = parse_field_sensitive_loc_id (Some (takeWhile (\<lambda>c. c \<noteq> 0) (bn_location bn)))
      in bind_outcome (eg_find_node_by_dynamic g (bn_key bn)) (\<lambda>existing.
           case existing of
             Some n \<Rightarrow>
               (if n_type n \<noteq> bn_type bn \<or> n_loc_id n \<noteq> loc_id then Exits EXIT_INVALID_INPUT else Returns g)
           | None \<Rightarrow>
               eg_add_node mem g (of_nat (length (eg_nodes g)) + 1) (bn_key bn) loc_id (bn_type bn) (Some [])
                 (bn_value bn)))"

fun load_nodes :: "eg_memory \<Rightarrow> u8 list \<Rightarrow> nat \<Rightarrow> nat list \<Rightarrow> eg_graph \<Rightarrow> eg_graph outcome" where
  "load_nodes mem buf off [] g = Returns g"
| "load_nodes mem buf off (i # is) g =
     bind_outcome (load_node mem (read_node buf (off + i * node_size)) g) (\<lambda>g. load_nodes mem buf off is g)"

definition eg_validate_cas_resolved :: "eg_graph \<Rightarrow> unit outcome" where
  "eg_validate_cas_resolved g =
     (if list_ex (\<lambda>n. n_type n = EG_OP_CAS) (eg_nodes g) then Exits EXIT_INVALID_INPUT else Returns ())"

definition load_edge :: "eg_memory \<Rightarrow> bin_edge \<Rightarrow> eg_graph \<Rightarrow> eg_graph outcome" where
  "load_edge mem be g =
     bind_outcome (eg_find_node_by_dynamic g (be_src be)) (\<lambda>wn.
       case wn of None \<Rightarrow> Exits EXIT_EVENT_NOT_FOUND
       | Some wn \<Rightarrow>
           bind_outcome (eg_find_node_by_dynamic g (be_dst be)) (\<lambda>rn.
             case rn of None \<Rightarrow> Exits EXIT_EVENT_NOT_FOUND
             | Some rn \<Rightarrow>
                 (if \<not> eg_is_write_like (n_type wn) then Exits EXIT_RF_TYPE_MISMATCH
                  else if \<not> eg_is_read_like (n_type rn) then Exits EXIT_RF_TYPE_MISMATCH
                  else eg_add_edge_rf mem g (n_id wn) (n_id rn))))"

fun load_edges :: "eg_memory \<Rightarrow> u8 list \<Rightarrow> nat \<Rightarrow> nat list \<Rightarrow> eg_graph \<Rightarrow> eg_graph outcome" where
  "load_edges mem buf off [] g = Returns g"
| "load_edges mem buf off (i # is) g =
     bind_outcome (load_edge mem (read_edge buf (off + i * edge_size)) g) (\<lambda>g. load_edges mem buf off is g)"

definition eg_has_incoming_rf_edge :: "eg_graph \<Rightarrow> u64 \<Rightarrow> bool" where
  "eg_has_incoming_rf_edge g read_id = list_ex (\<lambda>e. dst_id e = read_id) (rf_edges g)"

definition eg_validate_read_nodes_have_rf :: "eg_graph \<Rightarrow> unit outcome" where
  "eg_validate_read_nodes_have_rf g =
     (if list_ex (\<lambda>n. eg_is_read_like (n_type n) \<and> \<not> eg_has_incoming_rf_edge g (n_id n)) (eg_nodes g)
      then Exits EXIT_INVALID_INPUT else Returns ())"

definition eg_deserialize_binary_mem :: "eg_memory \<Rightarrow> u8 list \<Rightarrow> eg_graph option outcome" where
  "eg_deserialize_binary_mem mem buf =
     (if length buf < header_size then Returns None
      else if (of_nat (field buf 0 4) :: u32) \<noteq> EG_BIN_MAGIC then Returns None
      else if (of_nat (field buf 4 4) :: u32) \<noteq> EG_BIN_VERSION then Returns None
      else let node_count = field buf 8 4; rf_count = field buf 12 4;
               edges_off = header_size + node_count * node_size
           in if length buf < edges_off + rf_count * edge_size then Returns None
              else case eg_create mem of None \<Rightarrow> Returns None
              | Some g \<Rightarrow>
                  bind_outcome (load_nodes mem buf header_size [0..<node_count] g) (\<lambda>g.
                  bind_outcome (eg_validate_cas_resolved g) (\<lambda>_.
                  bind_outcome (load_edges mem buf edges_off [0..<rf_count] g) (\<lambda>g.
                  bind_outcome (eg_validate_read_nodes_have_rf g) (\<lambda>_. Returns (Some g))))))"

section \<open>Loading is a fold\<close>

fun fold_outcome :: "('a \<Rightarrow> 'b \<Rightarrow> 'b outcome) \<Rightarrow> 'a list \<Rightarrow> 'b \<Rightarrow> 'b outcome" where
  "fold_outcome f [] g = Returns g"
| "fold_outcome f (x # xs) g = bind_outcome (f x g) (fold_outcome f xs)"

lemma load_nodes_fold:
  "load_nodes mem buf off is = fold_outcome (load_node mem) (map (\<lambda>i. read_node buf (off + i * node_size)) is)"
  by (induction "is") (rule ext, simp)+

lemma load_edges_fold:
  "load_edges mem buf off is = fold_outcome (load_edge mem) (map (\<lambda>i. read_edge buf (off + i * edge_size)) is)"
  by (induction "is") (rule ext, simp)+

lemma fold_outcome_inv:
  assumes "P 0 g" and "\<And>x i g. x \<in> set xs \<Longrightarrow> i < length xs \<Longrightarrow> P i g \<Longrightarrow>
      (\<exists>g'. f x g = Returns g' \<and> P (Suc i) g') \<or> (\<exists>c. f x g = Exits c \<and> c \<in> C)"
  shows "(\<exists>g'. fold_outcome f xs g = Returns g' \<and> P (length xs) g') \<or> (\<exists>c. fold_outcome f xs g = Exits c \<and> c \<in> C)"
  using assms
proof (induction xs arbitrary: P g)
  case (Cons x xs)
  consider g1 where "f x g = Returns g1" "P 1 g1" | c where "f x g = Exits c" "c \<in> C"
    using Cons.prems(2) [of x 0 g] Cons.prems(1) by auto
  then show ?case
  proof cases
    case 1
    have "(\<exists>g'. fold_outcome f xs g1 = Returns g' \<and> P (Suc (length xs)) g') \<or>
        (\<exists>c. fold_outcome f xs g1 = Exits c \<and> c \<in> C)"
      using Cons.IH [of "\<lambda>i. P (Suc i)" g1] Cons.prems(2) 1(2) by auto
    then show ?thesis using 1(1) by auto
  qed auto
qed auto

section \<open>What a loaded graph satisfies\<close>

definition nodes_ok :: "eg_graph \<Rightarrow> bool" where
  "nodes_ok g \<longleftrightarrow> distinct (map node_key (eg_nodes g)) \<and>
     (\<forall>i<length (eg_nodes g). n_id (eg_nodes g ! i) = of_nat (Suc i))"

definition edge_ok :: "eg_node list \<Rightarrow> eg_edge \<Rightarrow> bool" where
  "edge_ok ns e \<longleftrightarrow> (\<exists>w\<in>set ns. \<exists>r\<in>set ns. src_id e = n_id w \<and> dst_id e = n_id r \<and>
     eg_is_write_like (n_type w) \<and> eg_is_read_like (n_type r))"

definition well_formed :: "eg_graph \<Rightarrow> bool" where
  "well_formed g \<longleftrightarrow> graph_inv g \<and> nodes_ok g \<and> (\<forall>n\<in>set (eg_nodes g). n_type n \<noteq> EG_OP_CAS) \<and>
     (\<forall>e\<in>set (rf_edges g). edge_ok (eg_nodes g) e) \<and>
     (\<forall>n\<in>set (eg_nodes g). eg_is_read_like (n_type n) \<longrightarrow> (\<exists>e\<in>set (rf_edges g). dst_id e = n_id n))"

lemmas exit_codes = EXIT_INVALID_INPUT_def EXIT_RF_TYPE_MISMATCH_def EXIT_EVENT_NOT_FOUND_def

definition node_of :: "nat \<Rightarrow> bin_node \<Rightarrow> eg_node" where
  "node_of i bn =
     \<lparr>n_id = of_nat (Suc i), n_tid = fst (bn_key bn), n_iid = fst (snd (bn_key bn)),
      n_loc_id = parse_field_sensitive_loc_id (Some (takeWhile (\<lambda>c. c \<noteq> 0) (bn_location bn))),
      n_vid = snd (snd (bn_key bn)), n_type = bn_type bn, n_location = [], n_value = bn_value bn\<rparr>"

lemma node_key_of [simp]: "node_key (node_of i bn) = bn_key bn" "n_id (node_of i bn) = of_nat (Suc i)"
  "n_type (node_of i bn) = bn_type bn"
  by (simp_all add: node_of_def node_key_def)

lemma load_node_cases:
  assumes "graph_inv g" and "length (eg_nodes g) < 2 ^ 30"
  shows "case find (\<lambda>n. node_key n = bn_key bn) (eg_nodes g) of
      Some n \<Rightarrow> load_node mem bn g = Returns g \<or> load_node mem bn g = Exits EXIT_INVALID_INPUT
    | None \<Rightarrow> (\<exists>g'. load_node mem bn g = Returns g' \<and> graph_inv g' \<and> rf_edges g' = rf_edges g \<and>
          eg_nodes g' = eg_nodes g @ [node_of (length (eg_nodes g)) bn]) \<or>
        (load_node mem bn g = Exits EXIT_INVALID_INPUT \<and> \<not> grants_all mem)"
proof (cases "find (\<lambda>n. node_key n = bn_key bn) (eg_nodes g)")
  case None
  let ?c = "(of_nat (length (eg_nodes g)) + 1, bn_key bn,
    parse_field_sensitive_loc_id (Some (takeWhile (\<lambda>c. c \<noteq> 0) (bn_location bn))), bn_type bn, Some [], bn_value bn)"
  have "load_node mem bn g = add_call mem g ?c"
    using None by (simp add: load_node_def Let_def find_dynamic_first [OF assms(1)])
  moreover have "new_node ?c = node_of (length (eg_nodes g)) bn"
    by (cases "bn_key bn") (simp add: node_of_def add.commute)
  ultimately show ?thesis using add_call_cases [OF assms, of mem ?c] None by auto
qed (auto simp: load_node_def Let_def find_dynamic_first [OF assms(1)])

lemma nodes_ok_snoc:
  assumes "nodes_ok g" and "find (\<lambda>n. node_key n = bn_key bn) (eg_nodes g) = None"
    and "eg_nodes g' = eg_nodes g @ [node_of (length (eg_nodes g)) bn]"
  shows "nodes_ok g'"
  using assms by (auto simp: nodes_ok_def find_None_iff nth_append less_Suc_eq)

lemma load_nodes_ok:
  assumes "graph_inv g" and "nodes_ok g" and "eg_nodes g = []" and "rf_edges g = []" and "length ns < 2 ^ 30"
  shows "(\<exists>g'. fold_outcome (load_node mem) ns g = Returns g' \<and> graph_inv g' \<and> nodes_ok g' \<and> rf_edges g' = []) \<or>
    (\<exists>c. fold_outcome (load_node mem) ns g = Exits c \<and> c \<in> {EXIT_INVALID_INPUT})"
proof -
  let ?P = "\<lambda>i g. graph_inv g \<and> nodes_ok g \<and> rf_edges g = [] \<and> length (eg_nodes g) \<le> i"
  have "(\<exists>g'. load_node mem bn g = Returns g' \<and> ?P (Suc i) g') \<or>
      (\<exists>c. load_node mem bn g = Exits c \<and> c \<in> {EXIT_INVALID_INPUT})"
    if "i < length ns" and P: "?P i g" for bn i g
  proof -
    have "length (eg_nodes g) < 2 ^ 30" using that assms(5) by linarith
    then show ?thesis using load_node_cases [of g mem bn] P nodes_ok_snoc [of g bn]
      by (auto split: option.splits)
  qed
  then show ?thesis
    using fold_outcome_inv [of ?P g ns "load_node mem" "{EXIT_INVALID_INPUT}"] assms by auto
qed

text \<open>An edge is added between the nodes its keys name, or the run ends.\<close>

lemma load_edge_cases:
  assumes "graph_inv g" and "length (rf_edges g) < 2 ^ 30"
  shows "(\<exists>g' w r. load_edge mem be g = Returns g' \<and>
      find (\<lambda>n. node_key n = be_src be) (eg_nodes g) = Some w \<and>
      find (\<lambda>n. node_key n = be_dst be) (eg_nodes g) = Some r \<and>
      eg_is_write_like (n_type w) \<and> eg_is_read_like (n_type r) \<and>
      graph_inv g' \<and> eg_nodes g' = eg_nodes g \<and> rf_edges g' = rf_edges g @ [\<lparr>src_id = n_id w, dst_id = n_id r\<rparr>]) \<or>
    (\<exists>c. load_edge mem be g = Exits c \<and> c \<in> {10, 12} \<and>
      \<not> (grants_all mem \<and> (\<exists>w r. find (\<lambda>n. node_key n = be_src be) (eg_nodes g) = Some w \<and>
        find (\<lambda>n. node_key n = be_dst be) (eg_nodes g) = Some r \<and>
        eg_is_write_like (n_type w) \<and> eg_is_read_like (n_type r))))"
  using assms
  by (auto simp: load_edge_def find_dynamic_first [OF assms(1)] eg_add_edge_rf_def Let_def exit_codes graph_inv_def
      grants_all_def split: option.splits)

lemma find_in_set: "find P xs = Some x \<Longrightarrow> x \<in> set xs"
  by (auto simp: find_Some_iff)

lemma load_edges_ok:
  assumes "graph_inv g" and "rf_edges g = []" and "length es < 2 ^ 30"
  shows "(\<exists>g'. fold_outcome (load_edge mem) es g = Returns g' \<and> graph_inv g' \<and> eg_nodes g' = eg_nodes g \<and>
      (\<forall>e\<in>set (rf_edges g'). edge_ok (eg_nodes g) e)) \<or>
    (\<exists>c. fold_outcome (load_edge mem) es g = Exits c \<and> c \<in> {10, 12})"
proof -
  let ?P = "\<lambda>i g'. graph_inv g' \<and> eg_nodes g' = eg_nodes g \<and> length (rf_edges g') = i \<and>
    (\<forall>e\<in>set (rf_edges g'). edge_ok (eg_nodes g) e)"
  have "(\<exists>g'. load_edge mem be h = Returns g' \<and> ?P (Suc i) g') \<or>
      (\<exists>c. load_edge mem be h = Exits c \<and> c \<in> {10, 12})" if P: "?P i h" and i: "i < length es" for be h i
  proof -
    consider (ok) g' w r where "load_edge mem be h = Returns g'"
        "find (\<lambda>n. node_key n = be_src be) (eg_nodes h) = Some w"
        "find (\<lambda>n. node_key n = be_dst be) (eg_nodes h) = Some r"
        "eg_is_write_like (n_type w)" "eg_is_read_like (n_type r)" "graph_inv g'" "eg_nodes g' = eg_nodes h"
        "rf_edges g' = rf_edges h @ [\<lparr>src_id = n_id w, dst_id = n_id r\<rparr>]"
      | (bad) c where "load_edge mem be h = Exits c" "c \<in> {10, 12}"
      using load_edge_cases [of h mem be] P i assms(3) by fastforce
    then show ?thesis
    proof cases
      case ok
      have "w \<in> set (eg_nodes g)" "r \<in> set (eg_nodes g)" using ok(2,3) P find_in_set by auto
      then have "edge_ok (eg_nodes g) \<lparr>src_id = n_id w, dst_id = n_id r\<rparr>"
        using ok(4,5) by (auto simp: edge_ok_def)
      then show ?thesis using ok(1,6,7,8) P by auto
    qed blast
  qed
  then show ?thesis
    using fold_outcome_inv [of ?P g es "load_edge mem" "{10, 12}"] assms by auto
qed

section \<open>Properties\<close>

text \<open>
  C9. Whatever bytes arrive (below eight gigabytes), the loader ends: it rejects the buffer, or
  ends the run with status 10 or 12, or returns a well-formed graph, in which the dynamic keys are
  unique, node identifiers count from 1, no compare-and-swap is left undecided, every edge leads
  from a node that stores to a node that reads, and every node that reads has an edge.
\<close>
theorem eg_binary_loads_well_formed:
  assumes "length buf < 2 ^ 33"
  shows "case eg_deserialize_binary_mem mem buf of
      Returns None \<Rightarrow> True | Returns (Some g) \<Rightarrow> well_formed g | Exits c \<Rightarrow> c \<in> {10, 12} | Diverges \<Rightarrow> False"
proof (cases "length buf < header_size \<or> (of_nat (field buf 0 4) :: u32) \<noteq> EG_BIN_MAGIC \<or>
    (of_nat (field buf 4 4) :: u32) \<noteq> EG_BIN_VERSION \<or>
    length buf < header_size + field buf 8 4 * node_size + field buf 12 4 * edge_size \<or> eg_create mem = None")
  case True
  then have "eg_deserialize_binary_mem mem buf = Returns None"
    unfolding eg_deserialize_binary_mem_def Let_def by auto
  then show ?thesis by simp
next
  case False
  let ?nc = "field buf 8 4" and ?rc = "field buf 12 4"
  define ns where "ns = map (\<lambda>i. read_node buf (header_size + i * node_size)) [0..<?nc]"
  define es where "es = map (\<lambda>i. read_edge buf (header_size + ?nc * node_size + i * edge_size)) [0..<?rc]"
  obtain g0 where g0: "eg_create mem = Some g0" using False by auto
  have g0i: "graph_inv g0" "eg_nodes g0 = []" "rf_edges g0 = []" "nodes_ok g0"
    using create_inv [OF g0] by (auto simp: nodes_ok_def)
  have r: "eg_deserialize_binary_mem mem buf =
      bind_outcome (fold_outcome (load_node mem) ns g0) (\<lambda>g.
      bind_outcome (eg_validate_cas_resolved g) (\<lambda>_.
      bind_outcome (fold_outcome (load_edge mem) es g) (\<lambda>g.
      bind_outcome (eg_validate_read_nodes_have_rf g) (\<lambda>_. Returns (Some g)))))"
    using False g0 unfolding eg_deserialize_binary_mem_def Let_def load_nodes_fold load_edges_fold ns_def es_def
    by simp
  have es: "length es < 2 ^ 30" using False assms by (simp add: es_def)
  have "length ns < 2 ^ 30" using False assms by (simp add: ns_def)
  then consider (exit) c where "fold_outcome (load_node mem) ns g0 = Exits c" "c = EXIT_INVALID_INPUT"
    | (load) g1 where "fold_outcome (load_node mem) ns g0 = Returns g1" "graph_inv g1" "nodes_ok g1" "rf_edges g1 = []"
    using load_nodes_ok [OF g0i(1,4,2,3), of ns mem] by auto
  then show ?thesis
  proof cases
    case exit
    then show ?thesis unfolding r by (simp add: exit_codes)
  next
    case load
    show ?thesis
      using load_edges_ok [OF load(2,4) es, of mem] load(3) unfolding r load(1)
      by (auto simp: eg_validate_cas_resolved_def eg_validate_read_nodes_have_rf_def eg_has_incoming_rf_edge_def
          well_formed_def exit_codes list_ex_iff nodes_ok_def)
  qed
qed

section \<open>A reference writer\<close>

definition key_bytes :: "dyn_key \<Rightarrow> u8 list" where
  "key_bytes k = (case k of (tid, iid, vid) \<Rightarrow> le_bytes 8 (unat tid) @ le_bytes 8 (unat iid) @ le_bytes 4 (unat vid))"

definition node_bytes :: "bin_node \<Rightarrow> u8 list" where
  "node_bytes n = key_bytes (bn_key n) @ le_bytes 4 (unat (bn_type n)) @ bn_location n @ le_bytes 8 (unat (bn_value n))"

definition edge_bytes :: "bin_edge \<Rightarrow> u8 list" where
  "edge_bytes e = key_bytes (be_src e) @ replicate 4 0 @ key_bytes (be_dst e) @ replicate 4 0"

definition graph_bytes :: "bin_node list \<Rightarrow> bin_edge list \<Rightarrow> u8 list" where
  "graph_bytes ns es =
     le_bytes 4 (unat EG_BIN_MAGIC) @ le_bytes 4 (unat EG_BIN_VERSION) @ le_bytes 4 (length ns) @
     le_bytes 4 (length es) @ concat (map node_bytes ns) @ concat (map edge_bytes es)"

lemma length_key_bytes [simp]: "length (key_bytes k) = 20"
  by (cases k) (simp add: key_bytes_def)

lemma length_node_bytes: "length (bn_location n) = 64 \<Longrightarrow> length (node_bytes n) = node_size"
  by (simp add: node_bytes_def)

lemma length_edge_bytes: "length (edge_bytes e) = edge_size"
  by (simp add: edge_bytes_def)

lemma word_field [simp]:
  "(of_nat (unat (x::64 word) mod 256 ^ 8) :: 64 word) = x" "(of_nat (unat (y::32 word) mod 256 ^ 4) :: 32 word) = y"
proof -
  have "unat x < 2 ^ 64" "unat y < 2 ^ 32" using unsigned_less [of x] unsigned_less [of y] by simp_all
  then show "(of_nat (unat x mod 256 ^ 8) :: 64 word) = x" "(of_nat (unat y mod 256 ^ 4) :: 32 word) = y" by simp_all
qed

text \<open>Reading a key, a node and an edge where they were written.\<close>

definition read_key :: "u8 list \<Rightarrow> nat \<Rightarrow> dyn_key" where
  "read_key buf off = (of_nat (field buf off 8), of_nat (field buf (off + 8) 8), of_nat (field buf (off + 16) 4))"

lemma field_at: "off = length a \<Longrightarrow> field (a @ le_bytes n x @ b) off n = x mod 256 ^ n"
  by (simp add: field_skip field_here)

lemma read_key_bytes: "off = length a \<Longrightarrow> read_key (a @ key_bytes k @ b) off = k"
proof -
  assume off: "off = length a"
  obtain t i v where k: "k = (t, i, v)" by (cases k)
  have "field (a @ key_bytes k @ b) off 8 = unat t mod 256 ^ 8"
    using field_at [OF off] by (simp add: k key_bytes_def)
  moreover have "field (a @ key_bytes k @ b) (off + 8) 8 = unat i mod 256 ^ 8"
    using field_at [of "off + 8" "a @ le_bytes 8 (unat t)"] off by (simp add: k key_bytes_def)
  moreover have "field (a @ key_bytes k @ b) (off + 16) 4 = unat v mod 256 ^ 4"
    using field_at [of "off + 16" "a @ le_bytes 8 (unat t) @ le_bytes 8 (unat i)"] off by (simp add: k key_bytes_def)
  ultimately show ?thesis by (simp only: read_key_def k word_field)
qed

lemma read_node_bytes:
  assumes "off = length a" and "length (bn_location n) = 64"
  shows "read_node (a @ node_bytes n @ b) off = n"
proof -
  let ?buf = "a @ node_bytes n @ b"
  have "read_key ?buf off = bn_key n"
    using read_key_bytes [OF assms(1)] by (simp add: node_bytes_def)
  moreover have "field ?buf (off + 20) 4 = unat (bn_type n) mod 256 ^ 4"
    using field_at [of "off + 20" "a @ key_bytes (bn_key n)"] assms(1) by (simp add: node_bytes_def)
  moreover have "field ?buf (off + 88) 8 = unat (bn_value n) mod 256 ^ 8"
    using field_at [of "off + 88" "a @ key_bytes (bn_key n) @ le_bytes 4 (unat (bn_type n)) @ bn_location n"] assms
    by (simp add: node_bytes_def)
  moreover have "take 64 (drop (off + 24) ?buf) = bn_location n"
    using assms by (simp add: node_bytes_def)
  ultimately show ?thesis
    unfolding read_node_def read_key_def [symmetric] by (simp only: word_field) simp
qed

lemma read_edge_bytes:
  assumes "off = length a"
  shows "read_edge (a @ edge_bytes e @ b) off = e"
proof -
  let ?buf = "a @ edge_bytes e @ b"
  have "read_key ?buf off = be_src e"
    using read_key_bytes [OF assms] by (simp add: edge_bytes_def)
  moreover have "read_key ?buf (off + 24) = be_dst e"
    using read_key_bytes [of "off + 24" "a @ key_bytes (be_src e) @ replicate 4 0"] assms by (simp add: edge_bytes_def)
  ultimately show ?thesis
    unfolding read_edge_def read_key_def by (simp add: add.assoc)
qed

text \<open>Reading an array of records of one size.\<close>

lemma read_array:
  assumes "\<And>a x b. x \<in> set xs \<Longrightarrow> rd (a @ enc x @ b) (length a) = x" and "\<forall>x\<in>set xs. length (enc x) = k"
  shows "map (\<lambda>i. rd (a @ concat (map enc xs) @ b) (length a + i * k)) [0..<length xs] = xs"
  using assms
proof (induction xs arbitrary: a)
  case (Cons x xs)
  have u: "[0..<length (x # xs)] = 0 # map Suc [0..<length xs]" by (simp add: map_Suc_upt upt_conv_Cons del: upt_Suc)
  have "rd (a @ concat (map enc (x # xs)) @ b) (length a) = x" using Cons.prems(1) by simp
  moreover have "map (\<lambda>i. rd ((a @ enc x) @ concat (map enc xs) @ b) (length (a @ enc x) + i * k)) [0..<length xs] = xs"
    using Cons.prems by (intro Cons.IH) auto
  ultimately show ?case unfolding u using Cons.prems(2) by (simp add: comp_def algebra_simps)
qed simp

lemma concat_size: "\<forall>x\<in>set xs. length (enc x) = k \<Longrightarrow> length (concat (map enc xs)) = length xs * k"
  by (induction xs) auto

text \<open>What the graph of an encoding is: nodes numbered from 1, edges between node numbers.\<close>

definition key_id :: "bin_node list \<Rightarrow> dyn_key \<Rightarrow> u64" where
  "key_id ns k = of_nat (Suc (length (takeWhile (\<lambda>n. bn_key n \<noteq> k) ns)))"

definition graph_nodes :: "bin_node list \<Rightarrow> eg_node list" where
  "graph_nodes ns = map (\<lambda>i. node_of i (ns ! i)) [0..<length ns]"

definition graph_edges :: "bin_node list \<Rightarrow> bin_edge list \<Rightarrow> eg_edge list" where
  "graph_edges ns es = map (\<lambda>e. \<lparr>src_id = key_id ns (be_src e), dst_id = key_id ns (be_dst e)\<rparr>) es"

definition key_type :: "bin_node list \<Rightarrow> dyn_key \<Rightarrow> s32 option" where
  "key_type ns k = map_option bn_type (find (\<lambda>n. bn_key n = k) ns)"

text \<open>A schedule the fuzzer may send, within the counters of the loader, which are of type \<open>int\<close>.\<close>

definition sendable :: "bin_node list \<Rightarrow> bin_edge list \<Rightarrow> bool" where
  "sendable ns es \<longleftrightarrow>
     distinct (map bn_key ns) \<and> length ns < 2 ^ 27 \<and> length es < 2 ^ 30 \<and>
     list_all (\<lambda>n. length (bn_location n) = 64 \<and> bn_type n \<noteq> EG_OP_CAS \<and>
       (eg_is_read_like (bn_type n) \<longrightarrow> list_ex (\<lambda>e. be_dst e = bn_key n) es)) ns \<and>
     list_all (\<lambda>e. (case key_type ns (be_src e) of None \<Rightarrow> False | Some t \<Rightarrow> eg_is_write_like t) \<and>
       (case key_type ns (be_dst e) of None \<Rightarrow> False | Some t \<Rightarrow> eg_is_read_like t)) es"

lemma graph_nodes_snoc: "graph_nodes (ns @ [n]) = graph_nodes ns @ [node_of (length ns) n]"
  by (auto simp: graph_nodes_def nth_append)

lemma length_graph_nodes [simp]: "length (graph_nodes ns) = length ns"
  by (simp add: graph_nodes_def)

lemma find_graph_nodes_None:
  "find (\<lambda>n. node_key n = k) (graph_nodes ns) = None \<longleftrightarrow> k \<notin> bn_key ` set ns"
proof -
  have "map node_key (graph_nodes ns) = map bn_key ns"
    by (rule nth_equalityI) (simp_all add: graph_nodes_def)
  then have "node_key ` set (graph_nodes ns) = bn_key ` set ns" by (metis list.set_map)
  moreover have "(\<exists>n. n \<in> set (graph_nodes ns) \<and> node_key n = k) \<longleftrightarrow> k \<in> node_key ` set (graph_nodes ns)"
    by (auto simp: image_iff)
  ultimately show ?thesis unfolding find_None_iff by simp
qed

lemma find_graph_nodes_Some:
  assumes "find (\<lambda>n. bn_key n = k) ns = Some b"
  shows "\<exists>n. find (\<lambda>n. node_key n = k) (graph_nodes ns) = Some n \<and> n_id n = key_id ns k \<and> n_type n = bn_type b"
proof -
  obtain i where i: "i < length ns" "bn_key (ns ! i) = k" "b = ns ! i" "\<And>j. j < i \<Longrightarrow> bn_key (ns ! j) \<noteq> k"
    using assms by (auto simp: find_Some_iff)
  have "takeWhile (\<lambda>n. bn_key n \<noteq> k) ns = take i ns"
    by (rule takeWhile_eq_take_P_nth) (use i in auto)
  then have "length (takeWhile (\<lambda>n. bn_key n \<noteq> k) ns) = i" using i(1) by simp
  moreover have "find (\<lambda>n. node_key n = k) (graph_nodes ns) = Some (node_of i (ns ! i))"
    unfolding find_Some_iff using i by (intro exI [of _ i]) (auto simp: graph_nodes_def)
  ultimately show ?thesis using i(3) by (simp add: key_id_def)
qed

section \<open>Round trip\<close>

lemma case_option_ex: "(case x of None \<Rightarrow> False | Some t \<Rightarrow> P t) \<longleftrightarrow> (\<exists>t. x = Some t \<and> P t)"
  by (cases x) auto

lemma load_list:
  assumes "grants_all mem" and "graph_inv g" and "eg_nodes g = graph_nodes ps" and "rf_edges g = []"
    and "distinct (map bn_key (ps @ ns))" and "length ps + length ns < 2 ^ 30"
  shows "\<exists>g'. fold_outcome (load_node mem) ns g = Returns g' \<and> graph_inv g' \<and> eg_nodes g' = graph_nodes (ps @ ns) \<and>
    rf_edges g' = []"
  using assms(2-)
proof (induction ns arbitrary: g ps)
  case (Cons n ns)
  have "find (\<lambda>m. node_key m = bn_key n) (eg_nodes g) = None"
    using Cons.prems(2,4) by (simp only: find_graph_nodes_None) (auto simp: image_iff)
  moreover have "length (eg_nodes g) < 2 ^ 30" using Cons.prems(2,5) by simp
  ultimately obtain g1 where g1: "load_node mem n g = Returns g1" "graph_inv g1" "rf_edges g1 = []"
    "eg_nodes g1 = eg_nodes g @ [node_of (length (eg_nodes g)) n]"
    using load_node_cases [OF Cons.prems(1), of mem n] assms(1) Cons.prems(3) by auto
  then have "eg_nodes g1 = graph_nodes (ps @ [n])" using Cons.prems(2) by (simp add: graph_nodes_snoc)
  then show ?case using Cons.IH [OF g1(2) _ g1(3), of "ps @ [n]"] Cons.prems(4,5) g1(1) by auto
qed simp

lemma link_list:
  assumes "grants_all mem" and "graph_inv g" and "eg_nodes g = graph_nodes ns"
    and "\<forall>e\<in>set es. (\<exists>t. key_type ns (be_src e) = Some t \<and> eg_is_write_like t) \<and>
      (\<exists>t. key_type ns (be_dst e) = Some t \<and> eg_is_read_like t)"
    and "length (rf_edges g) + length es < 2 ^ 30"
  shows "\<exists>g'. fold_outcome (load_edge mem) es g = Returns g' \<and> graph_inv g' \<and> eg_nodes g' = graph_nodes ns \<and>
    rf_edges g' = rf_edges g @ graph_edges ns es"
  using assms(2-)
proof (induction es arbitrary: g)
  case (Cons e es)
  obtain w where w: "find (\<lambda>n. node_key n = be_src e) (graph_nodes ns) = Some w" "n_id w = key_id ns (be_src e)"
    "eg_is_write_like (n_type w)"
    using Cons.prems(3) find_graph_nodes_Some [of "be_src e" ns] by (auto simp: key_type_def)
  obtain r where r: "find (\<lambda>n. node_key n = be_dst e) (graph_nodes ns) = Some r" "n_id r = key_id ns (be_dst e)"
    "eg_is_read_like (n_type r)"
    using Cons.prems(3) find_graph_nodes_Some [of "be_dst e" ns] by (auto simp: key_type_def)
  have "length (rf_edges g) < 2 ^ 30" using Cons.prems(4) by simp
  then obtain g1 where g1: "load_edge mem e g = Returns g1" "graph_inv g1" "eg_nodes g1 = graph_nodes ns"
    "rf_edges g1 = rf_edges g @ [\<lparr>src_id = key_id ns (be_src e), dst_id = key_id ns (be_dst e)\<rparr>]"
    using load_edge_cases [OF Cons.prems(1), of mem e] Cons.prems(2) w r assms(1) by auto
  then show ?case using Cons.IH [OF g1(2,3)] Cons.prems(3,4) by (auto simp: graph_edges_def)
qed (simp add: graph_edges_def)

lemma reads_have_edges:
  assumes "n \<in> set (graph_nodes ns)" and "eg_is_read_like (n_type n)" and "distinct (map bn_key ns)"
    and "\<forall>b\<in>set ns. eg_is_read_like (bn_type b) \<longrightarrow> (\<exists>e\<in>set es. be_dst e = bn_key b)"
  shows "\<exists>e\<in>set (graph_edges ns es). dst_id e = n_id n"
proof -
  obtain i where i: "i < length ns" "n = node_of i (ns ! i)" using assms(1) by (auto simp: graph_nodes_def)
  then obtain e where e: "e \<in> set es" "be_dst e = bn_key (ns ! i)" using assms(2,4) by auto
  have "takeWhile (\<lambda>b. bn_key b \<noteq> bn_key (ns ! i)) ns = take i ns"
    by (rule takeWhile_eq_take_P_nth) (use i(1) assms(3) in \<open>auto simp: distinct_conv_nth\<close>)
  then have "key_id ns (be_dst e) = n_id n" using i e(2) by (simp add: key_id_def)
  then show ?thesis using e(1) by (auto simp: graph_edges_def)
qed

lemma read_back:
  assumes "sendable ns es" and "grants_all mem"
  shows "\<exists>g. eg_deserialize_binary_mem mem (graph_bytes ns es) = Returns (Some g) \<and>
    eg_nodes g = graph_nodes ns \<and> rf_edges g = graph_edges ns es"
proof -
  define hd_bytes where "hd_bytes = le_bytes 4 (unat EG_BIN_MAGIC) @ le_bytes 4 (unat EG_BIN_VERSION) @
    le_bytes 4 (length ns) @ le_bytes 4 (length es)"
  let ?buf = "graph_bytes ns es" and ?eoff = "header_size + length ns * node_size"
  have s: "distinct (map bn_key ns)" "length ns < 2 ^ 27" "length es < 2 ^ 30"
    "\<forall>n\<in>set ns. length (bn_location n) = 64"
    using assms(1) by (auto simp: sendable_def list_all_iff)
  have hl: "length hd_bytes = header_size" by (simp add: hd_bytes_def)
  have buf: "?buf = hd_bytes @ concat (map node_bytes ns) @ concat (map edge_bytes es)"
    by (simp add: graph_bytes_def hd_bytes_def)
  have nl: "\<forall>n\<in>set ns. length (node_bytes n) = node_size" using s(4) length_node_bytes by blast
  have el: "\<forall>e\<in>set es. length (edge_bytes e) = edge_size" by (simp add: length_edge_bytes)
  have len: "length ?buf = ?eoff + length es * edge_size"
    using concat_size [OF nl] concat_size [OF el] hl unfolding buf by simp
  have f: "field ?buf 0 4 = unat EG_BIN_MAGIC" "field ?buf 4 4 = unat EG_BIN_VERSION"
    "field ?buf 8 4 = length ns" "field ?buf 12 4 = length es"
    using field_at [of 0 "[]" 4 "unat EG_BIN_MAGIC"]
      field_at [of 4 "le_bytes 4 (unat EG_BIN_MAGIC)" 4 "unat EG_BIN_VERSION"]
      field_at [of 8 "le_bytes 4 (unat EG_BIN_MAGIC) @ le_bytes 4 (unat EG_BIN_VERSION)" 4 "length ns"]
      field_at [of 12 "le_bytes 4 (unat EG_BIN_MAGIC) @ le_bytes 4 (unat EG_BIN_VERSION) @ le_bytes 4 (length ns)" 4 "length es"]
      s(2,3) unfolding graph_bytes_def
    by (simp_all add: EG_BIN_MAGIC_def EG_BIN_VERSION_def)
  have rn: "map (\<lambda>i. read_node ?buf (header_size + i * node_size)) [0..<length ns] = ns"
    using read_array [of ns read_node node_bytes node_size hd_bytes] read_node_bytes s(4) nl hl unfolding buf by simp
  have re: "map (\<lambda>i. read_edge ?buf (?eoff + i * edge_size)) [0..<length es] = es"
    using read_array [of es read_edge edge_bytes edge_size "hd_bytes @ concat (map node_bytes ns)" "[]"]
      read_edge_bytes el hl concat_size [OF nl] unfolding buf by simp
  obtain g0 where g0: "eg_create mem = Some g0" using assms(2) by (simp add: eg_create_def grants_all_def)
  have "\<exists>g'. fold_outcome (load_node mem) ns g0 = Returns g' \<and> graph_inv g' \<and> eg_nodes g' = graph_nodes ([] @ ns) \<and>
      rf_edges g' = []"
    by (rule load_list) (use create_inv [OF g0] assms(2) s in \<open>auto simp: graph_nodes_def\<close>)
  then obtain g1 where g1: "fold_outcome (load_node mem) ns g0 = Returns g1" "graph_inv g1" "eg_nodes g1 = graph_nodes ns"
    "rf_edges g1 = []" by auto
  have "\<forall>e\<in>set es. (\<exists>t. key_type ns (be_src e) = Some t \<and> eg_is_write_like t) \<and>
      (\<exists>t. key_type ns (be_dst e) = Some t \<and> eg_is_read_like t)"
    using assms(1) by (simp add: sendable_def list_all_iff case_option_ex)
  then obtain g2 where g2: "fold_outcome (load_edge mem) es g1 = Returns g2" "eg_nodes g2 = graph_nodes ns"
    "rf_edges g2 = graph_edges ns es"
    using link_list [OF assms(2) g1(2,3)] g1(4) s(3) by auto
  have cas: "\<forall>n\<in>set (graph_nodes ns). n_type n \<noteq> EG_OP_CAS"
    using assms(1) by (auto simp: sendable_def list_all_iff graph_nodes_def)
  have rf: "\<exists>e\<in>set (graph_edges ns es). dst_id e = n_id n" if "n \<in> set (graph_nodes ns)" "eg_is_read_like (n_type n)" for n
    using reads_have_edges [OF that s(1), of es] assms(1) by (auto simp: sendable_def list_all_iff list_ex_iff)
  have "eg_deserialize_binary_mem mem ?buf = Returns (Some g2)"
    unfolding eg_deserialize_binary_mem_def Let_def f load_nodes_fold load_edges_fold rn re g0
    using len g1 g2 cas rf
    by (simp add: eg_validate_cas_resolved_def eg_validate_read_nodes_have_rf_def eg_has_incoming_rf_edge_def list_ex_iff)
  then show ?thesis using g2 by blast
qed

text \<open>
  C8. Round trip: the bytes of any sendable schedule (unique keys, decided compare-and-swaps,
  edges from stores to reads, an edge for every read, fewer than \<open>2 ^ 27\<close> nodes and
  \<open>2 ^ 30\<close> edges), with memory available, are loaded as
  exactly that graph: its nodes in order, numbered from 1, and its edges in order between the
  numbers of the nodes their keys name.
\<close>
theorem eg_binary_roundtrip:
  assumes "sendable ns es" and "grants_all mem"
  shows "\<exists>g. eg_deserialize_binary_mem mem (graph_bytes ns es) = Returns (Some g) \<and>
    eg_nodes g = graph_nodes ns \<and> rf_edges g = graph_edges ns es"
  using assms by (rule read_back)

definition sample_nodes :: "bin_node list" where
  "sample_nodes =
     [\<lparr>bn_key = (1, 5, 1), bn_type = 1, bn_location = [48, 120, 65] @ replicate 61 0, bn_value = 7\<rparr>,
      \<lparr>bn_key = (2, 9, 1), bn_type = 0, bn_location = [48, 120, 65] @ replicate 61 0, bn_value = 0\<rparr>]"

theorem eg_binary_roundtrip_witness:
  "\<exists>g. eg_deserialize_binary_mem ample (graph_bytes sample_nodes [\<lparr>be_src = (1, 5, 1), be_dst = (2, 9, 1)\<rparr>]) =
      Returns (Some g) \<and>
    map n_id (eg_nodes g) = [1, 2] \<and> rf_edges g = [\<lparr>src_id = 1, dst_id = 2\<rparr>]"
proof -
  have "sendable sample_nodes [\<lparr>be_src = (1, 5, 1), be_dst = (2, 9, 1)\<rparr>]"
    by (simp add: sendable_def sample_nodes_def key_type_def eg_is_read_like_def eg_is_write_like_def eg_ops)
  moreover have "grants_all ample" by (simp add: grants_all_def ample_def)
  moreover have "[0..<2] = [0, Suc 0]" by (simp add: upt_rec)
  ultimately show ?thesis
    using eg_binary_roundtrip [of sample_nodes "[\<lparr>be_src = (1, 5, 1), be_dst = (2, 9, 1)\<rparr>]" ample]
    by (auto simp: graph_nodes_def graph_edges_def sample_nodes_def key_id_def numeral_2_eq_2)
qed

theorem eg_binary_loads_well_formed_witness:
  "case eg_deserialize_binary_mem ample (graph_bytes sample_nodes [\<lparr>be_src = (1, 5, 1), be_dst = (2, 9, 1)\<rparr>]) of
      Returns None \<Rightarrow> True | Returns (Some g) \<Rightarrow> well_formed g | Exits c \<Rightarrow> c \<in> {10, 12} | Diverges \<Rightarrow> False"
  by (rule eg_binary_loads_well_formed)
    (simp add: graph_bytes_def sample_nodes_def length_node_bytes length_edge_bytes)

end
