(* ===== verification/SchedHistory.thy ===== *)
theory SchedHistory imports EventGraphBinary "HOL-Library.Sublist" begin

text \<open>
  The write history of the scheduler (\<^verbatim>\<open>src/wmm-runtime/scheduler.c\<close>, from \<open>WriteEvent\<close> to
  \<open>satisfy_load_from_write\<close>): every modelled store is an entry in a hash bucket and in a
  global list, newest first; per address at most a fixed number of entries is kept. Entries are
  threaded into both lists by pointers and never change once they are entered, so each list is
  modelled as the list of its entries, and an entry is identified by its timestamp. The clock
  counts stores of one run.
\<close>

section \<open>State\<close>

record write_event =
  we_addr :: ptr
  we_val :: s64
  we_bytes :: "u8 list option"
  we_loc_id :: u64
  we_tid :: u64
  we_iid :: s64
  we_vid :: s32
  we_gnid :: u64
  we_timestamp :: nat
  we_arena :: "nat option"

text \<open>
  \<open>we_arena\<close> is the slot of the arena an entry lives in, or \<open>None\<close> for an entry from
  \<open>malloc\<close>. The size of an entry's payload is the length of its bytes, 0 for none.
\<close>

record history =
  buckets :: "nat \<Rightarrow> write_event list"
  global_history :: "write_event list"
  write_clock :: nat
  arena_capacity :: nat
  arena_count :: nat

text \<open>Which allocations succeed: the arena, an entry outside it, the payload of an entry.\<close>

record hist_memory =
  grants_arena :: bool
  grants_entry :: "nat \<Rightarrow> bool"
  grants_payload :: "nat \<Rightarrow> bool"

definition we_size :: "write_event \<Rightarrow> nat" where
  "we_size w = (case we_bytes w of None \<Rightarrow> 0 | Some bs \<Rightarrow> length bs)"

section \<open>Operations\<close>

definition HASH_SIZE :: nat where "HASH_SIZE = 1024"

definition hash_ptr :: "ptr \<Rightarrow> nat" where
  "hash_ptr p = unat (drop_bit 3 p) mod HASH_SIZE"

definition write_event_is_arena_backed :: "write_event \<Rightarrow> bool" where
  "write_event_is_arena_backed w \<longleftrightarrow> we_arena w \<noteq> None"

definition write_event_alloc :: "hist_memory \<Rightarrow> history \<Rightarrow> (nat option \<times> history) outcome" where
  "write_event_alloc mem hs =
     (if arena_count hs < arena_capacity hs
      then Returns (Some (arena_count hs), hs\<lparr>arena_count := arena_count hs + 1\<rparr>)
      else if grants_entry mem (write_clock hs) then Returns (None, hs) else Exits EXIT_INVALID_INPUT)"

definition write_event_arena_grow_if_needed :: "hist_memory \<Rightarrow> history \<Rightarrow> history" where
  "write_event_arena_grow_if_needed mem hs =
     (if 0 < arena_capacity hs then hs
      else if grants_arena mem then hs\<lparr>arena_capacity := 1024\<rparr> else hs)"

definition reset_write_history :: "hist_memory \<Rightarrow> history \<Rightarrow> history" where
  "reset_write_history mem hs =
     (let hs = hs\<lparr>buckets := (\<lambda>_. []), arena_count := 0\<rparr>;
          hs = write_event_arena_grow_if_needed mem hs
      in hs\<lparr>write_clock := 0, global_history := []\<rparr>)"

text \<open>The first bytes of a buffer, at most eight, as a little-endian number.\<close>

definition bytes_to_intptr :: "u8 list option \<Rightarrow> s64" where
  "bytes_to_intptr data = (case data of None \<Rightarrow> 0 | Some bs \<Rightarrow> of_nat (le_nat (take 8 bs)))"

definition write_event_value :: "write_event option \<Rightarrow> s64" where
  "write_event_value we =
     (case we of None \<Rightarrow> 0
      | Some w \<Rightarrow> if we_bytes w \<noteq> None \<and> 0 < we_size w then bytes_to_intptr (we_bytes w) else we_val w)"

text \<open>\<open>config_histlimit / sizeof(WriteEvent)\<close>: thirteen fields of eight bytes.\<close>

definition sizeof_write_event :: nat where "sizeof_write_event = 104"
definition config_histlimit :: nat where "config_histlimit = 4096"

definition max_per_addr :: nat where
  "max_per_addr = (let m = config_histlimit div sizeof_write_event in if m < 10 then 10 else m)"

text \<open>The scan of the bucket: the number of entries of an address, and the oldest of them.\<close>

fun bucket_scan :: "ptr \<Rightarrow> write_event list \<Rightarrow> nat \<times> write_event option \<Rightarrow> nat \<times> write_event option" where
  "bucket_scan addr [] acc = acc"
| "bucket_scan addr (w # ws) (n, oldest) =
     bucket_scan addr ws
       (if we_addr w = addr
        then (n + 1, case oldest of None \<Rightarrow> Some w
                     | Some old \<Rightarrow> if we_timestamp w < we_timestamp old then Some w else Some old)
        else (n, oldest))"

definition evict :: "nat \<Rightarrow> write_event \<Rightarrow> history \<Rightarrow> history" where
  "evict h w hs = hs\<lparr>buckets := (buckets hs)(h := remove1 w (buckets hs h)),
     global_history := remove1 w (global_history hs)\<rparr>"

definition payload_of :: "u8 list option \<Rightarrow> u8 list option" where
  "payload_of data = (case data of None \<Rightarrow> None | Some bs \<Rightarrow> if bs = [] then None else Some bs)"

definition enter_write :: "hist_memory \<Rightarrow> ptr \<Rightarrow> u8 list option \<Rightarrow> u64 \<Rightarrow> dyn_key \<Rightarrow> u64 \<Rightarrow> history \<Rightarrow>
    history outcome" where
  "enter_write mem addr data loc_id key gnid hs =
     bind_outcome (write_event_alloc mem hs) (\<lambda>(slot, hs).
       if payload_of data \<noteq> None \<and> \<not> grants_payload mem (length (the (payload_of data)))
       then Exits EXIT_INVALID_INPUT
       else let h = hash_ptr addr;
                we = \<lparr>we_addr = addr, we_val = bytes_to_intptr data, we_bytes = payload_of data, we_loc_id = loc_id,
                      we_tid = fst key, we_iid = fst (snd key), we_vid = snd (snd key), we_gnid = gnid,
                      we_timestamp = write_clock hs + 1, we_arena = slot\<rparr>
            in Returns (hs\<lparr>write_clock := write_clock hs + 1,
                           buckets := (buckets hs)(h := we # buckets hs h),
                           global_history := we # global_history hs\<rparr>))"

definition add_history_bytes :: "hist_memory \<Rightarrow> ptr \<Rightarrow> u8 list option \<Rightarrow> u64 \<Rightarrow> dyn_key \<Rightarrow> u64 \<Rightarrow> history \<Rightarrow>
    history outcome" where
  "add_history_bytes mem addr data loc_id key gnid hs =
     (let h = hash_ptr addr
      in case bucket_scan addr (buckets hs h) (0, None) of
           (count_for_addr, Some old) \<Rightarrow>
             enter_write mem addr data loc_id key gnid (if max_per_addr \<le> count_for_addr then evict h old hs else hs)
         | (count_for_addr, None) \<Rightarrow> enter_write mem addr data loc_id key gnid hs)"

definition add_history :: "hist_memory \<Rightarrow> ptr \<Rightarrow> s64 \<Rightarrow> u64 \<Rightarrow> dyn_key \<Rightarrow> u64 \<Rightarrow> history \<Rightarrow> history outcome" where
  "add_history mem addr val loc_id key gnid hs =
     add_history_bytes mem addr (Some (le_bytes 8 (unat val))) loc_id key gnid hs"

section \<open>Searches\<close>

definition find_write_in_history :: "history \<Rightarrow> u64 \<Rightarrow> write_event option" where
  "find_write_in_history hs gnid = find (\<lambda>w. we_gnid w = gnid) (global_history hs)"

definition find_latest_write_by_loc :: "history \<Rightarrow> u64 \<Rightarrow> write_event option" where
  "find_latest_write_by_loc hs loc_id = find (\<lambda>w. we_loc_id w = loc_id) (global_history hs)"

text \<open>\<open>[start, start + size)\<close> of both, with the wrap-around of \<open>uintptr_t\<close>.\<close>

definition overlap_start :: "ptr \<Rightarrow> ptr \<Rightarrow> ptr" where
  "overlap_start l w = (if w < l then l else w)"

definition overlap_end :: "ptr \<Rightarrow> nat \<Rightarrow> ptr \<Rightarrow> nat \<Rightarrow> ptr" where
  "overlap_end l lsize w wsize =
     (let le = l + of_nat lsize; we = w + of_nat wsize in if le < we then le else we)"

definition overlaps :: "ptr \<Rightarrow> nat \<Rightarrow> ptr \<Rightarrow> nat \<Rightarrow> bool" where
  "overlaps l lsize w wsize \<longleftrightarrow> overlap_start l w < overlap_end l lsize w wsize"

definition overlaps_write :: "ptr \<Rightarrow> nat \<Rightarrow> write_event \<Rightarrow> bool" where
  "overlaps_write addr sz w \<longleftrightarrow>
     we_addr w \<noteq> 0 \<and> overlaps addr sz (we_addr w) (if we_size w \<noteq> 0 then we_size w else 8)"

definition find_latest_overlapping_write :: "history \<Rightarrow> ptr \<Rightarrow> nat \<Rightarrow> write_event option" where
  "find_latest_overlapping_write hs addr sz =
     (if addr = 0 then None else find (overlaps_write addr sz) (global_history hs))"

definition find_latest_local_overlapping_write :: "history \<Rightarrow> ptr \<Rightarrow> nat \<Rightarrow> u64 \<Rightarrow> write_event option" where
  "find_latest_local_overlapping_write hs addr sz tid =
     (if addr = 0 then None
      else find (\<lambda>w. we_tid w = tid \<and> overlaps_write addr sz w) (global_history hs))"

text \<open>\<open>r\<close> is what \<open>rand\<close> returns.\<close>

definition find_random_overlapping_write :: "history \<Rightarrow> ptr \<Rightarrow> nat \<Rightarrow> nat \<Rightarrow> write_event option" where
  "find_random_overlapping_write hs addr sz r =
     (if addr = 0 then None
      else let candidates = take 1024 (filter (overlaps_write addr sz) (global_history hs))
           in if candidates = [] then None else Some (candidates ! (r mod length candidates)))"

section \<open>Reading from a write\<close>

text \<open>
  \<open>ram\<close> is the memory of the program. The result is what the call stores in the caller's
  buffer and whether the write overlaps the load; \<open>None\<close> is a buffer that is not there.
\<close>

definition satisfy_load_from_write :: "(ptr \<Rightarrow> u8) \<Rightarrow> nat \<Rightarrow> ptr \<Rightarrow> write_event \<Rightarrow> u8 list \<times> bool" where
  "satisfy_load_from_write ram buf_size load_addr we =
     (if buf_size = 0 then ([], True)
      else let buf = (if load_addr \<noteq> 0 \<and> 4096 \<le> load_addr
                      then map (\<lambda>i. ram (load_addr + of_nat i)) [0..<buf_size] else replicate buf_size 0);
               src = (case we_bytes we of None \<Rightarrow> le_bytes 8 (unat (we_val we)) | Some bs \<Rightarrow> bs)
           in if load_addr \<noteq> 0 \<and> we_addr we \<noteq> 0
              then (if overlaps load_addr buf_size (we_addr we) (length src)
                    then let os = overlap_start load_addr (we_addr we);
                             oe = overlap_end load_addr buf_size (we_addr we) (length src);
                             n = unat (oe - os); pos = unat (os - load_addr); frm = unat (os - we_addr we)
                         in (take pos buf @ take n (drop frm src) @ drop (pos + n) buf, True)
                    else (buf, False))
              else (let n = min (length src) buf_size in (take n src @ drop n buf, True)))"

definition require_rf_overlap_locked :: "bool \<Rightarrow> unit outcome" where
  "require_rf_overlap_locked overlapped = (if overlapped then Returns () else Exits 21)"

section \<open>The history as one bounded queue per address\<close>

definition writes_of :: "ptr \<Rightarrow> history \<Rightarrow> write_event list" where
  "writes_of a hs = filter (\<lambda>w. we_addr w = a) (global_history hs)"

definition newest_first :: "write_event list \<Rightarrow> bool" where
  "newest_first ws \<longleftrightarrow> sorted_wrt (\<lambda>v w. we_timestamp w < we_timestamp v) ws"

definition arena_ok :: "history \<Rightarrow> bool" where
  "arena_ok hs \<longleftrightarrow> arena_count hs \<le> arena_capacity hs \<and>
     (\<forall>w\<in>set (global_history hs). \<forall>i. we_arena w = Some i \<longrightarrow> i < arena_count hs) \<and>
     distinct (map we_arena (filter write_event_is_arena_backed (global_history hs)))"

definition hist_inv :: "history \<Rightarrow> bool" where
  "hist_inv hs \<longleftrightarrow> newest_first (global_history hs) \<and>
     (\<forall>w\<in>set (global_history hs). we_timestamp w \<le> write_clock hs) \<and>
     (\<forall>h. buckets hs h = filter (\<lambda>w. hash_ptr (we_addr w) = h) (global_history hs)) \<and>
     (\<forall>a. length (writes_of a hs) \<le> max_per_addr) \<and> arena_ok hs"

lemma max_per_addr_39: "max_per_addr = 39"
  by (simp add: max_per_addr_def config_histlimit_def sizeof_write_event_def)

lemma newest_first_Cons [simp]:
  "newest_first (w # ws) \<longleftrightarrow> (\<forall>v\<in>set ws. we_timestamp v < we_timestamp w) \<and> newest_first ws"
  by (simp add: newest_first_def)

lemma newest_first_filter: "newest_first ws \<Longrightarrow> newest_first (filter P ws)"
  unfolding newest_first_def by (rule sorted_wrt_filter)

lemma newest_first_distinct: "newest_first ws \<Longrightarrow> distinct ws"
  by (induction ws) (auto simp: newest_first_def)

lemma bucket_scan_last:
  "newest_first ws \<Longrightarrow> (\<forall>old. oldest = Some old \<longrightarrow> (\<forall>w\<in>set ws. we_timestamp w < we_timestamp old)) \<Longrightarrow>
    bucket_scan addr ws (n, oldest) =
      (let same = filter (\<lambda>w. we_addr w = addr) ws
       in (n + length same, if same = [] then oldest else Some (last same)))"
proof (induction ws arbitrary: n oldest)
  case (Cons w ws)
  show ?case
  proof (cases "we_addr w = addr")
    case True
    then have "bucket_scan addr (w # ws) (n, oldest) = bucket_scan addr ws (n + 1, Some w)"
      using Cons.prems(2) by (auto split: option.splits)
    then show ?thesis using Cons.IH [of "Some w" "n + 1"] Cons.prems(1) True by (simp add: Let_def)
  next
    case False
    then show ?thesis using Cons.IH [of oldest n] Cons.prems by (simp add: Let_def)
  qed
qed simp

lemma bucket_same:
  assumes "hist_inv hs"
  shows "filter (\<lambda>w. we_addr w = a) (buckets hs (hash_ptr a)) = writes_of a hs"
proof -
  have "buckets hs (hash_ptr a) = filter (\<lambda>w. hash_ptr (we_addr w) = hash_ptr a) (global_history hs)"
    using assms by (simp add: hist_inv_def)
  then show ?thesis unfolding writes_of_def by (auto intro!: filter_cong)
qed

lemma bucket_scan_writes:
  assumes "hist_inv hs"
  shows "bucket_scan a (buckets hs (hash_ptr a)) (0, None) =
    (length (writes_of a hs), if writes_of a hs = [] then None else Some (last (writes_of a hs)))"
proof -
  have "newest_first (buckets hs (hash_ptr a))"
    using assms newest_first_filter by (simp add: hist_inv_def)
  then show ?thesis using bucket_scan_last [of "buckets hs (hash_ptr a)" None a 0] bucket_same [OF assms, of a]
    by (simp add: Let_def)
qed

lemma filter_neq_last:
  "distinct xs \<Longrightarrow> xs \<noteq> [] \<Longrightarrow> filter (\<lambda>x. x \<noteq> last xs) xs = butlast xs"
  by (induction xs rule: rev_induct) (auto intro: filter_True)

text \<open>Evicting the oldest entry of an address.\<close>

lemma evict_ok:
  assumes inv: "hist_inv hs" and ne: "writes_of a hs \<noteq> []"
  defines "old \<equiv> last (writes_of a hs)"
  shows "hist_inv (evict (hash_ptr a) old hs)"
    and "writes_of b (evict (hash_ptr a) old hs) = (if b = a then butlast (writes_of a hs) else writes_of b hs)"
    and "write_clock (evict (hash_ptr a) old hs) = write_clock hs"
    and "global_history (evict (hash_ptr a) old hs) = filter (\<lambda>w. w \<noteq> old) (global_history hs)"
proof -
  let ?g = "global_history hs" and ?hs = "evict (hash_ptr a) old hs"
  have nf: "newest_first ?g" and d: "distinct ?g" using inv newest_first_distinct by (auto simp: hist_inv_def)
  have "old \<in> set (writes_of a hs)" using ne by (simp add: old_def)
  then have old: "old \<in> set ?g" "we_addr old = a" by (auto simp: writes_of_def)
  show g: "global_history ?hs = filter (\<lambda>w. w \<noteq> old) ?g"
    using d by (simp add: evict_def distinct_remove1_removeAll removeAll_filter_not_eq) metis
  have "remove1 old (buckets hs (hash_ptr a)) = filter (\<lambda>w. w \<noteq> old) (buckets hs (hash_ptr a))"
    using inv d by (simp add: hist_inv_def distinct_remove1_removeAll removeAll_filter_not_eq) metis
  then have b: "buckets ?hs h = filter (\<lambda>w. w \<noteq> old) (buckets hs h)" for h
    using inv old(2) by (auto simp: evict_def hist_inv_def intro!: filter_cong)
  have fb: "buckets ?hs h = filter (\<lambda>w. hash_ptr (we_addr w) = h) (global_history ?hs)" for h
    using b [of h] inv by (simp add: g hist_inv_def conj_commute)
  have w: "writes_of b ?hs = filter (\<lambda>w. w \<noteq> old) (writes_of b hs)" for b
    by (simp add: writes_of_def g conj_commute)
  have dw: "distinct (writes_of a hs)" using d by (simp add: writes_of_def)
  show wb: "writes_of b ?hs = (if b = a then butlast (writes_of a hs) else writes_of b hs)" for b
  proof (cases "b = a")
    case True
    then show ?thesis using w [of a] filter_neq_last [OF dw ne] by (simp add: old_def)
  next
    case False
    then have "filter (\<lambda>w. w \<noteq> old) (writes_of b hs) = writes_of b hs"
      using old(2) by (intro filter_True) (auto simp: writes_of_def)
    then show ?thesis using w [of b] False by simp
  qed
  show "write_clock ?hs = write_clock hs" by (simp add: evict_def)
  have "\<forall>a. length (writes_of a ?hs) \<le> max_per_addr"
    using inv wb by (auto simp: hist_inv_def intro: order_trans [OF diff_le_self])
  moreover have "arena_ok ?hs"
  proof -
    have "filter write_event_is_arena_backed (global_history ?hs) =
        filter (\<lambda>w. w \<noteq> old) (filter write_event_is_arena_backed ?g)"
      by (simp add: g conj_commute)
    then have "distinct (map we_arena (filter write_event_is_arena_backed (global_history ?hs)))"
      using inv distinct_map_filter [of we_arena "filter write_event_is_arena_backed ?g"]
      by (simp add: hist_inv_def arena_ok_def)
    moreover have "arena_count ?hs = arena_count hs" "arena_capacity ?hs = arena_capacity hs"
      by (simp_all add: evict_def)
    ultimately show ?thesis using inv by (auto simp: hist_inv_def arena_ok_def g)
  qed
  moreover have "newest_first (global_history ?hs)" using newest_first_filter [OF nf] by (simp add: g)
  moreover have "\<forall>w\<in>set (global_history ?hs). we_timestamp w \<le> write_clock ?hs"
    using inv by (auto simp: hist_inv_def g evict_def)
  ultimately show "hist_inv ?hs" using fb by (simp add: hist_inv_def)
qed

section \<open>One store\<close>

text \<open>The entry a call makes, up to its timestamp and place.\<close>

type_synonym store_call = "ptr \<times> u8 list option \<times> u64 \<times> dyn_key \<times> u64"

fun made_by :: "store_call \<Rightarrow> write_event \<Rightarrow> bool" where
  "made_by (addr, data, loc_id, (tid, iid, vid), gnid) w \<longleftrightarrow>
     we_addr w = addr \<and> we_val w = bytes_to_intptr data \<and> we_bytes w = payload_of data \<and> we_loc_id w = loc_id \<and>
     we_tid w = tid \<and> we_iid w = iid \<and> we_vid w = vid \<and> we_gnid w = gnid"

fun store_call :: "hist_memory \<Rightarrow> store_call \<Rightarrow> history \<Rightarrow> history outcome" where
  "store_call mem (addr, data, loc_id, key, gnid) hs = add_history_bytes mem addr data loc_id key gnid hs"

fun call_addr :: "store_call \<Rightarrow> ptr" where "call_addr (addr, data, loc_id, key, gnid) = addr"
fun call_gnid :: "store_call \<Rightarrow> u64" where "call_gnid (addr, data, loc_id, key, gnid) = gnid"

definition hist_grants_all :: "hist_memory \<Rightarrow> bool" where
  "hist_grants_all mem \<longleftrightarrow> (\<forall>n. grants_entry mem n) \<and> (\<forall>n. grants_payload mem n)"

text \<open>Entering a newer entry of an address that is below its limit.\<close>

lemma enter_ok:
  assumes inv: "hist_inv hs" and room: "length (writes_of a hs) < max_per_addr"
    and w: "we_addr w = a" "we_timestamp w = write_clock hs + 1" and
      slot: "we_arena w = (if arena_count hs < arena_capacity hs then Some (arena_count hs) else None)"
    and hs': "global_history hs' = w # global_history hs" "write_clock hs' = write_clock hs + 1"
      "buckets hs' = (buckets hs)(hash_ptr a := w # buckets hs (hash_ptr a))" "arena_capacity hs' = arena_capacity hs"
      "arena_count hs' = (if arena_count hs < arena_capacity hs then arena_count hs + 1 else arena_count hs)"
  shows "hist_inv hs' \<and> writes_of b hs' = (if b = a then w # writes_of a hs else writes_of b hs)"
proof -
  have wr: "writes_of b hs' = (if b = a then w # writes_of a hs else writes_of b hs)" for b
    using w(1) by (simp add: writes_of_def hs'(1))
  have old: "\<forall>v\<in>set (global_history hs). we_timestamp v \<le> write_clock hs" using inv by (simp add: hist_inv_def)
  have "newest_first (global_history hs')"
    using inv old w(2) unfolding hs'(1) by (auto simp: hist_inv_def less_Suc_eq_le)
  moreover have "\<forall>v\<in>set (global_history hs'). we_timestamp v \<le> write_clock hs'"
    using old w(2) unfolding hs'(1,2) by (auto intro: le_SucI)
  moreover have "buckets hs' h = filter (\<lambda>v. hash_ptr (we_addr v) = h) (global_history hs')" for h
    using inv w(1) by (auto simp: hs'(1,3) hist_inv_def)
  moreover have "\<forall>c. length (writes_of c hs') \<le> max_per_addr"
    using inv room wr by (auto simp: hist_inv_def)
  moreover have "arena_ok hs'"
  proof -
    have "we_arena v \<noteq> Some (arena_count hs)" if "v \<in> set (global_history hs)" for v
      using inv that by (auto simp: hist_inv_def arena_ok_def)
    then show ?thesis
      using inv slot unfolding hist_inv_def arena_ok_def hs'
      by (force simp: write_event_is_arena_backed_def less_Suc_eq)
  qed
  ultimately show ?thesis using wr by (simp add: hist_inv_def)
qed

text \<open>
  A store either ends the run for lack of memory, or leaves the new entry in front of the
  newest entries of its address, the oldest one gone when the address was at its limit.
\<close>

lemma add_history_cases:
  fixes c :: store_call
  assumes inv: "hist_inv hs"
  defines "a \<equiv> call_addr c"
  shows "(\<exists>hs' w. store_call mem c hs = Returns hs' \<and> hist_inv hs' \<and> made_by c w \<and>
      writes_of a hs' = w # take (max_per_addr - 1) (writes_of a hs) \<and>
      (\<forall>b. b \<noteq> a \<longrightarrow> writes_of b hs' = writes_of b hs) \<and>
      (\<exists>P. global_history hs' = w # filter P (global_history hs))) \<or>
    (store_call mem c hs = Exits EXIT_INVALID_INPUT \<and> \<not> hist_grants_all mem)"
proof -
  obtain data loc_id tid iid vid gnid where c: "c = (a, data, loc_id, (tid, iid, vid), gnid)"
    unfolding a_def by (cases c) auto
  let ?ws = "writes_of a hs"
  define hs1 where "hs1 = (if ?ws \<noteq> [] \<and> max_per_addr \<le> length ?ws then evict (hash_ptr a) (last ?ws) hs else hs)"
  have max: "length ?ws \<le> max_per_addr" "0 < max_per_addr" using inv by (auto simp: hist_inv_def max_per_addr_39)
  have hs1: "hist_inv hs1" "writes_of a hs1 = take (max_per_addr - 1) ?ws"
    "\<And>b. b \<noteq> a \<Longrightarrow> writes_of b hs1 = writes_of b hs" "\<exists>P. global_history hs1 = filter P (global_history hs)"
  proof -
    show "hist_inv hs1" using evict_ok(1) [OF inv] inv by (simp add: hs1_def)
    show "writes_of a hs1 = take (max_per_addr - 1) ?ws"
      using evict_ok(2) [OF inv, of a a] max by (auto simp: hs1_def butlast_conv_take)
    show "writes_of b hs1 = writes_of b hs" if "b \<noteq> a" for b
      using evict_ok(2) [OF inv, of a b] that by (auto simp: hs1_def)
    show "\<exists>P. global_history hs1 = filter P (global_history hs)"
    proof (cases "?ws \<noteq> [] \<and> max_per_addr \<le> length ?ws")
      case True
      then show ?thesis using evict_ok(4) [OF inv, of a] unfolding hs1_def by auto
    next
      case False
      then show ?thesis unfolding hs1_def by (intro exI [of _ "\<lambda>_. True"]) auto
    qed
  qed
  have room: "length (writes_of a hs1) < max_per_addr" using hs1(2) max by simp
  have st: "store_call mem c hs = enter_write mem a data loc_id (tid, iid, vid) gnid hs1"
    unfolding c store_call.simps add_history_bytes_def Let_def bucket_scan_writes [OF inv] hs1_def by simp
  show ?thesis
  proof (cases "hist_grants_all mem \<or> (\<exists>hs'. store_call mem c hs = Returns hs')")
    case False
    then show ?thesis unfolding st
      by (auto simp: enter_write_def write_event_alloc_def Let_def split: if_splits)
  next
    case True
    then obtain hs' where r: "store_call mem c hs = Returns hs'"
      unfolding st by (auto simp: enter_write_def write_event_alloc_def hist_grants_all_def Let_def split: if_splits)
    define w where "w = \<lparr>we_addr = a, we_val = bytes_to_intptr data, we_bytes = payload_of data, we_loc_id = loc_id,
      we_tid = tid, we_iid = iid, we_vid = vid, we_gnid = gnid, we_timestamp = write_clock hs1 + 1,
      we_arena = (if arena_count hs1 < arena_capacity hs1 then Some (arena_count hs1) else None)\<rparr>"
    have g: "global_history hs' = w # global_history hs1" "write_clock hs' = write_clock hs1 + 1"
      "buckets hs' = (buckets hs1)(hash_ptr a := w # buckets hs1 (hash_ptr a))" "arena_capacity hs' = arena_capacity hs1"
      "arena_count hs' = (if arena_count hs1 < arena_capacity hs1 then arena_count hs1 + 1 else arena_count hs1)"
      using r unfolding st by (auto simp: enter_write_def write_event_alloc_def Let_def w_def split: if_splits)
    have wf: "we_addr w = a" "we_timestamp w = write_clock hs1 + 1"
      "we_arena w = (if arena_count hs1 < arena_capacity hs1 then Some (arena_count hs1) else None)"
      by (simp_all add: w_def)
    note e = enter_ok [OF hs1(1) room wf g]
    have "made_by c w" by (simp add: c w_def)
    then show ?thesis using r e hs1(2-4) g(1) by (intro disjI1 exI [of _ hs'] exI [of _ w]) auto
  qed
qed

section \<open>Any number of stores\<close>

fun store_calls :: "hist_memory \<Rightarrow> store_call list \<Rightarrow> history \<Rightarrow> history outcome" where
  "store_calls mem [] hs = Returns hs"
| "store_calls mem (c # cs) hs = bind_outcome (store_call mem c hs) (store_calls mem cs)"

lemma reset_inv:
  "hist_inv (reset_write_history mem hs)" "writes_of a (reset_write_history mem hs) = []"
  "global_history (reset_write_history mem hs) = []"
  by (simp_all add: reset_write_history_def write_event_arena_grow_if_needed_def hist_inv_def newest_first_def
      writes_of_def arena_ok_def Let_def)

text \<open>The entries kept of an address are made by its last calls, and the list only holds such entries.\<close>

definition mirrors :: "history \<Rightarrow> store_call list \<Rightarrow> bool" where
  "mirrors hs cs \<longleftrightarrow>
     (\<forall>a. list_all2 made_by (take max_per_addr (rev (filter (\<lambda>c. call_addr c = a) cs))) (writes_of a hs)) \<and>
     (\<exists>ds. list_all2 made_by ds (global_history hs) \<and> subseq ds (rev cs))"

lemma list_all2_filter_right:
  "list_all2 R xs ys \<Longrightarrow> \<exists>zs. list_all2 R zs (filter P ys) \<and> subseq zs xs"
proof (induction rule: list_all2_induct)
  case (Cons x xs y ys)
  then show ?case by (auto intro: list_all2_Cons [THEN iffD2])
qed auto

lemma mirrors_step:
  assumes inv: "hist_inv hs" and m: "mirrors hs cs" and ret: "store_call mem c hs = Returns hs'"
  shows "hist_inv hs'" and "mirrors hs' (cs @ [c])"
proof -
  obtain w P where w: "hist_inv hs'" "made_by c w"
    "writes_of (call_addr c) hs' = w # take (max_per_addr - 1) (writes_of (call_addr c) hs)"
    "\<And>b. b \<noteq> call_addr c \<Longrightarrow> writes_of b hs' = writes_of b hs" "global_history hs' = w # filter P (global_history hs)"
    using add_history_cases [OF inv, of mem c] ret by auto
  show "hist_inv hs'" by (rule w(1))
  have "list_all2 made_by (take max_per_addr (rev (filter (\<lambda>d. call_addr d = a) (cs @ [c])))) (writes_of a hs')" for a
  proof (cases "a = call_addr c")
    case True
    let ?old = "take max_per_addr (rev (filter (\<lambda>d. call_addr d = a) cs))"
    have "list_all2 made_by ?old (writes_of a hs)" using m by (simp add: mirrors_def)
    then have "list_all2 made_by (take (max_per_addr - 1) ?old) (take (max_per_addr - 1) (writes_of a hs))"
      by (rule list_all2_takeI)
    moreover have "take max_per_addr (rev (filter (\<lambda>d. call_addr d = a) (cs @ [c]))) = c # take (max_per_addr - 1) ?old"
      using True by (simp add: take_Cons' max_per_addr_39)
    ultimately show ?thesis using w(2,3) True by simp
  qed (use m w(4) in \<open>auto simp: mirrors_def\<close>)
  moreover obtain ds where ds: "list_all2 made_by ds (global_history hs)" "subseq ds (rev cs)"
    using m by (auto simp: mirrors_def)
  then obtain es where "list_all2 made_by es (filter P (global_history hs))" "subseq es ds"
    using list_all2_filter_right by blast
  then have "list_all2 made_by (c # es) (global_history hs') \<and> subseq (c # es) (rev (cs @ [c]))"
    using w(2,5) ds(2) subseq_order.order_trans by auto
  ultimately show "mirrors hs' (cs @ [c])" by (auto simp: mirrors_def)
qed

lemma store_calls_mirror:
  "hist_inv hs \<Longrightarrow> mirrors hs ds \<Longrightarrow> store_calls mem cs hs = Returns hs' \<Longrightarrow> hist_inv hs' \<and> mirrors hs' (ds @ cs)"
proof (induction cs arbitrary: hs ds)
  case (Cons c cs)
  then obtain hs1 where "store_call mem c hs = Returns hs1" "store_calls mem cs hs1 = Returns hs'" by auto
  then show ?case using Cons.IH [of hs1 "ds @ [c]"] mirrors_step [OF Cons.prems(1,2)] by simp
qed simp

lemma store_calls_total:
  "hist_inv hs \<Longrightarrow> (\<exists>hs'. store_calls mem cs hs = Returns hs') \<or>
    (store_calls mem cs hs = Exits EXIT_INVALID_INPUT \<and> \<not> hist_grants_all mem)"
proof (induction cs arbitrary: hs)
  case (Cons c cs)
  consider hs' where "store_call mem c hs = Returns hs'" "hist_inv hs'"
    | "store_call mem c hs = Exits EXIT_INVALID_INPUT" "\<not> hist_grants_all mem"
    using add_history_cases [OF Cons.prems, of mem c] by blast
  then show ?case
  proof cases
    case 1
    then show ?thesis using Cons.IH [OF 1(2)] by auto
  qed simp
qed simp

lemma mirrors_empty: "global_history hs = [] \<Longrightarrow> mirrors hs []"
  by (auto simp: mirrors_def writes_of_def)

section \<open>Overlap\<close>

definition fits :: "ptr \<Rightarrow> nat \<Rightarrow> bool" where
  "fits p n \<longleftrightarrow> unat p + n < 2 ^ 64"

lemma unat_add_nat: "fits p n \<Longrightarrow> unat (p + of_nat n) = unat p + n"
  by (simp add: fits_def unat_word_ariths unat_of_nat)

definition source_bytes :: "write_event \<Rightarrow> u8 list" where
  "source_bytes we = (case we_bytes we of None \<Rightarrow> le_bytes 8 (unat (we_val we)) | Some bs \<Rightarrow> bs)"

lemma overlap_bounds:
  assumes "fits l n" and "fits w m"
  shows "unat (overlap_start l w) = max (unat l) (unat w)"
    and "unat (overlap_end l n w m) = min (unat l + n) (unat w + m)"
    and "overlaps l n w m \<longleftrightarrow> max (unat l) (unat w) < min (unat l + n) (unat w + m)"
proof -
  show s: "unat (overlap_start l w) = max (unat l) (unat w)"
    by (simp add: overlap_start_def word_less_nat_alt)
  show e: "unat (overlap_end l n w m) = min (unat l + n) (unat w + m)"
    using unat_add_nat [OF assms(1)] unat_add_nat [OF assms(2)]
    by (simp add: overlap_end_def Let_def word_less_nat_alt)
  show "overlaps l n w m \<longleftrightarrow> max (unat l) (unat w) < min (unat l + n) (unat w + m)"
    unfolding overlaps_def word_less_nat_alt s e ..
qed

lemma unat_diff: "(b::u64) \<le> a \<Longrightarrow> unat (a - b) = unat a - unat b"
  by (rule unat_sub)

text \<open>The copy of the overlap, byte by byte.\<close>

lemma overlay_nth:
  assumes "pos + n \<le> length buf" and "frm + n \<le> length src" and "i < length buf"
  shows "length (take pos buf @ take n (drop frm src) @ drop (pos + n) buf) = length buf"
    and "(take pos buf @ take n (drop frm src) @ drop (pos + n) buf) ! i =
      (if pos \<le> i \<and> i < pos + n then src ! (frm + (i - pos)) else buf ! i)"
  using assms by (auto simp: nth_append)

definition background :: "(ptr \<Rightarrow> u8) \<Rightarrow> ptr \<Rightarrow> nat \<Rightarrow> u8" where
  "background ram l i = (if 4096 \<le> l then ram (l + of_nat i) else 0)"

definition covers :: "write_event \<Rightarrow> ptr \<Rightarrow> nat \<Rightarrow> bool" where
  "covers we l i \<longleftrightarrow>
     unat (we_addr we) \<le> unat l + i \<and> unat l + i < unat (we_addr we) + length (source_bytes we)"

definition loaded_byte :: "(ptr \<Rightarrow> u8) \<Rightarrow> write_event \<Rightarrow> ptr \<Rightarrow> nat \<Rightarrow> u8" where
  "loaded_byte ram we l i =
     (if covers we l i then source_bytes we ! (unat l + i - unat (we_addr we)) else background ram l i)"

lemma satisfy_load:
  assumes "fits l n" and "fits (we_addr we) (length (source_bytes we))" and "l \<noteq> 0" and "we_addr we \<noteq> 0" and "0 < n"
  shows "satisfy_load_from_write ram n l we = (map (loaded_byte ram we l) [0..<n], \<exists>i<n. covers we l i)"
proof -
  let ?w = "we_addr we" and ?src = "source_bytes we"
  define buf where "buf = (if l \<noteq> 0 \<and> 4096 \<le> l then map (\<lambda>i. ram (l + of_nat i)) [0..<n] else replicate n 0)"
  have bl: "length buf = n" and bn: "\<And>i. i < n \<Longrightarrow> buf ! i = background ram l i"
    using assms(3) by (auto simp: buf_def background_def)
  let ?s = "max (unat l) (unat ?w)" and ?e = "min (unat l + n) (unat ?w + length ?src)"
  note ob = overlap_bounds [OF assms(1,2)]
  have ov: "overlaps l n ?w (length ?src) \<longleftrightarrow> (\<exists>i<n. covers we l i)"
    unfolding ob(3) covers_def
  proof
    assume "?s < ?e"
    then show "\<exists>i<n. unat ?w \<le> unat l + i \<and> unat l + i < unat ?w + length ?src"
      by (intro exI [of _ "?s - unat l"]) auto
  qed auto
  show ?thesis
  proof (cases "overlaps l n ?w (length ?src)")
    case False
    then have "\<And>i. i < n \<Longrightarrow> loaded_byte ram we l i = buf ! i" using ov bn by (simp add: loaded_byte_def)
    then have "buf = map (loaded_byte ram we l) [0..<n]" using bl by (intro nth_equalityI) auto
    moreover have "satisfy_load_from_write ram n l we = (buf, False)"
      using False assms(3-5) unfolding satisfy_load_from_write_def Let_def source_bytes_def [symmetric] buf_def [symmetric]
      by simp
    ultimately show ?thesis using False ov by simp
  next
    case True
    let ?os = "overlap_start l ?w" and ?oe = "overlap_end l n ?w (length ?src)"
    have lt: "?s < ?e" using True ob(3) by simp
    have os: "unat (?oe - ?os) = ?e - ?s" "unat (?os - l) = ?s - unat l" "unat (?os - ?w) = ?s - unat ?w"
      using ob(1,2) lt by (simp_all add: unat_diff word_le_nat_alt)
    define pos where "pos = ?s - unat l"
    define frm where "frm = ?s - unat ?w"
    define k where "k = ?e - ?s"
    have fit: "pos + k \<le> length buf" "frm + k \<le> length ?src" using lt bl by (auto simp: pos_def frm_def k_def)
    have "satisfy_load_from_write ram n l we = (take pos buf @ take k (drop frm ?src) @ drop (pos + k) buf, True)"
      using True assms(3-5)
      unfolding satisfy_load_from_write_def Let_def source_bytes_def [symmetric] buf_def [symmetric] os pos_def frm_def k_def
      by simp
    moreover have "take pos buf @ take k (drop frm ?src) @ drop (pos + k) buf = map (loaded_byte ram we l) [0..<n]"
    proof (rule nth_equalityI)
      show "length (take pos buf @ take k (drop frm ?src) @ drop (pos + k) buf) = length (map (loaded_byte ram we l) [0..<n])"
        using overlay_nth(1) [OF fit, of 0] assms(5) bl by simp
      fix i assume "i < length (take pos buf @ take k (drop frm ?src) @ drop (pos + k) buf)"
      then have i: "i < n" using overlay_nth(1) [OF fit, of 0] assms(5) bl by simp
      have "(pos \<le> i \<and> i < pos + k) = covers we l i" using i lt by (auto simp: pos_def k_def covers_def)
      moreover have "frm + (i - pos) = unat l + i - unat ?w" if "pos \<le> i"
        using that by (auto simp: pos_def frm_def)
      ultimately show "(take pos buf @ take k (drop frm ?src) @ drop (pos + k) buf) ! i = map (loaded_byte ram we l) [0..<n] ! i"
        using overlay_nth(2) [OF fit, of i] i bl bn by (auto simp: loaded_byte_def)
    qed
    ultimately show ?thesis using True ov by simp
  qed
qed

section \<open>Properties\<close>

text \<open>
  C6. The write history against a bounded queue per address: from a reset, any number of stores
  either ends the run with the exit status of invalid input for lack of memory, or leaves, for
  every address, exactly its last 39 stores, newest first, both in the global list and in the
  bucket of the address, no two live entries in one arena slot. A forced read of a write then
  finds no entry exactly when the write is not among the last 39 of its address.
\<close>
theorem sched_history_keeps_last:
  "case store_calls mem cs (reset_write_history mem hs0) of
     Returns hs \<Rightarrow>
       (\<forall>a. list_all2 made_by (take 39 (rev (filter (\<lambda>c. call_addr c = a) cs))) (writes_of a hs)) \<and>
       (\<forall>a. filter (\<lambda>w. we_addr w = a) (buckets hs (hash_ptr a)) = writes_of a hs) \<and> arena_ok hs \<and>
       (\<forall>g. find_write_in_history hs g = None \<longleftrightarrow>
         (\<forall>a. g \<notin> call_gnid ` set (take 39 (rev (filter (\<lambda>c. call_addr c = a) cs)))))
   | Exits c \<Rightarrow> c = EXIT_INVALID_INPUT \<and> \<not> hist_grants_all mem
   | Diverges \<Rightarrow> False"
proof (cases "store_calls mem cs (reset_write_history mem hs0)")
  case (Returns hs)
  note r = reset_inv(1,3) [of mem hs0]
  have hs: "hist_inv hs" "mirrors hs cs"
    using store_calls_mirror [OF r(1) mirrors_empty [OF r(2)] Returns] by auto
  have all: "list_all2 made_by (take 39 (rev (filter (\<lambda>c. call_addr c = a) cs))) (writes_of a hs)" for a
    using hs(2) by (simp add: mirrors_def max_per_addr_39)
  have gn: "call_gnid ` set (take 39 (rev (filter (\<lambda>c. call_addr c = a) cs))) = we_gnid ` set (writes_of a hs)" for a
    using all [of a]
  proof (induction rule: list_all2_induct)
    case (Cons c cs w ws)
    then show ?case by (cases c) auto
  qed simp
  have "find_write_in_history hs g = None \<longleftrightarrow> (\<forall>a. g \<notin> we_gnid ` set (writes_of a hs))" for g
    by (auto simp: find_write_in_history_def find_None_iff writes_of_def)
  then show ?thesis using Returns all bucket_same [OF hs(1)] hs(1) gn by (simp add: hist_inv_def)
qed (use store_calls_total [OF reset_inv(1) [of mem hs0], of mem cs] in auto)

text \<open>
  C29. Serving a load from a write, for ranges inside the address space: the buffer has the
  write's byte at every address the write covers and the byte of memory (zero in the first page)
  at every other, and the call reports whether the two ranges share a byte, so that a forced read
  goes on exactly when they do and ends the run as not instantiable otherwise.
\<close>
theorem sched_satisfy_load:
  assumes "fits l n" and "fits (we_addr we) (length (source_bytes we))" and "l \<noteq> 0" and "we_addr we \<noteq> 0" and "0 < n"
  shows "satisfy_load_from_write ram n l we = (map (loaded_byte ram we l) [0..<n], \<exists>i<n. covers we l i) \<and>
    require_rf_overlap_locked (snd (satisfy_load_from_write ram n l we)) =
      (if \<exists>i<n. covers we l i then Returns () else Exits 21)"
  using satisfy_load [OF assms] by (simp_all add: require_rf_overlap_locked_def)


text \<open>Two bytes of a four-byte load are covered by a two-byte store.\<close>

theorem sched_satisfy_load_witness:
  "satisfy_load_from_write (\<lambda>p. 9) 4 8192
      \<lparr>we_addr = 8194, we_val = 0, we_bytes = Some [1, 2], we_loc_id = 0, we_tid = 0, we_iid = 0, we_vid = 1,
       we_gnid = 3, we_timestamp = 1, we_arena = None\<rparr> = ([9, 9, 1, 2], True)"
proof -
  let ?w = "\<lparr>we_addr = 8194, we_val = 0, we_bytes = Some [1, 2], we_loc_id = 0, we_tid = 0, we_iid = 0, we_vid = 1,
       we_gnid = 3, we_timestamp = 1, we_arena = None\<rparr> :: write_event"
  have "covers ?w 8192 2" by (simp add: covers_def source_bytes_def)
  then have "\<exists>i<4. covers ?w 8192 i" by (intro exI [of _ 2]) simp
  then show ?thesis
    using sched_satisfy_load [of 8192 4 ?w "\<lambda>p. 9"]
    by (simp add: fits_def source_bytes_def loaded_byte_def covers_def background_def upt_rec)
qed

end
