(* ===== verification/SchedThreads.thy ===== *)
theory SchedThreads imports EventGraph begin

text \<open>
  The thread tables of the scheduler (\<^verbatim>\<open>scheduler.c\<close>): per thread whether it is known, was ever
  started, is active, waits for a write, is blocked on an unknown event or waits in a join, and the
  three counters kept beside the tables. The functions run under \<open>sched_lock\<close>; a broadcast on
  the condition variable changes no state.
\<close>

section \<open>State\<close>

definition MAX_THREADS :: nat where "MAX_THREADS = 128"

record threads =
  active_threads :: int
  alive_threads :: int
  blocked_unknown_threads :: int
  waiting_status :: "nat \<Rightarrow> u64"
  blocked_unknown_status :: "nat \<Rightarrow> bool"
  join_wait_status :: "nat \<Rightarrow> bool"
  active_status :: "nat \<Rightarrow> bool"
  known_thread_status :: "nat \<Rightarrow> bool"
  thread_ever_started :: "nat \<Rightarrow> bool"

text \<open>What \<open>scheduler_init\<close> resets.\<close>

definition init_threads :: threads where
  "init_threads = \<lparr>active_threads = 0, alive_threads = 0, blocked_unknown_threads = 0,
     waiting_status = (\<lambda>_. 0), blocked_unknown_status = (\<lambda>_. False), join_wait_status = (\<lambda>_. False),
     active_status = (\<lambda>_. False), known_thread_status = (\<lambda>_. False), thread_ever_started = (\<lambda>_. False)\<rparr>"

section \<open>Operations\<close>

definition thread_slot :: "u64 \<Rightarrow> nat option" where
  "thread_slot tid = (if unat tid < MAX_THREADS then Some (unat tid) else None)"

text \<open>A thread number of type \<open>int\<close>, when it indexes the tables.\<close>

definition table_index :: "int \<Rightarrow> nat option" where
  "table_index tid = (if 0 \<le> tid \<and> tid < int MAX_THREADS then Some (nat tid) else None)"

definition set_known :: "nat \<Rightarrow> threads \<Rightarrow> threads" where
  "set_known s t = t\<lparr>known_thread_status := (known_thread_status t)(s := True),
     thread_ever_started := (thread_ever_started t)(s := True), alive_threads := alive_threads t + 1\<rparr>"

definition set_active :: "nat \<Rightarrow> threads \<Rightarrow> threads" where
  "set_active s t = t\<lparr>active_status := (active_status t)(s := True), active_threads := active_threads t + 1\<rparr>"

definition ensure_event_thread_active_locked :: "nat \<Rightarrow> threads \<Rightarrow> threads" where
  "ensure_event_thread_active_locked slot t =
     (if MAX_THREADS \<le> slot then t
      else let t = (if \<not> known_thread_status t slot then set_known slot t else t)
           in if \<not> active_status t slot then set_active slot t else t)"

definition created_threads :: "int \<Rightarrow> threads \<Rightarrow> threads" where
  "created_threads tid t =
     (case table_index tid of None \<Rightarrow> t
      | Some s \<Rightarrow> if \<not> thread_ever_started t s then set_known s t else t)"

text \<open>Clearing the waits of a thread; the counter of blocked threads is not adjusted.\<close>

definition clear_waits :: "nat \<Rightarrow> threads \<Rightarrow> threads" where
  "clear_waits s t = t\<lparr>blocked_unknown_status := (blocked_unknown_status t)(s := False),
     join_wait_status := (join_wait_status t)(s := False), waiting_status := (waiting_status t)(s := 0)\<rparr>"

definition registered_threads :: "int \<Rightarrow> threads \<Rightarrow> threads" where
  "registered_threads tid t =
     (case table_index tid of None \<Rightarrow> t
      | Some s \<Rightarrow>
          (let t = clear_waits s (if \<not> known_thread_status t s then set_known s t else t)
           in if \<not> active_status t s then set_active s t else t))"

definition scheduler_thread_unregistered :: "int \<Rightarrow> threads \<Rightarrow> threads" where
  "scheduler_thread_unregistered tid t =
     (case table_index tid of None \<Rightarrow> t
      | Some s \<Rightarrow>
          (let t = t\<lparr>waiting_status := (waiting_status t)(s := 0),
                     join_wait_status := (join_wait_status t)(s := False)\<rparr>;
               t = (if active_status t s
                    then t\<lparr>active_status := (active_status t)(s := False), active_threads := active_threads t - 1\<rparr>
                    else t);
               t = (if known_thread_status t s
                    then t\<lparr>known_thread_status := (known_thread_status t)(s := False), alive_threads := alive_threads t - 1\<rparr>
                    else t)
           in if blocked_unknown_status t s
              then t\<lparr>blocked_unknown_status := (blocked_unknown_status t)(s := False),
                     blocked_unknown_threads :=
                       (if 0 < blocked_unknown_threads t then blocked_unknown_threads t - 1
                        else blocked_unknown_threads t)\<rparr>
              else t))"

definition scheduler_thread_join_wait_begin :: "int \<Rightarrow> threads \<Rightarrow> threads" where
  "scheduler_thread_join_wait_begin tid t =
     (case table_index tid of None \<Rightarrow> t
      | Some s \<Rightarrow>
          (if active_status t s
           then t\<lparr>join_wait_status := (join_wait_status t)(s := True), waiting_status := (waiting_status t)(s := 0)\<rparr>
           else t))"

definition join_ended_threads :: "int \<Rightarrow> threads \<Rightarrow> threads" where
  "join_ended_threads tid t =
     (case table_index tid of None \<Rightarrow> t
      | Some s \<Rightarrow>
          (if active_status t s then t\<lparr>join_wait_status := (join_wait_status t)(s := False)\<rparr> else t))"

text \<open>The entry of \<open>block_on_unknown_event_locked\<close>, for a mapped thread.\<close>

definition block_thread :: "nat \<Rightarrow> threads \<Rightarrow> threads" where
  "block_thread slot t =
     (let t = ensure_event_thread_active_locked slot t
      in if \<not> blocked_unknown_status t slot
         then t\<lparr>waiting_status := (waiting_status t)(slot := 0),
                blocked_unknown_status := (blocked_unknown_status t)(slot := True),
                blocked_unknown_threads := blocked_unknown_threads t + 1\<rparr>
         else t)"

definition set_waiting :: "nat \<Rightarrow> u64 \<Rightarrow> threads \<Rightarrow> threads" where
  "set_waiting slot w t = t\<lparr>waiting_status := (waiting_status t)(slot := w)\<rparr>"

definition is_thread_runnable_locked :: "threads \<Rightarrow> nat option \<Rightarrow> bool" where
  "is_thread_runnable_locked t slot =
     (case slot of None \<Rightarrow> False
      | Some s \<Rightarrow>
          s < MAX_THREADS \<and> active_status t s \<and> \<not> blocked_unknown_status t s \<and> \<not> join_wait_status t s \<and>
          waiting_status t s = 0)"

text \<open>The only active thread, when the reported one has no slot.\<close>

definition resolve_blocking_slot_locked :: "threads \<Rightarrow> u64 \<Rightarrow> nat option" where
  "resolve_blocking_slot_locked t reported_tid =
     (case thread_slot reported_tid of Some s \<Rightarrow> Some s
      | None \<Rightarrow> (case filter (active_status t) [0..<MAX_THREADS] of [s] \<Rightarrow> Some s | _ \<Rightarrow> None))"

definition has_blocked_or_waiting_threads_locked :: "threads \<Rightarrow> bool" where
  "has_blocked_or_waiting_threads_locked t =
     list_ex (\<lambda>i. active_status t i \<and> (waiting_status t i \<noteq> 0 \<or> blocked_unknown_status t i \<or> join_wait_status t i))
       [0..<MAX_THREADS]"

section \<open>Counters against tables\<close>

definition counted :: "(nat \<Rightarrow> bool) \<Rightarrow> nat" where
  "counted f = card {i. i < MAX_THREADS \<and> f i}"

definition threads_inv :: "threads \<Rightarrow> bool" where
  "threads_inv t \<longleftrightarrow>
     active_threads t = int (counted (active_status t)) \<and>
     alive_threads t = int (counted (known_thread_status t)) \<and>
     int (counted (blocked_unknown_status t)) \<le> blocked_unknown_threads t \<and>
     (\<forall>i<MAX_THREADS. (active_status t i \<longrightarrow> known_thread_status t i) \<and>
       (known_thread_status t i \<longrightarrow> thread_ever_started t i) \<and>
       (blocked_unknown_status t i \<or> join_wait_status t i \<or> waiting_status t i \<noteq> 0 \<longrightarrow> active_status t i))"

lemma counted_set: "s < MAX_THREADS \<Longrightarrow> counted (f(s := True)) = (if f s then counted f else counted f + 1)"
proof -
  assume s: "s < MAX_THREADS"
  have "{i. i < MAX_THREADS \<and> (f(s := True)) i} = insert s {i. i < MAX_THREADS \<and> f i}" using s by auto
  then show ?thesis using s by (auto simp: counted_def card_insert_if)
qed

lemma counted_clear: "s < MAX_THREADS \<Longrightarrow> counted (f(s := False)) = (if f s then counted f - 1 else counted f)"
proof -
  assume s: "s < MAX_THREADS"
  have "{i. i < MAX_THREADS \<and> (f(s := False)) i} = {i. i < MAX_THREADS \<and> f i} - {s}" by auto
  then show ?thesis using s by (auto simp: counted_def)
qed

lemma counted_pos: "s < MAX_THREADS \<Longrightarrow> f s \<Longrightarrow> 0 < counted f"
  by (auto simp: counted_def card_gt_0_iff)

lemma counted_mono: "(\<And>i. i < MAX_THREADS \<Longrightarrow> f i \<Longrightarrow> g i) \<Longrightarrow> counted f \<le> counted g"
  unfolding counted_def by (rule card_mono) auto

lemma table_index_Some: "table_index tid = Some s \<longleftrightarrow> s < MAX_THREADS \<and> tid = int s"
proof (cases "0 \<le> tid \<and> tid < int MAX_THREADS")
  case True
  then have "nat tid < MAX_THREADS" by linarith
  then show ?thesis using True by (auto simp: table_index_def)
qed (auto simp: table_index_def)

lemmas counted_simps = counted_set counted_clear

lemma init_threads_inv: "threads_inv init_threads"
  by (simp add: threads_inv_def init_threads_def counted_def)

lemma set_known_inv:
  "threads_inv t \<Longrightarrow> s < MAX_THREADS \<Longrightarrow> \<not> known_thread_status t s \<Longrightarrow> threads_inv (set_known s t)"
  by (auto simp: threads_inv_def set_known_def counted_simps)

lemma set_active_inv:
  "threads_inv t \<Longrightarrow> s < MAX_THREADS \<Longrightarrow> known_thread_status t s \<Longrightarrow> \<not> active_status t s \<Longrightarrow>
    threads_inv (set_active s t)"
  by (auto simp: threads_inv_def set_active_def counted_simps)

lemma set_known_fields [simp]:
  "active_status (set_known s t) = active_status t" "known_thread_status (set_known s t) = (known_thread_status t)(s := True)"
  "blocked_unknown_status (set_known s t) = blocked_unknown_status t"
  by (simp_all add: set_known_def)

lemma ensure_inv: "threads_inv t \<Longrightarrow> threads_inv (ensure_event_thread_active_locked s t)"
  by (auto simp: ensure_event_thread_active_locked_def Let_def intro!: set_active_inv set_known_inv)

lemma ensure_active: "s < MAX_THREADS \<Longrightarrow> active_status (ensure_event_thread_active_locked s t) s"
  by (auto simp: ensure_event_thread_active_locked_def Let_def set_active_def)

lemma known_started: "threads_inv t \<Longrightarrow> s < MAX_THREADS \<Longrightarrow> known_thread_status t s \<Longrightarrow> thread_ever_started t s"
  by (simp add: threads_inv_def)

lemma active_known: "threads_inv t \<Longrightarrow> s < MAX_THREADS \<Longrightarrow> active_status t s \<Longrightarrow> known_thread_status t s"
  by (simp add: threads_inv_def)

lemma created_inv: "threads_inv t \<Longrightarrow> threads_inv (created_threads tid t)"
  using known_started
  by (auto simp: created_threads_def table_index_Some split: option.splits intro!: set_known_inv)

lemma clear_waits_inv:
  assumes "threads_inv t" and "s < MAX_THREADS"
  shows "threads_inv (clear_waits s t)"
proof -
  have "counted ((blocked_unknown_status t)(s := False)) \<le> counted (blocked_unknown_status t)"
    by (rule counted_mono) (auto split: if_splits)
  then show ?thesis using assms by (auto simp: threads_inv_def clear_waits_def)
qed

lemma registered_inv:
  assumes "threads_inv t"
  shows "threads_inv (registered_threads tid t)"
proof (cases "table_index tid")
  case (Some s)
  let ?t1 = "if \<not> known_thread_status t s then set_known s t else t"
  have s: "s < MAX_THREADS" using Some by (simp add: table_index_Some)
  have k: "threads_inv ?t1" "known_thread_status ?t1 s" using assms s set_known_inv by simp_all
  have "threads_inv (clear_waits s ?t1)" "known_thread_status (clear_waits s ?t1) s"
    using clear_waits_inv [OF k(1) s] k(2) by (simp_all add: clear_waits_def)
  then show ?thesis using Some s by (simp add: registered_threads_def Let_def set_active_inv)
qed (simp add: registered_threads_def assms)

lemma clear_idem: "\<not> f s \<Longrightarrow> f(s := False) = f"
  by (simp add: fun_eq_iff)

lemma unregistered_fields:
  fixes t :: threads
  assumes "table_index tid = Some s"
  defines "t' \<equiv> scheduler_thread_unregistered tid t"
  shows "active_status t' = (active_status t)(s := False)" "known_thread_status t' = (known_thread_status t)(s := False)"
    "blocked_unknown_status t' = (blocked_unknown_status t)(s := False)"
    "join_wait_status t' = (join_wait_status t)(s := False)" "waiting_status t' = (waiting_status t)(s := 0)"
    "thread_ever_started t' = thread_ever_started t"
    "active_threads t' = active_threads t - (if active_status t s then 1 else 0)"
    "alive_threads t' = alive_threads t - (if known_thread_status t s then 1 else 0)"
    "blocked_unknown_threads t' =
       blocked_unknown_threads t - (if blocked_unknown_status t s \<and> 0 < blocked_unknown_threads t then 1 else 0)"
  by (simp_all add: t'_def scheduler_thread_unregistered_def assms(1) Let_def clear_idem)

lemma unregistered_inv:
  assumes "threads_inv t"
  shows "threads_inv (scheduler_thread_unregistered tid t)"
proof (cases "table_index tid")
  case (Some s)
  have s: "s < MAX_THREADS" using Some by (simp add: table_index_Some)
  note f = unregistered_fields [OF Some]
  have inv: "active_threads t = int (counted (active_status t))" "alive_threads t = int (counted (known_thread_status t))"
    "int (counted (blocked_unknown_status t)) \<le> blocked_unknown_threads t"
    using assms by (simp_all add: threads_inv_def)
  have p: "active_status t s \<Longrightarrow> 0 < counted (active_status t)" "known_thread_status t s \<Longrightarrow> 0 < counted (known_thread_status t)"
    "blocked_unknown_status t s \<Longrightarrow> 0 < counted (blocked_unknown_status t)"
    using counted_pos [OF s] by auto
  have c: "active_threads t - (if active_status t s then 1 else 0) = int (counted ((active_status t)(s := False)))"
    "alive_threads t - (if known_thread_status t s then 1 else 0) = int (counted ((known_thread_status t)(s := False)))"
    "int (counted ((blocked_unknown_status t)(s := False))) \<le>
       blocked_unknown_threads t - (if blocked_unknown_status t s \<and> 0 < blocked_unknown_threads t then 1 else 0)"
    unfolding counted_clear [OF s] using inv p by auto
  show ?thesis unfolding threads_inv_def f using c assms by (auto simp: threads_inv_def)
qed (simp add: scheduler_thread_unregistered_def assms)

lemma join_begin_inv: "threads_inv t \<Longrightarrow> threads_inv (scheduler_thread_join_wait_begin tid t)"
  by (auto simp: threads_inv_def scheduler_thread_join_wait_begin_def split: option.splits)

lemma join_ended_inv: "threads_inv t \<Longrightarrow> threads_inv (join_ended_threads tid t)"
  by (auto simp: threads_inv_def join_ended_threads_def split: option.splits)

lemma block_inv:
  assumes "threads_inv t" and "slot < MAX_THREADS"
  shows "threads_inv (block_thread slot t)"
proof -
  let ?t = "ensure_event_thread_active_locked slot t"
  have "threads_inv ?t" "active_status ?t slot" using assms ensure_inv ensure_active by auto
  then show ?thesis using assms(2) by (auto simp: block_thread_def Let_def threads_inv_def counted_set)
qed

lemma set_waiting_inv:
  "threads_inv t \<Longrightarrow> active_status t slot \<Longrightarrow> slot < MAX_THREADS \<Longrightarrow> threads_inv (set_waiting slot w t)"
  by (auto simp: set_waiting_def threads_inv_def)

section \<open>The life of threads as a transition system\<close>

text \<open>
  Any interleaving of the calls the runtime makes: registration and its end, joins, an event
  (which makes its thread active), a wait for a write and its end, a block on an unknown event.
\<close>

inductive thread_step :: "threads \<Rightarrow> threads \<Rightarrow> bool" where
  created: "thread_step t (created_threads tid t)"
| registered: "thread_step t (registered_threads tid t)"
| unregistered: "thread_step t (scheduler_thread_unregistered tid t)"
| join_begin: "thread_step t (scheduler_thread_join_wait_begin tid t)"
| join_end: "thread_step t (join_ended_threads tid t)"
| event: "slot < MAX_THREADS \<Longrightarrow> thread_step t (ensure_event_thread_active_locked slot t)"
| wait_begin: "slot < MAX_THREADS \<Longrightarrow> thread_step t (set_waiting slot w (ensure_event_thread_active_locked slot t))"
| wait_end: "slot < MAX_THREADS \<Longrightarrow> thread_step t (set_waiting slot 0 t)"
| block: "slot < MAX_THREADS \<Longrightarrow> thread_step t (block_thread slot t)"

inductive reachable :: "threads \<Rightarrow> bool" where
  start: "reachable init_threads"
| step: "reachable t \<Longrightarrow> thread_step t t' \<Longrightarrow> reachable t'"

inductive_cases thread_stepE: "thread_step t t'"

lemma wait_end_inv: "threads_inv t \<Longrightarrow> threads_inv (set_waiting slot 0 t)"
  by (auto simp: set_waiting_def threads_inv_def)

lemma thread_step_inv: "thread_step t t' \<Longrightarrow> threads_inv t \<Longrightarrow> threads_inv t'"
  by (induction rule: thread_step.induct)
    (auto intro: created_inv registered_inv unregistered_inv join_begin_inv join_ended_inv ensure_inv block_inv
      wait_end_inv set_waiting_inv ensure_active)

lemma reachable_inv: "reachable t \<Longrightarrow> threads_inv t"
  by (induction rule: reachable.induct) (auto intro: init_threads_inv thread_step_inv)

text \<open>The two counters differ exactly when a known thread is not active.\<close>

lemma active_less_alive:
  assumes inv: "threads_inv t"
  shows "active_threads t \<le> alive_threads t"
    "active_threads t < alive_threads t \<longleftrightarrow> (\<exists>i<MAX_THREADS. known_thread_status t i \<and> \<not> active_status t i)"
proof -
  let ?A = "{i. i < MAX_THREADS \<and> active_status t i}" and ?K = "{i. i < MAX_THREADS \<and> known_thread_status t i}"
  have sub: "?A \<subseteq> ?K" using active_known [OF inv] by auto
  have "card ?A < card ?K \<longleftrightarrow> (\<exists>i<MAX_THREADS. known_thread_status t i \<and> \<not> active_status t i)"
  proof
    assume "card ?A < card ?K"
    then have "?K \<noteq> ?A" by (metis less_irrefl)
    then show "\<exists>i<MAX_THREADS. known_thread_status t i \<and> \<not> active_status t i" using sub by blast
  next
    assume "\<exists>i<MAX_THREADS. known_thread_status t i \<and> \<not> active_status t i"
    then have "?A \<subset> ?K" using sub by blast
    then show "card ?A < card ?K" by (rule psubset_card_mono [rotated]) simp
  qed
  moreover have "card ?A \<le> card ?K" using sub by (simp add: card_mono)
  ultimately show "active_threads t \<le> alive_threads t"
    "active_threads t < alive_threads t \<longleftrightarrow> (\<exists>i<MAX_THREADS. known_thread_status t i \<and> \<not> active_status t i)"
    using inv by (auto simp: threads_inv_def counted_def)
qed

lemma counted_bound: "counted f \<le> MAX_THREADS"
  using card_mono [of "{..<MAX_THREADS}" "{i. i < MAX_THREADS \<and> f i}"] by (auto simp: counted_def)

lemma some_active: "threads_inv t \<Longrightarrow> 0 < active_threads t \<longleftrightarrow> (\<exists>i<MAX_THREADS. active_status t i)"
  by (auto simp: threads_inv_def counted_def card_gt_0_iff)

section \<open>Properties\<close>

text \<open>
  C21. The counters of the scheduler against its tables: in every state reached by any
  interleaving of registrations, ends, joins, events, waits and blocks, \<open>active_threads\<close> and
  \<open>alive_threads\<close> are the numbers of active and of known threads, an active thread is known
  and was started, only active threads wait or are blocked, and the counter of blocked threads is
  never too small; so there are never more active than alive threads, and a thread that is created
  but not yet running is exactly what makes the two differ.
\<close>
theorem sched_thread_counters:
  assumes "reachable t"
  shows "threads_inv t \<and> 0 \<le> active_threads t \<and> active_threads t \<le> alive_threads t \<and> alive_threads t \<le> int MAX_THREADS \<and>
    (active_threads t < alive_threads t \<longleftrightarrow> (\<exists>i<MAX_THREADS. known_thread_status t i \<and> \<not> active_status t i))"
proof -
  have inv: "threads_inv t" using assms by (rule reachable_inv)
  then show ?thesis
    using active_less_alive [OF inv] counted_bound [of "known_thread_status t"] by (auto simp: threads_inv_def)
qed

theorem sched_thread_counters_witness:
  "active_threads (registered_threads 1 (created_threads 2 (created_threads 1 init_threads))) <
   alive_threads (registered_threads 1 (created_threads 2 (created_threads 1 init_threads)))"
proof -
  let ?t = "registered_threads 1 (created_threads 2 (created_threads 1 init_threads))"
  have "reachable ?t"
    by (rule reachable.step [OF reachable.step [OF reachable.step [OF reachable.start thread_step.created]
        thread_step.created] thread_step.registered])
  moreover have "table_index 1 = Some 1" "table_index 2 = Some 2" by (simp_all add: table_index_def MAX_THREADS_def)
  then have "known_thread_status ?t 2 \<and> \<not> active_status ?t 2"
    by (simp add: registered_threads_def created_threads_def init_threads_def set_known_def set_active_def clear_waits_def
        Let_def)
  moreover have "(2::nat) < MAX_THREADS" by (simp add: MAX_THREADS_def)
  ultimately show ?thesis using sched_thread_counters [of ?t] by blast
qed

end
