(* ===== verification/SchedCoverage.thy ===== *)
theory SchedCoverage imports SchedHistory SchedThreads begin

text \<open>
  What the scheduler knows of a run against the input graph (\<^verbatim>\<open>scheduler.c\<close>): the events covered so
  far, the edges covered so far, per thread the order of its events and the frontier in it; which
  events can still be produced, when the run is stuck, and how it is classified at its end. The
  calls run under \<open>sched_lock\<close>.
\<close>

section \<open>State\<close>

record coverage =
  covered_node_ids :: "u64 list"
  covered_capacity :: nat
  covered_rf_edges :: "bool list option"
  covered_node_by_index :: "bool list option"
  event_indices :: "nat \<Rightarrow> nat list option"
  event_count :: "nat \<Rightarrow> nat"
  frontier :: "nat \<Rightarrow> nat"

text \<open>What the allocator grants: arrays of so many elements.\<close>

record cov_memory =
  grants_ids :: "nat \<Rightarrow> bool"
  grants_edge_flags :: "nat \<Rightarrow> bool"
  grants_node_flags :: "nat \<Rightarrow> bool"
  grants_indices :: "nat \<Rightarrow> bool"

definition WMM_EXIT_INSTANTIATED_BUT_NOT_DONE :: nat where "WMM_EXIT_INSTANTIATED_BUT_NOT_DONE = 20"
definition WMM_EXIT_NOT_INSTANTIABLE :: nat where "WMM_EXIT_NOT_INSTANTIABLE = 21"

section \<open>Graph lookups\<close>

text \<open>The source of the first edge into a node, 0 for none.\<close>

definition find_rf_source :: "eg_graph option \<Rightarrow> u64 \<Rightarrow> u64" where
  "find_rf_source g read_id =
     (case g of None \<Rightarrow> 0
      | Some g \<Rightarrow> (case find (\<lambda>e. dst_id e = read_id) (rf_edges g) of None \<Rightarrow> 0 | Some e \<Rightarrow> src_id e))"

definition node_index_by_id_locked :: "eg_graph option \<Rightarrow> u64 \<Rightarrow> nat option" where
  "node_index_by_id_locked g eid =
     (case g of None \<Rightarrow> None | Some g \<Rightarrow> find (\<lambda>i. n_id (eg_nodes g ! i) = eid) [0..<length (eg_nodes g)])"

definition node_slot :: "eg_graph \<Rightarrow> nat \<Rightarrow> nat option" where
  "node_slot g i = thread_slot (n_tid (eg_nodes g ! i))"

section \<open>Thread order and frontier\<close>

definition cmp_node_idx_for_thread_order :: "eg_graph \<Rightarrow> nat \<Rightarrow> nat \<Rightarrow> int" where
  "cmp_node_idx_for_thread_order g ia ib =
     (let na = eg_nodes g ! ia; nb = eg_nodes g ! ib
      in if sint (n_vid na) < sint (n_vid nb) then - 1
         else if sint (n_vid nb) < sint (n_vid na) then 1
         else if n_id na < n_id nb then - 1
         else if n_id nb < n_id na then 1 else 0)"

definition reset_thread_frontier_state :: "coverage \<Rightarrow> coverage" where
  "reset_thread_frontier_state c =
     c\<lparr>event_indices := (\<lambda>_. None), event_count := (\<lambda>_. 0), frontier := (\<lambda>_. 0), covered_node_by_index := None\<rparr>"

text \<open>The nodes of a thread, in the order of the array.\<close>

definition thread_nodes :: "eg_graph \<Rightarrow> nat \<Rightarrow> nat list" where
  "thread_nodes g t = filter (\<lambda>i. node_slot g i = Some t) [0..<length (eg_nodes g)]"

definition init_thread_frontier_state_for_current_graph ::
    "cov_memory \<Rightarrow> eg_graph option \<Rightarrow> coverage \<Rightarrow> coverage" where
  "init_thread_frontier_state_for_current_graph mem graph c =
     (let c = reset_thread_frontier_state c
      in case graph of None \<Rightarrow> c
      | Some g \<Rightarrow>
          (if \<not> grants_node_flags mem (length (eg_nodes g)) then c
           else let c = c\<lparr>covered_node_by_index := Some (replicate (length (eg_nodes g)) False)\<rparr>;
                    total_events = sum_list (map (\<lambda>t. length (thread_nodes g t)) [0..<MAX_THREADS])
                in if 0 < total_events \<and> \<not> grants_indices mem total_events then c
                   else c\<lparr>event_indices := (\<lambda>t. if t < MAX_THREADS \<and> thread_nodes g t \<noteq> []
                             then Some (qsort (cmp_node_idx_for_thread_order g) (thread_nodes g t)) else None),
                          event_count := (\<lambda>t. if t < MAX_THREADS then length (thread_nodes g t) else 0),
                          frontier := (\<lambda>_. 0)\<rparr>))"

definition node_flag :: "coverage \<Rightarrow> nat \<Rightarrow> bool" where
  "node_flag c i = (case covered_node_by_index c of None \<Rightarrow> False | Some fs \<Rightarrow> fs ! i)"

text \<open>The loop of \<open>advance_thread_frontier_locked\<close>, over what is left of the thread's events.\<close>

fun advance_loop :: "coverage \<Rightarrow> nat list \<Rightarrow> nat \<Rightarrow> nat" where
  "advance_loop c [] k = k"
| "advance_loop c (i # is) k = (if node_flag c i then advance_loop c is (k + 1) else k)"

definition advance_thread_frontier_locked :: "nat \<Rightarrow> coverage \<Rightarrow> coverage" where
  "advance_thread_frontier_locked slot c =
     (if MAX_THREADS \<le> slot then c
      else let is = (case event_indices c slot of None \<Rightarrow> [] | Some is \<Rightarrow> is);
               rest = drop (frontier c slot) (take (event_count c slot) is)
           in c\<lparr>frontier := (frontier c)(slot := advance_loop c rest (frontier c slot))\<rparr>)"

definition is_node_frontier_locked :: "eg_graph \<Rightarrow> coverage \<Rightarrow> nat \<Rightarrow> bool" where
  "is_node_frontier_locked g c i =
     (i < length (eg_nodes g) \<and>
      (case node_slot g i of None \<Rightarrow> False
       | Some s \<Rightarrow>
           (case event_indices c s of None \<Rightarrow> False
            | Some is \<Rightarrow> frontier c s < event_count c s \<and> is ! frontier c s = i)))"

definition is_node_covered_locked :: "eg_graph \<Rightarrow> coverage \<Rightarrow> nat \<Rightarrow> bool" where
  "is_node_covered_locked g c i = (i < length (eg_nodes g) \<and> node_flag c i)"

section \<open>Marking\<close>

definition reset_covered_nodes :: "coverage \<Rightarrow> coverage" where
  "reset_covered_nodes c = c\<lparr>covered_node_ids := [], covered_capacity := 0\<rparr>"

definition reset_covered_rf_edges :: "coverage \<Rightarrow> coverage" where
  "reset_covered_rf_edges c = c\<lparr>covered_rf_edges := None\<rparr>"

definition init_covered_rf_edges_for_current_graph ::
    "cov_memory \<Rightarrow> eg_graph option \<Rightarrow> coverage \<Rightarrow> coverage outcome" where
  "init_covered_rf_edges_for_current_graph mem graph c =
     (let c = reset_covered_rf_edges c
      in case graph of None \<Rightarrow> Returns c
      | Some g \<Rightarrow>
          (if rf_edges g = [] then Returns c
           else if grants_edge_flags mem (length (rf_edges g))
           then Returns (c\<lparr>covered_rf_edges := Some (replicate (length (rf_edges g)) False)\<rparr>)
           else Exits EXIT_INVALID_INPUT))"

text \<open>Only the first edge between the two nodes is marked.\<close>

definition mark_rf_edge_covered :: "eg_graph option \<Rightarrow> u64 \<Rightarrow> u64 \<Rightarrow> coverage \<Rightarrow> coverage" where
  "mark_rf_edge_covered graph s d c =
     (case (graph, covered_rf_edges c) of
        (Some g, Some fs) \<Rightarrow>
          (case find (\<lambda>i. src_id (rf_edges g ! i) = s \<and> dst_id (rf_edges g ! i) = d) [0..<length (rf_edges g)] of
             None \<Rightarrow> c | Some i \<Rightarrow> c\<lparr>covered_rf_edges := Some (fs[i := True])\<rparr>)
      | _ \<Rightarrow> c)"

definition all_rf_edges_covered_locked :: "eg_graph option \<Rightarrow> coverage \<Rightarrow> bool" where
  "all_rf_edges_covered_locked graph c =
     (case graph of None \<Rightarrow> False
      | Some g \<Rightarrow>
          (if rf_edges g = [] then True
           else case covered_rf_edges c of None \<Rightarrow> False
           | Some fs \<Rightarrow> list_all (\<lambda>i. fs ! i) [0..<length (rf_edges g)]))"

text \<open>\<open>mark_node_covered\<close>: the flag and the frontier, then the list of identifiers.\<close>

definition flag_node :: "eg_graph option \<Rightarrow> u64 \<Rightarrow> coverage \<Rightarrow> coverage" where
  "flag_node graph eid c =
     (case (graph, node_index_by_id_locked graph eid) of
        (Some g, Some i) \<Rightarrow>
          (let c = c\<lparr>covered_node_by_index := map_option (\<lambda>fs. fs[i := True]) (covered_node_by_index c)\<rparr>
           in case node_slot g i of None \<Rightarrow> c | Some s \<Rightarrow> advance_thread_frontier_locked s c)
      | _ \<Rightarrow> c)"

definition mark_node_covered :: "cov_memory \<Rightarrow> eg_graph option \<Rightarrow> u64 \<Rightarrow> coverage \<Rightarrow> bool \<times> coverage" where
  "mark_node_covered mem graph eid c =
     (let c = flag_node graph eid c
      in if eid \<in> set (covered_node_ids c) then (False, c)
         else if covered_capacity c \<le> length (covered_node_ids c)
         then (if 2147483647 div 2 < covered_capacity c then (False, c)
               else let next_capacity = (if covered_capacity c = 0 then 128 else covered_capacity c * 2)
                    in if grants_ids mem next_capacity
                       then (True, c\<lparr>covered_capacity := next_capacity, covered_node_ids := covered_node_ids c @ [eid]\<rparr>)
                       else (False, c))
         else (True, c\<lparr>covered_node_ids := covered_node_ids c @ [eid]\<rparr>))"

section \<open>Classification\<close>

definition is_instantiated_but_not_done_locked :: "eg_graph option \<Rightarrow> coverage \<Rightarrow> bool" where
  "is_instantiated_but_not_done_locked graph c =
     (case graph of None \<Rightarrow> False
      | Some g \<Rightarrow> length (covered_node_ids c) = length (eg_nodes g) \<and> all_rf_edges_covered_locked graph c)"

definition classify_terminal_code_locked :: "eg_graph option \<Rightarrow> coverage \<Rightarrow> nat" where
  "classify_terminal_code_locked graph c =
     (if is_instantiated_but_not_done_locked graph c then WMM_EXIT_INSTANTIATED_BUT_NOT_DONE
      else WMM_EXIT_NOT_INSTANTIABLE)"

definition all_graph_nodes_covered :: "eg_graph option \<Rightarrow> coverage \<Rightarrow> bool" where
  "all_graph_nodes_covered graph c =
     (case graph of None \<Rightarrow> False | Some g \<Rightarrow> length (eg_nodes g) \<le> length (covered_node_ids c))"

text \<open>The exit handler of a run that ends by itself; \<open>exiting\<close> is the exit code already taken, or 0.\<close>

definition scheduler_verify_atexit :: "nat \<Rightarrow> eg_graph option \<Rightarrow> coverage \<Rightarrow> unit outcome" where
  "scheduler_verify_atexit exiting graph c =
     (if exiting \<noteq> 0 then Returns ()
      else if graph \<noteq> None \<and> \<not> is_instantiated_but_not_done_locked graph c
      then Exits WMM_EXIT_NOT_INSTANTIABLE else Returns ())"

section \<open>Marks in any order\<close>

text \<open>A graph as the loader leaves it, and the order of a thread's events.\<close>

definition loaded :: "eg_graph \<Rightarrow> bool" where
  "loaded g \<longleftrightarrow> distinct (map n_id (eg_nodes g)) \<and> length (eg_nodes g) < 2 ^ 27"

definition event_order :: "eg_graph \<Rightarrow> nat \<Rightarrow> nat list" where
  "event_order g t = qsort (cmp_node_idx_for_thread_order g) (thread_nodes g t)"

definition cov_grants_all :: "cov_memory \<Rightarrow> bool" where
  "cov_grants_all mem \<longleftrightarrow> (\<forall>n. grants_ids mem n) \<and> (\<forall>n. grants_edge_flags mem n) \<and> (\<forall>n. grants_node_flags mem n) \<and>
     (\<forall>n. grants_indices mem n)"

definition marked :: "eg_graph \<Rightarrow> coverage \<Rightarrow> nat \<Rightarrow> bool" where
  "marked g c i \<longleftrightarrow> n_id (eg_nodes g ! i) \<in> set (covered_node_ids c)"

text \<open>
  The flags are the list of identifiers, the frontier of a thread is the number of marked events
  at the beginning of its order, and an edge flag is only ever set at the first of equal edges.
\<close>

definition cov_inv :: "eg_graph \<Rightarrow> (u64 \<times> u64) set \<Rightarrow> coverage \<Rightarrow> bool" where
  "cov_inv g es c \<longleftrightarrow>
     distinct (covered_node_ids c) \<and> set (covered_node_ids c) \<subseteq> n_id ` set (eg_nodes g) \<and>
     length (covered_node_ids c) \<le> covered_capacity c \<and> covered_capacity c \<le> 128 + 2 * length (covered_node_ids c) \<and>
     (\<exists>fs. covered_node_by_index c = Some fs \<and> length fs = length (eg_nodes g) \<and>
       (\<forall>i<length (eg_nodes g). fs ! i = marked g c i)) \<and>
     (\<forall>t<MAX_THREADS. event_count c t = length (event_order g t) \<and>
       event_indices c t = (if event_order g t = [] then None else Some (event_order g t)) \<and>
       frontier c t = length (takeWhile (marked g c) (event_order g t))) \<and>
     (if rf_edges g = [] then covered_rf_edges c = None
      else \<exists>fs. covered_rf_edges c = Some fs \<and> length fs = length (rf_edges g) \<and>
        (\<forall>i<length (rf_edges g). fs ! i \<longleftrightarrow>
          (src_id (rf_edges g ! i), dst_id (rf_edges g ! i)) \<in> es \<and> rf_edges g ! i \<notin> set (take i (rf_edges g))))"

lemma event_order_set: "set (event_order g t) = {i. i < length (eg_nodes g) \<and> node_slot g i = Some t}"
  by (auto simp: event_order_def set_qsort thread_nodes_def)

lemma event_order_empty: "event_order g t = [] \<longleftrightarrow> thread_nodes g t = []"
  by (metis event_order_def length_qsort length_0_conv)

text \<open>What \<open>scheduler_init\<close> sets up for a graph.\<close>

definition init_coverage :: "cov_memory \<Rightarrow> eg_graph option \<Rightarrow> coverage \<Rightarrow> coverage outcome" where
  "init_coverage mem graph c =
     bind_outcome (init_covered_rf_edges_for_current_graph mem graph
         (reset_thread_frontier_state (reset_covered_rf_edges (reset_covered_nodes c))))
       (\<lambda>c. Returns (init_thread_frontier_state_for_current_graph mem graph c))"

lemma init_coverage_inv:
  assumes "cov_grants_all mem"
  shows "\<exists>c'. init_coverage mem (Some g) c = Returns c' \<and> cov_inv g {} c'"
proof -
  let ?c0 = "reset_thread_frontier_state (reset_covered_rf_edges (reset_covered_nodes c))"
  have "\<exists>c1. init_covered_rf_edges_for_current_graph mem (Some g) ?c0 = Returns c1 \<and>
      covered_rf_edges c1 = (if rf_edges g = [] then None else Some (replicate (length (rf_edges g)) False)) \<and>
      covered_node_ids c1 = [] \<and> covered_capacity c1 = 0"
    using assms by (cases "rf_edges g = []")
      (simp_all add: init_covered_rf_edges_for_current_graph_def Let_def cov_grants_all_def
        reset_covered_rf_edges_def reset_covered_nodes_def reset_thread_frontier_state_def)
  then obtain c1 where c1: "init_covered_rf_edges_for_current_graph mem (Some g) ?c0 = Returns c1" and
    e: "covered_rf_edges c1 = (if rf_edges g = [] then None else Some (replicate (length (rf_edges g)) False))" and
    i: "covered_node_ids c1 = []" "covered_capacity c1 = 0" by blast
  let ?c2 = "init_thread_frontier_state_for_current_graph mem (Some g) c1"
  have c2: "covered_node_ids ?c2 = []" "covered_capacity ?c2 = 0" "covered_rf_edges ?c2 = covered_rf_edges c1"
    "covered_node_by_index ?c2 = Some (replicate (length (eg_nodes g)) False)"
    "\<And>t. t < MAX_THREADS \<Longrightarrow> event_count ?c2 t = length (event_order g t)"
    "\<And>t. t < MAX_THREADS \<Longrightarrow> event_indices ?c2 t = (if event_order g t = [] then None else Some (event_order g t))"
    "frontier ?c2 = (\<lambda>_. 0)"
    using assms i event_order_empty
    by (auto simp: init_thread_frontier_state_for_current_graph_def Let_def cov_grants_all_def
        reset_thread_frontier_state_def event_order_def length_qsort)
  have "marked g ?c2 = (\<lambda>_. False)" by (simp add: marked_def c2 fun_eq_iff)
  moreover have "takeWhile (\<lambda>_. False) xs = []" for xs :: "nat list" by (cases xs) auto
  ultimately have "cov_inv g {} ?c2" using c2 e by (simp add: cov_inv_def)
  then show ?thesis using c1 by (simp add: init_coverage_def)
qed

lemma init_coverage_ids: "init_coverage mem g c = Returns c' \<Longrightarrow> covered_node_ids c' = []"
  by (auto simp: init_coverage_def init_covered_rf_edges_for_current_graph_def Let_def reset_covered_rf_edges_def
      reset_covered_nodes_def reset_thread_frontier_state_def init_thread_frontier_state_for_current_graph_def
      split: option.splits if_splits)

lemma index_by_id:
  assumes "loaded g" and "i < length (eg_nodes g)"
  shows "node_index_by_id_locked (Some g) (n_id (eg_nodes g ! i)) = Some i"
proof -
  have "find (\<lambda>j. n_id (eg_nodes g ! j) = n_id (eg_nodes g ! i)) [0..<length (eg_nodes g)] = Some i"
    unfolding find_Some_iff using assms
    by (intro exI [of _ i]) (auto simp: loaded_def distinct_conv_nth)
  then show ?thesis by (simp add: node_index_by_id_locked_def)
qed

text \<open>The loop of the frontier: it stops where the marked events stop.\<close>

lemma advance_loop_prefix: "advance_loop c is k = k + length (takeWhile (node_flag c) is)"
  by (induction "is" arbitrary: k) auto

lemma takeWhile_more:
  assumes "\<And>x. P x \<Longrightarrow> Q x"
  shows "length (takeWhile P xs) + length (takeWhile Q (drop (length (takeWhile P xs)) xs)) = length (takeWhile Q xs)"
proof -
  have "takeWhile Q (takeWhile P xs @ dropWhile P xs) = takeWhile P xs @ takeWhile Q (dropWhile P xs)"
    by (rule takeWhile_append2) (auto dest: set_takeWhileD intro: assms)
  then have "takeWhile Q xs = takeWhile P xs @ takeWhile Q (dropWhile P xs)" by simp
  then show ?thesis by (metis dropWhile_eq_drop length_append)
qed


text \<open>Marking a node: the list, the flag and the frontier of its thread move together.\<close>

lemma mark_node_ok:
  assumes inv: "cov_inv g es c" and g: "loaded g" and i: "i < length (eg_nodes g)" and mem: "\<forall>n. grants_ids mem n"
  defines "eid \<equiv> n_id (eg_nodes g ! i)"
  shows "\<exists>c'. mark_node_covered mem (Some g) eid c = (eid \<notin> set (covered_node_ids c), c') \<and> cov_inv g es c' \<and>
    covered_node_ids c' = (if eid \<in> set (covered_node_ids c) then covered_node_ids c else covered_node_ids c @ [eid])"
proof -
  obtain fs where fs: "covered_node_by_index c = Some fs" "length fs = length (eg_nodes g)"
    "\<And>k. k < length (eg_nodes g) \<Longrightarrow> fs ! k = marked g c k"
    using inv by (auto simp: cov_inv_def)
  have th: "event_count c t = length (event_order g t)" "frontier c t = length (takeWhile (marked g c) (event_order g t))"
    "event_indices c t = (if event_order g t = [] then None else Some (event_order g t))" if "t < MAX_THREADS" for t
    using inv that by (auto simp: cov_inv_def)
  define c1 where "c1 = c\<lparr>covered_node_by_index := Some (fs[i := True])\<rparr>"
  define c2 where "c2 = flag_node (Some g) eid c"
  have c2: "c2 = (case node_slot g i of None \<Rightarrow> c1 | Some s \<Rightarrow> advance_thread_frontier_locked s c1)"
    using index_by_id [OF g i] by (simp add: c2_def flag_node_def eid_def fs(1) c1_def Let_def split: option.split)
  define m where "m = (\<lambda>k. k = i \<or> marked g c k)"
  have flag: "node_flag c1 k = m k" if "k < length (eg_nodes g)" for k
    using that fs i by (cases "k = i") (auto simp: node_flag_def c1_def m_def)
  have fields: "covered_node_ids c2 = covered_node_ids c" "covered_capacity c2 = covered_capacity c"
    "covered_rf_edges c2 = covered_rf_edges c" "covered_node_by_index c2 = Some (fs[i := True])"
    "event_count c2 = event_count c" "event_indices c2 = event_indices c"
    unfolding c2 by (auto simp: c1_def advance_thread_frontier_locked_def Let_def split: option.splits)
  have front: "frontier c2 t = length (takeWhile m (event_order g t))" if t: "t < MAX_THREADS" for t
  proof (cases "node_slot g i = Some t")
    case True
    let ?is = "event_order g t"
    have "i \<in> set ?is" using True i by (simp add: event_order_set)
    then have ix: "event_indices c t = Some ?is" using th(3) [OF t] by (cases ?is) auto
    have "takeWhile (node_flag c1) xs = takeWhile m xs" if "set xs \<subseteq> set ?is" for xs
      by (rule takeWhile_cong) (use that flag event_order_set [of g t] in auto)
    then have "takeWhile (node_flag c1) (drop k ?is) = takeWhile m (drop k ?is)" for k
      by (simp add: set_drop_subset)
    then have "frontier c2 t = frontier c t + length (takeWhile m (drop (frontier c t) ?is))"
      using True t th(1) [OF t] ix unfolding c2
      by (simp add: advance_thread_frontier_locked_def Let_def c1_def advance_loop_prefix)
    then show ?thesis
      using takeWhile_more [of "marked g c" m ?is] th(2) [OF t] by (simp add: m_def)
  next
    case False
    then have "frontier c2 t = frontier c t"
      unfolding c2 by (auto simp: c1_def advance_thread_frontier_locked_def Let_def split: option.splits)
    moreover have "takeWhile m (event_order g t) = takeWhile (marked g c) (event_order g t)"
      by (rule takeWhile_cong) (use False i event_order_set [of g t] in \<open>auto simp: m_def\<close>)
    ultimately show ?thesis using th(2) [OF t] by simp
  qed
  have mk: "marked g c' k = m k" if "covered_node_ids c' = (if eid \<in> set (covered_node_ids c) then covered_node_ids c
      else covered_node_ids c @ [eid])" "k < length (eg_nodes g)" for c' :: coverage and k
    using that i g by (auto simp: marked_def m_def eid_def loaded_def distinct_conv_nth split: if_splits)
  have ceq: "takeWhile (marked g c') (event_order g t) = takeWhile m (event_order g t)"
    if "covered_node_ids c' = (if eid \<in> set (covered_node_ids c) then covered_node_ids c else covered_node_ids c @ [eid])"
    for c' :: coverage and t
    by (rule takeWhile_cong) (use mk [OF that] event_order_set [of g t] in auto)
  define c' where "c' = snd (mark_node_covered mem (Some g) eid c)"
  have len: "length (covered_node_ids c) < 2 ^ 27 + 1"
  proof -
    have "length (covered_node_ids c) = card (set (covered_node_ids c))"
      using inv by (simp add: cov_inv_def distinct_card)
    also have "\<dots> \<le> card (n_id ` set (eg_nodes g))" using inv by (intro card_mono) (auto simp: cov_inv_def)
    also have "\<dots> \<le> length (eg_nodes g)" by (metis card_length card_image_le finite_set le_trans)
    finally show ?thesis using g by (simp add: loaded_def)
  qed
  have capc: "length (covered_node_ids c) \<le> covered_capacity c" "covered_capacity c \<le> 128 + 2 * length (covered_node_ids c)"
    using inv by (simp_all add: cov_inv_def)
  have r: "mark_node_covered mem (Some g) eid c = (eid \<notin> set (covered_node_ids c), c')"
    and ids: "covered_node_ids c' = (if eid \<in> set (covered_node_ids c) then covered_node_ids c else covered_node_ids c @ [eid])"
    and cap: "length (covered_node_ids c') \<le> covered_capacity c'" "covered_capacity c' \<le> 128 + 2 * length (covered_node_ids c')"
    and same: "covered_rf_edges c' = covered_rf_edges c" "covered_node_by_index c' = Some (fs[i := True])"
      "event_count c' = event_count c" "event_indices c' = event_indices c" "frontier c' = frontier c2"
    using mem fields capc len unfolding c'_def mark_node_covered_def c2_def [symmetric] Let_def
    by (auto simp: Suc_le_eq)
  have "cov_inv g es c'"
    unfolding cov_inv_def same
  proof (intro conjI)
    show "distinct (covered_node_ids c')" using inv ids by (auto simp: cov_inv_def)
    show "set (covered_node_ids c') \<subseteq> n_id ` set (eg_nodes g)" using inv ids i by (auto simp: cov_inv_def eid_def)
    show "\<exists>fs'. Some (fs[i := True]) = Some fs' \<and> length fs' = length (eg_nodes g) \<and>
        (\<forall>k<length (eg_nodes g). fs' ! k = marked g c' k)"
      using fs i mk [OF ids] by (auto simp: nth_list_update m_def)
    show "\<forall>t<MAX_THREADS. event_count c t = length (event_order g t) \<and>
        event_indices c t = (if event_order g t = [] then None else Some (event_order g t)) \<and>
        frontier c2 t = length (takeWhile (marked g c') (event_order g t))"
      using th front ceq [OF ids] by auto
    show "if rf_edges g = [] then covered_rf_edges c = None
      else \<exists>fs. covered_rf_edges c = Some fs \<and> length fs = length (rf_edges g) \<and>
        (\<forall>i<length (rf_edges g). fs ! i \<longleftrightarrow>
          (src_id (rf_edges g ! i), dst_id (rf_edges g ! i)) \<in> es \<and> rf_edges g ! i \<notin> set (take i (rf_edges g)))"
      using inv by (simp add: cov_inv_def)
  qed (use cap in auto)
  then show ?thesis using r ids by blast
qed

text \<open>Marking an edge sets the flag of the first of the equal edges.\<close>

definition ends :: "eg_edge \<Rightarrow> u64 \<times> u64" where "ends e = (src_id e, dst_id e)"

lemma ends_eq: "ends e = ends e' \<longleftrightarrow> e = e'"
  by (cases e, cases e') (simp add: ends_def)

lemma find_first_edge:
  assumes "i < length es"
  shows "find (\<lambda>i. src_id (es ! i) = s \<and> dst_id (es ! i) = d) [0..<length es] = Some i \<longleftrightarrow>
    ends (es ! i) = (s, d) \<and> es ! i \<notin> set (take i es)"
proof -
  have "es ! i \<in> set (take i es) \<longleftrightarrow> (\<exists>k<i. es ! k = es ! i)"
    using assms by (auto simp: in_set_conv_nth)
  moreover have "es ! k = es ! i \<longleftrightarrow> src_id (es ! k) = s \<and> dst_id (es ! k) = d" if "ends (es ! i) = (s, d)" for k
    using that ends_eq [of "es ! k" "es ! i"] by (simp add: ends_def)
  moreover have "find (\<lambda>i. src_id (es ! i) = s \<and> dst_id (es ! i) = d) [0..<length es] = Some i \<longleftrightarrow>
    ends (es ! i) = (s, d) \<and> (\<forall>k<i. \<not> (src_id (es ! k) = s \<and> dst_id (es ! k) = d))"
    unfolding find_Some_iff using assms by (auto simp: ends_def)
  ultimately show ?thesis by blast
qed

lemma mark_edge_ok:
  assumes inv: "cov_inv g es c"
  shows "cov_inv g (insert (s, d) es) (mark_rf_edge_covered (Some g) s d c)"
proof (cases "covered_rf_edges c")
  case None
  then show ?thesis using inv by (auto simp: cov_inv_def mark_rf_edge_covered_def marked_def [abs_def] split: if_splits)
next
  case (Some fs)
  let ?e = "rf_edges g"
  let ?find = "find (\<lambda>i. src_id (?e ! i) = s \<and> dst_id (?e ! i) = d) [0..<length ?e]"
  have ne: "?e \<noteq> []" and len: "length fs = length ?e" and
    fs: "\<And>i. i < length ?e \<Longrightarrow> fs ! i \<longleftrightarrow> ends (?e ! i) \<in> es \<and> ?e ! i \<notin> set (take i ?e)"
    using inv Some by (auto simp: cov_inv_def ends_def split: if_splits)
  define fs' where "fs' = (case ?find of None \<Rightarrow> fs | Some k \<Rightarrow> fs[k := True])"
  have c': "mark_rf_edge_covered (Some g) s d c = c\<lparr>covered_rf_edges := Some fs'\<rparr>"
    using Some by (simp add: mark_rf_edge_covered_def fs'_def split: option.split)
  have set: "fs' ! i \<longleftrightarrow> fs ! i \<or> ?find = Some i" if "i < length ?e" for i
    using that len by (cases "?find = Some i") (auto simp: fs'_def split: option.split)
  have "fs' ! i \<longleftrightarrow> ends (?e ! i) \<in> insert (s, d) es \<and> ?e ! i \<notin> set (take i ?e)" if i: "i < length ?e" for i
    unfolding set [OF i] fs [OF i] find_first_edge [OF i] by blast
  moreover have "length fs' = length ?e" by (simp add: fs'_def len split: option.split)
  ultimately have "\<exists>f. Some fs' = Some f \<and> length f = length ?e \<and> (\<forall>i<length ?e. f ! i \<longleftrightarrow>
      (src_id (?e ! i), dst_id (?e ! i)) \<in> insert (s, d) es \<and> ?e ! i \<notin> set (take i ?e))"
    by (simp add: ends_def)
  moreover have "marked g (c\<lparr>covered_rf_edges := Some fs'\<rparr>) = marked g c" by (simp add: marked_def fun_eq_iff)
  ultimately show ?thesis using inv ne unfolding c' by (simp add: cov_inv_def)
qed

text \<open>What the handlers do to the coverage in a run: marks of events and of edges, in any order.\<close>

datatype mark = MarkNode u64 | MarkEdge u64 u64

fun do_mark :: "cov_memory \<Rightarrow> eg_graph \<Rightarrow> mark \<Rightarrow> coverage \<Rightarrow> coverage" where
  "do_mark mem g (MarkNode eid) c = snd (mark_node_covered mem (Some g) eid c)"
| "do_mark mem g (MarkEdge s d) c = mark_rf_edge_covered (Some g) s d c"

fun do_marks :: "cov_memory \<Rightarrow> eg_graph \<Rightarrow> mark list \<Rightarrow> coverage \<Rightarrow> coverage" where
  "do_marks mem g [] c = c"
| "do_marks mem g (m # ms) c = do_marks mem g ms (do_mark mem g m c)"

definition node_marks :: "mark list \<Rightarrow> u64 set" where
  "node_marks ms = {x. MarkNode x \<in> set ms}"

definition edge_marks :: "mark list \<Rightarrow> (u64 \<times> u64) set" where
  "edge_marks ms = {(s, d). MarkEdge s d \<in> set ms}"

lemma mark_sets:
  "node_marks [] = {}" "edge_marks [] = {}"
  "node_marks (MarkNode x # ms) = insert x (node_marks ms)" "node_marks (MarkEdge s d # ms) = node_marks ms"
  "edge_marks (MarkNode x # ms) = edge_marks ms" "edge_marks (MarkEdge s d # ms) = insert (s, d) (edge_marks ms)"
  by (auto simp: node_marks_def edge_marks_def)

lemma do_marks_ok:
  assumes "cov_inv g es c" and "loaded g" and "\<forall>n. grants_ids mem n" and "node_marks ms \<subseteq> n_id ` set (eg_nodes g)"
  shows "cov_inv g (es \<union> edge_marks ms) (do_marks mem g ms c) \<and>
    set (covered_node_ids (do_marks mem g ms c)) = set (covered_node_ids c) \<union> node_marks ms"
  using assms
proof (induction ms arbitrary: es c)
  case (Cons m ms)
  show ?case
  proof (cases m)
    case (MarkNode x)
    then obtain i where i: "i < length (eg_nodes g)" "x = n_id (eg_nodes g ! i)"
      using Cons.prems(4) by (auto simp: mark_sets in_set_conv_nth)
    obtain c' where c': "snd (mark_node_covered mem (Some g) x c) = c'" "cov_inv g es c'"
      "set (covered_node_ids c') = insert x (set (covered_node_ids c))"
      proof -
      obtain c' where c': "mark_node_covered mem (Some g) x c = (x \<notin> set (covered_node_ids c), c')" "cov_inv g es c'"
        "covered_node_ids c' = (if x \<in> set (covered_node_ids c) then covered_node_ids c else covered_node_ids c @ [x])"
        using mark_node_ok [OF Cons.prems(1,2) i(1) Cons.prems(3)] i(2) by blast
      then have "set (covered_node_ids c') = insert x (set (covered_node_ids c))" by auto
      then show ?thesis using that c' by simp
    qed
    then show ?thesis using Cons.IH [OF c'(2) Cons.prems(2,3)] Cons.prems(4) MarkNode by (auto simp: mark_sets)
  next
    case (MarkEdge s d)
    have "covered_node_ids (mark_rf_edge_covered (Some g) s d c) = covered_node_ids c"
      by (simp add: mark_rf_edge_covered_def split: option.split)
    then show ?thesis
      using Cons.IH [OF mark_edge_ok [OF Cons.prems(1)] Cons.prems(2,3)] Cons.prems(4) MarkEdge by (auto simp: mark_sets)
  qed
qed (simp add: mark_sets)

lemma all_edges_iff:
  assumes inv: "cov_inv g es c"
  shows "all_rf_edges_covered_locked (Some g) c \<longleftrightarrow> distinct (rf_edges g) \<and> ends ` set (rf_edges g) \<subseteq> es"
proof (cases "rf_edges g = []")
  case False
  then obtain fs where fs: "covered_rf_edges c = Some fs" "\<And>i. i < length (rf_edges g) \<Longrightarrow>
      fs ! i \<longleftrightarrow> ends (rf_edges g ! i) \<in> es \<and> rf_edges g ! i \<notin> set (take i (rf_edges g))"
    using inv by (auto simp: cov_inv_def ends_def)
  have "all_rf_edges_covered_locked (Some g) c \<longleftrightarrow> (\<forall>i<length (rf_edges g). fs ! i)"
    using False fs(1) by (auto simp: all_rf_edges_covered_locked_def list_all_iff)
  moreover have "distinct (rf_edges g) \<longleftrightarrow> (\<forall>i<length (rf_edges g). rf_edges g ! i \<notin> set (take i (rf_edges g)))"
  proof -
    have "distinct xs \<longleftrightarrow> (\<forall>i<length xs. xs ! i \<notin> set (take i xs))" for xs :: "eg_edge list"
    proof (induction xs rule: rev_induct)
      case (snoc x xs)
      then show ?case by (auto simp: nth_append less_Suc_eq)
    qed simp
    then show ?thesis .
  qed
  moreover have "ends ` set (rf_edges g) \<subseteq> es \<longleftrightarrow> (\<forall>i<length (rf_edges g). ends (rf_edges g ! i) \<in> es)"
    by (simp only: image_subset_iff all_set_conv_all_nth)
  ultimately show ?thesis using fs(2) by blast
qed (simp add: all_rf_edges_covered_locked_def)

lemma all_nodes_iff:
  assumes inv: "cov_inv g es c" and g: "loaded g"
  shows "length (covered_node_ids c) = length (eg_nodes g) \<longleftrightarrow> set (covered_node_ids c) = n_id ` set (eg_nodes g)"
proof -
  have d: "distinct (covered_node_ids c)" "set (covered_node_ids c) \<subseteq> n_id ` set (eg_nodes g)"
    using inv by (simp_all add: cov_inv_def)
  have n: "card (n_id ` set (eg_nodes g)) = length (eg_nodes g)"
    using g by (metis distinct_card length_map list.set_map loaded_def)
  show ?thesis using d n distinct_card [OF d(1)] card_subset_eq [OF _ d(2)] by (metis List.finite_set finite_imageI)
qed

section \<open>Properties\<close>

text \<open>
  C7. Coverage of a run against its graph: starting from what \<open>scheduler_init\<close> sets up and
  marking events and edges in any order, any number of times, the frontier of every thread is the
  number of marked events at the beginning of its order, and the run is classified as instantiated
  exactly when every event and every edge of the graph was marked and no edge is in the graph
  twice. So a graph with the same edge twice is never instantiable.
\<close>
theorem sched_coverage_classifies:
  assumes "loaded g" and "cov_grants_all mem" and "node_marks ms \<subseteq> n_id ` set (eg_nodes g)"
  shows "\<exists>c0 c. init_coverage mem (Some g) c_any = Returns c0 \<and> c = do_marks mem g ms c0 \<and>
    (\<forall>t. MAX_THREADS \<le> t \<or> frontier c t =
       length (takeWhile (\<lambda>i. n_id (eg_nodes g ! i) \<in> node_marks ms) (event_order g t))) \<and>
    (classify_terminal_code_locked (Some g) c = WMM_EXIT_INSTANTIATED_BUT_NOT_DONE \<longleftrightarrow>
       node_marks ms = n_id ` set (eg_nodes g) \<and> distinct (rf_edges g) \<and> ends ` set (rf_edges g) \<subseteq> edge_marks ms)"
proof -
  obtain c0 where c0: "init_coverage mem (Some g) c_any = Returns c0" "cov_inv g {} c0" "covered_node_ids c0 = []"
    using init_coverage_inv [OF assms(2), of g c_any] init_coverage_ids by blast
  let ?c = "do_marks mem g ms c0"
  have m: "cov_inv g (edge_marks ms) ?c" "set (covered_node_ids ?c) = node_marks ms"
    using do_marks_ok [OF c0(2) assms(1) _ assms(3)] assms(2) c0(3) by (auto simp: cov_grants_all_def)
  have "frontier ?c t = length (takeWhile (\<lambda>i. n_id (eg_nodes g ! i) \<in> node_marks ms) (event_order g t))"
    if "t < MAX_THREADS" for t
    using m that by (simp add: cov_inv_def marked_def [abs_def])
  moreover have "classify_terminal_code_locked (Some g) ?c = WMM_EXIT_INSTANTIATED_BUT_NOT_DONE \<longleftrightarrow>
      length (covered_node_ids ?c) = length (eg_nodes g) \<and> all_rf_edges_covered_locked (Some g) ?c"
    by (simp add: classify_terminal_code_locked_def is_instantiated_but_not_done_locked_def
        WMM_EXIT_INSTANTIATED_BUT_NOT_DONE_def WMM_EXIT_NOT_INSTANTIABLE_def)
  ultimately show ?thesis
    using c0(1) all_edges_iff [OF m(1)] all_nodes_iff [OF m(1) assms(1)] m(2) by (metis not_less)
qed

text \<open>A write and a read with the edge between them twice, and both events and the edge marked.\<close>

definition doubled_edge :: eg_graph where
  "doubled_edge =
     \<lparr>eg_nodes = [\<lparr>n_id = 1, n_tid = 0, n_iid = 10, n_loc_id = 5, n_vid = 1, n_type = EG_OP_WRITE, n_location = [], n_value = 7\<rparr>,
                  \<lparr>n_id = 2, n_tid = 1, n_iid = 11, n_loc_id = 5, n_vid = 1, n_type = EG_OP_READ, n_location = [], n_value = 0\<rparr>],
      node_capacity = 2, rf_edges = [\<lparr>src_id = 1, dst_id = 2\<rparr>, \<lparr>src_id = 1, dst_id = 2\<rparr>], rf_capacity = 2, hash_table = []\<rparr>"

definition no_coverage :: coverage where
  "no_coverage = \<lparr>covered_node_ids = [], covered_capacity = 0, covered_rf_edges = None, covered_node_by_index = None,
     event_indices = (\<lambda>_. None), event_count = (\<lambda>_. 0), frontier = (\<lambda>_. 0)\<rparr>"

definition cov_ample :: cov_memory where
  "cov_ample = \<lparr>grants_ids = (\<lambda>_. True), grants_edge_flags = (\<lambda>_. True), grants_node_flags = (\<lambda>_. True),
     grants_indices = (\<lambda>_. True)\<rparr>"

theorem sched_coverage_classifies_witness:
  "\<exists>c0. init_coverage cov_ample (Some doubled_edge) no_coverage = Returns c0 \<and>
    classify_terminal_code_locked (Some doubled_edge)
      (do_marks cov_ample doubled_edge [MarkNode 1, MarkNode 2, MarkEdge 1 2] c0) = WMM_EXIT_NOT_INSTANTIABLE"
proof -
  let ?ms = "[MarkNode 1, MarkNode 2, MarkEdge 1 2]"
  have "loaded doubled_edge" "cov_grants_all cov_ample" "node_marks ?ms \<subseteq> n_id ` set (eg_nodes doubled_edge)"
    "\<not> distinct (rf_edges doubled_edge)"
    by (simp_all add: loaded_def doubled_edge_def cov_grants_all_def cov_ample_def mark_sets)
  then show ?thesis
    using sched_coverage_classifies [of doubled_edge cov_ample ?ms no_coverage]
    by (auto simp: classify_terminal_code_locked_def)
qed

end
