(* ===== verification/SchedDeadlock.thy ===== *)
theory SchedDeadlock imports SchedCoverage begin

text \<open>
  When the scheduler gives up (\<^verbatim>\<open>scheduler.c\<close>, \<open>is_node_producible_locked\<close> to
  \<open>should_exit_deadlock_locked\<close>): which events of the graph can still happen, whether a write that
  a thread waits for can still be made, and the verdict that no thread will ever go on. The debug
  output and its counters are left out.
\<close>

section \<open>Which events can happen\<close>

lemma index_by_id_bound: "node_index_by_id_locked (Some g) s = Some j \<Longrightarrow> j < length (eg_nodes g)"
  by (auto simp: node_index_by_id_locked_def find_Some_iff)

text \<open>
  The flags \<open>visiting\<close> are the set of flagged positions, \<open>None\<close> when there is no such array;
  the flag set before the recursive call is cleared after it.
\<close>

function is_node_producible_locked :: "eg_graph \<Rightarrow> coverage \<Rightarrow> threads \<Rightarrow> nat set option \<Rightarrow> nat \<Rightarrow> bool" where
  "is_node_producible_locked g c t visiting i =
     (if length (eg_nodes g) \<le> i then False
      else if is_node_covered_locked g c i then True
      else if \<not> is_node_frontier_locked g c i then False
      else let n = eg_nodes g ! i in
        if \<not> is_thread_runnable_locked t (thread_slot (n_tid n)) then False
        else if eg_is_write_like (n_type n) \<or> n_type n = EG_OP_FENCE then True
        else if n_type n \<noteq> EG_OP_READ \<and> n_type n \<noteq> EG_OP_CAS_FAIL then False
        else let s = find_rf_source (Some g) (n_id n) in
          if s = 0 then False
          else case node_index_by_id_locked (Some g) s of None \<Rightarrow> False
          | Some j \<Rightarrow>
              (if is_node_covered_locked g c j then True
               else case visiting of None \<Rightarrow> False
               | Some V \<Rightarrow> if j \<in> V then False else is_node_producible_locked g c t (Some (insert j V)) j))"
  by pat_completeness auto

termination
proof (relation "measure (\<lambda>(g, c, t, V, i). case V of None \<Rightarrow> 0 | Some V \<Rightarrow> card ({..<length (eg_nodes g)} - V))", goal_cases)
  case (2 g c t visiting i n s j V)
  then have "j < length (eg_nodes g)" using index_by_id_bound by blast
  then have "{..<length (eg_nodes g)} - insert j V \<subset> {..<length (eg_nodes g)} - V" using \<open>j \<notin> V\<close> by auto
  then have "card ({..<length (eg_nodes g)} - insert j V) < card ({..<length (eg_nodes g)} - V)"
    by (rule psubset_card_mono [rotated]) simp
  then show ?case using \<open>visiting = Some V\<close> by (simp del: card_Diff_insert)
qed simp

declare is_node_producible_locked.simps [simp del]

definition exists_producible_uncovered_event_locked ::
    "cov_memory \<Rightarrow> eg_graph option \<Rightarrow> coverage \<Rightarrow> threads \<Rightarrow> bool" where
  "exists_producible_uncovered_event_locked mem graph c t =
     (case graph of None \<Rightarrow> False
      | Some g \<Rightarrow>
          grants_node_flags mem (length (eg_nodes g)) \<and>
          list_ex (\<lambda>i. \<not> is_node_covered_locked g c i \<and> is_node_producible_locked g c t (Some {}) i)
            [0..<length (eg_nodes g)])"

definition thread_has_producible_frontier_event_locked ::
    "cov_memory \<Rightarrow> eg_graph option \<Rightarrow> coverage \<Rightarrow> threads \<Rightarrow> nat \<Rightarrow> bool" where
  "thread_has_producible_frontier_event_locked mem graph c t slot =
     (case graph of None \<Rightarrow> False
      | Some g \<Rightarrow>
          (if MAX_THREADS \<le> slot then False
           else case event_indices c slot of None \<Rightarrow> False
           | Some is \<Rightarrow>
               (if event_count c slot \<le> frontier c slot then False
                else let i = is ! frontier c slot
                     in if length (eg_nodes g) \<le> i \<or> is_node_covered_locked g c i then False
                        else grants_node_flags mem (length (eg_nodes g)) \<and>
                             is_node_producible_locked g c t (Some {}) i)))"

section \<open>Which writes can still be made\<close>

definition can_produce_write_locked :: "eg_graph option \<Rightarrow> coverage \<Rightarrow> threads \<Rightarrow> history \<Rightarrow> u64 \<Rightarrow> bool" where
  "can_produce_write_locked graph c t hs w =
     (case graph of None \<Rightarrow> False
      | Some g \<Rightarrow>
          (if w = 0 then False
           else if find_write_in_history hs w \<noteq> None then True
           else case eg_find_node_by_id g w of None \<Rightarrow> False
           | Some n \<Rightarrow>
               (if \<not> eg_is_write_like (n_type n) then False
                else if w \<in> set (covered_node_ids c) then False
                else case thread_slot (n_tid n) of None \<Rightarrow> False
                | Some p \<Rightarrow>
                    (if \<not> active_status t p
                     then (if thread_ever_started t p then False
                           else event_indices c p \<noteq> None \<and> 0 < event_count c p \<and> frontier c p < event_count c p)
                     else is_thread_runnable_locked t (Some p)))))"

section \<open>The verdict\<close>

text \<open>The loop over the slots, returning false at the first thread that can go on.\<close>

fun wait_loop :: "eg_graph option \<Rightarrow> coverage \<Rightarrow> threads \<Rightarrow> history \<Rightarrow> bool \<Rightarrow> nat list \<Rightarrow> bool" where
  "wait_loop graph c t hs has_blocked [] = has_blocked"
| "wait_loop graph c t hs has_blocked (s # ss) =
     (if \<not> active_status t s then wait_loop graph c t hs has_blocked ss
      else let target = waiting_status t s; unknown = blocked_unknown_status t s; join = join_wait_status t s
           in if target = 0 \<and> \<not> unknown \<and> \<not> join then False
              else if target \<noteq> 0 \<and> can_produce_write_locked graph c t hs target then False
              else wait_loop graph c t hs (has_blocked \<or> unknown \<or> join \<or> target \<noteq> 0) ss)"

definition is_global_wait_deadlock_locked :: "eg_graph option \<Rightarrow> coverage \<Rightarrow> threads \<Rightarrow> history \<Rightarrow> bool" where
  "is_global_wait_deadlock_locked graph c t hs =
     (if active_threads t < alive_threads t then False else wait_loop graph c t hs False [0..<MAX_THREADS])"

definition all_graph_threads_registered_locked :: "eg_graph option \<Rightarrow> coverage \<Rightarrow> threads \<Rightarrow> bool" where
  "all_graph_threads_registered_locked graph c t =
     (case graph of None \<Rightarrow> True
      | Some g \<Rightarrow>
          list_all (\<lambda>s. \<not> (0 < event_count c s \<and> \<not> thread_ever_started t s \<and> frontier c s < event_count c s))
            [0..<MAX_THREADS])"

text \<open>What the loop of \<open>should_exit_deadlock_locked\<close> finds in a slot that goes on.\<close>

definition slot_goes_on :: "eg_graph option \<Rightarrow> coverage \<Rightarrow> threads \<Rightarrow> history \<Rightarrow> nat \<Rightarrow> bool" where
  "slot_goes_on graph c t hs s \<longleftrightarrow>
     (if \<not> active_status t s then False
      else if blocked_unknown_status t s \<or> join_wait_status t s then False
      else if waiting_status t s = 0 then True
      else can_produce_write_locked graph c t hs (waiting_status t s))"

definition should_exit_deadlock_locked ::
    "cov_memory \<Rightarrow> eg_graph option \<Rightarrow> coverage \<Rightarrow> threads \<Rightarrow> history \<Rightarrow> bool" where
  "should_exit_deadlock_locked mem graph c t hs =
     (if active_threads t \<le> 0 then False
      else if active_threads t < alive_threads t then False
      else if list_ex (slot_goes_on graph c t hs) [0..<MAX_THREADS] then False
      else if (case graph of None \<Rightarrow> False | Some g \<Rightarrow> length (covered_node_ids c) < length (eg_nodes g))
      then \<not> exists_producible_uncovered_event_locked mem graph c t
      else has_blocked_or_waiting_threads_locked t)"

section \<open>Producible events as a least fixed point\<close>

text \<open>
  An event can happen when it was covered, or when it is next in its thread, the thread is running,
  and it stores or is a fence, or reads from an event that can happen.
\<close>

definition next_of_running :: "eg_graph \<Rightarrow> coverage \<Rightarrow> threads \<Rightarrow> nat \<Rightarrow> bool" where
  "next_of_running g c t i \<longleftrightarrow> i < length (eg_nodes g) \<and> is_node_frontier_locked g c i \<and>
     is_thread_runnable_locked t (node_slot g i)"

definition reads_from :: "eg_graph \<Rightarrow> nat \<Rightarrow> nat \<Rightarrow> bool" where
  "reads_from g i j \<longleftrightarrow> n_type (eg_nodes g ! i) \<in> {EG_OP_READ, EG_OP_CAS_FAIL} \<and>
     find_rf_source (Some g) (n_id (eg_nodes g ! i)) \<noteq> 0 \<and>
     node_index_by_id_locked (Some g) (find_rf_source (Some g) (n_id (eg_nodes g ! i))) = Some j"

inductive producible :: "eg_graph \<Rightarrow> coverage \<Rightarrow> threads \<Rightarrow> nat \<Rightarrow> bool" for g c t where
  covered: "is_node_covered_locked g c i \<Longrightarrow> producible g c t i"
| stores: "next_of_running g c t i \<Longrightarrow>
    eg_is_write_like (n_type (eg_nodes g ! i)) \<or> n_type (eg_nodes g ! i) = EG_OP_FENCE \<Longrightarrow> producible g c t i"
| reads: "next_of_running g c t i \<Longrightarrow> reads_from g i j \<Longrightarrow> producible g c t j \<Longrightarrow> producible g c t i"

text \<open>The same with the number of reads on the way, which the event determines.\<close>

definition self_producible :: "eg_graph \<Rightarrow> coverage \<Rightarrow> threads \<Rightarrow> nat \<Rightarrow> bool" where
  "self_producible g c t i \<longleftrightarrow> is_node_covered_locked g c i \<or> (next_of_running g c t i \<and>
     (eg_is_write_like (n_type (eg_nodes g ! i)) \<or> n_type (eg_nodes g ! i) = EG_OP_FENCE))"

inductive producible_in :: "eg_graph \<Rightarrow> coverage \<Rightarrow> threads \<Rightarrow> nat \<Rightarrow> nat \<Rightarrow> bool" for g c t where
  zero: "self_producible g c t i \<Longrightarrow> producible_in g c t 0 i"
| suc: "\<not> self_producible g c t i \<Longrightarrow> next_of_running g c t i \<Longrightarrow> reads_from g i j \<Longrightarrow> producible_in g c t k j \<Longrightarrow>
    producible_in g c t (Suc k) i"

inductive_cases producible_inE: "producible_in g c t k i"

lemma reads_from_det: "reads_from g i j \<Longrightarrow> reads_from g i j' \<Longrightarrow> j = j'"
  by (simp add: reads_from_def)

lemma producible_in_det: "producible_in g c t k i \<Longrightarrow> producible_in g c t m i \<Longrightarrow> k = m"
proof (induction k i arbitrary: m rule: producible_in.induct)
  case (zero i)
  from zero(2) show ?case by (rule producible_inE) (use zero(1) in auto)
next
  case (suc i j k)
  from suc.prems show ?case
  proof (rule producible_inE)
    fix j' k' assume "m = Suc k'" "reads_from g i j'" "producible_in g c t k' j'"
    then show ?case using suc.IH reads_from_det [OF suc.hyps(3)] by blast
  qed (use suc.hyps in auto)
qed

lemma producible_height: "producible g c t i \<longleftrightarrow> (\<exists>k. producible_in g c t k i)"
proof
  assume "producible g c t i"
  then show "\<exists>k. producible_in g c t k i"
  proof (induction rule: producible.induct)
    case (reads i j)
    then show ?case using producible_in.zero producible_in.suc by metis
  qed (blast intro: producible_in.zero [unfolded self_producible_def])+
next
  assume "\<exists>k. producible_in g c t k i"
  then obtain k where "producible_in g c t k i" by blast
  then show "producible g c t i"
    by (induction rule: producible_in.induct) (auto simp: self_producible_def intro: producible.intros)
qed

lemma covered_bound: "is_node_covered_locked g c i \<Longrightarrow> i < length (eg_nodes g)"
  by (simp add: is_node_covered_locked_def)

lemma read_not_write: "reads_from g i j \<Longrightarrow> \<not> eg_is_write_like (n_type (eg_nodes g ! i)) \<and> n_type (eg_nodes g ! i) \<noteq> EG_OP_FENCE"
  by (auto simp: reads_from_def eg_is_write_like_def eg_ops)

lemma producible_sound: "is_node_producible_locked g c t V i \<Longrightarrow> producible g c t i"
proof (induction g c t V i rule: is_node_producible_locked.induct)
  case (1 g c t V i)
  let ?n = "eg_nodes g ! i" and ?s = "find_rf_source (Some g) (n_id (eg_nodes g ! i))"
  show ?case
  proof (cases "self_producible g c t i")
    case True
    then show ?thesis by (auto simp: self_producible_def intro: producible.intros)
  next
    case False
    then have n: "next_of_running g c t i" and nc: "\<not> is_node_covered_locked g c i"
      and nw: "\<not> eg_is_write_like (n_type ?n)" "n_type ?n \<noteq> EG_OP_FENCE" and ty: "n_type ?n \<in> {EG_OP_READ, EG_OP_CAS_FAIL}"
      and s: "?s \<noteq> 0"
      using 1(2) by (auto simp: is_node_producible_locked.simps [of g c t V i] next_of_running_def self_producible_def
          node_slot_def Let_def split: if_splits)
    then obtain j where j: "node_index_by_id_locked (Some g) ?s = Some j" and
      or: "is_node_covered_locked g c j \<or> (\<exists>W. V = Some W \<and> j \<notin> W \<and> is_node_producible_locked g c t (Some (insert j W)) j)"
      using 1(2) by (auto simp: is_node_producible_locked.simps [of g c t V i] Let_def split: if_splits option.splits)
    have "producible g c t j"
    proof (cases "is_node_covered_locked g c j")
      case False
      then show ?thesis using or 1(1) [OF _ nc _ refl _ _ _ refl s j False] n nw ty
        by (auto simp: next_of_running_def node_slot_def)
    qed (rule producible.covered)
    moreover have "reads_from g i j" using j s ty by (simp add: reads_from_def)
    ultimately show ?thesis using n by (blast intro: producible.reads)
  qed
qed

lemma producible_complete:
  "producible_in g c t k i \<Longrightarrow> (\<And>v m. v \<in> V \<Longrightarrow> producible_in g c t m v \<Longrightarrow> k \<le> m) \<Longrightarrow>
    is_node_producible_locked g c t (Some V) i"
proof (induction k i arbitrary: V rule: producible_in.induct)
  case (zero i)
  then show ?case using covered_bound [of g c i]
    by (auto simp: is_node_producible_locked.simps [of g c t "Some V" i] self_producible_def next_of_running_def node_slot_def Let_def)
next
  case (suc i j k)
  have jV: "j \<notin> V" using suc.prems [of j k] suc.hyps(4) by auto
  have rec: "is_node_producible_locked g c t (Some (insert j V)) j"
  proof (rule suc.IH)
    fix v m assume "v \<in> insert j V" "producible_in g c t m v"
    then show "k \<le> m" using suc.prems [of v m] producible_in_det [OF suc.hyps(4)] by (cases "v = j") auto
  qed
  show ?case
    using suc.hyps(2,3) jV rec read_not_write [OF suc.hyps(3)]
    by (auto simp: is_node_producible_locked.simps [of g c t "Some V" i] next_of_running_def reads_from_def node_slot_def Let_def)
qed

section \<open>The verdict as a condition on the threads\<close>

text \<open>A thread that is active and, as far as the tables say, never goes on.\<close>

definition stuck :: "eg_graph option \<Rightarrow> coverage \<Rightarrow> threads \<Rightarrow> history \<Rightarrow> nat \<Rightarrow> bool" where
  "stuck graph c t hs s \<longleftrightarrow> active_status t s \<and>
     (blocked_unknown_status t s \<or> join_wait_status t s \<or>
      (waiting_status t s \<noteq> 0 \<and> \<not> can_produce_write_locked graph c t hs (waiting_status t s)))"

lemma goes_on_stuck: "active_status t s \<Longrightarrow> slot_goes_on graph c t hs s \<longleftrightarrow> \<not> stuck graph c t hs s"
  by (auto simp: slot_goes_on_def stuck_def)

lemma runnable_not_stuck: "is_thread_runnable_locked t (Some s) \<Longrightarrow> s < MAX_THREADS \<and> active_status t s \<and> \<not> stuck graph c t hs s"
  by (simp add: is_thread_runnable_locked_def stuck_def)

text \<open>When every active thread is stuck no uncovered event can happen: the search finds none.\<close>

lemma no_producible_event:
  assumes "\<And>s. s < MAX_THREADS \<Longrightarrow> active_status t s \<Longrightarrow> stuck graph c t hs s"
  shows "\<not> exists_producible_uncovered_event_locked mem graph' c t"
proof
  assume "exists_producible_uncovered_event_locked mem graph' c t"
  then obtain g i where "\<not> is_node_covered_locked g c i" "producible g c t i"
    by (auto simp: exists_producible_uncovered_event_locked_def list_ex_iff split: option.splits dest: producible_sound)
  then have "next_of_running g c t i" by (auto elim: producible.cases)
  then obtain s where "is_thread_runnable_locked t (Some s)"
    by (auto simp: next_of_running_def is_thread_runnable_locked_def split: option.splits)
  then show False using assms runnable_not_stuck by blast
qed

lemma should_exit_iff:
  assumes inv: "threads_inv t"
  shows "should_exit_deadlock_locked mem graph c t hs \<longleftrightarrow>
    0 < active_threads t \<and> active_threads t = alive_threads t \<and> (\<forall>s<MAX_THREADS. active_status t s \<longrightarrow> stuck graph c t hs s)"
proof (cases "0 < active_threads t \<and> active_threads t = alive_threads t \<and>
    (\<forall>s<MAX_THREADS. active_status t s \<longrightarrow> stuck graph c t hs s)")
  case True
  then obtain s where s: "s < MAX_THREADS" "active_status t s" using some_active [OF inv] by blast
  then have "stuck graph c t hs s" using True by blast
  then have "has_blocked_or_waiting_threads_locked t"
    using s by (auto simp: has_blocked_or_waiting_threads_locked_def list_ex_iff stuck_def)
  moreover have "\<not> list_ex (slot_goes_on graph c t hs) [0..<MAX_THREADS]"
    using True goes_on_stuck by (auto simp: list_ex_iff slot_goes_on_def)
  moreover have "\<not> exists_producible_uncovered_event_locked mem graph c t" using True by (intro no_producible_event) blast
  ultimately show ?thesis using True by (simp add: should_exit_deadlock_locked_def)
next
  case False
  have "list_ex (slot_goes_on graph c t hs) [0..<MAX_THREADS]" if "s < MAX_THREADS" "active_status t s" "\<not> stuck graph c t hs s" for s
    using that goes_on_stuck [OF that(2), of graph c hs] by (auto simp: list_ex_iff intro!: bexI [of _ s])
  then show ?thesis using False active_less_alive(1) [OF inv] by (auto simp: should_exit_deadlock_locked_def)
qed

text \<open>Over the known threads: all of them are active and stuck.\<close>

lemma should_exit_known:
  assumes inv: "threads_inv t"
  shows "should_exit_deadlock_locked mem graph c t hs \<longleftrightarrow>
    (\<exists>s<MAX_THREADS. known_thread_status t s) \<and> (\<forall>s<MAX_THREADS. known_thread_status t s \<longrightarrow> stuck graph c t hs s)"
proof -
  have "active_threads t = alive_threads t \<longleftrightarrow> (\<forall>s<MAX_THREADS. known_thread_status t s \<longrightarrow> active_status t s)"
    using active_less_alive [OF inv] by fastforce
  moreover have "stuck graph c t hs s \<Longrightarrow> active_status t s" for s by (simp add: stuck_def)
  moreover have "active_status t s \<Longrightarrow> known_thread_status t s" if "s < MAX_THREADS" for s using inv that active_known by blast
  ultimately show ?thesis unfolding should_exit_iff [OF inv] some_active [OF inv] by blast
qed

lemma wait_loop_iff:
  "wait_loop graph c t hs b ss \<longleftrightarrow>
    (b \<or> (\<exists>s\<in>set ss. active_status t s)) \<and>
    (\<forall>s\<in>set ss. active_status t s \<longrightarrow>
       (waiting_status t s \<noteq> 0 \<or> blocked_unknown_status t s \<or> join_wait_status t s) \<and>
       (waiting_status t s \<noteq> 0 \<longrightarrow> \<not> can_produce_write_locked graph c t hs (waiting_status t s)))"
proof (induction ss arbitrary: b)
  case (Cons s ss)
  then show ?case by (cases "active_status t s") (auto simp: Let_def)
qed simp

section \<open>Properties\<close>

text \<open>
  C19. \<open>is_node_producible_locked\<close> with fresh flags, its visiting flags against cycles of
  reads included, decides the least set of events that contains the covered ones, the next event of
  a running thread when it stores or is a fence, and the next event of a running thread when it
  reads and the source of its edge is in the set.
\<close>
theorem sched_producible_is_least_fixpoint:
  "is_node_producible_locked g c t (Some {}) i = producible g c t i"
proof
  assume "producible g c t i"
  then obtain k where "producible_in g c t k i" using producible_height by blast
  then show "is_node_producible_locked g c t (Some {}) i" by (rule producible_complete) simp
qed (rule producible_sound)

text \<open>
  C3. The verdict of a deadlock, in every state the thread calls can reach: it is given exactly
  when there is a known thread and every known thread is active and stuck (blocked on an unknown
  event, in a join, or waiting for a write that can not be made any more). The search for a
  producible event of the graph and the number of covered events never change it.
\<close>
theorem sched_deadlock_verdict:
  assumes "reachable t"
  shows "should_exit_deadlock_locked mem graph c t hs \<longleftrightarrow>
    (\<exists>s<MAX_THREADS. known_thread_status t s) \<and> (\<forall>s<MAX_THREADS. known_thread_status t s \<longrightarrow> stuck graph c t hs s)"
  by (rule should_exit_known [OF reachable_inv [OF assms]])

definition no_history :: history where
  "no_history = \<lparr>buckets = (\<lambda>_. []), global_history = [], write_clock = 0, arena_capacity = 0, arena_count = 0\<rparr>"

text \<open>A state in which thread 0 waits for a write of no node, alone.\<close>

definition lone_waiter :: threads where
  "lone_waiter = set_waiting 0 9 (ensure_event_thread_active_locked 0 init_threads)"

lemma lone_waiter_reachable: "reachable lone_waiter"
  unfolding lone_waiter_def by (rule reachable.step [OF reachable.start thread_step.wait_begin]) (simp add: MAX_THREADS_def)

lemma lone_waiter_tables:
  "known_thread_status lone_waiter s \<longleftrightarrow> s = 0" "active_status lone_waiter s \<longleftrightarrow> s = 0"
  "waiting_status lone_waiter s = (if s = 0 then 9 else 0)" "\<not> blocked_unknown_status lone_waiter s"
  "\<not> join_wait_status lone_waiter s"
  by (simp_all add: lone_waiter_def set_waiting_def ensure_event_thread_active_locked_def init_threads_def set_known_def
      set_active_def Let_def MAX_THREADS_def)

theorem sched_deadlock_verdict_witness:
  "should_exit_deadlock_locked cov_ample None no_coverage lone_waiter no_history"
  unfolding sched_deadlock_verdict [OF lone_waiter_reachable]
  by (auto simp: lone_waiter_tables stuck_def can_produce_write_locked_def MAX_THREADS_def)

text \<open>
  The two forms of the verdict agree: while a blocked or joining thread waits for no write
  and some thread is active, \<open>is_global_wait_deadlock_locked\<close>, which looks at the threads
  only, answers as \<open>should_exit_deadlock_locked\<close> does.
\<close>
theorem sched_deadlock_forms_agree:
  assumes "reachable t" and "\<And>s. blocked_unknown_status t s \<or> join_wait_status t s \<Longrightarrow> waiting_status t s = 0"
    and "0 < active_threads t"
  shows "is_global_wait_deadlock_locked graph c t hs = should_exit_deadlock_locked mem graph c t hs"
proof -
  have inv: "threads_inv t" using assms(1) by (rule reachable_inv)
  have "stuck graph c t hs s \<longleftrightarrow> active_status t s \<and>
      (waiting_status t s \<noteq> 0 \<or> blocked_unknown_status t s \<or> join_wait_status t s) \<and>
      (waiting_status t s \<noteq> 0 \<longrightarrow> \<not> can_produce_write_locked graph c t hs (waiting_status t s))" for s
    using assms(2) [of s] by (auto simp: stuck_def)
  then have "wait_loop graph c t hs False [0..<MAX_THREADS] \<longleftrightarrow> (\<forall>s<MAX_THREADS. active_status t s \<longrightarrow> stuck graph c t hs s)"
    using assms(3) some_active [OF inv] unfolding wait_loop_iff by auto
  then show ?thesis
    using assms(3) active_less_alive(1) [OF inv] unfolding should_exit_iff [OF inv] is_global_wait_deadlock_locked_def
    by auto
qed

theorem sched_deadlock_forms_agree_witness:
  "is_global_wait_deadlock_locked None no_coverage lone_waiter no_history =
   should_exit_deadlock_locked cov_ample None no_coverage lone_waiter no_history"
proof (rule sched_deadlock_forms_agree [OF lone_waiter_reachable])
  show "0 < active_threads lone_waiter"
    using some_active [OF reachable_inv [OF lone_waiter_reachable]] lone_waiter_tables by (auto simp: MAX_THREADS_def)
qed (auto simp: lone_waiter_tables)

text \<open>
  C32. A verdict that comes too early: thread \<open>p\<close> joins thread \<open>r\<close>, and thread \<open>w\<close> waits for a
  write of \<open>p\<close> that is still to come. While \<open>r\<close> runs there is no deadlock, and none after \<open>p\<close>
  has returned from its join; but when \<open>r\<close> has ended and \<open>p\<close> has not yet taken the lock to
  end its join, the verdict is a deadlock, and \<open>w\<close>, which the end of \<open>r\<close> wakes up, ends the
  run with it.
\<close>
theorem sched_join_handoff_misjudged:
  assumes "reachable t" and "distinct [p, r, w]" and "p < MAX_THREADS" and "r < MAX_THREADS" and "w < MAX_THREADS"
    and "\<And>s. s < MAX_THREADS \<Longrightarrow> known_thread_status t s \<longleftrightarrow> s \<in> {p, r, w}"
    and "active_status t p" and "join_wait_status t p" and "\<not> blocked_unknown_status t p" and "waiting_status t p = 0"
    and "is_thread_runnable_locked t (Some r)"
    and "active_status t w" and "\<not> join_wait_status t w" and "\<not> blocked_unknown_status t w"
    and "waiting_status t w = x" and "x \<noteq> 0" and "find_write_in_history hs x = None" and "x \<notin> set (covered_node_ids c)"
    and "eg_find_node_by_id g x = Some n" and "eg_is_write_like (n_type n)" and "thread_slot (n_tid n) = Some p"
  shows "\<not> should_exit_deadlock_locked mem (Some g) c t hs \<and>
    should_exit_deadlock_locked mem (Some g) c (scheduler_thread_unregistered (int r) t) hs \<and>
    \<not> should_exit_deadlock_locked mem (Some g) c (join_ended_threads (int p) (scheduler_thread_unregistered (int r) t)) hs"
proof -
  have inv: "threads_inv t" using assms(1) by (rule reachable_inv)
  let ?t1 = "scheduler_thread_unregistered (int r) t"
  let ?t2 = "join_ended_threads (int p) ?t1"
  have ti: "table_index (int r) = Some r" "table_index (int p) = Some p" using assms by (simp_all add: table_index_Some)
  note f = unregistered_fields [OF ti(1), of t]
  have inv1: "threads_inv ?t1" using inv by (rule unregistered_inv)
  then have inv2: "threads_inv ?t2" by (rule join_ended_inv)
  have "\<not> stuck (Some g) c t hs r" using assms(11) by (simp add: runnable_not_stuck)
  moreover have "known_thread_status t r" using assms(4,6) by simp
  ultimately have 1: "\<not> should_exit_deadlock_locked mem (Some g) c t hs"
    unfolding should_exit_known [OF inv] using assms(4) by blast
  have sp: "stuck (Some g) c ?t1 hs p" using assms(2,7,8) by (simp add: stuck_def f)
  have "\<not> can_produce_write_locked (Some g) c ?t1 hs x"
    using assms(2,7,8,16-21) by (simp add: can_produce_write_locked_def is_thread_runnable_locked_def f)
  then have sw: "stuck (Some g) c ?t1 hs w" using assms(2,12,15,16) by (simp add: stuck_def f)
  have k1: "known_thread_status ?t1 s \<longleftrightarrow> s \<in> {p, w}" if "s < MAX_THREADS" for s
    using assms(2) assms(6) [OF that] by (auto simp: f)
  have 2: "should_exit_deadlock_locked mem (Some g) c ?t1 hs"
    unfolding should_exit_known [OF inv1] using k1 sp sw assms(3) by auto
  have "\<not> stuck (Some g) c ?t2 hs p"
    using assms(2,7,9,10) by (simp add: stuck_def join_ended_threads_def ti f)
  moreover have "known_thread_status ?t2 p" using k1 [OF assms(3)] assms(2,7) by (simp add: join_ended_threads_def ti f)
  ultimately have "\<not> should_exit_deadlock_locked mem (Some g) c ?t2 hs"
    unfolding should_exit_known [OF inv2] using assms(3) by blast
  then show ?thesis using 1 2 by blast
qed

text \<open>Threads 0, 1 and 2; thread 0 joins thread 1, and thread 2 waits for the write 1 of thread 0.\<close>

definition joining :: threads where
  "joining = set_waiting 2 1 (ensure_event_thread_active_locked 2 (scheduler_thread_join_wait_begin 0
     (ensure_event_thread_active_locked 2 (ensure_event_thread_active_locked 1
       (ensure_event_thread_active_locked 0 init_threads)))))"

lemma joining_reachable: "reachable joining"
  unfolding joining_def
  by (rule reachable.step [OF reachable.step [OF reachable.step [OF reachable.step [OF reachable.step [OF
      reachable.start thread_step.event] thread_step.event] thread_step.event] thread_step.join_begin] thread_step.wait_begin])
    (simp_all add: MAX_THREADS_def)

lemma joining_tables:
  "known_thread_status joining s \<longleftrightarrow> s \<in> {0, 1, 2}" "active_status joining s \<longleftrightarrow> s \<in> {0, 1, 2}"
  "join_wait_status joining s \<longleftrightarrow> s = 0" "\<not> blocked_unknown_status joining s"
  "waiting_status joining s = (if s = 2 then 1 else 0)"
  by (auto simp: joining_def set_waiting_def ensure_event_thread_active_locked_def init_threads_def set_known_def
      set_active_def Let_def MAX_THREADS_def scheduler_thread_join_wait_begin_def table_index_def)

theorem sched_join_handoff_misjudged_witness:
  "\<not> should_exit_deadlock_locked cov_ample (Some doubled_edge) no_coverage joining no_history \<and>
    should_exit_deadlock_locked cov_ample (Some doubled_edge) no_coverage (scheduler_thread_unregistered 1 joining) no_history \<and>
    \<not> should_exit_deadlock_locked cov_ample (Some doubled_edge) no_coverage
        (join_ended_threads 0 (scheduler_thread_unregistered 1 joining)) no_history"
proof -
  let ?n = "hd (eg_nodes doubled_edge)"
  have "eg_find_node_by_id doubled_edge 1 = Some ?n" "eg_is_write_like (n_type ?n)" "thread_slot (n_tid ?n) = Some 0"
    by (simp_all add: doubled_edge_def eg_find_node_by_id_def eg_is_write_like_def thread_slot_def MAX_THREADS_def)
  then show ?thesis
    using sched_join_handoff_misjudged [OF joining_reachable, of 0 1 2 1 no_history no_coverage doubled_edge ?n cov_ample]
    by (simp add: joining_tables MAX_THREADS_def is_thread_runnable_locked_def find_write_in_history_def no_history_def
        no_coverage_def)
qed

end
