(* ===== verification/SchedTree.thy ===== *)
theory SchedTree imports EventGraph begin

text \<open>
  The threads of a run and what they executed last (\<^verbatim>\<open>scheduler.c\<close>): every thread is a node that is
  in a list of all threads and in the list of the children of the thread that created it; a join is
  noted with the event the joining thread had executed. At the end of a run the events the graph
  did not know are published, each with the events it comes after, and joined threads are removed.
  A node is named by the number of its allocation, and it is live while it is in the list of all
  threads.
\<close>

section \<open>State\<close>

type_synonym tref = nat

record event_t =
  ev_tid :: s32
  ev_iid :: s64
  ev_vid :: s32

record next_event_t =
  nx_tid :: s32
  nx_iid :: s64
  nx_vid :: s32
  nx_order :: nat
  nx_type :: s32
  nx_loc_id :: s64

record thread_graph_t =
  tg_tid :: u64
  last_executed :: event_t
  joined :: bool
  parent_iid_at_join :: s64
  parent_vid_at_join :: s64
  children :: "tref list"

record forest =
  tnodes :: "tref \<Rightarrow> thread_graph_t"
  all_threads :: "tref list"
  next_ref :: nat
  next_events :: "next_event_t list"

text \<open>Which allocations succeed: a thread, an unknown event, an entry of a list of sources.\<close>

record tree_memory =
  grants_thread :: "nat \<Rightarrow> bool"
  grants_unknown :: "nat \<Rightarrow> bool"
  grants_source :: "tref \<Rightarrow> bool"

section \<open>Operations\<close>

definition find_thread :: "forest \<Rightarrow> u64 \<Rightarrow> tref option" where
  "find_thread f tid = find (\<lambda>r. tg_tid (tnodes f r) = tid) (all_threads f)"

definition update_node :: "tref \<Rightarrow> (thread_graph_t \<Rightarrow> thread_graph_t) \<Rightarrow> forest \<Rightarrow> forest" where
  "update_node r h f = f\<lparr>tnodes := (tnodes f)(r := h (tnodes f r))\<rparr>"

definition remove_from_all_threads :: "tref \<Rightarrow> forest \<Rightarrow> forest" where
  "remove_from_all_threads r f = f\<lparr>all_threads := remove1 r (all_threads f)\<rparr>"

definition update_last_executed_event :: "u64 \<Rightarrow> s64 \<Rightarrow> s32 \<Rightarrow> forest \<Rightarrow> forest" where
  "update_last_executed_event tid iid vid f =
     (case find_thread f tid of None \<Rightarrow> f
      | Some r \<Rightarrow> update_node r (\<lambda>n. n\<lparr>last_executed := \<lparr>ev_tid = ucast tid, ev_iid = iid, ev_vid = vid\<rparr>\<rparr>) f)"

text \<open>\<open>add_child\<close>: a thread whose creator is not known becomes a child of thread 0.\<close>

definition add_child :: "u64 \<Rightarrow> tref \<Rightarrow> forest \<Rightarrow> forest" where
  "add_child ptid r f =
     (case (case find_thread f ptid of None \<Rightarrow> find_thread f 0 | Some p \<Rightarrow> Some p) of
        None \<Rightarrow> f
      | Some p \<Rightarrow>
          update_node r (\<lambda>n. n\<lparr>last_executed := last_executed (tnodes f p)\<rparr>)
            (update_node p (\<lambda>n. n\<lparr>children := r # children n\<rparr>) f))"

definition add_to_all_threads :: "tree_memory \<Rightarrow> u64 \<Rightarrow> u64 \<Rightarrow> forest \<Rightarrow> forest outcome" where
  "add_to_all_threads mem tid parentid f =
     (let r = next_ref f;
          n = \<lparr>tg_tid = tid, last_executed = \<lparr>ev_tid = ucast tid, ev_iid = - 1, ev_vid = - 1\<rparr>, joined = False,
               parent_iid_at_join = - 1, parent_vid_at_join = - 1, children = []\<rparr>
      in if \<not> grants_thread mem r then Exits EXIT_INVALID_INPUT
         else let f = f\<lparr>tnodes := (tnodes f)(r := n), next_ref := r + 1\<rparr>;
                  f = add_child parentid r f
              in Returns (f\<lparr>all_threads := r # all_threads f\<rparr>))"

text \<open>Thread numbers are compared as unsigned 64-bit numbers with the numbers of type \<open>int\<close> given.\<close>

definition thread_joined_mark_true :: "s32 \<Rightarrow> s32 \<Rightarrow> forest \<Rightarrow> forest" where
  "thread_joined_mark_true parent_tid tid f =
     (case (find_thread f (scast parent_tid), find_thread f (scast tid)) of
        (Some p, Some r) \<Rightarrow>
          update_node r (\<lambda>n. n\<lparr>joined := True, parent_iid_at_join := ev_iid (last_executed (tnodes f p)),
            parent_vid_at_join := scast (ev_vid (last_executed (tnodes f p)))\<rparr>) f
      | _ \<Rightarrow> f)"

definition store_the_unknown_event :: "tree_memory \<Rightarrow> next_event_t \<Rightarrow> forest \<Rightarrow> forest outcome" where
  "store_the_unknown_event mem e f =
     (if grants_unknown mem (length (next_events f)) then Returns (f\<lparr>next_events := e # next_events f\<rparr>)
      else Exits EXIT_INVALID_INPUT)"

section \<open>Pruning joined threads\<close>

text \<open>
  The pointer \<open>curr_ptr\<close> is the position \<open>i\<close> in the children of \<open>p\<close>. The recursion is bounded
  by fuel; \<open>prune_fuel\<close> below is shown to be enough.
\<close>

definition shielded :: "thread_graph_t \<Rightarrow> s64 \<Rightarrow> s32 \<Rightarrow> bool" where
  "shielded n iid vid \<longleftrightarrow> parent_iid_at_join n \<noteq> iid \<or> parent_vid_at_join n \<noteq> scast vid"

definition unlink :: "tref \<Rightarrow> nat \<Rightarrow> forest \<Rightarrow> forest" where
  "unlink p i f = update_node p (\<lambda>n. n\<lparr>children := take i (children n) @ drop (i + 1) (children n)\<rparr>) f"

fun collect_and_prune_events :: "tree_memory \<Rightarrow> nat \<Rightarrow> forest \<Rightarrow> tref \<Rightarrow> nat \<Rightarrow> s64 \<Rightarrow> s32 \<Rightarrow> event_t list \<Rightarrow>
    (event_t list \<times> forest) option" where
  "collect_and_prune_events mem 0 f p i iid vid acc = None"
| "collect_and_prune_events mem (Suc k) f p i iid vid acc =
     (if length (children (tnodes f p)) \<le> i then Some (acc, f)
      else let r = children (tnodes f p) ! i; n = tnodes f r
           in if \<not> joined n then collect_and_prune_events mem k f p (i + 1) iid vid acc
              else case collect_and_prune_events mem k f r 0 (ev_iid (last_executed n)) (ev_vid (last_executed n)) [] of
                None \<Rightarrow> None
              | Some (grand, f) \<Rightarrow>
                  (let acc = (if shielded n iid vid then acc else if grand \<noteq> [] then grand @ acc
                              else if grants_source mem r then last_executed n # acc else acc)
                   in collect_and_prune_events mem k (remove_from_all_threads r (unlink p i f)) p i iid vid acc))"

definition prune_fuel :: "forest \<Rightarrow> nat" where
  "prune_fuel f = (next_ref f + 1) * (next_ref f + 2)"

definition get_executed_events_and_prune :: "tree_memory \<Rightarrow> tref \<Rightarrow> forest \<Rightarrow> (event_t list \<times> forest) option" where
  "get_executed_events_and_prune mem p f =
     (if children (tnodes f p) = [] then Some ([], f)
      else collect_and_prune_events mem (prune_fuel f) f p 0 (ev_iid (last_executed (tnodes f p)))
        (ev_vid (last_executed (tnodes f p))) [])"

section \<open>Publishing the unknown events\<close>

definition MAX_NEXT :: nat where "MAX_NEXT = 128"
definition MAX_NODES :: nat where "MAX_NODES = 128"

record shared_event =
  se_tid :: s32
  se_iid :: s64
  se_vid :: s32
  se_type :: u8
  se_access_mode :: u8
  se_location :: u64
  se_sources :: "event_t list"

text \<open>The events an unknown event comes after; no thread of its number means none.\<close>

definition sources_of :: "tree_memory \<Rightarrow> next_event_t \<Rightarrow> forest \<Rightarrow> (event_t list \<times> forest) option" where
  "sources_of mem e f =
     (case find_thread f (scast (nx_tid e)) of None \<Rightarrow> Some ([], f)
      | Some p \<Rightarrow>
          (case get_executed_events_and_prune mem p f of None \<Rightarrow> None
           | Some (es, f) \<Rightarrow> Some (if es \<noteq> [] then es else [last_executed (tnodes f p)], f)))"

definition shared_of :: "next_event_t \<Rightarrow> event_t list \<Rightarrow> shared_event" where
  "shared_of e es = \<lparr>se_tid = nx_tid e, se_iid = nx_iid e, se_vid = nx_vid e, se_type = ucast (nx_type e),
     se_access_mode = of_nat (nx_order e), se_location = ucast (nx_loc_id e), se_sources = take MAX_NODES es\<rparr>"

fun publish :: "tree_memory \<Rightarrow> next_event_t list \<Rightarrow> forest \<Rightarrow> shared_event list \<Rightarrow> (shared_event list \<times> forest) option" where
  "publish mem [] f shm = Some (shm, f)"
| "publish mem (e # es) f shm =
     (case sources_of mem e f of None \<Rightarrow> None
      | Some (srcs, f) \<Rightarrow> publish mem es f (if length shm < MAX_NEXT then shm @ [shared_of e srcs] else shm))"

text \<open>
  \<open>scheduler_terminate_locked\<close>: what it leaves in the shared memory, \<open>None\<close> when it is not
  touched, and the exit code; \<open>attached\<close> tells whether there is a shared memory. Only the first
  call ends the process, a later one in another thread waits for it.
\<close>

definition scheduler_terminate_locked :: "tree_memory \<Rightarrow> bool \<Rightarrow> nat \<Rightarrow> forest \<Rightarrow> (shared_event list option \<times> nat) option" where
  "scheduler_terminate_locked mem attached code f =
     (if code = 20 \<and> all_threads f \<noteq> []
      then (case publish mem (next_events f) f [] of None \<Rightarrow> None
            | Some (shm, f) \<Rightarrow> Some (if attached then Some shm else None, code))
      else Some (None, code))"

section \<open>No pointer to a removed thread\<close>

text \<open>The children of live threads are live, younger, and have one parent.\<close>

definition forest_inv :: "forest \<Rightarrow> bool" where
  "forest_inv f \<longleftrightarrow> distinct (all_threads f) \<and> (\<forall>r\<in>set (all_threads f). r < next_ref f) \<and>
     (\<forall>r\<in>set (all_threads f). distinct (children (tnodes f r)) \<and>
       (\<forall>c\<in>set (children (tnodes f r)). c \<in> set (all_threads f) \<and> r < c)) \<and>
     (\<forall>r\<in>set (all_threads f). \<forall>q\<in>set (all_threads f). r \<noteq> q \<longrightarrow>
       set (children (tnodes f r)) \<inter> set (children (tnodes f q)) = {})"

definition init_forest :: forest where
  "init_forest = \<lparr>tnodes = (\<lambda>_. \<lparr>tg_tid = 0, last_executed = \<lparr>ev_tid = 0, ev_iid = 0, ev_vid = 0\<rparr>, joined = False,
     parent_iid_at_join = 0, parent_vid_at_join = 0, children = []\<rparr>), all_threads = [], next_ref = 0, next_events = []\<rparr>"

lemma init_forest_inv: "forest_inv init_forest"
  by (simp add: forest_inv_def init_forest_def)

lemma find_thread_live: "find_thread f tid = Some r \<Longrightarrow> r \<in> set (all_threads f)"
  by (auto simp: find_thread_def find_Some_iff)

lemma forest_inv_same_children:
  "forest_inv f \<Longrightarrow> all_threads f' = all_threads f \<Longrightarrow> next_ref f' = next_ref f \<Longrightarrow>
    (\<And>r. children (tnodes f' r) = children (tnodes f r)) \<Longrightarrow> forest_inv f'"
  by (simp add: forest_inv_def)

lemma update_node_fields [simp]:
  "all_threads (update_node r h f) = all_threads f" "next_ref (update_node r h f) = next_ref f"
  "next_events (update_node r h f) = next_events f"
  "tnodes (update_node r h f) q = (if q = r then h (tnodes f r) else tnodes f q)"
  by (simp_all add: update_node_def)

lemma update_last_inv: "forest_inv f \<Longrightarrow> forest_inv (update_last_executed_event tid iid vid f)"
  by (erule forest_inv_same_children) (simp_all add: update_last_executed_event_def split: option.split)

lemma joined_mark_inv: "forest_inv f \<Longrightarrow> forest_inv (thread_joined_mark_true ptid tid f)"
  by (erule forest_inv_same_children) (simp_all add: thread_joined_mark_true_def split: option.split)

lemma unknown_inv: "forest_inv f \<Longrightarrow> store_the_unknown_event mem e f = Returns f' \<Longrightarrow> forest_inv f'"
  by (erule forest_inv_same_children) (auto simp: store_the_unknown_event_def split: if_splits)

text \<open>A new thread under the thread \<open>p\<close>, or under none.\<close>

lemma enter_thread_inv:
  assumes inv: "forest_inv f" and n: "children n = []" and p: "p \<in> set (all_threads f)"
  shows "forest_inv (f\<lparr>tnodes := (tnodes f)(next_ref f := n, p := (tnodes f p)\<lparr>children := next_ref f # children (tnodes f p)\<rparr>),
    next_ref := next_ref f + 1, all_threads := next_ref f # all_threads f\<rparr>)"
proof -
  have old: "r < next_ref f" "r \<noteq> next_ref f" if "r \<in> set (all_threads f)" for r
    using inv that by (auto simp: forest_inv_def)
  have ch: "c \<in> set (all_threads f)" if "c \<in> set (children (tnodes f r))" "r \<in> set (all_threads f)" for c r
    using inv that by (auto simp: forest_inv_def)
  show ?thesis using inv n p old ch unfolding forest_inv_def by (auto simp: less_Suc_eq)
qed

lemma enter_lone_thread_inv:
  assumes inv: "forest_inv f" and n: "children n = []"
  shows "forest_inv (f\<lparr>tnodes := (tnodes f)(next_ref f := n), next_ref := next_ref f + 1,
    all_threads := next_ref f # all_threads f\<rparr>)"
proof -
  have old: "r < next_ref f" "r \<noteq> next_ref f" if "r \<in> set (all_threads f)" for r
    using inv that by (auto simp: forest_inv_def)
  show ?thesis using inv n old unfolding forest_inv_def by (auto simp: less_Suc_eq)
qed

lemma add_thread_inv:
  assumes inv: "forest_inv f" and add: "add_to_all_threads mem tid parentid f = Returns f'"
  shows "forest_inv f'"
proof -
  let ?r = "next_ref f"
  let ?n = "\<lparr>tg_tid = tid, last_executed = \<lparr>ev_tid = ucast tid, ev_iid = - 1, ev_vid = - 1\<rparr>, joined = False,
               parent_iid_at_join = - 1, parent_vid_at_join = - 1, children = []\<rparr>"
  let ?f = "f\<lparr>tnodes := (tnodes f)(?r := ?n), next_ref := ?r + 1\<rparr>"
  have f': "f' = (add_child parentid ?r ?f)\<lparr>all_threads := ?r # all_threads (add_child parentid ?r ?f)\<rparr>"
    using add by (simp add: add_to_all_threads_def Let_def split: if_splits)
  have fresh: "r \<in> set (all_threads f) \<Longrightarrow> r \<noteq> ?r" for r using inv by (auto simp: forest_inv_def)
  show ?thesis
  proof (cases "case find_thread ?f parentid of None \<Rightarrow> find_thread ?f 0 | Some p \<Rightarrow> Some p")
    case None
    then have "f' = f\<lparr>tnodes := (tnodes f)(?r := ?n), next_ref := ?r + 1, all_threads := ?r # all_threads f\<rparr>"
      unfolding f' add_child_def by simp
    then show ?thesis using enter_lone_thread_inv [OF inv, of ?n] by simp
  next
    case (Some p)
    then have p: "p \<in> set (all_threads f)" by (auto dest!: find_thread_live split: option.splits)
    let ?n' = "?n\<lparr>last_executed := last_executed (tnodes f p)\<rparr>"
    have "f' = f\<lparr>tnodes := (tnodes f)(?r := ?n', p := (tnodes f p)\<lparr>children := ?r # children (tnodes f p)\<rparr>),
        next_ref := ?r + 1, all_threads := ?r # all_threads f\<rparr>"
      using Some fresh [OF p] unfolding f' add_child_def by (auto simp: update_node_def fun_upd_twist)
    then show ?thesis using enter_thread_inv [OF inv _ p, of ?n'] by simp
  qed
qed

section \<open>What pruning does\<close>

text \<open>
  Pruning below \<open>p\<close> takes threads out of lists and changes nothing else; only joined threads go,
  and only threads younger than \<open>p\<close>.
\<close>

definition prunes :: "tref \<Rightarrow> forest \<Rightarrow> forest \<Rightarrow> bool" where
  "prunes p f f' \<longleftrightarrow> forest_inv f' \<and> next_ref f' = next_ref f \<and> next_events f' = next_events f \<and>
     set (all_threads f') \<subseteq> set (all_threads f) \<and>
     (\<forall>q\<in>set (all_threads f). q \<in> set (all_threads f') \<or> (joined (tnodes f q) \<and> p < q)) \<and>
     (\<forall>q. tnodes f' q = (tnodes f q)\<lparr>children := children (tnodes f' q)\<rparr> \<and>
       set (children (tnodes f' q)) \<subseteq> set (children (tnodes f q)) \<and>
       (q < p \<longrightarrow> children (tnodes f' q) = children (tnodes f q)))"

lemma prunes_refl: "forest_inv f \<Longrightarrow> prunes p f f"
  by (simp add: prunes_def)

lemma prunes_fields:
  assumes "prunes p f f'"
  shows "joined (tnodes f' q) = joined (tnodes f q)" "last_executed (tnodes f' q) = last_executed (tnodes f q)"
    "shielded (tnodes f' q) iid vid = shielded (tnodes f q) iid vid"
proof -
  have q: "tnodes f' q = (tnodes f q)\<lparr>children := children (tnodes f' q)\<rparr>" using assms by (simp add: prunes_def)
  show "joined (tnodes f' q) = joined (tnodes f q)" by (subst q) simp
  show "last_executed (tnodes f' q) = last_executed (tnodes f q)" by (subst q) simp
  show "shielded (tnodes f' q) iid vid = shielded (tnodes f q) iid vid" unfolding shielded_def by (subst q, subst q) simp
qed

lemma prunes_trans:
  assumes a: "prunes p f g" and b: "prunes q g h" and "p \<le> q"
  shows "prunes p f h"
proof -
  have g: "tnodes g r = (tnodes f r)\<lparr>children := children (tnodes g r)\<rparr>" for r using a by (simp add: prunes_def)
  have h: "tnodes h r = (tnodes g r)\<lparr>children := children (tnodes h r)\<rparr>" for r using b by (simp add: prunes_def)
  have n: "tnodes h r = (tnodes f r)\<lparr>children := children (tnodes h r)\<rparr>" for r
    by (subst h, subst g) simp
  have gone: "r \<in> set (all_threads h) \<or> (joined (tnodes f r) \<and> p < r)" if "r \<in> set (all_threads f)" for r
  proof (cases "r \<in> set (all_threads g)")
    case True
    then have "r \<in> set (all_threads h) \<or> (joined (tnodes g r) \<and> q < r)" using b by (simp add: prunes_def)
    then show ?thesis using prunes_fields(1) [OF a] \<open>p \<le> q\<close> by auto
  next
    case False
    then show ?thesis using a that unfolding prunes_def by blast
  qed
  have sub: "set (children (tnodes h r)) \<subseteq> set (children (tnodes f r))" for r
  proof -
    have "set (children (tnodes h r)) \<subseteq> set (children (tnodes g r))" using b by (simp add: prunes_def)
    also have "\<dots> \<subseteq> set (children (tnodes f r))" using a by (simp add: prunes_def)
    finally show ?thesis .
  qed
  have old: "children (tnodes h r) = children (tnodes f r)" if "r < p" for r
    using a b that \<open>p \<le> q\<close> by (simp add: prunes_def)
  have all: "set (all_threads h) \<subseteq> set (all_threads f)" using a b by (auto simp: prunes_def)
  have "forest_inv h" "next_ref h = next_ref f" "next_events h = next_events f" using a b by (simp_all add: prunes_def)
  then show ?thesis unfolding prunes_def using n gone sub old all by blast
qed

text \<open>Removing one joined child.\<close>

lemma drop_child_inv:
  assumes inv: "forest_inv f" and p: "p \<in> set (all_threads f)" and i: "i < length (children (tnodes f p))"
    and r: "r = children (tnodes f p) ! i" and j: "joined (tnodes f r)"
  shows "prunes p f (remove_from_all_threads r (unlink p i f))"
proof -
  let ?f' = "remove_from_all_threads r (unlink p i f)"
  let ?cs = "children (tnodes f p)"
  have d: "distinct (all_threads f)" "distinct ?cs" and rc: "r \<in> set ?cs" "r \<in> set (all_threads f)" "p < r"
    using inv p i r by (auto simp: forest_inv_def)
  have all: "set (all_threads ?f') = set (all_threads f) - {r}" "distinct (all_threads ?f')"
    using d by (simp_all add: remove_from_all_threads_def unlink_def)
  have cs: "take i ?cs @ drop (i + 1) ?cs = remove1 r ?cs"
  proof -
    have "?cs = take i ?cs @ r # drop (i + 1) ?cs" using i r by (simp add: id_take_nth_drop)
    moreover have "r \<notin> set (take i ?cs)" using d(2) i r by (metis calculation distinct_append IntI empty_iff list.set_intros(1))
    ultimately show ?thesis by (metis remove1.simps(2) remove1_append)
  qed
  have ch: "children (tnodes ?f' q) = (if q = p then remove1 r ?cs else children (tnodes f q))"
    "tnodes ?f' q = (tnodes f q)\<lparr>children := children (tnodes ?f' q)\<rparr>" for q
    using cs by (simp_all add: remove_from_all_threads_def unlink_def)
  have other: "r \<notin> set (children (tnodes f q))" if "q \<in> set (all_threads f)" "q \<noteq> p" for q
  proof -
    have "set (children (tnodes f q)) \<inter> set (children (tnodes f p)) = {}"
      using inv p that unfolding forest_inv_def by blast
    then show ?thesis using rc(1) by blast
  qed
  have live: "c \<in> set (all_threads f) \<and> q < c" if "q \<in> set (all_threads f)" "c \<in> set (children (tnodes f q))" for c q
    using inv that by (simp add: forest_inv_def)
  have sub: "set (children (tnodes ?f' q)) \<subseteq> set (children (tnodes f q))" for q
    using set_remove1_subset [of r ?cs] by (simp add: ch(1))
  have rc': "r \<notin> set (children (tnodes ?f' q))" if "q \<in> set (all_threads f)" for q
    using d(2) other [OF that] by (simp add: ch(1))
  have "forest_inv ?f'"
    unfolding forest_inv_def
  proof (intro conjI ballI impI)
    fix q assume q: "q \<in> set (all_threads ?f')"
    then have qf: "q \<in> set (all_threads f)" by (simp add: all)
    show "q < next_ref ?f'" using inv qf by (simp add: forest_inv_def remove_from_all_threads_def unlink_def)
    show "distinct (children (tnodes ?f' q))" using inv qf d(2) by (simp add: ch(1) forest_inv_def)
    show "c \<in> set (all_threads ?f')" "q < c" if "c \<in> set (children (tnodes ?f' q))" for c
      using live [OF qf] sub [of q] rc' [OF qf] that by (auto simp: all)
    show "set (children (tnodes ?f' q)) \<inter> set (children (tnodes ?f' q')) = {}"
      if "q' \<in> set (all_threads ?f')" "q \<noteq> q'" for q'
    proof -
      have "set (children (tnodes f q)) \<inter> set (children (tnodes f q')) = {}"
        using inv qf that by (simp add: forest_inv_def all)
      then show ?thesis using sub [of q] sub [of q'] by blast
    qed
  qed (rule all(2))
  moreover have "next_ref ?f' = next_ref f" "next_events ?f' = next_events f"
    by (simp_all add: remove_from_all_threads_def unlink_def)
  moreover have "children (tnodes ?f' q) = children (tnodes f q)" if "q < p" for q using that by (simp add: ch(1))
  ultimately show ?thesis unfolding prunes_def using ch(2) sub all j rc by auto
qed

text \<open>
  The threads whose joins, one below the other, all happened at the last event of the thread that
  joined.
\<close>

inductive joined_source :: "forest \<Rightarrow> tref \<Rightarrow> s64 \<Rightarrow> s32 \<Rightarrow> tref \<Rightarrow> bool" for f where
  child: "c \<in> set (children (tnodes f p)) \<Longrightarrow> joined (tnodes f c) \<Longrightarrow> \<not> shielded (tnodes f c) iid vid \<Longrightarrow>
    joined_source f p iid vid c"
| below: "c \<in> set (children (tnodes f p)) \<Longrightarrow> joined (tnodes f c) \<Longrightarrow> \<not> shielded (tnodes f c) iid vid \<Longrightarrow>
    joined_source f c (ev_iid (last_executed (tnodes f c))) (ev_vid (last_executed (tnodes f c))) d \<Longrightarrow>
    joined_source f p iid vid d"

text \<open>
  Those of them that nothing was joined to in the same way, in the order in which the code lists
  their last events: what pruning is to return, computed without changing the forest. Children are
  younger than their parents, which is why it ends.
\<close>

function joined_leaves :: "forest \<Rightarrow> tref \<Rightarrow> s64 \<Rightarrow> s32 \<Rightarrow> tref list" where
  "joined_leaves f p iid vid = concat (map (\<lambda>c.
     if p < c \<and> c < next_ref f \<and> joined (tnodes f c) \<and> \<not> shielded (tnodes f c) iid vid
     then (let ds = joined_leaves f c (ev_iid (last_executed (tnodes f c))) (ev_vid (last_executed (tnodes f c)))
           in if ds = [] then [c] else ds)
     else []) (rev (children (tnodes f p))))"
  by pat_completeness auto
termination by (relation "measure (\<lambda>(f, p, _, _). next_ref f - p)") auto

declare joined_leaves.simps [simp del]

definition leaves_at :: "forest \<Rightarrow> tref \<Rightarrow> tref list" where
  "leaves_at f c = joined_leaves f c (ev_iid (last_executed (tnodes f c))) (ev_vid (last_executed (tnodes f c)))"

definition joined_branch :: "forest \<Rightarrow> tref \<Rightarrow> s64 \<Rightarrow> s32 \<Rightarrow> tref \<Rightarrow> tref list" where
  "joined_branch f p iid vid c =
     (if p < c \<and> c < next_ref f \<and> joined (tnodes f c) \<and> \<not> shielded (tnodes f c) iid vid
      then (if leaves_at f c = [] then [c] else leaves_at f c) else [])"

lemma joined_leaves_branches: "joined_leaves f p iid vid = concat (map (joined_branch f p iid vid) (rev (children (tnodes f p))))"
  using joined_leaves.simps [of f p iid vid] unfolding joined_branch_def leaves_at_def Let_def .

definition has_joined_child :: "forest \<Rightarrow> tref \<Rightarrow> s64 \<Rightarrow> s32 \<Rightarrow> bool" where
  "has_joined_child f p iid vid \<longleftrightarrow> (\<exists>c\<in>set (children (tnodes f p)). joined (tnodes f c) \<and> \<not> shielded (tnodes f c) iid vid)"

lemma live_child:
  assumes "forest_inv f" and "p \<in> set (all_threads f)" and "c \<in> set (children (tnodes f p))"
  shows "c \<in> set (all_threads f)" "p < c" "c < next_ref f"
  using assms by (auto simp: forest_inv_def)

lemma joined_leaves_empty:
  assumes "forest_inv f" and "p \<in> set (all_threads f)"
  shows "joined_leaves f p iid vid = [] \<longleftrightarrow> \<not> has_joined_child f p iid vid"
proof -
  have "joined_branch f p iid vid c = [] \<longleftrightarrow> \<not> (joined (tnodes f c) \<and> \<not> shielded (tnodes f c) iid vid)"
    if "c \<in> set (children (tnodes f p))" for c
    using live_child [OF assms that] by (simp add: joined_branch_def)
  then show ?thesis unfolding joined_leaves_branches has_joined_child_def by auto
qed

definition joined_leaf :: "forest \<Rightarrow> tref \<Rightarrow> s64 \<Rightarrow> s32 \<Rightarrow> tref \<Rightarrow> bool" where
  "joined_leaf f p iid vid d \<longleftrightarrow> joined_source f p iid vid d \<and>
     \<not> has_joined_child f d (ev_iid (last_executed (tnodes f d))) (ev_vid (last_executed (tnodes f d)))"

lemma joined_source_cases:
  "joined_source f p iid vid d \<longleftrightarrow> (\<exists>c\<in>set (children (tnodes f p)). joined (tnodes f c) \<and> \<not> shielded (tnodes f c) iid vid \<and>
     (d = c \<or> joined_source f c (ev_iid (last_executed (tnodes f c))) (ev_vid (last_executed (tnodes f c))) d))"
  by (subst joined_source.simps) blast

lemma joined_leaf_cases:
  "joined_leaf f p iid vid d \<longleftrightarrow> (\<exists>c\<in>set (children (tnodes f p)). joined (tnodes f c) \<and> \<not> shielded (tnodes f c) iid vid \<and>
     (if has_joined_child f c (ev_iid (last_executed (tnodes f c))) (ev_vid (last_executed (tnodes f c)))
      then joined_leaf f c (ev_iid (last_executed (tnodes f c))) (ev_vid (last_executed (tnodes f c))) d else d = c))"
proof -
  have none: "\<not> joined_source f c iid vid d" if "\<not> has_joined_child f c iid vid" for c iid vid
    using that by (subst joined_source_cases) (auto simp: has_joined_child_def)
  show ?thesis unfolding joined_leaf_def by (subst joined_source_cases) (auto dest: none)
qed

lemma joined_leaves_set:
  "forest_inv f \<Longrightarrow> p \<in> set (all_threads f) \<Longrightarrow> set (joined_leaves f p iid vid) = {d. joined_leaf f p iid vid d}"
proof (induction f p iid vid rule: joined_leaves.induct)
  case (1 f p iid vid)
  have "set (joined_branch f p iid vid c) = {d. joined (tnodes f c) \<and> \<not> shielded (tnodes f c) iid vid \<and>
     (if has_joined_child f c (ev_iid (last_executed (tnodes f c))) (ev_vid (last_executed (tnodes f c)))
      then joined_leaf f c (ev_iid (last_executed (tnodes f c))) (ev_vid (last_executed (tnodes f c))) d else d = c)}"
    if c: "c \<in> set (children (tnodes f p))" for c
  proof (cases "joined (tnodes f c) \<and> \<not> shielded (tnodes f c) iid vid")
    case True
    note l = live_child [OF "1.prems" c]
    have "set (leaves_at f c) = {d. joined_leaf f c (ev_iid (last_executed (tnodes f c))) (ev_vid (last_executed (tnodes f c))) d}"
      unfolding leaves_at_def by (rule "1.IH") (use c l True "1.prems" in auto)
    moreover have "leaves_at f c = [] \<longleftrightarrow> \<not> has_joined_child f c (ev_iid (last_executed (tnodes f c))) (ev_vid (last_executed (tnodes f c)))"
      unfolding leaves_at_def by (rule joined_leaves_empty [OF "1.prems"(1) l(1)])
    ultimately show ?thesis using True l by (auto simp: joined_branch_def)
  qed (auto simp: joined_branch_def)
  then show ?case unfolding joined_leaves_branches by (subst joined_leaf_cases) auto
qed

text \<open>Subtrees: the leaves below a thread depend on its subtree only, and the subtrees of two children are disjoint.\<close>

definition kid :: "forest \<Rightarrow> tref \<Rightarrow> tref \<Rightarrow> bool" where
  "kid f a b \<longleftrightarrow> b \<in> set (children (tnodes f a))"

lemma joined_leaves_cong:
  "\<forall>q. (kid f)\<^sup>*\<^sup>* p q \<longrightarrow> tnodes g q = tnodes f q \<Longrightarrow> next_ref g = next_ref f \<Longrightarrow>
    joined_leaves g p iid vid = joined_leaves f p iid vid"
proof (induction f p iid vid rule: joined_leaves.induct)
  case (1 f p iid vid)
  have same: "tnodes g p = tnodes f p" using "1.prems"(1) by simp
  have "joined_branch g p iid vid c = joined_branch f p iid vid c" if c: "c \<in> set (children (tnodes f p))" for c
  proof -
    have k: "kid f p c" using c by (simp add: kid_def)
    then have n: "tnodes g c = tnodes f c" using "1.prems"(1) by blast
    have "leaves_at g c = leaves_at f c" if "p < c" "c < next_ref f" "joined (tnodes f c)" "\<not> shielded (tnodes f c) iid vid"
      unfolding leaves_at_def n
      by (rule "1.IH") (use that c "1.prems" k in \<open>auto intro: converse_rtranclp_into_rtranclp\<close>)
    then show ?thesis using n "1.prems"(2) by (simp add: joined_branch_def)
  qed
  then show ?case unfolding joined_leaves_branches same by (intro arg_cong [where f = concat] map_cong [OF refl]) simp
qed

lemma below_live:
  assumes "forest_inv f" and "(kid f)\<^sup>*\<^sup>* p q" and "p \<in> set (all_threads f)"
  shows "q \<in> set (all_threads f) \<and> p \<le> q"
  using assms(2,3)
proof (induction rule: rtranclp_induct)
  case (step y z)
  then show ?case using live_child [OF assms(1), of y z] by (auto simp: kid_def)
qed simp

lemma one_parent:
  assumes "forest_inv f" and "kid f a c" and "kid f b c" and "a \<in> set (all_threads f)" and "b \<in> set (all_threads f)"
  shows "a = b"
proof (rule ccontr)
  assume "a \<noteq> b"
  then have "set (children (tnodes f a)) \<inter> set (children (tnodes f b)) = {}" using assms(1,4,5) by (simp add: forest_inv_def)
  then show False using assms(2,3) by (auto simp: kid_def)
qed

lemma disjoint_subtrees:
  assumes inv: "forest_inv f" and p: "p \<in> set (all_threads f)" and r: "kid f p r" and c: "kid f p c" "c \<noteq> r"
    and q: "(kid f)\<^sup>*\<^sup>* c q"
  shows "\<not> (kid f)\<^sup>*\<^sup>* r q"
proof
  assume "(kid f)\<^sup>*\<^sup>* r q"
  have lr: "r \<in> set (all_threads f)" "p < r" and lc: "c \<in> set (all_threads f)" "p < c"
    using live_child [OF inv p] r c by (auto simp: kid_def)
  have no: "\<not> (kid f)\<^sup>*\<^sup>* x y" if xy: "kid f p x" "kid f p y" "x \<noteq> y" "x \<in> set (all_threads f)" "p < x" for x y
  proof
    assume "(kid f)\<^sup>*\<^sup>* x y"
    then obtain z where z: "(kid f)\<^sup>*\<^sup>* x z" "kid f z y" using xy(3) by (metis rtranclp.cases)
    have "z \<in> set (all_threads f)" "x \<le> z" using below_live [OF inv z(1) xy(4)] by simp_all
    then show False using one_parent [OF inv z(2) xy(2) _ p] xy(5) by simp
  qed
  from q \<open>(kid f)\<^sup>*\<^sup>* r q\<close> show False
  proof (induction rule: rtranclp_induct)
    case base
    then show ?case using no [OF r c(1) _ lr] c(2) by auto
  next
    case (step y z)
    from step.prems show ?case
    proof (cases rule: rtranclp.cases)
      case rtrancl_refl
      have "(kid f)\<^sup>*\<^sup>* c z" using step.hyps by (rule rtranclp.rtrancl_into_rtrancl)
      then show ?thesis using no [OF c(1) r c(2) lc] rtrancl_refl by simp
    next
      case (rtrancl_into_rtrancl w)
      have "w = y" by (rule one_parent [OF inv _ step.hyps(2)])
        (use rtrancl_into_rtrancl below_live [OF inv _ lr(1), of w] below_live [OF inv step.hyps(1) lc(1)] in auto)
      then show ?thesis using step.IH rtrancl_into_rtrancl by simp
    qed
  qed
qed

lemma joined_leaves_below:
  assumes "d \<in> set (joined_leaves f p iid vid)"
  shows "\<exists>c. kid f p c \<and> (kid f)\<^sup>*\<^sup>* c d"
  using assms
proof (induction f p iid vid rule: joined_leaves.induct)
  case (1 f p iid vid)
  then obtain c where c: "c \<in> set (children (tnodes f p))" "d \<in> set (joined_branch f p iid vid c)"
    unfolding joined_leaves_branches by auto
  have "(kid f)\<^sup>*\<^sup>* c d"
  proof (cases "d = c")
    case False
    then have b: "p < c" "c < next_ref f" "joined (tnodes f c)" "\<not> shielded (tnodes f c) iid vid" "d \<in> set (leaves_at f c)"
      using c(2) by (auto simp: joined_branch_def split: if_splits)
    have "\<exists>b. kid f c b \<and> (kid f)\<^sup>*\<^sup>* b d" by (rule "1.IH") (use b c(1) in \<open>auto simp: leaves_at_def\<close>)
    then show ?thesis by (meson converse_rtranclp_into_rtranclp)
  qed simp
  moreover have "kid f p c" using c(1) by (simp add: kid_def)
  ultimately show ?case by blast
qed

lemma joined_branch_below: "d \<in> set (joined_branch f p iid vid c) \<Longrightarrow> (kid f)\<^sup>*\<^sup>* c d"
  using joined_leaves_below [of d f c]
  by (auto simp: joined_branch_def leaves_at_def split: if_splits intro: converse_rtranclp_into_rtranclp)

lemma joined_leaves_distinct:
  "forest_inv f \<Longrightarrow> p \<in> set (all_threads f) \<Longrightarrow> distinct (joined_leaves f p iid vid)"
proof (induction f p iid vid rule: joined_leaves.induct)
  case (1 f p iid vid)
  have one: "distinct (joined_branch f p iid vid c)" if c: "c \<in> set (children (tnodes f p))" for c
  proof (cases "joined (tnodes f c) \<and> \<not> shielded (tnodes f c) iid vid")
    case True
    note l = live_child [OF "1.prems" c]
    have "distinct (leaves_at f c)" unfolding leaves_at_def by (rule "1.IH") (use c l True "1.prems" in auto)
    then show ?thesis by (simp add: joined_branch_def)
  qed (auto simp: joined_branch_def)
  have two: "set (joined_branch f p iid vid b) \<inter> set (joined_branch f p iid vid c) = {}"
    if "b \<in> set (children (tnodes f p))" "c \<in> set (children (tnodes f p))" "b \<noteq> c" for b c
  proof (rule ccontr)
    assume "set (joined_branch f p iid vid b) \<inter> set (joined_branch f p iid vid c) \<noteq> {}"
    then obtain d where "(kid f)\<^sup>*\<^sup>* b d" "(kid f)\<^sup>*\<^sup>* c d" using joined_branch_below by blast
    moreover have "kid f p b" "kid f p c" using that by (simp_all add: kid_def)
    ultimately show False using disjoint_subtrees [OF "1.prems"] that(3) by blast
  qed
  have all: "distinct (concat (map (joined_branch f p iid vid) cs))" if "distinct cs" "set cs \<subseteq> set (children (tnodes f p))" for cs
    using that
  proof (induction cs)
    case (Cons c cs)
    have "set (joined_branch f p iid vid c) \<inter> set (joined_branch f p iid vid b) = {}" if "b \<in> set cs" for b
      using two [of c b] Cons.prems that by auto
    then show ?case using Cons one [of c] by auto
  qed simp
  have "distinct (rev (children (tnodes f p)))" using "1.prems" by (simp add: forest_inv_def)
  then show ?case unfolding joined_leaves_branches by (intro all) simp_all
qed

lemma children_bound:
  assumes "forest_inv f" and "p \<in> set (all_threads f)"
  shows "length (children (tnodes f p)) \<le> next_ref f"
proof -
  have "distinct (children (tnodes f p))" "set (children (tnodes f p)) \<subseteq> {..<next_ref f}"
    using assms by (auto simp: forest_inv_def)
  then show ?thesis by (metis card_lessThan card_mono distinct_card finite_lessThan)
qed

definition prune_bound :: "forest \<Rightarrow> tref \<Rightarrow> nat \<Rightarrow> nat" where
  "prune_bound f p i = (next_ref f - p) * (next_ref f + 1) + (length (children (tnodes f p)) - i)"

lemma prune_bound_child:
  assumes inv: "forest_inv f" and p: "p \<in> set (all_threads f)" and i: "i < length (children (tnodes f p))"
    and k: "prune_bound f p i < Suc k"
  shows "prune_bound f (children (tnodes f p) ! i) 0 < k"
proof -
  let ?N = "next_ref f" and ?r = "children (tnodes f p) ! i"
  have r: "?r \<in> set (all_threads f)" "p < ?r" "?r < ?N" using inv p i by (auto simp: forest_inv_def)
  have "(?N - ?r) * (?N + 1) \<le> (?N - p - 1) * (?N + 1)" by (rule mult_le_mono1) (use r in linarith)
  moreover have "(?N - p) * (?N + 1) = (?N - p - 1) * (?N + 1) + (?N + 1)"
    using r by (metis add.commute diff_Suc_1' less_imp_Suc_add mult_Suc r(2) zero_less_diff order_less_trans Suc_diff_1 diff_diff_left plus_1_eq_Suc)
  ultimately show ?thesis using k i children_bound [OF inv r(1)] unfolding prune_bound_def by linarith
qed

lemma prunes_weaken: "prunes q f f' \<Longrightarrow> p \<le> q \<Longrightarrow> prunes p f f'"
  unfolding prunes_def by (meson le_less_trans less_le_trans)

definition pruned_result :: "tree_memory \<Rightarrow> forest \<Rightarrow> tref \<Rightarrow> nat \<Rightarrow> s64 \<Rightarrow> s32 \<Rightarrow> event_t list \<Rightarrow> forest \<Rightarrow> bool" where
  "pruned_result mem f p i iid vid es f' \<longleftrightarrow> prunes p f f' \<and>
     take i (children (tnodes f' p)) = take i (children (tnodes f p)) \<and>
     (\<forall>c\<in>set (drop i (children (tnodes f' p))). \<not> joined (tnodes f' c)) \<and>
     (\<forall>q. \<not> (kid f)\<^sup>*\<^sup>* p q \<longrightarrow> children (tnodes f' q) = children (tnodes f q)) \<and>
     ((\<forall>r. grants_source mem r) \<longrightarrow> es = map (\<lambda>d. last_executed (tnodes f d))
       (concat (map (joined_branch f p iid vid) (rev (drop i (children (tnodes f p)))))))"

lemma prunes_kid: "prunes p f f' \<Longrightarrow> (kid f')\<^sup>*\<^sup>* a b \<Longrightarrow> (kid f)\<^sup>*\<^sup>* a b"
proof -
  assume p: "prunes p f f'" and ab: "(kid f')\<^sup>*\<^sup>* a b"
  have "kid f' x y \<Longrightarrow> kid f x y" for x y using p unfolding prunes_def kid_def by blast
  then have "kid f' \<le> kid f" by blast
  then show "(kid f)\<^sup>*\<^sup>* a b" using ab rtranclp_mono by blast
qed

text \<open>Skipping a child that is not joined.\<close>

lemma pruned_skip:
  assumes i: "i < length (children (tnodes f p))" and nj: "\<not> joined (tnodes f (children (tnodes f p) ! i))"
    and res: "pruned_result mem f p (i + 1) iid vid es f'"
  shows "pruned_result mem f p i iid vid es f'"
proof -
  let ?cs = "children (tnodes f p)" and ?cs' = "children (tnodes f' p)"
  have p: "prunes p f f'" and t: "take (i + 1) ?cs' = take (i + 1) ?cs" using res by (simp_all add: pruned_result_def)
  have d: "drop i ?cs = ?cs ! i # drop (i + 1) ?cs" using i by (simp add: Cons_nth_drop_Suc)
  have i': "i < length ?cs'" using t i by (metis Suc_eq_plus1 Suc_le_eq length_take min.absorb_iff2 min.bounded_iff)
  have "?cs' ! i = ?cs ! i" using t by (metis less_add_one nth_take)
  then have d': "drop i ?cs' = ?cs ! i # drop (i + 1) ?cs'" using Cons_nth_drop_Suc [OF i'] by simp
  have "take i ?cs' = take i ?cs" using t by (metis le_add1 min.absorb1 take_take)
  then show ?thesis using res nj prunes_fields(1) [OF p] unfolding pruned_result_def d d'
    by (auto simp: joined_branch_def)
qed

text \<open>Removing a joined child after what is below it, and going on at the same position.\<close>

lemma pruned_remove:
  assumes inv: "forest_inv f" and p: "p \<in> set (all_threads f)" and i: "i < length (children (tnodes f p))"
    and r: "r = children (tnodes f p) ! i" and j: "joined (tnodes f r)"
    and below: "pruned_result mem f r 0 (ev_iid (last_executed (tnodes f r))) (ev_vid (last_executed (tnodes f r))) grand f1"
    and f2: "f2 = remove_from_all_threads r (unlink p i f1)"
    and X: "X = (if shielded (tnodes f r) iid vid then [] else if grand \<noteq> [] then grand
                 else if grants_source mem r then [last_executed (tnodes f r)] else [])"
    and rest: "pruned_result mem f2 p i iid vid es f'"
  shows "pruned_result mem f p i iid vid (es @ X) f'"
proof -
  have rp: "r \<in> set (children (tnodes f p))" "r \<in> set (all_threads f)" "p < r" using inv p i r by (auto simp: forest_inv_def)
  have b: "prunes r f f1" "children (tnodes f1 p) = children (tnodes f p)" using below rp by (simp_all add: pruned_result_def prunes_def)
  have p1: "p \<in> set (all_threads f1)" using b(1) p rp(3) unfolding prunes_def by (meson less_asym)
  have "prunes p f1 f2" unfolding f2
    by (rule drop_child_inv) (use b p1 i r j prunes_fields [OF b(1)] in \<open>auto simp: prunes_def\<close>)
  then have pf2: "prunes p f f2" using prunes_trans [OF prunes_weaken [OF b(1)]] rp(3) by simp
  have cs2: "children (tnodes f2 p) = take i (children (tnodes f p)) @ drop (i + 1) (children (tnodes f p))"
    using b(2) by (simp add: f2 remove_from_all_threads_def unlink_def)
  have p2: "prunes p f2 f'" and t: "take i (children (tnodes f' p)) = take i (children (tnodes f2 p))"
    and un: "\<forall>c\<in>set (drop i (children (tnodes f' p))). \<not> joined (tnodes f' c)"
    and frame: "\<And>q. \<not> (kid f2)\<^sup>*\<^sup>* p q \<Longrightarrow> children (tnodes f' q) = children (tnodes f2 q)"
    and src: "(\<forall>r. grants_source mem r) \<Longrightarrow> es = map (\<lambda>d. last_executed (tnodes f2 d))
      (concat (map (joined_branch f2 p iid vid) (rev (drop i (children (tnodes f2 p))))))"
    using rest by (simp_all add: pruned_result_def)
  have frame1: "children (tnodes f1 q) = children (tnodes f q)" if "\<not> (kid f)\<^sup>*\<^sup>* r q" for q
    using below that by (simp add: pruned_result_def)
  have kp: "kid f p r" using rp(1) by (simp add: kid_def)
  have d: "drop i (children (tnodes f p)) = r # drop (i + 1) (children (tnodes f p))"
    using i r by (simp add: Cons_nth_drop_Suc)
  have d2: "drop i (children (tnodes f2 p)) = drop (i + 1) (children (tnodes f p))"
    "take i (children (tnodes f2 p)) = take i (children (tnodes f p))" using i by (simp_all add: cs2)
  have keep: "children (tnodes f2 q) = children (tnodes f q)" if "\<not> (kid f)\<^sup>*\<^sup>* r q" "q \<noteq> p" for q
    using frame1 [OF that(1)] that(2) by (simp add: f2 remove_from_all_threads_def unlink_def)
  have fr: "children (tnodes f' q) = children (tnodes f q)" if "\<not> (kid f)\<^sup>*\<^sup>* p q" for q
  proof -
    have "\<not> (kid f2)\<^sup>*\<^sup>* p q" using that prunes_kid [OF pf2] by blast
    moreover have "\<not> (kid f)\<^sup>*\<^sup>* r q" using that kp by (meson converse_rtranclp_into_rtranclp)
    moreover have "q \<noteq> p" using that by auto
    ultimately show ?thesis using frame keep by simp
  qed
  have branch: "joined_branch f2 p iid vid c = joined_branch f p iid vid c" if c: "c \<in> set (drop (i + 1) (children (tnodes f p)))" for c
  proof -
    have cp: "c \<in> set (children (tnodes f p))" using c by (rule in_set_dropD)
    have "distinct (r # drop (i + 1) (children (tnodes f p)))"
      unfolding d [symmetric] using inv p by (simp add: forest_inv_def)
    then have "c \<noteq> r" using c by auto
    have lc: "c \<in> set (all_threads f)" "p < c" using live_child [OF inv p cp] by simp_all
    have same: "tnodes f2 q = tnodes f q" if q: "(kid f)\<^sup>*\<^sup>* c q" for q
    proof -
      have "\<not> (kid f)\<^sup>*\<^sup>* r q" by (rule disjoint_subtrees [OF inv p kp _ \<open>c \<noteq> r\<close> q]) (use cp in \<open>simp add: kid_def\<close>)
      moreover have "q \<noteq> p" using below_live [OF inv q lc(1)] lc(2) by auto
      ultimately have "children (tnodes f2 q) = children (tnodes f q)" by (rule keep)
      moreover have "tnodes f2 q = (tnodes f q)\<lparr>children := children (tnodes f2 q)\<rparr>" using pf2 by (simp add: prunes_def)
      ultimately show ?thesis by simp
    qed
    have "next_ref f2 = next_ref f" using pf2 by (simp add: prunes_def)
    then show ?thesis using same [of c] joined_leaves_cong [of f c f2] same by (simp add: joined_branch_def leaves_at_def)
  qed
  have "es @ X = map (\<lambda>d. last_executed (tnodes f d)) (concat (map (joined_branch f p iid vid) (rev (drop i (children (tnodes f p))))))"
    if g: "\<forall>r. grants_source mem r"
  proof -
    have "grand = map (\<lambda>d. last_executed (tnodes f d)) (leaves_at f r)"
      using below g by (simp add: pruned_result_def leaves_at_def joined_leaves_branches)
    moreover have "r < next_ref f" by (rule live_child(3) [OF inv p rp(1)])
    ultimately have "X = map (\<lambda>d. last_executed (tnodes f d)) (joined_branch f p iid vid r)"
      using g j rp(3) by (simp add: X joined_branch_def)
    moreover have "es = map (\<lambda>d. last_executed (tnodes f d)) (concat (map (joined_branch f p iid vid) (rev (drop (i + 1) (children (tnodes f p))))))"
    proof -
      have "map (joined_branch f2 p iid vid) (rev (drop (i + 1) (children (tnodes f p)))) =
          map (joined_branch f p iid vid) (rev (drop (i + 1) (children (tnodes f p))))"
        by (rule map_cong [OF refl], rule branch) (simp only: set_rev)
      then show ?thesis unfolding src [OF g] d2 prunes_fields(2) [OF pf2] by (rule arg_cong)
    qed
    ultimately show ?thesis unfolding d by simp
  qed
  then show ?thesis using prunes_trans [OF pf2 p2] t un fr unfolding pruned_result_def d2 by auto
qed

lemma collect_ok:
  "forest_inv f \<Longrightarrow> p \<in> set (all_threads f) \<Longrightarrow> prune_bound f p i < k \<Longrightarrow>
    \<exists>es f'. collect_and_prune_events mem k f p i iid vid acc = Some (es @ acc, f') \<and> pruned_result mem f p i iid vid es f'"
proof (induction k arbitrary: f p i iid vid acc)
  case (Suc k)
  let ?cs = "children (tnodes f p)"
  consider "length ?cs \<le> i" | "i < length ?cs" "\<not> joined (tnodes f (?cs ! i))" | "i < length ?cs" "joined (tnodes f (?cs ! i))"
    by linarith
  then show ?case
  proof cases
    case 1
    then have "pruned_result mem f p i iid vid [] f" by (simp add: pruned_result_def prunes_refl Suc.prems)
    then show ?thesis using 1 by simp
  next
    case 2
    have "prune_bound f p (i + 1) < k" using Suc.prems(3) 2(1) by (simp add: prune_bound_def)
    then show ?thesis using Suc.IH [OF Suc.prems(1,2)] 2 pruned_skip [OF 2] by (simp add: Let_def) blast
  next
    case 3
    define r where "r = ?cs ! i"
    define n where "n = tnodes f r"
    have r: "r \<in> set (all_threads f)" "p < r" using Suc.prems(1,2) 3(1) by (auto simp: forest_inv_def r_def)
    obtain grand f1 where c1: "collect_and_prune_events mem k f r 0 (ev_iid (last_executed n)) (ev_vid (last_executed n)) [] =
        Some (grand, f1)" and b: "pruned_result mem f r 0 (ev_iid (last_executed n)) (ev_vid (last_executed n)) grand f1"
      using Suc.IH [OF Suc.prems(1) r(1) prune_bound_child [OF Suc.prems(1,2) 3(1) Suc.prems(3), folded r_def]]
      by (metis append_Nil2)
    define f2 where "f2 = remove_from_all_threads r (unlink p i f1)"
    define X where "X = (if shielded n iid vid then [] else if grand \<noteq> [] then grand
                 else if grants_source mem r then [last_executed n] else [])"
    have pr: "prunes r f f1" and cs1: "children (tnodes f1 p) = ?cs" using b r(2) by (simp_all add: pruned_result_def prunes_def)
    have p1: "p \<in> set (all_threads f1)" using pr Suc.prems(2) r(2) unfolding prunes_def by (meson less_asym)
    have p2: "prunes p f1 f2" unfolding f2_def
      by (rule drop_child_inv) (use pr p1 cs1 3 prunes_fields [OF pr] in \<open>auto simp: prunes_def r_def\<close>)
    then have inv2: "forest_inv f2" "p \<in> set (all_threads f2)" using p1 unfolding prunes_def by blast+
    have "length (children (tnodes f2 p)) = length ?cs - 1" "next_ref f2 = next_ref f"
      using cs1 3(1) pr p2 by (auto simp: f2_def remove_from_all_threads_def unlink_def prunes_def)
    then have "prune_bound f2 p i < k" using Suc.prems(3) 3(1) by (simp add: prune_bound_def)
    then obtain es f' where c2: "collect_and_prune_events mem k f2 p i iid vid (X @ acc) = Some (es @ X @ acc, f')"
      and res: "pruned_result mem f2 p i iid vid es f'" using Suc.IH [OF inv2] by blast
    have "(if shielded n iid vid then acc else if grand \<noteq> [] then grand @ acc
        else if grants_source mem r then last_executed n # acc else acc) = X @ acc" by (simp add: X_def)
    moreover have "collect_and_prune_events mem (Suc k) f p i iid vid acc =
        collect_and_prune_events mem k f2 p i iid vid (if shielded n iid vid then acc else if grand \<noteq> [] then grand @ acc
          else if grants_source mem r then last_executed n # acc else acc)"
      using 3 c1 by (simp add: Let_def r_def [symmetric] n_def [symmetric] f2_def)
    ultimately have "collect_and_prune_events mem (Suc k) f p i iid vid acc = Some ((es @ X) @ acc, f')"
      using c2 by simp
    moreover have "pruned_result mem f p i iid vid (es @ X) f'"
      by (rule pruned_remove [OF Suc.prems(1,2) 3(1) r_def _ _ f2_def X_def [unfolded n_def] res])
        (use 3(2) b in \<open>simp_all add: r_def [symmetric] n_def\<close>)
    ultimately show ?thesis by blast
  qed
qed simp

text \<open>The fuel of the whole call is enough.\<close>

lemma get_executed_ok:
  assumes inv: "forest_inv f" and p: "p \<in> set (all_threads f)"
  shows "\<exists>es f'. get_executed_events_and_prune mem p f = Some (es, f') \<and>
    pruned_result mem f p 0 (ev_iid (last_executed (tnodes f p))) (ev_vid (last_executed (tnodes f p))) es f'"
proof (cases "children (tnodes f p) = []")
  case True
  then show ?thesis by (simp add: get_executed_events_and_prune_def pruned_result_def prunes_refl inv)
next
  case False
  have "(next_ref f - p) * (next_ref f + 1) \<le> next_ref f * (next_ref f + 1)" by (rule mult_le_mono1) simp
  moreover have "next_ref f * (next_ref f + 1) + next_ref f < prune_fuel f" by (simp add: prune_fuel_def)
  ultimately have "prune_bound f p 0 < prune_fuel f" using children_bound [OF inv p] unfolding prune_bound_def by linarith
  from collect_ok [OF inv p this, of mem _ _ "[]"] show ?thesis
    using False by (simp add: get_executed_events_and_prune_def)
qed

lemma sources_ok:
  assumes inv: "forest_inv f"
  shows "\<exists>es f'. sources_of mem e f = Some (es, f') \<and> forest_inv f' \<and> next_events f' = next_events f \<and>
    (es = [] \<longleftrightarrow> find_thread f (scast (nx_tid e)) = None)"
proof (cases "find_thread f (scast (nx_tid e))")
  case (Some p)
  then obtain es f' where "get_executed_events_and_prune mem p f = Some (es, f')" "prunes p f f'"
    using get_executed_ok [OF inv find_thread_live [OF Some]] unfolding pruned_result_def by blast
  then show ?thesis using Some by (simp add: sources_of_def prunes_def)
qed (simp add: sources_of_def inv)

definition shared_key :: "shared_event \<Rightarrow> s32 \<times> s64 \<times> s32 \<times> u64" where
  "shared_key s = (se_tid s, se_iid s, se_vid s, se_location s)"

definition next_key :: "next_event_t \<Rightarrow> s32 \<times> s64 \<times> s32 \<times> u64" where
  "next_key e = (nx_tid e, nx_iid e, nx_vid e, ucast (nx_loc_id e))"

lemma shared_of_key: "shared_key (shared_of e es) = next_key e" "length (se_sources (shared_of e es)) \<le> MAX_NODES"
  by (simp_all add: shared_key_def next_key_def shared_of_def)

lemma publish_ok:
  "forest_inv f \<Longrightarrow> \<exists>out f'. publish mem es f shm = Some (shm @ out, f') \<and> map shared_key out = take (MAX_NEXT - length shm) (map next_key es) \<and>
    (\<forall>s\<in>set out. length (se_sources s) \<le> MAX_NODES)"
proof (induction es arbitrary: f shm)
  case (Cons e es)
  obtain srcs f' where s: "sources_of mem e f = Some (srcs, f')" "forest_inv f'" using sources_ok [OF Cons.prems] by blast
  show ?case
  proof (cases "length shm < MAX_NEXT")
    case True
    obtain out f'' where out: "publish mem es f' (shm @ [shared_of e srcs]) = Some ((shm @ [shared_of e srcs]) @ out, f'')"
      "map shared_key out = take (MAX_NEXT - length (shm @ [shared_of e srcs])) (map next_key es)"
      "\<forall>s\<in>set out. length (se_sources s) \<le> MAX_NODES" using Cons.IH [OF s(2)] by blast
    have "MAX_NEXT - length shm = Suc (MAX_NEXT - length (shm @ [shared_of e srcs]))" using True by simp
    then show ?thesis using s True out
      by (intro exI [of _ "shared_of e srcs # out"]) (simp add: shared_of_key)
  next
    case False
    then show ?thesis using s Cons.IH [OF s(2), of shm] by (auto intro!: exI [of _ "[]"])
  qed
qed simp

section \<open>Any history of calls\<close>

inductive forest_step :: "forest \<Rightarrow> forest \<Rightarrow> bool" where
  create: "add_to_all_threads mem tid parentid f = Returns f' \<Longrightarrow> forest_step f f'"
| event: "forest_step f (update_last_executed_event tid iid vid f)"
| join: "forest_step f (thread_joined_mark_true ptid tid f)"
| unknown: "store_the_unknown_event mem e f = Returns f' \<Longrightarrow> forest_step f f'"
| prune: "p \<in> set (all_threads f) \<Longrightarrow> get_executed_events_and_prune mem p f = Some (es, f') \<Longrightarrow> forest_step f f'"

inductive grown :: "forest \<Rightarrow> bool" where
  start: "grown init_forest"
| step: "grown f \<Longrightarrow> forest_step f f' \<Longrightarrow> grown f'"

inductive_cases forest_stepE: "forest_step f f'"

lemma prune_inv:
  assumes "forest_inv f" and "p \<in> set (all_threads f)" and "get_executed_events_and_prune mem p f = Some (es, f')"
  shows "forest_inv f'"
  using get_executed_ok [OF assms(1,2), of mem] assms(3) by (auto simp: pruned_result_def prunes_def)

lemma forest_step_inv: "forest_step f f' \<Longrightarrow> forest_inv f \<Longrightarrow> forest_inv f'"
  by (induction rule: forest_step.induct) (auto intro: add_thread_inv update_last_inv joined_mark_inv unknown_inv prune_inv)

lemma grown_inv: "grown f \<Longrightarrow> forest_inv f"
  by (induction rule: grown.induct) (auto intro: init_forest_inv forest_step_inv)

section \<open>Properties\<close>

text \<open>
  C17. Pruning below a thread, after any history of creations, events, joins, unknown events and
  earlier prunings: the recursion ends and reaches only threads that are still allocated; it removes
  only joined threads, never the thread itself, and leaves it no joined child. With memory for every
  source, the sources it returns are the last events of the threads at the ends of the chains of
  joins that each happened at the last event of the joining thread, each thread once and in the order
  of a walk over the tree before the pruning: a thread that something was joined to in this way is not among them itself.
\<close>
theorem sched_prune_sources:
  fixes f p defines "e \<equiv> last_executed (tnodes f p)"
  assumes "grown f" and "p \<in> set (all_threads f)" and "\<forall>r. grants_source mem r"
  shows "\<exists>es f'. get_executed_events_and_prune mem p f = Some (es, f') \<and> forest_inv f' \<and> p \<in> set (all_threads f') \<and>
    (\<forall>q\<in>set (all_threads f). q \<in> set (all_threads f') \<or> joined (tnodes f q)) \<and>
    (\<forall>c\<in>set (children (tnodes f' p)). \<not> joined (tnodes f' c)) \<and>
    es = map (\<lambda>d. last_executed (tnodes f d)) (joined_leaves f p (ev_iid e) (ev_vid e)) \<and>
    distinct (joined_leaves f p (ev_iid e) (ev_vid e)) \<and>
    set (joined_leaves f p (ev_iid e) (ev_vid e)) = {d. joined_leaf f p (ev_iid e) (ev_vid e) d}"
proof -
  have inv: "forest_inv f" by (rule grown_inv [OF assms(2)])
  obtain es f' where g: "get_executed_events_and_prune mem p f = Some (es, f')"
    and r: "pruned_result mem f p 0 (ev_iid e) (ev_vid e) es f'"
    using get_executed_ok [OF inv assms(3)] unfolding e_def by blast
  have "prunes p f f'" "\<forall>c\<in>set (children (tnodes f' p)). \<not> joined (tnodes f' c)"
    "es = map (\<lambda>d. last_executed (tnodes f d)) (joined_leaves f p (ev_iid e) (ev_vid e))"
    using r assms(4) by (simp_all add: pruned_result_def joined_leaves_branches)
  moreover from this(1) have "forest_inv f'" "p \<in> set (all_threads f')"
    "\<forall>q\<in>set (all_threads f). q \<in> set (all_threads f') \<or> joined (tnodes f q)"
    using assms(3) unfolding prunes_def by blast+
  ultimately show ?thesis using g joined_leaves_set [OF inv assms(3)] joined_leaves_distinct [OF inv assms(3)] by blast
qed

text \<open>
  C30. What the fuzzer is told: when a run whose graph is fully covered ends and the shared memory
  is there, the first 128 unknown events, newest first, are published with their thread,
  instruction, visit and location, each with at most 128 sources, and the call takes the exit code.
\<close>
theorem sched_publishes_unknown_events:
  assumes "grown f" and "all_threads f \<noteq> []"
  shows "\<exists>shm. scheduler_terminate_locked mem True 20 f = Some (Some shm, 20) \<and>
    map shared_key shm = take 128 (map next_key (next_events f)) \<and> list_all (\<lambda>s. length (se_sources s) \<le> 128) shm"
proof -
  obtain out f' where "publish mem (next_events f) f [] = Some ([] @ out, f')"
    "map shared_key out = take (MAX_NEXT - length ([]::shared_event list)) (map next_key (next_events f))"
    "\<forall>s\<in>set out. length (se_sources s) \<le> MAX_NODES" using publish_ok [OF grown_inv [OF assms(1)]] by blast
  then show ?thesis using assms(2) by (auto simp: scheduler_terminate_locked_def list_all_iff MAX_NEXT_def MAX_NODES_def)
qed

text \<open>Thread 0 creates thread 1, joins it, and meets an unknown event.\<close>

definition tree_ample :: tree_memory where
  "tree_ample = \<lparr>grants_thread = (\<lambda>_. True), grants_unknown = (\<lambda>_. True), grants_source = (\<lambda>_. True)\<rparr>"

definition with_thread :: "u64 \<Rightarrow> u64 \<Rightarrow> forest \<Rightarrow> forest" where
  "with_thread tid ptid f = (case add_to_all_threads tree_ample tid ptid f of Returns f' \<Rightarrow> f' | _ \<Rightarrow> f)"

definition unknown_after_join :: forest where
  "unknown_after_join = (case store_the_unknown_event tree_ample
       \<lparr>nx_tid = 0, nx_iid = 12, nx_vid = 1, nx_order = 5, nx_type = 1, nx_loc_id = 3\<rparr>
       (thread_joined_mark_true 0 1 (with_thread 1 0 (with_thread 0 (- 1) init_forest))) of Returns f \<Rightarrow> f | _ \<Rightarrow> init_forest)"

lemma with_thread_grown: "grown f \<Longrightarrow> grown (with_thread tid ptid f)"
  by (auto simp: with_thread_def split: outcome.split intro: grown.step forest_step.create)

lemma unknown_after_join_grown: "grown unknown_after_join"
proof -
  have "grown (thread_joined_mark_true 0 1 (with_thread 1 0 (with_thread 0 (- 1) init_forest)))"
    by (rule grown.step [OF with_thread_grown [OF with_thread_grown [OF grown.start]] forest_step.join])
  then show ?thesis
    by (auto simp: unknown_after_join_def split: outcome.split intro: grown.step forest_step.unknown grown.start)
qed

lemmas tree_eval = unknown_after_join_def store_the_unknown_event_def tree_ample_def with_thread_def
  add_to_all_threads_def add_child_def find_thread_def thread_joined_mark_true_def init_forest_def update_node_def Let_def

lemma unknown_after_join_lists:
  "all_threads unknown_after_join = [1, 0]" "children (tnodes unknown_after_join 0) = [1]"
  "joined (tnodes unknown_after_join 1)" "\<not> shielded (tnodes unknown_after_join 1) (- 1) (- 1)"
  "ev_iid (last_executed (tnodes unknown_after_join 0)) = - 1" "ev_vid (last_executed (tnodes unknown_after_join 0)) = - 1"
  "length (next_events unknown_after_join) = 1"
  by (simp_all add: tree_eval shielded_def)

text \<open>
  Thread 0 creates thread 1, which creates thread 2 and joins it; then thread 0 joins thread 1. The only
  source is the last event of thread 2.
\<close>

definition joins_in_chain :: forest where
  "joins_in_chain = thread_joined_mark_true 0 1 (thread_joined_mark_true 1 2
     (update_last_executed_event 1 7 1 (update_last_executed_event 2 9 1
       (with_thread 2 1 (with_thread 1 0 (with_thread 0 (- 1) init_forest))))))"

lemma joins_in_chain_grown: "grown joins_in_chain"
  unfolding joins_in_chain_def
  by (rule grown.step [OF _ forest_step.join] grown.step [OF _ forest_step.event] with_thread_grown grown.start)+

lemma joins_in_chain_lists:
  "all_threads joins_in_chain = [2, 1, 0]" "next_ref joins_in_chain = 3"
  "children (tnodes joins_in_chain 0) = [1]" "children (tnodes joins_in_chain 1) = [2]" "children (tnodes joins_in_chain 2) = []"
  "joined (tnodes joins_in_chain 1)" "joined (tnodes joins_in_chain 2)"
  "\<not> shielded (tnodes joins_in_chain 1) (- 1) (- 1)" "\<not> shielded (tnodes joins_in_chain 2) 7 1"
  "last_executed (tnodes joins_in_chain 0) = \<lparr>ev_tid = 0, ev_iid = - 1, ev_vid = - 1\<rparr>"
  "last_executed (tnodes joins_in_chain 1) = \<lparr>ev_tid = 1, ev_iid = 7, ev_vid = 1\<rparr>"
  "last_executed (tnodes joins_in_chain 2) = \<lparr>ev_tid = 2, ev_iid = 9, ev_vid = 1\<rparr>"
  by (simp_all add: tree_eval joins_in_chain_def update_last_executed_event_def shielded_def)

theorem sched_prune_sources_witness:
  "\<exists>f'. get_executed_events_and_prune tree_ample 0 joins_in_chain = Some ([\<lparr>ev_tid = 2, ev_iid = 9, ev_vid = 1\<rparr>], f')"
proof -
  have live: "0 \<in> set (all_threads joins_in_chain)" by (simp add: joins_in_chain_lists)
  have mem: "\<forall>r. grants_source tree_ample r" by (simp add: tree_ample_def)
  note b = joined_leaves_branches joined_branch_def leaves_at_def joins_in_chain_lists [unfolded One_nat_def]
  have "joined_leaves joins_in_chain 2 9 1 = []" by (simp add: b)
  then have "joined_leaves joins_in_chain 1 7 1 = [2]" by (simp add: b)
  then have "joined_leaves joins_in_chain 0 (- 1) (- 1) = [2]" by (simp add: b)
  then show ?thesis
    using sched_prune_sources [OF joins_in_chain_grown live mem] by (auto simp: joins_in_chain_lists [unfolded One_nat_def])
qed

theorem sched_publishes_unknown_events_witness:
  "\<exists>shm. scheduler_terminate_locked tree_ample True 20 unknown_after_join = Some (Some shm, 20) \<and> length shm = 1"
proof -
  obtain shm where "scheduler_terminate_locked tree_ample True 20 unknown_after_join = Some (Some shm, 20)"
    "map shared_key shm = take 128 (map next_key (next_events unknown_after_join))"
    using sched_publishes_unknown_events [OF unknown_after_join_grown, of tree_ample] unknown_after_join_lists(1) by auto
  moreover from this(2) have "length (map shared_key shm) = length (take 128 (map next_key (next_events unknown_after_join)))"
    by (rule arg_cong)
  then have "length shm = 1" unfolding length_map length_take unknown_after_join_lists(7) by simp
  ultimately show ?thesis by blast
qed

end
