(* ===== verification/SchedEvents.thy ===== *)
theory SchedEvents imports SchedDeadlock SchedTree begin

unbundle bit_operations_syntax

text \<open>
  The handlers of the scheduler (\<^verbatim>\<open>scheduler.c\<close>, from \<open>record_event_node_locked\<close> to
  \<open>scheduler_on_cmpxchg_bytes_ex\<close>): what a store, a load, a fence, a read-modify-write and a
  compare-exchange do when they meet the scheduler. Every handler holds \<open>sched_lock\<close> except
  while it waits on the condition variable, so a handler is one step up to its wait and one step
  each time it wakes up. Ending the run is an exit code; what is published then is in \<open>SchedTree\<close>.
  Log output is left out.
\<close>

section \<open>State\<close>

datatype mrs = MRS_STOP | MRS_LATEST | MRS_LATEST_LOCAL | MRS_RANDOM

record sched =
  current_graph :: "eg_graph option"
  recording_graph :: "eg_graph option"
  event_id_counter :: s32
  config_missing_random_sampling :: mrs
  addr_map :: "(ptr \<times> cstring) list"
  cov :: coverage
  thr :: threads
  hist :: history
  frst :: forest
  ram :: "ptr \<Rightarrow> u8"

text \<open>What the C library gives: memory for each structure, and \<open>snprintf\<close> of a pointer.\<close>

record env =
  mem_graph :: eg_memory
  mem_cov :: cov_memory
  mem_hist :: hist_memory
  mem_tree :: tree_memory
  print_ptr :: "ptr \<Rightarrow> cstring"

text \<open>
  How a step of a handler ends: it returns to the program, or its thread waits for the write of
  the given node, or waits on an event the graph does not know, from which it never returns.
\<close>

record pending =
  pd_node :: eg_node
  pd_target :: u64
  pd_slot :: nat
  pd_recorded :: u64

datatype 'r reply = Replies 'r sched | Waits pending sched | Blocks sched

definition scheduler_register_location :: "cstring \<Rightarrow> ptr \<Rightarrow> sched \<Rightarrow> sched" where
  "scheduler_register_location name addr st = st\<lparr>addr_map := (addr, take 63 name) # addr_map st\<rparr>"

definition lookup_addr_name :: "env \<Rightarrow> sched \<Rightarrow> ptr \<Rightarrow> cstring" where
  "lookup_addr_name env st addr =
     (case map_of (addr_map st) addr of Some name \<Rightarrow> name | None \<Rightarrow> take 63 (print_ptr env addr))"

section \<open>Recording a graph\<close>

definition next_event_id :: "sched \<Rightarrow> u64 \<times> sched" where
  "next_event_id st = (scast (event_id_counter st), st\<lparr>event_id_counter := event_id_counter st + 1\<rparr>)"

definition merges_to_rmw :: "s32 \<Rightarrow> s32 \<Rightarrow> bool" where
  "merges_to_rmw existing requested \<longleftrightarrow>
     \<not> (existing = EG_OP_CAS_SUCCESS \<or> existing = EG_OP_CAS_FAIL \<or>
        requested = EG_OP_CAS_SUCCESS \<or> requested = EG_OP_CAS_FAIL) \<and>
     ((existing = EG_OP_READ \<and> requested = EG_OP_WRITE) \<or> (existing = EG_OP_WRITE \<and> requested = EG_OP_READ) \<or>
      (existing = EG_OP_RMW \<and> (requested = EG_OP_READ \<or> requested = EG_OP_WRITE)) \<or>
      ((existing = EG_OP_READ \<or> existing = EG_OP_WRITE) \<and> requested = EG_OP_RMW))"

text \<open>The merge of an event into the node there is, \<open>None\<close> on a mismatch of their kinds.\<close>

definition merge_node :: "u64 \<Rightarrow> s32 \<Rightarrow> cstring \<Rightarrow> s64 \<Rightarrow> eg_node \<Rightarrow> eg_node option" where
  "merge_node loc_id requested loc_str val n =
     (if \<not> merges_to_rmw (n_type n) requested \<and> n_type n \<noteq> requested then None
      else Some (n\<lparr>n_type := (if merges_to_rmw (n_type n) requested then EG_OP_RMW else n_type n),
             n_loc_id := (if loc_id \<noteq> 0 \<and> n_loc_id n = 0 then loc_id else n_loc_id n),
             n_location := (if loc_str \<noteq> [] \<and> n_location n = [] then take 63 loc_str else n_location n),
             n_value := (if eg_is_write_like requested then val else n_value n)\<rparr>))"

definition record_event_node_locked :: "env \<Rightarrow> dyn_key \<Rightarrow> u64 \<Rightarrow> s32 \<Rightarrow> cstring \<Rightarrow> s64 \<Rightarrow> sched \<Rightarrow> (u64 \<times> sched) outcome" where
  "record_event_node_locked env key loc_id requested loc_str val st =
     (case recording_graph st of None \<Rightarrow> Returns (0, st)
      | Some g \<Rightarrow>
          bind_outcome (eg_find_index g key) (\<lambda>i. case i of
            None \<Rightarrow>
              (let (new_id, st) = next_event_id st
               in bind_outcome (eg_add_node (mem_graph env) g new_id key loc_id requested (Some loc_str) val)
                    (\<lambda>g. Returns (new_id, st\<lparr>recording_graph := Some g\<rparr>)))
          | Some i \<Rightarrow>
              (case merge_node loc_id requested loc_str val (eg_nodes g ! i) of
                 None \<Rightarrow> Exits EXIT_INVALID_INPUT
               | Some n \<Rightarrow> Returns (n_id n, st\<lparr>recording_graph := Some (g\<lparr>eg_nodes := (eg_nodes g)[i := n]\<rparr>)\<rparr>))))"

text \<open>An edge of the recorded graph, and the value of a recorded node.\<close>

definition record_edge :: "env \<Rightarrow> u64 \<Rightarrow> u64 \<Rightarrow> sched \<Rightarrow> sched outcome" where
  "record_edge env s d st =
     (case recording_graph st of None \<Rightarrow> Returns st
      | Some g \<Rightarrow> bind_outcome (eg_add_edge_rf (mem_graph env) g s d) (\<lambda>g. Returns (st\<lparr>recording_graph := Some g\<rparr>)))"

fun set_value :: "u64 \<Rightarrow> s64 \<Rightarrow> eg_node list \<Rightarrow> eg_node list" where
  "set_value eid v [] = []"
| "set_value eid v (n # ns) = (if n_id n = eid then n\<lparr>n_value := v\<rparr> # ns else n # set_value eid v ns)"

definition record_value :: "u64 \<Rightarrow> s64 \<Rightarrow> sched \<Rightarrow> sched" where
  "record_value eid v st =
     st\<lparr>recording_graph := map_option (\<lambda>g. g\<lparr>eg_nodes := set_value eid v (eg_nodes g)\<rparr>) (recording_graph st)\<rparr>"

section \<open>Memory\<close>

definition sched_atomic_read_bytes :: "ptr \<Rightarrow> nat \<Rightarrow> sched \<Rightarrow> u8 list outcome" where
  "sched_atomic_read_bytes addr n st =
     (if addr < 4096 then (if 0 < n then Exits EXIT_INVALID_INPUT else Returns [])
      else Returns (map (\<lambda>i. ram st (addr + of_nat i)) [0..<n]))"

definition store_bytes :: "ptr \<Rightarrow> u8 list \<Rightarrow> (ptr \<Rightarrow> u8) \<Rightarrow> ptr \<Rightarrow> u8" where
  "store_bytes addr bs m p = (if unat (p - addr) < length bs then bs ! unat (p - addr) else m p)"

definition sched_atomic_write_bytes :: "ptr \<Rightarrow> u8 list \<Rightarrow> sched \<Rightarrow> sched outcome" where
  "sched_atomic_write_bytes addr bs st =
     (if addr < 4096 then (if bs \<noteq> [] then Exits EXIT_INVALID_INPUT else Returns st)
      else Returns (st\<lparr>ram := store_bytes addr bs (ram st)\<rparr>))"

section \<open>Meeting an event\<close>

record event_args =
  a_addr :: ptr
  a_order :: nat
  a_uid :: u64
  a_tid :: u64
  a_loc :: u64
  a_visit :: u64

definition event_vid :: "event_args \<Rightarrow> s32" where
  "event_vid a = (if 0 < a_visit a then ucast (a_visit a) else 1)"

definition event_key :: "event_args \<Rightarrow> dyn_key" where
  "event_key a = (a_tid a, a_uid a, event_vid a)"

definition activate :: "nat option \<Rightarrow> sched \<Rightarrow> sched" where
  "activate slot st = (case slot of None \<Rightarrow> st | Some s \<Rightarrow> st\<lparr>thr := ensure_event_thread_active_locked s (thr st)\<rparr>)"

definition classify :: "sched \<Rightarrow> nat" where
  "classify st = classify_terminal_code_locked (current_graph st) (cov st)"

definition deadlocked :: "env \<Rightarrow> sched \<Rightarrow> bool" where
  "deadlocked env st = should_exit_deadlock_locked (mem_cov env) (current_graph st) (cov st) (thr st) (hist st)"

text \<open>One turn of the loop of \<open>block_on_unknown_event_locked\<close>.\<close>

definition block_turn :: "env \<Rightarrow> sched \<Rightarrow> 'r reply outcome" where
  "block_turn env st = (if deadlocked env st then Exits (classify st) else Returns (Blocks st))"

definition block_on_unknown_event_locked :: "env \<Rightarrow> u64 \<Rightarrow> sched \<Rightarrow> 'r reply outcome" where
  "block_on_unknown_event_locked env tid st =
     (case resolve_blocking_slot_locked (thr st) tid of
        None \<Rightarrow> Exits (classify st)
      | Some s \<Rightarrow> block_turn env (st\<lparr>thr := block_thread s (thr st)\<rparr>))"

definition cover_node :: "env \<Rightarrow> eg_node \<Rightarrow> sched \<Rightarrow> sched" where
  "cover_node env n st = st\<lparr>cov := snd (mark_node_covered (mem_cov env) (current_graph st) (n_id n) (cov st))\<rparr>"

text \<open>
  The part all handlers share: the node of the event is looked up; an unknown event is kept for
  publication and blocks; a known one has to be of an accepted kind, is covered and becomes the
  last event of its thread.
\<close>

definition meet_event :: "env \<Rightarrow> s32 set \<Rightarrow> s32 \<Rightarrow> s64 \<Rightarrow> event_args \<Rightarrow> (eg_node option \<Rightarrow> sched \<Rightarrow> 'r reply outcome) \<Rightarrow>
    sched \<Rightarrow> 'r reply outcome" where
  "meet_event env accepted unknown_type unknown_loc a go st =
     (case current_graph st of None \<Rightarrow> go None st
      | Some g \<Rightarrow>
          bind_outcome (eg_find_node_by_dynamic g (event_key a)) (\<lambda>node. case node of
            None \<Rightarrow>
              bind_outcome (store_the_unknown_event (mem_tree env)
                  \<lparr>nx_tid = ucast (a_tid a), nx_iid = a_uid a, nx_vid = event_vid a, nx_order = a_order a,
                   nx_type = unknown_type, nx_loc_id = unknown_loc\<rparr> (frst st))
                (\<lambda>f. block_on_unknown_event_locked env (a_tid a) (st\<lparr>frst := f\<rparr>))
          | Some n \<Rightarrow>
              (if n_type n \<notin> accepted then Exits EXIT_INVALID_INPUT
               else let st = cover_node env n st
                    in go (Some n) (st\<lparr>frst := update_last_executed_event (a_tid a) (a_uid a) (event_vid a) (frst st)\<rparr>))))"

definition node_id_of :: "eg_node option \<Rightarrow> u64" where
  "node_id_of node = (case node of None \<Rightarrow> 0 | Some n \<Rightarrow> n_id n)"

section \<open>Stores and fences\<close>

text \<open>The end of both store handlers: record, then enter the write into the history.\<close>

definition finish_store :: "env \<Rightarrow> event_args \<Rightarrow> u8 list option \<Rightarrow> s64 \<Rightarrow> eg_node option \<Rightarrow> sched \<Rightarrow> unit reply outcome" where
  "finish_store env a data modeled_val node st =
     bind_outcome (record_event_node_locked env (event_key a) (a_loc a) EG_OP_WRITE (lookup_addr_name env st (a_addr a)) modeled_val st)
       (\<lambda>(rid, st).
          let gn_id = (if recording_graph st = None then node_id_of node else rid)
          in bind_outcome (add_history_bytes (mem_hist env) (a_addr a) data (a_loc a) (event_key a) gn_id (hist st))
               (\<lambda>h. Returns (Replies () (st\<lparr>hist := h\<rparr>))))"

definition scheduler_on_store_ex :: "env \<Rightarrow> event_args \<Rightarrow> s64 \<Rightarrow> sched \<Rightarrow> unit reply outcome" where
  "scheduler_on_store_ex env a val st =
     meet_event env {EG_OP_WRITE, EG_OP_RMW} EG_OP_WRITE (a_loc a) a
       (\<lambda>node st.
          let modeled_val = (case node of Some n \<Rightarrow> if a_addr a = 0 then n_value n else val | None \<Rightarrow> val)
          in finish_store env a (Some (le_bytes 8 (unat modeled_val))) modeled_val node st)
       (activate (thread_slot (a_tid a)) st)"

definition scheduler_on_store_bytes_ex :: "env \<Rightarrow> event_args \<Rightarrow> u8 list option \<Rightarrow> sched \<Rightarrow> unit reply outcome" where
  "scheduler_on_store_bytes_ex env a data st =
     meet_event env {EG_OP_WRITE, EG_OP_RMW} EG_OP_WRITE (a_loc a) a
       (\<lambda>node st. finish_store env a data (bytes_to_intptr data) node st)
       (activate (thread_slot (a_tid a)) st)"

definition scheduler_on_store :: "env \<Rightarrow> event_args \<Rightarrow> s64 \<Rightarrow> sched \<Rightarrow> unit reply outcome" where
  "scheduler_on_store env a val st = scheduler_on_store_ex env (a\<lparr>a_visit := 0\<rparr>) val st"

text \<open>A recorded fence gets a node of its own, whose instruction identifier is 0.\<close>

definition scheduler_on_fence_ex :: "env \<Rightarrow> event_args \<Rightarrow> sched \<Rightarrow> unit reply outcome" where
  "scheduler_on_fence_ex env a st =
     meet_event env {EG_OP_FENCE} EG_OP_FENCE (- 1) a
       (\<lambda>node st. case recording_graph st of None \<Rightarrow> Returns (Replies () st)
          | Some g \<Rightarrow>
              (let (new_id, st) = next_event_id st
               in bind_outcome (eg_add_node (mem_graph env) g new_id (a_tid a, 0, event_vid a) 0 EG_OP_FENCE
                    (Some [102, 101, 110, 99, 101]) 0) (\<lambda>g. Returns (Replies () (st\<lparr>recording_graph := Some g\<rparr>)))))
       (activate (thread_slot (a_tid a)) st)"

definition scheduler_on_fence :: "env \<Rightarrow> event_args \<Rightarrow> sched \<Rightarrow> unit reply outcome" where
  "scheduler_on_fence env a st = scheduler_on_fence_ex env (a\<lparr>a_visit := 0\<rparr>) st"

section \<open>Forced reads\<close>

text \<open>
  A read with an edge from the write \<open>target\<close>: its thread waits until that write is in the
  history. \<open>begin_forced\<close> is the code before the loop, \<open>forced_turn\<close> one turn of it; \<open>go\<close> is what
  the handler does with the write and the bytes it gives.
\<close>

definition begin_forced :: "event_args \<Rightarrow> eg_node \<Rightarrow> u64 \<Rightarrow> u64 \<Rightarrow> sched \<Rightarrow> (pending \<times> sched) outcome" where
  "begin_forced a n target rid st =
     (case resolve_blocking_slot_locked (thr st) (a_tid a) of
        None \<Rightarrow> Exits (classify st)
      | Some s \<Rightarrow>
          Returns (\<lparr>pd_node = n, pd_target = target, pd_slot = s, pd_recorded = rid\<rparr>,
                   st\<lparr>thr := set_waiting s target (ensure_event_thread_active_locked s (thr st))\<rparr>))"

definition forced_turn :: "env \<Rightarrow> event_args \<Rightarrow> nat \<Rightarrow> (write_event \<Rightarrow> u8 list \<Rightarrow> sched \<Rightarrow> 'r reply outcome) \<Rightarrow> pending \<Rightarrow>
    sched \<Rightarrow> 'r reply outcome" where
  "forced_turn env a n go pd st =
     (case find_write_in_history (hist st) (pd_target pd) of
        Some we \<Rightarrow>
          (let (buf, overlapped) = satisfy_load_from_write (ram st) n (a_addr a) we
           in bind_outcome (require_rf_overlap_locked overlapped)
                (\<lambda>_. go we buf (st\<lparr>cov := mark_rf_edge_covered (current_graph st) (pd_target pd) (n_id (pd_node pd)) (cov st),
                                   thr := set_waiting (pd_slot pd) 0 (thr st)\<rparr>)))
      | None \<Rightarrow> if deadlocked env st then Exits (classify st) else Returns (Waits pd st))"

section \<open>Loads\<close>

text \<open>The bytes a load gives, or nothing when the program reads its memory itself.\<close>

definition finish_load :: "env \<Rightarrow> u64 \<Rightarrow> write_event \<Rightarrow> u8 list \<Rightarrow> sched \<Rightarrow> u8 list option reply outcome" where
  "finish_load env rid we buf st =
     bind_outcome (record_edge env (we_gnid we) rid st)
       (\<lambda>st. Returns (Replies (Some buf) (record_value rid (bytes_to_intptr (Some buf)) st)))"

text \<open>While a graph is recorded a load reads, as far as is known, from the newest write.\<close>

definition latest_write :: "sched \<Rightarrow> ptr \<Rightarrow> nat \<Rightarrow> u64 \<Rightarrow> write_event option" where
  "latest_write st addr n loc =
     (case find_latest_overlapping_write (hist st) addr n of
        Some w \<Rightarrow> Some w | None \<Rightarrow> find_latest_write_by_loc (hist st) loc)"

definition record_inferred_read :: "env \<Rightarrow> event_args \<Rightarrow> nat \<Rightarrow> u64 \<Rightarrow> sched \<Rightarrow> sched outcome" where
  "record_inferred_read env a n rid st =
     (if recording_graph st = None then Returns st
      else case latest_write st (a_addr a) n (a_loc a) of
        None \<Rightarrow> Returns st
      | Some w \<Rightarrow>
          (if rid = 0 then Returns st
           else bind_outcome (record_edge env (we_gnid w) rid st)
                  (\<lambda>st. Returns (record_value rid (bytes_to_intptr (Some (fst (satisfy_load_from_write (ram st) 8 (a_addr a) w)))) st))))"

text \<open>A load without an edge; \<open>r\<close> is what \<open>rand\<close> returns.\<close>

definition sampled_write :: "sched \<Rightarrow> event_args \<Rightarrow> nat \<Rightarrow> nat \<Rightarrow> write_event option" where
  "sampled_write st a n r =
     (case config_missing_random_sampling st of
        MRS_LATEST \<Rightarrow> find_latest_overlapping_write (hist st) (a_addr a) n
      | MRS_LATEST_LOCAL \<Rightarrow> find_latest_local_overlapping_write (hist st) (a_addr a) n (a_tid a)
      | MRS_RANDOM \<Rightarrow> find_random_overlapping_write (hist st) (a_addr a) n r
      | MRS_STOP \<Rightarrow> None)"

definition unforced_load :: "env \<Rightarrow> event_args \<Rightarrow> nat \<Rightarrow> nat \<Rightarrow> u64 \<Rightarrow> sched \<Rightarrow> u8 list option reply outcome" where
  "unforced_load env a n r rid st =
     (if config_missing_random_sampling st \<noteq> MRS_STOP
      then (case sampled_write st a n r of
              Some we \<Rightarrow> finish_load env rid we (fst (satisfy_load_from_write (ram st) n (a_addr a) we)) st
            | None \<Rightarrow> Returns (Replies None st))
      else if current_graph st \<noteq> None then Exits 0 else Returns (Replies None st))"

definition scheduler_on_load_bytes_ex :: "env \<Rightarrow> event_args \<Rightarrow> nat \<Rightarrow> nat \<Rightarrow> sched \<Rightarrow> u8 list option reply outcome" where
  "scheduler_on_load_bytes_ex env a n r st =
     meet_event env {EG_OP_READ, EG_OP_RMW} EG_OP_READ (a_loc a) a
       (\<lambda>node st.
          let target = (case node of None \<Rightarrow> 0 | Some m \<Rightarrow> find_rf_source (current_graph st) (n_id m))
          in if current_graph st \<noteq> None \<and> node \<noteq> None \<and> target = 0 then Exits EXIT_INVALID_INPUT
             else bind_outcome (record_event_node_locked env (event_key a) (a_loc a) EG_OP_READ (lookup_addr_name env st (a_addr a)) 0 st)
               (\<lambda>(rid, st). case node of
                  Some m \<Rightarrow>
                    bind_outcome (begin_forced a m target rid st) (\<lambda>(pd, st). forced_turn env a n (finish_load env rid) pd st)
                | None \<Rightarrow>
                    bind_outcome (record_inferred_read env a n rid st) (\<lambda>st. unforced_load env a n r rid st)))
       st"

text \<open>What a waiting load does when it wakes up.\<close>

definition load_turn :: "env \<Rightarrow> event_args \<Rightarrow> nat \<Rightarrow> pending \<Rightarrow> sched \<Rightarrow> u8 list option reply outcome" where
  "load_turn env a n pd st = forced_turn env a n (finish_load env (pd_recorded pd)) pd st"

definition scheduler_on_load_ex :: "env \<Rightarrow> event_args \<Rightarrow> nat \<Rightarrow> sched \<Rightarrow> u8 list option reply outcome" where
  "scheduler_on_load_ex env a r st = scheduler_on_load_bytes_ex env a 8 r st"

definition scheduler_on_load :: "env \<Rightarrow> event_args \<Rightarrow> nat \<Rightarrow> sched \<Rightarrow> u8 list option reply outcome" where
  "scheduler_on_load env a r st = scheduler_on_load_ex env (a\<lparr>a_visit := 0\<rparr>) r st"

section \<open>Read-modify-write\<close>

text \<open>The operations by number; \<open>old_val\<close> and \<open>value\<close> are 64 bits wide whatever the operand's size.\<close>

definition rmw_value :: "u32 \<Rightarrow> s64 \<Rightarrow> u64 \<Rightarrow> s64" where
  "rmw_value opn old_val value =
     (if opn = 0 then value
      else if opn = 1 then old_val + value
      else if opn = 2 then old_val - value
      else if opn = 3 then old_val AND value
      else if opn = 4 then NOT (old_val AND value)
      else if opn = 5 then old_val OR value
      else if opn = 6 then old_val XOR value
      else if opn = 7 then (if sint value < sint old_val then old_val else value)
      else if opn = 8 then (if sint old_val < sint value then old_val else value)
      else if opn = 9 then (if value < old_val then old_val else value)
      else if opn = 10 then (if old_val < value then old_val else value)
      else old_val)"

text \<open>The first bytes of a 32-byte buffer that starts with a 64-bit value.\<close>

definition value_bytes :: "nat \<Rightarrow> s64 \<Rightarrow> u8 list" where
  "value_bytes n v = take n (le_bytes 8 (unat v) @ replicate 24 0)"

definition copy_size :: "nat \<Rightarrow> nat" where
  "copy_size n = (if n < 32 then n else 32)"

text \<open>Entering the new value into the history and the memory.\<close>

definition write_back :: "env \<Rightarrow> event_args \<Rightarrow> nat \<Rightarrow> s64 \<Rightarrow> u64 \<Rightarrow> sched \<Rightarrow> sched outcome" where
  "write_back env a n v gn_id st =
     bind_outcome (add_history_bytes (mem_hist env) (a_addr a) (Some (value_bytes (copy_size n) v)) (a_loc a) (event_key a) gn_id (hist st))
       (\<lambda>h. let st = st\<lparr>hist := h\<rparr>
            in if a_addr a \<noteq> 0 \<and> 0 < copy_size n then sched_atomic_write_bytes (a_addr a) (value_bytes (copy_size n) v) st
               else Returns st)"

definition finish_rmw :: "env \<Rightarrow> event_args \<Rightarrow> nat \<Rightarrow> u32 \<Rightarrow> u64 \<Rightarrow> eg_node option \<Rightarrow> u64 \<Rightarrow> u8 list \<Rightarrow> sched \<Rightarrow>
    u64 reply outcome" where
  "finish_rmw env a n opn value node rid old_buf st =
     (let old_val = bytes_to_intptr (Some old_buf);
          new_val = rmw_value opn old_val value;
          st = (if rid \<noteq> 0 then record_value rid new_val st else st)
      in bind_outcome (write_back env a n new_val (case node of Some m \<Rightarrow> n_id m | None \<Rightarrow> rid) st)
           (\<lambda>st. Returns (Replies old_val st)))"

definition rmw_read_forced :: "env \<Rightarrow> event_args \<Rightarrow> nat \<Rightarrow> u32 \<Rightarrow> u64 \<Rightarrow> eg_node \<Rightarrow> u64 \<Rightarrow> write_event \<Rightarrow> u8 list \<Rightarrow> sched \<Rightarrow>
    u64 reply outcome" where
  "rmw_read_forced env a n opn value m rid we buf st =
     bind_outcome (if rid \<noteq> 0 then record_edge env (we_gnid we) rid st else Returns st)
       (\<lambda>st. finish_rmw env a n opn value (Some m) rid buf st)"

text \<open>The memory as a read-modify-write or a compare-exchange without an edge reads it.\<close>

definition read_current :: "event_args \<Rightarrow> nat \<Rightarrow> sched \<Rightarrow> u8 list outcome" where
  "read_current a n st =
     (if a_addr a \<noteq> 0 \<and> 0 < copy_size n then sched_atomic_read_bytes (a_addr a) (copy_size n) st
      else Returns (replicate (copy_size n) 0))"

definition record_latest_edge :: "env \<Rightarrow> event_args \<Rightarrow> nat \<Rightarrow> u64 \<Rightarrow> sched \<Rightarrow> sched outcome" where
  "record_latest_edge env a n rid st =
     (if recording_graph st = None \<or> rid = 0 then Returns st
      else case latest_write st (a_addr a) (copy_size n) (a_loc a) of
        None \<Rightarrow> Returns st | Some w \<Rightarrow> record_edge env (we_gnid w) rid st)"

definition scheduler_on_rmw_bytes_ex :: "env \<Rightarrow> event_args \<Rightarrow> nat \<Rightarrow> u32 \<Rightarrow> u64 \<Rightarrow> sched \<Rightarrow> u64 reply outcome" where
  "scheduler_on_rmw_bytes_ex env a n opn value st =
     meet_event env {EG_OP_RMW, EG_OP_READ, EG_OP_WRITE} EG_OP_RMW (a_loc a) a
       (\<lambda>node st.
          let target = (case node of None \<Rightarrow> 0 | Some m \<Rightarrow> find_rf_source (current_graph st) (n_id m))
          in if current_graph st \<noteq> None \<and> node \<noteq> None \<and> target = 0 then Exits EXIT_INVALID_INPUT
             else bind_outcome (record_event_node_locked env (event_key a) (a_loc a) EG_OP_RMW (lookup_addr_name env st (a_addr a)) 0 st)
               (\<lambda>(rid, st). case node of
                  Some m \<Rightarrow>
                    bind_outcome (begin_forced a m target rid st)
                      (\<lambda>(pd, st). forced_turn env a (copy_size n) (rmw_read_forced env a n opn value m rid) pd st)
                | None \<Rightarrow>
                    bind_outcome (read_current a n st) (\<lambda>old_buf.
                      bind_outcome (record_latest_edge env a n rid st) (\<lambda>st.
                        finish_rmw env a n opn value None rid old_buf st))))
       (activate (thread_slot (a_tid a)) st)"

definition rmw_turn :: "env \<Rightarrow> event_args \<Rightarrow> nat \<Rightarrow> u32 \<Rightarrow> u64 \<Rightarrow> pending \<Rightarrow> sched \<Rightarrow> u64 reply outcome" where
  "rmw_turn env a n opn value pd st =
     forced_turn env a (copy_size n) (rmw_read_forced env a n opn value (pd_node pd) (pd_recorded pd)) pd st"

section \<open>Compare-exchange\<close>

text \<open>The decision table: whether the swap is done, \<open>None\<close> when the schedule can not be followed.\<close>

definition cas_decision :: "eg_node option \<Rightarrow> bool \<Rightarrow> bool \<Rightarrow> bool option" where
  "cas_decision node is_weak matched =
     (let has_expectation = (case node of None \<Rightarrow> False | Some m \<Rightarrow> n_type m = EG_OP_CAS_SUCCESS \<or> n_type m = EG_OP_CAS_FAIL);
          expected_success = (case node of None \<Rightarrow> False | Some m \<Rightarrow> n_type m = EG_OP_CAS_SUCCESS)
      in if \<not> has_expectation then Some matched
         else if is_weak then (if expected_success \<and> \<not> matched then None else Some expected_success)
         else if expected_success \<noteq> matched then None else Some matched)"

text \<open>
  The end of the handler, from the comparison on; \<open>source\<close> is the write a forced read was served
  from. The result is the old value and whether the swap was done.
\<close>

definition finish_cmpxchg :: "env \<Rightarrow> event_args \<Rightarrow> nat \<Rightarrow> u64 \<Rightarrow> u64 \<Rightarrow> bool \<Rightarrow> eg_node option \<Rightarrow> write_event option \<Rightarrow>
    u8 list \<Rightarrow> sched \<Rightarrow> (u64 \<times> bool) reply outcome" where
  "finish_cmpxchg env a n compare_val new_val is_weak node source old_buf st =
     (let old_val = bytes_to_intptr (Some old_buf)
      in case cas_decision node is_weak (old_val = compare_val) of
           None \<Rightarrow> Exits WMM_EXIT_NOT_INSTANTIABLE
         | Some do_swap \<Rightarrow>
             bind_outcome (record_event_node_locked env (event_key a) (a_loc a)
                 (if do_swap then EG_OP_CAS_SUCCESS else EG_OP_CAS_FAIL) (lookup_addr_name env st (a_addr a))
                 (if do_swap then new_val else old_val) st)
               (\<lambda>(rid, st).
                  bind_outcome (case source of
                      Some we \<Rightarrow> if recording_graph st \<noteq> None \<and> rid \<noteq> 0 then record_edge env (we_gnid we) rid st else Returns st
                    | None \<Rightarrow> record_latest_edge env a n rid st)
                  (\<lambda>st. if do_swap
                        then bind_outcome (write_back env a n new_val (case node of Some m \<Rightarrow> n_id m | None \<Rightarrow> rid) st)
                               (\<lambda>st. Returns (Replies (old_val, True) st))
                        else Returns (Replies (old_val, False) st))))"

definition scheduler_on_cmpxchg_bytes_ex :: "env \<Rightarrow> event_args \<Rightarrow> nat \<Rightarrow> u64 \<Rightarrow> u64 \<Rightarrow> bool \<Rightarrow> sched \<Rightarrow>
    (u64 \<times> bool) reply outcome" where
  "scheduler_on_cmpxchg_bytes_ex env a n compare_val new_val is_weak st =
     meet_event env {EG_OP_RMW, EG_OP_READ, EG_OP_WRITE, EG_OP_CAS_SUCCESS, EG_OP_CAS_FAIL} EG_OP_CAS (a_loc a) a
       (\<lambda>node st.
          let target = (case node of None \<Rightarrow> 0 | Some m \<Rightarrow> find_rf_source (current_graph st) (n_id m))
          in if current_graph st \<noteq> None \<and> node \<noteq> None \<and> target = 0 then Exits EXIT_INVALID_INPUT
             else case node of
               Some m \<Rightarrow>
                 bind_outcome (begin_forced a m target 0 st)
                   (\<lambda>(pd, st). forced_turn env a (copy_size n)
                      (\<lambda>we buf st. finish_cmpxchg env a n compare_val new_val is_weak (Some m) (Some we) buf st) pd st)
             | None \<Rightarrow>
                 bind_outcome (read_current a n st)
                   (\<lambda>old_buf. finish_cmpxchg env a n compare_val new_val is_weak None None old_buf st))
       (activate (thread_slot (a_tid a)) st)"

definition cmpxchg_turn :: "env \<Rightarrow> event_args \<Rightarrow> nat \<Rightarrow> u64 \<Rightarrow> u64 \<Rightarrow> bool \<Rightarrow> pending \<Rightarrow> sched \<Rightarrow> (u64 \<times> bool) reply outcome" where
  "cmpxchg_turn env a n compare_val new_val is_weak pd st =
     forced_turn env a (copy_size n)
       (\<lambda>we buf st. finish_cmpxchg env a n compare_val new_val is_weak (Some (pd_node pd)) (Some we) buf st) pd st"

end
