(* ===== verification/SchedRecord.thy ===== *)
theory SchedRecord imports SchedEvents begin

text \<open>
  What a recording contains (\<^verbatim>\<open>record_event_node_locked\<close> of \<^verbatim>\<open>scheduler.c\<close>): over any sequence of
  recorded events, one node for every dynamic event, whose kind joins the kinds it was recorded
  with.
\<close>

section \<open>Joining kinds\<close>

definition joinable :: "s32 set \<Rightarrow> bool" where
  "joinable T \<longleftrightarrow> (\<exists>t. T = {t}) \<or> T \<subseteq> {EG_OP_READ, EG_OP_WRITE, EG_OP_RMW}"

definition joined_kind :: "s32 set \<Rightarrow> s32" where
  "joined_kind T = (if is_singleton T then the_elem T else EG_OP_RMW)"

lemma joinable_subset: "joinable T \<Longrightarrow> S \<subseteq> T \<Longrightarrow> S \<noteq> {} \<Longrightarrow> joinable S"
  by (auto simp: joinable_def)

lemma joined_kind_singleton [simp]: "joined_kind {t} = t"
  by (simp add: joined_kind_def)

lemma merge_two: "u \<noteq> r \<Longrightarrow> merges_to_rmw u r \<longleftrightarrow> {u, r} \<subseteq> {EG_OP_READ, EG_OP_WRITE, EG_OP_RMW}"
  by (auto simp: merges_to_rmw_def eg_ops)

lemma merge_rmw: "merges_to_rmw EG_OP_RMW r \<or> EG_OP_RMW = r \<longleftrightarrow> r \<in> {EG_OP_READ, EG_OP_WRITE, EG_OP_RMW}"
  by (auto simp: merges_to_rmw_def eg_ops)

lemma kind_step:
  assumes "joinable T" and "T \<noteq> {}"
  shows "merges_to_rmw (joined_kind T) r \<or> joined_kind T = r \<longleftrightarrow> joinable (insert r T)"
    and "joinable (insert r T) \<Longrightarrow>
      joined_kind (insert r T) = (if merges_to_rmw (joined_kind T) r then EG_OP_RMW else joined_kind T)"
proof -
  have two: "\<not> is_singleton (insert r T)" if "a \<in> T" "a \<noteq> r" for a
    using that by (auto simp: is_singleton_def)
  have same: "\<not> merges_to_rmw r r" by (auto simp: merges_to_rmw_def eg_ops)
  have "(merges_to_rmw (joined_kind T) r \<or> joined_kind T = r \<longleftrightarrow> joinable (insert r T)) \<and>
    (joinable (insert r T) \<longrightarrow>
      joined_kind (insert r T) = (if merges_to_rmw (joined_kind T) r then EG_OP_RMW else joined_kind T))"
  proof (cases "is_singleton T")
    case True
    then obtain u where u: "T = {u}" by (auto simp: is_singleton_def)
    show ?thesis
    proof (cases "u = r")
      case False
      then have "joinable (insert r T) \<longleftrightarrow> merges_to_rmw u r" using u by (auto simp: joinable_def merge_two)
      moreover have "joined_kind (insert r T) = EG_OP_RMW" using two u False by (simp add: joined_kind_def)
      ultimately show ?thesis using u False by auto
    qed (use u same in \<open>simp add: joinable_def\<close>)
  next
    case False
    then have k: "joined_kind T = EG_OP_RMW" by (simp add: joined_kind_def)
    obtain a where "a \<in> T" "a \<noteq> r" using False assms(2) by (auto simp: is_singleton_def)
    then have ns: "\<not> is_singleton (insert r T)" by (rule two)
    have "T \<subseteq> {EG_OP_READ, EG_OP_WRITE, EG_OP_RMW}" using False assms(1) by (auto simp: joinable_def is_singleton_def)
    moreover have "joinable (insert r T) \<longleftrightarrow> insert r T \<subseteq> {EG_OP_READ, EG_OP_WRITE, EG_OP_RMW}"
      using ns by (auto simp: joinable_def is_singleton_def)
    ultimately have "joinable (insert r T) \<longleftrightarrow> r \<in> {EG_OP_READ, EG_OP_WRITE, EG_OP_RMW}" by simp
    moreover have "joined_kind (insert r T) = EG_OP_RMW" using ns by (simp add: joined_kind_def)
    ultimately show ?thesis unfolding k merge_rmw by auto
  qed
  then show "merges_to_rmw (joined_kind T) r \<or> joined_kind T = r \<longleftrightarrow> joinable (insert r T)"
    "joinable (insert r T) \<Longrightarrow>
      joined_kind (insert r T) = (if merges_to_rmw (joined_kind T) r then EG_OP_RMW else joined_kind T)" by simp_all
qed

lemma merge_node_fields:
  "merge_node loc_id r str v n = None \<longleftrightarrow> \<not> (merges_to_rmw (n_type n) r \<or> n_type n = r)"
  "merge_node loc_id r str v n = Some m \<Longrightarrow> node_key m = node_key n \<and> n_id m = n_id n \<and>
     n_type m = (if merges_to_rmw (n_type n) r then EG_OP_RMW else n_type n)"
  by (auto simp: merge_node_def node_key_def split: if_splits)

section \<open>Any sequence of recorded events\<close>

type_synonym record_req = "dyn_key \<times> u64 \<times> s32 \<times> cstring \<times> s64"

fun record_req :: "env \<Rightarrow> record_req \<Rightarrow> sched \<Rightarrow> (u64 \<times> sched) outcome" where
  "record_req env (key, loc_id, ty, str, val) st = record_event_node_locked env key loc_id ty str val st"

fun record_all :: "env \<Rightarrow> record_req list \<Rightarrow> sched \<Rightarrow> sched outcome" where
  "record_all env [] st = Returns st"
| "record_all env (r # rs) st = bind_outcome (record_req env r st) (\<lambda>(_, st). record_all env rs st)"

definition kinds :: "record_req list \<Rightarrow> dyn_key \<Rightarrow> s32 set" where
  "kinds rs k = {ty. \<exists>loc_id str val. (k, loc_id, ty, str, val) \<in> set rs}"

lemma kinds_simps [simp]:
  "kinds [] k = {}"
  "kinds (rs @ [(key, loc_id, ty, str, val)]) k = (if k = key then insert ty (kinds rs k) else kinds rs k)"
  by (auto simp: kinds_def)

lemma kinds_append: "kinds rs k \<subseteq> kinds (rs @ ss) k"
  by (auto simp: kinds_def)

definition recorded :: "eg_graph \<Rightarrow> record_req list \<Rightarrow> bool" where
  "recorded g rs \<longleftrightarrow> graph_inv g \<and> length (eg_nodes g) \<le> length rs \<and> distinct (map node_key (eg_nodes g)) \<and>
     (\<forall>k. kinds rs k = {} \<longleftrightarrow> k \<notin> node_key ` set (eg_nodes g)) \<and>
     (\<forall>n\<in>set (eg_nodes g). joinable (kinds rs (node_key n)) \<and> n_type n = joined_kind (kinds rs (node_key n)))"

lemma graph_inv_update:
  assumes "graph_inv g" and "i < length (eg_nodes g)" and "node_key n = node_key (eg_nodes g ! i)"
  shows "graph_inv (g\<lparr>eg_nodes := (eg_nodes g)[i := n]\<rparr>)"
  using assms unfolding graph_inv_def index_ok_def by (auto simp: nth_list_update)

lemma find_index_key:
  assumes "graph_inv g"
  shows "case eg_find_index g k of
      Returns None \<Rightarrow> k \<notin> node_key ` set (eg_nodes g)
    | Returns (Some i) \<Rightarrow> i < length (eg_nodes g) \<and> node_key (eg_nodes g ! i) = k
    | _ \<Rightarrow> False"
  unfolding find_index_first [OF assms]
  by (auto simp: find_None_iff find_Some_iff in_set_conv_nth split: option.split)

lemma record_step:
  assumes rec: "recorded g rs" and g: "recording_graph st = Some g" and len: "length rs < 2 ^ 30"
    and mem: "grants_all (mem_graph env)"
  shows "if joinable (insert ty (kinds rs key))
    then \<exists>eid st' g'. record_req env (key, loc_id, ty, str, val) st = Returns (eid, st') \<and> recording_graph st' = Some g' \<and>
      recorded g' (rs @ [(key, loc_id, ty, str, val)])
    else record_req env (key, loc_id, ty, str, val) st = Exits EXIT_INVALID_INPUT"
proof -
  let ?ns = "eg_nodes g" and ?r = "(key, loc_id, ty, str, val)"
  have inv: "graph_inv g" and d: "distinct (map node_key ?ns)"
    and none: "\<And>k. kinds rs k = {} \<longleftrightarrow> k \<notin> node_key ` set ?ns"
    and ty: "\<And>n. n \<in> set ?ns \<Longrightarrow> joinable (kinds rs (node_key n)) \<and> n_type n = joined_kind (kinds rs (node_key n))"
    using rec unfolding recorded_def by blast+
  have c: "case eg_find_index g key of Returns None \<Rightarrow> key \<notin> node_key ` set ?ns
    | Returns (Some i) \<Rightarrow> i < length ?ns \<and> node_key (?ns ! i) = key | _ \<Rightarrow> False" by (rule find_index_key [OF inv])
  consider (new) "eg_find_index g key = Returns None" "key \<notin> node_key ` set ?ns"
    | (old) i where "eg_find_index g key = Returns (Some i)" "i < length ?ns" "node_key (?ns ! i) = key"
    using c by (cases "eg_find_index g key") (auto split: option.splits)
  then show ?thesis
  proof cases
    case new
    then have k: "kinds rs key = {}" by (simp add: none)
    obtain tid iid vid where key: "key = (tid, iid, vid)" by (cases key)
    define c where "c = (scast (event_id_counter st) :: u64, key, loc_id, ty, Some str, val)"
    have "length ?ns < 2 ^ 30" using rec len by (simp add: recorded_def)
    then obtain g' where g': "add_call (mem_graph env) g c = Returns g'" "graph_inv g'" "eg_nodes g' = ?ns @ [new_node c]"
      using add_call_cases [OF inv] mem by blast
    have n: "node_key (new_node c) = key" "n_type (new_node c) = ty" by (simp_all add: c_def key node_key_def)
    have "recorded g' (rs @ [?r])"
      unfolding recorded_def
    proof (intro conjI allI ballI)
      show "length (eg_nodes g') \<le> length (rs @ [?r])" using rec by (simp add: g'(3) recorded_def)
      show "distinct (map node_key (eg_nodes g'))" using d new(2) n by (simp add: g'(3))
      show "kinds (rs @ [?r]) k' = {} \<longleftrightarrow> k' \<notin> node_key ` set (eg_nodes g')" for k'
        using none [of k'] n by (auto simp: g'(3))
      fix m assume m: "m \<in> set (eg_nodes g')"
      then have "m \<in> set ?ns \<and> node_key m \<noteq> key \<or> m = new_node c" using new(2) by (auto simp: g'(3))
      then show "joinable (kinds (rs @ [?r]) (node_key m))" "n_type m = joined_kind (kinds (rs @ [?r]) (node_key m))"
        using ty [of m] n k by (auto simp: joinable_def)
    qed (rule g'(2))
    moreover have "record_req env ?r st = Returns (scast (event_id_counter st),
        st\<lparr>event_id_counter := event_id_counter st + 1, recording_graph := Some g'\<rparr>)"
      using g new(1) g'(1) by (simp add: record_event_node_locked_def next_event_id_def c_def)
    moreover have "joinable (insert ty (kinds rs key))" by (simp add: k joinable_def)
    ultimately show ?thesis by auto
  next
    case old
    let ?n = "?ns ! i"
    have mem_n: "?n \<in> set ?ns" using old(2) by simp
    have T: "joinable (kinds rs key)" "n_type ?n = joined_kind (kinds rs key)" "kinds rs key \<noteq> {}"
      using ty [OF mem_n] none [of key] old(3) mem_n by auto
    note step = kind_step [OF T(1,3), of ty]
    show ?thesis
    proof (cases "joinable (insert ty (kinds rs key))")
      case False
      then have "merge_node loc_id ty str val ?n = None" using step(1) T(2) by (simp add: merge_node_fields(1))
      then show ?thesis using False g old(1) by (simp add: record_event_node_locked_def)
    next
      case True
      then obtain m where m: "merge_node loc_id ty str val ?n = Some m"
        using step(1) T(2) merge_node_fields(1) [of loc_id ty str val ?n] by (cases "merge_node loc_id ty str val ?n") auto
      have mf: "node_key m = key" "n_type m = joined_kind (insert ty (kinds rs key))"
        using merge_node_fields(2) [OF m] step(2) [OF True] T(2) old(3) by simp_all
      define g' where "g' = g\<lparr>eg_nodes := ?ns[i := m]\<rparr>"
      have keys: "map node_key (eg_nodes g') = map node_key ?ns"
        using old mf(1) by (simp add: g'_def map_update) (metis list_update_id length_map nth_map)
      then have ks: "node_key ` set (eg_nodes g') = node_key ` set ?ns" by (metis list.set_map)
      have "recorded g' (rs @ [?r])"
        unfolding recorded_def
      proof (intro conjI allI ballI)
        show "graph_inv g'" unfolding g'_def by (rule graph_inv_update [OF inv old(2)]) (simp add: mf(1) old(3))
        show "length (eg_nodes g') \<le> length (rs @ [?r])" using rec by (simp add: g'_def recorded_def)
        show "distinct (map node_key (eg_nodes g'))" using d keys by simp
        show "kinds (rs @ [?r]) k' = {} \<longleftrightarrow> k' \<notin> node_key ` set (eg_nodes g')" for k'
          using none [of k'] T(3) unfolding ks by auto
        fix x assume "x \<in> set (eg_nodes g')"
        then obtain j where j: "j < length ?ns" "x = (?ns[i := m]) ! j" by (auto simp: g'_def in_set_conv_nth)
        have "joinable (kinds (rs @ [?r]) (node_key x)) \<and> n_type x = joined_kind (kinds (rs @ [?r]) (node_key x))"
        proof (cases "j = i")
          case True
          then show ?thesis using j old(2) mf \<open>joinable (insert ty (kinds rs key))\<close> by simp
        next
          case False
          then have "x = ?ns ! j" "node_key x \<noteq> key"
            using j d old(2,3) by (auto simp: distinct_conv_nth)
          then show ?thesis using ty [of x] j(1) by simp
        qed
        then show "joinable (kinds (rs @ [?r]) (node_key x))" "n_type x = joined_kind (kinds (rs @ [?r]) (node_key x))" by simp_all
      qed
      moreover have "record_req env ?r st = Returns (n_id m, st\<lparr>recording_graph := Some g'\<rparr>)"
        using g old(1) m by (simp add: record_event_node_locked_def g'_def)
      ultimately show ?thesis using True by auto
    qed
  qed
qed

lemma record_all_ok:
  "recorded g seen \<Longrightarrow> recording_graph st = Some g \<Longrightarrow> length seen + length rs \<le> 2 ^ 30 \<Longrightarrow> grants_all (mem_graph env) \<Longrightarrow>
    case record_all env rs st of
      Returns st' \<Rightarrow> (\<exists>g'. recording_graph st' = Some g' \<and> recorded g' (seen @ rs))
    | Exits c \<Rightarrow> c = EXIT_INVALID_INPUT \<and> (\<exists>k. kinds (seen @ rs) k \<noteq> {} \<and> \<not> joinable (kinds (seen @ rs) k))
    | Diverges \<Rightarrow> False"
proof (induction rs arbitrary: seen g st)
  case (Cons r rs)
  obtain key loc_id ty str val where r: "r = (key, loc_id, ty, str, val)" by (cases r)
  have s: "if joinable (insert ty (kinds seen key))
    then \<exists>eid st' g'. record_req env r st = Returns (eid, st') \<and> recording_graph st' = Some g' \<and> recorded g' (seen @ [r])
    else record_req env r st = Exits EXIT_INVALID_INPUT"
    unfolding r by (rule record_step [OF Cons.prems(1,2) _ Cons.prems(4)]) (use Cons.prems(3) in simp)
  show ?case
  proof (cases "joinable (insert ty (kinds seen key))")
    case True
    then obtain eid st' g' where "record_req env r st = Returns (eid, st')" "recording_graph st' = Some g'"
      "recorded g' (seen @ [r])" using s by auto
    moreover have "length (seen @ [r]) + length rs \<le> 2 ^ 30" using Cons.prems(3) by simp
    ultimately show ?thesis
      using Cons.IH [of g' "seen @ [r]" st', OF _ _ _ Cons.prems(4)]
      unfolding record_all.simps append_assoc append_Cons append_Nil by simp
  next
    case False
    have sub: "insert ty (kinds seen key) \<subseteq> kinds (seen @ r # rs) key" by (auto simp: kinds_def r)
    then have "kinds (seen @ r # rs) key \<noteq> {} \<and> \<not> joinable (kinds (seen @ r # rs) key)" using False joinable_subset by blast
    then have "\<exists>k. kinds (seen @ r # rs) k \<noteq> {} \<and> \<not> joinable (kinds (seen @ r # rs) k)" by blast
    moreover have "record_all env (r # rs) st = Exits EXIT_INVALID_INPUT" using False s by simp
    ultimately show ?thesis by (simp only: outcome.case simp_thms)
  qed
qed simp

section \<open>Properties\<close>

text \<open>
  C25. A recording, from a new graph and with enough memory, for any sequence of recorded events
  (up to \<open>2 ^ 27\<close>): it ends with the exit status of invalid input exactly when some dynamic
  event was recorded with kinds that do not go together (two different ones not all plain reads,
  writes and read-modify-writes); otherwise there is exactly one node for every dynamic event that
  was recorded, of the kind it was recorded with or, for several kinds, a read-modify-write.
\<close>
theorem sched_recording_joins_kinds:
  assumes "eg_create mem = Some g0" and "recording_graph st = Some g0" and "grants_all (mem_graph env)" and "length rs \<le> 2 ^ 27"
  shows "case record_all env rs st of
      Returns st' \<Rightarrow> (\<exists>g. recording_graph st' = Some g \<and> distinct (map node_key (eg_nodes g)) \<and>
        (\<lambda>n. (node_key n, n_type n)) ` set (eg_nodes g) = (\<lambda>k. (k, joined_kind (kinds rs k))) ` {k. kinds rs k \<noteq> {}} \<and>
        \<not> (\<exists>k. kinds rs k \<noteq> {} \<and> \<not> joinable (kinds rs k)))
    | Exits c \<Rightarrow> c = EXIT_INVALID_INPUT \<and> (\<exists>k. kinds rs k \<noteq> {} \<and> \<not> joinable (kinds rs k))
    | Diverges \<Rightarrow> False"
proof -
  have "recorded g0 []" using create_inv [OF assms(1)] by (simp add: recorded_def)
  from record_all_ok [OF this assms(2) _ assms(3), of rs, unfolded append_Nil] have c: "case record_all env rs st of
      Returns st' \<Rightarrow> (\<exists>g. recording_graph st' = Some g \<and> recorded g rs)
    | Exits c \<Rightarrow> c = EXIT_INVALID_INPUT \<and> (\<exists>k. kinds rs k \<noteq> {} \<and> \<not> joinable (kinds rs k))
    | Diverges \<Rightarrow> False" using assms(4) by simp
  have "(\<lambda>n. (node_key n, n_type n)) ` set (eg_nodes g) = (\<lambda>k. (k, joined_kind (kinds rs k))) ` {k. kinds rs k \<noteq> {}} \<and>
      \<not> (\<exists>k. kinds rs k \<noteq> {} \<and> \<not> joinable (kinds rs k))" if "recorded g rs" for g
  proof -
    have none: "\<And>k. kinds rs k = {} \<longleftrightarrow> k \<notin> node_key ` set (eg_nodes g)"
      and ty: "\<And>n. n \<in> set (eg_nodes g) \<Longrightarrow> joinable (kinds rs (node_key n)) \<and> n_type n = joined_kind (kinds rs (node_key n))"
      using that unfolding recorded_def by blast+
    have ks: "{k. kinds rs k \<noteq> {}} = node_key ` set (eg_nodes g)" using none by blast
    have "(\<lambda>n. (node_key n, n_type n)) ` set (eg_nodes g) = (\<lambda>k. (k, joined_kind (kinds rs k))) ` {k. kinds rs k \<noteq> {}}"
      unfolding ks image_image by (rule image_cong) (use ty in auto)
    then show ?thesis using none ty by blast
  qed
  then show ?thesis using c by (cases "record_all env rs st") (auto simp: recorded_def)
qed

text \<open>A read and a write of one event, and a second event.\<close>

definition recording :: "eg_graph \<Rightarrow> sched" where
  "recording g = \<lparr>current_graph = None, recording_graph = Some g, event_id_counter = 1,
     config_missing_random_sampling = MRS_STOP, addr_map = [], cov = no_coverage, thr = init_threads, hist = no_history,
     frst = init_forest, ram = (\<lambda>_. 0)\<rparr>"

definition env_ample :: env where
  "env_ample = \<lparr>mem_graph = ample, mem_cov = cov_ample,
     mem_hist = \<lparr>grants_arena = True, grants_entry = (\<lambda>_. True), grants_payload = (\<lambda>_. True)\<rparr>,
     mem_tree = tree_ample, print_ptr = (\<lambda>_. [])\<rparr>"

theorem sched_recording_joins_kinds_witness:
  "\<exists>g0. eg_create ample = Some g0 \<and>
    (case record_all env_ample [((0, 7, 1), 3, EG_OP_READ, [], 0), ((0, 7, 1), 3, EG_OP_WRITE, [], 5), ((0, 8, 1), 3, EG_OP_CAS_FAIL, [], 5)]
        (recording g0) of
       Returns st' \<Rightarrow> \<exists>g. recording_graph st' = Some g \<and> ((0, 7, 1), EG_OP_RMW) \<in> (\<lambda>n. (node_key n, n_type n)) ` set (eg_nodes g)
     | Exits c \<Rightarrow> False | Diverges \<Rightarrow> False)"
proof -
  let ?rs = "[((0, 7, 1), 3, EG_OP_READ, [], 0), ((0, 7, 1), 3, EG_OP_WRITE, [], 5), ((0, 8, 1), 3, EG_OP_CAS_FAIL, [], 5)] :: record_req list"
  obtain g0 where g0: "eg_create ample = Some g0" by (simp add: eg_create_def ample_def)
  have k: "kinds ?rs k = (if k = (0, 7, 1) then {EG_OP_READ, EG_OP_WRITE} else if k = (0, 8, 1) then {EG_OP_CAS_FAIL} else {})" for k
    unfolding kinds_def by (cases k) auto
  then have ok: "\<not> (\<exists>k. kinds ?rs k \<noteq> {} \<and> \<not> joinable (kinds ?rs k))" by (auto simp: joinable_def)
  have "is_singleton {EG_OP_READ, EG_OP_WRITE} = False" by (auto simp: is_singleton_def eg_ops doubleton_eq_iff)
  then have j: "joined_kind (kinds ?rs (0, 7, 1)) = EG_OP_RMW" "kinds ?rs (0, 7, 1) \<noteq> {}" unfolding k by (simp_all add: joined_kind_def)
  have m: "grants_all (mem_graph env_ample)" "recording_graph (recording g0) = Some g0" "length ?rs \<le> 2 ^ 27"
    by (simp_all add: env_ample_def ample_def grants_all_def recording_def)
  have w: "((0, 7, 1), EG_OP_RMW) \<in> (\<lambda>k. (k, joined_kind (kinds ?rs k))) ` {k. kinds ?rs k \<noteq> {}}"
    using j by (intro image_eqI [of _ _ "(0, 7, 1)"]) simp_all
  note t = sched_recording_joins_kinds [OF g0 m(2,1,3)]
  have "case record_all env_ample ?rs (recording g0) of
       Returns st' \<Rightarrow> \<exists>g. recording_graph st' = Some g \<and> ((0, 7, 1), EG_OP_RMW) \<in> (\<lambda>n. (node_key n, n_type n)) ` set (eg_nodes g)
     | Exits c \<Rightarrow> False | Diverges \<Rightarrow> False"
  proof (cases "record_all env_ample ?rs (recording g0)")
    case (Returns st')
    obtain g where g: "recording_graph st' = Some g" "(\<lambda>n. (node_key n, n_type n)) ` set (eg_nodes g) =
        (\<lambda>k. (k, joined_kind (kinds ?rs k))) ` {k. kinds ?rs k \<noteq> {}}"
      using t unfolding Returns outcome.case by blast
    show ?thesis unfolding Returns outcome.case using g(1) w unfolding g(2) [symmetric] by blast
  next
    case (Exits c)
    then show ?thesis using t ok unfolding Exits outcome.case by blast
  next
    case Diverges
    then show ?thesis using t unfolding Diverges outcome.case by blast
  qed
  then show ?thesis using g0 by blast
qed

end
