(* ===== verification/SchedReplay.thy ===== *)
theory SchedReplay imports SchedRecord begin

text \<open>
  Replaying a graph through the handlers of \<^verbatim>\<open>scheduler.c\<close>: a read is served by the write its edge
  names, whatever the memory holds by then, and a compare-exchange does what its comparison, its
  flavour and the graph allow together.
\<close>

section \<open>A write stays findable\<close>

text \<open>An entry is found by its node until 39 later stores hit its address.\<close>

lemma entry_kept:
  assumes "store_calls mem cs hs = Returns hs'" and "hist_inv hs"
    and "global_history hs = newer @ w # older" and "\<forall>x\<in>set newer. we_gnid x \<noteq> we_gnid w"
    and "p < length (writes_of (we_addr w) hs)" and "writes_of (we_addr w) hs ! p = w"
    and "\<forall>c\<in>set cs. call_gnid c \<noteq> we_gnid w"
    and "p + length (filter (\<lambda>c. call_addr c = we_addr w) cs) < 39"
  shows "find_write_in_history hs' (we_gnid w) = Some w"
  using assms
proof (induction cs arbitrary: hs newer older p)
  case Nil
  have "find (\<lambda>x. we_gnid x = we_gnid w) (newer @ w # older) = Some w"
    using Nil(4) by (induction newer) auto
  then show ?case using Nil by (simp add: find_write_in_history_def)
next
  case (Cons c cs)
  let ?a = "we_addr w"
  obtain hs1 where s1: "store_call mem c hs = Returns hs1" and rest: "store_calls mem cs hs1 = Returns hs'"
    using Cons.prems(1) by (cases "store_call mem c hs") auto
  obtain v P where inv1: "hist_inv hs1" and v: "made_by c v"
    and wa: "writes_of (call_addr c) hs1 = v # take (max_per_addr - 1) (writes_of (call_addr c) hs)"
    and wb: "\<And>b. b \<noteq> call_addr c \<Longrightarrow> writes_of b hs1 = writes_of b hs"
    and g: "global_history hs1 = v # filter P (global_history hs)"
    using add_history_cases [OF Cons.prems(2), of mem c] s1 by auto
  have vg: "we_gnid v \<noteq> we_gnid w" using v Cons.prems(7) by (cases c) auto
  define q where "q = (if call_addr c = ?a then p + 1 else p)"
  have q: "q < length (writes_of ?a hs1)" "writes_of ?a hs1 ! q = w"
    using Cons.prems(5,6,8) wa wb [of ?a] by (auto simp: q_def max_per_addr_39)
  then have "w \<in> set (global_history hs1)" unfolding writes_of_def by (metis (no_types, lifting) filter_is_subset nth_mem subsetD)
  then have "P w" using vg by (auto simp: g)
  then have g1: "global_history hs1 = (v # filter P newer) @ w # filter P older" by (simp add: g Cons.prems(3))
  show ?case
    by (rule Cons.IH [OF rest inv1 g1 _ q]) (use vg Cons.prems(4,7,8) in \<open>auto simp: q_def\<close>)
qed

section \<open>A known event\<close>

lemma meet_known:
  assumes "current_graph st = Some g" and "graph_inv g" and "find (\<lambda>m. node_key m = event_key a) (eg_nodes g) = Some n"
    and "n_type n \<in> accepted"
  shows "meet_event env accepted uty uloc a go st =
    go (Some n) ((cover_node env n st)\<lparr>frst := update_last_executed_event (a_tid a) (a_uid a) (event_vid a) (frst st)\<rparr>)"
  using assms by (simp add: meet_event_def find_dynamic_first cover_node_def Let_def)

lemma activate_fields [simp]:
  "current_graph (activate s st) = current_graph st" "recording_graph (activate s st) = recording_graph st"
  "hist (activate s st) = hist st" "ram (activate s st) = ram st"
  by (simp_all add: activate_def split: option.split)

lemma cover_node_fields [simp]:
  "current_graph (cover_node env n st) = current_graph st" "recording_graph (cover_node env n st) = recording_graph st"
  "hist (cover_node env n st) = hist st" "ram (cover_node env n st) = ram st" "thr (cover_node env n st) = thr st"
  by (simp_all add: cover_node_def)

lemma record_nothing [simp]:
  "recording_graph st = None \<Longrightarrow> record_event_node_locked env k l t s v st = Returns (0, st)"
  "recording_graph st = None \<Longrightarrow> record_edge env x y st = Returns st"
  "recording_graph st = None \<Longrightarrow> record_value e v st = st"
  by (simp_all add: record_event_node_locked_def record_edge_def record_value_def)

text \<open>A store of a known event enters its bytes into the history.\<close>

lemma store_known:
  assumes "current_graph st = Some g" and "recording_graph st = None" and "graph_inv g"
    and "find (\<lambda>m. node_key m = event_key a) (eg_nodes g) = Some n" and "n_type n \<in> {EG_OP_WRITE, EG_OP_RMW}"
    and "hist_inv (hist st)" and "hist_grants_all (mem_hist env)" and "data \<noteq> []"
  shows "\<exists>st' w. scheduler_on_store_bytes_ex env a (Some data) st = Returns (Replies () st') \<and>
    current_graph st' = Some g \<and> recording_graph st' = None \<and> hist_inv (hist st') \<and>
    global_history (hist st') = w # tl (global_history (hist st')) \<and> we_gnid w = n_id n \<and> we_addr w = a_addr a \<and>
    we_bytes w = Some data \<and> writes_of (a_addr a) (hist st') = w # tl (writes_of (a_addr a) (hist st'))"
proof -
  let ?st = "(cover_node env n (activate (thread_slot (a_tid a)) st))\<lparr>frst := update_last_executed_event (a_tid a) (a_uid a)
    (event_vid a) (frst (activate (thread_slot (a_tid a)) st))\<rparr>"
  let ?c = "(a_addr a, Some data, a_loc a, event_key a, n_id n)"
  have "scheduler_on_store_bytes_ex env a (Some data) st =
      finish_store env a (Some data) (bytes_to_intptr (Some data)) (Some n) ?st"
    unfolding scheduler_on_store_bytes_ex_def
    by (rule meet_known) (use assms in auto)
  also have "\<dots> = bind_outcome (store_call (mem_hist env) ?c (hist st)) (\<lambda>h. Returns (Replies () (?st\<lparr>hist := h\<rparr>)))"
    using assms(2) by (simp add: finish_store_def node_id_of_def)
  finally have st: "scheduler_on_store_bytes_ex env a (Some data) st =
    bind_outcome (store_call (mem_hist env) ?c (hist st)) (\<lambda>h. Returns (Replies () (?st\<lparr>hist := h\<rparr>)))" .
  obtain hs' w where h: "store_call (mem_hist env) ?c (hist st) = Returns hs'" "hist_inv hs'" "made_by ?c w"
    "writes_of (a_addr a) hs' = w # take (max_per_addr - 1) (writes_of (a_addr a) (hist st))"
    "\<exists>P. global_history hs' = w # filter P (global_history (hist st))"
    using add_history_cases [OF assms(6), of "mem_hist env" ?c] assms(7) by auto
  have "we_gnid w = n_id n" "we_addr w = a_addr a" "we_bytes w = Some data"
    using h(3) assms(8) by (cases "event_key a"; auto simp: payload_of_def)+
  then show ?thesis using assms(1,2) h unfolding st by (intro exI [of _ "?st\<lparr>hist := hs'\<rparr>"] exI [of _ w]) auto
qed

text \<open>A load of a known event whose write is in the history returns that write's bytes.\<close>

lemma load_known:
  assumes "current_graph st = Some g" and "recording_graph st = None" and "graph_inv g"
    and "find (\<lambda>m. node_key m = event_key a) (eg_nodes g) = Some n" and "n_type n \<in> {EG_OP_READ, EG_OP_RMW}"
    and "find_rf_source (Some g) (n_id n) = x" and "x \<noteq> 0" and "find_write_in_history (hist st) x = Some w"
    and "thread_slot (a_tid a) = Some s" and "satisfy_load_from_write (ram st) len (a_addr a) w = (bs, True)"
  shows "\<exists>st'. scheduler_on_load_bytes_ex env a len r st = Returns (Replies (Some bs) st') \<and> waiting_status (thr st') s = 0"
proof -
  let ?st = "(cover_node env n st)\<lparr>frst := update_last_executed_event (a_tid a) (a_uid a) (event_vid a) (frst st)\<rparr>"
  have "resolve_blocking_slot_locked (thr st) (a_tid a) = Some s" using assms(9) by (simp add: resolve_blocking_slot_locked_def)
  then show ?thesis
    unfolding scheduler_on_load_bytes_ex_def
    using assms by (simp add: meet_known [OF assms(1,3,4,5)] Let_def begin_forced_def forced_turn_def require_rf_overlap_locked_def
        finish_load_def set_waiting_def)
qed

text \<open>A load inside the range of an entry gets the entry's bytes.\<close>

lemma satisfy_stored:
  assumes "we_bytes w = Some data" and "we_addr w \<noteq> 0" and "fits (we_addr w) (length data)" and "l = we_addr w + of_nat k"
    and "k + n \<le> length data" and "0 < n"
  shows "satisfy_load_from_write m n l w = (take n (drop k data), True)"
proof -
  have src: "source_bytes w = data" by (simp add: source_bytes_def assms(1))
  have u: "unat l = unat (we_addr w) + k" unfolding assms(4)
    by (rule unat_add_nat) (use assms(3,5) in \<open>simp add: fits_def\<close>)
  have c: "covers w l i" "loaded_byte m w l i = data ! (k + i)" if "i < n" for i
    using that assms(5) by (auto simp: covers_def loaded_byte_def src u)
  have "0 < unat (we_addr w)" using assms(2) by (simp add: unat_gt_0)
  then have nz: "l \<noteq> 0" using u by auto
  have "satisfy_load_from_write m n l w = (map (loaded_byte m w l) [0..<n], \<exists>i<n. covers w l i)"
    by (rule satisfy_load) (use assms u nz in \<open>auto simp: fits_def src\<close>)
  moreover have "map (loaded_byte m w l) [0..<n] = take n (drop k data)"
    by (rule nth_equalityI) (use c(2) assms(5) in auto)
  moreover have "\<exists>i<n. covers w l i" using c(1) assms(6) by blast
  ultimately show ?thesis by simp
qed

section \<open>Properties\<close>

text \<open>
  C1. A store and a load that reads from it: after the store of a write event, any number of
  further stores of other events, fewer than 39 of them to the same address, and any change of the
  memory and of the other tables, a load whose edge comes from that event and that lies inside the
  stored range returns exactly the stored bytes, at once, and its thread waits no more.
\<close>
theorem sched_replays_reads_from:
  assumes g: "current_graph st = Some g" "recording_graph st = None" "graph_inv g"
    and w: "find (\<lambda>m. node_key m = event_key aw) (eg_nodes g) = Some w" "n_type w \<in> {EG_OP_WRITE, EG_OP_RMW}" "n_id w \<noteq> 0"
    and r: "find (\<lambda>m. node_key m = event_key ar) (eg_nodes g) = Some r" "n_type r \<in> {EG_OP_READ, EG_OP_RMW}"
      "find_rf_source (Some g) (n_id r) = n_id w" "thread_slot (a_tid ar) = Some s"
    and range: "a_addr aw \<noteq> 0" "fits (a_addr aw) (length data)" "a_addr ar = a_addr aw + of_nat k" "k + n \<le> length data" "0 < n"
    and hist: "hist_inv (hist st)" "hist_grants_all (mem_hist env)"
    and later: "\<forall>c\<in>set cs. call_gnid c \<noteq> n_id w" "length (filter (\<lambda>c. call_addr c = a_addr aw) cs) < 39"
  shows "\<exists>st1. scheduler_on_store_bytes_ex env aw (Some data) st = Returns (Replies () st1) \<and>
    (\<forall>st2. current_graph st2 = Some g \<longrightarrow> recording_graph st2 = None \<longrightarrow>
       store_calls mem cs (hist st1) = Returns (hist st2) \<longrightarrow>
       (\<exists>st3. scheduler_on_load_bytes_ex env ar n rnd st2 = Returns (Replies (Some (take n (drop k data))) st3) \<and>
          waiting_status (thr st3) s = 0))"
proof -
  have ne: "data \<noteq> []" using range by auto
  obtain st1 we where s1: "scheduler_on_store_bytes_ex env aw (Some data) st = Returns (Replies () st1)"
    and inv1: "hist_inv (hist st1)" and gl: "global_history (hist st1) = [] @ we # tl (global_history (hist st1))"
    and we: "we_gnid we = n_id w" "we_addr we = a_addr aw" "we_bytes we = Some data"
    and wr: "writes_of (a_addr aw) (hist st1) = we # tl (writes_of (a_addr aw) (hist st1))"
    using store_known [OF g w(1,2) hist ne] by (metis append_Nil)
  have "\<exists>st3. scheduler_on_load_bytes_ex env ar n rnd st2 = Returns (Replies (Some (take n (drop k data))) st3) \<and>
      waiting_status (thr st3) s = 0"
    if st2: "current_graph st2 = Some g" "recording_graph st2 = None" "store_calls mem cs (hist st1) = Returns (hist st2)" for st2
  proof -
    have "find_write_in_history (hist st2) (we_gnid we) = Some we"
    proof (rule entry_kept [OF st2(3) inv1 gl, of 0])
      show "0 < length (writes_of (we_addr we) (hist st1))" "writes_of (we_addr we) (hist st1) ! 0 = we"
        unfolding we(2) by (subst wr, simp)+
    qed (use we later in auto)
    moreover have "satisfy_load_from_write (ram st2) n (a_addr ar) we = (take n (drop k data), True)"
      by (rule satisfy_stored) (use range we in auto)
    ultimately show ?thesis using load_known [OF st2(1,2) g(3) r(1-3) w(3) _ r(4)] we(1) by simp
  qed
  then show ?thesis using s1 by blast
qed

text \<open>The graph with one write and one read of it, and the events of two threads.\<close>

definition replaying :: "eg_graph \<Rightarrow> sched" where
  "replaying g = (recording g)\<lparr>current_graph := Some g, recording_graph := None\<rparr>"

definition write_args :: event_args where
  "write_args = \<lparr>a_addr = 8192, a_order = 3, a_uid = 7, a_tid = 0, a_loc = 5, a_visit = 1\<rparr>"

definition read_args :: event_args where
  "read_args = \<lparr>a_addr = 8193, a_order = 2, a_uid = 8, a_tid = 1, a_loc = 5, a_visit = 1\<rparr>"

lemma write_read_graph:
  "\<exists>g. graph_inv g \<and> rf_edges g = [\<lparr>src_id = 1, dst_id = 2\<rparr>] \<and>
    eg_nodes g = map new_node [(1, (0, 7, 1), 5, EG_OP_WRITE, None, 0), (2, (1, 8, 1), 5, EG_OP_READ, None, 0)]"
proof -
  let ?cs = "[(1, (0, 7, 1), 5, EG_OP_WRITE, None, 0), (2, (1, 8, 1), 5, EG_OP_READ, None, 0)] :: add_call list"
  obtain g0 where "eg_create ample = Some g0" by (simp add: eg_create_def ample_def)
  then have g0: "graph_inv g0" "eg_nodes g0 = []" using create_inv by blast+
  then obtain g where "graph_inv g" "eg_nodes g = map new_node ?cs"
    using add_calls_cases [of g0 ?cs ample] by (auto simp: grants_all_def ample_def simp del: add_calls.simps)
  then show ?thesis by (intro exI [of _ "g\<lparr>rf_edges := [\<lparr>src_id = 1, dst_id = 2\<rparr>]\<rparr>"]) (simp add: graph_inv_def)
qed

lemma no_history_inv: "hist_inv no_history"
  by (simp add: hist_inv_def no_history_def newest_first_def writes_of_def arena_ok_def)

theorem sched_replays_reads_from_witness:
  "\<exists>g st1 st3. scheduler_on_store_bytes_ex env_ample write_args (Some [1, 2, 3]) (replaying g) = Returns (Replies () st1) \<and>
    scheduler_on_load_bytes_ex env_ample read_args 2 0 (st1\<lparr>current_graph := Some g, recording_graph := None\<rparr>) =
      Returns (Replies (Some [2, 3]) st3)"
proof -
  obtain g where g: "graph_inv g" "rf_edges g = [\<lparr>src_id = 1, dst_id = 2\<rparr>]"
    "eg_nodes g = map new_node [(1, (0, 7, 1), 5, EG_OP_WRITE, None, 0), (2, (1, 8, 1), 5, EG_OP_READ, None, 0)]"
    using write_read_graph by blast
  let ?w = "new_node (1, (0, 7, 1), 5, EG_OP_WRITE, None, 0)" and ?r = "new_node (2, (1, 8, 1), 5, EG_OP_READ, None, 0)"
  have w: "find (\<lambda>m. node_key m = event_key write_args) (eg_nodes g) = Some ?w" "n_type ?w \<in> {EG_OP_WRITE, EG_OP_RMW}" "n_id ?w \<noteq> 0"
    by (simp_all add: g(3) node_key_def event_key_def event_vid_def write_args_def)
  have r: "find (\<lambda>m. node_key m = event_key read_args) (eg_nodes g) = Some ?r" "n_type ?r \<in> {EG_OP_READ, EG_OP_RMW}"
    "find_rf_source (Some g) (n_id ?r) = n_id ?w" "thread_slot (a_tid read_args) = Some 1"
    by (simp_all add: g node_key_def event_key_def event_vid_def read_args_def find_rf_source_def thread_slot_def MAX_THREADS_def)
  have a: "a_addr write_args \<noteq> 0" "fits (a_addr write_args) (length [1, 2, 3 :: u8])"
    "a_addr read_args = a_addr write_args + of_nat 1" "1 + 2 \<le> length [1, 2, 3 :: u8]" "(0::nat) < 2"
    by (simp_all add: write_args_def read_args_def fits_def)
  have st: "current_graph (replaying g) = Some g" "recording_graph (replaying g) = None" "hist_inv (hist (replaying g))"
    "hist_grants_all (mem_hist env_ample)"
    by (simp_all add: replaying_def recording_def no_history_inv env_ample_def hist_grants_all_def)
  obtain st1 where s1: "scheduler_on_store_bytes_ex env_ample write_args (Some [1, 2, 3]) (replaying g) = Returns (Replies () st1)"
    and l: "\<forall>st2. current_graph st2 = Some g \<longrightarrow> recording_graph st2 = None \<longrightarrow>
      store_calls (mem_hist env_ample) [] (hist st1) = Returns (hist st2) \<longrightarrow>
      (\<exists>st3. scheduler_on_load_bytes_ex env_ample read_args 2 0 st2 = Returns (Replies (Some (take 2 (drop 1 [1, 2, 3]))) st3) \<and>
         waiting_status (thr st3) 1 = 0)"
    using sched_replays_reads_from [OF st(1,2) g(1) w r a st(3,4), of "[]" "mem_hist env_ample" 0] by auto
  have "\<exists>st3. scheduler_on_load_bytes_ex env_ample read_args 2 0 (st1\<lparr>current_graph := Some g, recording_graph := None\<rparr>) =
      Returns (Replies (Some (take 2 (drop 1 [1, 2, 3]))) st3)"
    using l [rule_format, of "st1\<lparr>current_graph := Some g, recording_graph := None\<rparr>"] by simp blast
  then show ?thesis using s1 by auto
qed

section \<open>Compare-exchange\<close>

text \<open>
  What the language allows a compare-exchange, and what the graph asks of it: a swap needs a match,
  a strong one swaps whenever there is a match, and a node of a compare-and-swap names the outcome.
\<close>

definition cas_allowed :: "bool \<Rightarrow> bool \<Rightarrow> bool \<Rightarrow> bool" where
  "cas_allowed is_weak matched swapped \<longleftrightarrow> (swapped \<longrightarrow> matched) \<and> (is_weak \<or> swapped = matched)"

definition cas_required :: "eg_node option \<Rightarrow> bool \<Rightarrow> bool" where
  "cas_required node swapped \<longleftrightarrow> (case node of None \<Rightarrow> True
     | Some m \<Rightarrow> (n_type m = EG_OP_CAS_SUCCESS \<longrightarrow> swapped) \<and> (n_type m = EG_OP_CAS_FAIL \<longrightarrow> \<not> swapped))"

lemma cas_decision_spec:
  "case cas_decision node is_weak matched of
     Some d \<Rightarrow> cas_allowed is_weak matched d \<and> cas_required node d
   | None \<Rightarrow> \<forall>d. \<not> (cas_allowed is_weak matched d \<and> cas_required node d)"
  by (auto simp: cas_decision_def cas_allowed_def cas_required_def eg_ops Let_def split: option.splits)

lemma length_value_bytes: "length (value_bytes (copy_size n) v) = copy_size n"
  by (auto simp: value_bytes_def copy_size_def)

lemma write_back_cases:
  assumes "hist_inv (hist st)"
  shows "(\<exists>w hs. write_back env a n v gid st = Returns (st\<lparr>hist := hs, ram := (if a_addr a \<noteq> 0 \<and> 0 < n
        then store_bytes (a_addr a) (value_bytes (copy_size n) v) (ram st) else ram st)\<rparr>) \<and> hist_inv hs \<and>
      global_history hs = w # tl (global_history hs) \<and> we_gnid w = gid \<and> we_addr w = a_addr a \<and>
      we_bytes w = payload_of (Some (value_bytes (copy_size n) v))) \<or>
    (write_back env a n v gid st = Exits EXIT_INVALID_INPUT \<and>
      (\<not> hist_grants_all (mem_hist env) \<or> (a_addr a \<noteq> 0 \<and> a_addr a < 4096 \<and> 0 < n)))"
proof -
  let ?bs = "value_bytes (copy_size n) v"
  let ?c = "(a_addr a, Some ?bs, a_loc a, event_key a, gid)"
  have wb: "write_back env a n v gid st = bind_outcome (store_call (mem_hist env) ?c (hist st))
      (\<lambda>h. if a_addr a \<noteq> 0 \<and> 0 < n then sched_atomic_write_bytes (a_addr a) ?bs (st\<lparr>hist := h\<rparr>) else Returns (st\<lparr>hist := h\<rparr>))"
    by (simp add: write_back_def copy_size_def Let_def)
  have ne: "?bs \<noteq> []" if "0 < n" using that length_value_bytes [of n v] by (auto simp: copy_size_def split: if_splits)
  consider (stored) hs w where "store_call (mem_hist env) ?c (hist st) = Returns hs" "hist_inv hs" "made_by ?c w"
      "\<exists>P. global_history hs = w # filter P (global_history (hist st))"
    | (full) "store_call (mem_hist env) ?c (hist st) = Exits EXIT_INVALID_INPUT" "\<not> hist_grants_all (mem_hist env)"
    using add_history_cases [OF assms, of "mem_hist env" ?c] by blast
  then show ?thesis
  proof cases
    case stored
    have w: "we_gnid w = gid" "we_addr w = a_addr a" "we_bytes w = payload_of (Some ?bs)" "global_history hs = w # tl (global_history hs)"
      using stored(3,4) by (cases "event_key a"; auto)+
    show ?thesis
    proof (cases "a_addr a \<noteq> 0 \<and> 0 < n \<and> a_addr a < 4096")
      case True
      then show ?thesis using ne stored(1) by (simp add: wb sched_atomic_write_bytes_def)
    next
      case False
      then have "write_back env a n v gid st = Returns (st\<lparr>hist := hs, ram := (if a_addr a \<noteq> 0 \<and> 0 < n
          then store_bytes (a_addr a) ?bs (ram st) else ram st)\<rparr>)"
        using stored(1) by (auto simp: wb sched_atomic_write_bytes_def)
      then show ?thesis using stored(2) w by blast
    qed
  qed (simp add: wb)
qed

text \<open>
  C5. The end of a compare-exchange, for any event of the graph or none, strong or weak, whether its
  read was forced or not: it returns the value read and an outcome that both the language allows
  and the graph asks for, or ends the run as not instantiable exactly when there is no such
  outcome. A swap leaves the new value as the newest write of the event and in memory; without a
  swap nothing changes.
\<close>
theorem sched_cas_outcome:
  assumes "recording_graph st = None" and "hist_inv (hist st)"
  shows "case finish_cmpxchg env a n compare_val new_val is_weak node we old_buf st of
      Returns (Replies (v, swapped) st') \<Rightarrow>
        v = bytes_to_intptr (Some old_buf) \<and> cas_allowed is_weak (v = compare_val) swapped \<and> cas_required node swapped \<and>
        (if swapped
         then we_gnid (hd (global_history (hist st'))) = node_id_of node \<and>
           we_bytes (hd (global_history (hist st'))) = payload_of (Some (value_bytes (copy_size n) new_val)) \<and>
           ram st' = (if a_addr a \<noteq> 0 \<and> 0 < n then store_bytes (a_addr a) (value_bytes (copy_size n) new_val) (ram st) else ram st)
         else st' = st)
    | Exits c \<Rightarrow>
        (c = WMM_EXIT_NOT_INSTANTIABLE \<and>
          (\<forall>d. \<not> (cas_allowed is_weak (bytes_to_intptr (Some old_buf) = compare_val) d \<and> cas_required node d))) \<or>
        (c = EXIT_INVALID_INPUT \<and> (\<not> hist_grants_all (mem_hist env) \<or> (a_addr a \<noteq> 0 \<and> a_addr a < 4096 \<and> 0 < n)))
    | _ \<Rightarrow> False"
proof -
  let ?m = "bytes_to_intptr (Some old_buf) = compare_val"
  have e: "(case we of Some w \<Rightarrow> if recording_graph st \<noteq> None \<and> 0 \<noteq> 0 then record_edge env (we_gnid w) 0 st else Returns st
      | None \<Rightarrow> record_latest_edge env a n 0 st) = Returns st"
    by (simp add: record_latest_edge_def split: option.split)
  have gid: "(case node of None \<Rightarrow> 0 | Some m \<Rightarrow> n_id m) = node_id_of node" by (simp add: node_id_of_def)
  show ?thesis
  proof (cases "cas_decision node is_weak ?m")
    case None
    then show ?thesis using cas_decision_spec [where node = node and is_weak = is_weak and matched = ?m] by (simp add: finish_cmpxchg_def)
  next
    case (Some d)
    then have ok: "cas_allowed is_weak ?m d" "cas_required node d" using cas_decision_spec [where node = node and is_weak = is_weak and matched = ?m] by simp_all
    have f: "finish_cmpxchg env a n compare_val new_val is_weak node we old_buf st =
        (if d then bind_outcome (write_back env a n new_val (node_id_of node) st)
                (\<lambda>st. Returns (Replies (bytes_to_intptr (Some old_buf), True) st))
         else Returns (Replies (bytes_to_intptr (Some old_buf), False) st))"
      using Some assms(1) by (simp add: finish_cmpxchg_def Let_def e gid record_latest_edge_def split: option.split)
    show ?thesis
    proof (cases d)
      case True
      show ?thesis
        using write_back_cases [OF assms(2), of env a n new_val "node_id_of node"]
      proof (elim disjE exE conjE)
        fix w hs
        assume "write_back env a n new_val (node_id_of node) st = Returns (st\<lparr>hist := hs, ram := (if a_addr a \<noteq> 0 \<and> 0 < n
          then store_bytes (a_addr a) (value_bytes (copy_size n) new_val) (ram st) else ram st)\<rparr>)"
          "global_history hs = w # tl (global_history hs)" "we_gnid w = node_id_of node"
          "we_bytes w = payload_of (Some (value_bytes (copy_size n) new_val))"
        moreover from this(2) have "hd (global_history hs) = w" by (metis list.sel(1))
        ultimately show ?thesis using ok True by (simp add: f)
      qed (use True in \<open>simp_all add: f\<close>)
    qed (use ok in \<open>simp add: f\<close>)
  qed
qed

text \<open>A weak compare-exchange that matches, on a node that asks for failure.\<close>

theorem sched_cas_outcome_witness:
  "case finish_cmpxchg env_ample write_args 1 5 9 True
      (Some (new_node (1, (0, 7, 1), 5, EG_OP_CAS_FAIL, None, 0))) None [5] ((recording doubled_edge)\<lparr>recording_graph := None\<rparr>) of
    Returns (Replies (v, swapped) st') \<Rightarrow> v = 5 \<and> \<not> swapped \<and> st' = (recording doubled_edge)\<lparr>recording_graph := None\<rparr>
  | _ \<Rightarrow> False"
proof -
  let ?st = "(recording doubled_edge)\<lparr>recording_graph := None\<rparr>"
  let ?n = "Some (new_node (1, (0, 7, 1), 5, EG_OP_CAS_FAIL, None, 0))"
  have st: "recording_graph ?st = None" "hist_inv (hist ?st)" by (simp_all add: recording_def no_history_inv)
  have b: "bytes_to_intptr (Some [5]) = 5" by (simp add: bytes_to_intptr_def)
  have q: "\<not> (\<forall>d. \<not> (cas_allowed True True d \<and> cas_required ?n d))" "cas_required ?n d \<Longrightarrow> \<not> d" for d
    by (auto simp: cas_allowed_def cas_required_def eg_ops)
  have g: "hist_grants_all (mem_hist env_ample)" "\<not> a_addr write_args < 4096"
    by (simp_all add: env_ample_def hist_grants_all_def write_args_def)
  show ?thesis
    using sched_cas_outcome [OF st, where env = env_ample and a = write_args and n = 1 and compare_val = 5 and new_val = 9 and
      is_weak = True and node = ?n and we = None and old_buf = "[5]"] q g unfolding b
    by (auto split: outcome.splits reply.splits prod.splits if_splits)
qed

end
