(* ===== verification/Hooks.thy ===== *)
theory Hooks imports SchedReplay begin

text \<open>
  The entry points the instrumented program calls (\<^verbatim>\<open>src/wmm-runtime/wmm_hooks.c\<close>): every
  dynamic event gets a visit number per instruction and thread, is handed to the scheduler, and the
  program's memory is kept in step with what the scheduler answers. The wrappers of \<open>pthread_create\<close>
  and \<open>pthread_join\<close> keep the scheduler's thread tables. Log output is left out, except that it
  counts a visit when no event is being handled.
\<close>

section \<open>State\<close>

text \<open>The thread-local variables.\<close>

record tls =
  visit_nodes :: "(u64 \<times> u64) list"
  fallback_visit_id :: u64
  tls_thread_id :: u64
  tls_event_uid :: u64
  tls_event_thread_id :: u64
  tls_event_loc_id :: u64
  tls_event_visit_id :: u64
  tls_event_ctx_valid :: bool

datatype access_mode = NON_ATOMIC | RELAXED | ACQUIRE | RELEASE | ACQ_REL | SC

definition mode_number :: "access_mode \<Rightarrow> nat" where
  "mode_number m = (case m of NON_ATOMIC \<Rightarrow> 0 | RELAXED \<Rightarrow> 1 | ACQUIRE \<Rightarrow> 2 | RELEASE \<Rightarrow> 3 | ACQ_REL \<Rightarrow> 4 | SC \<Rightarrow> 5)"

definition wmm_order_from_index :: "s32 \<Rightarrow> access_mode" where
  "wmm_order_from_index i =
     (if i = 0 then RELAXED else if i = 1 then ACQUIRE else if i = 2 then ACQUIRE else if i = 3 then RELEASE
      else if i = 4 then ACQ_REL else if i = 5 then SC else SC)"

text \<open>The memory orders of the compiler, by number.\<close>

definition wmm_to_gcc_order :: "access_mode \<Rightarrow> nat" where
  "wmm_to_gcc_order m = (case m of NON_ATOMIC \<Rightarrow> 0 | RELAXED \<Rightarrow> 0 | ACQUIRE \<Rightarrow> 2 | RELEASE \<Rightarrow> 3 | ACQ_REL \<Rightarrow> 4 | SC \<Rightarrow> 5)"

definition sched_to_gcc_order :: "access_mode \<Rightarrow> nat" where
  "sched_to_gcc_order m = (case m of NON_ATOMIC \<Rightarrow> 0 | RELAXED \<Rightarrow> 0 | ACQUIRE \<Rightarrow> 2 | RELEASE \<Rightarrow> 3 | ACQ_REL \<Rightarrow> 4 | SC \<Rightarrow> 5)"

section \<open>Visits and the event being handled\<close>

fun bump_visit :: "u64 \<Rightarrow> (u64 \<times> u64) list \<Rightarrow> (u64 \<times> (u64 \<times> u64) list) option" where
  "bump_visit uid [] = None"
| "bump_visit uid ((u, c) # vs) =
     (if u = uid then Some (c + 1, (u, c + 1) # vs)
      else case bump_visit uid vs of None \<Rightarrow> None | Some (r, vs) \<Rightarrow> Some (r, (u, c) # vs))"

text \<open>\<open>granted\<close> tells whether there is memory for a new counter.\<close>

definition wmm_next_visit_id :: "bool \<Rightarrow> u64 \<Rightarrow> tls \<Rightarrow> u64 \<times> tls" where
  "wmm_next_visit_id granted uid t =
     (case bump_visit uid (visit_nodes t) of
        Some (c, vs) \<Rightarrow> (c, t\<lparr>visit_nodes := vs\<rparr>)
      | None \<Rightarrow>
          (if granted then (1, t\<lparr>visit_nodes := (uid, 1) # visit_nodes t\<rparr>)
           else (fallback_visit_id t + 1, t\<lparr>fallback_visit_id := fallback_visit_id t + 1\<rparr>)))"

definition wmm_free_visit_state :: "tls \<Rightarrow> tls" where
  "wmm_free_visit_state t = t\<lparr>visit_nodes := [], fallback_visit_id := 0, tls_event_visit_id := 0\<rparr>"

definition wmm_set_event_context :: "bool \<Rightarrow> u64 \<Rightarrow> u64 \<Rightarrow> tls \<Rightarrow> tls" where
  "wmm_set_event_context granted uid loc_id t =
     (let t = t\<lparr>tls_event_uid := uid, tls_event_thread_id := tls_thread_id t, tls_event_loc_id := loc_id\<rparr>;
          (v, t) = wmm_next_visit_id granted uid t
      in t\<lparr>tls_event_visit_id := v, tls_event_ctx_valid := True\<rparr>)"

definition wmm_clear_event_context :: "tls \<Rightarrow> tls" where
  "wmm_clear_event_context t = t\<lparr>tls_event_visit_id := 0, tls_event_ctx_valid := False\<rparr>"

text \<open>What logging an event of the program changes.\<close>

definition wmm_log_runtime :: "bool \<Rightarrow> tls \<Rightarrow> tls" where
  "wmm_log_runtime granted t = (if tls_event_ctx_valid t then t else snd (wmm_next_visit_id granted 0 t))"

definition context_args :: "tls \<Rightarrow> ptr \<Rightarrow> access_mode \<Rightarrow> event_args" where
  "context_args t addr m = \<lparr>a_addr = addr, a_order = mode_number m, a_uid = tls_event_uid t, a_tid = tls_event_thread_id t,
     a_loc = tls_event_loc_id t, a_visit = tls_event_visit_id t\<rparr>"

section \<open>Instrumented accesses\<close>

fun bind_reply :: "'a reply outcome \<Rightarrow> ('a \<Rightarrow> sched \<Rightarrow> 'b reply outcome) \<Rightarrow> 'b reply outcome" where
  "bind_reply (Returns (Replies r st)) go = go r st"
| "bind_reply (Returns (Waits pd st)) go = Returns (Waits pd st)"
| "bind_reply (Returns (Blocks st)) go = Returns (Blocks st)"
| "bind_reply (Exits c) go = Exits c"
| "bind_reply Diverges go = Diverges"

definition wmm_atomic_read_bytes :: "ptr \<Rightarrow> nat \<Rightarrow> sched \<Rightarrow> u8 list outcome" where
  "wmm_atomic_read_bytes addr n st =
     (if addr < 4096 then (if 0 < n then Exits EXIT_INVALID_INPUT else Returns [])
      else Returns (map (\<lambda>i. ram st (addr + of_nat i)) [0..<n]))"

definition wmm_atomic_write_bytes :: "ptr \<Rightarrow> u8 list \<Rightarrow> sched \<Rightarrow> sched outcome" where
  "wmm_atomic_write_bytes addr bs st =
     (if addr < 4096 then (if bs \<noteq> [] then Exits EXIT_INVALID_INPUT else Returns st)
      else Returns (st\<lparr>ram := store_bytes addr bs (ram st)\<rparr>))"

text \<open>The size of an access: none at the null pointer, and the run ends in the rest of the first page.\<close>

definition checked_size :: "ptr \<Rightarrow> nat \<Rightarrow> nat outcome" where
  "checked_size addr n = (if addr < 4096 \<and> 0 < n then Exits EXIT_INVALID_INPUT else Returns (if addr = 0 then 0 else n))"

text \<open>
  The end of a load: a value the scheduler gave is written to memory, otherwise memory is read.
  \<open>granted\<close> and \<open>grants_buffer\<close> tell whether there is memory for a visit counter and for a
  buffer of more than 32 bytes.
\<close>

definition finish_instrument_load :: "ptr \<Rightarrow> nat \<Rightarrow> tls \<Rightarrow> u8 list option \<Rightarrow> sched \<Rightarrow> (u64 \<times> tls) reply outcome" where
  "finish_instrument_load addr n t forced st =
     (let end = (\<lambda>buf st. Returns (Replies (bytes_to_intptr (Some buf), wmm_clear_event_context t) st))
      in case forced of
           Some buf \<Rightarrow> if addr \<noteq> 0 then bind_outcome (wmm_atomic_write_bytes addr buf st) (end buf) else end buf st
         | None \<Rightarrow> if addr \<noteq> 0 then bind_outcome (wmm_atomic_read_bytes addr n st) (\<lambda>buf. end buf st) else end [] st)"

definition instrument_load :: "env \<Rightarrow> bool \<Rightarrow> bool \<Rightarrow> u64 \<Rightarrow> ptr \<Rightarrow> s32 \<Rightarrow> u64 \<Rightarrow> nat \<Rightarrow> nat \<Rightarrow> tls \<Rightarrow> sched \<Rightarrow>
    (u64 \<times> tls) reply outcome" where
  "instrument_load env granted grants_buffer uid addr order loc_id value_size r t st =
     (let t = wmm_set_event_context granted uid loc_id t
      in bind_outcome (checked_size addr value_size) (\<lambda>n.
           if 32 < n \<and> \<not> grants_buffer then Returns (Replies (0, wmm_clear_event_context t) st)
           else bind_reply (scheduler_on_load_bytes_ex env (context_args t addr (wmm_order_from_index order)) n r st)
                  (finish_instrument_load addr n t)))"

text \<open>The bytes of a store: those of the value, or those in memory for an initialised global.\<close>

definition store_buffer :: "bool \<Rightarrow> ptr \<Rightarrow> nat \<Rightarrow> u64 \<Rightarrow> sched \<Rightarrow> u8 list" where
  "store_buffer is_global_init addr n v st =
     (if is_global_init \<and> addr \<noteq> 0 then map (\<lambda>i. ram st (addr + of_nat i)) [0..<n]
      else take n (le_bytes 8 (unat v)) @ replicate (n - 8) 0)"

definition instrument_store :: "env \<Rightarrow> bool \<Rightarrow> bool \<Rightarrow> u64 \<Rightarrow> ptr \<Rightarrow> u64 \<Rightarrow> s32 \<Rightarrow> u64 \<Rightarrow> u64 \<Rightarrow> nat \<Rightarrow> tls \<Rightarrow> sched \<Rightarrow>
    tls reply outcome" where
  "instrument_store env granted grants_buffer uid addr v order thread_id loc_id value_size t st =
     (let t = wmm_set_event_context granted uid loc_id t
      in bind_outcome (checked_size addr value_size) (\<lambda>n.
           if 32 < n \<and> \<not> grants_buffer then Returns (Replies (wmm_clear_event_context t) st)
           else let buf = store_buffer (thread_id = - 1) addr n v st
                in bind_reply (scheduler_on_store_bytes_ex env (context_args t addr (wmm_order_from_index order)) (Some buf) st)
                     (\<lambda>_ st. bind_outcome (if addr \<noteq> 0 \<and> 0 < n then wmm_atomic_write_bytes addr buf st else Returns st)
                        (\<lambda>st. Returns (Replies (wmm_clear_event_context t) st)))))"

definition instrument_rmw :: "env \<Rightarrow> bool \<Rightarrow> u64 \<Rightarrow> ptr \<Rightarrow> u32 \<Rightarrow> u64 \<Rightarrow> s32 \<Rightarrow> u64 \<Rightarrow> nat \<Rightarrow> tls \<Rightarrow> sched \<Rightarrow>
    (u64 \<times> tls) reply outcome" where
  "instrument_rmw env granted uid addr opn v order loc_id value_size t st =
     (let t = wmm_set_event_context granted uid loc_id t
      in bind_outcome (checked_size addr value_size) (\<lambda>n.
           bind_reply (scheduler_on_rmw_bytes_ex env (context_args t addr (wmm_order_from_index order)) n opn v st)
             (\<lambda>old st. Returns (Replies (old, wmm_clear_event_context t) st))))"

text \<open>The result is the old value and whether the swap was done.\<close>

definition wmm_cmpxchg_common :: "env \<Rightarrow> bool \<Rightarrow> u64 \<Rightarrow> ptr \<Rightarrow> u64 \<Rightarrow> u64 \<Rightarrow> s32 \<Rightarrow> u64 \<Rightarrow> nat \<Rightarrow> bool \<Rightarrow> tls \<Rightarrow> sched \<Rightarrow>
    (u64 \<times> bool \<times> tls) reply outcome" where
  "wmm_cmpxchg_common env granted uid addr compare_val new_val order loc_id value_size is_weak t st =
     (let t = wmm_set_event_context granted uid loc_id t
      in bind_outcome (checked_size addr value_size) (\<lambda>n.
           bind_reply (scheduler_on_cmpxchg_bytes_ex env (context_args t addr (wmm_order_from_index order)) n compare_val new_val is_weak st)
             (\<lambda>(old, success) st. Returns (Replies (old, success, wmm_clear_event_context t) st))))"

definition instrument_cmpxchg_strong where
  "instrument_cmpxchg_strong env granted uid addr compare_val new_val order loc_id value_size t st =
     wmm_cmpxchg_common env granted uid addr compare_val new_val order loc_id value_size False t st"

definition instrument_cmpxchg_weak where
  "instrument_cmpxchg_weak env granted uid addr compare_val new_val order loc_id value_size t st =
     wmm_cmpxchg_common env granted uid addr compare_val new_val order loc_id value_size True t st"

definition instrument_fence :: "env \<Rightarrow> bool \<Rightarrow> u64 \<Rightarrow> s32 \<Rightarrow> tls \<Rightarrow> sched \<Rightarrow> tls reply outcome" where
  "instrument_fence env granted uid order t st =
     (let t = wmm_set_event_context granted uid 0 t
      in bind_reply (scheduler_on_fence_ex env (context_args t 0 (wmm_order_from_index order)) st)
           (\<lambda>_ st. Returns (Replies (wmm_clear_event_context (wmm_log_runtime granted t)) st)))"

text \<open>The start and the end of a function count a visit and log.\<close>

definition instrument_sop :: "bool \<Rightarrow> u64 \<Rightarrow> tls \<Rightarrow> tls" where
  "instrument_sop granted uid t = wmm_clear_event_context (wmm_log_runtime granted (wmm_set_event_context granted uid 0 t))"

definition instrument_eop :: "bool \<Rightarrow> u64 \<Rightarrow> tls \<Rightarrow> tls" where
  "instrument_eop granted uid t = wmm_clear_event_context (wmm_log_runtime granted (wmm_set_event_context granted uid 0 t))"

section \<open>Direct accesses\<close>

text \<open>
  The entry points that do not set an event: they hand the scheduler the event set last. An access
  of \<open>n\<close> bytes (1, 2, 4 or 8; the plain, the volatile and the atomic ones of a size are the same
  code up to the order) is eight bytes wide for the scheduler.
\<close>

definition ram_value :: "ptr \<Rightarrow> nat \<Rightarrow> sched \<Rightarrow> u64" where
  "ram_value addr n st = bytes_to_intptr (Some (map (\<lambda>i. ram st (addr + of_nat i)) [0..<n]))"

definition ram_store :: "ptr \<Rightarrow> nat \<Rightarrow> u64 \<Rightarrow> sched \<Rightarrow> sched" where
  "ram_store addr n v st = st\<lparr>ram := store_bytes addr (take n (le_bytes 8 (unat v))) (ram st)\<rparr>"

definition wmm_sized_load :: "env \<Rightarrow> bool \<Rightarrow> nat \<Rightarrow> ptr \<Rightarrow> access_mode \<Rightarrow> nat \<Rightarrow> tls \<Rightarrow> sched \<Rightarrow> (u64 \<times> tls) reply outcome" where
  "wmm_sized_load env granted n addr m r t st =
     bind_reply (scheduler_on_load_ex env (context_args t addr m) r st)
       (\<lambda>simulated st. case simulated of
          Some buf \<Rightarrow> Returns (Replies (take_bit (8 * n) (bytes_to_intptr (Some buf)), wmm_log_runtime granted t) st)
        | None \<Rightarrow> Returns (Replies (ram_value addr n st, wmm_log_runtime granted t) st))"

definition wmm_sized_store :: "env \<Rightarrow> bool \<Rightarrow> nat \<Rightarrow> ptr \<Rightarrow> u64 \<Rightarrow> access_mode \<Rightarrow> tls \<Rightarrow> sched \<Rightarrow> tls reply outcome" where
  "wmm_sized_store env granted n addr v m t st =
     bind_reply (scheduler_on_store_ex env (context_args t addr m) v st)
       (\<lambda>_ st. Returns (Replies (wmm_log_runtime granted t) (ram_store addr n v st)))"

definition wmm_load :: "env \<Rightarrow> bool \<Rightarrow> ptr \<Rightarrow> access_mode \<Rightarrow> nat \<Rightarrow> tls \<Rightarrow> sched \<Rightarrow> (u64 \<times> tls) reply outcome" where
  "wmm_load env granted obj m r t st =
     bind_reply (scheduler_on_load_ex env (context_args t obj m) r st)
       (\<lambda>simulated st. case simulated of
          Some buf \<Rightarrow> Returns (Replies (bytes_to_intptr (Some buf), wmm_log_runtime granted t) st)
        | None \<Rightarrow> Returns (Replies (if obj \<noteq> 0 then ram_value obj 8 st else 0, wmm_log_runtime granted t) st))"

definition wmm_store :: "env \<Rightarrow> bool \<Rightarrow> ptr \<Rightarrow> u64 \<Rightarrow> access_mode \<Rightarrow> tls \<Rightarrow> sched \<Rightarrow> tls reply outcome" where
  "wmm_store env granted obj v m t st =
     bind_reply (scheduler_on_store_ex env (context_args t obj m) v st)
       (\<lambda>_ st. Returns (Replies (wmm_log_runtime granted t) (if obj \<noteq> 0 then ram_store obj 8 v st else st)))"

text \<open>Exchange and the fetch operations: the memory first, then the scheduler is told of the store.\<close>

definition wmm_update :: "env \<Rightarrow> bool \<Rightarrow> (u64 \<Rightarrow> u64) \<Rightarrow> ptr \<Rightarrow> access_mode \<Rightarrow> tls \<Rightarrow> sched \<Rightarrow> (u64 \<times> tls) reply outcome" where
  "wmm_update env granted f obj m t st =
     (let ret = ram_value obj 8 st
      in bind_reply (scheduler_on_store_ex env (context_args t obj m) (f ret) (ram_store obj 8 (f ret) st))
           (\<lambda>_ st. Returns (Replies (ret, wmm_log_runtime granted t) st)))"

definition wmm_exchange where "wmm_exchange env granted obj v m t st = wmm_update env granted (\<lambda>_. v) obj m t st"
definition wmm_fetch_add where "wmm_fetch_add env granted obj v m t st = wmm_update env granted (\<lambda>x. x + v) obj m t st"
definition wmm_fetch_sub where "wmm_fetch_sub env granted obj v m t st = wmm_update env granted (\<lambda>x. x - v) obj m t st"
definition wmm_fetch_or where "wmm_fetch_or env granted obj v m t st = wmm_update env granted (\<lambda>x. x OR v) obj m t st"
definition wmm_fetch_xor where "wmm_fetch_xor env granted obj v m t st = wmm_update env granted (\<lambda>x. x XOR v) obj m t st"
definition wmm_fetch_and where "wmm_fetch_and env granted obj v m t st = wmm_update env granted (\<lambda>x. x AND v) obj m t st"

text \<open>
  The result of a compare-exchange is the outcome and the value left in \<open>expected\<close>; \<open>spurious\<close>
  is whether the machine lets a weak one fail.
\<close>

definition wmm_compare_exchange :: "env \<Rightarrow> bool \<Rightarrow> bool \<Rightarrow> ptr \<Rightarrow> u64 \<Rightarrow> u64 \<Rightarrow> access_mode \<Rightarrow> tls \<Rightarrow> sched \<Rightarrow>
    (bool \<times> u64 \<times> tls) reply outcome" where
  "wmm_compare_exchange env granted spurious obj expected desired succ t st =
     (let old = ram_value obj 8 st
      in if old = expected \<and> \<not> spurious
         then bind_reply (scheduler_on_store_ex env (context_args t obj succ) desired (ram_store obj 8 desired st))
                (\<lambda>_ st. Returns (Replies (True, expected, wmm_log_runtime granted t) st))
         else Returns (Replies (False, old, wmm_log_runtime granted t) st))"

definition wmm_compare_exchange_strong where
  "wmm_compare_exchange_strong env granted obj expected desired succ t st =
     wmm_compare_exchange env granted False obj expected desired succ t st"

definition wmm_compare_exchange_weak where
  "wmm_compare_exchange_weak env granted spurious obj expected desired succ t st =
     wmm_compare_exchange env granted spurious obj expected desired succ t st"

definition wmm_atomic_flag_test_and_set :: "env \<Rightarrow> bool \<Rightarrow> ptr \<Rightarrow> access_mode \<Rightarrow> tls \<Rightarrow> sched \<Rightarrow> (bool \<times> tls) reply outcome" where
  "wmm_atomic_flag_test_and_set env granted obj m t st =
     (let ret = (ram st obj \<noteq> 0)
      in bind_reply (scheduler_on_store_ex env (context_args t obj m) 1 (ram_store obj 1 1 st))
           (\<lambda>_ st. Returns (Replies (ret, wmm_log_runtime granted t) st)))"

definition wmm_atomic_flag_clear :: "env \<Rightarrow> bool \<Rightarrow> ptr \<Rightarrow> access_mode \<Rightarrow> tls \<Rightarrow> sched \<Rightarrow> tls reply outcome" where
  "wmm_atomic_flag_clear env granted obj m t st =
     bind_reply (scheduler_on_store_ex env (context_args t obj m) 0 st)
       (\<lambda>_ st. Returns (Replies (wmm_log_runtime granted t) (ram_store obj 1 0 st)))"

definition wmm_thread_fence :: "env \<Rightarrow> bool \<Rightarrow> access_mode \<Rightarrow> tls \<Rightarrow> sched \<Rightarrow> tls reply outcome" where
  "wmm_thread_fence env granted m t st =
     bind_reply (scheduler_on_fence_ex env (context_args t 0 m) st)
       (\<lambda>_ st. Returns (Replies (wmm_log_runtime granted t) st))"

text \<open>The entry points of each size; \<open>n\<close> is the size in bytes and \<open>order\<close> the index of a memory order.\<close>

definition wmm_plain_load where "wmm_plain_load env granted n obj r t st = wmm_sized_load env granted n obj NON_ATOMIC r t st"
definition wmm_plain_store where "wmm_plain_store env granted n obj v t st = wmm_sized_store env granted n obj v NON_ATOMIC t st"
definition wmm_volatile_load where "wmm_volatile_load env granted n obj r t st = wmm_sized_load env granted n obj NON_ATOMIC r t st"
definition wmm_volatile_store where "wmm_volatile_store env granted n obj v t st = wmm_sized_store env granted n obj v NON_ATOMIC t st"
definition wmm_atomic_init where "wmm_atomic_init env granted n obj v t st = wmm_plain_store env granted n obj v t st"

definition wmm_atomic_load where
  "wmm_atomic_load env granted n obj order r t st = wmm_sized_load env granted n obj (wmm_order_from_index order) r t st"

definition wmm_atomic_store where
  "wmm_atomic_store env granted n obj v order t st = wmm_sized_store env granted n obj v (wmm_order_from_index order) t st"

text \<open>
  What a fetch operation tells the scheduler: operands of one and two bytes are computed as integers
  of the machine, so the result is not cut to their width.
\<close>

definition promoted :: "nat \<Rightarrow> u64 \<Rightarrow> u64" where
  "promoted n x = (if n < 4 then x else take_bit (8 * n) x)"

definition wmm_atomic_update :: "env \<Rightarrow> bool \<Rightarrow> nat \<Rightarrow> (u64 \<Rightarrow> u64) \<Rightarrow> ptr \<Rightarrow> s32 \<Rightarrow> tls \<Rightarrow> sched \<Rightarrow> (u64 \<times> tls) reply outcome" where
  "wmm_atomic_update env granted n f obj order t st =
     (let mo = wmm_order_from_index order; ret = ram_value obj n st
      in bind_reply (scheduler_on_store_ex env (context_args t obj mo) (promoted n (f ret)) (ram_store obj n (f ret) st))
           (\<lambda>_ st. Returns (Replies (ret, wmm_log_runtime granted t) st)))"

definition wmm_atomic_exchange where
  "wmm_atomic_exchange env granted n obj v order t st = wmm_atomic_update env granted n (\<lambda>_. v) obj order t st"

datatype fetch_name = FETCH_ADD | FETCH_SUB | FETCH_AND | FETCH_OR | FETCH_XOR

definition fetch_value :: "fetch_name \<Rightarrow> u64 \<Rightarrow> u64 \<Rightarrow> u64" where
  "fetch_value name ret v = (case name of FETCH_ADD \<Rightarrow> ret + v | FETCH_SUB \<Rightarrow> ret - v
     | FETCH_AND \<Rightarrow> ret AND v | FETCH_OR \<Rightarrow> ret OR v | FETCH_XOR \<Rightarrow> ret XOR v)"

definition wmm_atomic_fetch where
  "wmm_atomic_fetch env granted name n obj v order t st =
     wmm_atomic_update env granted n (\<lambda>ret. fetch_value name ret v) obj order t st"

text \<open>Both compare-exchanges of a size: the outcome and the value then found in \<open>expected\<close>.\<close>

definition sized_compare_exchange :: "env \<Rightarrow> bool \<Rightarrow> nat \<Rightarrow> ptr \<Rightarrow> u64 \<Rightarrow> u64 \<Rightarrow> s32 \<Rightarrow> tls \<Rightarrow> sched \<Rightarrow>
    (bool \<times> u64 \<times> tls) reply outcome" where
  "sized_compare_exchange env granted n obj expected desired succ t st =
     (let old = ram_value obj n st
      in if old = expected
         then bind_reply (scheduler_on_store_ex env (context_args t obj (wmm_order_from_index succ)) desired (ram_store obj n desired st))
                (\<lambda>_ st. Returns (Replies (True, expected, wmm_log_runtime granted t) st))
         else Returns (Replies (False, old, wmm_log_runtime granted t) st))"

definition wmm_atomic_compare_exchange_v1 where
  "wmm_atomic_compare_exchange_v1 env granted n obj expected desired succ t st =
     bind_reply (sized_compare_exchange env granted n obj expected desired succ t st)
       (\<lambda>(_, found, t) st. Returns (Replies (found, t) st))"

definition wmm_atomic_compare_exchange_v2 where
  "wmm_atomic_compare_exchange_v2 env granted n obj expected desired succ t st =
     sized_compare_exchange env granted n obj expected desired succ t st"

definition wmm_atomic_thread_fence :: "env \<Rightarrow> bool \<Rightarrow> s32 \<Rightarrow> tls \<Rightarrow> sched \<Rightarrow> tls reply outcome" where
  "wmm_atomic_thread_fence env granted order t st =
     bind_reply (scheduler_on_fence_ex env (context_args t 0 (wmm_order_from_index order)) st)
       (\<lambda>_ st. Returns (Replies (wmm_log_runtime granted t) st))"

section \<open>Threads\<close>

text \<open>The process-wide counter of threads and the table of their handles, 0 for none.\<close>

record process =
  global_tid_counter :: u64
  os_thread_map :: "nat \<Rightarrow> u64"

definition scheduler_thread_created :: "env \<Rightarrow> s32 \<Rightarrow> u64 \<Rightarrow> sched \<Rightarrow> sched outcome" where
  "scheduler_thread_created env tid parentid st =
     bind_outcome (add_to_all_threads (mem_tree env) (scast tid) parentid (frst st))
       (\<lambda>f. Returns (st\<lparr>thr := created_threads (sint tid) (thr st), frst := f\<rparr>))"

definition scheduler_thread_registered :: "env \<Rightarrow> s32 \<Rightarrow> sched \<Rightarrow> sched outcome" where
  "scheduler_thread_registered env tid st =
     (let st = st\<lparr>thr := registered_threads (sint tid) (thr st)\<rparr>
      in if tid = 0 then bind_outcome (add_to_all_threads (mem_tree env) (scast tid) (- 1) (frst st)) (\<lambda>f. Returns (st\<lparr>frst := f\<rparr>))
         else Returns st)"

definition unregister :: "s32 \<Rightarrow> sched \<Rightarrow> sched" where
  "unregister tid st = st\<lparr>thr := scheduler_thread_unregistered (sint tid) (thr st)\<rparr>"

definition join_wait_begin :: "s32 \<Rightarrow> sched \<Rightarrow> sched" where
  "join_wait_begin tid st = st\<lparr>thr := scheduler_thread_join_wait_begin (sint tid) (thr st)\<rparr>"

definition scheduler_thread_join_wait_end :: "s32 \<Rightarrow> s32 \<Rightarrow> sched \<Rightarrow> sched" where
  "scheduler_thread_join_wait_end tid child_tid st =
     st\<lparr>thr := join_ended_threads (sint tid) (thr st), frst := thread_joined_mark_true tid child_tid (frst st)\<rparr>"

definition wmm_thread_start :: "env \<Rightarrow> s32 \<Rightarrow> tls \<Rightarrow> sched \<Rightarrow> (tls \<times> sched) outcome" where
  "wmm_thread_start env tid t st =
     bind_outcome (scheduler_thread_registered env tid st) (\<lambda>st. Returns (t\<lparr>tls_thread_id := scast tid\<rparr>, st))"

definition wmm_thread_end :: "tls \<Rightarrow> sched \<Rightarrow> tls \<times> sched" where
  "wmm_thread_end t st = (wmm_free_visit_state t, unregister (ucast (tls_thread_id t)) st)"

text \<open>
  Creating a thread in two parts, as the new thread may run at once: before the call of the real
  \<open>pthread_create\<close>, and after it, with its result and the handle it gave.
\<close>

definition create_begin :: "env \<Rightarrow> tls \<Rightarrow> process \<Rightarrow> sched \<Rightarrow> (u64 \<times> process \<times> sched) outcome" where
  "create_begin env t pr st =
     (let tid = global_tid_counter pr + 1
      in bind_outcome (scheduler_thread_created env (ucast tid) (tls_thread_id t) st)
           (\<lambda>st. Returns (tid, pr\<lparr>global_tid_counter := tid\<rparr>, st)))"

definition create_end :: "tls \<Rightarrow> u64 \<Rightarrow> s32 \<Rightarrow> u64 \<Rightarrow> process \<Rightarrow> sched \<Rightarrow> s32 \<times> process \<times> sched" where
  "create_end t tid ret handle pr st =
     (if ret = 0
      then (0, (if unat tid < MAX_THREADS then pr\<lparr>os_thread_map := (os_thread_map pr)(unat tid := handle)\<rparr> else pr), st)
      else (ret, pr, unregister (ucast (tls_thread_id t)) st))"

text \<open>The whole call, when nothing happens in between; \<open>granted\<close> is the memory of the wrapper.\<close>

definition wmm_pthread_create :: "env \<Rightarrow> bool \<Rightarrow> s32 \<Rightarrow> u64 \<Rightarrow> tls \<Rightarrow> process \<Rightarrow> sched \<Rightarrow> (s32 \<times> process \<times> sched) outcome" where
  "wmm_pthread_create env granted ret handle t pr st =
     (if \<not> granted then Returns (- 1, pr, st)
      else bind_outcome (create_begin env t pr st) (\<lambda>(tid, pr, st). Returns (create_end t tid ret handle pr st)))"

text \<open>The search for the thread of a handle; the table may change between the turns.\<close>

fun find_child :: "(nat \<Rightarrow> u64) list \<Rightarrow> u64 \<Rightarrow> s32" where
  "find_child [] handle = - 1"
| "find_child (tbl # tbls) handle =
     (case find (\<lambda>i. tbl i = handle) [0..<MAX_THREADS] of Some i \<Rightarrow> of_nat i | None \<Rightarrow> find_child tbls handle)"

definition join_begin :: "(nat \<Rightarrow> u64) list \<Rightarrow> u64 \<Rightarrow> tls \<Rightarrow> sched \<Rightarrow> s32 \<times> sched" where
  "join_begin tbls handle t st = (find_child (take 1000 tbls) handle, join_wait_begin (ucast (tls_thread_id t)) st)"

definition join_end :: "s32 \<Rightarrow> s32 \<Rightarrow> tls \<Rightarrow> process \<Rightarrow> sched \<Rightarrow> s32 \<times> process \<times> sched" where
  "join_end ret child_tid t pr st =
     (ret, (if ret = 0 \<and> 0 \<le> sint child_tid \<and> sint child_tid < int MAX_THREADS
            then pr\<lparr>os_thread_map := (os_thread_map pr)(unat child_tid := 0)\<rparr> else pr),
      scheduler_thread_join_wait_end (ucast (tls_thread_id t)) child_tid st)"

end
