(* ===== verification/HooksLaws.thy ===== *)
theory HooksLaws imports Hooks begin

text \<open>
  What the entry points guarantee: visit numbers make the keys of a thread's events distinct, an
  instrumented store is read back by the load whose edge comes from it, and what a failed creation
  of a thread leaves behind.
\<close>

section \<open>Visit numbers\<close>

lemma bump_visit_lookup:
  "case bump_visit uid vs of
     None \<Rightarrow> map_of vs uid = None
   | Some (c, vs') \<Rightarrow> \<exists>k. map_of vs uid = Some k \<and> c = k + 1 \<and> map_of vs' = (map_of vs)(uid \<mapsto> c)"
  by (induction uid vs rule: bump_visit.induct) (auto split: option.splits simp: fun_upd_twist)

fun visit_run :: "u64 list \<Rightarrow> tls \<Rightarrow> u64 list \<times> tls" where
  "visit_run [] t = ([], t)"
| "visit_run (u # us) t = (let (v, t) = wmm_next_visit_id True u t; (vs, t) = visit_run us t in (v # vs, t))"

lemma visit_run_append:
  "visit_run (us @ ws) t = (let (vs, t) = visit_run us t; (xs, t) = visit_run ws t in (vs @ xs, t))"
  by (induction us arbitrary: t) (auto simp: Let_def split: prod.splits)

definition counts :: "u64 list \<Rightarrow> u64 \<Rightarrow> u64 option" where
  "counts us u = (if u \<in> set us then Some (of_nat (count_list us u)) else None)"

lemma next_visit_counts:
  assumes "map_of (visit_nodes t) = counts us"
  shows "\<exists>t'. wmm_next_visit_id True u t = (of_nat (count_list (us @ [u]) u), t') \<and> map_of (visit_nodes t') = counts (us @ [u])"
proof (cases "bump_visit u (visit_nodes t)")
  case None
  then have "u \<notin> set us" using bump_visit_lookup [where uid = u and vs = "visit_nodes t"] assms by (auto simp: counts_def split: if_splits)
  then show ?thesis using None assms
    by (auto simp: wmm_next_visit_id_def counts_def fun_eq_iff count_list_append)
next
  case (Some r)
  obtain c vs where r: "r = (c, vs)" by (cases r)
  have b: "counts us u = Some (c - 1)" "map_of vs = (counts us)(u \<mapsto> c)"
    using bump_visit_lookup [where uid = u and vs = "visit_nodes t"] Some assms unfolding r by auto
  then have "u \<in> set us" "c = of_nat (count_list us u) + 1" by (auto simp: counts_def split: if_splits)
  then show ?thesis using Some r b assms
    by (auto simp: wmm_next_visit_id_def counts_def fun_eq_iff count_list_append)
qed

lemma visit_run_counts:
  assumes "visit_nodes t = []"
  shows "fst (visit_run us t) = map (\<lambda>i. of_nat (count_list (take (Suc i) us) (us ! i))) [0..<length us] \<and>
    map_of (visit_nodes (snd (visit_run us t))) = counts us"
proof (induction us rule: rev_induct)
  case Nil
  then show ?case using assms by (simp add: counts_def fun_eq_iff)
next
  case (snoc u us)
  obtain vs t1 where 1: "visit_run us t = (vs, t1)" by (cases "visit_run us t")
  then have m: "map_of (visit_nodes t1) = counts us" "vs = map (\<lambda>i. of_nat (count_list (take (Suc i) us) (us ! i))) [0..<length us]"
    using snoc by simp_all
  obtain t2 where 2: "wmm_next_visit_id True u t1 = (of_nat (count_list (us @ [u]) u), t2)" "map_of (visit_nodes t2) = counts (us @ [u])"
    using next_visit_counts [OF m(1)] by blast
  show ?case using 1 2 m(2) by (simp add: visit_run_append nth_append Let_def)
qed

lemma count_list_take_mono: "i \<le> j \<Longrightarrow> count_list (take i us) u \<le> count_list (take j us) u"
  by (metis append_take_drop_id count_list_append le_add1 min.absorb1 take_take)

lemma visit_keys_differ:
  assumes "length us < 2 ^ 31" and "i < j" and "j < length us" and "us ! i = us ! j"
  shows "(of_nat (count_list (take (Suc i) us) (us ! i)) :: s32) \<noteq> of_nat (count_list (take (Suc j) us) (us ! j))"
proof -
  let ?u = "us ! j"
  have "count_list (take (Suc i) us) ?u \<le> count_list (take j us) ?u" using assms(2) by (intro count_list_take_mono) simp
  moreover have "count_list (take (Suc j) us) ?u = count_list (take j us) ?u + 1"
    using assms(3) by (simp add: take_Suc_conv_app_nth count_list_append)
  moreover have "count_list (take (Suc j) us) ?u \<le> length us"
    by (rule order_trans [OF count_le_length]) simp
  ultimately have "count_list (take (Suc i) us) ?u < count_list (take (Suc j) us) ?u" "count_list (take (Suc j) us) ?u < 2 ^ 32"
    using assms(1) by simp_all
  moreover have "unat (of_nat k :: s32) = k" if "k < 2 ^ 32" for k
    using that by (simp add: unat_of_nat take_bit_nat_eq_self)
  ultimately show ?thesis unfolding assms(4) by (metis nat_neq_iff order_less_trans)
qed

section \<open>Properties\<close>

text \<open>
  C33. Visit numbers, for any sequence of instructions a thread runs (fewer than \<open>2 ^ 31\<close>, with
  memory for the counters): an event gets the number of times its instruction has run so far, so
  no two events of the thread have the same instruction and visit in their keys.
\<close>
theorem hooks_visit_ids:
  assumes "visit_nodes t = []" and "length us < 2 ^ 31"
  shows "fst (visit_run us t) = map (\<lambda>i. of_nat (count_list (take (Suc i) us) (us ! i))) [0..<length us] \<and>
    distinct (zip us (map (ucast :: u64 \<Rightarrow> s32) (fst (visit_run us t))))"
proof -
  let ?c = "\<lambda>i. count_list (take (Suc i) us) (us ! i)"
  have r: "fst (visit_run us t) = map (\<lambda>i. of_nat (?c i)) [0..<length us]" using visit_run_counts [OF assms(1)] by blast
  have u: "(ucast (of_nat k :: u64) :: s32) = of_nat k" for k by (transfer, simp add: min_def)
  have "distinct (zip us (map (ucast :: u64 \<Rightarrow> s32) (fst (visit_run us t))))"
    unfolding r distinct_conv_nth using visit_keys_differ [OF assms(2)] u
    by (simp add: nat_neq_iff) metis
  then show ?thesis using r by blast
qed

theorem hooks_visit_ids_witness:
  "fst (visit_run [7, 8, 7] \<lparr>visit_nodes = [], fallback_visit_id = 0, tls_thread_id = 0, tls_event_uid = 0,
     tls_event_thread_id = 0, tls_event_loc_id = 0, tls_event_visit_id = 0, tls_event_ctx_valid = False\<rparr>) = [1, 1, 2]"
  using hooks_visit_ids [of "\<lparr>visit_nodes = [], fallback_visit_id = 0, tls_thread_id = 0, tls_event_uid = 0,
     tls_event_thread_id = 0, tls_event_loc_id = 0, tls_event_visit_id = 0, tls_event_ctx_valid = False\<rparr>" "[7, 8, 7]"]
  by (simp add: upt_rec)

section \<open>A thread that is created but never runs\<close>

text \<open>A call of the thread operations on another thread than that of \<open>slot\<close>.\<close>

inductive elsewhere :: "nat \<Rightarrow> threads \<Rightarrow> threads \<Rightarrow> bool" for slot where
  "table_index tid \<noteq> Some slot \<Longrightarrow> elsewhere slot t (created_threads tid t)"
| "table_index tid \<noteq> Some slot \<Longrightarrow> elsewhere slot t (registered_threads tid t)"
| "table_index tid \<noteq> Some slot \<Longrightarrow> elsewhere slot t (scheduler_thread_unregistered tid t)"
| "elsewhere slot t (scheduler_thread_join_wait_begin tid t)"
| "elsewhere slot t (join_ended_threads tid t)"
| "s \<noteq> slot \<Longrightarrow> s < MAX_THREADS \<Longrightarrow> elsewhere slot t (ensure_event_thread_active_locked s t)"
| "s \<noteq> slot \<Longrightarrow> s < MAX_THREADS \<Longrightarrow> elsewhere slot t (set_waiting s w (ensure_event_thread_active_locked s t))"
| "s \<noteq> slot \<Longrightarrow> s < MAX_THREADS \<Longrightarrow> elsewhere slot t (set_waiting s 0 t)"
| "s \<noteq> slot \<Longrightarrow> s < MAX_THREADS \<Longrightarrow> elsewhere slot t (block_thread s t)"

lemma elsewhere_step: "elsewhere slot t t' \<Longrightarrow> thread_step t t'"
  by (induction rule: elsewhere.induct) (auto intro: thread_step.intros)

lemma set_active_fields [simp]:
  "known_thread_status (set_active s t) = known_thread_status t" "active_status (set_active s t) = (active_status t)(s := True)"
  by (simp_all add: set_active_def)

lemma set_waiting_fields [simp]:
  "known_thread_status (set_waiting s w t) = known_thread_status t" "active_status (set_waiting s w t) = active_status t"
  by (simp_all add: set_waiting_def)

lemma ensure_elsewhere [simp]:
  "s \<noteq> slot \<Longrightarrow> known_thread_status (ensure_event_thread_active_locked s t) slot = known_thread_status t slot"
  "s \<noteq> slot \<Longrightarrow> active_status (ensure_event_thread_active_locked s t) slot = active_status t slot"
  by (simp_all add: ensure_event_thread_active_locked_def Let_def)

lemma elsewhere_status:
  assumes "elsewhere slot t t'"
  shows "known_thread_status t' slot = known_thread_status t slot \<and> active_status t' slot = active_status t slot"
  using assms
proof cases
  case (3 tid)
  then show ?thesis
  proof (cases "table_index tid")
    case None
    then show ?thesis using 3 by (simp add: scheduler_thread_unregistered_def)
  next
    case (Some s)
    then show ?thesis using 3 unregistered_fields(1,2) [OF Some] by auto
  qed
qed (auto simp: created_threads_def registered_threads_def clear_waits_def scheduler_thread_join_wait_begin_def
    join_ended_threads_def block_thread_def Let_def split: option.splits)

lemma elsewhere_run:
  assumes "(elsewhere slot)\<^sup>*\<^sup>* t t'"
  shows "known_thread_status t' slot = known_thread_status t slot \<and> active_status t' slot = active_status t slot \<and>
    (reachable t \<longrightarrow> reachable t')"
  using assms
proof (induction rule: rtranclp_induct)
  case (step t' t'')
  have "reachable t' \<Longrightarrow> reachable t''" using reachable.step elsewhere_step [OF step(2)] by blast
  then show ?case using step(3) elsewhere_status [OF step(2)] by simp
qed simp

lemma sint_slot:
  fixes x :: u64
  assumes "unat x < MAX_THREADS"
  shows "sint (ucast x :: s32) = int (unat x)"
proof -
  have i: "int (unat x) = uint x" by simp
  have "int (unat x) < 128" using assms unfolding MAX_THREADS_def by linarith
  then have b: "uint x < 128" "0 \<le> uint x" unfolding i by simp_all
  have "uint (ucast x :: s32) = uint x" using b by (simp add: unsigned_ucast_eq take_bit_int_eq_self)
  moreover have "signed_take_bit 31 (uint x) = uint x" using b by (intro signed_take_bit_int_eq_self) (simp_all add: order_trans [of _ 0])
  ultimately show ?thesis unfolding i by (simp add: sint_uint)
qed

lemma table_index_slot:
  fixes x :: u64
  assumes "unat x < MAX_THREADS"
  shows "table_index (sint (ucast x :: s32)) = Some (unat x)"
  using assms sint_slot [OF assms] by (simp only: table_index_Some)

text \<open>
  C34. A thread whose creation fails: when the real \<open>pthread_create\<close> fails, the wrapper takes
  the creating thread out of the tables instead of the new one. The creator is then inactive and
  unknown although it runs, the new thread stays known and inactive for ever, and whatever the other
  threads do from then on, no deadlock is ever diagnosed.
\<close>
theorem hooks_failed_create_disables_deadlock:
  assumes "reachable (thr st)" and "wmm_pthread_create env True ret handle t pr st = Returns (ret', pr', st')" and "ret \<noteq> 0"
    and "tid = unat (global_tid_counter pr + 1)" and "tid < MAX_THREADS" and "\<not> thread_ever_started (thr st) tid"
    and "creator = unat (tls_thread_id t)" and "creator < MAX_THREADS" and "creator \<noteq> tid"
    and "(elsewhere tid)\<^sup>*\<^sup>* (thr st') later"
  shows "ret' = ret \<and> \<not> active_status (thr st') creator \<and> \<not> known_thread_status (thr st') creator \<and>
    known_thread_status later tid \<and> \<not> active_status later tid \<and> \<not> should_exit_deadlock_locked mem graph c later hs"
proof -
  let ?x = "global_tid_counter pr + 1"
  have ti: "table_index (sint (ucast ?x :: s32)) = Some tid" "table_index (sint (ucast (tls_thread_id t) :: s32)) = Some creator"
    using table_index_slot assms(4,5,7,8) by simp_all
  have r: "ret' = ret" "thr st' = scheduler_thread_unregistered (sint (ucast (tls_thread_id t) :: s32))
      (created_threads (sint (ucast ?x :: s32)) (thr st))"
    using assms(2,3) by (auto simp: wmm_pthread_create_def create_begin_def scheduler_thread_created_def create_end_def
        unregister_def Let_def split: outcome.splits elim!: bind_outcome.elims)
  have inv: "threads_inv (thr st)" using assms(1) by (rule reachable_inv)
  have na: "\<not> active_status (thr st) tid" using inv assms(5,6) by (auto simp: threads_inv_def)
  have c: "created_threads (sint (ucast ?x :: s32)) (thr st) = set_known tid (thr st)"
    using ti(1) assms(6) by (simp add: created_threads_def)
  have st': "known_thread_status (thr st') = (known_thread_status (thr st))(tid := True, creator := False)"
    "active_status (thr st') = (active_status (thr st))(creator := False)"
    unfolding r(2) c using unregistered_fields(1,2) [OF ti(2)] by simp_all
  have "reachable (thr st')" unfolding r(2)
    by (rule reachable.step [OF reachable.step [OF assms(1) thread_step.created] thread_step.unregistered])
  then have later: "reachable later" "known_thread_status later tid" "\<not> active_status later tid"
    using elsewhere_run [OF assms(10)] st' na assms(9) by auto
  then have "\<not> should_exit_deadlock_locked mem graph c later hs"
    unfolding should_exit_known [OF reachable_inv [OF later(1)]] using assms(5) by (auto simp: stuck_def)
  then show ?thesis using r(1) st' later assms(9) by simp
qed

text \<open>Thread 0 fails to create thread 1.\<close>

definition tls0 :: tls where
  "tls0 = \<lparr>visit_nodes = [], fallback_visit_id = 0, tls_thread_id = 0, tls_event_uid = 0,
     tls_event_thread_id = 0, tls_event_loc_id = 0, tls_event_visit_id = 0, tls_event_ctx_valid = False\<rparr>"

definition process0 :: process where
  "process0 = \<lparr>global_tid_counter = 0, os_thread_map = (\<lambda>_. 0)\<rparr>"

definition main_running :: sched where
  "main_running = (recording doubled_edge)\<lparr>recording_graph := None, thr := registered_threads 0 init_threads\<rparr>"

theorem hooks_failed_create_disables_deadlock_witness:
  "\<exists>pr' st'. wmm_pthread_create env_ample True 11 0 tls0 process0 main_running = Returns (11, pr', st') \<and>
    \<not> known_thread_status (thr st') 0 \<and> known_thread_status (thr st') 1 \<and>
    \<not> should_exit_deadlock_locked cov_ample None no_coverage (thr st') no_history"
proof -
  have "reachable (thr main_running)" unfolding main_running_def
    using reachable.step [OF reachable.start thread_step.registered] by simp
  moreover obtain ret' pr' st' where c: "wmm_pthread_create env_ample True 11 0 tls0 process0 main_running = Returns (ret', pr', st')"
    by (simp add: wmm_pthread_create_def create_begin_def scheduler_thread_created_def create_end_def add_to_all_threads_def
        env_ample_def tree_ample_def Let_def)
  moreover have "\<not> thread_ever_started (thr main_running) 1"
    by (simp add: main_running_def registered_threads_def table_index_def MAX_THREADS_def init_threads_def set_known_def
        set_active_def clear_waits_def Let_def)
  ultimately show ?thesis
    using hooks_failed_create_disables_deadlock [of main_running env_ample 11 0 tls0 process0 ret' pr' st' 1 0 "thr st'"]
    by (auto simp: process0_def tls0_def MAX_THREADS_def)
qed

section \<open>Stored and read back\<close>

lemma take_le_bytes: "n \<le> m \<Longrightarrow> take n (le_bytes m x) = le_bytes n x"
proof (induction m arbitrary: n x)
  case (Suc m)
  then show ?case by (cases n) auto
qed simp

lemma low_bytes_value: "n \<le> 8 \<Longrightarrow> bytes_to_intptr (Some (le_bytes n (unat v))) = take_bit (8 * n) v"
proof -
  assume n: "n \<le> 8"
  have "le_nat (le_bytes n (unat v)) = take_bit (8 * n) (unat v)"
    by (simp add: le_nat_bytes take_bit_eq_mod power_mult)
  also have "\<dots> = unat (take_bit (8 * n) v)" by (simp add: unsigned_take_bit_eq)
  finally show ?thesis using n by (simp add: bytes_to_intptr_def)
qed

lemma read_stored: "length bs \<le> 2 ^ 63 \<Longrightarrow> map (\<lambda>i. store_bytes addr bs m (addr + of_nat i)) [0..<length bs] = bs"
  by (rule nth_equalityI) (simp_all add: store_bytes_def unat_of_nat take_bit_nat_eq_self)

text \<open>
  C4. An instrumented store and the instrumented load that reads from it: whatever happens to the
  memory and the tables in between, as long as the history does not change, the load returns the
  low bytes of the stored value, and leaves them in the memory at the address.
\<close>
theorem hooks_store_load_roundtrip:
  assumes g: "current_graph st = Some g" "recording_graph st = None" "graph_inv g"
    and ctx: "aw = context_args (wmm_set_event_context gw uid_w loc_w tw) addr (wmm_order_from_index order_w)"
      "ar = context_args (wmm_set_event_context gr uid_r loc_r tr) addr (wmm_order_from_index order_r)"
    and w: "find (\<lambda>m. node_key m = event_key aw) (eg_nodes g) = Some w" "n_type w \<in> {EG_OP_WRITE, EG_OP_RMW}" "n_id w \<noteq> 0"
    and r: "find (\<lambda>m. node_key m = event_key ar) (eg_nodes g) = Some r" "n_type r \<in> {EG_OP_READ, EG_OP_RMW}"
      "find_rf_source (Some g) (n_id r) = n_id w" "unat (a_tid ar) < MAX_THREADS"
    and range: "4096 \<le> addr" "fits addr n" "0 < n" "n \<le> 8" and thread: "thread \<noteq> - 1"
    and hist: "hist_inv (hist st)" "hist_grants_all (mem_hist env)"
  shows "\<exists>tw' st1. instrument_store env gw bw uid_w addr v order_w thread loc_w n tw st = Returns (Replies tw' st1) \<and>
    (\<forall>st2. current_graph st2 = Some g \<longrightarrow> recording_graph st2 = None \<longrightarrow> hist st2 = hist st1 \<longrightarrow>
       (\<exists>tr' st3. instrument_load env gr br uid_r addr order_r loc_r n rnd tr st2 = Returns (Replies (take_bit (8 * n) v, tr') st3) \<and>
          ram_value addr n st3 = take_bit (8 * n) v))"
proof -
  let ?data = "le_bytes n (unat v)"
  have nz: "addr \<noteq> 0" "\<not> addr < 4096" using range(1) by auto
  have ne: "?data \<noteq> []" using range(3) by (metis length_le_bytes length_0_conv less_numeral_extra(3))
  have addr: "a_addr aw = addr" "a_addr ar = addr" by (simp_all add: ctx context_args_def)
  have buf: "store_buffer False addr n v s = ?data" for s using range(4) by (simp add: store_buffer_def take_le_bytes)
  obtain st1 we where s1: "scheduler_on_store_bytes_ex env aw (Some ?data) st = Returns (Replies () st1)"
    and gl: "global_history (hist st1) = we # tl (global_history (hist st1))"
    and we: "we_gnid we = n_id w" "we_addr we = addr" "we_bytes we = Some ?data"
    using store_known [OF g w(1,2) hist ne] addr by metis
  let ?st1 = "st1\<lparr>ram := store_bytes addr ?data (ram st1)\<rparr>"
  have store: "instrument_store env gw bw uid_w addr v order_w thread loc_w n tw st =
      Returns (Replies (wmm_clear_event_context (wmm_set_event_context gw uid_w loc_w tw)) ?st1)"
    using range nz s1 thread
    by (simp add: instrument_store_def Let_def checked_size_def buf ctx(1) [symmetric] wmm_atomic_write_bytes_def)
  have slot: "thread_slot (a_tid ar) = Some (unat (a_tid ar))" using r(4) by (simp add: thread_slot_def)
  have "\<exists>tr' st3. instrument_load env gr br uid_r addr order_r loc_r n rnd tr st2 = Returns (Replies (take_bit (8 * n) v, tr') st3) \<and>
      ram_value addr n st3 = take_bit (8 * n) v"
    if st2: "current_graph st2 = Some g" "recording_graph st2 = None" "hist st2 = hist st1" for st2
  proof -
    have f: "find_write_in_history (hist st2) (n_id w) = Some we"
      unfolding find_write_in_history_def st2(3) by (subst gl) (simp add: we(1))
    have sat: "satisfy_load_from_write (ram st2) n (a_addr ar) we = (?data, True)"
    proof -
      have "satisfy_load_from_write (ram st2) n addr we = (take n (drop 0 ?data), True)"
        by (rule satisfy_stored) (use we(2,3) nz range in \<open>simp_all del: one_add_one\<close>)
      then show ?thesis by (simp only: addr drop_0 length_le_bytes take_all order_refl)
    qed
    obtain st' where l: "scheduler_on_load_bytes_ex env ar n rnd st2 = Returns (Replies (Some ?data) st')"
      using load_known [OF st2(1,2) g(3) r(1-3) w(3) f slot sat] by blast
    let ?st3 = "st'\<lparr>ram := store_bytes addr ?data (ram st')\<rparr>"
    have "instrument_load env gr br uid_r addr order_r loc_r n rnd tr st2 =
        Returns (Replies (take_bit (8 * n) v, wmm_clear_event_context (wmm_set_event_context gr uid_r loc_r tr)) ?st3)"
      using range nz l
      by (simp add: instrument_load_def Let_def checked_size_def ctx(2) [symmetric] finish_instrument_load_def
          wmm_atomic_write_bytes_def low_bytes_value)
    moreover have "ram_value addr n ?st3 = take_bit (8 * n) v"
    proof -
      have "map (\<lambda>i. store_bytes addr ?data (ram st') (addr + of_nat i)) [0..<length ?data] = ?data"
        by (rule read_stored) (use range(4) in simp)
      then show ?thesis using range(4) by (simp add: ram_value_def low_bytes_value)
    qed
    ultimately show ?thesis by blast
  qed
  moreover have "hist ?st1 = hist st1" by simp
  ultimately show ?thesis using store by metis
qed

text \<open>Thread 0 stores four bytes of 1000; thread 1 loads them, with the memory emptied in between.\<close>

theorem hooks_store_load_roundtrip_witness:
  "\<exists>g st1 tr' st3. instrument_store env_ample True True 7 8192 1000 3 0 5 4 tls0 (replaying g) =
      Returns (Replies (wmm_clear_event_context (wmm_set_event_context True 7 5 tls0)) st1) \<and>
    instrument_load env_ample True True 8 8192 2 5 4 0 (tls0\<lparr>tls_thread_id := 1\<rparr>) (st1\<lparr>ram := (\<lambda>_. 0), current_graph := Some g, recording_graph := None\<rparr>) =
      Returns (Replies (1000, tr') st3) \<and> ram_value 8192 4 st3 = 1000"
proof -
  obtain g where g: "graph_inv g" "rf_edges g = [\<lparr>src_id = 1, dst_id = 2\<rparr>]"
    "eg_nodes g = map new_node [(1, (0, 7, 1), 5, EG_OP_WRITE, None, 0), (2, (1, 8, 1), 5, EG_OP_READ, None, 0)]"
    using write_read_graph by blast
  let ?w = "new_node (1, (0, 7, 1), 5, EG_OP_WRITE, None, 0)" and ?r = "new_node (2, (1, 8, 1), 5, EG_OP_READ, None, 0)"
  let ?tr = "tls0\<lparr>tls_thread_id := 1\<rparr>"
  let ?aw = "context_args (wmm_set_event_context True 7 5 tls0) 8192 (wmm_order_from_index 3)"
    and ?ar = "context_args (wmm_set_event_context True 8 5 ?tr) 8192 (wmm_order_from_index 2)"
  have keys: "event_key ?aw = (0, 7, 1)" "event_key ?ar = (1, 8, 1)" "a_tid ?ar = 1"
    by (simp_all add: event_key_def event_vid_def context_args_def wmm_set_event_context_def wmm_next_visit_id_def tls0_def)
  have w: "find (\<lambda>m. node_key m = event_key ?aw) (eg_nodes g) = Some ?w" "n_type ?w \<in> {EG_OP_WRITE, EG_OP_RMW}" "n_id ?w \<noteq> 0"
    by (simp_all add: g(3) node_key_def keys)
  have r: "find (\<lambda>m. node_key m = event_key ?ar) (eg_nodes g) = Some ?r" "n_type ?r \<in> {EG_OP_READ, EG_OP_RMW}"
    "find_rf_source (Some g) (n_id ?r) = n_id ?w" "unat (a_tid ?ar) < MAX_THREADS"
    by (simp_all add: g node_key_def keys find_rf_source_def MAX_THREADS_def)
  have range: "4096 \<le> (8192 :: ptr)" "fits (8192 :: ptr) 4" "(0::nat) < 4" "(4::nat) \<le> 8" "(0 :: u64) \<noteq> - 1"
    by (simp_all add: fits_def)
  have st: "current_graph (replaying g) = Some g" "recording_graph (replaying g) = None" "hist_inv (hist (replaying g))"
    "hist_grants_all (mem_hist env_ample)"
    by (simp_all add: replaying_def recording_def no_history_inv env_ample_def hist_grants_all_def)
  obtain tw' st1 where s: "instrument_store env_ample True True 7 8192 1000 3 0 5 4 tls0 (replaying g) = Returns (Replies tw' st1)"
    and l: "\<forall>st2. current_graph st2 = Some g \<longrightarrow> recording_graph st2 = None \<longrightarrow> hist st2 = hist st1 \<longrightarrow>
      (\<exists>tr' st3. instrument_load env_ample True True 8 8192 2 5 4 0 ?tr st2 = Returns (Replies (take_bit (8 * 4) 1000, tr') st3) \<and>
         ram_value 8192 4 st3 = take_bit (8 * 4) 1000)"
    using hooks_store_load_roundtrip [OF st(1,2) g(1) refl refl w r range st(3,4), where bw = True and br = True and rnd = 0] by blast
  have tw: "tw' = wmm_clear_event_context (wmm_set_event_context True 7 5 tls0)"
    using s range by (auto simp: instrument_store_def checked_size_def wmm_atomic_write_bytes_def Let_def split: if_splits elim!: bind_reply.elims bind_outcome.elims)
  have "take_bit (8 * 4) (1000 :: u64) = 1000" by (simp add: take_bit_eq_mod)
  then show ?thesis using s l [rule_format, of "st1\<lparr>ram := (\<lambda>_. 0), current_graph := Some g, recording_graph := None\<rparr>"] tw by auto
qed

end
