(* ===== verification/Carith.thy ===== *)
theory Carith imports Cdouble begin

text \<open>
  Arithmetic on the C type \<open>double\<close>. An operation on finite values is the operation on the
  reals followed by a rounding, which is a parameter \<open>r\<close>; what the properties use of it is
  \<open>rounds\<close>, and is what IEEE 754 says of every rounding mode: it is monotone, and it leaves
  a number with few binary digits as it is. Zero counts as positive where it divides, as the program
  divides by counts and sums.
\<close>

type_synonym rounding = "real \<Rightarrow> double"

definition rounds :: "rounding \<Rightarrow> bool" where
  "rounds r \<longleftrightarrow> (\<forall>a b. a \<le> b \<longrightarrow> r a \<le> r b) \<and>
     (\<forall>k n. \<bar>k\<bar> \<le> 2 ^ 53 \<longrightarrow> n \<le> 1000 \<longrightarrow> r (of_int k / 2 ^ n) = Fin (of_int k / 2 ^ n))"

fun dneg :: "double \<Rightarrow> double" where
  "dneg NaN = NaN" | "dneg NInf = PInf" | "dneg PInf = NInf" | "dneg (Fin a) = Fin (- a)"

fun dadd :: "rounding \<Rightarrow> double \<Rightarrow> double \<Rightarrow> double" where
  "dadd r NaN y = NaN"
| "dadd r x NaN = NaN"
| "dadd r PInf NInf = NaN"
| "dadd r NInf PInf = NaN"
| "dadd r PInf y = PInf"
| "dadd r x PInf = PInf"
| "dadd r NInf y = NInf"
| "dadd r x NInf = NInf"
| "dadd r (Fin a) (Fin b) = r (a + b)"

definition dsub :: "rounding \<Rightarrow> double \<Rightarrow> double \<Rightarrow> double" where
  "dsub r x y = dadd r x (dneg y)"

definition inf_of_sign :: "real \<Rightarrow> double" where
  "inf_of_sign a = (if a = 0 then NaN else if 0 < a then PInf else NInf)"

fun dmul :: "rounding \<Rightarrow> double \<Rightarrow> double \<Rightarrow> double" where
  "dmul r NaN y = NaN"
| "dmul r x NaN = NaN"
| "dmul r (Fin a) (Fin b) = r (a * b)"
| "dmul r (Fin a) PInf = inf_of_sign a"
| "dmul r (Fin a) NInf = inf_of_sign (- a)"
| "dmul r PInf (Fin b) = inf_of_sign b"
| "dmul r NInf (Fin b) = inf_of_sign (- b)"
| "dmul r PInf PInf = PInf"
| "dmul r NInf NInf = PInf"
| "dmul r PInf NInf = NInf"
| "dmul r NInf PInf = NInf"

fun ddiv :: "rounding \<Rightarrow> double \<Rightarrow> double \<Rightarrow> double" where
  "ddiv r NaN y = NaN"
| "ddiv r x NaN = NaN"
| "ddiv r (Fin a) (Fin b) = (if b = 0 then inf_of_sign a else r (a / b))"
| "ddiv r (Fin a) PInf = Fin 0"
| "ddiv r (Fin a) NInf = Fin 0"
| "ddiv r PInf (Fin b) = (if b < 0 then NInf else PInf)"
| "ddiv r NInf (Fin b) = (if b < 0 then PInf else NInf)"
| "ddiv r PInf y = NaN"
| "ddiv r NInf y = NaN"

text \<open>A variable raised to a lower bound, and lowered to an upper one: \<open>if (x < l) x = l;\<close>.\<close>

definition at_least :: "double \<Rightarrow> double \<Rightarrow> double" where
  "at_least l x = (if x < l then l else x)"

definition at_most :: "double \<Rightarrow> double \<Rightarrow> double" where
  "at_most u x = (if u < x then u else x)"

section \<open>Rounding\<close>

lemma rounds_mono: "rounds r \<Longrightarrow> a \<le> b \<Longrightarrow> r a \<le> r b"
  by (simp add: rounds_def)

lemma rounds_dyadic: "rounds r \<Longrightarrow> \<bar>k\<bar> \<le> 2 ^ 53 \<Longrightarrow> n \<le> 1000 \<Longrightarrow> r (of_int k / 2 ^ n) = Fin (of_int k / 2 ^ n)"
  by (simp add: rounds_def)

lemma rounds_int: "rounds r \<Longrightarrow> \<bar>k\<bar> \<le> 2 ^ 53 \<Longrightarrow> r (of_int k) = Fin (of_int k)"
  using rounds_dyadic [of r k 0] by simp

lemma rounds_nat: "rounds r \<Longrightarrow> n \<le> 2 ^ 53 \<Longrightarrow> r (real n) = Fin (real n)"
  using rounds_int [of r "int n"] by simp

lemma rounds_numeral:
  "rounds r \<Longrightarrow> r 0 = Fin 0" "rounds r \<Longrightarrow> r 1 = Fin 1" "rounds r \<Longrightarrow> r 100 = Fin 100" "rounds r \<Longrightarrow> r (1 / 2) = Fin (1 / 2)"
  using rounds_int [of r 0] rounds_int [of r 1] rounds_int [of r 100] rounds_dyadic [of r 1 1] by simp_all

lemma rounds_not_nan: "rounds r \<Longrightarrow> not_nan (r a)"
  using rounds_mono [of r a a] double_le_not_nan by blast

lemma rounds_nonneg: "rounds r \<Longrightarrow> 0 \<le> a \<Longrightarrow> Fin 0 \<le> r a"
  using rounds_mono [of r 0 a] rounds_numeral(1) by simp

lemma rounds_Fin: "rounds Fin"
  by (simp add: rounds_def)

lemma at_least_ge: "not_nan l \<Longrightarrow> not_nan x \<Longrightarrow> l \<le> at_least l x"
  by (cases l; cases x) (auto simp: at_least_def)

lemma at_least_NaN [simp]: "at_least l NaN = NaN" by (cases l) (auto simp: at_least_def)
lemma at_most_NaN [simp]: "at_most u NaN = NaN" by (cases u) (auto simp: at_most_def)

lemma clamp_range: "not_nan x \<Longrightarrow> l \<le> u \<Longrightarrow> l \<le> at_most u (at_least l x) \<and> at_most u (at_least l x) \<le> u"
  by (cases x; cases l; cases u) (auto simp: at_least_def at_most_def)

lemma clamp_mono: "x \<le> y \<Longrightarrow> l \<le> u \<Longrightarrow> at_most u (at_least l x) \<le> at_most u (at_least l y)"
  by (cases x; cases y; cases l; cases u) (auto simp: at_least_def at_most_def)

lemma clamp_in: "l \<le> x \<Longrightarrow> x \<le> u \<Longrightarrow> at_most u (at_least l x) = x"
  by (cases x; cases l; cases u) (auto simp: at_least_def at_most_def)

text \<open>Sums and products of non-negative values.\<close>

lemma double_le_PInf [simp]: "x \<le> PInf \<longleftrightarrow> not_nan x"
  by (cases x) auto

lemma dadd_mono:
  assumes "rounds r" and "Fin 0 \<le> x" and "x \<le> x'" and "Fin 0 \<le> y" and "y \<le> y'"
  shows "dadd r x y \<le> dadd r x' y'"
  using assms rounds_not_nan [OF assms(1)]
  by (cases x; cases x'; cases y; cases y') (auto intro: rounds_mono)

lemma dadd_nonneg: "rounds r \<Longrightarrow> Fin 0 \<le> x \<Longrightarrow> Fin 0 \<le> y \<Longrightarrow> Fin 0 \<le> dadd r x y"
  by (cases x; cases y) (auto intro: rounds_nonneg)

lemma dmul_mono:
  assumes "rounds r" and "0 < c" and "Fin 0 \<le> x" and "x \<le> x'"
  shows "dmul r (Fin c) x \<le> dmul r (Fin c) x'"
  using assms rounds_not_nan [OF assms(1)]
  by (cases x; cases x') (auto simp: inf_of_sign_def intro!: rounds_mono mult_left_mono)

lemma dmul_nonneg: "rounds r \<Longrightarrow> 0 < c \<Longrightarrow> Fin 0 \<le> x \<Longrightarrow> Fin 0 \<le> dmul r (Fin c) x"
  by (cases x) (auto simp: inf_of_sign_def intro!: rounds_nonneg mult_nonneg_nonneg)

end
