(* ===== verification/SeenSets.thy ===== *)
theory SeenSets imports EventGraph begin

text \<open>
  The sets of hashes by which the fuzzer recognises what it has seen
  (\<^verbatim>\<open>main/src/sgf-fuzz-run.c\<close>): the graphs of the corpus, the graphs that crashed, and
  the data races already reported. Each is an array of 64-bit keys, 0 for a free slot, whose size is
  a power of two, probed linearly with a mask and doubled when it is too full. Counters and sizes
  are 32 bits wide, and so is the size that the allocator takes. The hashes themselves are
  parameters: the hash of a graph belongs to the mutator.
\<close>

section \<open>State and allocation\<close>

record hash_set =
  hs_table :: "u64 list option"
  hs_cap :: u32
  hs_count :: u32

definition empty_hash_set :: hash_set where
  "empty_hash_set = \<lparr>hs_table = None, hs_cap = 0, hs_count = 0\<rparr>"

definition MAX_ALLOC :: u32 where "MAX_ALLOC = 0x40000000"

text \<open>
  The allocation of a table of \<open>cap\<close> keys and the clearing of it. The size in bytes is
  computed with 64 bits and cut to the 32 bits of the allocator's argument; \<open>grants\<close> tells
  whether the system has the memory.
\<close>

definition ck_alloc_table :: "(nat \<Rightarrow> bool) \<Rightarrow> u32 \<Rightarrow> u64 list outcome" where
  "ck_alloc_table grants cap =
     (let bytes = (ucast (8 * ucast cap :: u64) :: u32)
      in if bytes = 0 then (if cap = 0 then Returns [] else Exits SEGFAULT)
         else if MAX_ALLOC < bytes then Exits ABORTED
         else if \<not> grants (unat bytes) then Exits ABORTED
         else Returns (replicate (unat cap) 0))"

section \<open>The sets of graphs\<close>

text \<open>The least power of two that is at least \<open>cap\<close>; there is none above \<open>2 ^ 31\<close>.\<close>

fun round_up :: "nat \<Rightarrow> u32 \<Rightarrow> u32 \<Rightarrow> u32 option" where
  "round_up 0 p cap = None"
| "round_up (Suc n) p cap = (if p < cap then round_up n (push_bit 1 p) cap else Some p)"

definition skel_hash_init :: "(nat \<Rightarrow> bool) \<Rightarrow> u32 \<Rightarrow> hash_set \<Rightarrow> hash_set outcome" where
  "skel_hash_init grants cap hs =
     (let cap = (if cap = 0 then 4096 else cap)
      in case round_up 33 1 cap of None \<Rightarrow> Diverges
         | Some p \<Rightarrow> bind_outcome (ck_alloc_table grants p) (\<lambda>tbl. Returns \<lparr>hs_table = Some tbl, hs_cap = p, hs_count = 0\<rparr>))"

text \<open>Putting the old keys in; the loop for a free slot has no end when there is none.\<close>

fun rehash_loop :: "u32 \<Rightarrow> u64 list \<Rightarrow> u64 list \<Rightarrow> u32 \<Rightarrow> (u64 list \<times> u32) outcome" where
  "rehash_loop cap [] tbl n = Returns (tbl, n)"
| "rehash_loop cap (key # old) tbl n =
     (if key = 0 then rehash_loop cap old tbl n
      else case masked_probe (length tbl) (\<lambda>i. tbl ! i = 0) (cap - 1) (ucast key AND (cap - 1)) of
             None \<Rightarrow> Diverges
           | Some i \<Rightarrow> rehash_loop cap old (tbl[i := key]) (n + 1))"

definition with_table :: "hash_set \<Rightarrow> u64 list \<Rightarrow> u32 \<Rightarrow> hash_set" where
  "with_table hs tbl n = hs\<lparr>hs_table := Some tbl, hs_count := n\<rparr>"

definition skel_hash_rehash :: "(nat \<Rightarrow> bool) \<Rightarrow> u32 \<Rightarrow> hash_set \<Rightarrow> hash_set outcome" where
  "skel_hash_rehash grants new_cap hs =
     bind_outcome (skel_hash_init grants new_cap hs) (\<lambda>new.
       case (hs_table hs, hs_table new) of
         (Some old, Some tbl) \<Rightarrow> bind_outcome (rehash_loop (hs_cap new) old tbl (hs_count new)) (\<lambda>(tbl, n). Returns (with_table new tbl n))
       | _ \<Rightarrow> Returns new)"

definition skel_key :: "u64 \<Rightarrow> u64" where
  "skel_key h = (let key = h XOR 0x9e3779b97f4a7c15 in if key = 0 then 1 else key)"

definition skeleton_graph_seen :: "hash_set \<Rightarrow> u64 \<Rightarrow> bool outcome" where
  "skeleton_graph_seen hs h =
     (case hs_table hs of None \<Rightarrow> Returns False
      | Some tbl \<Rightarrow>
          (if hs_cap hs = 0 \<or> h = 0 then Returns False
           else case masked_probe (length tbl) (\<lambda>i. tbl ! i = 0 \<or> tbl ! i = skel_key h) (hs_cap hs - 1)
                       (ucast (skel_key h) AND (hs_cap hs - 1)) of
                  None \<Rightarrow> Diverges
                | Some i \<Rightarrow> Returns (tbl ! i \<noteq> 0)))"

text \<open>The common end of the operations that add: is the key there, and if not, put it in.\<close>

definition seen_or_put :: "u64 \<Rightarrow> hash_set \<Rightarrow> (bool \<times> hash_set) outcome" where
  "seen_or_put key hs =
     (case hs_table hs of None \<Rightarrow> Exits SEGFAULT
      | Some tbl \<Rightarrow>
          (case masked_probe (length tbl) (\<lambda>i. tbl ! i = 0 \<or> tbl ! i = key) (hs_cap hs - 1) (ucast key AND (hs_cap hs - 1)) of
             None \<Rightarrow> Diverges
           | Some i \<Rightarrow> (if tbl ! i = 0 then Returns (False, with_table hs (tbl[i := key]) (hs_count hs + 1))
                        else Returns (True, hs))))"

definition skeleton_graph_seen_or_add :: "(nat \<Rightarrow> bool) \<Rightarrow> hash_set \<Rightarrow> u64 \<Rightarrow> (bool \<times> hash_set) outcome" where
  "skeleton_graph_seen_or_add grants hs h =
     (if h = 0 then Returns (False, hs)
      else bind_outcome (if hs_table hs = None \<or> hs_cap hs = 0 then skel_hash_init grants 4096 hs else Returns hs) (\<lambda>hs.
           bind_outcome (if hs_cap hs * 70 \<le> hs_count hs * 100 then skel_hash_rehash grants (push_bit 1 (hs_cap hs)) hs else Returns hs)
             (\<lambda>hs. seen_or_put (skel_key h) hs)))"

text \<open>The set of the graphs that crashed is a second copy of the same code.\<close>

definition crash_graph_seen_or_add :: "(nat \<Rightarrow> bool) \<Rightarrow> hash_set \<Rightarrow> u64 \<Rightarrow> (bool \<times> hash_set) outcome" where
  "crash_graph_seen_or_add grants hs h = skeleton_graph_seen_or_add grants hs h"

section \<open>The set of races\<close>

definition race_set_init :: "(nat \<Rightarrow> bool) \<Rightarrow> hash_set \<Rightarrow> hash_set outcome" where
  "race_set_init grants hs =
     (if hs_cap hs \<noteq> 0 then Returns hs
      else bind_outcome (ck_alloc_table grants 1024) (\<lambda>tbl. Returns \<lparr>hs_table = Some tbl, hs_cap = 1024, hs_count = 0\<rparr>))"

definition race_set_grow :: "(nat \<Rightarrow> bool) \<Rightarrow> hash_set \<Rightarrow> hash_set outcome" where
  "race_set_grow grants hs =
     (let new_size = (if hs_cap hs \<noteq> 0 then push_bit 1 (hs_cap hs) else 1024)
      in bind_outcome (ck_alloc_table grants new_size) (\<lambda>tbl.
           let new = \<lparr>hs_table = Some tbl, hs_cap = new_size, hs_count = 0\<rparr>
           in case hs_table hs of None \<Rightarrow> Returns new
              | Some old \<Rightarrow> bind_outcome (rehash_loop new_size old tbl 0) (\<lambda>(tbl, n). Returns (with_table new tbl n))))"

definition race_key :: "u64 \<Rightarrow> u64" where
  "race_key hash = (let key = hash + 1 in if key = 0 then 1 else key)"

text \<open>The answer is whether the race is new.\<close>

definition race_set_add :: "(nat \<Rightarrow> bool) \<Rightarrow> hash_set \<Rightarrow> u64 \<Rightarrow> (bool \<times> hash_set) outcome" where
  "race_set_add grants hs hash =
     bind_outcome (if hs_cap hs = 0 then race_set_init grants hs else Returns hs) (\<lambda>hs.
     bind_outcome (if hs_cap hs * 3 \<le> hs_count hs * 4 then race_set_grow grants hs else Returns hs) (\<lambda>hs.
     bind_outcome (seen_or_put (race_key hash) hs) (\<lambda>(seen, hs). Returns (\<not> seen, hs))))"

section \<open>The table as a set of keys\<close>

definition wkey :: "u64 \<Rightarrow> u64 option" where
  "wkey x = (if x = 0 then None else Some x)"

definition whome :: "u64 \<Rightarrow> nat \<Rightarrow> nat" where
  "whome key cap = unat ((ucast key :: u32) AND (of_nat cap - 1))"

interpretation wtab: probe_table wkey whome
  by unfold_locales (simp add: whome_def masked_less)

definition hs_keys :: "hash_set \<Rightarrow> u64 set" where
  "hs_keys hs = (case hs_table hs of None \<Rightarrow> {} | Some tbl \<Rightarrow> set tbl - {0})"

text \<open>A table of \<open>2 ^ k\<close> slots, in order and counted.\<close>

definition hs_live :: "nat \<Rightarrow> hash_set \<Rightarrow> bool" where
  "hs_live k hs \<longleftrightarrow> k < 32 \<and> hs_cap hs = 2 ^ k \<and>
     (\<exists>tbl. hs_table hs = Some tbl \<and> length tbl = 2 ^ k \<and> table_ok wkey whome tbl \<and> unat (hs_count hs) = used wkey tbl)"

lemma key_slot_member: "key_slot wkey tbl x \<noteq> None \<longleftrightarrow> x \<in> set tbl - {0}"
  by (auto simp: key_slot_def find_None_iff wkey_def)

lemma live_count: "hs_live k hs \<Longrightarrow> unat (hs_count hs) = card (hs_keys hs)"
proof -
  assume "hs_live k hs"
  then obtain tbl where t: "hs_table hs = Some tbl" "unique_keys wkey tbl" "unat (hs_count hs) = used wkey tbl"
    by (auto simp: hs_live_def table_ok_def)
  have "{x. key_slot wkey tbl x \<noteq> None} = set tbl - {0}" using key_slot_member by blast
  then show ?thesis using used_card(1) [OF t(2)] t by (simp only: hs_keys_def option.case)
qed

lemma live_finite: "finite (hs_keys hs)"
  by (simp add: hs_keys_def split: option.splits)

lemma stop_at_key: "key \<noteq> 0 \<Longrightarrow> (x = 0 \<or> x = key) \<longleftrightarrow> (wkey x = None \<or> wkey x = Some key)"
  "(x = 0) \<longleftrightarrow> wkey x = None"
  by (auto simp: wkey_def)

lemma probe_whome:
  assumes "k < 32"
  shows "masked_probe (2 ^ k) stop ((2 :: u32) ^ k - 1) (ucast key AND (2 ^ k - 1)) = probe stop (2 ^ k) (whome key (2 ^ k))"
  using masked_probe_probe [where 'w = 32, of k stop "ucast key"] assms by (simp add: whome_def)

text \<open>Where the loop for a key stops.\<close>

lemma live_search:
  assumes "hs_live k hs" and "hs_table hs = Some tbl" and "key \<noteq> 0" and "card (hs_keys hs) < 2 ^ k"
  shows "\<exists>i. masked_probe (length tbl) (\<lambda>i. tbl ! i = 0 \<or> tbl ! i = key) (hs_cap hs - 1) (ucast key AND (hs_cap hs - 1)) = Some i \<and>
    probe (stops_at wkey tbl key) (length tbl) (whome key (length tbl)) = Some i \<and> i < length tbl \<and>
    (tbl ! i \<noteq> 0 \<longleftrightarrow> key \<in> hs_keys hs)"
proof -
  have t: "length tbl = 2 ^ k" "table_ok wkey whome tbl" "used wkey tbl < length tbl" "hs_cap hs = 2 ^ k" "k < 32"
    "hs_keys hs = set tbl - {0}"
    using assms live_count [OF assms(1)] by (auto simp: hs_live_def hs_keys_def)
  note s = wtab.probe_search [OF t(2), of key]
  then obtain i where i: "probe (stops_at wkey tbl key) (length tbl) (whome key (length tbl)) = Some i"
    using t(3) by (cases "probe (stops_at wkey tbl key) (length tbl) (whome key (length tbl))") auto
  have "tbl ! i \<noteq> 0 \<longleftrightarrow> key_slot wkey tbl key \<noteq> None" "i < length tbl" using s i by (auto simp: wkey_def split: if_splits)
  then show ?thesis using i t key_slot_member [of tbl key] stop_at_key(1) [OF assms(3)] probe_whome [OF t(5)] by auto
qed

lemma put_ok:
  assumes "hs_live k hs" and "key \<noteq> 0" and "card (hs_keys hs) < 2 ^ k"
  shows "\<exists>hs'. seen_or_put key hs = Returns (key \<in> hs_keys hs, hs') \<and> hs_live k hs' \<and> hs_keys hs' = insert key (hs_keys hs)"
proof -
  obtain tbl where t: "hs_table hs = Some tbl" "length tbl = 2 ^ k" "table_ok wkey whome tbl" "unat (hs_count hs) = used wkey tbl"
    "hs_cap hs = 2 ^ k" "k < 32"
    using assms(1) by (auto simp: hs_live_def)
  have keys: "hs_keys hs = set tbl - {0}" using t(1) by (simp add: hs_keys_def)
  obtain i where i: "masked_probe (length tbl) (\<lambda>i. tbl ! i = 0 \<or> tbl ! i = key) (hs_cap hs - 1) (ucast key AND (hs_cap hs - 1)) = Some i"
      "probe (stops_at wkey tbl key) (length tbl) (whome key (length tbl)) = Some i" "i < length tbl" "tbl ! i \<noteq> 0 \<longleftrightarrow> key \<in> hs_keys hs"
    using live_search [OF assms(1) t(1) assms(2,3)] by blast
  show ?thesis
  proof (cases "tbl ! i = 0")
    case True
    note st = wtab.probe_store [OF t(3) i(2), of key]
    have k: "wkey key = Some key" using assms(2) by (simp add: wkey_def)
    have "x \<in> set (tbl[i := key]) - {0} \<longleftrightarrow> x \<in> insert key (hs_keys hs)" for x
      using st(2) [OF k, of x] key_slot_member [of "tbl[i := key]" x] key_slot_member [of tbl x] keys by (auto split: if_splits)
    then have e: "set (tbl[i := key]) - {0} = insert key (hs_keys hs)" by blast
    have "unat (hs_count hs) < 2 ^ 31"
      using assms(3) live_count [OF assms(1)] power_increasing [of k 31 "2::nat"] t(6) by linarith
    then have "unat (hs_count hs + 1) = Suc (unat (hs_count hs))" by (simp add: unat_word_ariths)
    then have "hs_live k (with_table hs (tbl[i := key]) (hs_count hs + 1))"
      using st(1,3) [OF k] t True by (simp add: hs_live_def with_table_def wkey_def)
    then show ?thesis using t(1) i(1,4) True e by (simp add: seen_or_put_def with_table_def hs_keys_def)
  next
    case False
    then show ?thesis using t(1) i(1,4) assms(1) by (auto simp: seen_or_put_def)
  qed
qed

lemma put_absent:
  assumes "hs_live k hs" and "hs_table hs = Some tbl" and "key \<noteq> 0" and "key \<notin> hs_keys hs" and "card (hs_keys hs) < 2 ^ k"
  shows "\<exists>i. masked_probe (length tbl) (\<lambda>i. tbl ! i = 0) (hs_cap hs - 1) (ucast key AND (hs_cap hs - 1)) = Some i \<and>
    hs_live k (with_table hs (tbl[i := key]) (hs_count hs + 1)) \<and>
    hs_keys (with_table hs (tbl[i := key]) (hs_count hs + 1)) = insert key (hs_keys hs)"
proof -
  obtain i where i: "masked_probe (length tbl) (\<lambda>i. tbl ! i = 0 \<or> tbl ! i = key) (hs_cap hs - 1) (ucast key AND (hs_cap hs - 1)) = Some i"
      "probe (stops_at wkey tbl key) (length tbl) (whome key (length tbl)) = Some i" "tbl ! i = 0"
    using live_search [OF assms(1,2,3,5)] assms(4) by blast
  have t: "length tbl = 2 ^ k" "hs_cap hs = 2 ^ k" "k < 32" "tbl \<noteq> []" using assms(1,2) by (auto simp: hs_live_def table_ok_def)
  have "key_slot wkey tbl key = None" using key_slot_member [of tbl key] assms(2,4) by (auto simp: hs_keys_def)
  note a = wtab.probe_absent [OF this t(4)]
  have "masked_probe (length tbl) (\<lambda>i. tbl ! i = 0) (hs_cap hs - 1) (ucast key AND (hs_cap hs - 1)) = Some i"
    using a i(2) probe_whome [OF t(3)] stop_at_key(2) by (simp add: t(1,2))
  moreover have "seen_or_put key hs = Returns (False, with_table hs (tbl[i := key]) (hs_count hs + 1))"
    using assms(2) i(1,3) by (simp add: seen_or_put_def)
  ultimately show ?thesis using put_ok [OF assms(1,3,5)] by auto
qed

lemma rehash_loop_ok:
  assumes "hs_live k hs" and "hs_table hs = Some tbl" and "distinct (filter (\<lambda>x. x \<noteq> 0) old)"
    and "hs_keys hs \<inter> set old = {}" and "card (hs_keys hs) + length (filter (\<lambda>x. x \<noteq> 0) old) \<le> 2 ^ k"
  shows "\<exists>tbl' n'. rehash_loop (hs_cap hs) old tbl (hs_count hs) = Returns (tbl', n') \<and> hs_live k (with_table hs tbl' n') \<and>
    hs_keys (with_table hs tbl' n') = hs_keys hs \<union> (set old - {0})"
  using assms
proof (induction old arbitrary: hs tbl)
  case Nil
  then have "with_table hs tbl (hs_count hs) = hs" by (simp add: with_table_def)
  then show ?case using Nil by simp
next
  case (Cons key old)
  show ?case
  proof (cases "key = 0")
    case True
    then show ?thesis using Cons.IH [OF Cons.prems(1,2)] Cons.prems(3-5) by auto
  next
    case False
    obtain i where i: "masked_probe (length tbl) (\<lambda>i. tbl ! i = 0) (hs_cap hs - 1) (ucast key AND (hs_cap hs - 1)) = Some i"
      "hs_live k (with_table hs (tbl[i := key]) (hs_count hs + 1))"
      "hs_keys (with_table hs (tbl[i := key]) (hs_count hs + 1)) = insert key (hs_keys hs)"
      using put_absent [OF Cons.prems(1,2) False] Cons.prems(4,5) False by auto
    let ?hs = "with_table hs (tbl[i := key]) (hs_count hs + 1)"
    have "card (hs_keys ?hs) = Suc (card (hs_keys hs))" using i(3) Cons.prems(4) live_finite by simp
    then have "card (hs_keys ?hs) + length (filter (\<lambda>x. x \<noteq> 0) old) \<le> 2 ^ k" using Cons.prems(5) False by simp
    moreover have "hs_keys ?hs \<inter> set old = {}" using i(3) Cons.prems(3,4) False by auto
    moreover have "hs_table ?hs = Some (tbl[i := key])" "hs_cap ?hs = hs_cap hs" "hs_count ?hs = hs_count hs + 1"
      by (simp_all add: with_table_def)
    moreover have "with_table ?hs t n = with_table hs t n" for t n by (simp add: with_table_def)
    ultimately show ?thesis using Cons.IH [OF i(2), of "tbl[i := key]"] Cons.prems(3) i(1,3) False by auto
  qed
qed

lemma unat_pow2: "k < LENGTH('w) \<Longrightarrow> unat ((2 :: 'w::len word) ^ k) = 2 ^ k"
proof -
  assume "k < LENGTH('w)"
  then have "(2::nat) ^ k < 2 ^ LENGTH('w)" by simp
  then have "unat (of_nat (2 ^ k) :: 'w word) = 2 ^ k" unfolding unat_of_nat by (rule mod_less)
  then show ?thesis by simp
qed

lemma round_up_pow2:
  assumes "i \<le> k" and "k < 32" and "k < n + i"
  shows "round_up n (2 ^ i) (2 ^ k) = Some (2 ^ k)"
  using assms
proof (induction n arbitrary: i)
  case (Suc n)
  have p: "(2 :: u32) ^ i < 2 ^ k \<longleftrightarrow> i < k" 
    using Suc.prems by (simp add: word_less_nat_alt unat_pow2)
  show ?case
  proof (cases "i = k")
    case False
    have "push_bit 1 ((2 :: u32) ^ i) = 2 ^ Suc i" by simp
    then show ?thesis using Suc.IH [of "Suc i"] Suc.prems False p by (simp add: mult.commute)
  qed simp
qed simp

lemma alloc_pow2:
  assumes "k \<le> 27" and "grants (2 ^ (k + 3))"
  shows "ck_alloc_table grants (2 ^ k) = Returns (replicate (2 ^ k) 0)"
proof -
  have l: "(2::nat) ^ (k + 3) \<le> 2 ^ 30" using assms(1) by (intro power_increasing) auto
  have "ucast (8 * ucast ((2 :: u32) ^ k) :: u64) = (2 :: u32) ^ (k + 3)"
  proof -
    have "unat (ucast ((2 :: u32) ^ k) :: u64) = unat ((2 :: u64) ^ k)"
      using assms(1) by (simp add: unat_pow2 unsigned_ucast_eq take_bit_nat_eq_self)
    then have "(ucast ((2 :: u32) ^ k) :: u64) = 2 ^ k" by (simp only: word_unat_eq_iff)
    then have e: "(8 * ucast ((2 :: u32) ^ k) :: u64) = 2 ^ (k + 3)" by (simp add: power_add)
    have "unat (ucast ((2 :: u64) ^ (k + 3)) :: u32) = unat ((2 :: u32) ^ (k + 3))"
      using assms(1) l by (simp add: unat_pow2 unsigned_ucast_eq take_bit_nat_eq_self)
    then show ?thesis unfolding e by (simp only: word_unat_eq_iff)
  qed
  moreover have u: "unat ((2 :: u32) ^ (k + 3)) = 2 ^ (k + 3)" "unat ((2 :: u32) ^ k) = 2 ^ k"
    using assms(1) by (simp_all add: unat_pow2)
  ultimately show ?thesis using l assms(2)
    unfolding ck_alloc_table_def Let_def
    using assms(1) by (simp add: MAX_ALLOC_def word_less_nat_alt)
qed

lemma fresh_hs_live:
  assumes "k < 32"
  shows "hs_live k \<lparr>hs_table = Some (replicate (2 ^ k) 0), hs_cap = 2 ^ k, hs_count = 0\<rparr>"
    and "hs_keys \<lparr>hs_table = Some (replicate (2 ^ k) 0), hs_cap = 2 ^ k, hs_count = 0\<rparr> = {}"
  using assms wtab.free_table_ok [of 0 "2 ^ k"] by (auto simp: hs_live_def hs_keys_def wkey_def)

lemma hs_live_distinct:
  assumes "hs_live k hs" and "hs_table hs = Some tbl"
  shows "distinct (filter (\<lambda>x. x \<noteq> 0) tbl)" and "length (filter (\<lambda>x. x \<noteq> 0) tbl) = card (hs_keys hs)"
proof -
  have u: "unique_keys wkey tbl" using assms by (auto simp: hs_live_def table_ok_def)
  have f: "filter (\<lambda>s. wkey s \<noteq> None) tbl = filter (\<lambda>x. x \<noteq> 0) tbl" by (rule filter_cong) (auto simp: wkey_def)
  show d: "distinct (filter (\<lambda>x. x \<noteq> 0) tbl)" using used_card(3) [OF u] unfolding f by (simp only: distinct_map)
  have "set (filter (\<lambda>x. x \<noteq> 0) tbl) = hs_keys hs" using assms(2) by (auto simp: hs_keys_def)
  then show "length (filter (\<lambda>x. x \<noteq> 0) tbl) = card (hs_keys hs)" using distinct_card [OF d] by simp
qed

lemma refill_ok:
  assumes "hs_live k hs" and "hs_table hs = Some old" and "j < 32" and "card (hs_keys hs) \<le> 2 ^ j"
  shows "\<exists>tbl n. rehash_loop (2 ^ j) old (replicate (2 ^ j) 0) 0 = Returns (tbl, n) \<and>
    hs_live j \<lparr>hs_table = Some tbl, hs_cap = 2 ^ j, hs_count = n\<rparr> \<and> set tbl - {0} = hs_keys hs"
proof -
  let ?f = "\<lparr>hs_table = Some (replicate (2 ^ j) 0), hs_cap = 2 ^ j, hs_count = 0\<rparr>"
  note f = fresh_hs_live [OF assms(3)]
  have "\<exists>tbl n. rehash_loop (hs_cap ?f) old (replicate (2 ^ j) 0) (hs_count ?f) = Returns (tbl, n) \<and>
      hs_live j (with_table ?f tbl n) \<and> hs_keys (with_table ?f tbl n) = hs_keys ?f \<union> (set old - {0})"
    using hs_live_distinct [OF assms(1,2)] assms(4) f(2) by (intro rehash_loop_ok [OF f(1)]) simp_all
  then show ?thesis using f(2) assms(2) by (simp add: with_table_def hs_keys_def)
qed

lemma skel_rehash_ok:
  assumes "hs_live k hs" and "j \<le> 27" and "card (hs_keys hs) \<le> 2 ^ j" and "grants (2 ^ (j + 3))"
  shows "\<exists>hs'. skel_hash_rehash grants (2 ^ j) hs = Returns hs' \<and> hs_live j hs' \<and> hs_keys hs' = hs_keys hs"
proof -
  obtain old where old: "hs_table hs = Some old" using assms(1) by (auto simp: hs_live_def)
  have "round_up 33 1 (2 ^ j) = Some (2 ^ j)" using round_up_pow2 [of 0 j 33] assms(2) by simp
  moreover have "(2 :: u32) ^ j \<noteq> 0" using unat_pow2 [where 'w = 32, of j] assms(2) by auto
  ultimately have i: "skel_hash_init grants (2 ^ j) hs = Returns \<lparr>hs_table = Some (replicate (2 ^ j) 0), hs_cap = 2 ^ j, hs_count = 0\<rparr>"
    using alloc_pow2 [of j grants] assms(2,4) by (simp add: skel_hash_init_def)
  obtain tbl n where "rehash_loop (2 ^ j) old (replicate (2 ^ j) 0) 0 = Returns (tbl, n)"
    "hs_live j \<lparr>hs_table = Some tbl, hs_cap = 2 ^ j, hs_count = n\<rparr>" "set tbl - {0} = hs_keys hs"
    using refill_ok [OF assms(1) old _ assms(3)] assms(2) by auto
  then show ?thesis unfolding skel_hash_rehash_def i using old by (simp add: with_table_def hs_keys_def)
qed

lemma race_grow_ok:
  assumes "hs_live k hs" and "k \<le> 26" and "card (hs_keys hs) \<le> 2 ^ Suc k" and "grants (2 ^ (Suc k + 3))"
  shows "\<exists>hs'. race_set_grow grants hs = Returns hs' \<and> hs_live (Suc k) hs' \<and> hs_keys hs' = hs_keys hs"
proof -
  obtain old where old: "hs_table hs = Some old" "hs_cap hs = 2 ^ k" using assms(1) by (auto simp: hs_live_def)
  have c: "(2 :: u32) ^ k \<noteq> 0" "push_bit 1 ((2 :: u32) ^ k) = 2 ^ Suc k"
    using unat_pow2 [where 'w = 32, of k] assms(2) by auto
  obtain tbl n where "rehash_loop (2 ^ Suc k) old (replicate (2 ^ Suc k) 0) 0 = Returns (tbl, n)"
    "hs_live (Suc k) \<lparr>hs_table = Some tbl, hs_cap = 2 ^ Suc k, hs_count = n\<rparr>" "set tbl - {0} = hs_keys hs"
    using refill_ok [OF assms(1) old(1) _ assms(3)] assms(2) by auto
  then show ?thesis using old c alloc_pow2 [of "Suc k" grants] assms(2,4)
    by (simp add: race_set_grow_def with_table_def hs_keys_def Let_def del: power_Suc)
qed

end
