(* ===== verification/SeenSetsLaws.thy ===== *)
theory SeenSetsLaws imports SeenSets begin

text \<open>
  What the sets of hashes of \<open>SeenSets\<close> promise: as long as they can grow, adding answers
  exactly whether the key was there. The sets of graphs stop growing where the 32-bit products of
  the load check wrap around, and the run is aborted.
\<close>

section \<open>Sequences of additions\<close>

fun add_all :: "(hash_set \<Rightarrow> u64 \<Rightarrow> (bool \<times> hash_set) outcome) \<Rightarrow> hash_set \<Rightarrow> u64 list \<Rightarrow> (bool list \<times> hash_set) outcome" where
  "add_all add hs [] = Returns ([], hs)"
| "add_all add hs (h # hashes) =
     bind_outcome (add hs h) (\<lambda>(b, hs). bind_outcome (add_all add hs hashes) (\<lambda>(bs, hs). Returns (b # bs, hs)))"

text \<open>A set that answers by membership as long as it has fewer than \<open>room\<close> keys.\<close>

locale dedup =
  fixes add :: "hash_set \<Rightarrow> u64 \<Rightarrow> (bool \<times> hash_set) outcome" and key :: "u64 \<Rightarrow> u64" and answer :: "bool \<Rightarrow> bool"
    and ok :: "hash_set \<Rightarrow> bool" and allowed :: "u64 \<Rightarrow> bool" and room :: nat
  assumes ok_finite: "ok hs \<Longrightarrow> finite (hs_keys hs)"
    and add_step: "ok hs \<Longrightarrow> allowed h \<Longrightarrow> card (hs_keys hs) < room \<Longrightarrow>
      \<exists>hs'. add hs h = Returns (answer (key h \<in> hs_keys hs), hs') \<and> ok hs' \<and> hs_keys hs' = insert (key h) (hs_keys hs)"
begin

lemma session:
  assumes "ok hs" and "\<forall>h\<in>set hashes. allowed h" and "card (hs_keys hs) + length hashes \<le> room"
  shows "\<exists>hs'. add_all add hs hashes =
      Returns (map (\<lambda>i. answer (key (hashes ! i) \<in> hs_keys hs \<union> key ` set (take i hashes))) [0..<length hashes], hs') \<and>
    ok hs' \<and> hs_keys hs' = hs_keys hs \<union> key ` set hashes"
  using assms
proof (induction hashes arbitrary: hs)
  case (Cons h hashes)
  obtain hs1 where 1: "add hs h = Returns (answer (key h \<in> hs_keys hs), hs1)" "ok hs1" "hs_keys hs1 = insert (key h) (hs_keys hs)"
    using add_step [OF Cons.prems(1), of h] Cons.prems(2,3) by auto
  have "card (hs_keys hs1) \<le> Suc (card (hs_keys hs))" unfolding 1(3) by (simp add: card_insert_if ok_finite [OF Cons.prems(1)])
  then have "card (hs_keys hs1) + length hashes \<le> room" using Cons.prems(3) by simp
  from Cons.IH [OF 1(2) _ this] obtain hs2 where 2: "add_all add hs1 hashes =
      Returns (map (\<lambda>i. answer (key (hashes ! i) \<in> hs_keys hs1 \<union> key ` set (take i hashes))) [0..<length hashes], hs2)"
    "ok hs2" "hs_keys hs2 = hs_keys hs1 \<union> key ` set hashes" using Cons.prems(2) by auto
  have "[0..<length (h # hashes)] = 0 # map Suc [0..<length hashes]" by (simp add: upt_conv_Cons map_Suc_upt del: upt_Suc)
  then show ?case using 1 2 by (simp del: upt_Suc Un_iff insert_iff)
qed simp

end

section \<open>The sets of graphs\<close>

definition skel_inv :: "hash_set \<Rightarrow> bool" where
  "skel_inv hs \<longleftrightarrow> hs = empty_hash_set \<or>
     (\<exists>k. 12 \<le> k \<and> k \<le> 25 \<and> hs_live k hs \<and> card (hs_keys hs) * 100 < 2 ^ k * 70 + 100)"

definition race_inv :: "hash_set \<Rightarrow> bool" where
  "race_inv hs \<longleftrightarrow> hs = empty_hash_set \<or>
     (\<exists>k. 10 \<le> k \<and> k \<le> 27 \<and> hs_live k hs \<and> card (hs_keys hs) * 4 < 2 ^ k * 3 + 4)"

lemma skel_key_nonzero [simp]: "skel_key h \<noteq> 0"
  by (simp add: skel_key_def Let_def)

lemma race_key_nonzero [simp]: "race_key h \<noteq> 0"
  by (simp add: race_key_def Let_def)

lemma empty_keys [simp]: "hs_keys empty_hash_set = {}" "hs_table empty_hash_set = None" "hs_cap empty_hash_set = 0"
  by (simp_all add: hs_keys_def empty_hash_set_def)

lemma skel_init_live: 
  assumes "grants (2 ^ 15)"
  shows "\<exists>hs'. skel_hash_init grants 4096 hs = Returns hs' \<and> hs_live 12 hs' \<and> hs_keys hs' = {} \<and> hs_count hs' = 0"
proof -
  have "round_up 33 1 4096 = Some 4096" using round_up_pow2 [of 0 12 33] by simp
  moreover have "ck_alloc_table grants 4096 = Returns (replicate 4096 0)" using alloc_pow2 [of 12 grants] assms by simp
  moreover note fresh_hs_live [of 12]
  ultimately show ?thesis by (simp add: skel_hash_init_def)
qed

text \<open>The load check, as long as its products fit into 32 bits.\<close>

lemma load_check:
  assumes "hs_live k hs" and "2 ^ k * a < (2::nat) ^ 32" and "card (hs_keys hs) * b < 2 ^ 32"
  shows "hs_cap hs * of_nat a \<le> hs_count hs * of_nat b \<longleftrightarrow> 2 ^ k * a \<le> card (hs_keys hs) * b"
proof -
  have "of_nat (unat (hs_count hs)) = hs_count hs" by simp
  then have "hs_count hs = of_nat (card (hs_keys hs))" unfolding live_count [OF assms(1)] by (rule sym)
  moreover have "hs_cap hs = of_nat (2 ^ k)" using assms(1) by (simp add: hs_live_def)
  ultimately have c: "hs_cap hs = of_nat (2 ^ k)" "hs_count hs = of_nat (card (hs_keys hs))" by blast+
  have "hs_cap hs * of_nat a = of_nat (2 ^ k * a)" "hs_count hs * of_nat b = of_nat (card (hs_keys hs) * b)"
    unfolding c by (simp_all only: of_nat_mult)
  moreover have "unat (of_nat (2 ^ k * a) :: u32) = 2 ^ k * a" "unat (of_nat (card (hs_keys hs) * b) :: u32) = card (hs_keys hs) * b"
    unfolding unat_of_nat using assms(2,3) by simp_all
  ultimately show ?thesis by (simp only: word_le_nat_alt)
qed

lemma skel_step:
  assumes "skel_inv hs" and "h \<noteq> 0" and "card (hs_keys hs) < 23488103" and "\<forall>n. grants n"
  shows "\<exists>hs'. skeleton_graph_seen_or_add grants hs h = Returns (skel_key h \<in> hs_keys hs, hs') \<and> skel_inv hs' \<and>
    hs_keys hs' = insert (skel_key h) (hs_keys hs)"
proof -
  obtain k hs1 where 1: "12 \<le> k" "k \<le> 25" "hs_live k hs1" "hs_keys hs1 = hs_keys hs" "card (hs_keys hs) * 100 < 2 ^ k * 70 + 100"
    and i: "(if hs_table hs = None \<or> hs_cap hs = 0 then skel_hash_init grants 4096 hs else Returns hs) = Returns hs1"
  proof (cases "hs = empty_hash_set")
    case True
    then show ?thesis using skel_init_live [of grants hs] assms(4) that [of 12] by auto
  next
    case False
    then obtain k where k: "12 \<le> k" "k \<le> 25" "hs_live k hs" "card (hs_keys hs) * 100 < 2 ^ k * 70 + 100"
      using assms(1) by (auto simp: skel_inv_def)
    have "hs_cap hs \<noteq> 0" using k unat_pow2 [where 'w = 32, of k] by (auto simp: hs_live_def)
    then show ?thesis using k that [of k hs] by (auto simp: hs_live_def)
  qed
  have p: "(2::nat) ^ k \<le> 2 ^ 25" using 1(2) by (intro power_increasing) auto
  have chk: "hs_cap hs1 * 70 \<le> hs_count hs1 * 100 \<longleftrightarrow> 2 ^ k * 70 \<le> card (hs_keys hs) * 100"
    using load_check [OF 1(3), of 70 100] p assms(3) 1(4) by simp
  obtain j hs2 where 2: "12 \<le> j" "j \<le> 25" "hs_live j hs2" "hs_keys hs2 = hs_keys hs" "card (hs_keys hs) * 100 < 2 ^ j * 70"
    and r: "(if hs_cap hs1 * 70 \<le> hs_count hs1 * 100 then skel_hash_rehash grants (push_bit 1 (hs_cap hs1)) hs1 else Returns hs1) = Returns hs2"
  proof (cases "hs_cap hs1 * 70 \<le> hs_count hs1 * 100")
    case True
    have "k \<noteq> 25" using True assms(3) chk by auto
    moreover have "push_bit 1 (hs_cap hs1) = 2 ^ Suc k" using 1(3) by (simp add: hs_live_def)
    moreover have "card (hs_keys hs1) \<le> 2 ^ Suc k" using 1(4,5) by simp
    moreover have "card (hs_keys hs) * 100 < 2 ^ Suc k * 70" using 1(1,5) power_increasing [of 12 k "2::nat"] by simp
    ultimately show ?thesis using True 1 assms(4) skel_rehash_ok [OF 1(3), of "Suc k" grants] that [of "Suc k"] by auto
  next
    case False
    then show ?thesis using 1 chk that [of k hs1] by simp
  qed
  have "card (hs_keys hs2) < 2 ^ j" using 2(4,5) by simp
  from put_ok [OF 2(3) skel_key_nonzero this] obtain hs3 where 3: "seen_or_put (skel_key h) hs2 = Returns (skel_key h \<in> hs_keys hs2, hs3)"
    "hs_live j hs3" "hs_keys hs3 = insert (skel_key h) (hs_keys hs2)" by blast
  have "card (hs_keys hs3) \<le> Suc (card (hs_keys hs))" using 3(3) 2(4) live_finite [of hs] by (simp add: card_insert_if)
  then have "skel_inv hs3" using 2 3(2) unfolding skel_inv_def by auto
  moreover have "skeleton_graph_seen_or_add grants hs h = Returns (skel_key h \<in> hs_keys hs, hs3)"
    unfolding skeleton_graph_seen_or_add_def i using assms(2) r 3(1) 2(4) by simp
  ultimately show ?thesis using 3(3) 2(4) by auto
qed

interpretation skel: dedup "skeleton_graph_seen_or_add (\<lambda>_. True)" skel_key "\<lambda>b. b" skel_inv "\<lambda>h. h \<noteq> 0" 23488103
  by unfold_locales (auto simp: live_finite intro!: skel_step)

lemma merge_zero:
  fixes f :: "u64 \<Rightarrow> u64"
  assumes "\<And>x y. f x = f y \<longleftrightarrow> x = y" and "\<And>x. f x = 0 \<longleftrightarrow> x = c" and "\<And>x. f x = 1 \<longleftrightarrow> x = d"
  shows "(if f x = 0 then 1 else f x) = (if f y = 0 then 1 else f y) \<longleftrightarrow> x = y \<or> {x, y} = {c, d}"
proof -
  have "1 = f y \<longleftrightarrow> y = d" using assms(3) [of y] by metis
  then show ?thesis unfolding assms(2) doubleton_eq_iff using assms(1) [of x y] assms(3) [of x] by (cases "x = c"; cases "y = c") simp_all
qed

lemma skel_key_eq:
  "skel_key h = skel_key h' \<longleftrightarrow> h = h' \<or> {h, h'} = {0x9e3779b97f4a7c15, 0x9e3779b97f4a7c14}"
proof -
  define c :: u64 where "c = 0x9e3779b97f4a7c15"
  have x: "x XOR c = y \<longleftrightarrow> x = y XOR c" for x y by (auto simp: xor.assoc)
  have 1: "x XOR c = y XOR c \<longleftrightarrow> x = y" for x y unfolding x by (simp add: xor.assoc)
  have 2: "x XOR c = 0 \<longleftrightarrow> x = c" for x unfolding x by simp
  have 3: "x XOR c = 1 \<longleftrightarrow> x = 0x9e3779b97f4a7c14" for x unfolding x by (simp add: c_def)
  show ?thesis unfolding skel_key_def Let_def c_def [symmetric] by (rule merge_zero [of "\<lambda>x. x XOR c", OF 1 2 3])
qed

lemma seen_live:
  assumes "hs_live k hs" and "h \<noteq> 0" and "card (hs_keys hs) < 2 ^ k"
  shows "skeleton_graph_seen hs h = Returns (skel_key h \<in> hs_keys hs)"
proof -
  obtain tbl where t: "hs_table hs = Some tbl" using assms(1) by (auto simp: hs_live_def)
  have "hs_cap hs \<noteq> 0" using assms(1) unat_pow2 [where 'w = 32, of k] by (auto simp: hs_live_def)
  moreover obtain i where "masked_probe (length tbl) (\<lambda>i. tbl ! i = 0 \<or> tbl ! i = skel_key h) (hs_cap hs - 1)
      (ucast (skel_key h) AND (hs_cap hs - 1)) = Some i" "tbl ! i \<noteq> 0 \<longleftrightarrow> skel_key h \<in> hs_keys hs"
    using live_search [OF assms(1) t skel_key_nonzero assms(3)] by blast
  ultimately show ?thesis using assms(2) t by (simp add: skeleton_graph_seen_def)
qed

lemma skel_seen:
  assumes "skel_inv hs" and "h \<noteq> 0"
  shows "skeleton_graph_seen hs h = Returns (skel_key h \<in> hs_keys hs)"
proof (cases "hs = empty_hash_set")
  case False
  then obtain k where k: "12 \<le> k" "hs_live k hs" "card (hs_keys hs) * 100 < 2 ^ k * 70 + 100"
    using assms(1) by (auto simp: skel_inv_def)
  have "(2::nat) ^ 12 \<le> 2 ^ k" using k(1) by (intro power_increasing) auto
  then show ?thesis using k seen_live [OF k(2) assms(2)] by simp
qed (simp add: skeleton_graph_seen_def)

text \<open>
  C12. The set of the graphs seen: for any hashes of graphs (up to 23488103 of them, none 0), each
  addition ends and answers whether a hash with the same key was added before, and afterwards a
  graph counts as seen exactly when its key was added. Two hashes share a key only when they are
  equal or the two whose keys would be 0 and 1.
\<close>
theorem seen_graphs_refine_set:
  assumes "0 \<notin> set hashes" and "length hashes \<le> 23488103"
  shows "\<exists>hs. add_all (skeleton_graph_seen_or_add (\<lambda>_. True)) empty_hash_set hashes =
      Returns (map (\<lambda>i. skel_key (hashes ! i) \<in> skel_key ` set (take i hashes)) [0..<length hashes], hs) \<and>
    (\<forall>h. h \<noteq> 0 \<longrightarrow> skeleton_graph_seen hs h = Returns (skel_key h \<in> skel_key ` set hashes)) \<and>
    (\<forall>h h'. skel_key h = skel_key h' \<longleftrightarrow> h = h' \<or> {h, h'} = {0x9e3779b97f4a7c15, 0x9e3779b97f4a7c14})"
proof -
  have "skel_inv empty_hash_set" by (simp add: skel_inv_def)
  then obtain hs where "add_all (skeleton_graph_seen_or_add (\<lambda>_. True)) empty_hash_set hashes =
      Returns (map (\<lambda>i. skel_key (hashes ! i) \<in> skel_key ` set (take i hashes)) [0..<length hashes], hs)"
    "skel_inv hs" "hs_keys hs = skel_key ` set hashes"
    using skel.session [of empty_hash_set hashes] assms by auto
  moreover from this have "\<forall>h. h \<noteq> 0 \<longrightarrow> skeleton_graph_seen hs h = Returns (skel_key h \<in> skel_key ` set hashes)"
    using skel_seen by simp
  ultimately show ?thesis using skel_key_eq by blast
qed

theorem seen_graphs_refine_set_witness:
  "\<exists>hs. add_all (skeleton_graph_seen_or_add (\<lambda>_. True)) empty_hash_set [5, 7, 5] = Returns ([False, False, True], hs) \<and>
    skeleton_graph_seen hs 7 = Returns True \<and> skeleton_graph_seen hs 8 = Returns False"
proof -
  have "map (\<lambda>i. skel_key ([5, 7, 5] ! i) \<in> skel_key ` set (take i [5, 7, 5])) [0..<length [5, 7, 5 :: u64]] = [False, False, True]"
    "skel_key 7 \<in> skel_key ` set [5, 7, 5]" "skel_key 8 \<notin> skel_key ` set [5, 7, 5]"
    by (simp_all add: upt_rec skel_key_eq doubleton_eq_iff)
  moreover have "0 \<notin> set [5, 7, 5 :: u64]" "length [5, 7, 5 :: u64] \<le> 23488103" by simp_all
  from seen_graphs_refine_set [OF this] obtain hs where "add_all (skeleton_graph_seen_or_add (\<lambda>_. True)) empty_hash_set [5, 7, 5] =
      Returns (map (\<lambda>i. skel_key ([5, 7, 5] ! i) \<in> skel_key ` set (take i [5, 7, 5])) [0..<length [5, 7, 5 :: u64]], hs)"
    "\<forall>h. h \<noteq> 0 \<longrightarrow> skeleton_graph_seen hs h = Returns (skel_key h \<in> skel_key ` set [5, 7, 5])"
    by blast
  ultimately have "add_all (skeleton_graph_seen_or_add (\<lambda>_. True)) empty_hash_set [5, 7, 5] = Returns ([False, False, True], hs)"
    "skeleton_graph_seen hs 7 = Returns True" "skeleton_graph_seen hs 8 = Returns False" by (simp_all del: set_simps image_insert)
  then show ?thesis by blast
qed

section \<open>Where the check wraps around\<close>

lemma bind_assoc: "bind_outcome (bind_outcome r f) g = bind_outcome r (\<lambda>x. bind_outcome (f x) g)"
  by (cases r) auto

lemma add_all_append:
  "add_all add hs (xs @ ys) = bind_outcome (add_all add hs xs) (\<lambda>(bs, hs). bind_outcome (add_all add hs ys) (\<lambda>(cs, hs). Returns (bs @ cs, hs)))"
proof (induction xs arbitrary: hs)
  case Nil
  then show ?case by (cases "add_all add hs ys") auto
next
  case (Cons x xs)
  show ?case by (simp add: Cons bind_assoc split_def)
qed

text \<open>A set that the check wants to grow is grown.\<close>

lemma skel_grows:
  assumes "hs_live k hs" and "k \<le> 26" and "h \<noteq> 0" and "hs_cap hs * 70 \<le> hs_count hs * 100" and "card (hs_keys hs) < 2 ^ k"
  shows "\<exists>b hs'. skeleton_graph_seen_or_add (\<lambda>_. True) hs h = Returns (b, hs') \<and> hs_live (Suc k) hs' \<and>
    hs_keys hs' = insert (skel_key h) (hs_keys hs)"
proof -
  have c: "hs_cap hs = 2 ^ k" "hs_table hs \<noteq> None" "(2 :: u32) ^ k \<noteq> 0"
    using assms(1) unat_pow2 [where 'w = 32, of k] by (auto simp: hs_live_def)
  have "push_bit 1 (hs_cap hs) = 2 ^ Suc k" by (simp add: c)
  moreover obtain hs1 where 1: "skel_hash_rehash (\<lambda>_. True) (2 ^ Suc k) hs = Returns hs1" "hs_live (Suc k) hs1" "hs_keys hs1 = hs_keys hs"
    using skel_rehash_ok [OF assms(1), of "Suc k" "\<lambda>_. True"] assms(2,5) by auto
  moreover obtain hs2 where "seen_or_put (skel_key h) hs1 = Returns (skel_key h \<in> hs_keys hs1, hs2)" "hs_live (Suc k) hs2"
    "hs_keys hs2 = insert (skel_key h) (hs_keys hs1)"
    using put_ok [OF 1(2) skel_key_nonzero, of h] 1(3) assms(5) by auto
  ultimately show ?thesis using assms(3,4) c by (auto simp: skeleton_graph_seen_or_add_def simp del: power_Suc)
qed

lemma count_check:
  assumes "hs_live k hs" and "23488103 \<le> card (hs_keys hs)" and "card (hs_keys hs) < 42949672" and "c \<le> 2348810300"
  shows "c \<le> hs_count hs * 100"
proof -
  have "unat (hs_count hs * 100) = card (hs_keys hs) * 100" 
    using live_count [OF assms(1)] assms(3) by (simp add: unat_word_ariths)
  moreover have "unat c \<le> unat (2348810300 :: u32)" using assms(4) by (simp only: word_le_nat_alt)
  ultimately show ?thesis using assms(2) by (simp add: word_le_nat_alt)
qed

text \<open>From 23488103 graphs in \<open>2 ^ 25\<close> slots, every addition doubles the table, until the allocator refuses.\<close>

lemma third_aborts:
  assumes "hs_live 25 hs" and "card (hs_keys hs) = 23488103" and "0 \<notin> {a, b, c}"
  shows "add_all (skeleton_graph_seen_or_add (\<lambda>_. True)) hs [a, b, c] = Exits ABORTED"
proof -
  have cap: "hs_cap s = 2 ^ k" if "hs_live k s" for k s using that by (simp add: hs_live_def)
  have nz: "a \<noteq> 0" "b \<noteq> 0" "c \<noteq> 0" using assms(3) by auto
  have ins: "card (insert x (hs_keys s)) \<in> {card (hs_keys s), Suc (card (hs_keys s))}" for x s
    by (simp add: card_insert_if live_finite)
  have "hs_cap hs * 70 \<le> hs_count hs * 100" using count_check [OF assms(1)] assms(2) by (simp add: cap [OF assms(1)])
  from skel_grows [OF assms(1) _ nz(1) this] obtain x hs1 where 1: "skeleton_graph_seen_or_add (\<lambda>_. True) hs a = Returns (x, hs1)"
    "hs_live 26 hs1" "hs_keys hs1 = insert (skel_key a) (hs_keys hs)" using assms(2,3) by auto
  have n1: "card (hs_keys hs1) \<in> {23488103, 23488104}" using ins [of "skel_key a" hs] assms(2) 1(3) by simp
  then have "hs_cap hs1 * 70 \<le> hs_count hs1 * 100" using count_check [OF 1(2)] by (auto simp: cap [OF 1(2)])
  from skel_grows [OF 1(2) _ nz(2) this] obtain y hs2 where 2: "skeleton_graph_seen_or_add (\<lambda>_. True) hs1 b = Returns (y, hs2)"
    "hs_live 27 hs2" "hs_keys hs2 = insert (skel_key b) (hs_keys hs1)" using n1 assms(3) by auto
  have n2: "card (hs_keys hs2) \<in> {23488103, 23488104, 23488105}" using ins [of "skel_key b" hs1] n1 2(3) by auto
  then have "hs_cap hs2 * 70 \<le> hs_count hs2 * 100" using count_check [OF 2(2)] by (auto simp: cap [OF 2(2)])
  moreover have "hs_table hs2 \<noteq> None" "hs_cap hs2 \<noteq> 0" using 2(2) by (auto simp: hs_live_def)
  moreover have "skel_hash_rehash (\<lambda>_. True) (push_bit 1 (hs_cap hs2)) hs2 = Exits ABORTED"
  proof -
    have "round_up 33 1 (2 ^ 28) = Some (2 ^ 28)" using round_up_pow2 [of 0 28 33] by simp
    moreover have "push_bit 1 (hs_cap hs2) = 2 ^ 28" by (simp add: cap [OF 2(2)])
    moreover have "ck_alloc_table (\<lambda>_. True) (2 ^ 28) = Exits ABORTED" by (simp add: ck_alloc_table_def MAX_ALLOC_def)
    ultimately show ?thesis by (simp add: skel_hash_rehash_def skel_hash_init_def)
  qed
  ultimately have "skeleton_graph_seen_or_add (\<lambda>_. True) hs2 c = Exits ABORTED"
    using nz(3) by (auto simp: skeleton_graph_seen_or_add_def)
  then show ?thesis using 1(1) 2(1) by simp
qed

text \<open>
  C24. The set of the graphs seen stops growing early: its load check multiplies 32-bit counters, the
  products wrap around from \<open>2 ^ 26\<close> slots on, and with memory for everything the run is aborted at
  latest three additions after the 23488103rd distinct key, with a table of \<open>2 ^ 27\<close> slots
  less than a fifth full.
\<close>
theorem seen_graphs_wrap_aborts:
  assumes "0 \<notin> set hashes" and "length hashes = 23488103" and "distinct (map skel_key hashes)" and "0 \<notin> {a, b, c}"
  shows "add_all (skeleton_graph_seen_or_add (\<lambda>_. True)) empty_hash_set (hashes @ [a, b, c] @ rest) = Exits ABORTED \<and>
    23488106 * 5 < (2::nat) ^ 27"
proof -
  have "skel_inv empty_hash_set" by (simp add: skel_inv_def)
  then obtain hs bs where hs: "add_all (skeleton_graph_seen_or_add (\<lambda>_. True)) empty_hash_set hashes = Returns (bs, hs)"
    "skel_inv hs" "hs_keys hs = skel_key ` set hashes"
    using skel.session [of empty_hash_set hashes] assms(1,2) by auto
  have n: "card (hs_keys hs) = 23488103" unfolding hs(3) using assms(2,3) distinct_card [of "map skel_key hashes"] by simp
  then have "hs \<noteq> empty_hash_set" by auto
  then obtain k where k: "k \<le> 25" "hs_live k hs" "card (hs_keys hs) * 100 < 2 ^ k * 70 + 100"
    using hs(2) by (auto simp: skel_inv_def)
  have "\<not> k \<le> 24"
  proof
    assume "k \<le> 24"
    then have "(2::nat) ^ k \<le> 2 ^ 24" by (intro power_increasing) auto
    then show False using k(3) n by simp
  qed
  then have "k = 25" using k(1) by simp
  then have "hs_live 25 hs" using k(2) by simp
  from third_aborts [OF this n assms(4)] show ?thesis unfolding add_all_append hs(1) by simp
qed

text \<open>The hashes whose keys are the first numbers.\<close>

definition first_hashes :: "nat \<Rightarrow> u64 list" where
  "first_hashes n = map (\<lambda>i. of_nat i XOR 0x9e3779b97f4a7c15) [1..<Suc n]"

lemma first_hashes_keys:
  assumes "n < 2 ^ 32"
  shows "0 \<notin> set (first_hashes n)" and "map skel_key (first_hashes n) = map of_nat [1..<Suc n]" and "distinct (map skel_key (first_hashes n))"
proof -
  have u: "unat (of_nat i :: u64) = i" if "i \<le> n" for i
    unfolding unat_of_nat by (rule mod_less) (use that assms in simp)
  have x: "of_nat i XOR (0x9e3779b97f4a7c15 :: u64) = 0 \<longleftrightarrow> of_nat i = (0x9e3779b97f4a7c15 :: u64)" for i
  proof
    assume "of_nat i XOR (0x9e3779b97f4a7c15 :: u64) = 0"
    then have "(of_nat i XOR (0x9e3779b97f4a7c15 :: u64)) XOR 0x9e3779b97f4a7c15 = 0x9e3779b97f4a7c15" by simp
    then show "of_nat i = (0x9e3779b97f4a7c15 :: u64)" by (simp only: xor.assoc xor_self_eq xor.right_neutral)
  qed simp
  have "of_nat i \<noteq> (0x9e3779b97f4a7c15 :: u64)" if "i \<le> n" for i
  proof
    assume "of_nat i = (0x9e3779b97f4a7c15 :: u64)"
    then have "unat (of_nat i :: u64) = 0x9e3779b97f4a7c15" by simp
    then show False unfolding u [OF that] using that assms by simp
  qed
  then show "0 \<notin> set (first_hashes n)" using x by (force simp: first_hashes_def)
  have k: "skel_key (of_nat i XOR 0x9e3779b97f4a7c15) = of_nat i" if "1 \<le> i" "i \<le> n" for i
  proof -
    have "(of_nat i :: u64) \<noteq> 0" using u [OF that(2)] that(1) by (metis not_one_le_zero unsigned_0)
    then show ?thesis by (simp add: skel_key_def xor.assoc)
  qed
  then show m: "map skel_key (first_hashes n) = map of_nat [1..<Suc n]" by (simp add: first_hashes_def del: upt_Suc)
  have "inj_on (of_nat :: nat \<Rightarrow> u64) (set [1..<Suc n])" by (rule inj_on_inverseI [where g = unat]) (use u in auto)
  then show "distinct (map skel_key (first_hashes n))" unfolding m by (simp add: distinct_map del: upt_Suc)
qed

theorem seen_graphs_wrap_aborts_witness:
  "add_all (skeleton_graph_seen_or_add (\<lambda>_. True)) empty_hash_set (first_hashes 23488103 @ [1, 2, 3]) = Exits ABORTED"
  using seen_graphs_wrap_aborts [of "first_hashes 23488103" 1 2 3 "[]"] first_hashes_keys [of 23488103]
  by (simp add: first_hashes_def del: upt_Suc add_all.simps)

end
