(* ===== verification/RaceReports.thy ===== *)
theory RaceReports imports SeenSetsLaws EventPairSet EventGraphBinary begin

text \<open>
  The reporting of data races (\<^verbatim>\<open>main/src/sgf-fuzz-run.c\<close>): a racy graph is reported when the
  set of its racing instruction pairs has not been reported before. Pairs are compared by thread
  and instruction, without the visit. The races of a graph come from the race detector and the
  64-bit hash from a vendored library: both are parameters. Writing the report is left out.
\<close>

section \<open>Hashes of races\<close>

definition event_triple_cmp :: "event_triple \<Rightarrow> event_triple \<Rightarrow> int" where
  "event_triple_cmp a b =
     (if thread_id a \<noteq> thread_id b then (if sint (thread_id a) < sint (thread_id b) then - 1 else 1)
      else if instruction_id a \<noteq> instruction_id b then (if sint (instruction_id a) < sint (instruction_id b) then - 1 else 1)
      else 0)"

text \<open>The structure that is hashed: two events of a thread, four bytes of padding and an instruction each.\<close>

definition pair_bytes :: "event_triple \<Rightarrow> event_triple \<Rightarrow> u8 list" where
  "pair_bytes a b =
     le_bytes 4 (unat (thread_id a)) @ replicate 4 0 @ le_bytes 8 (unat (instruction_id a)) @
     le_bytes 4 (unat (thread_id b)) @ replicate 4 0 @ le_bytes 8 (unat (instruction_id b))"

definition race_pair_hash :: "(u8 list \<Rightarrow> u64 \<Rightarrow> u64) \<Rightarrow> event_triple \<Rightarrow> event_triple \<Rightarrow> u64" where
  "race_pair_hash hash64 a b =
     (let (a, b) = (if 0 < event_triple_cmp a b then (b, a) else (a, b)) in hash64 (pair_bytes a b) 0xa5b35705)"

definition u64_cmp :: "u64 \<Rightarrow> u64 \<Rightarrow> int" where
  "u64_cmp a b = (if a < b then - 1 else if b < a then 1 else 0)"

text \<open>The loop over the sorted hashes: each is mixed in once; \<open>prev\<close> is the one before.\<close>

fun mix_unique :: "u64 option \<Rightarrow> u64 list \<Rightarrow> u64 \<times> nat \<Rightarrow> u64 \<times> nat" where
  "mix_unique prev [] (hash, n) = (hash, n)"
| "mix_unique prev (x # xs) (hash, n) =
     mix_unique (Some x) xs (if prev = None \<or> prev \<noteq> Some x then ((hash XOR x) * 1099511628211, n + 1) else (hash, n))"

section \<open>Reporting\<close>

record race_state =
  total_races :: u64
  saved_races :: u64
  race_set :: hash_set

definition KEEP_UNIQUE_RACE :: u64 where "KEEP_UNIQUE_RACE = 25600"

text \<open>The races of a graph, as the detector's store answers for each index; \<open>None\<close> where it has no pair.\<close>

type_synonym races = "(event_triple \<times> event_triple) option list"

definition pair_hashes :: "(u8 list \<Rightarrow> u64 \<Rightarrow> u64) \<Rightarrow> races \<Rightarrow> u64 list" where
  "pair_hashes hash64 rs = concat (map (\<lambda>r. case r of None \<Rightarrow> [] | Some (a, b) \<Rightarrow> [race_pair_hash hash64 a b]) rs)"

text \<open>
  The array for the hashes: the allocator takes 32 bits of its size and gives at most
  \<open>MAX_ALLOC\<close> bytes, so up to \<open>2 ^ 27\<close> hashes; the answer is how many it holds. An array of no bytes
  is NULL, and the code does not look.
\<close>

definition ck_alloc_hashes :: "(nat \<Rightarrow> bool) \<Rightarrow> nat \<Rightarrow> nat outcome" where
  "ck_alloc_hashes grants rp_count =
     (let bytes = (of_nat (8 * rp_count) :: u32)
      in if bytes = 0 then Returns 0
         else if MAX_ALLOC < bytes then Exits ABORTED
         else if \<not> grants (unat bytes) then Exits ABORTED
         else Returns (unat bytes div 8))"

lemma ck_alloc_hashes_room:
  assumes "n \<le> 2 ^ 27" and "\<forall>m. grants m"
  shows "ck_alloc_hashes grants n = Returns n"
proof -
  have "8 * n < 2 ^ 32" using assms(1) by simp
  then have "unat (of_nat (8 * n) :: u32) = 8 * n" by (simp only: unat_of_nat) simp
  moreover from this have "(of_nat (8 * n) :: u32) \<le> MAX_ALLOC" using assms(1) by (simp only: word_le_nat_alt) (simp add: MAX_ALLOC_def)
  moreover have "(of_nat (8 * n) :: u32) = 0 \<longleftrightarrow> n = 0" using calculation(1) by (metis mult_is_0 unat_eq_zero zero_neq_numeral)
  ultimately show ?thesis using assms(2) by (auto simp: ck_alloc_hashes_def Let_def not_less)
qed

text \<open>The answer tells whether a report was written.\<close>

definition save_race_if_interesting ::
    "(nat \<Rightarrow> bool) \<Rightarrow> (u8 list \<Rightarrow> u64 \<Rightarrow> u64) \<Rightarrow> bool \<Rightarrow> bool \<Rightarrow> races \<Rightarrow> race_state \<Rightarrow> (bool \<times> race_state) outcome" where
  "save_race_if_interesting grants hash64 check_data_race is_racy rs st =
     (if \<not> check_data_race \<or> \<not> is_racy \<or> length rs < 1 then Returns (False, st)
      else let st = st\<lparr>total_races := total_races st + 1\<rparr>;
               hashes = pair_hashes hash64 rs
           in bind_outcome (ck_alloc_hashes grants (length rs)) (\<lambda>room.
                if room < length hashes then Exits (if room = 0 then SEGFAULT else UNDEFINED)
                else if hashes = [] then Returns (False, st)
                else let (hash, unique_pairs) = mix_unique None (qsort u64_cmp hashes) (14695981039346656037, 0)
                     in if unique_pairs = 0 then Returns (False, st)
                        else bind_outcome (race_set_add grants (race_set st) hash) (\<lambda>(new, hs).
                               let st = st\<lparr>race_set := hs\<rparr>
                               in if \<not> new then Returns (False, st)
                                  else if KEEP_UNIQUE_RACE \<le> saved_races st then Returns (False, st)
                                  else Returns (True, st\<lparr>saved_races := saved_races st + 1\<rparr>))))"

lemma pair_hashes_length: "length (pair_hashes hash64 rs) \<le> length rs"
  by (induction rs) (auto simp: pair_hashes_def split: option.split)

lemma pair_hashes_room: "\<not> length rs < length (pair_hashes hash64 rs)"
  using pair_hashes_length [of hash64 rs] by simp

section \<open>The fingerprint of a set of races\<close>

lemma sorted_insert_by: "sorted xs \<Longrightarrow> sorted (insert_by u64_cmp x xs)"
  by (induction xs) (auto simp: u64_cmp_def set_insert_by split: if_splits)

lemma sorted_qsort: "sorted (qsort u64_cmp xs)"
  by (induction xs) (auto intro: sorted_insert_by)

definition mix :: "u64 \<Rightarrow> u64 \<Rightarrow> u64" where
  "mix hash x = (hash XOR x) * 1099511628211"

lemma remdups_adj_step:
  "foldl f h (remdups_adj (x # xs)) = foldl f (f h x) (tl (remdups_adj (x # xs)))"
  "length (remdups_adj (x # xs)) = Suc (length (tl (remdups_adj (x # xs))))"
  by (metis remdups_adj_Cons_alt foldl_Cons) (metis remdups_adj_Cons_alt length_Cons)

lemma mix_unique_Some:
  "mix_unique (Some p) xs (hash, n) = (foldl mix hash (tl (remdups_adj (p # xs))), n + length (tl (remdups_adj (p # xs))))"
proof (induction xs arbitrary: p hash n)
  case (Cons x xs)
  show ?case
  proof (cases "p = x")
    case False
    then have "tl (remdups_adj (p # x # xs)) = remdups_adj (x # xs)" by simp
    then show ?thesis using False Cons [of x] remdups_adj_step(1) [of mix hash x xs] remdups_adj_step(2) [of x xs] mix_def [of hash x] by (simp del: length_tl)
  qed (simp add: Cons)
qed simp

lemma mix_unique_foldl: "mix_unique None xs (hash, 0) = (foldl mix hash (remdups_adj xs), length (remdups_adj xs))"
proof (cases xs)
  case (Cons x ys)
  show ?thesis unfolding Cons remdups_adj_step by (simp add: mix_unique_Some mix_def [of hash x])
qed simp

lemma sorted_distinct_adj: "sorted (xs :: u64 list) \<Longrightarrow> distinct (remdups_adj xs)"
  by (induction xs rule: remdups_adj.induct) auto

text \<open>Threads and instructions of the racing pairs, unordered.\<close>

definition event_point :: "event_triple \<Rightarrow> s32 \<times> s64" where
  "event_point e = (thread_id e, instruction_id e)"

definition static_races :: "races \<Rightarrow> (s32 \<times> s64) set set" where
  "static_races rs = {{event_point a, event_point b} | a b. Some (a, b) \<in> set rs}"

definition fingerprint :: "(u8 list \<Rightarrow> u64 \<Rightarrow> u64) \<Rightarrow> races \<Rightarrow> u64" where
  "fingerprint hash64 rs = fst (mix_unique None (qsort u64_cmp (pair_hashes hash64 rs)) (14695981039346656037, 0))"

lemma cmp_sign:
  "event_triple_cmp a b = - event_triple_cmp b a" "event_triple_cmp a b = 0 \<longleftrightarrow> event_point a = event_point b"
  by (auto simp: event_triple_cmp_def event_point_def simp flip: word_eq_iff_signed)

lemma point_bytes: "event_point a = event_point c \<Longrightarrow> event_point b = event_point d \<Longrightarrow>
    pair_bytes a b = pair_bytes c d \<and> event_triple_cmp a b = event_triple_cmp c d"
  by (simp add: pair_bytes_def event_triple_cmp_def event_point_def)

lemma race_pair_hash_static:
  assumes "{event_point a, event_point b} = {event_point c, event_point d}"
  shows "race_pair_hash hash64 a b = race_pair_hash hash64 c d"
proof -
  consider "event_point a = event_point c" "event_point b = event_point d" | "event_point a = event_point d" "event_point b = event_point c"
    using assms by (auto simp: doubleton_eq_iff)
  then show ?thesis
  proof cases
    case 1
    then show ?thesis using point_bytes [of a c b d] point_bytes [of b d a c] by (simp add: race_pair_hash_def)
  next
    case 2
    note p = point_bytes [of a d b c] point_bytes [of b c a d]
    show ?thesis
    proof (cases "event_triple_cmp a b = 0")
      case True
      then have "event_triple_cmp c d = 0" "event_point a = event_point b" using 2 p cmp_sign(1) [of c d] cmp_sign(2) by auto
      then show ?thesis using True 2 point_bytes [of a c b d] by (simp add: race_pair_hash_def)
    next
      case False
      then show ?thesis using 2 p cmp_sign(1) [of d c] by (auto simp: race_pair_hash_def)
    qed
  qed
qed

lemma pair_hashes_set:
  "h \<in> set (pair_hashes hash64 rs) \<longleftrightarrow> (\<exists>a b. Some (a, b) \<in> set rs \<and> h = race_pair_hash hash64 a b)"
proof (induction rs)
  case (Cons r rs)
  have "set (pair_hashes hash64 (r # rs)) = (case r of None \<Rightarrow> {} | Some (a, b) \<Rightarrow> {race_pair_hash hash64 a b}) \<union> set (pair_hashes hash64 rs)"
    by (simp add: pair_hashes_def split: option.split)
  then show ?case using Cons by (cases r) auto
qed (simp add: pair_hashes_def)

lemma pair_hashes_static:
  assumes "static_races rs = static_races rs'"
  shows "set (pair_hashes hash64 rs) = set (pair_hashes hash64 rs')"
proof -
  have "set (pair_hashes hash64 p) \<subseteq> set (pair_hashes hash64 q)" if e: "static_races p = static_races q" for p q
  proof
    fix h assume "h \<in> set (pair_hashes hash64 p)"
    then obtain a b where ab: "h = race_pair_hash hash64 a b" "Some (a, b) \<in> set p" by (auto simp: pair_hashes_set)
    have "{event_point a, event_point b} \<in> static_races p"
      unfolding static_races_def mem_Collect_eq by (rule exI [of _ a], rule exI [of _ b]) (simp add: ab(2))
    then have "{event_point a, event_point b} \<in> static_races q" using e by simp
    then obtain c d where "Some (c, d) \<in> set q" "{event_point a, event_point b} = {event_point c, event_point d}"
      unfolding static_races_def mem_Collect_eq by (elim exE conjE)
    moreover from this have "h = race_pair_hash hash64 c d" unfolding ab(1) by (intro race_pair_hash_static)
    ultimately show "h \<in> set (pair_hashes hash64 q)" unfolding pair_hashes_set by blast
  qed
  from this [OF assms] this [OF assms [symmetric]] show ?thesis by (rule equalityI)
qed

lemma fingerprint_sorted:
  "mix_unique None (qsort u64_cmp (pair_hashes hash64 rs)) (h, 0) =
    (foldl mix h (sorted_list_of_set (set (pair_hashes hash64 rs))), card (set (pair_hashes hash64 rs)))"
proof -
  let ?xs = "qsort u64_cmp (pair_hashes hash64 rs)"
  have s: "sorted (remdups_adj ?xs)" "distinct (remdups_adj ?xs)" "set (remdups_adj ?xs) = set (pair_hashes hash64 rs)"
    using sorted_qsort [of "pair_hashes hash64 rs"] by (simp_all add: sorted_remdups_adj sorted_distinct_adj set_qsort)
  have "remdups_adj ?xs = sorted_list_of_set (set (pair_hashes hash64 rs))"
    by (rule sorted_distinct_set_unique [OF s(1,2)]) (simp_all add: set_qsort)
  moreover have "length (remdups_adj ?xs) = card (set (pair_hashes hash64 rs))" using distinct_card [OF s(2)] unfolding s(3) by simp
  ultimately show ?thesis unfolding mix_unique_foldl by simp
qed

lemma fingerprint_static: "static_races rs = static_races rs' \<Longrightarrow> fingerprint hash64 rs = fingerprint hash64 rs'"
  unfolding fingerprint_def fingerprint_sorted using pair_hashes_static [of rs rs' hash64] by simp

section \<open>Reports\<close>

text \<open>The racy graphs of a campaign, one after the other.\<close>

fun report_all :: "(u8 list \<Rightarrow> u64 \<Rightarrow> u64) \<Rightarrow> race_state \<Rightarrow> races list \<Rightarrow> (bool list \<times> race_state) outcome" where
  "report_all hash64 st [] = Returns ([], st)"
| "report_all hash64 st (rs # rss) =
     bind_outcome (save_race_if_interesting (\<lambda>_. True) hash64 True True rs st) (\<lambda>(b, st).
       bind_outcome (report_all hash64 st rss) (\<lambda>(bs, st). Returns (b # bs, st)))"

definition has_race :: "races \<Rightarrow> bool" where
  "has_race rs \<longleftrightarrow> (\<exists>r\<in>set rs. r \<noteq> None)"

lemma save_race_fingerprint:
  assumes "has_race rs" and "length rs \<le> 2 ^ 27" and "race_set_add (\<lambda>_. True) (race_set st) (fingerprint hash64 rs) = Returns (new, hs)"
    and "saved_races st < KEEP_UNIQUE_RACE"
  shows "save_race_if_interesting (\<lambda>_. True) hash64 True True rs st =
    Returns (new, st\<lparr>total_races := total_races st + 1, race_set := hs, saved_races := saved_races st + (if new then 1 else 0)\<rparr>)"
proof -
  obtain a b where "Some (a, b) \<in> set rs" using assms(1) by (auto simp: has_race_def)
  then have ne: "rs \<noteq> []" "pair_hashes hash64 rs \<noteq> []" using pair_hashes_set [of "race_pair_hash hash64 a b" hash64 rs] by auto
  obtain hash n where m: "mix_unique None (qsort u64_cmp (pair_hashes hash64 rs)) (14695981039346656037, 0) = (hash, n)" by fastforce
  then have "hash = fingerprint hash64 rs" "n = card (set (pair_hashes hash64 rs))"
    using fingerprint_sorted [of hash64 rs 14695981039346656037] by (simp_all add: fingerprint_def)
  moreover from this have "n \<noteq> 0" using ne(2) by simp
  moreover have "length rs \<noteq> 0" using ne(1) by simp
  moreover have "ck_alloc_hashes (\<lambda>_. True) (length rs) = Returns (length rs)" using ck_alloc_hashes_room [OF assms(2)] by simp
  ultimately show ?thesis using ne m assms(3,4) pair_hashes_room [of rs hash64]
    by (cases new) (simp_all add: save_race_if_interesting_def not_le Let_def)
qed

lemma report_all_adds:
  assumes "\<forall>rs\<in>set rss. has_race rs \<and> length rs \<le> 2 ^ 27" and "unat (saved_races st) + length rss \<le> 25600"
    and "add_all (race_set_add (\<lambda>_. True)) (race_set st) (map (fingerprint hash64) rss) = Returns (bs, set')"
  shows "report_all hash64 st rss = Returns (bs, st\<lparr>total_races := total_races st + of_nat (length rss), race_set := set',
    saved_races := saved_races st + of_nat (length (filter id bs))\<rparr>)"
  using assms
proof (induction rss arbitrary: st bs)
  case (Cons rs rss)
  obtain new set1 cs where 1: "race_set_add (\<lambda>_. True) (race_set st) (fingerprint hash64 rs) = Returns (new, set1)"
    and 2: "add_all (race_set_add (\<lambda>_. True)) set1 (map (fingerprint hash64) rss) = Returns (cs, set')" "bs = new # cs"
    using Cons.prems(3) by auto
  have k: "unat KEEP_UNIQUE_RACE = 25600" by (simp add: KEEP_UNIQUE_RACE_def)
  have lim: "saved_races st < KEEP_UNIQUE_RACE" using Cons.prems(2) by (simp add: word_less_nat_alt k)
  let ?st = "st\<lparr>total_races := total_races st + 1, race_set := set1, saved_races := saved_races st + (if new then 1 else 0)\<rparr>"
  have "unat (saved_races st + (if new then 1 else 0)) \<le> Suc (unat (saved_races st))"
    by (cases new) (simp_all add: unat_word_ariths)
  then have "unat (saved_races ?st) + length rss \<le> 25600" using Cons.prems(2) by simp
  from Cons.IH [of ?st, OF _ this] show ?case
    using Cons.prems(1) 2 save_race_fingerprint [OF _ _ 1 lim] by (simp add: add.assoc)
qed simp

lemma race_step:
  assumes "race_inv hs" and "card (hs_keys hs) < 100663296" and "\<forall>n. grants n"
  shows "\<exists>hs'. race_set_add grants hs h = Returns (\<not> race_key h \<in> hs_keys hs, hs') \<and> race_inv hs' \<and>
    hs_keys hs' = insert (race_key h) (hs_keys hs)"
proof -
  obtain k hs1 where 1: "10 \<le> k" "k \<le> 27" "hs_live k hs1" "hs_keys hs1 = hs_keys hs" "card (hs_keys hs) * 4 < 2 ^ k * 3 + 4"
    and i: "(if hs_cap hs = 0 then race_set_init grants hs else Returns hs) = Returns hs1"
  proof (cases "hs = empty_hash_set")
    case True
    have "ck_alloc_table grants 1024 = Returns (replicate 1024 0)" using alloc_pow2 [of 10 grants] assms(3) by simp
    then show ?thesis using True fresh_hs_live [of 10] that [of 10] by (simp add: race_set_init_def)
  next
    case False
    then obtain k where k: "10 \<le> k" "k \<le> 27" "hs_live k hs" "card (hs_keys hs) * 4 < 2 ^ k * 3 + 4"
      using assms(1) by (auto simp: race_inv_def)
    have "hs_cap hs \<noteq> 0" using k unat_pow2 [where 'w = 32, of k] by (auto simp: hs_live_def)
    then show ?thesis using k that [of k hs] by auto
  qed
  have p: "(2::nat) ^ k \<le> 2 ^ 27" "(2::nat) ^ 10 \<le> 2 ^ k" using 1(1,2) by (intro power_increasing; simp)+
  have chk: "hs_cap hs1 * 3 \<le> hs_count hs1 * 4 \<longleftrightarrow> 2 ^ k * 3 \<le> card (hs_keys hs) * 4"
    using load_check [OF 1(3), of 3 4] p assms(2) 1(4) by simp
  obtain j hs2 where 2: "10 \<le> j" "j \<le> 27" "hs_live j hs2" "hs_keys hs2 = hs_keys hs" "card (hs_keys hs) * 4 < 2 ^ j * 3"
    and r: "(if hs_cap hs1 * 3 \<le> hs_count hs1 * 4 then race_set_grow grants hs1 else Returns hs1) = Returns hs2"
  proof (cases "hs_cap hs1 * 3 \<le> hs_count hs1 * 4")
    case True
    have "k \<noteq> 27" using True assms(2) chk by auto
    moreover have "card (hs_keys hs1) \<le> 2 ^ Suc k" using 1(4,5) p by simp
    moreover have "card (hs_keys hs) * 4 < 2 ^ Suc k * 3" using 1(5) p by simp
    ultimately show ?thesis using True 1 assms(3) race_grow_ok [OF 1(3), of grants] that [of "Suc k"] by auto
  next
    case False
    then show ?thesis using 1 chk that [of k hs1] by simp
  qed
  have "card (hs_keys hs2) < 2 ^ j" using 2(4,5) by simp
  from put_ok [OF 2(3) race_key_nonzero this] obtain hs3 where 3: "seen_or_put (race_key h) hs2 = Returns (race_key h \<in> hs_keys hs2, hs3)"
    "hs_live j hs3" "hs_keys hs3 = insert (race_key h) (hs_keys hs2)" by blast
  have "card (hs_keys hs3) \<le> Suc (card (hs_keys hs))" using 3(3) 2(4) live_finite [of hs] by (simp add: card_insert_if)
  then have "race_inv hs3" using 2 3(2) unfolding race_inv_def by auto
  moreover have "race_set_add grants hs h = Returns (\<not> race_key h \<in> hs_keys hs, hs3)"
    unfolding race_set_add_def i using r 3(1) 2(4) by simp
  ultimately show ?thesis using 3(3) 2(4) by auto
qed

text \<open>Memory for everything, and arrays for the races of every graph.\<close>

definition memory_suffices where
  "memory_suffices grants races_of \<longleftrightarrow> (\<forall>n. grants (n :: nat)) \<and> (\<forall>s. length (races_of s :: races) \<le> 2 ^ 27)"

interpretation races: dedup "race_set_add (\<lambda>_. True)" race_key Not race_inv "\<lambda>_. True" 100663296
  by unfold_locales (auto simp: live_finite intro!: race_step)

text \<open>
  C16. Race reports: over any sequence of at most 25600 racy graphs (each with at most \<open>2 ^ 27\<close>
  racing pairs, whose hashes the allocator has room for), a graph is reported exactly when
  the key of its fingerprint is new; every graph is counted; and the fingerprint depends only on the
  set of unordered pairs of threads and instructions that race, not on the visits, nor on the order,
  orientation or repetition of the pairs.
\<close>
theorem races_reported_once:
  assumes "\<forall>rs\<in>set rss. has_race rs \<and> length rs \<le> 2 ^ 27" and "length rss \<le> 25600"
  shows "\<exists>st. report_all hash64 \<lparr>total_races = 0, saved_races = 0, race_set = empty_hash_set\<rparr> rss =
      Returns (map (\<lambda>i. race_key (fingerprint hash64 (rss ! i)) \<notin> (race_key \<circ> fingerprint hash64) ` set (take i rss)) [0..<length rss], st) \<and>
    total_races st = of_nat (length rss) \<and>
    (\<forall>rs rs'. static_races rs = static_races rs' \<longrightarrow> fingerprint hash64 rs = fingerprint hash64 rs')"
proof -
  let ?st = "\<lparr>total_races = 0, saved_races = 0, race_set = empty_hash_set\<rparr>" and ?fs = "map (fingerprint hash64) rss"
  have "race_inv empty_hash_set" by (simp add: race_inv_def)
  then obtain hs where "add_all (race_set_add (\<lambda>_. True)) (race_set ?st) ?fs =
      Returns (map (\<lambda>i. \<not> race_key (?fs ! i) \<in> race_key ` set (take i ?fs)) [0..<length rss], hs)"
    using races.session [of empty_hash_set ?fs] assms(2) by auto
  moreover have "map (\<lambda>i. \<not> race_key (?fs ! i) \<in> race_key ` set (take i ?fs)) [0..<length rss] =
      map (\<lambda>i. race_key (fingerprint hash64 (rss ! i)) \<notin> (race_key \<circ> fingerprint hash64) ` set (take i rss)) [0..<length rss]"
    by (rule map_cong [OF refl]) (simp add: take_map image_comp)
  ultimately have "add_all (race_set_add (\<lambda>_. True)) (race_set ?st) ?fs =
      Returns (map (\<lambda>i. race_key (fingerprint hash64 (rss ! i)) \<notin> (race_key \<circ> fingerprint hash64) ` set (take i rss)) [0..<length rss], hs)"
    by simp
  note a = report_all_adds [OF assms(1) _ this]
  have "unat (saved_races ?st) + length rss \<le> 25600" using assms(2) by simp
  from a [OF this] have "\<exists>st. report_all hash64 ?st rss =
      Returns (map (\<lambda>i. race_key (fingerprint hash64 (rss ! i)) \<notin> (race_key \<circ> fingerprint hash64) ` set (take i rss)) [0..<length rss], st) \<and>
    total_races st = of_nat (length rss)" by (intro exI conjI) (assumption, simp)
  moreover have "\<forall>rs rs'. static_races rs = static_races rs' \<longrightarrow> fingerprint hash64 rs = fingerprint hash64 rs'"
    by (intro allI impI fingerprint_static)
  ultimately show ?thesis by blast
qed

text \<open>One race seen twice, the second time the other way round and in a later visit.\<close>

theorem races_reported_once_witness:
  "\<exists>st. report_all (\<lambda>_ _. 9) \<lparr>total_races = 0, saved_races = 0, race_set = empty_hash_set\<rparr>
      [[Some (\<lparr>thread_id = 1, instruction_id = 7, visit_id = 1\<rparr>, \<lparr>thread_id = 2, instruction_id = 8, visit_id = 1\<rparr>)],
       [Some (\<lparr>thread_id = 2, instruction_id = 8, visit_id = 1\<rparr>, \<lparr>thread_id = 1, instruction_id = 7, visit_id = 5\<rparr>)]] =
    Returns ([True, False], st) \<and> total_races st = 2"
proof -
  let ?a = "[Some (\<lparr>thread_id = 1, instruction_id = 7, visit_id = 1\<rparr>, \<lparr>thread_id = 2, instruction_id = 8, visit_id = 1\<rparr>)] :: races"
  let ?b = "[Some (\<lparr>thread_id = 2, instruction_id = 8, visit_id = 1\<rparr>, \<lparr>thread_id = 1, instruction_id = 7, visit_id = 5\<rparr>)] :: races"
  let ?h = "\<lambda>_ _. 9 :: u64"
  have h: "\<forall>rs\<in>set [?a, ?b]. has_race rs \<and> length rs \<le> 2 ^ 27" "length [?a, ?b] \<le> 25600" by (simp_all add: has_race_def)
  obtain st where st: "report_all ?h \<lparr>total_races = 0, saved_races = 0, race_set = empty_hash_set\<rparr> [?a, ?b] =
      Returns (map (\<lambda>i. race_key (fingerprint ?h ([?a, ?b] ! i)) \<notin> (race_key \<circ> fingerprint ?h) ` set (take i [?a, ?b])) [0..<length [?a, ?b]], st)"
    "total_races st = of_nat (length [?a, ?b])"
    and f: "\<forall>rs rs'. static_races rs = static_races rs' \<longrightarrow> fingerprint ?h rs = fingerprint ?h rs'"
    using races_reported_once [OF h, of ?h] by blast
  have "static_races ?a = {{(1, 7), (2, 8)}}" "static_races ?b = {{(2, 8), (1, 7)}}" by (simp_all add: static_races_def event_point_def)
  moreover have "{(1 :: s32, 7 :: s64), (2, 8)} = {(2, 8), (1, 7)}" by (rule insert_commute)
  ultimately have "static_races ?b = static_races ?a" by (simp only:)
  then have e: "fingerprint ?h ?b = fingerprint ?h ?a" by (rule f [rule_format])
  have m: "map (\<lambda>i. race_key (fingerprint ?h ([?a, ?b] ! i)) \<notin> (race_key \<circ> fingerprint ?h) ` set (take i [?a, ?b])) [0..<length [?a, ?b]] =
      [True, False]"
    by (simp add: upt_rec e)
  have "report_all ?h \<lparr>total_races = 0, saved_races = 0, race_set = empty_hash_set\<rparr> [?a, ?b] = Returns ([True, False], st)"
    using st(1) unfolding m .
  moreover have "total_races st = 2" using st(2) by simp
  ultimately show ?thesis by blast
qed

end
