(* ===== verification/FuzzState.thy ===== *)
theory FuzzState imports Carith RaceReports QueueDispatch begin

text \<open>
  The state of the graph fuzzer, as far as its own logic uses it (\<^verbatim>\<open>main/include/sgf-fuzz.h\<close>), and
  the interface of the mutator. The graphs, potentials, stores of racing pairs and feedback that
  the C++ mutator, the race detector and the simulator hand out are opaque to the fuzzer: they are
  the type variables \<open>'g\<close>, \<open>'p\<close>, \<open>'r\<close> and \<open>'f\<close>, and the functions it calls on
  them are the record \<open>mutator\<close>. The answers of a run that chance or the program under test
  decides are the record \<open>answers\<close>. Freeing memory, files and the screen are left out.
\<close>

section \<open>Phases and mutations\<close>

datatype phase = MO_FOOTPRINT_DRIVEN_PHASE | RF_FOOTPRINT_DRIVEN_PHASE | POTENTIAL_DRIVEN_PHASE | PRUNING_PHASE

datatype mutation_kind = MUT_NONE | MUT_ADD_READ | MUT_ADD_WRITE | MUT_ADD_RMW | MUT_ADD_CAS_SUCCESS
  | MUT_ADD_CAS_FAIL | MUT_ADD_FENCE | MUT_MUTATE_RF | MUT_FLIP_CAS

record mutation_info =
  mut_kind :: mutation_kind
  mut_dest :: event_triple

definition no_mutation :: mutation_info where
  "no_mutation = \<lparr>mut_kind = MUT_NONE, mut_dest = \<lparr>thread_id = 0, instruction_id = 0, visit_id = 0\<rparr>\<rparr>"

section \<open>Graphs in the queue\<close>

text \<open>The fields of \<open>SkeletonGraphData\<close>; an object that is not there is \<open>None\<close>.\<close>

record ('g, 'p, 'r, 'f) sgdata =
  gd_id :: u32
  skeleton_graph :: "'g option"
  sim_exit_code :: u8
  already_simulated :: bool
  simulator_feedback :: "'f option"
  forbidden_mutations :: "event_triple set option"
  is_racy :: bool
  racy_event_count :: u32
  race_pairs :: "'r option"
  skeleton_potential :: "'p option"
  potential_indexed :: bool
  potential_score_ready :: bool
  potential_score_epoch :: u64
  potential_score :: double
  mo_footprint_score :: double
  rf_footprint_score :: double
  decay_ratio :: double
  children_enqueued :: u32

definition zero_data :: "('g, 'p, 'r, 'f) sgdata" where
  "zero_data = \<lparr>gd_id = 0, skeleton_graph = None, sim_exit_code = 0, already_simulated = False, simulator_feedback = None,
     forbidden_mutations = None, is_racy = False, racy_event_count = 0, race_pairs = None, skeleton_potential = None,
     potential_indexed = False, potential_score_ready = False, potential_score_epoch = 0, potential_score = Fin 0,
     mo_footprint_score = Fin 0, rf_footprint_score = Fin 0, decay_ratio = Fin 0, children_enqueued = 0\<rparr>"

record ('g, 'p, 'r, 'f) queue_entry =
  qe_id :: u32
  disabled :: bool
  depth :: u64
  perf_score :: double
  data :: "('g, 'p, 'r, 'f) sgdata"

section \<open>The fuzzer\<close>

text \<open>
  \<open>entries\<close> is \<open>queue_buf\<close>; an entry is named by its position. \<open>indexed\<close> are the entries
  of the nearest-neighbour index.
\<close>

record ('g, 'p, 'r, 'f) sgf_state =
  do_intelligent_sg_fuzzing :: bool
  check_data_race :: bool
  enable_feedback :: bool
  complete_graph_budget :: u32
  skeleton_graph_stage_max :: u8
  cutoff_percentile :: u8
  potential_nn_recalc_interval :: u32
  current_phase :: phase
  previous_phase :: phase
  in_pruning_phase :: bool
  pruning_seeds_fuzzed :: u32
  pruning_start_queued_items :: u32
  consecutive_stagnant_seeds :: u32
  consecutive_productive_seeds :: u32
  queue_cycle :: u64
  cycles_wo_finds :: u64
  queued_items :: u32
  active_items :: u32
  pending_not_fuzzed :: u32
  max_queued_id :: u32
  max_depth :: u64
  cur_depth :: u64
  potential_nn_epoch :: u64
  queued_mu :: double
  queued_mad :: double
  cutoff_score :: double
  mutation_count :: "mutation_kind \<Rightarrow> u32"
  graph_id :: u32
  seen_graphs :: hash_set
  race_reports :: race_state
  entries :: "('g, 'p, 'r, 'f) queue_entry list"
  queue_top :: "nat option"
  queue_cur :: "nat option"
  current_entry :: u32
  indexed :: "nat list"
  bounded_queue :: queue_handle

section \<open>What the fuzzer calls\<close>

record ('g, 'p, 'r) mutator =
  empty_skeleton_graph :: 'g
  hash_skeleton_graph :: "'g \<Rightarrow> u64"
  create_skeleton_potential :: "'g \<Rightarrow> 'p option"
  update_potential :: "'p \<Rightarrow> 'g \<Rightarrow> mutation_info \<Rightarrow> 'p option"
  get_potential_count :: "'p \<Rightarrow> nat"
  get_max_static_potential :: nat
  mo_footprint_calc :: "'g \<Rightarrow> double"
  rf_footprint_calc :: "'g \<Rightarrow> double"
  race_pair_store_collect :: "'g \<Rightarrow> 'r"
  race_pair_store_update :: "'r \<Rightarrow> 'g \<Rightarrow> event_triple \<Rightarrow> 'r"
  race_pair_list :: "'r \<Rightarrow> races"
  hash64 :: "u8 list \<Rightarrow> u64 \<Rightarrow> u64"
  grants :: "nat \<Rightarrow> bool"

text \<open>
  The answers during one mutation: what the \<open>k\<close>th call of the mutator returns, whether the graph
  can be handed over, how the run ends (the fault of the fork server and the exit status, when the
  program exited), the feedback, and the nearest neighbour.
\<close>

record ('g, 'f) answers =
  mutated :: "nat \<Rightarrow> 'g option \<times> mutation_info"
  handed_over :: bool
  run_fault :: u8
  run_status :: "u8 option"
  shm_feedback :: "'f option"
  nn_diff :: "double option"

end
