(* ===== verification/FuzzScores.thy ===== *)
theory FuzzScores imports FuzzState begin

text \<open>
  The scores of graphs (\<^verbatim>\<open>main/src/sgf-fuzz-queue.c\<close>), the cutoff below which a new graph is
  dropped, the forbidden mutations (\<^verbatim>\<open>main/src/sgf-fuzz-one.c\<close>) and the decay of a seed's score.
  The rounding of the arithmetic is the parameter \<open>r\<close>; \<open>nn\<close> is the answer of the
  nearest-neighbour index.
\<close>

section \<open>Scores\<close>

definition cached_score :: "('g, 'p, 'r, 'f) sgf_state \<Rightarrow> ('g, 'p, 'r, 'f) sgdata \<Rightarrow> bool" where
  "cached_score sgf d \<longleftrightarrow> skeleton_potential d \<noteq> None \<and> potential_score_ready d \<and>
     (let epoch_gap = (if potential_score_epoch d \<le> potential_nn_epoch sgf
            then potential_nn_epoch sgf - potential_score_epoch d else 0)
      in potential_nn_recalc_interval sgf = 0 \<or> epoch_gap < ucast (potential_nn_recalc_interval sgf))"

definition calculate_potential_score ::
    "rounding \<Rightarrow> ('g, 'p, 'r) mutator \<Rightarrow> double option \<Rightarrow> ('g, 'p, 'r, 'f) sgf_state \<Rightarrow> ('g, 'p, 'r, 'f) sgdata \<Rightarrow>
     double \<times> ('g, 'p, 'r, 'f) sgdata" where
  "calculate_potential_score r mut nn sgf d =
     (if \<not> do_intelligent_sg_fuzzing sgf then (Fin 100, d)
      else if cached_score sgf d then (at_most (Fin 100) (at_least (Fin 1) (potential_score d)), d)
      else
        let d = (if skeleton_potential d = None \<and> skeleton_graph d \<noteq> None
                 then d\<lparr>skeleton_potential := create_skeleton_potential mut (the (skeleton_graph d))\<rparr> else d);
            potential_count = (case skeleton_potential d of None \<Rightarrow> 0 | Some p \<Rightarrow> get_potential_count mut p);
            max_pot = (if get_max_static_potential mut = 0 then 1 else get_max_static_potential mut);
            cap_ratio = at_least (Fin 0) (at_most (Fin 1) (ddiv r (r (real potential_count)) (r (real max_pot))));
            found = (if skeleton_potential d = None then None else nn);
            nov_ratio = (case found of Some diff \<Rightarrow> at_least (Fin 0) (at_most (Fin 1) (ddiv r diff (Fin 100))) | None \<Rightarrow> Fin 1);
            blended_ratio = dadd r (dmul r (Fin (1 / 2)) cap_ratio) (dmul r (Fin (1 / 2)) nov_ratio);
            score = at_most (Fin 100) (at_least (Fin 1) (dadd r (Fin 1) (dmul r (Fin 99) blended_ratio)))
        in (score, if skeleton_potential d = None then d
                   else d\<lparr>potential_score_ready := True, potential_score_epoch := potential_nn_epoch sgf, potential_score := score\<rparr>))"

definition calculate_mo_footprint_score where
  "calculate_mo_footprint_score mut sgf d =
     (if \<not> do_intelligent_sg_fuzzing sgf then (Fin 100, d)
      else let score = at_most (Fin 100) (at_least (Fin 1)
                 (case skeleton_graph d of None \<Rightarrow> Fin 1 | Some g \<Rightarrow> mo_footprint_calc mut g))
           in (score, d\<lparr>mo_footprint_score := score\<rparr>))"

definition calculate_rf_footprint_score where
  "calculate_rf_footprint_score mut sgf d =
     (if \<not> do_intelligent_sg_fuzzing sgf then (Fin 100, d)
      else let score = at_most (Fin 100) (at_least (Fin 1)
                 (case skeleton_graph d of None \<Rightarrow> Fin 1 | Some g \<Rightarrow> rf_footprint_calc mut g))
           in (score, d\<lparr>rf_footprint_score := score\<rparr>))"

text \<open>The weights of the potential, the modification-order and the reads-from footprint in a phase.\<close>

definition score_weights :: "rounding \<Rightarrow> phase \<Rightarrow> double \<times> double \<times> double" where
  "score_weights r ph =
     (case ph of
        MO_FOOTPRINT_DRIVEN_PHASE \<Rightarrow> (r (2 / 10), r (6 / 10), r (2 / 10))
      | RF_FOOTPRINT_DRIVEN_PHASE \<Rightarrow> (r (2 / 10), r (2 / 10), r (6 / 10))
      | POTENTIAL_DRIVEN_PHASE \<Rightarrow> (r (6 / 10), r (2 / 10), r (2 / 10))
      | PRUNING_PHASE \<Rightarrow> (ddiv r (Fin 1) (Fin 3), ddiv r (Fin 1) (Fin 3), ddiv r (Fin 1) (Fin 3)))"

definition combined_score :: "rounding \<Rightarrow> phase \<Rightarrow> double \<Rightarrow> double \<Rightarrow> double \<Rightarrow> double" where
  "combined_score r ph potential mo rf =
     (let (alpha, beta, gamma) = score_weights r ph
      in at_most (Fin 100) (at_least (Fin 1)
           (dadd r (dadd r (dmul r alpha potential) (dmul r beta mo)) (dmul r gamma rf))))"

definition calculate_score ::
    "rounding \<Rightarrow> ('g, 'p, 'r) mutator \<Rightarrow> double option \<Rightarrow> ('g, 'p, 'r, 'f) sgf_state \<Rightarrow> ('g, 'p, 'r, 'f) sgdata \<Rightarrow>
     double \<times> ('g, 'p, 'r, 'f) sgdata" where
  "calculate_score r mut nn sgf d =
     (if \<not> do_intelligent_sg_fuzzing sgf then (Fin 100, d)
      else let (p, d) = calculate_potential_score r mut nn sgf d;
               (mo, d) = calculate_mo_footprint_score mut sgf d;
               (rf, d) = calculate_rf_footprint_score mut sgf d
           in (combined_score r (current_phase sgf) p mo rf, d))"

section \<open>Cutoff, forbidden mutations, decay\<close>

definition update_cutoff :: "rounding \<Rightarrow> double \<Rightarrow> ('g, 'p, 'r, 'f) sgf_state \<Rightarrow> ('g, 'p, 'r, 'f) sgf_state" where
  "update_cutoff r new_score sgf =
     (if \<not> do_intelligent_sg_fuzzing sgf then sgf
      else
        let (mu, mad) = (if queued_mu sgf = Fin 0 then (new_score, dmul r new_score (r (1 / 10)))
              else let mu = dadd r (dmul r (r (95 / 100)) (queued_mu sgf)) (dmul r (r (5 / 100)) new_score);
                       diff = dsub r new_score mu;
                       abs_diff = (if diff < Fin 0 then dneg diff else diff)
                   in (mu, dadd r (dmul r (r (95 / 100)) (queued_mad sgf)) (dmul r (r (5 / 100)) abs_diff)));
            p = ddiv r (Fin (real (unat (cutoff_percentile sgf)))) (Fin 100);
            p = (if p \<le> Fin 0 then r (1 / 100) else p);
            p = (if Fin 1 \<le> p then r (99 / 100) else p);
            z_score = (if p < Fin (1 / 2)
                       then ddiv r (dmul r (dneg (r (674 / 1000))) (dsub r (Fin (1 / 2)) p)) (Fin (1 / 4))
                       else ddiv r (dmul r (r (674 / 1000)) (dsub r p (Fin (1 / 2)))) (Fin (1 / 4)));
            sigma = dmul r (Fin (5 / 4)) mad;
            cutoff = dadd r mu (dmul r z_score sigma)
        in sgf\<lparr>queued_mu := mu, queued_mad := mad, cutoff_score := at_least (Fin 0) cutoff\<rparr>)"

definition adds_event :: "mutation_kind \<Rightarrow> bool" where
  "adds_event k \<longleftrightarrow> k = MUT_ADD_READ \<or> k = MUT_ADD_WRITE \<or> k = MUT_ADD_RMW \<or> k = MUT_ADD_FENCE \<or>
     k = MUT_ADD_CAS_SUCCESS \<or> k = MUT_ADD_CAS_FAIL"

definition record_forbidden_mutation :: "mutation_info \<Rightarrow> ('g, 'p, 'r, 'f) sgdata \<Rightarrow> ('g, 'p, 'r, 'f) sgdata" where
  "record_forbidden_mutation mi d =
     (let fm = (case forbidden_mutations d of None \<Rightarrow> {} | Some fm \<Rightarrow> fm)
      in d\<lparr>forbidden_mutations := Some (if adds_event (mut_kind mi) then insert (mut_dest mi) fm else fm)\<rparr>)"

definition DECAY_RATIO_MIN :: "rounding \<Rightarrow> double" where "DECAY_RATIO_MIN r = r (5 / 100)"
definition DECAY_RATIO_MAX :: double where "DECAY_RATIO_MAX = Fin (1 / 2)"

definition new_decay_ratio :: "rounding \<Rightarrow> u32 \<Rightarrow> u32 \<Rightarrow> double" where
  "new_decay_ratio r mutations_created mutations_added =
     (let success_ratio = (if 0 < mutations_created
            then ddiv r (Fin (real (unat mutations_added))) (Fin (real (unat mutations_created))) else Fin 0);
          success_ratio = at_most (Fin 1) success_ratio;
          ratio = dsub r DECAY_RATIO_MAX (dmul r success_ratio (dsub r DECAY_RATIO_MAX (DECAY_RATIO_MIN r)))
      in at_most DECAY_RATIO_MAX (at_least (DECAY_RATIO_MIN r) ratio))"

definition decay_seed :: "rounding \<Rightarrow> u32 \<Rightarrow> u32 \<Rightarrow> bool \<Rightarrow> ('g, 'p, 'r, 'f) queue_entry \<Rightarrow> ('g, 'p, 'r, 'f) queue_entry" where
  "decay_seed r mutations_created mutations_added intelligent e =
     (let ratio = new_decay_ratio r mutations_created mutations_added;
          e = e\<lparr>data := (data e)\<lparr>decay_ratio := ratio\<rparr>\<rparr>
      in if intelligent
         then (if Fin 1 < perf_score e
               then e\<lparr>perf_score := at_least (Fin 1) (dmul r (perf_score e) (dsub r (Fin 1) ratio))\<rparr> else e)
         else e\<lparr>perf_score := Fin 100\<rparr>)"

end
