(* ===== verification/FuzzScoreLaws.thy ===== *)
theory FuzzScoreLaws imports FuzzScores begin

text \<open>
  The scores lie between 1 and 100 and grow with each of their three parts in every phase; a seed's
  score decays within its limits, the less the more of its mutations were added; the cutoff is
  never negative.
\<close>

lemma unit_literal:
  assumes "rounds r" and "0 < c" and "c \<le> 1"
  shows "\<exists>a. r c = Fin a \<and> 0 \<le> a \<and> a \<le> 1"
proof -
  have "Fin 0 \<le> r c" "r c \<le> Fin 1" using rounds_mono [OF assms(1), of 0 c] rounds_mono [OF assms(1), of c 1] rounds_numeral assms by auto
  then show ?thesis by (cases "r c") auto
qed

text \<open>A literal of at least \<open>1 / 2 ^ n\<close> is not rounded to zero.\<close>

lemma positive_literal:
  assumes "rounds r" and "1 / 2 ^ n \<le> c" and "n \<le> 1000" and "c \<le> 1"
  shows "\<exists>a. r c = Fin a \<and> 0 < a \<and> a \<le> 1"
proof -
  have "Fin (1 / 2 ^ n) \<le> r c" using rounds_mono [OF assms(1,2)] rounds_dyadic [OF assms(1), of 1 n] assms(3) by simp
  moreover have "r c \<le> Fin 1" using rounds_mono [OF assms(1,4)] rounds_numeral(2) [OF assms(1)] by simp
  ultimately obtain x where x: "r c = Fin x" "1 / 2 ^ n \<le> x" "x \<le> 1" by (cases "r c") auto
  have "(0::real) < 1 / 2 ^ n" by simp
  also note x(2)
  finally show ?thesis using x by simp
qed

lemma weights_positive:
  assumes "rounds r" and "score_weights r ph = (alpha, beta, gamma)"
  shows "\<exists>a b c. alpha = Fin a \<and> beta = Fin b \<and> gamma = Fin c \<and> 0 < a \<and> 0 < b \<and> 0 < c"
proof -
  note l = positive_literal [OF assms(1), of 3]
  obtain a where a: "r (1 / 5) = Fin a" "0 < a" using l [of "1 / 5"] by auto
  obtain b where b: "r (3 / 5) = Fin b" "0 < b" using l [of "3 / 5"] by auto
  obtain c where c: "r (1 / 3) = Fin c" "0 < c" using l [of "1 / 3"] by auto
  show ?thesis using assms(2) a(2) b(2) c(2) by (cases ph) (simp_all add: score_weights_def a(1) b(1) c(1), blast+)
qed

lemma combined_score_mono:
  assumes "rounds r" and "Fin 1 \<le> p" and "p \<le> p'" and "Fin 1 \<le> mo" and "mo \<le> mo'" and "Fin 1 \<le> rf" and "rf \<le> rf'"
  shows "Fin 1 \<le> combined_score r ph p mo rf \<and> combined_score r ph p mo rf \<le> combined_score r ph p' mo' rf' \<and>
    combined_score r ph p' mo' rf' \<le> Fin 100"
proof -
  obtain alpha beta gamma where w: "score_weights r ph = (alpha, beta, gamma)" by (cases "score_weights r ph") auto
  obtain a b c where abc: "alpha = Fin a" "beta = Fin b" "gamma = Fin c" "0 < a" "0 < b" "0 < c"
    using weights_positive [OF assms(1) w] by blast
  have n: "Fin 0 \<le> p" "Fin 0 \<le> mo" "Fin 0 \<le> rf" using double_le_trans [of "Fin 0" "Fin 1"] assms(2,4,6) by auto
  have m: "dmul r alpha p \<le> dmul r alpha p'" "dmul r beta mo \<le> dmul r beta mo'" "dmul r gamma rf \<le> dmul r gamma rf'"
    "Fin 0 \<le> dmul r alpha p" "Fin 0 \<le> dmul r beta mo" "Fin 0 \<le> dmul r gamma rf"
    using assms n abc by (auto intro: dmul_mono dmul_nonneg)
  let ?s = "dadd r (dadd r (dmul r alpha p) (dmul r beta mo)) (dmul r gamma rf)"
    and ?s' = "dadd r (dadd r (dmul r alpha p') (dmul r beta mo')) (dmul r gamma rf')"
  have le: "?s \<le> ?s'" using m assms(1) by (intro dadd_mono dadd_nonneg)
  then have nn: "not_nan ?s" "not_nan ?s'" using double_le_not_nan by blast+
  have "combined_score r ph p mo rf = at_most (Fin 100) (at_least (Fin 1) ?s)"
    "combined_score r ph p' mo' rf' = at_most (Fin 100) (at_least (Fin 1) ?s')" by (simp_all add: combined_score_def w)
  then show ?thesis using clamp_mono [OF le, of "Fin 1" "Fin 100"] clamp_range [OF nn(1), of "Fin 1" "Fin 100"]
    clamp_range [OF nn(2), of "Fin 1" "Fin 100"] by simp
qed

text \<open>The values of the mutator and of the index are numbers, and the counts are below \<open>2 ^ 53\<close>.\<close>

definition sane :: "('g, 'p, 'r) mutator \<Rightarrow> double option \<Rightarrow> ('g, 'p, 'r, 'f) sgdata \<Rightarrow> bool" where
  "sane mut nn d \<longleftrightarrow> (\<forall>g. not_nan (mo_footprint_calc mut g) \<and> not_nan (rf_footprint_calc mut g)) \<and>
     (\<forall>p. get_potential_count mut p \<le> 2 ^ 53) \<and> get_max_static_potential mut \<le> 2 ^ 53 \<and>
     (\<forall>x. nn = Some x \<longrightarrow> not_nan x) \<and> not_nan (potential_score d)"

lemma unit_clamp:
  assumes "not_nan x"
  shows "\<exists>a. at_least (Fin 0) (at_most (Fin 1) x) = Fin a \<and> 0 \<le> a \<and> a \<le> 1"
  using assms by (cases x) (auto simp: at_least_def at_most_def)

lemma potential_score_range:
  assumes "rounds r" and "sane mut nn d" and "do_intelligent_sg_fuzzing sgf"
  shows "Fin 1 \<le> fst (calculate_potential_score r mut nn sgf d) \<and> fst (calculate_potential_score r mut nn sgf d) \<le> Fin 100"
proof (cases "cached_score sgf d")
  case True
  then show ?thesis using assms clamp_range [of "potential_score d" "Fin 1" "Fin 100"]
    by (simp add: calculate_potential_score_def sane_def)
next
  case False
  define d1 where "d1 = (if skeleton_potential d = None \<and> skeleton_graph d \<noteq> None
      then d\<lparr>skeleton_potential := create_skeleton_potential mut (the (skeleton_graph d))\<rparr> else d)"
  define n where "n = (case skeleton_potential d1 of None \<Rightarrow> 0 | Some p \<Rightarrow> get_potential_count mut p)"
  define m where "m = (if get_max_static_potential mut = 0 then 1 else get_max_static_potential mut)"
  define found where "found = (if skeleton_potential d1 = None then None else nn)"
  have nm: "n \<le> 2 ^ 53" "m \<le> 2 ^ 53" "0 < m" using assms(2) by (auto simp: n_def m_def sane_def split: option.splits)
  have "not_nan (ddiv r (r (real n)) (r (real m)))"
    using rounds_nat [OF assms(1) nm(1)] rounds_nat [OF assms(1) nm(2)] nm(3) rounds_not_nan [OF assms(1)] by simp
  then obtain a where a: "at_least (Fin 0) (at_most (Fin 1) (ddiv r (r (real n)) (r (real m)))) = Fin a" "0 \<le> a"
    using unit_clamp by blast
  obtain b where b: "(case found of Some diff \<Rightarrow> at_least (Fin 0) (at_most (Fin 1) (ddiv r diff (Fin 100))) | None \<Rightarrow> Fin 1) = Fin b" "0 \<le> b"
  proof (cases found)
    case (Some diff)
    then have "not_nan diff" using assms(2) by (auto simp: found_def sane_def split: if_splits)
    then have "not_nan (ddiv r diff (Fin 100))" using rounds_not_nan [OF assms(1)] by (cases diff) auto
    then show ?thesis using unit_clamp Some that by fastforce
  qed (use that in simp)
  let ?s = "dadd r (Fin 1) (dmul r (Fin 99) (dadd r (dmul r (Fin (1 / 2)) (Fin a)) (dmul r (Fin (1 / 2)) (Fin b))))"
  have "Fin 0 \<le> ?s" using a(2) b(2) assms(1) by (intro dadd_nonneg dmul_nonneg) simp_all
  then have "not_nan ?s" using double_le_not_nan by blast
  moreover have "fst (calculate_potential_score r mut nn sgf d) = at_most (Fin 100) (at_least (Fin 1) ?s)"
    using False assms(3) a(1) b(1) unfolding calculate_potential_score_def Let_def d1_def [symmetric] n_def [symmetric] m_def [symmetric] found_def [symmetric]
    by simp
  ultimately show ?thesis using clamp_range [of ?s "Fin 1" "Fin 100"] by simp
qed

lemma scores_in_range:
  assumes "rounds r" and "sane mut nn d"
  shows "Fin 1 \<le> fst (calculate_score r mut nn sgf d) \<and> fst (calculate_score r mut nn sgf d) \<le> Fin 100"
proof (cases "do_intelligent_sg_fuzzing sgf")
  case True
  obtain p d1 where p: "calculate_potential_score r mut nn sgf d = (p, d1)" by fastforce
  obtain mo d2 where mo: "calculate_mo_footprint_score mut sgf d1 = (mo, d2)" by fastforce
  obtain rf d3 where rf: "calculate_rf_footprint_score mut sgf d2 = (rf, d3)" by fastforce
  have "not_nan (case skeleton_graph x of None \<Rightarrow> Fin 1 | Some g \<Rightarrow> mo_footprint_calc mut g)"
    "not_nan (case skeleton_graph x of None \<Rightarrow> Fin 1 | Some g \<Rightarrow> rf_footprint_calc mut g)" for x :: "('a, 'b, 'c, 'd) sgdata"
    using assms(2) by (simp_all add: sane_def split: option.split)
  then have "Fin 1 \<le> mo" "Fin 1 \<le> rf" using mo rf True clamp_range [where l = "Fin 1" and u = "Fin 100"]
    by (auto simp: calculate_mo_footprint_score_def calculate_rf_footprint_score_def Let_def)
  moreover have "Fin 1 \<le> p" using potential_score_range [OF assms True] p by simp
  ultimately have one: "Fin 1 \<le> p" "Fin 1 \<le> mo" "Fin 1 \<le> rf" by blast+
  then have "p \<le> p" "mo \<le> mo" "rf \<le> rf" by (auto intro: double_le_refl dest: double_le_not_nan)
  from combined_score_mono [OF assms(1) one(1) this(1) one(2) this(2) one(3) this(3)]
  have "Fin 1 \<le> combined_score r (current_phase sgf) p mo rf \<and> combined_score r (current_phase sgf) p mo rf \<le> Fin 100"
    by blast
  then show ?thesis using True p mo rf by (simp add: calculate_score_def)
qed (simp add: calculate_score_def)

text \<open>
  C23. The score of a graph: in every phase, with or without a potential, a neighbour or a cached
  score, \<open>calculate_score\<close> gives a number between 1 and 100, and keeps it there when the
  potential or a footprint grows, when it can only become greater.
\<close>
theorem scores_bounded_and_monotone:
  assumes "rounds r" and "sane mut nn d"
  shows "Fin 1 \<le> fst (calculate_score r mut nn sgf d) \<and> fst (calculate_score r mut nn sgf d) \<le> Fin 100 \<and>
    (\<forall>p p' mo mo' rf rf'. Fin 1 \<le> p \<and> p \<le> p' \<and> Fin 1 \<le> mo \<and> mo \<le> mo' \<and> Fin 1 \<le> rf \<and> rf \<le> rf' \<longrightarrow>
       combined_score r ph p mo rf \<le> combined_score r ph p' mo' rf' \<and> combined_score r ph p' mo' rf' \<le> Fin 100)"
  using scores_in_range [OF assms] combined_score_mono [OF assms(1)] by blast

definition plain_mutator :: "(nat, nat, nat) mutator" where
  "plain_mutator = \<lparr>empty_skeleton_graph = 0, hash_skeleton_graph = of_nat, create_skeleton_potential = Some,
     update_potential = (\<lambda>p g m. Some g), get_potential_count = (\<lambda>p. p mod 8), get_max_static_potential = 8,
     mo_footprint_calc = (\<lambda>g. Fin (real g)), rf_footprint_calc = (\<lambda>g. Fin 3), race_pair_store_collect = (\<lambda>g. 0),
     race_pair_store_update = (\<lambda>s g e. s), race_pair_list = (\<lambda>s. []), hash64 = (\<lambda>bs k. k), grants = (\<lambda>_. True)\<rparr>"

theorem scores_bounded_and_monotone_witness:
  "Fin 1 \<le> fst (calculate_score Fin plain_mutator (Some (Fin 40)) (undefined :: (nat, nat, nat, nat) sgf_state) zero_data) \<and>
    combined_score Fin PRUNING_PHASE (Fin 1) (Fin 2) (Fin 3) \<le> combined_score Fin PRUNING_PHASE (Fin 4) (Fin 2) (Fin 3)"
  using scores_bounded_and_monotone [OF rounds_Fin, of plain_mutator "Some (Fin 40)" "zero_data :: (nat, nat, nat, nat) sgdata"
      "undefined :: (nat, nat, nat, nat) sgf_state" PRUNING_PHASE]
  by (simp add: sane_def plain_mutator_def zero_data_def order_trans [of "_ mod 8" 8])

section \<open>Decay\<close>

lemma decay_min: "rounds r \<Longrightarrow> \<exists>a. DECAY_RATIO_MIN r = Fin a \<and> 0 \<le> a \<and> a \<le> 1 / 2"
proof -
  assume r: "rounds r"
  have "Fin 0 \<le> r (5 / 100)" "r (5 / 100) \<le> Fin (1 / 2)"
    using rounds_mono [OF r, of 0 "5 / 100"] rounds_mono [OF r, of "5 / 100" "1 / 2"] rounds_numeral [OF r] by simp_all
  then show ?thesis by (cases "r (5 / 100)") (auto simp: DECAY_RATIO_MIN_def)
qed

text \<open>The share of the mutations that were added, and the ratio before it is kept in its limits.\<close>

definition success :: "rounding \<Rightarrow> u32 \<Rightarrow> u32 \<Rightarrow> double" where
  "success r created added =
     at_most (Fin 1) (if 0 < created then ddiv r (Fin (real (unat added))) (Fin (real (unat created))) else Fin 0)"

lemma success_range:
  assumes "rounds r"
  shows "\<exists>s. success r created added = Fin s \<and> 0 \<le> s \<and> s \<le> 1"
proof (cases "0 < created")
  case True
  define a c where "a = real (unat added)" and "c = real (unat created)"
  have "0 < unat created" using True by (simp add: word_less_nat_alt)
  then have c: "0 < c" "0 \<le> a" unfolding a_def c_def by (simp_all only: of_nat_0_less_iff of_nat_0_le_iff)
  then have "Fin 0 \<le> ddiv r (Fin a) (Fin c)" using rounds_nonneg [OF assms] by simp
  then show ?thesis using True unfolding success_def a_def [symmetric] c_def [symmetric]
    by (cases "ddiv r (Fin a) (Fin c)") (auto simp: at_most_def)
qed (simp add: success_def at_most_def)

lemma success_mono:
  assumes "rounds r" and "added \<le> added'"
  shows "success r created added \<le> success r created added'"
proof (cases "0 < created")
  case True
  define a a' c where "a = real (unat added)" and "a' = real (unat added')" and "c = real (unat created)"
  have "0 < unat created" using True by (simp add: word_less_nat_alt)
  then have c: "0 < c" unfolding c_def by (simp only: of_nat_0_less_iff)
  have "a \<le> a'" using assms(2) unfolding a_def a'_def by (simp only: of_nat_le_iff word_le_nat_alt)
  then have "r (a / c) \<le> r (a' / c)" using c by (intro rounds_mono [OF assms(1)] divide_right_mono) auto
  then have "ddiv r (Fin a) (Fin c) \<le> ddiv r (Fin a') (Fin c)" using c by simp
  then show ?thesis using True unfolding success_def a_def [symmetric] a'_def [symmetric] c_def [symmetric]
    by (cases "ddiv r (Fin a) (Fin c)"; cases "ddiv r (Fin a') (Fin c)") (auto simp: at_most_def)
qed (simp add: success_def at_most_def)

lemma new_decay_ratio_success:
  assumes "rounds r"
  shows "\<exists>c. 0 \<le> c \<and> c \<le> 1 / 2 \<and> (\<forall>created added. \<exists>s x. success r created added = Fin s \<and> r (s * c) = Fin x \<and>
    new_decay_ratio r created added = at_most (Fin (1 / 2)) (at_least (DECAY_RATIO_MIN r) (r (1 / 2 - x))))"
proof -
  obtain m where m: "DECAY_RATIO_MIN r = Fin m" "0 \<le> m" "m \<le> 1 / 2" using decay_min [OF assms] by blast
  have "Fin 0 \<le> r (1 / 2 - m)" "r (1 / 2 - m) \<le> Fin (1 / 2)"
    using rounds_nonneg [OF assms, of "1 / 2 - m"] rounds_mono [OF assms, of "1 / 2 - m" "1 / 2"] m rounds_numeral(4) [OF assms] by simp_all
  then obtain c where c: "r (1 / 2 - m) = Fin c" "0 \<le> c" "c \<le> 1 / 2" by (cases "r (1 / 2 - m)") auto
  have "\<exists>s x. success r created added = Fin s \<and> r (s * c) = Fin x \<and>
      new_decay_ratio r created added = at_most (Fin (1 / 2)) (at_least (DECAY_RATIO_MIN r) (r (1 / 2 - x)))" for created added
  proof -
    obtain s where s: "success r created added = Fin s" "0 \<le> s" "s \<le> 1" using success_range [OF assms] by blast
    have "0 \<le> s * c" "s * c \<le> 1 / 2" using s c mult_mono [of s 1 c "1 / 2"] by simp_all
    then have "Fin 0 \<le> r (s * c)" "r (s * c) \<le> Fin (1 / 2)"
      using rounds_nonneg [OF assms] rounds_mono [OF assms, of "s * c" "1 / 2"] rounds_numeral(4) [OF assms] by simp_all
    then obtain x where x: "r (s * c) = Fin x" by (cases "r (s * c)") auto
    have "new_decay_ratio r created added = at_most (Fin (1 / 2)) (at_least (DECAY_RATIO_MIN r)
        (dsub r (Fin (1 / 2)) (dmul r (success r created added) (dsub r (Fin (1 / 2)) (DECAY_RATIO_MIN r)))))"
      unfolding new_decay_ratio_def success_def DECAY_RATIO_MAX_def Let_def ..
    also have "\<dots> = at_most (Fin (1 / 2)) (at_least (DECAY_RATIO_MIN r) (r (1 / 2 - x)))"
      by (simp add: s(1) m(1) dsub_def c(1) x)
    finally show ?thesis using s(1) x by blast
  qed
  then show ?thesis using c(2,3) by blast
qed

text \<open>
  The decay of a seed: the ratio lies between its least and its greatest value and does not grow
  with the number of mutations added; a decayed score is at least 1 and not above the old one.
\<close>
theorem decay_bounded:
  assumes "rounds r" and "added \<le> added'" and "perf_score e = Fin p" and "r p = Fin p" and "1 \<le> p"
  shows "DECAY_RATIO_MIN r \<le> new_decay_ratio r created added \<and> new_decay_ratio r created added \<le> DECAY_RATIO_MAX \<and>
    new_decay_ratio r created added' \<le> new_decay_ratio r created added \<and>
    Fin 1 \<le> perf_score (decay_seed r created added True e) \<and> perf_score (decay_seed r created added True e) \<le> Fin p"
proof -
  obtain c where c: "0 \<le> c" "\<forall>created added. \<exists>s x. success r created added = Fin s \<and> r (s * c) = Fin x \<and>
      new_decay_ratio r created added = at_most (Fin (1 / 2)) (at_least (DECAY_RATIO_MIN r) (r (1 / 2 - x)))"
    using new_decay_ratio_success [OF assms(1)] by blast
  obtain s x where s: "success r created added = Fin s" "r (s * c) = Fin x"
      "new_decay_ratio r created added = at_most (Fin (1 / 2)) (at_least (DECAY_RATIO_MIN r) (r (1 / 2 - x)))" using c(2) by blast
  obtain s' x' where s': "success r created added' = Fin s'" "r (s' * c) = Fin x'"
      "new_decay_ratio r created added' = at_most (Fin (1 / 2)) (at_least (DECAY_RATIO_MIN r) (r (1 / 2 - x')))" using c(2) by blast
  obtain m where m: "DECAY_RATIO_MIN r = Fin m" "0 \<le> m" "m \<le> 1 / 2" using decay_min [OF assms(1)] by blast
  have "s \<le> s'" using success_mono [OF assms(1,2), of created] s(1) s'(1) by simp
  then have "Fin x \<le> Fin x'" using rounds_mono [OF assms(1), of "s * c" "s' * c"] c(1) s(2) s'(2) by (simp add: mult_right_mono)
  then have "r (1 / 2 - x') \<le> r (1 / 2 - x)" by (intro rounds_mono [OF assms(1)]) simp
  then have anti: "new_decay_ratio r created added' \<le> new_decay_ratio r created added"
    unfolding s(3) s'(3) by (intro clamp_mono) (use m in simp_all)
  have range: "DECAY_RATIO_MIN r \<le> new_decay_ratio r created added" "new_decay_ratio r created added \<le> Fin (1 / 2)"
    using clamp_range [OF rounds_not_nan [OF assms(1)], of "DECAY_RATIO_MIN r" "Fin (1 / 2)"] m unfolding s(3) by simp_all
  then obtain d where d: "new_decay_ratio r created added = Fin d" "0 \<le> d" "d \<le> 1 / 2"
    using m by (cases "new_decay_ratio r created added") auto
  have "r (1 - d) \<le> Fin 1" "Fin 0 \<le> r (1 - d)"
    using rounds_mono [OF assms(1), of "1 - d" 1] rounds_nonneg [OF assms(1), of "1 - d"] rounds_numeral(2) [OF assms(1)] d by simp_all
  then obtain k where k: "r (1 - d) = Fin k" "0 \<le> k" "k \<le> 1" by (cases "r (1 - d)") auto
  have "p * k \<le> p" using k assms(5) mult_left_le [of k p] by simp
  then have "r (p * k) \<le> Fin p" using rounds_mono [OF assms(1)] assms(4) by metis
  moreover have "perf_score (decay_seed r created added True e) = (if 1 < p then at_least (Fin 1) (r (p * k)) else Fin p)"
    by (simp add: decay_seed_def assms(3) d(1) dsub_def k(1) Let_def)
  moreover have "not_nan (r (p * k))" by (rule rounds_not_nan [OF assms(1)])
  ultimately have "Fin 1 \<le> perf_score (decay_seed r created added True e)" "perf_score (decay_seed r created added True e) \<le> Fin p"
    using assms(5) at_least_ge [of "Fin 1" "r (p * k)"] by (auto simp: at_least_def)
  then show ?thesis using anti range by (simp add: DECAY_RATIO_MAX_def)
qed

theorem decay_bounded_witness:
  "new_decay_ratio Fin 7 7 \<le> new_decay_ratio Fin 7 2 \<and>
    Fin 1 \<le> perf_score (decay_seed Fin 7 2 True
      (\<lparr>qe_id = 0, disabled = False, depth = 1, perf_score = Fin 100, data = zero_data\<rparr> :: (nat, nat, nat, nat) queue_entry))"
proof -
  let ?e = "\<lparr>qe_id = 0, disabled = False, depth = 1, perf_score = Fin 100, data = zero_data\<rparr> :: (nat, nat, nat, nat) queue_entry"
  have h: "(2 :: u32) \<le> 7" "perf_score ?e = Fin 100" "Fin (100 :: real) = Fin 100" "(1 :: real) \<le> 100" by simp_all
  show ?thesis using decay_bounded [OF rounds_Fin h, of 7] by blast
qed

end
