(* ===== verification/FuzzPhases.thy ===== *)
theory FuzzPhases imports FuzzState begin

text \<open>
  The phases of the fuzzer and the choice of the next seed from the bounded queue
  (\<^verbatim>\<open>main/src/sgf-fuzz.c\<close>, the loop of \<open>main\<close>): the dominant score rotates with the queue
  cycle, and a pruning phase is entered when seeds stagnate and left when it was productive enough
  or has taken 250 seeds.
\<close>

definition STAGNANT_SEEDS_PRUNE_THRESHOLD :: u32 where "STAGNANT_SEEDS_PRUNE_THRESHOLD = 30"
definition CYCLES_WO_FINDS_PRUNE_THRESHOLD :: u64 where "CYCLES_WO_FINDS_PRUNE_THRESHOLD = 2"
definition PRUNING_TARGET_QUEUED_ITEMS :: u32 where "PRUNING_TARGET_QUEUED_ITEMS = 8"
definition PRUNING_TARGET_PRODUCTIVE_SEEDS :: u32 where "PRUNING_TARGET_PRODUCTIVE_SEEDS = 6"
definition PRUNING_MAX_SEEDS_SAFETY_CAP :: u32 where "PRUNING_MAX_SEEDS_SAFETY_CAP = 250"

definition normal_phase :: "u64 \<Rightarrow> phase" where
  "normal_phase cycle =
     (let cycle_idx = (if cycle \<noteq> 0 then (cycle - 1) div 1 else 0)
      in if cycle_idx mod 3 = 0 then MO_FOOTPRINT_DRIVEN_PHASE
         else if cycle_idx mod 3 = 1 then RF_FOOTPRINT_DRIVEN_PHASE else POTENTIAL_DRIVEN_PHASE)"

definition end_pruning :: "('g, 'p, 'r, 'f) sgf_state \<Rightarrow> ('g, 'p, 'r, 'f) sgf_state" where
  "end_pruning sgf = sgf\<lparr>in_pruning_phase := False, pruning_seeds_fuzzed := 0, consecutive_stagnant_seeds := 0,
     consecutive_productive_seeds := 0, current_phase := normal_phase (queue_cycle sgf)\<rparr>"

definition begin_pruning :: "('g, 'p, 'r, 'f) sgf_state \<Rightarrow> ('g, 'p, 'r, 'f) sgf_state" where
  "begin_pruning sgf = sgf\<lparr>in_pruning_phase := True, pruning_seeds_fuzzed := 0, pruning_start_queued_items := queued_items sgf,
     consecutive_stagnant_seeds := 0, consecutive_productive_seeds := 0, previous_phase := normal_phase (queue_cycle sgf),
     current_phase := PRUNING_PHASE\<rparr>"

definition manage_phase :: "('g, 'p, 'r, 'f) sgf_state \<Rightarrow> ('g, 'p, 'r, 'f) sgf_state" where
  "manage_phase sgf =
     (if do_intelligent_sg_fuzzing sgf
      then if in_pruning_phase sgf
           then let sgf = sgf\<lparr>pruning_seeds_fuzzed := pruning_seeds_fuzzed sgf + 1, current_phase := PRUNING_PHASE\<rparr>;
                    new_graphs_added = (if pruning_start_queued_items sgf < queued_items sgf
                      then queued_items sgf - pruning_start_queued_items sgf else 0)
                in if PRUNING_TARGET_QUEUED_ITEMS \<le> new_graphs_added \<or>
                      PRUNING_TARGET_PRODUCTIVE_SEEDS \<le> consecutive_productive_seeds sgf \<or>
                      PRUNING_MAX_SEEDS_SAFETY_CAP \<le> pruning_seeds_fuzzed sgf
                   then end_pruning sgf else sgf
           else let sgf = sgf\<lparr>current_phase := normal_phase (queue_cycle sgf)\<rparr>
                in if STAGNANT_SEEDS_PRUNE_THRESHOLD \<le> consecutive_stagnant_seeds sgf \<or>
                      CYCLES_WO_FINDS_PRUNE_THRESHOLD \<le> cycles_wo_finds sgf
                   then begin_pruning sgf else sgf
      else sgf\<lparr>in_pruning_phase := False, current_phase := POTENTIAL_DRIVEN_PHASE\<rparr>)"

text \<open>The address under which the bounded queue knows an entry.\<close>

definition entry_ptr :: "nat \<Rightarrow> ptr" where
  "entry_ptr i = of_nat (Suc i)"

definition ptr_entry :: "ptr \<Rightarrow> nat" where
  "ptr_entry p = unat p - 1"

text \<open>The entry of the bounded queue, if there is one that is not disabled, replaces the one chosen before.\<close>

definition select_bounded :: "('g, 'p, 'r, 'f) sgf_state \<Rightarrow> ('g, 'p, 'r, 'f) sgf_state" where
  "select_bounded sgf =
     (if bounded_queue sgf = None \<or> sgf_queue_size (bounded_queue sgf) = 0 then sgf
      else case sgf_queue_dequeue (bounded_queue sgf) of
             (bq, h) \<Rightarrow>
               (let sgf = sgf\<lparr>bounded_queue := h\<rparr>
                in case bq of None \<Rightarrow> sgf
                   | Some q \<Rightarrow>
                       (if graph_data q = 0 then sgf
                        else let i = ptr_entry (graph_data q)
                             in if disabled (entries sgf ! i) then sgf else sgf\<lparr>queue_cur := Some i, current_entry := qe_id (entries sgf ! i)\<rparr>)))"

section \<open>Turns\<close>

text \<open>What the rest of the loop leaves alone between two turns.\<close>

definition leaves_phase :: "(('g, 'p, 'r, 'f) sgf_state \<Rightarrow> ('g, 'p, 'r, 'f) sgf_state) \<Rightarrow> bool" where
  "leaves_phase e \<longleftrightarrow> (\<forall>s. do_intelligent_sg_fuzzing (e s) = do_intelligent_sg_fuzzing s \<and> in_pruning_phase (e s) = in_pruning_phase s \<and>
     pruning_seeds_fuzzed (e s) = pruning_seeds_fuzzed s)"

text \<open>The states in which the turns fuzz their seeds; each turn comes after what happened before it.\<close>

fun turns :: "(('g, 'p, 'r, 'f) sgf_state \<Rightarrow> ('g, 'p, 'r, 'f) sgf_state) list \<Rightarrow> ('g, 'p, 'r, 'f) sgf_state \<Rightarrow> ('g, 'p, 'r, 'f) sgf_state list" where
  "turns [] s = []"
| "turns (e # es) s = (let t = manage_phase (e s) in t # turns es t)"

definition phase_ok :: "('g, 'p, 'r, 'f) sgf_state \<Rightarrow> bool" where
  "phase_ok s \<longleftrightarrow> do_intelligent_sg_fuzzing s \<and> (in_pruning_phase s \<longrightarrow> pruning_seeds_fuzzed s < 250)"

lemma normal_not_pruning [simp]: "normal_phase c \<noteq> PRUNING_PHASE"
  by (simp add: normal_phase_def Let_def)

lemma manage_step:
  assumes "phase_ok s" and "leaves_phase e"
  shows "phase_ok (manage_phase (e s))"
    and "current_phase (manage_phase (e s)) = (if in_pruning_phase (manage_phase (e s)) then PRUNING_PHASE
      else normal_phase (queue_cycle (manage_phase (e s))))"
    and "in_pruning_phase s \<Longrightarrow> in_pruning_phase (manage_phase (e s)) \<Longrightarrow>
      unat (pruning_seeds_fuzzed (manage_phase (e s))) = Suc (unat (pruning_seeds_fuzzed s))"
    and "\<not> in_pruning_phase s \<Longrightarrow> in_pruning_phase (manage_phase (e s)) \<Longrightarrow> pruning_seeds_fuzzed (manage_phase (e s)) = 0"
proof -
  have e: "do_intelligent_sg_fuzzing (e s)" "in_pruning_phase (e s) = in_pruning_phase s"
    "pruning_seeds_fuzzed (e s) = pruning_seeds_fuzzed s" "in_pruning_phase s \<Longrightarrow> pruning_seeds_fuzzed s < 250"
    using assms by (auto simp: phase_ok_def leaves_phase_def)
  show "current_phase (manage_phase (e s)) = (if in_pruning_phase (manage_phase (e s)) then PRUNING_PHASE
      else normal_phase (queue_cycle (manage_phase (e s))))"
    using e by (simp add: manage_phase_def end_pruning_def begin_pruning_def Let_def)
  show "\<not> in_pruning_phase s \<Longrightarrow> in_pruning_phase (manage_phase (e s)) \<Longrightarrow> pruning_seeds_fuzzed (manage_phase (e s)) = 0"
    using e by (auto simp add: manage_phase_def begin_pruning_def Let_def split: if_splits)
  have suc: "unat (pruning_seeds_fuzzed s + 1) = Suc (unat (pruning_seeds_fuzzed s))" if "in_pruning_phase s"
    using e(4) [OF that] by (simp add: unat_word_ariths word_less_nat_alt)
  show "in_pruning_phase s \<Longrightarrow> in_pruning_phase (manage_phase (e s)) \<Longrightarrow>
      unat (pruning_seeds_fuzzed (manage_phase (e s))) = Suc (unat (pruning_seeds_fuzzed s))"
    using e suc by (simp add: manage_phase_def end_pruning_def Let_def split: if_splits)
  show "phase_ok (manage_phase (e s))"
    using e unfolding phase_ok_def
    by (simp add: manage_phase_def end_pruning_def begin_pruning_def PRUNING_MAX_SEEDS_SAFETY_CAP_def Let_def not_le)
qed

text \<open>How many turns the pruning phase has taken.\<close>

definition pruning_turns :: "('g, 'p, 'r, 'f) sgf_state \<Rightarrow> nat" where
  "pruning_turns s = (if in_pruning_phase s then Suc (unat (pruning_seeds_fuzzed s)) else 0)"

lemma turns_ok:
  assumes "phase_ok s" and "\<forall>e\<in>set es. leaves_phase e" and "t \<in> set (turns es s)"
  shows "phase_ok t \<and> current_phase t = (if in_pruning_phase t then PRUNING_PHASE else normal_phase (queue_cycle t))"
  using assms
proof (induction es arbitrary: s)
  case (Cons e es)
  have e: "leaves_phase e" using Cons.prems(2) by simp
  from Cons.prems(3) consider "t = manage_phase (e s)" | "t \<in> set (turns es (manage_phase (e s)))" by (auto simp: Let_def)
  then show ?case
  proof cases
    case 1
    then show ?thesis using manage_step(1,2) [OF Cons.prems(1) e] by simp
  next
    case 2
    then show ?thesis using Cons.IH [OF manage_step(1) [OF Cons.prems(1) e]] Cons.prems(2) by simp
  qed
qed simp

lemma pruning_bounded:
  assumes "phase_ok s" and "\<forall>e\<in>set es. leaves_phase e" and "\<forall>t\<in>set (turns es s). in_pruning_phase t"
  shows "length es + pruning_turns s \<le> 250"
  using assms
proof (induction es arbitrary: s)
  case Nil
  then show ?case by (auto simp: pruning_turns_def phase_ok_def word_less_nat_alt)
next
  case (Cons e es)
  let ?t = "manage_phase (e s)"
  have e: "leaves_phase e" using Cons.prems(2) by simp
  have p: "in_pruning_phase ?t" "\<forall>t\<in>set (turns es ?t). in_pruning_phase t" using Cons.prems(3) by (simp_all add: Let_def)
  note m = manage_step [OF Cons.prems(1) e]
  have "pruning_turns ?t = Suc (pruning_turns s)" using m(3,4) p(1) by (simp add: pruning_turns_def)
  then show ?case using Cons.IH [OF m(1) _ p(2)] Cons.prems(2) by simp
qed

lemma normal_phase_rotates:
  assumes "c \<noteq> 0" and "c + 1 \<noteq> 0"
  shows "normal_phase (c + 1) =
    (case normal_phase c of MO_FOOTPRINT_DRIVEN_PHASE \<Rightarrow> RF_FOOTPRINT_DRIVEN_PHASE
     | RF_FOOTPRINT_DRIVEN_PHASE \<Rightarrow> POTENTIAL_DRIVEN_PHASE | _ \<Rightarrow> MO_FOOTPRINT_DRIVEN_PHASE)"
proof -
  let ?n = "unat (c - 1)"
  have "0 < unat c" using assms(1) by (simp add: unat_gt_0)
  moreover from this have "unat (c - 1) = unat c - unat (1 :: u64)" by (intro unat_sub) (simp add: word_le_nat_alt)
  ultimately have n: "unat c = Suc ?n" by simp
  have m: "x mod 3 = 0 \<longleftrightarrow> unat x mod 3 = 0" "x mod 3 = 1 \<longleftrightarrow> unat x mod 3 = 1" for x :: u64
    by (simp_all add: word_unat_eq_iff unat_mod)
  have "unat c mod 3 = (if ?n mod 3 = 0 then 1 else if ?n mod 3 = 1 then 2 else 0)" unfolding n by presburger
  then show ?thesis using assms by (auto simp: normal_phase_def m)
qed

text \<open>
  C22. The phases: whatever happens between two turns of the loop, each turn fuzzes in the pruning
  phase or in the phase of the queue cycle, a pruning phase ends within 251 turns, and the phase of
  the cycle rotates with every cycle.
\<close>
theorem pruning_phase_ends:
  assumes "phase_ok s" and "\<forall>e\<in>set es. leaves_phase e" and "length es = 251"
  shows "(\<exists>t\<in>set (turns es s). current_phase t = normal_phase (queue_cycle t)) \<and>
    (\<forall>t\<in>set (turns es s). current_phase t = (if in_pruning_phase t then PRUNING_PHASE else normal_phase (queue_cycle t))) \<and>
    (\<forall>c. c \<noteq> 0 \<and> c + 1 \<noteq> 0 \<longrightarrow> normal_phase (c + 1) =
       (case normal_phase c of MO_FOOTPRINT_DRIVEN_PHASE \<Rightarrow> RF_FOOTPRINT_DRIVEN_PHASE
        | RF_FOOTPRINT_DRIVEN_PHASE \<Rightarrow> POTENTIAL_DRIVEN_PHASE | _ \<Rightarrow> MO_FOOTPRINT_DRIVEN_PHASE))"
proof -
  have "\<exists>t\<in>set (turns es s). \<not> in_pruning_phase t"
    using pruning_bounded [OF assms(1,2)] assms(3) by auto
  then show ?thesis using turns_ok [OF assms(1,2)] normal_phase_rotates by fastforce
qed

definition fresh_state :: "(nat, nat, nat, nat) sgf_state" where
  "fresh_state = \<lparr>do_intelligent_sg_fuzzing = True, check_data_race = True, enable_feedback = True, complete_graph_budget = 32,
     skeleton_graph_stage_max = 3, cutoff_percentile = 1, potential_nn_recalc_interval = 64, current_phase = MO_FOOTPRINT_DRIVEN_PHASE,
     previous_phase = MO_FOOTPRINT_DRIVEN_PHASE, in_pruning_phase = False, pruning_seeds_fuzzed = 0, pruning_start_queued_items = 0,
     consecutive_stagnant_seeds = 0, consecutive_productive_seeds = 0, queue_cycle = 1, cycles_wo_finds = 0, queued_items = 1,
     active_items = 1, pending_not_fuzzed = 1, max_queued_id = 1, max_depth = 1, cur_depth = 0, potential_nn_epoch = 1,
     queued_mu = Fin 0, queued_mad = Fin 0, cutoff_score = Fin 0, mutation_count = (\<lambda>_. 0), graph_id = 0,
     seen_graphs = empty_hash_set, race_reports = \<lparr>total_races = 0, saved_races = 0, race_set = empty_hash_set\<rparr>,
     entries = [\<lparr>qe_id = 0, disabled = False, depth = 1, perf_score = Fin 100, data = zero_data\<lparr>skeleton_graph := Some 0\<rparr>\<rparr>],
     queue_top = Some 0, queue_cur = Some 0, current_entry = 0, indexed = [], bounded_queue = None\<rparr>"

theorem pruning_phase_ends_witness:
  "\<exists>t\<in>set (turns (replicate 251 (\<lambda>s. s\<lparr>consecutive_stagnant_seeds := 30\<rparr>)) fresh_state). current_phase t = normal_phase (queue_cycle t)"
proof -
  let ?es = "replicate 251 (\<lambda>s :: (nat, nat, nat, nat) sgf_state. s\<lparr>consecutive_stagnant_seeds := 30\<rparr>)"
  have "phase_ok fresh_state" "\<forall>e\<in>set ?es. leaves_phase e" "length ?es = 251"
    by (simp_all add: phase_ok_def fresh_state_def leaves_phase_def)
  from pruning_phase_ends [OF this] show ?thesis by blast
qed

end
