(* ===== verification/Campaign.thy ===== *)
theory Campaign imports FuzzScoreLaws FuzzPhases begin

text \<open>
  The heart of the fuzzer (\<^verbatim>\<open>main/src/sgf-fuzz-one.c\<close>, with parts of
  \<^verbatim>\<open>sgf-fuzz-run.c\<close>, \<^verbatim>\<open>sgf-fuzz-queue.c\<close> and \<^verbatim>\<open>sgf-fuzz-bitmap.c\<close>): a graph of
  the queue is mutated, the mutant run on the simulator, and enqueued when it is new, was
  instantiated and scores well enough; a seed is fuzzed with a growing tree of such mutations.
  The bounded queue reports undefined behaviour as \<open>None\<close>, which ends a run with a fault here;
  \<open>QueueDispatch\<close> shows that it does not happen.
\<close>

section \<open>Running a graph\<close>

definition FSRV_RUN_OK :: u8 where "FSRV_RUN_OK = 0"
definition FSRV_RUN_ERROR :: u8 where "FSRV_RUN_ERROR = 3"
definition EXIT_MISMATCH :: "u8 set" where "EXIT_MISMATCH = {11, 12, 21}"

text \<open>The answer is 0, the fault of the run, or the status with which the simulator refused the graph.\<close>

definition skeleton_graph_fuzz_stuff ::
    "('g, 'f) answers \<Rightarrow> ('g, 'p, 'r, 'f) sgf_state \<Rightarrow> ('g, 'p, 'r, 'f) sgdata \<Rightarrow> u8 \<times> ('g, 'p, 'r, 'f) sgdata" where
  "skeleton_graph_fuzz_stuff ans sgf d =
     (if skeleton_graph d = None \<or> \<not> handed_over ans then (FSRV_RUN_ERROR, d)
      else if run_fault ans \<noteq> FSRV_RUN_OK then (run_fault ans, d)
      else let d = (case run_status ans of None \<Rightarrow> d | Some c \<Rightarrow> d\<lparr>already_simulated := True, sim_exit_code := c\<rparr>)
           in if run_status ans \<noteq> None \<and> the (run_status ans) \<in> EXIT_MISMATCH then (the (run_status ans), d)
              else (0, if enable_feedback sgf \<and> queue_cur sgf \<noteq> None \<and> shm_feedback ans \<noteq> None
                       then d\<lparr>simulator_feedback := shm_feedback ans\<rparr> else d))"

section \<open>The queue\<close>

definition new_entry :: "rounding \<Rightarrow> ('g, 'p, 'r, 'f) sgf_state \<Rightarrow> ('g, 'p, 'r, 'f) queue_entry" where
  "new_entry r sgf = \<lparr>qe_id = max_queued_id sgf, disabled = False, depth = cur_depth sgf + 1, perf_score = Fin 100,
     data = zero_data\<lparr>gd_id := max_queued_id sgf, forbidden_mutations := Some {}, decay_ratio := r (1 / 10)\<rparr>\<rparr>"

definition add_to_queue :: "rounding \<Rightarrow> ('g, 'p, 'r, 'f) sgf_state \<Rightarrow> ('g, 'p, 'r, 'f) sgf_state" where
  "add_to_queue r sgf =
     sgf\<lparr>entries := entries sgf @ [new_entry r sgf], queue_top := Some (length (entries sgf)),
       max_depth := (if max_depth sgf < cur_depth sgf + 1 then cur_depth sgf + 1 else max_depth sgf),
       queued_items := queued_items sgf + 1, active_items := active_items sgf + 1,
       pending_not_fuzzed := pending_not_fuzzed sgf + 1, potential_nn_epoch := potential_nn_epoch sgf + 1,
       cycles_wo_finds := 0, max_queued_id := max_queued_id sgf + 1\<rparr>"

definition update_data where
  "update_data i f sgf = sgf\<lparr>entries := (entries sgf)[i := (entries sgf ! i)\<lparr>data := f (data (entries sgf ! i))\<rparr>]\<rparr>"

definition data_of where "data_of sgf i = data (entries sgf ! i)"

section \<open>Mutating, running, enqueueing\<close>

text \<open>Further mutations of a graph that was seen, at most three.\<close>

fun chain_loop :: "('g, 'p, 'r) mutator \<Rightarrow> ('g, 'f) answers \<Rightarrow> hash_set \<Rightarrow> nat \<Rightarrow> nat \<Rightarrow> 'g \<Rightarrow> mutation_info \<Rightarrow>
    ('g \<times> mutation_info \<times> nat) outcome" where
  "chain_loop mut ans seen 0 steps g mi = Returns (g, mi, steps)"
| "chain_loop mut ans seen (Suc n) steps g mi =
     bind_outcome (skeleton_graph_seen seen (hash_skeleton_graph mut g)) (\<lambda>known.
       if \<not> known then Returns (g, mi, steps)
       else case mutated ans (Suc steps) of (None, _) \<Rightarrow> Returns (g, mi, steps)
            | (Some g', mi') \<Rightarrow> chain_loop mut ans seen n (Suc steps) g' mi')"

definition counted_kind :: "mutation_kind \<Rightarrow> bool" where
  "counted_kind k \<longleftrightarrow> k \<noteq> MUT_NONE \<and> k \<noteq> MUT_FLIP_CAS"

text \<open>The parent gets a potential and a set of forbidden mutations, and the mutation is counted.\<close>

definition prepare_parent where
  "prepare_parent mut parent sgf =
     update_data parent (\<lambda>d.
       let d = (if do_intelligent_sg_fuzzing sgf \<and> skeleton_potential d = None
                then d\<lparr>skeleton_potential := create_skeleton_potential mut (the (skeleton_graph d))\<rparr> else d)
       in if forbidden_mutations d = None then d\<lparr>forbidden_mutations := Some {}\<rparr> else d) sgf"

definition count_mutation where
  "count_mutation k sgf =
     (if counted_kind k then sgf\<lparr>mutation_count := (mutation_count sgf)(k := mutation_count sgf k + 1)\<rparr> else sgf)"

definition child_potential where
  "child_potential mut sgf parent_pot steps g mi =
     (if \<not> do_intelligent_sg_fuzzing sgf then None
      else let p = (if 0 < steps then create_skeleton_potential mut g
                    else case parent_pot of Some p \<Rightarrow> update_potential mut p g mi | None \<Rightarrow> create_skeleton_potential mut g)
           in if p = None then create_skeleton_potential mut g else p)"

definition save_race where
  "save_race mut d sgf =
     bind_outcome (save_race_if_interesting (grants mut) (hash64 mut) (check_data_race sgf) (is_racy d)
         (case race_pairs d of None \<Rightarrow> [] | Some s \<Rightarrow> race_pair_list mut s) (race_reports sgf))
       (\<lambda>(_, st). Returns (sgf\<lparr>race_reports := st\<rparr>))"

definition set_races where
  "set_races mut s d = d\<lparr>race_pairs := Some s, racy_event_count := of_nat (length (race_pair_list mut s)),
     is_racy := (0 < (of_nat (length (race_pair_list mut s)) :: u32))\<rparr>"

text \<open>The racing pairs of the mutant; those of a parent without any are found, kept and reported first.\<close>

definition child_races where
  "child_races mut parent steps g mi sgf =
     (if 0 < steps then Returns (race_pair_store_collect mut g, sgf)
      else case race_pairs (data_of sgf parent) of
             Some s \<Rightarrow> Returns (race_pair_store_update mut s g (mut_dest mi), sgf)
           | None \<Rightarrow>
               (let s = race_pair_store_collect mut (the (skeleton_graph (data_of sgf parent)));
                    sgf = update_data parent (set_races mut s) sgf
                in bind_outcome (if is_racy (data_of sgf parent) then save_race mut (data_of sgf parent) sgf else Returns sgf)
                     (\<lambda>sgf. Returns (race_pair_store_update mut s g (mut_dest mi), sgf))))"

definition parent_is_complete where
  "parent_is_complete mut d \<longleftrightarrow> (case skeleton_potential d of None \<Rightarrow> False | Some p \<Rightarrow> get_potential_count mut p = 0)"

definition admitted where
  "admitted mut new_score parent d sgf \<longleftrightarrow>
     (let pd = data_of sgf parent
      in \<not> do_intelligent_sg_fuzzing sgf \<or> cutoff_score sgf < new_score \<or> queued_items sgf = 0 \<or>
         (check_data_race sgf \<and> is_racy d) \<or> children_enqueued pd = 0 \<or>
         (parent_is_complete mut pd \<and> children_enqueued pd < complete_graph_budget sgf))"

text \<open>The new entry takes over the mutant and its score, and is put into the indexes.\<close>

definition place_child where
  "place_child child new_score d sgf =
     (let e = entries sgf ! child;
          d = d\<lparr>gd_id := qe_id e, already_simulated := True\<rparr>;
          index = (do_intelligent_sg_fuzzing sgf \<and> skeleton_potential d \<noteq> None \<and> \<not> potential_indexed d);
          d = (if index then d\<lparr>potential_indexed := True\<rparr> else d)
      in sgf\<lparr>entries := (entries sgf)[child := e\<lparr>data := d, perf_score := new_score\<rparr>],
           indexed := (if index then indexed sgf @ [child] else indexed sgf)\<rparr>)"

definition index_bounded where
  "index_bounded child new_score sgf =
     (if bounded_queue sgf = None then Returns sgf
      else case sgf_queue_enqueue (bounded_queue sgf) (qe_id (entries sgf ! child)) (entry_ptr child) new_score of
             None \<Rightarrow> Exits SEGFAULT
           | Some (_, h) \<Rightarrow> Returns (sgf\<lparr>bounded_queue := h\<rparr>))"

definition enqueue_child where
  "enqueue_child r mut parent g new_score d sgf =
     bind_outcome (skeleton_graph_seen_or_add (grants mut) (seen_graphs sgf) (hash_skeleton_graph mut g)) (\<lambda>(_, hs).
       let sgf = add_to_queue r (sgf\<lparr>seen_graphs := hs\<rparr>);
           sgf = update_data parent (\<lambda>d. d\<lparr>children_enqueued := children_enqueued d + 1\<rparr>) sgf;
           child = the (queue_top sgf);
           sgf = place_child child new_score d sgf
       in bind_outcome (if check_data_race sgf \<and> is_racy d then save_race mut (data_of sgf child) sgf else Returns sgf) (\<lambda>sgf.
          bind_outcome (index_bounded child new_score sgf) (\<lambda>sgf.
            Returns (Some child, update_cutoff r new_score sgf))))"

text \<open>A mutant that ran.\<close>

definition judge_child where
  "judge_child r mut ans parent steps g mi d sgf =
     (let d = d\<lparr>gd_id := graph_id sgf\<rparr>; sgf = sgf\<lparr>graph_id := graph_id sgf + 1\<rparr>;
          parent_pot = (if do_intelligent_sg_fuzzing sgf then skeleton_potential (data_of sgf parent) else None);
          d = d\<lparr>skeleton_potential := child_potential mut sgf parent_pot steps g mi\<rparr>
      in bind_outcome (if check_data_race sgf
             then bind_outcome (child_races mut parent steps g mi sgf) (\<lambda>(s, sgf). Returns (set_races mut s d, sgf))
             else Returns (d, sgf)) (\<lambda>(d, sgf).
           let (new_score, d) = calculate_score r mut (nn_diff ans) sgf d
           in if admitted mut new_score parent d sgf then enqueue_child r mut parent g new_score d sgf
              else Returns (None, sgf)))"

definition mutate_run_enqueue_graph ::
    "rounding \<Rightarrow> ('g, 'p, 'r) mutator \<Rightarrow> ('g, 'f) answers \<Rightarrow> nat \<Rightarrow> ('g, 'p, 'r, 'f) sgf_state \<Rightarrow>
     (nat option \<times> ('g, 'p, 'r, 'f) sgf_state) outcome" where
  "mutate_run_enqueue_graph r mut ans parent sgf =
     (if skeleton_graph (data_of sgf parent) = None then Returns (None, sgf)
      else
        let sgf = prepare_parent mut parent sgf;
            working = (case fst (mutated ans 0) of None \<Rightarrow> empty_skeleton_graph mut | Some g \<Rightarrow> g);
            sgf = count_mutation (mut_kind (snd (mutated ans 0))) sgf
        in bind_outcome (chain_loop mut ans (seen_graphs sgf) 3 0 working (snd (mutated ans 0))) (\<lambda>(g, mi, steps).
           bind_outcome (skeleton_graph_seen (seen_graphs sgf) (hash_skeleton_graph mut g)) (\<lambda>known.
             if known then Returns (None, sgf)
             else let (exit_code, d) = skeleton_graph_fuzz_stuff ans sgf (zero_data\<lparr>skeleton_graph := Some g\<rparr>)
                  in if exit_code \<in> EXIT_MISMATCH then Returns (None, update_data parent (record_forbidden_mutation mi) sgf)
                     else if exit_code \<noteq> FSRV_RUN_OK then Returns (None, sgf)
                     else judge_child r mut ans parent steps g mi d sgf)))"

end
