(* ===== verification/FuzzOne.thy ===== *)
theory FuzzOne imports Campaign begin

text \<open>
  Fuzzing one seed (\<open>fuzz_one\<close> of \<^verbatim>\<open>main/src/sgf-fuzz-one.c\<close>, from where the seed has been
  chosen): the seed is completed, then mutated in steps, where step \<open>s\<close> makes \<open>2 ^ (s - 1)\<close>
  mutations of the entries the step before added, and finally its score decays by how many were
  added. \<open>ans k\<close> are the answers during the \<open>k\<close>th mutation.
\<close>

definition skeleton_graph_total_instances :: "u32 \<Rightarrow> u32" where
  "skeleton_graph_total_instances highest_step =
     (if highest_step < 1 then 1 else if 31 \<le> highest_step then - 1 else push_bit (unat highest_step) 1 - 1)"

section \<open>The steps\<close>

text \<open>
  The counters of the loop: mutations made and added, and the progress of the stage. The entries of
  the step are collected in \<open>curr\<close>.
\<close>

record 's loop =
  created :: u32
  added :: u32
  stage_cur :: u32
  curr :: "nat list"
  fuzzer :: 's

definition instance_parent :: "nat \<Rightarrow> nat \<Rightarrow> nat list \<Rightarrow> nat \<Rightarrow> nat" where
  "instance_parent cur step prev inst =
     (if step = 1 then prev ! 0
      else if inst < length prev then prev ! inst
      else if 0 < length prev then prev ! (inst mod length prev) else cur)"

text \<open>The \<open>n\<close> instances of a step from \<open>inst\<close> on; \<open>mutate k p\<close> is the \<open>k\<close>th mutation, of entry \<open>p\<close>.\<close>

fun instances :: "(nat \<Rightarrow> nat \<Rightarrow> 's \<Rightarrow> (nat option \<times> 's) outcome) \<Rightarrow> u32 \<Rightarrow> nat \<Rightarrow> nat \<Rightarrow> nat list \<Rightarrow> nat \<Rightarrow> nat \<Rightarrow>
    's loop \<Rightarrow> 's loop outcome" where
  "instances mutate stage_max cur step prev inst 0 l = Returns l"
| "instances mutate stage_max cur step prev inst (Suc n) l =
     (if \<not> stage_cur l < stage_max then Returns l
      else bind_outcome (mutate (unat (created l)) (instance_parent cur step prev inst) (fuzzer l)) (\<lambda>(child, s).
             let l = l\<lparr>created := created l + 1, fuzzer := s\<rparr>
             in instances mutate stage_max cur step prev (Suc inst) n
                  (case child of None \<Rightarrow> l
                   | Some c \<Rightarrow> l\<lparr>stage_cur := stage_cur l + 1, added := added l + 1, curr := curr l @ [c]\<rparr>)))"

fun step_loop :: "(nat \<Rightarrow> nat \<Rightarrow> 's \<Rightarrow> (nat option \<times> 's) outcome) \<Rightarrow> u32 \<Rightarrow> nat \<Rightarrow> nat \<Rightarrow> nat \<Rightarrow> nat list \<Rightarrow> 's loop \<Rightarrow> 's loop outcome" where
  "step_loop mutate stage_max cur step 0 prev l = Returns l"
| "step_loop mutate stage_max cur step (Suc n) prev l =
     (if \<not> stage_cur l < stage_max then Returns l
      else bind_outcome (instances mutate stage_max cur step prev 0 (2 ^ (step - 1)) (l\<lparr>curr := []\<rparr>)) (\<lambda>l.
             step_loop mutate stage_max cur (Suc step) n (curr l) l))"

section \<open>A seed\<close>

text \<open>
  The seed is run once when its feedback is wanted, and gets the graph in its file, when there is
  one, a potential, and its scores.
\<close>

definition complete_seed ::
    "rounding \<Rightarrow> ('g, 'p, 'r) mutator \<Rightarrow> ('g, 'f) answers \<Rightarrow> 'g option \<Rightarrow> nat \<Rightarrow> ('g, 'p, 'r, 'f) sgf_state \<Rightarrow> ('g, 'p, 'r, 'f) sgf_state outcome" where
  "complete_seed r mut ans file_graph cur sgf =
     bind_outcome (if enable_feedback sgf \<and> \<not> already_simulated (data_of sgf cur)
         then case skeleton_graph_fuzz_stuff ans sgf (data_of sgf cur) of
                (exit_code, d) \<Rightarrow> if exit_code \<in> EXIT_MISMATCH then Exits 1 else Returns (update_data cur (\<lambda>_. d) sgf)
         else Returns sgf) (\<lambda>sgf.
       if enable_feedback sgf \<and> simulator_feedback (data_of sgf cur) = None then Exits 1
       else
         let sgf = update_data cur (\<lambda>d. if skeleton_graph d = None
                     then d\<lparr>skeleton_graph := Some (case file_graph of None \<Rightarrow> empty_skeleton_graph mut | Some g \<Rightarrow> g)\<rparr> else d) sgf
         in Returns (if do_intelligent_sg_fuzzing sgf
              then let sgf = update_data cur (\<lambda>d. if skeleton_potential d = None
                         then d\<lparr>skeleton_potential := create_skeleton_potential mut (the (skeleton_graph d))\<rparr> else d) sgf;
                       d = data_of sgf cur
                   in if potential_score d = Fin 0 \<or> mo_footprint_score d = Fin 0 \<or> rf_footprint_score d = Fin 0
                      then update_data cur (\<lambda>d. snd (calculate_score r mut (nn_diff ans) sgf d)) sgf else sgf
              else sgf\<lparr>entries := (entries sgf)[cur := (entries sgf ! cur)\<lparr>perf_score := Fin 100\<rparr>]\<rparr>))"

definition highest_step_of :: "('g, 'p, 'r, 'f) sgf_state \<Rightarrow> u32" where
  "highest_step_of sgf = (if skeleton_graph_stage_max sgf \<noteq> 0 then ucast (skeleton_graph_stage_max sgf) else 3)"

definition fuzz_steps where
  "fuzz_steps mutate cur highest_step s =
     (if highest_step < 1 \<or> 31 \<le> highest_step then Exits ABORTED
      else step_loop mutate (skeleton_graph_total_instances highest_step) cur 1 (unat highest_step) [cur]
             \<lparr>created = 0, added = 0, stage_cur = 0, curr = [], fuzzer = s\<rparr>)"

definition end_of_seed where
  "end_of_seed r cur l =
     (let sgf = fuzzer l;
          sgf = sgf\<lparr>entries := (entries sgf)[cur := decay_seed r (created l) (added l) (do_intelligent_sg_fuzzing sgf) (entries sgf ! cur)]\<rparr>
      in if 0 < added l
         then sgf\<lparr>consecutive_stagnant_seeds := 0, consecutive_productive_seeds := consecutive_productive_seeds sgf + 1\<rparr>
         else sgf\<lparr>consecutive_stagnant_seeds := consecutive_stagnant_seeds sgf + 1, consecutive_productive_seeds := 0\<rparr>)"

definition fuzz_one where
  "fuzz_one r mut ans file_graph sgf =
     (case queue_cur sgf of None \<Rightarrow> Exits ABORTED
      | Some cur \<Rightarrow>
          bind_outcome (complete_seed r mut (ans 0) file_graph cur sgf) (\<lambda>sgf.
          bind_outcome (fuzz_steps (\<lambda>k. mutate_run_enqueue_graph r mut (ans (Suc k))) cur (highest_step_of sgf) sgf) (\<lambda>l.
            Returns (end_of_seed r cur l))))"

section \<open>The tree of mutations\<close>

text \<open>
  What the tree relies on: in a state that is \<open>ok\<close> after \<open>k < limit\<close> mutations, of which
  \<open>a\<close> were added, the next mutation of an entry that exists returns, to such a state; no entry
  goes away, and one that is added exists.
\<close>

definition grows :: "nat \<Rightarrow> ('s \<Rightarrow> nat) \<Rightarrow> (nat \<Rightarrow> nat \<Rightarrow> 's \<Rightarrow> bool) \<Rightarrow> (nat \<Rightarrow> nat \<Rightarrow> 's \<Rightarrow> (nat option \<times> 's) outcome) \<Rightarrow> bool" where
  "grows limit size_of ok mutate \<longleftrightarrow> (\<forall>k a p s. k < limit \<longrightarrow> ok k a s \<longrightarrow> p < size_of s \<longrightarrow>
     (\<exists>c s'. mutate k p s = Returns (c, s') \<and> ok (Suc k) (if c = None then a else Suc a) s' \<and>
       size_of s \<le> size_of s' \<and> (\<forall>i. c = Some i \<longrightarrow> i < size_of s')))"

lemma growsD:
  assumes "grows limit size_of ok mutate" and "k < limit" and "ok k a s" and "p < size_of s"
  shows "\<exists>c s'. mutate k p s = Returns (c, s') \<and> ok (Suc k) (if c = None then a else Suc a) s' \<and>
    size_of s \<le> size_of s' \<and> (\<forall>i. c = Some i \<longrightarrow> i < size_of s')"
  using assms unfolding grows_def by blast

lemma instance_parent_in:
  assumes "cur < m" and "\<forall>i\<in>set prev. i < m" and "step = 1 \<longrightarrow> prev \<noteq> []"
  shows "instance_parent cur step prev inst < m"
  using assms by (auto simp: instance_parent_def)

text \<open>The counters agree, and the entries collected exist.\<close>

definition loop_ok :: "('s \<Rightarrow> nat) \<Rightarrow> (nat \<Rightarrow> nat \<Rightarrow> 's \<Rightarrow> bool) \<Rightarrow> 's loop \<Rightarrow> bool" where
  "loop_ok size_of ok l \<longleftrightarrow> ok (unat (created l)) (unat (added l)) (fuzzer l) \<and> stage_cur l \<le> created l \<and> added l = stage_cur l \<and> (\<forall>i\<in>set (curr l). i < size_of (fuzzer l))"

definition after_mutation :: "nat option \<Rightarrow> 's \<Rightarrow> 's loop \<Rightarrow> 's loop" where
  "after_mutation c s l = (let l = l\<lparr>created := created l + 1, fuzzer := s\<rparr>
     in case c of None \<Rightarrow> l | Some i \<Rightarrow> l\<lparr>stage_cur := stage_cur l + 1, added := added l + 1, curr := curr l @ [i]\<rparr>)"

lemma unat_step: "unat (x :: u32) < unat (m :: u32) \<Longrightarrow> unat (x + 1) = Suc (unat x)"
  using unsigned_less [of m, where 'a = nat] by (simp add: unat_word_ariths)

lemma after_mutation_ok:
  assumes "loop_ok size_of ok l" and "ok (Suc (unat (created l))) (if c = None then unat (added l) else Suc (unat (added l))) s" and "size_of (fuzzer l) \<le> size_of s" and "\<forall>i. c = Some i \<longrightarrow> i < size_of s"
    and "unat (created l) < unat (m :: u32)"
  shows "loop_ok size_of ok (after_mutation c s l)" and "fuzzer (after_mutation c s l) = s"
    and "unat (created (after_mutation c s l)) = Suc (unat (created l))"
    and "length (curr (after_mutation c s l)) \<le> Suc (length (curr l))"
proof -
  have le: "unat (stage_cur l) \<le> unat (created l)" using assms(1) by (simp add: loop_ok_def word_le_nat_alt)
  then have u: "unat (created l + 1) = Suc (unat (created l))" "unat (stage_cur l + 1) = Suc (unat (stage_cur l))"
    using assms(5) by (simp_all add: unat_step [of _ m])
  have old: "\<forall>i\<in>set (curr l). i < size_of s" using assms(1,3) by (auto simp: loop_ok_def)
  show "loop_ok size_of ok (after_mutation c s l)"
    using assms(1,2,4) le u old by (cases c) (auto simp add: loop_ok_def after_mutation_def word_le_nat_alt)
  show "fuzzer (after_mutation c s l) = s" "length (curr (after_mutation c s l)) \<le> Suc (length (curr l))"
    by (cases c; simp add: after_mutation_def)+
  show "unat (created (after_mutation c s l)) = Suc (unat (created l))"
    using u by (cases c) (simp_all add: after_mutation_def)
qed

lemma instances_all:
  assumes "grows limit size_of ok mutate" and "unat stage_max \<le> limit" and "loop_ok size_of ok l" and "cur < size_of (fuzzer l)" and "\<forall>i\<in>set prev. i < size_of (fuzzer l)"
    and "step = 1 \<longrightarrow> prev \<noteq> []" and "unat (created l) + n \<le> unat stage_max"
  shows "\<exists>l'. instances mutate stage_max cur step prev inst n l = Returns l' \<and> loop_ok size_of ok l' \<and> size_of (fuzzer l) \<le> size_of (fuzzer l') \<and>
    unat (created l') = unat (created l) + n \<and> length (curr l') \<le> length (curr l) + n"
  using assms(3-)
proof (induction n arbitrary: inst l)
  case (Suc n)
  have lt: "unat (created l) < unat stage_max" using Suc.prems(5) by simp
  then have go: "stage_cur l < stage_max" using Suc.prems(1) by (simp add: loop_ok_def word_le_nat_alt word_less_nat_alt)
  have p: "instance_parent cur step prev inst < size_of (fuzzer l)" using Suc.prems by (intro instance_parent_in) auto
  obtain c s where m: "mutate (unat (created l)) (instance_parent cur step prev inst) (fuzzer l) = Returns (c, s)"
    "ok (Suc (unat (created l))) (if c = None then unat (added l) else Suc (unat (added l))) s"
    "size_of (fuzzer l) \<le> size_of s" "\<forall>i. c = Some i \<longrightarrow> i < size_of s"
    using growsD [OF assms(1) less_le_trans [OF lt assms(2)] _ p] Suc.prems(1) unfolding loop_ok_def by blast
  note a = after_mutation_ok [OF Suc.prems(1) m(2-) lt]
  have run: "instances mutate stage_max cur step prev inst (Suc n) l = instances mutate stage_max cur step prev (Suc inst) n (after_mutation c s l)"
    using go m(1) by (simp add: after_mutation_def Let_def)
  have later: "cur < size_of (fuzzer (after_mutation c s l))" "\<forall>i\<in>set prev. i < size_of (fuzzer (after_mutation c s l))"
    "unat (created (after_mutation c s l)) + n \<le> unat stage_max"
    using Suc.prems(2,3,5) m(3) a(2,3) by fastforce+
  obtain l' where "instances mutate stage_max cur step prev (Suc inst) n (after_mutation c s l) = Returns l'" "loop_ok size_of ok l'"
    "size_of s \<le> size_of (fuzzer l')" "unat (created l') = Suc (unat (created l)) + n" "length (curr l') \<le> length (curr (after_mutation c s l)) + n"
    using Suc.IH [OF a(1) later(1,2) Suc.prems(4) later(3)] unfolding a(2,3) by blast
  then show ?case unfolding run using m(3) a(4) by (intro exI [of _ l']) simp
qed simp

lemma step_loop_all:
  assumes "grows limit size_of ok mutate" and "unat stage_max \<le> limit" and "loop_ok size_of ok l" and "cur < size_of (fuzzer l)" and "\<forall>i\<in>set prev. i < size_of (fuzzer l)"
    and "step = 1 \<longrightarrow> prev \<noteq> []" and "1 \<le> step" and "unat (created l) = 2 ^ (step - 1) - 1" and "unat stage_max = 2 ^ (step + n - 1) - 1"
    and "step = 1 \<or> length (curr l) \<le> 2 ^ (step - 2)" and "0 < n"
  shows "\<exists>l'. step_loop mutate stage_max cur step n prev l = Returns l' \<and> loop_ok size_of ok l' \<and> size_of (fuzzer l) \<le> size_of (fuzzer l') \<and>
    unat (created l') = unat stage_max \<and> length (curr l') \<le> 2 ^ (step + n - 2)"
  using assms(3-)
proof (induction n arbitrary: step prev l)
  case (Suc n)
  have grow: "(2::nat) ^ step \<le> 2 ^ (step + n)" by (rule power_increasing) simp_all
  have g1: "(2::nat) ^ step - 1 \<le> 2 ^ (step + n) - 1" using grow by (rule diff_le_mono)
  have dbl: "(2::nat) ^ (step - 1) + 2 ^ (step - 1) = 2 ^ step" using Suc.prems(5) by (cases step) simp_all
  have room: "unat (created l) + 2 ^ (step - 1) = 2 ^ step - 1" using Suc.prems(6) dbl zero_less_power [of "2::nat" "step - 1"] by linarith
  have max: "unat stage_max = 2 ^ (step + n) - 1" using Suc.prems(7) by simp
  have "unat (stage_cur l) \<le> unat (created l)" using Suc.prems(1) by (simp add: loop_ok_def word_le_nat_alt)
  moreover have "unat (created l) < unat stage_max" using room max grow zero_less_power [of "2::nat" "step - 1"] by linarith
  ultimately have go: "stage_cur l < stage_max" by (simp add: word_less_nat_alt)
  let ?l = "l\<lparr>curr := []\<rparr>"
  have ok0: "loop_ok size_of ok ?l" using Suc.prems(1) by (cases l) (auto simp: loop_ok_def)
  have cur0: "cur < size_of (fuzzer ?l)" "\<forall>i\<in>set prev. i < size_of (fuzzer ?l)" using Suc.prems(2,3) by simp_all
  have fits: "unat (created ?l) + 2 ^ (step - 1) \<le> unat stage_max" using room max g1 by simp
  have at0: "fuzzer ?l = fuzzer l" "unat (created ?l) + 2 ^ (step - 1) = 2 ^ step - 1" "length (curr ?l) + 2 ^ (step - 1) = 2 ^ (step - 1)"
    using room by simp_all
  obtain l1 where l1: "instances mutate stage_max cur step prev 0 (2 ^ (step - 1)) ?l = Returns l1" "loop_ok size_of ok l1"
    "size_of (fuzzer l) \<le> size_of (fuzzer l1)" "unat (created l1) = 2 ^ step - 1" "length (curr l1) \<le> 2 ^ (step - 1)"
    using instances_all [OF assms(1,2) ok0 cur0 Suc.prems(4) fits] unfolding at0 by blast
  have run: "step_loop mutate stage_max cur step (Suc n) prev l = step_loop mutate stage_max cur (Suc step) n (curr l1) l1"
    using go l1(1) by simp
  show ?case
  proof (cases "n = 0")
    case True
    then show ?thesis unfolding run using l1 max by simp
  next
    case False
    have in1: "cur < size_of (fuzzer l1)" "\<forall>i\<in>set (curr l1). i < size_of (fuzzer l1)" using Suc.prems(2) l1(2,3) by (auto simp: loop_ok_def)
    obtain l' where "step_loop mutate stage_max cur (Suc step) n (curr l1) l1 = Returns l'" "loop_ok size_of ok l'"
      "size_of (fuzzer l1) \<le> size_of (fuzzer l')" "unat (created l') = unat stage_max" "length (curr l') \<le> 2 ^ (Suc step + n - 2)"
      using Suc.IH [OF l1(2) in1, of "Suc step"] Suc.prems(5) l1(4,5) max False by auto
    then show ?thesis unfolding run using l1(3) by (intro exI [of _ l']) simp
  qed
qed simp

end
