(* ===== verification/CampaignLaws.thy ===== *)
theory CampaignLaws imports FuzzOne begin

text \<open>
  What the campaign keeps: mutating, running and enqueueing always returns, adds at most one entry,
  and only one whose graph was not seen before; the identifiers of the entries are their positions,
  and the sets and queues stay in order. With the tree of \<open>FuzzOne\<close> this gives what fuzzing a
  seed does to the corpus. Memory is always granted, and the sets have room: below it \<open>SeenSets\<close>
  and \<open>RaceReports\<close> show what happens.
\<close>

section \<open>The corpus\<close>

definition entry_graphs :: "('g, 'p, 'r, 'f) sgf_state \<Rightarrow> 'g option list" where
  "entry_graphs sgf = map (\<lambda>e. skeleton_graph (data e)) (entries sgf)"

text \<open>The part of the state that a change of a graph's scores, children or races leaves alone.\<close>

definition corpus where
  "corpus sgf = (seen_graphs sgf, bounded_queue sgf, queued_items sgf, max_queued_id sgf, map qe_id (entries sgf), entry_graphs sgf)"

definition corpus_ok :: "nat \<Rightarrow> ('g, 'p, 'r, 'f) sgf_state \<Rightarrow> bool" where
  "corpus_ok b sgf \<longleftrightarrow> skel_inv (seen_graphs sgf) \<and> card (hs_keys (seen_graphs sgf)) + b \<le> 23488103 \<and>
     (bounded_queue sgf = None \<or> handle_inv (bounded_queue sgf)) \<and> length (entries sgf) + b < 2 ^ 32 \<and>
     queued_items sgf = of_nat (length (entries sgf)) \<and> max_queued_id sgf = of_nat (length (entries sgf)) \<and>
     map qe_id (entries sgf) = map of_nat [0..<length (entries sgf)]"

definition races_ok :: "nat \<Rightarrow> ('g, 'p, 'r, 'f) sgf_state \<Rightarrow> bool" where
  "races_ok b sgf \<longleftrightarrow> race_inv (race_set (race_reports sgf)) \<and> card (hs_keys (race_set (race_reports sgf))) + b \<le> 100663296"

text \<open>The keys under which graphs are known as seen; a graph whose hash is 0 has none.\<close>

definition graph_keys :: "('g, 'p, 'r) mutator \<Rightarrow> 'g option list \<Rightarrow> u64 list" where
  "graph_keys mut gs = concat (map (\<lambda>g. case g of None \<Rightarrow> []
     | Some g \<Rightarrow> if hash_skeleton_graph mut g = 0 then [] else [skel_key (hash_skeleton_graph mut g)]) gs)"

lemma graph_keys_simps [simp]:
  "graph_keys mut [] = []" "graph_keys mut (gs @ gs') = graph_keys mut gs @ graph_keys mut gs'"
  "graph_keys mut [Some g] = (if hash_skeleton_graph mut g = 0 then [] else [skel_key (hash_skeleton_graph mut g)])"
  by (simp_all add: graph_keys_def)

lemma corpus_length: "corpus s = corpus s' \<Longrightarrow> length (entries s) = length (entries s')"
  using map_eq_imp_length_eq [of qe_id "entries s" qe_id "entries s'"] by (simp add: corpus_def)

lemma corpus_ok_cong:
  assumes "corpus s = corpus s'"
  shows "corpus_ok b s = corpus_ok b s'"
proof -
  have e: "seen_graphs s = seen_graphs s'" "bounded_queue s = bounded_queue s'" "queued_items s = queued_items s'"
    "max_queued_id s = max_queued_id s'" "map qe_id (entries s) = map qe_id (entries s')"
    using assms by (simp_all add: corpus_def)
  show ?thesis unfolding corpus_ok_def e corpus_length [OF assms] ..
qed

section \<open>Changes of a graph's data\<close>

lemma update_data_corpus:
  assumes "skeleton_graph (f (data_of sgf i)) = skeleton_graph (data_of sgf i)"
  shows "corpus (update_data i f sgf) = corpus sgf" "race_reports (update_data i f sgf) = race_reports sgf"
proof -
  have "map g ((entries sgf)[i := e]) = map g (entries sgf)" if "g e = g (entries sgf ! i)" for g :: "_ \<Rightarrow> 'x" and e
    using that by (metis list_update_beyond list_update_id map_update not_le)
  note m = this
  show "corpus (update_data i f sgf) = corpus sgf"
    using assms by (simp add: corpus_def update_data_def data_of_def entry_graphs_def m)
  show "race_reports (update_data i f sgf) = race_reports sgf" by (simp add: update_data_def)
qed

lemma prepare_parent_corpus:
  "corpus (prepare_parent mut i sgf) = corpus sgf" "race_reports (prepare_parent mut i sgf) = race_reports sgf"
  unfolding prepare_parent_def by (intro update_data_corpus; simp add: Let_def)+

lemma count_mutation_corpus:
  "corpus (count_mutation k sgf) = corpus sgf" "race_reports (count_mutation k sgf) = race_reports sgf"
  by (simp_all add: count_mutation_def corpus_def entry_graphs_def)

lemma record_forbidden_graph: "skeleton_graph (record_forbidden_mutation mi d) = skeleton_graph d"
  by (simp add: record_forbidden_mutation_def Let_def)

section \<open>Races\<close>

lemma save_race_if_interesting_ok:
  assumes "race_inv (race_set st)" and "card (hs_keys (race_set st)) < 100663296" and "\<forall>n. grant n"
    and "length rs \<le> 2 ^ 27"
  shows "\<exists>x st'. save_race_if_interesting grant h c racy rs st = Returns (x, st') \<and> race_inv (race_set st') \<and>
    card (hs_keys (race_set st')) \<le> Suc (card (hs_keys (race_set st)))"
proof -
  obtain hash n where m: "mix_unique None (qsort u64_cmp (pair_hashes h rs)) (14695981039346656037, 0) = (hash, n)" by fastforce
  obtain hs where hs: "race_set_add grant (race_set st) hash = Returns (\<not> race_key hash \<in> hs_keys (race_set st), hs)" "race_inv hs"
    "hs_keys hs = insert (race_key hash) (hs_keys (race_set st))"
    using race_step [OF assms(1-3)] by blast
  have "card (hs_keys hs) \<le> Suc (card (hs_keys (race_set st)))" unfolding hs(3) by (simp add: card_insert_if live_finite)
  moreover have "Ex Not" "\<exists>x. x" by blast+
  ultimately show ?thesis using m hs assms(1) ck_alloc_hashes_room [OF assms(4,3)] pair_hashes_room [of rs h] by (simp add: save_race_if_interesting_def Let_def)
qed

lemma save_race_ok:
  assumes "races_ok (Suc b) sgf" and "memory_suffices (grants mut) (race_pair_list mut)"
  shows "\<exists>st. save_race mut d sgf = Returns (sgf\<lparr>race_reports := st\<rparr>) \<and> races_ok b (sgf\<lparr>race_reports := st\<rparr>)"
proof -
  let ?rs = "case race_pairs d of None \<Rightarrow> [] | Some s \<Rightarrow> race_pair_list mut s"
  have "race_inv (race_set (race_reports sgf))" "card (hs_keys (race_set (race_reports sgf))) < 100663296" "\<forall>n. grants mut n"
    "length ?rs \<le> 2 ^ 27"
    using assms by (auto simp: races_ok_def memory_suffices_def split: option.split)
  from save_race_if_interesting_ok [OF this, of "hash64 mut" "check_data_race sgf" "is_racy d"]
  obtain x st where "save_race_if_interesting (grants mut) (hash64 mut) (check_data_race sgf) (is_racy d) ?rs (race_reports sgf) = Returns (x, st)"
    "race_inv (race_set st)" "card (hs_keys (race_set st)) \<le> Suc (card (hs_keys (race_set (race_reports sgf))))" by blast
  then show ?thesis using assms(1) by (intro exI [of _ st]) (auto simp: save_race_def races_ok_def)
qed

lemma race_reports_corpus: "corpus (sgf\<lparr>race_reports := st\<rparr>) = corpus sgf"
  by (simp add: corpus_def entry_graphs_def)

lemma set_races_graph: "skeleton_graph (set_races mut s d) = skeleton_graph d" "potential_score (set_races mut s d) = potential_score d"
  by (simp_all add: set_races_def)

lemma child_races_ok:
  assumes "races_ok (Suc b) sgf" and "memory_suffices (grants mut) (race_pair_list mut)"
  shows "\<exists>s sgf'. child_races mut parent steps g mi sgf = Returns (s, sgf') \<and> races_ok b sgf' \<and> corpus sgf' = corpus sgf"
proof -
  have weak: "races_ok b s" if "races_ok (Suc b) s" for s :: "('a, 'b, 'c, 'd) sgf_state" using that by (simp add: races_ok_def)
  show ?thesis
  proof (cases "0 < steps \<or> race_pairs (data_of sgf parent) \<noteq> None")
    case True
    then show ?thesis using weak [OF assms(1)] by (cases "0 < steps") (auto simp: child_races_def)
  next
    case False
    let ?s = "race_pair_store_collect mut (the (skeleton_graph (data_of sgf parent)))"
    define sgf1 where "sgf1 = update_data parent (set_races mut ?s) sgf"
    have 1: "corpus sgf1 = corpus sgf" "race_reports sgf1 = race_reports sgf"
      unfolding sgf1_def by (intro update_data_corpus set_races_graph)+
    then have "races_ok (Suc b) sgf1" using assms(1) by (simp add: races_ok_def)
    note 2 = weak [OF this] save_race_ok [OF this assms(2), of "data_of sgf1 parent"]
    obtain sgf2 where "(if is_racy (data_of sgf1 parent) then save_race mut (data_of sgf1 parent) sgf1 else Returns sgf1) = Returns sgf2"
      "races_ok b sgf2" "corpus sgf2 = corpus sgf"
      using 1 2 race_reports_corpus [where sgf = sgf1] by (cases "is_racy (data_of sgf1 parent)") auto
    then show ?thesis using False by (auto simp: child_races_def Let_def sgf1_def [symmetric])
  qed
qed

lemma update_data_length: "length (entries (update_data i f sgf)) = length (entries sgf)"
  by (simp add: update_data_def)

lemma save_race_entries: "save_race mut d s = Returns s' \<Longrightarrow> entries s' = entries s"
  by (auto simp: save_race_def)

lemma child_races_children:
  assumes "child_races mut parent steps g mi sgf = Returns (s, sgf')"
  shows "children_enqueued (data_of sgf' parent) = children_enqueued (data_of sgf parent)" "length (entries sgf') = length (entries sgf)"
proof -
  have c: "children_enqueued (data_of (update_data parent (set_races mut s) sgf) parent) = children_enqueued (data_of sgf parent)" for s
    by (cases "parent < length (entries sgf)") (simp_all add: data_of_def update_data_def set_races_def list_update_beyond)
  show "children_enqueued (data_of sgf' parent) = children_enqueued (data_of sgf parent)"
    using assms c by (auto simp: child_races_def Let_def data_of_def split: if_splits option.splits dest!: save_race_entries)
  show "length (entries sgf') = length (entries sgf)"
    using assms by (auto simp: child_races_def Let_def update_data_length split: if_splits option.splits dest!: save_race_entries)
qed

section \<open>Scores\<close>

lemma calculate_score_graph: "skeleton_graph (snd (calculate_score r mut nn sgf d)) = skeleton_graph d"
  by (simp add: calculate_score_def calculate_potential_score_def calculate_mo_footprint_score_def
      calculate_rf_footprint_score_def Let_def split_def)

lemma calculate_score_number:
  assumes "rounds r" and "sane mut nn zero_data" and "potential_score (d :: ('g, 'p, 'r, 'f) sgdata) = Fin 0"
  shows "Fin 1 \<le> fst (calculate_score r mut nn sgf d) \<and> fst (calculate_score r mut nn sgf d) \<le> Fin 100"
  using assms(2,3) by (intro scores_in_range [OF assms(1)]) (simp add: sane_def)

section \<open>Enqueueing\<close>

lemma add_to_queue_corpus:
  "corpus (add_to_queue r sgf) = (seen_graphs sgf, bounded_queue sgf, queued_items sgf + 1, max_queued_id sgf + 1,
     map qe_id (entries sgf) @ [max_queued_id sgf], entry_graphs sgf @ [None])"
  "race_reports (add_to_queue r sgf) = race_reports sgf" "queue_top (add_to_queue r sgf) = Some (length (entries sgf))"
  "length (entries (add_to_queue r sgf)) = Suc (length (entries sgf))" "bounded_queue (add_to_queue r sgf) = bounded_queue sgf"
  by (simp_all add: add_to_queue_def corpus_def entry_graphs_def new_entry_def zero_data_def)

lemma place_child_corpus:
  assumes "corpus sgf = (hs, bq, q, m, ids, gs)" and "i < length gs"
  shows "corpus (place_child i x d sgf) = (hs, bq, q, m, ids, gs[i := skeleton_graph d])"
    and "race_reports (place_child i x d sgf) = race_reports sgf"
proof -
  have "i < length (entries sgf)" using assms by (auto simp: corpus_def entry_graphs_def)
  then show "corpus (place_child i x d sgf) = (hs, bq, q, m, ids, gs[i := skeleton_graph d])"
    using assms(1) by (auto simp: place_child_def corpus_def entry_graphs_def Let_def map_update list_update_same_conv)
qed (simp add: place_child_def Let_def)

lemma update_cutoff_corpus:
  "corpus (update_cutoff r x sgf) = corpus sgf" "race_reports (update_cutoff r x sgf) = race_reports sgf"
  by (simp_all add: update_cutoff_def corpus_def entry_graphs_def Let_def split_def)

lemma index_bounded_ok:
  assumes "bounded_queue sgf = None \<or> handle_inv (bounded_queue sgf)" and "not_nan x"
  shows "\<exists>h. index_bounded i x sgf = Returns (sgf\<lparr>bounded_queue := h\<rparr>) \<and> (h = None \<or> handle_inv h)"
proof (cases "bounded_queue sgf = None")
  case True
  then show ?thesis by (intro exI [of _ None]) (simp add: index_bounded_def)
next
  case False
  then have "handle_inv (bounded_queue sgf)" using assms(1) by metis
  from handle_enqueue_ok [OF this assms(2), of "qe_id (entries sgf ! i)" "entry_ptr i"] show ?thesis
    using False by (auto simp: index_bounded_def)
qed

text \<open>What a mutation may do to the corpus: nothing, or to add one graph that was not seen.\<close>

definition grows_by :: "('g, 'p, 'r) mutator \<Rightarrow> nat option \<Rightarrow> ('g, 'p, 'r, 'f) sgf_state \<Rightarrow> ('g, 'p, 'r, 'f) sgf_state \<Rightarrow> bool" where
  "grows_by mut c sgf sgf' \<longleftrightarrow>
     (case c of None \<Rightarrow> corpus sgf' = corpus sgf
      | Some i \<Rightarrow> i = length (entries sgf) \<and> (\<exists>g. entry_graphs sgf' = entry_graphs sgf @ [Some g] \<and>
          set (graph_keys mut [Some g]) \<inter> hs_keys (seen_graphs sgf) = {} \<and>
          hs_keys (seen_graphs sgf') = hs_keys (seen_graphs sgf) \<union> set (graph_keys mut [Some g])))"

lemma seen_add_ok:
  assumes "skel_inv hs" and "card (hs_keys hs) < 23488103" and "memory_suffices (grants mut) (race_pair_list mut)"
    and "skeleton_graph_seen hs (hash_skeleton_graph mut g) = Returns False"
  shows "\<exists>hs'. skeleton_graph_seen_or_add (grants mut) hs (hash_skeleton_graph mut g) = Returns (False, hs') \<and> skel_inv hs' \<and>
    set (graph_keys mut [Some g]) \<inter> hs_keys hs = {} \<and> hs_keys hs' = hs_keys hs \<union> set (graph_keys mut [Some g])"
proof (cases "hash_skeleton_graph mut g = 0")
  case True
  then show ?thesis using assms(1) by (simp add: skeleton_graph_seen_or_add_def)
next
  case False
  note skel_seen [OF assms(1) False]
  then have "skel_key (hash_skeleton_graph mut g) \<notin> hs_keys hs" using assms(4) by simp
  then show ?thesis using skel_step [OF assms(1) False assms(2), of "grants mut"] assms(3) False by (auto simp: memory_suffices_def)
qed

lemma corpus_okD:
  assumes "corpus_ok (Suc b) sgf"
  shows "skel_inv (seen_graphs sgf)" "card (hs_keys (seen_graphs sgf)) < 23488103" "corpus_ok b sgf"
  using assms by (simp_all add: corpus_ok_def)

lemma enqueued_corpus_ok:
  assumes "corpus_ok (Suc b) sgf" and "skel_inv hs" and "card (hs_keys hs) \<le> Suc (card (hs_keys (seen_graphs sgf)))"
    and "h = None \<or> handle_inv h"
    and "corpus sgf' = (hs, h, queued_items sgf + 1, max_queued_id sgf + 1, map qe_id (entries sgf) @ [max_queued_id sgf], gs)"
  shows "corpus_ok b sgf'"
proof -
  have e: "seen_graphs sgf' = hs" "bounded_queue sgf' = h" "queued_items sgf' = queued_items sgf + 1" "max_queued_id sgf' = max_queued_id sgf + 1"
    "map qe_id (entries sgf') = map qe_id (entries sgf) @ [max_queued_id sgf]" using assms(5) by (simp_all add: corpus_def)
  have "length (entries sgf') = length (map qe_id (entries sgf'))" by (rule length_map [symmetric])
  also have "\<dots> = Suc (length (entries sgf))" unfolding e(5) by simp
  finally have l: "length (entries sgf') = Suc (length (entries sgf))" .
  show ?thesis using assms(1-4) unfolding corpus_ok_def e l by (simp add: add.commute)
qed

lemma enqueue_child_ok:
  assumes "corpus_ok (Suc b) sgf" and "races_ok (Suc b') sgf" and "memory_suffices (grants mut) (race_pair_list mut)" and "not_nan new_score"
    and "skeleton_graph d = Some g" and "skeleton_graph_seen (seen_graphs sgf) (hash_skeleton_graph mut g) = Returns False"
  shows "\<exists>sgf'. enqueue_child r mut parent g new_score d sgf = Returns (Some (length (entries sgf)), sgf') \<and>
    corpus_ok b sgf' \<and> races_ok b' sgf' \<and> grows_by mut (Some (length (entries sgf))) sgf sgf' \<and>
    entry_graphs sgf' = entry_graphs sgf @ [Some g]"
proof -
  note ok = corpus_okD [OF assms(1)]
  obtain hs where hs: "skeleton_graph_seen_or_add (grants mut) (seen_graphs sgf) (hash_skeleton_graph mut g) = Returns (False, hs)" "skel_inv hs"
    "set (graph_keys mut [Some g]) \<inter> hs_keys (seen_graphs sgf) = {}" "hs_keys hs = hs_keys (seen_graphs sgf) \<union> set (graph_keys mut [Some g])"
    using seen_add_ok [OF ok(1,2) assms(3,6)] by blast
  let ?n = "length (entries sgf)" and ?up = "\<lambda>d. d\<lparr>children_enqueued := children_enqueued d + 1\<rparr>"
  define s1 where "s1 = add_to_queue r (sgf\<lparr>seen_graphs := hs\<rparr>)"
  define s2 where "s2 = update_data parent ?up s1"
  define s3 where "s3 = place_child ?n new_score d s2"
  have top: "queue_top s2 = Some ?n" by (simp add: s2_def s1_def update_data_def add_to_queue_corpus)
  have c1: "corpus s1 = (hs, bounded_queue sgf, queued_items sgf + 1, max_queued_id sgf + 1,
      map qe_id (entries sgf) @ [max_queued_id sgf], entry_graphs sgf @ [None])" "race_reports s1 = race_reports sgf"
    unfolding s1_def add_to_queue_corpus(1,2) by (simp_all add: entry_graphs_def)
  have c2: "corpus s2 = corpus s1" "race_reports s2 = race_reports s1" unfolding s2_def by (intro update_data_corpus; simp)+
  have n: "length (entry_graphs sgf) = ?n" by (simp add: entry_graphs_def)
  have c3: "corpus s3 = (hs, bounded_queue sgf, queued_items sgf + 1, max_queued_id sgf + 1,
      map qe_id (entries sgf) @ [max_queued_id sgf], entry_graphs sgf @ [Some g])" "race_reports s3 = race_reports sgf"
    unfolding s3_def using place_child_corpus [OF trans [OF c2(1) c1(1)], of ?n new_score d] c2(2) c1(2) n assms(5) by (simp_all add: list_update_append)
  have r3: "races_ok (Suc b') s3" using assms(2) c3(2) by (simp add: races_ok_def)
  obtain s4 where s4: "(if check_data_race s3 \<and> is_racy d then save_race mut (data_of s3 ?n) s3 else Returns s3) = Returns s4"
    "corpus s4 = corpus s3" "races_ok b' s4"
    using save_race_ok [OF r3 assms(3), of "data_of s3 ?n"] r3 race_reports_corpus [where sgf = s3]
    by (cases "check_data_race s3 \<and> is_racy d") (auto simp: races_ok_def)
  have "bounded_queue s4 = bounded_queue sgf" using s4(2) c3(1) by (simp add: corpus_def)
  then have "bounded_queue s4 = None \<or> handle_inv (bounded_queue s4)" using assms(1) by (simp add: corpus_ok_def)
  from index_bounded_ok [OF this assms(4)] obtain h where h: "index_bounded ?n new_score s4 = Returns (s4\<lparr>bounded_queue := h\<rparr>)" "h = None \<or> handle_inv h"
    by blast
  define s5 where "s5 = update_cutoff r new_score (s4\<lparr>bounded_queue := h\<rparr>)"
  have c5: "corpus s5 = (hs, h, queued_items sgf + 1, max_queued_id sgf + 1, map qe_id (entries sgf) @ [max_queued_id sgf], entry_graphs sgf @ [Some g])"
    unfolding s5_def update_cutoff_corpus using s4(2) c3(1) by (simp add: corpus_def entry_graphs_def)
  have "hs_keys hs \<subseteq> insert (skel_key (hash_skeleton_graph mut g)) (hs_keys (seen_graphs sgf))" using hs(4) by (auto split: if_splits)
  then have "card (hs_keys hs) \<le> card (insert (skel_key (hash_skeleton_graph mut g)) (hs_keys (seen_graphs sgf)))"
    by (intro card_mono) (simp_all add: live_finite)
  also have "\<dots> \<le> Suc (card (hs_keys (seen_graphs sgf)))" by (simp add: card_insert_if live_finite)
  finally have "corpus_ok b s5" by (rule enqueued_corpus_ok [OF assms(1) hs(2) _ h(2) c5])
  moreover have "races_ok b' s5" using s4(3) by (simp add: s5_def races_ok_def update_cutoff_corpus)
  moreover have "grows_by mut (Some ?n) sgf s5" using c5 hs(3,4) by (simp add: grows_by_def corpus_def)
  moreover have "enqueue_child r mut parent g new_score d sgf = Returns (Some ?n, s5)"
    by (simp only: enqueue_child_def hs(1) bind_outcome.simps prod.case Let_def s1_def [symmetric] s2_def [symmetric] top option.sel
        s3_def [symmetric] s4(1) h(1) s5_def)
  moreover have "entry_graphs s5 = entry_graphs sgf @ [Some g]" using c5 by (simp add: corpus_def)
  ultimately show ?thesis by blast
qed

section \<open>Mutations\<close>

text \<open>A mutation returns, keeps the corpus and the races in order, and adds at most one graph, which is new.\<close>

definition mutation_ok where
  "mutation_ok mut b b' sgf res \<longleftrightarrow> (\<exists>c sgf'. res = Returns (c, sgf') \<and> corpus_ok b sgf' \<and> races_ok b' sgf' \<and> grows_by mut c sgf sgf')"

lemma grows_by_cong: "corpus s = corpus s' \<Longrightarrow> grows_by mut c s t = grows_by mut c s' t"
  using corpus_length [of s s'] by (cases c) (simp_all add: grows_by_def corpus_def)

lemma mutation_ok_cong: "corpus s = corpus s' \<Longrightarrow> mutation_ok mut b b' s res \<Longrightarrow> mutation_ok mut b b' s' res"
  unfolding mutation_ok_def using grows_by_cong [of s s'] by blast

lemma rejected_ok:
  assumes "corpus_ok (Suc b) sgf" and "races_ok (Suc b') sgf'" and "corpus sgf' = corpus sgf"
  shows "mutation_ok mut b b' sgf (Returns (None, sgf'))"
proof -
  have "corpus_ok (Suc b) sgf'" using assms(1) corpus_ok_cong [OF assms(3)] by blast
  then show ?thesis using assms(2,3) by (simp add: mutation_ok_def grows_by_def corpus_ok_def races_ok_def)
qed

text \<open>Judging a mutant that ran: its score is a number, and it is enqueued when it is admitted.\<close>

lemma judge_child_decides:
  assumes "races_ok (Suc (Suc b')) sgf" and "memory_suffices (grants mut) (race_pair_list mut)" and "rounds r"
    and "sane mut (nn_diff ans) zero_data" and "skeleton_graph d = Some g" and "potential_score d = Fin 0"
  shows "\<exists>x d' s'. judge_child r mut ans parent steps g mi d sgf =
      (if admitted mut x parent d' s' then enqueue_child r mut parent g x d' s' else Returns (None, s')) \<and>
    Fin 1 \<le> x \<and> x \<le> Fin 100 \<and> skeleton_graph d' = Some g \<and> corpus s' = corpus sgf \<and> races_ok (Suc b') s' \<and>
    children_enqueued (data_of s' parent) = children_enqueued (data_of sgf parent)"
proof -
  define s1 where "s1 = sgf\<lparr>graph_id := graph_id sgf + 1\<rparr>"
  define pot where "pot = (if do_intelligent_sg_fuzzing s1 then skeleton_potential (data_of s1 parent) else None)"
  define d1 where "d1 = d\<lparr>gd_id := graph_id sgf, skeleton_potential := child_potential mut s1 pot steps g mi\<rparr>"
  have s1: "corpus s1 = corpus sgf" "races_ok (Suc (Suc b')) s1" using assms(1) by (simp_all add: s1_def corpus_def entry_graphs_def races_ok_def)
  have d1: "skeleton_graph d1 = Some g" "potential_score d1 = Fin 0" using assms(5,6) by (simp_all add: d1_def)
  obtain d2 s2 where 2: "(if check_data_race s1
      then bind_outcome (child_races mut parent steps g mi s1) (\<lambda>(s, sgf). Returns (set_races mut s d1, sgf)) else Returns (d1, s1)) = Returns (d2, s2)"
    "skeleton_graph d2 = Some g" "potential_score d2 = Fin 0" "races_ok (Suc b') s2" "corpus s2 = corpus sgf"
    "children_enqueued (data_of s2 parent) = children_enqueued (data_of sgf parent)"
  proof (cases "check_data_race s1")
    case True
    from child_races_ok [OF s1(2) assms(2), of parent steps g mi] obtain s s2 where
      "child_races mut parent steps g mi s1 = Returns (s, s2)" "races_ok (Suc b') s2" "corpus s2 = corpus s1" by blast
    moreover from this have "children_enqueued (data_of s2 parent) = children_enqueued (data_of sgf parent)"
      using child_races_children(1) [of mut parent steps g mi s1 s s2] by (simp add: s1_def data_of_def)
    ultimately show ?thesis using that [of "set_races mut s d1" s2] True s1(1) d1 by (simp add: set_races_graph)
  next
    case False
    then show ?thesis using that [of d1 s1] s1 d1 by (simp add: races_ok_def) (simp add: s1_def data_of_def)
  qed
  obtain x d3 where 3: "calculate_score r mut (nn_diff ans) s2 d2 = (x, d3)" by fastforce
  have g3: "skeleton_graph d3 = Some g" using calculate_score_graph [of r mut "nn_diff ans" s2 d2] 2(2) 3 by simp
  have d1_alt: "d\<lparr>gd_id := graph_id sgf\<rparr>\<lparr>skeleton_potential := child_potential mut s1 pot steps g mi\<rparr> = d1" by (simp add: d1_def)
  have "judge_child r mut ans parent steps g mi d sgf =
      (if admitted mut x parent d3 s2 then enqueue_child r mut parent g x d3 s2 else Returns (None, s2))"
    unfolding judge_child_def Let_def
    by (simp only: s1_def [symmetric] pot_def [symmetric] d1_alt 2(1) bind_outcome.simps prod.case 3)
  moreover have "Fin 1 \<le> x \<and> x \<le> Fin 100" using calculate_score_number [OF assms(3,4) 2(3), of s2] 3 by simp
  ultimately show ?thesis using g3 2(4-6) by blast
qed

lemma judge_child_ok:
  assumes "corpus_ok (Suc b) sgf" and "races_ok (Suc (Suc b')) sgf" and "memory_suffices (grants mut) (race_pair_list mut)" and "rounds r"
    and "sane mut (nn_diff ans) zero_data" and "skeleton_graph d = Some g" and "potential_score d = Fin 0"
    and "skeleton_graph_seen (seen_graphs sgf) (hash_skeleton_graph mut g) = Returns False"
  shows "mutation_ok mut b b' sgf (judge_child r mut ans parent n g mi d sgf)"
proof -
  obtain x d' s where j: "judge_child r mut ans parent n g mi d sgf =
      (if admitted mut x parent d' s then enqueue_child r mut parent g x d' s else Returns (None, s))"
    "Fin 1 \<le> x" "skeleton_graph d' = Some g" "corpus s = corpus sgf" "races_ok (Suc b') s"
    using judge_child_decides [OF assms(2-7), of parent n mi] by blast
  have c: "corpus_ok (Suc b) s" using assms(1) corpus_ok_cong [OF j(4)] by blast
  have x: "not_nan x" using j(2) double_le_not_nan by blast
  have seen: "skeleton_graph_seen (seen_graphs s) (hash_skeleton_graph mut g) = Returns False" using j(4) assms(8) by (simp add: corpus_def)
  have "mutation_ok mut b b' s (enqueue_child r mut parent g x d' s)"
    using enqueue_child_ok [OF c j(5) assms(3) x j(3) seen, of r parent] unfolding mutation_ok_def by blast
  moreover have "mutation_ok mut b b' sgf (Returns (None, s))" by (rule rejected_ok [OF assms(1) j(5,4)])
  ultimately show ?thesis unfolding j(1) using mutation_ok_cong [OF j(4)] by simp
qed

lemma run_keeps_graph:
  "skeleton_graph (snd (skeleton_graph_fuzz_stuff ans sgf d)) = skeleton_graph d"
  "potential_score (snd (skeleton_graph_fuzz_stuff ans sgf d)) = potential_score d"
  by (simp_all add: skeleton_graph_fuzz_stuff_def Let_def split: option.split)

lemma seen_returns: "skel_inv hs \<Longrightarrow> \<exists>x. skeleton_graph_seen hs h = Returns x"
  using skel_seen [of hs h] by (cases "h = 0") (auto simp: skeleton_graph_seen_def split: option.splits)

lemma chain_loop_returns:
  assumes "skel_inv hs"
  shows "\<exists>g' mi' n'. chain_loop mut ans hs n k g mi = Returns (g', mi', n')"
proof (induction n arbitrary: k g mi)
  case (Suc n)
  obtain x where x: "skeleton_graph_seen hs (hash_skeleton_graph mut g) = Returns x" using seen_returns [OF assms] by blast
  show ?case
  proof (cases "x \<and> fst (mutated ans (Suc k)) \<noteq> None")
    case True
    then obtain g' where "fst (mutated ans (Suc k)) = Some g'" by blast
    then show ?thesis using True x Suc [of "Suc k" g' "snd (mutated ans (Suc k))"] by (simp add: split_def)
  next
    case False
    then show ?thesis using x by (cases x) (auto simp: split_def)
  qed
qed simp

lemma mutate_run_enqueue_ok:
  assumes "corpus_ok (Suc b) sgf" and "races_ok (Suc (Suc b')) sgf" and "memory_suffices (grants mut) (race_pair_list mut)" and "rounds r"
    and "sane mut (nn_diff ans) zero_data"
  shows "mutation_ok mut b b' sgf (mutate_run_enqueue_graph r mut ans parent sgf)"
proof (cases "skeleton_graph (data_of sgf parent) = None")
  case True
  have "races_ok (Suc b') sgf" using assms(2) by (simp add: races_ok_def)
  then show ?thesis using rejected_ok [OF assms(1) _ refl] True by (simp add: mutate_run_enqueue_graph_def)
next
  case False
  define s1 where "s1 = count_mutation (mut_kind (snd (mutated ans 0))) (prepare_parent mut parent sgf)"
  have s1: "corpus s1 = corpus sgf" "race_reports s1 = race_reports sgf"
    by (simp_all add: s1_def count_mutation_corpus prepare_parent_corpus)
  have c1: "corpus_ok (Suc b) s1" using assms(1) corpus_ok_cong [OF s1(1)] by blast
  have r1: "races_ok (Suc (Suc b')) s1" "races_ok (Suc b') s1" using assms(2) s1(2) by (simp_all add: races_ok_def)
  note inv = corpus_okD(1) [OF c1]
  define w where "w = (case fst (mutated ans 0) of None \<Rightarrow> empty_skeleton_graph mut | Some g \<Rightarrow> g)"
  obtain g mi n where ch: "chain_loop mut ans (seen_graphs s1) 3 0 w (snd (mutated ans 0)) = Returns (g, mi, n)"
    using chain_loop_returns [OF inv, of mut ans 3 0 w "snd (mutated ans 0)"] by (elim exE) (rule that)
  obtain known where known: "skeleton_graph_seen (seen_graphs s1) (hash_skeleton_graph mut g) = Returns known"
    using seen_returns [OF inv] by blast
  obtain ec d where d: "skeleton_graph_fuzz_stuff ans s1 (zero_data\<lparr>skeleton_graph := Some g\<rparr>) = (ec, d)" by fastforce
  have g: "skeleton_graph d = Some g" "potential_score d = Fin 0"
    using run_keeps_graph [of ans s1 "zero_data\<lparr>skeleton_graph := Some g\<rparr>"] d by (simp_all add: zero_data_def)
  let ?forbid = "update_data parent (record_forbidden_mutation mi) s1"
  have f: "corpus ?forbid = corpus s1" "races_ok (Suc b') ?forbid"
    using update_data_corpus [where f = "record_forbidden_mutation mi" and i = parent and sgf = s1, OF record_forbidden_graph] r1(2) by (simp_all add: races_ok_def)
  have run: "mutate_run_enqueue_graph r mut ans parent sgf =
      (if known then Returns (None, s1) else if ec \<in> EXIT_MISMATCH then Returns (None, ?forbid)
       else if ec \<noteq> FSRV_RUN_OK then Returns (None, s1) else judge_child r mut ans parent n g mi d s1)"
    using False unfolding mutate_run_enqueue_graph_def Let_def
    by (simp only: s1_def [symmetric] w_def [symmetric] ch known d bind_outcome.simps prod.case if_False)
  have "mutation_ok mut b b' s1 (mutate_run_enqueue_graph r mut ans parent sgf)"
    unfolding run using rejected_ok [OF c1 r1(2) refl] rejected_ok [OF c1 f(2,1)]
      judge_child_ok [OF c1 r1(1) assms(3-5) g, of parent n mi] known by simp
  then show ?thesis by (rule mutation_ok_cong [OF s1(1)])
qed

section \<open>A seed\<close>

text \<open>The graphs of the corpus are the old ones and \<open>new\<close> ones, whose keys are new and known as seen.\<close>

definition new_graphs :: "('g, 'p, 'r) mutator \<Rightarrow> ('g, 'p, 'r, 'f) sgf_state \<Rightarrow> 'g option list \<Rightarrow> ('g, 'p, 'r, 'f) sgf_state \<Rightarrow> bool" where
  "new_graphs mut sgf new sgf' \<longleftrightarrow> entry_graphs sgf' = entry_graphs sgf @ new \<and> distinct (graph_keys mut new) \<and>
     set (graph_keys mut new) \<inter> hs_keys (seen_graphs sgf) = {} \<and>
     hs_keys (seen_graphs sgf') = hs_keys (seen_graphs sgf) \<union> set (graph_keys mut new)"

definition tree_ok where
  "tree_ok mut limit sgf k a s \<longleftrightarrow> corpus_ok (limit - k) s \<and> races_ok (2 * (limit - k)) s \<and>
     (\<exists>new. length new = a \<and> new_graphs mut sgf new s)"

lemma new_graphs_step:
  assumes "new_graphs mut sgf new s" and "grows_by mut c s s'"
  shows "\<exists>new'. length new' = (if c = None then length new else Suc (length new)) \<and> new_graphs mut sgf new' s'"
proof (cases c)
  case None
  then have "entry_graphs s' = entry_graphs s" "seen_graphs s' = seen_graphs s" using assms(2) by (simp_all add: grows_by_def corpus_def)
  then show ?thesis using assms(1) None by (intro exI [of _ new]) (simp add: new_graphs_def)
next
  case (Some i)
  then obtain g where g: "entry_graphs s' = entry_graphs s @ [Some g]" "set (graph_keys mut [Some g]) \<inter> hs_keys (seen_graphs s) = {}"
      "hs_keys (seen_graphs s') = hs_keys (seen_graphs s) \<union> set (graph_keys mut [Some g])"
    using assms(2) by (auto simp: grows_by_def)
  have "distinct (graph_keys mut [Some g])" by simp
  then show ?thesis using assms(1) g Some
    by (intro exI [of _ "new @ [Some g]"]) (auto simp: new_graphs_def simp del: graph_keys_simps(3))
qed

lemma mutations_grow:
  assumes "memory_suffices (grants mut) (race_pair_list mut)" and "rounds r" and "\<forall>k. sane mut (nn_diff (ans k)) zero_data"
  shows "grows limit (\<lambda>s. length (entries s)) (tree_ok mut limit sgf) (\<lambda>k. mutate_run_enqueue_graph r mut (ans (Suc k)))"
  unfolding grows_def
proof (intro allI impI)
  fix k a p s
  assume k: "k < limit" and ok: "tree_ok mut limit sgf k a s"
  obtain new where new: "length new = a" "new_graphs mut sgf new s" using ok by (auto simp: tree_ok_def)
  have l: "limit - k = Suc (limit - Suc k)" using k by simp
  have "corpus_ok (Suc (limit - Suc k)) s" "races_ok (Suc (Suc (2 * (limit - Suc k)))) s" using ok unfolding tree_ok_def l by simp_all
  from mutate_run_enqueue_ok [OF this assms(1,2), of "ans (Suc k)" p] assms(3)
  obtain c s' where m: "mutate_run_enqueue_graph r mut (ans (Suc k)) p s = Returns (c, s')" "corpus_ok (limit - Suc k) s'"
    "races_ok (2 * (limit - Suc k)) s'" "grows_by mut c s s'" unfolding mutation_ok_def by blast
  have n: "length (entries s) = length (entry_graphs s)" "length (entries s') = length (entry_graphs s')" by (simp_all add: entry_graphs_def)
  have "length (entries s) \<le> length (entries s') \<and> (\<forall>i. c = Some i \<longrightarrow> i < length (entries s'))"
    using m(4) unfolding n by (cases c) (auto simp: grows_by_def n corpus_def)
  moreover have "tree_ok mut limit sgf (Suc k) (if c = None then a else Suc a) s'"
    using m(2,3) new_graphs_step [OF new(2) m(4)] new(1) by (cases c) (simp_all add: tree_ok_def)
  ultimately show "\<exists>c s'. mutate_run_enqueue_graph r mut (ans (Suc k)) p s = Returns (c, s') \<and>
      tree_ok mut limit sgf (Suc k) (if c = None then a else Suc a) s' \<and> length (entries s) \<le> length (entries s') \<and>
      (\<forall>i. c = Some i \<longrightarrow> i < length (entries s'))" using m(1) by blast
qed

lemma total_instances:
  assumes "1 \<le> h" and "h < 31"
  shows "unat (skeleton_graph_total_instances h) = 2 ^ unat h - 1"
proof -
  have h: "0 < unat h" "unat h < 31" using assms by (simp_all add: word_le_nat_alt word_less_nat_alt)
  have u: "unat ((2 :: u32) ^ unat h) = 2 ^ unat h" by (rule unat_pow2) (use h in simp)
  then have "(1 :: u32) \<le> 2 ^ unat h" by (simp add: word_le_nat_alt)
  then have "unat ((2 :: u32) ^ unat h - 1) = 2 ^ unat h - 1" using unat_sub [of "1 :: u32" "2 ^ unat h"] u by simp
  moreover have "h \<noteq> 0" "\<not> 31 \<le> h" using h assms(2) by (auto simp: not_le)
  ultimately show ?thesis by (simp add: skeleton_graph_total_instances_def)
qed

text \<open>
  Fuzzing a seed with \<open>h\<close> steps: the tree of mutations always returns after exactly
  \<open>2 ^ h - 1\<close> of them; the corpus keeps its graphs and gets exactly as many new ones as were
  counted, at most one for each mutation; no two of these, and none of them and a graph seen before,
  have the same key; and exactly their keys become known as seen.
\<close>
lemma fuzzing_a_seed_adds_new_graphs:
  assumes "1 \<le> h" and "h < 31" and "cur < length (entries sgf)" and "corpus_ok (2 ^ unat h - 1) sgf"
    and "races_ok (2 * (2 ^ unat h - 1)) sgf" and "memory_suffices (grants mut) (race_pair_list mut)" and "rounds r" and "\<forall>k. sane mut (nn_diff (ans k)) zero_data"
  shows "\<exists>l new. fuzz_steps (\<lambda>k. mutate_run_enqueue_graph r mut (ans (Suc k))) cur h sgf = Returns l \<and>
    unat (created l) = 2 ^ unat h - 1 \<and> length new = unat (added l) \<and> added l \<le> created l \<and> new_graphs mut sgf new (fuzzer l) \<and>
    corpus_ok 0 (fuzzer l)"
proof -
  let ?N = "2 ^ unat h - 1 :: nat" and ?m = "\<lambda>k. mutate_run_enqueue_graph r mut (ans (Suc k))"
  let ?l = "\<lparr>created = 0, added = 0, stage_cur = 0, curr = [], fuzzer = sgf\<rparr>"
  have N: "unat (skeleton_graph_total_instances h) = ?N" by (rule total_instances [OF assms(1,2)])
  have h: "0 < unat h" "1 \<le> (1 :: nat)" using assms(1) by (simp_all add: word_le_nat_alt)
  have "new_graphs mut sgf [] sgf" by (simp add: new_graphs_def)
  then have "tree_ok mut ?N sgf 0 0 sgf" using assms(4,5) by (simp add: tree_ok_def)
  then have l0: "loop_ok (\<lambda>s. length (entries s)) (tree_ok mut ?N sgf) ?l" "cur < length (entries (fuzzer ?l))"
      "\<forall>i\<in>set [cur]. i < length (entries (fuzzer ?l))" "(1 :: nat) = 1 \<longrightarrow> [cur] \<noteq> []" "unat (created ?l) = 2 ^ (1 - 1) - 1"
      "unat (skeleton_graph_total_instances h) = 2 ^ (1 + unat h - 1) - 1" "(1 :: nat) = 1 \<or> length (curr ?l) \<le> 2 ^ (1 - 2)"
    using assms(3) N by (simp_all add: loop_ok_def)
  obtain l where l: "step_loop ?m (skeleton_graph_total_instances h) cur 1 (unat h) [cur] ?l = Returns l"
    "loop_ok (\<lambda>s. length (entries s)) (tree_ok mut ?N sgf) l" "unat (created l) = unat (skeleton_graph_total_instances h)"
    using step_loop_all [OF mutations_grow [OF assms(6-8)] eq_refl [OF N] l0(1-4) h(2) l0(5-7) h(1)] by blast
  have c: "unat (created l) = ?N" using l(3) N by simp
  obtain new where "length new = unat (added l)" "new_graphs mut sgf new (fuzzer l)" "corpus_ok 0 (fuzzer l)"
    using l(2) unfolding loop_ok_def tree_ok_def c by auto
  moreover have "added l \<le> created l" using l(2) by (simp add: loop_ok_def)
  moreover have "h \<noteq> 0" "\<not> 31 \<le> h" using h(1) assms(2) by (auto simp: not_le)
  then have "fuzz_steps ?m cur h sgf = Returns l" using l(1) by (simp add: fuzz_steps_def)
  ultimately show ?thesis using c by blast
qed

definition counting_answers :: "nat \<Rightarrow> (nat, nat) answers" where
  "counting_answers k = \<lparr>mutated = (\<lambda>_. (Some (Suc k), no_mutation)), handed_over = True, run_fault = 0, run_status = Some 0,
     shm_feedback = None, nn_diff = None\<rparr>"

lemma fresh_state_in_order:
  "b \<le> 23488103 \<Longrightarrow> corpus_ok b fresh_state" "b \<le> 100663296 \<Longrightarrow> races_ok b fresh_state" "memory_suffices (grants plain_mutator) (race_pair_list plain_mutator)"
  "nn = None \<Longrightarrow> sane plain_mutator nn (zero_data :: (nat, nat, nat, nat) sgdata)"
  by (simp_all add: corpus_ok_def races_ok_def skel_inv_def race_inv_def fresh_state_def plain_mutator_def sane_def zero_data_def
      memory_suffices_def order_trans [of "_ mod 8" 8])

end
