(* ===== verification/Admission.thy ===== *)
theory Admission imports CampaignLaws begin

text \<open>
  Which mutants the fuzzer keeps: what the status of a run decides, that the first child of a graph
  is always taken, and which events a refused mutant forbids.
\<close>

section \<open>The state in which a mutant is judged\<close>

text \<open>The parent's data through the preparations of a mutation.\<close>

definition first_mutant where
  "first_mutant mut ans = (case fst (mutated ans 0) of None \<Rightarrow> empty_skeleton_graph mut | Some g \<Rightarrow> g)"

definition prepared where
  "prepared mut ans parent sgf = count_mutation (mut_kind (snd (mutated ans 0))) (prepare_parent mut parent sgf)"

text \<open>A mutant found: mutating the parent, at most three further mutations, and a graph not seen.\<close>

definition finds where
  "finds mut ans parent sgf g mi n \<longleftrightarrow> skeleton_graph (data_of sgf parent) \<noteq> None \<and>
     chain_loop mut ans (seen_graphs sgf) 3 0 (first_mutant mut ans) (snd (mutated ans 0)) = Returns (g, mi, n) \<and>
     skeleton_graph_seen (seen_graphs sgf) (hash_skeleton_graph mut g) = Returns False"

lemma prepared_seen: "seen_graphs (prepared mut ans parent sgf) = seen_graphs sgf"
  by (simp add: prepared_def count_mutation_def prepare_parent_def update_data_def)

lemma mutate_run_enqueue_found:
  assumes "finds mut ans parent sgf g mi n"
    and "skeleton_graph_fuzz_stuff ans (prepared mut ans parent sgf) (zero_data\<lparr>skeleton_graph := Some g\<rparr>) = (ec, d)"
  shows "mutate_run_enqueue_graph r mut ans parent sgf =
    (if ec \<in> EXIT_MISMATCH then Returns (None, update_data parent (record_forbidden_mutation mi) (prepared mut ans parent sgf))
     else if ec \<noteq> FSRV_RUN_OK then Returns (None, prepared mut ans parent sgf)
     else judge_child r mut ans parent n g mi d (prepared mut ans parent sgf))"
  using assms unfolding finds_def mutate_run_enqueue_graph_def Let_def
  by (simp only: prepared_def [symmetric] prepared_seen first_mutant_def [symmetric] bind_outcome.simps prod.case if_False)

lemma data_of_update: "parent < length (entries sgf) \<Longrightarrow> data_of (update_data parent f sgf) parent = f (data_of sgf parent)"
  by (simp add: data_of_def update_data_def)

lemma prepared_parent:
  assumes "parent < length (entries sgf)"
  shows "children_enqueued (data_of (prepared mut ans parent sgf) parent) = children_enqueued (data_of sgf parent)"
    and "forbidden_mutations (data_of (prepared mut ans parent sgf) parent) =
      (case forbidden_mutations (data_of sgf parent) of None \<Rightarrow> Some {} | x \<Rightarrow> x)"
    and "length (entries (prepared mut ans parent sgf)) = length (entries sgf)"
proof -
  have c: "data_of (count_mutation k s) i = data_of s i" "length (entries (count_mutation k s)) = length (entries s)" for k s i
    by (simp_all add: count_mutation_def data_of_def)
  show "children_enqueued (data_of (prepared mut ans parent sgf) parent) = children_enqueued (data_of sgf parent)"
    unfolding prepared_def c prepare_parent_def data_of_update [OF assms] by (simp add: Let_def)
  show "forbidden_mutations (data_of (prepared mut ans parent sgf) parent) =
      (case forbidden_mutations (data_of sgf parent) of None \<Rightarrow> Some {} | x \<Rightarrow> x)"
    unfolding prepared_def c prepare_parent_def data_of_update [OF assms] by (auto simp add: Let_def split: option.split)
  show "length (entries (prepared mut ans parent sgf)) = length (entries sgf)"
    unfolding prepared_def c prepare_parent_def update_data_length ..
qed

section \<open>Refused mutants\<close>

text \<open>
  C20. A mutant that the simulator refuses: it is not enqueued and the corpus stays as it is; the
  events forbidden on its parent are those before and the event that the last mutation added, also
  when this mutation was made of another graph, which the parent's own mutation had given, and
  nothing when it added none.
\<close>
theorem refused_mutant_forbids_last_event:
  assumes "finds mut ans parent sgf g mi n" and "parent < length (entries sgf)" and "handed_over ans" and "run_fault ans = FSRV_RUN_OK"
    and "run_status ans = Some c" and "c \<in> EXIT_MISMATCH"
  shows "\<exists>sgf'. mutate_run_enqueue_graph r mut ans parent sgf = Returns (None, sgf') \<and> corpus sgf' = corpus sgf \<and>
    forbidden_mutations (data_of sgf' parent) =
      Some ((if adds_event (mut_kind mi) then {mut_dest mi} else {}) \<union>
        (case forbidden_mutations (data_of sgf parent) of None \<Rightarrow> {} | Some fm \<Rightarrow> fm))"
proof -
  let ?s = "prepared mut ans parent sgf"
  note p = prepared_parent [OF assms(2), of mut ans]
  have "fst (skeleton_graph_fuzz_stuff ans ?s (zero_data\<lparr>skeleton_graph := Some g\<rparr>)) = c"
    using assms(3-6) by (simp add: skeleton_graph_fuzz_stuff_def)
  then obtain d where "skeleton_graph_fuzz_stuff ans ?s (zero_data\<lparr>skeleton_graph := Some g\<rparr>) = (c, d)" by (metis prod.collapse)
  from mutate_run_enqueue_found [OF assms(1) this, of r]
  have "mutate_run_enqueue_graph r mut ans parent sgf = Returns (None, update_data parent (record_forbidden_mutation mi) ?s)"
    using assms(6) by simp
  moreover have "corpus (update_data parent (record_forbidden_mutation mi) ?s) = corpus sgf"
    by (simp add: update_data_corpus record_forbidden_graph prepared_def count_mutation_corpus prepare_parent_corpus)
  moreover have "forbidden_mutations (data_of (update_data parent (record_forbidden_mutation mi) ?s) parent) =
      Some ((if adds_event (mut_kind mi) then {mut_dest mi} else {}) \<union>
        (case forbidden_mutations (data_of sgf parent) of None \<Rightarrow> {} | Some fm \<Rightarrow> fm))"
    using data_of_update [of parent ?s "record_forbidden_mutation mi"] p assms(2) by (simp add: record_forbidden_mutation_def Let_def split: option.split)
  ultimately show ?thesis by blast
qed

text \<open>The parent's mutation of event 7 gave a graph that was seen; the next one added event 9 to it and was refused.\<close>

definition event_named :: "nat \<Rightarrow> event_triple" where
  "event_named n = \<lparr>thread_id = 1, instruction_id = of_nat n, visit_id = 1\<rparr>"

definition chained_answers :: "(nat, nat) answers" where
  "chained_answers = \<lparr>mutated = (\<lambda>k. if k = 0 then (Some 5, \<lparr>mut_kind = MUT_ADD_READ, mut_dest = event_named 7\<rparr>)
       else (Some 6, \<lparr>mut_kind = MUT_ADD_WRITE, mut_dest = event_named 9\<rparr>)),
     handed_over = True, run_fault = 0, run_status = Some 21, shm_feedback = Some 0, nn_diff = None\<rparr>"

lemma seen_one:
  assumes "h \<noteq> 0"
  shows "\<exists>hs. skel_inv hs \<and> hs_keys hs = {skel_key h}"
  using skel_step [of empty_hash_set h "\<lambda>_. True"] assms by (auto simp: skel_inv_def)

theorem refused_mutant_forbids_last_event_witness:
  "\<exists>sgf sgf'. entries sgf = entries fresh_state \<and> mutate_run_enqueue_graph Fin plain_mutator chained_answers 0 sgf = Returns (None, sgf') \<and>
    forbidden_mutations (data_of sgf' 0) = Some {event_named 9}"
proof -
  obtain hs where hs: "skel_inv hs" "hs_keys hs = {skel_key 5}" using seen_one [of 5] by auto
  have n: "skel_key 6 \<noteq> skel_key 5" by (simp add: skel_key_eq doubleton_eq_iff)
  have seen: "skeleton_graph_seen hs 5 = Returns True" "skeleton_graph_seen hs 6 = Returns False"
    using skel_seen [OF hs(1)] hs(2) n by auto
  let ?s = "fresh_state\<lparr>seen_graphs := hs\<rparr>"
  have "chain_loop plain_mutator chained_answers hs 3 0 5 \<lparr>mut_kind = MUT_ADD_READ, mut_dest = event_named 7\<rparr> =
      Returns (6, \<lparr>mut_kind = MUT_ADD_WRITE, mut_dest = event_named 9\<rparr>, 1)"
    using seen by (simp add: numeral_3_eq_3 plain_mutator_def chained_answers_def)
  then have f: "finds plain_mutator chained_answers 0 ?s 6 \<lparr>mut_kind = MUT_ADD_WRITE, mut_dest = event_named 9\<rparr> 1"
    using seen by (simp add: finds_def first_mutant_def chained_answers_def plain_mutator_def fresh_state_def data_of_def)
  have h: "0 < length (entries ?s)" "handed_over chained_answers" "run_fault chained_answers = FSRV_RUN_OK" "run_status chained_answers = Some 21"
    "(21 :: u8) \<in> EXIT_MISMATCH" by (simp_all add: fresh_state_def chained_answers_def FSRV_RUN_OK_def EXIT_MISMATCH_def)
  obtain sgf' where "mutate_run_enqueue_graph Fin plain_mutator chained_answers 0 ?s = Returns (None, sgf')"
    "forbidden_mutations (data_of sgf' 0) = Some ((if adds_event MUT_ADD_WRITE then {event_named 9} else {}) \<union>
        (case forbidden_mutations (data_of ?s 0) of None \<Rightarrow> {} | Some fm \<Rightarrow> fm))"
    using refused_mutant_forbids_last_event [OF f h, of Fin] by auto
  then show ?thesis by (intro exI [of _ ?s] exI [of _ sgf']) (simp add: fresh_state_def data_of_def zero_data_def adds_event_def)
qed

section \<open>Kept mutants\<close>

lemma index_bounded_entries: "index_bounded i x s = Returns s' \<Longrightarrow> entries s' = entries s"
  by (auto simp: index_bounded_def split: if_splits option.splits)

lemma update_cutoff_entries: "entries (update_cutoff r x s) = entries s"
  by (simp add: update_cutoff_def Let_def split_def)

text \<open>The entries after an enqueue: the parent has one child more, and the child is the last.\<close>

lemma enqueue_child_entries:
  assumes "enqueue_child r mut parent g x d sgf = Returns (c, sgf')" and "parent < length (entries sgf)"
  shows "perf_score (entries sgf' ! length (entries sgf)) = x"
    and "children_enqueued (data_of sgf' parent) = children_enqueued (data_of sgf parent) + 1"
proof -
  let ?n = "length (entries sgf)" and ?up = "\<lambda>d. d\<lparr>children_enqueued := children_enqueued d + 1\<rparr>"
  obtain kn hs where hs: "skeleton_graph_seen_or_add (grants mut) (seen_graphs sgf) (hash_skeleton_graph mut g) = Returns (kn, hs)"
    using assms(1) by (auto simp: enqueue_child_def)
  define s1 where "s1 = add_to_queue r (sgf\<lparr>seen_graphs := hs\<rparr>)"
  define s2 where "s2 = update_data parent ?up s1"
  define s3 where "s3 = place_child ?n x d s2"
  have top: "queue_top s2 = Some ?n" by (simp add: s2_def s1_def update_data_def add_to_queue_corpus)
  have "bind_outcome (if check_data_race s3 \<and> is_racy d then save_race mut (data_of s3 ?n) s3 else Returns s3)
      (\<lambda>sgf. bind_outcome (index_bounded ?n x sgf) (\<lambda>sgf. Returns (Some ?n, update_cutoff r x sgf))) = Returns (c, sgf')"
    using assms(1) by (simp only: enqueue_child_def hs bind_outcome.simps prod.case Let_def s1_def [symmetric] s2_def [symmetric] top option.sel
        s3_def [symmetric])
  then obtain s4 s5 where s: "(if check_data_race s3 \<and> is_racy d then save_race mut (data_of s3 ?n) s3 else Returns s3) = Returns s4"
    "index_bounded ?n x s4 = Returns s5" "sgf' = update_cutoff r x s5" unfolding bind_outcome_Returns by blast
  have "entries s4 = entries s3" using s(1) save_race_entries [of mut _ s3 s4] by (auto split: if_splits)
  then have e: "entries sgf' = entries s3" using s(3) index_bounded_entries [OF s(2)] by (simp add: update_cutoff_entries)
  have l: "length (entries s2) = Suc ?n" by (simp add: s2_def s1_def update_data_length add_to_queue_corpus)
  show "perf_score (entries sgf' ! ?n) = x" unfolding e s3_def using l by (simp add: place_child_def Let_def)
  have "data_of sgf' parent = data_of s2 parent"
    using assms(2) unfolding data_of_def e s3_def by (simp add: place_child_def Let_def)
  also have "\<dots> = ?up (data_of s1 parent)"
    unfolding s2_def by (rule data_of_update) (use assms(2) in \<open>simp add: s1_def add_to_queue_corpus\<close>)
  also have "data_of s1 parent = data_of sgf parent"
    using assms(2) by (simp add: s1_def data_of_def add_to_queue_def nth_append)
  finally show "children_enqueued (data_of sgf' parent) = children_enqueued (data_of sgf parent) + 1" by simp
qed

text \<open>
  C11. The first child: from a corpus in order, a new mutant of a graph without children is always
  enqueued when its run was not refused, whatever its score and the cutoff; it is the last entry,
  its score is between 1 and 100, and the parent counts it. Only the statuses 11, 12 and 21 refuse a
  mutant: also the status 10, with which the loader of the graphs says that an edge of the graph
  leads to no event, is taken for a run.
\<close>
theorem first_child_is_kept:
  assumes "finds mut ans parent sgf g mi n" and "parent < length (entries sgf)" and "handed_over ans" and "run_fault ans = FSRV_RUN_OK"
    and "\<forall>c. run_status ans = Some c \<longrightarrow> c \<notin> {11, 12, 21}" and "children_enqueued (data_of sgf parent) = 0"
    and "corpus_ok (Suc b) sgf" and "races_ok (Suc (Suc b')) sgf" and "memory_suffices (grants mut) (race_pair_list mut)" and "rounds r"
    and "sane mut (nn_diff ans) zero_data"
  shows "\<exists>sgf'. mutate_run_enqueue_graph r mut ans parent sgf = Returns (Some (length (entries sgf)), sgf') \<and>
    entry_graphs sgf' = entry_graphs sgf @ [Some g] \<and> Fin 1 \<le> perf_score (entries sgf' ! length (entries sgf)) \<and>
    perf_score (entries sgf' ! length (entries sgf)) \<le> Fin 100 \<and> children_enqueued (data_of sgf' parent) = 1"
proof -
  define s1 where "s1 = prepared mut ans parent sgf"
  note p = prepared_parent [OF assms(2), of mut ans]
  have c1: "corpus s1 = corpus sgf" "race_reports s1 = race_reports sgf"
    by (simp_all add: s1_def prepared_def count_mutation_corpus prepare_parent_corpus)
  have ok1: "corpus_ok (Suc b) s1" "races_ok (Suc (Suc b')) s1"
    using assms(7,8) corpus_ok_cong [OF c1(1)] c1(2) by (simp_all add: races_ok_def)
  have "fst (skeleton_graph_fuzz_stuff ans s1 (zero_data\<lparr>skeleton_graph := Some g\<rparr>)) = 0"
    using assms(3-5) by (auto simp: skeleton_graph_fuzz_stuff_def EXIT_MISMATCH_def Let_def)
  then obtain d where d: "skeleton_graph_fuzz_stuff ans s1 (zero_data\<lparr>skeleton_graph := Some g\<rparr>) = (0, d)" by (metis prod.collapse)
  have g: "skeleton_graph d = Some g" "potential_score d = Fin 0"
    using run_keeps_graph [of ans s1 "zero_data\<lparr>skeleton_graph := Some g\<rparr>"] d by (simp_all add: zero_data_def)
  obtain x d' s where j: "judge_child r mut ans parent n g mi d s1 =
      (if admitted mut x parent d' s then enqueue_child r mut parent g x d' s else Returns (None, s))"
    "Fin 1 \<le> x" "x \<le> Fin 100" "skeleton_graph d' = Some g" "corpus s = corpus s1" "races_ok (Suc b') s"
    "children_enqueued (data_of s parent) = children_enqueued (data_of s1 parent)"
    using judge_child_decides [OF ok1(2) assms(9-11) g, of parent n mi] by blast
  have ch: "children_enqueued (data_of s parent) = 0" using j(7) p(1) assms(6) by (simp add: s1_def)
  have ad: "admitted mut x parent d' s" using ch by (simp add: admitted_def Let_def)
  have ok: "corpus_ok (Suc b) s" using ok1(1) corpus_ok_cong [OF j(5)] by blast
  have same: "length (entries s) = length (entries sgf)" "entry_graphs s = entry_graphs sgf" "seen_graphs s = seen_graphs sgf"
    using corpus_length [OF trans [OF j(5) c1(1)]] trans [OF j(5) c1(1)] by (simp_all add: corpus_def)
  have seen: "skeleton_graph_seen (seen_graphs s) (hash_skeleton_graph mut g) = Returns False"
    using assms(1) by (simp add: finds_def same)
  have x: "not_nan x" using j(2) double_le_not_nan by blast
  obtain sgf' where e: "enqueue_child r mut parent g x d' s = Returns (Some (length (entries s)), sgf')"
    "entry_graphs sgf' = entry_graphs s @ [Some g]"
    using enqueue_child_ok [OF ok j(6) assms(9) x j(4) seen, of r parent] by blast
  have par: "parent < length (entries s)" using assms(2) same by simp
  note ent = enqueue_child_entries [OF e(1) par]
  have gr: "entry_graphs sgf' = entry_graphs sgf @ [Some g]" using e(2) same by simp
  have "mutate_run_enqueue_graph r mut ans parent sgf = Returns (Some (length (entries sgf)), sgf')"
    using mutate_run_enqueue_found [OF assms(1), of 0 d r] d j(1) ad e(1) same by (simp add: s1_def EXIT_MISMATCH_def FSRV_RUN_OK_def)
  then show ?thesis using gr ent j(2,3) ch same by (intro exI [of _ sgf']) simp
qed

text \<open>A run that ended with status 10, under a cutoff that no score reaches.\<close>

definition lost_event_answers :: "(nat, nat) answers" where
  "lost_event_answers = \<lparr>mutated = (\<lambda>k. (Some 5, \<lparr>mut_kind = MUT_MUTATE_RF, mut_dest = event_named 7\<rparr>)),
     handed_over = True, run_fault = 0, run_status = Some 10, shm_feedback = None, nn_diff = None\<rparr>"

theorem first_child_is_kept_witness:
  "\<exists>sgf'. mutate_run_enqueue_graph Fin plain_mutator lost_event_answers 0 (fresh_state\<lparr>cutoff_score := Fin 101\<rparr>) = Returns (Some 1, sgf') \<and>
    entry_graphs sgf' = [Some 0, Some 5]"
proof -
  let ?s = "fresh_state\<lparr>cutoff_score := Fin 101\<rparr>"
  have f: "finds plain_mutator lost_event_answers 0 ?s 5 \<lparr>mut_kind = MUT_MUTATE_RF, mut_dest = event_named 7\<rparr> 0"
    by (simp add: finds_def first_mutant_def lost_event_answers_def plain_mutator_def fresh_state_def data_of_def numeral_3_eq_3
        skeleton_graph_seen_def)
  have h: "0 < length (entries ?s)" "handed_over lost_event_answers" "run_fault lost_event_answers = FSRV_RUN_OK"
    "\<forall>c. run_status lost_event_answers = Some c \<longrightarrow> c \<notin> {11, 12, 21}" "children_enqueued (data_of ?s 0) = 0"
    "corpus_ok (Suc 0) ?s" "races_ok (Suc (Suc 0)) ?s" "memory_suffices (grants plain_mutator) (race_pair_list plain_mutator)"
    "sane plain_mutator (nn_diff lost_event_answers) (zero_data :: (nat, nat, nat, nat) sgdata)"
    by (simp_all add: fresh_state_def lost_event_answers_def FSRV_RUN_OK_def data_of_def zero_data_def corpus_ok_def skel_inv_def
        races_ok_def race_inv_def plain_mutator_def sane_def memory_suffices_def order_trans [of "_ mod 8" 8])
  have n: "length (entries ?s) = 1" "entry_graphs ?s = [Some 0]" by (simp_all add: fresh_state_def entry_graphs_def)
  show ?thesis using first_child_is_kept [OF f h(1-8) rounds_Fin h(9)] unfolding n by auto
qed

end
