(* ===== verification/SeedLaws.thy ===== *)
theory SeedLaws imports Admission begin

text \<open>
  What \<open>fuzz_one\<close> does with a seed as a whole: it ends the program only when the seed itself does
  not run as it should, completes the seed, grows the corpus by new graphs, and records the yield in
  the seed and in the counters that steer the phases.
\<close>

definition keeps_corpus_but where
  "keeps_corpus_but cur g sgf sgf' \<longleftrightarrow> corpus sgf' = (seen_graphs sgf, bounded_queue sgf, queued_items sgf, max_queued_id sgf,
     map qe_id (entries sgf), (entry_graphs sgf)[cur := Some g]) \<and> race_reports sgf' = race_reports sgf \<and>
   skeleton_graph_stage_max sgf' = skeleton_graph_stage_max sgf"

lemma update_data_stage: "skeleton_graph_stage_max (update_data i f sgf) = skeleton_graph_stage_max sgf"
  by (simp add: update_data_def)

lemma entry_graph_of: "i < length (entries sgf) \<Longrightarrow> entry_graphs sgf ! i = skeleton_graph (data_of sgf i)"
  by (simp add: entry_graphs_def data_of_def)

lemma keeps_corpus_but_refl:
  "i < length (entries sgf) \<Longrightarrow> skeleton_graph (data_of sgf i) = Some g \<Longrightarrow> keeps_corpus_but i g sgf sgf"
  using entry_graph_of [of i sgf] by (simp add: keeps_corpus_but_def corpus_def) (metis list_update_id)

lemma keeps_corpus_but_update:
  assumes "keeps_corpus_but i g sgf sgf'" and "skeleton_graph (f (data_of sgf' i)) = skeleton_graph (data_of sgf' i)"
  shows "keeps_corpus_but i g sgf (update_data i f sgf')"
  using assms(1) update_data_corpus [where f = f and i = i and sgf = sgf', OF assms(2)] update_data_stage [of i f sgf']
  by (simp add: keeps_corpus_but_def)

text \<open>The graph of a seed that has none is the one in its file, or the empty one.\<close>

definition seed_graph where
  "seed_graph mut file_graph d = (case skeleton_graph d of Some g \<Rightarrow> g
     | None \<Rightarrow> (case file_graph of None \<Rightarrow> empty_skeleton_graph mut | Some g \<Rightarrow> g))"

lemma give_graph:
  assumes "i < length (entries sgf)"
  shows "keeps_corpus_but i (seed_graph mut file_graph (data_of sgf i)) sgf (update_data i (\<lambda>d. if skeleton_graph d = None
      then d\<lparr>skeleton_graph := Some (case file_graph of None \<Rightarrow> empty_skeleton_graph mut | Some g \<Rightarrow> g)\<rparr> else d) sgf)"
  using assms by (auto simp: keeps_corpus_but_def corpus_def update_data_def data_of_def seed_graph_def entry_graphs_def map_update
      list_update_same_conv intro!: nth_equalityI split: option.split)

lemma keeps_corpus_but_cong:
  assumes "keeps_corpus_but i g s s'" and "corpus s = corpus sgf" and "race_reports s = race_reports sgf"
    and "skeleton_graph_stage_max s = skeleton_graph_stage_max sgf"
  shows "keeps_corpus_but i g sgf s'"
proof -
  have e: "seen_graphs s = seen_graphs sgf" "bounded_queue s = bounded_queue sgf" "queued_items s = queued_items sgf"
    "max_queued_id s = max_queued_id sgf" "map qe_id (entries s) = map qe_id (entries sgf)" "entry_graphs s = entry_graphs sgf"
    using assms(2) by (simp_all add: corpus_def)
  show ?thesis using assms(1) unfolding keeps_corpus_but_def e assms(3,4) .
qed

text \<open>The potential and the scores of a seed.\<close>

definition score_seed where
  "score_seed r mut ans cur sgf =
     (if do_intelligent_sg_fuzzing sgf
      then let sgf = update_data cur (\<lambda>d. if skeleton_potential d = None
                 then d\<lparr>skeleton_potential := create_skeleton_potential mut (the (skeleton_graph d))\<rparr> else d) sgf;
               d = data_of sgf cur
           in if potential_score d = Fin 0 \<or> mo_footprint_score d = Fin 0 \<or> rf_footprint_score d = Fin 0
              then update_data cur (\<lambda>d. snd (calculate_score r mut (nn_diff ans) sgf d)) sgf else sgf
      else sgf\<lparr>entries := (entries sgf)[cur := (entries sgf ! cur)\<lparr>perf_score := Fin 100\<rparr>]\<rparr>)"

lemma score_seed_keeps:
  assumes "keeps_corpus_but cur g sgf s"
  shows "keeps_corpus_but cur g sgf (score_seed r mut ans cur s)"
proof (cases "do_intelligent_sg_fuzzing s")
  case True
  have 1: "keeps_corpus_but cur g sgf (update_data cur f s')"
    if "\<And>d. skeleton_graph (f d) = skeleton_graph d" "keeps_corpus_but cur g sgf s'" for f s'
    by (rule keeps_corpus_but_update [OF that(2)]) (rule that(1))
  show ?thesis using True assms by (simp add: score_seed_def Let_def 1 calculate_score_graph)
next
  case False
  have m: "map f ((entries s)[cur := (entries s ! cur)\<lparr>perf_score := Fin 100\<rparr>]) = map f (entries s)"
    if "\<And>e. f (e\<lparr>perf_score := Fin 100\<rparr>) = f e" for f :: "_ \<Rightarrow> 'x"
    by (metis that list_update_beyond list_update_id map_update not_le)
  show ?thesis using assms False by (simp add: score_seed_def keeps_corpus_but_def corpus_def entry_graphs_def m)
qed

text \<open>
  A seed gives no feedback when the simulator refuses it, or when there is none after it was run and
  none was there before. A seed that was run already is not run again; one that cannot be run keeps
  the feedback it has.
\<close>

definition gives_no_feedback :: "('g, 'f) answers \<Rightarrow> ('g, 'p, 'r, 'f) sgdata \<Rightarrow> bool" where
  "gives_no_feedback ans d \<longleftrightarrow>
     (if already_simulated d \<or> skeleton_graph d = None \<or> \<not> handed_over ans then simulator_feedback d = None
      else if run_fault ans \<noteq> FSRV_RUN_OK then run_fault ans \<in> EXIT_MISMATCH \<or> simulator_feedback d = None
      else (\<exists>c\<in>EXIT_MISMATCH. run_status ans = Some c) \<or> (simulator_feedback d = None \<and> shm_feedback ans = None))"

lemma run_without_feedback:
  assumes "enable_feedback sgf" and "queue_cur sgf \<noteq> None" and "\<not> already_simulated d"
  shows "fst (skeleton_graph_fuzz_stuff ans sgf d) \<in> EXIT_MISMATCH \<or> simulator_feedback (snd (skeleton_graph_fuzz_stuff ans sgf d)) = None \<longleftrightarrow>
    gives_no_feedback ans d"
  using assms by (auto simp: skeleton_graph_fuzz_stuff_def gives_no_feedback_def EXIT_MISMATCH_def FSRV_RUN_ERROR_def FSRV_RUN_OK_def
      Let_def split: option.splits)

lemma complete_seed_ok:
  assumes "cur < length (entries sgf)" and "queue_cur sgf \<noteq> None"
  shows "if enable_feedback sgf \<and> gives_no_feedback ans (data_of sgf cur) then complete_seed r mut ans file_graph cur sgf = Exits 1
    else \<exists>s. complete_seed r mut ans file_graph cur sgf = Returns s \<and>
       keeps_corpus_but cur (seed_graph mut file_graph (data_of sgf cur)) sgf s"
proof -
  let ?run = "skeleton_graph_fuzz_stuff ans sgf (data_of sgf cur)"
  define s1 where "s1 = (if enable_feedback sgf \<and> \<not> already_simulated (data_of sgf cur) then update_data cur (\<lambda>_. snd ?run) sgf else sgf)"
  have g: "skeleton_graph (snd ?run) = skeleton_graph (data_of sgf cur)" by (rule run_keeps_graph)
  have s1: "corpus s1 = corpus sgf" "race_reports s1 = race_reports sgf" "skeleton_graph_stage_max s1 = skeleton_graph_stage_max sgf"
    "enable_feedback s1 = enable_feedback sgf" "seed_graph mut file_graph (data_of s1 cur) = seed_graph mut file_graph (data_of sgf cur)"
    "cur < length (entries s1)"
    using update_data_corpus [where f = "\<lambda>_. snd ?run" and i = cur and sgf = sgf, OF g] assms g data_of_update [OF assms(1), of "\<lambda>_. snd ?run"]
    by (simp_all add: s1_def update_data_stage update_data_length seed_graph_def) (simp add: update_data_def)
  define s2 where "s2 = update_data cur (\<lambda>d. if skeleton_graph d = None
      then d\<lparr>skeleton_graph := Some (case file_graph of None \<Rightarrow> empty_skeleton_graph mut | Some g \<Rightarrow> g)\<rparr> else d) s1"
  have "keeps_corpus_but cur (seed_graph mut file_graph (data_of s1 cur)) s1 s2" unfolding s2_def by (rule give_graph [OF s1(6)])
  then have "keeps_corpus_but cur (seed_graph mut file_graph (data_of sgf cur)) sgf s2"
    unfolding s1(5) by (rule keeps_corpus_but_cong [OF _ s1(1-3)])
  then have keep: "keeps_corpus_but cur (seed_graph mut file_graph (data_of sgf cur)) sgf (score_seed r mut ans cur s2)" by (rule score_seed_keeps)
  have first: "(if enable_feedback sgf \<and> \<not> already_simulated (data_of sgf cur)
      then case ?run of (exit_code, d) \<Rightarrow> if exit_code \<in> EXIT_MISMATCH then Exits 1 else Returns (update_data cur (\<lambda>_. d) sgf)
      else Returns sgf) =
    (if enable_feedback sgf \<and> \<not> already_simulated (data_of sgf cur) \<and> fst ?run \<in> EXIT_MISMATCH then Exits 1 else Returns s1)"
    by (simp add: s1_def split_def)
  have run: "complete_seed r mut ans file_graph cur sgf =
      (if enable_feedback sgf \<and> \<not> already_simulated (data_of sgf cur) \<and> fst ?run \<in> EXIT_MISMATCH then Exits 1
       else if enable_feedback sgf \<and> simulator_feedback (data_of s1 cur) = None then Exits 1
       else Returns (score_seed r mut ans cur s2))"
    unfolding complete_seed_def first by (simp add: s2_def score_seed_def s1(4) Let_def)
  have "gives_no_feedback ans (data_of sgf cur) \<longleftrightarrow> (\<not> already_simulated (data_of sgf cur) \<and> fst ?run \<in> EXIT_MISMATCH) \<or>
      simulator_feedback (data_of s1 cur) = None" if "enable_feedback sgf"
    using run_without_feedback [OF that assms(2), of "data_of sgf cur" ans] data_of_update [OF assms(1), of "\<lambda>_. snd ?run"] that
    by (cases "already_simulated (data_of sgf cur)") (simp_all add: s1_def gives_no_feedback_def)
  then show ?thesis unfolding run using keep by auto
qed

lemma keeps_corpus_but_ok:
  assumes "keeps_corpus_but cur g sgf s"
  shows "corpus_ok b s = corpus_ok b sgf" and "races_ok b s = races_ok b sgf" and "length (entries s) = length (entries sgf)"
    and "entry_graphs s = (entry_graphs sgf)[cur := Some g]" and "seen_graphs s = seen_graphs sgf"
    and "highest_step_of s = highest_step_of sgf"
proof -
  have e: "seen_graphs s = seen_graphs sgf" "bounded_queue s = bounded_queue sgf" "queued_items s = queued_items sgf"
    "max_queued_id s = max_queued_id sgf" "map qe_id (entries s) = map qe_id (entries sgf)" "entry_graphs s = (entry_graphs sgf)[cur := Some g]"
    "race_reports s = race_reports sgf" "skeleton_graph_stage_max s = skeleton_graph_stage_max sgf"
    using assms by (simp_all add: keeps_corpus_but_def corpus_def)
  have l: "length (entries s) = length (entries sgf)" using map_eq_imp_length_eq [OF e(5)] .
  show "corpus_ok b s = corpus_ok b sgf" unfolding corpus_ok_def e l ..
  show "races_ok b s = races_ok b sgf" unfolding races_ok_def e ..
  show "length (entries s) = length (entries sgf)" "entry_graphs s = (entry_graphs sgf)[cur := Some g]" "seen_graphs s = seen_graphs sgf"
    by (fact l e)+
  show "highest_step_of s = highest_step_of sgf" unfolding highest_step_of_def e ..
qed

lemma decay_seed_data: "data (decay_seed r m n i e) = (data e)\<lparr>decay_ratio := new_decay_ratio r m n\<rparr>"
  by (simp add: decay_seed_def Let_def)

lemma end_of_seed_facts:
  assumes "cur < length (entries (fuzzer l))"
  shows "entry_graphs (end_of_seed r cur l) = entry_graphs (fuzzer l)" and "seen_graphs (end_of_seed r cur l) = seen_graphs (fuzzer l)"
    and "decay_ratio (data_of (end_of_seed r cur l) cur) = new_decay_ratio r (created l) (added l)"
    and "added l = 0 \<Longrightarrow> consecutive_productive_seeds (end_of_seed r cur l) = 0"
    and "added l \<noteq> 0 \<Longrightarrow> consecutive_stagnant_seeds (end_of_seed r cur l) = 0"
  using assms by (simp_all add: end_of_seed_def Let_def entry_graphs_def data_of_def decay_seed_data map_update list_update_same_conv word_neq_0_conv)

text \<open>
  C2. Fuzzing one seed: the program ends, with status 1, exactly when feedback is enabled and the
  seed gives none: the simulator refuses it, or no feedback came and none was there before.
  Otherwise the seed gets its graph, the one it had, the one in its file or the
  empty one; the corpus grows by at most \<open>2 ^ h - 1\<close> graphs, whose keys are new and different;
  the seed's decay ratio is the one for this yield, and one of the two counters that steer the
  pruning phase is reset, depending on whether there was any. The seed is an entry of the queue,
  the number \<open>h\<close> of steps is below 31, and the sets of graphs and races have room for the
  \<open>2 ^ h - 1\<close> mutants.
\<close>
theorem fuzz_one_session:
  assumes "queue_cur sgf = Some cur" and "cur < length (entries sgf)" and "highest_step_of sgf < 31"
    and "corpus_ok (2 ^ unat (highest_step_of sgf) - 1) sgf" and "races_ok (2 * (2 ^ unat (highest_step_of sgf) - 1)) sgf"
    and "memory_suffices (grants mut) (race_pair_list mut)" and "rounds r" and "\<forall>k. sane mut (nn_diff (ans k)) zero_data"
  shows "if enable_feedback sgf \<and> gives_no_feedback (ans 0) (data_of sgf cur) then fuzz_one r mut ans file_graph sgf = Exits 1
    else (\<exists>sgf' new m. fuzz_one r mut ans file_graph sgf = Returns sgf' \<and>
       entry_graphs sgf' = (entry_graphs sgf)[cur := Some (seed_graph mut file_graph (data_of sgf cur))] @ new \<and>
       length new = unat m \<and> unat m \<le> 2 ^ unat (highest_step_of sgf) - 1 \<and> distinct (graph_keys mut new) \<and>
       set (graph_keys mut new) \<inter> hs_keys (seen_graphs sgf) = {} \<and>
       hs_keys (seen_graphs sgf') = hs_keys (seen_graphs sgf) \<union> set (graph_keys mut new) \<and>
       decay_ratio (data_of sgf' cur) = new_decay_ratio r (skeleton_graph_total_instances (highest_step_of sgf)) m \<and>
       (if new = [] then consecutive_productive_seeds sgf' = 0 else consecutive_stagnant_seeds sgf' = 0))"
proof (cases "enable_feedback sgf \<and> gives_no_feedback (ans 0) (data_of sgf cur)")
  case True
  then show ?thesis using assms(1) complete_seed_ok [OF assms(2), of "ans 0" r mut file_graph] by (simp add: fuzz_one_def)
next
  case False
  let ?h = "highest_step_of sgf"
  obtain s where s: "complete_seed r mut (ans 0) file_graph cur sgf = Returns s"
    "keeps_corpus_but cur (seed_graph mut file_graph (data_of sgf cur)) sgf s"
    using False assms(1) complete_seed_ok [OF assms(2), of "ans 0" r mut file_graph] by auto
  note k = keeps_corpus_but_ok [OF s(2)]
  have "unat (skeleton_graph_stage_max sgf) < 2 ^ 32" using unsigned_less [of "skeleton_graph_stage_max sgf", where 'a = nat] by simp
  then have u: "unat (ucast (skeleton_graph_stage_max sgf) :: u32) = unat (skeleton_graph_stage_max sgf)"
    by (simp add: unsigned_ucast_eq take_bit_nat_eq_self)
  have "unat ?h \<noteq> 0"
  proof (cases "skeleton_graph_stage_max sgf = 0")
    case False
    then have "unat (skeleton_graph_stage_max sgf) \<noteq> 0" by (simp only: unat_eq_zero not_False_eq_True)
    then show ?thesis using False unfolding highest_step_of_def by (simp only: u if_True not_False_eq_True)
  qed (simp add: highest_step_of_def)
  then have h1: "1 \<le> ?h" by (simp add: word_le_nat_alt)
  have pre: "cur < length (entries s)" "corpus_ok (2 ^ unat ?h - 1) s" "races_ok (2 * (2 ^ unat ?h - 1)) s" using assms(2,4,5) k(1-3) by simp_all
  from fuzzing_a_seed_adds_new_graphs [OF h1 assms(3) pre assms(6-8)]
  obtain l new where l: "fuzz_steps (\<lambda>k. mutate_run_enqueue_graph r mut (ans (Suc k))) cur ?h s = Returns l"
    "unat (created l) = 2 ^ unat ?h - 1" "length new = unat (added l)" "added l \<le> created l" "new_graphs mut s new (fuzzer l)" by blast
  have c: "created l = skeleton_graph_total_instances ?h" using l(2) total_instances [OF h1 assms(3)] by (simp only: word_unat_eq_iff)
  have "length (entry_graphs (fuzzer l)) = length (entry_graphs s) + length new" using l(5) by (simp add: new_graphs_def)
  then have "cur < length (entries (fuzzer l))" using pre(1) by (simp add: entry_graphs_def)
  note e = end_of_seed_facts [OF this, of r]
  have "fuzz_one r mut ans file_graph sgf = Returns (end_of_seed r cur l)" using assms(1) s(1) l(1) k(6) by (simp add: fuzz_one_def)
  moreover have "new = [] \<longleftrightarrow> added l = 0" using l(3) by (metis length_0_conv unat_eq_zero)
  moreover have "unat (added l) \<le> 2 ^ unat ?h - 1" using l(2,4) by (simp add: word_le_nat_alt)
  ultimately show ?thesis unfolding if_not_P [OF False] using l(3,5) e k(4,5) c
    by (intro exI [of _ "end_of_seed r cur l"] exI [of _ new] exI [of _ "added l"]) (auto simp: new_graphs_def)
qed

text \<open>A seed that is run and gives feedback, and the same seed when none comes.\<close>

definition feedback_answers :: "nat option \<Rightarrow> nat \<Rightarrow> (nat, nat) answers" where
  "feedback_answers f k = (counting_answers k)\<lparr>shm_feedback := f\<rparr>"

theorem fuzz_one_session_witness:
  "(\<exists>sgf' new. enable_feedback fresh_state \<and> fuzz_one Fin plain_mutator (feedback_answers (Some 9)) None fresh_state = Returns sgf' \<and>
    entry_graphs sgf' = [Some 0] @ new \<and> length new \<le> 7 \<and> distinct (graph_keys plain_mutator new)) \<and>
   fuzz_one Fin plain_mutator (feedback_answers None) None fresh_state = Exits 1"
proof -
  have h: "queue_cur fresh_state = Some 0" "0 < length (entries fresh_state)" "highest_step_of fresh_state < 31"
    by (simp_all add: fresh_state_def highest_step_of_def)
  have n: "2 ^ unat (highest_step_of fresh_state) - 1 = (7 :: nat)" by (simp add: fresh_state_def highest_step_of_def)
  have ok: "corpus_ok (2 ^ unat (highest_step_of fresh_state) - 1) fresh_state"
    "races_ok (2 * (2 ^ unat (highest_step_of fresh_state) - 1)) fresh_state"
    unfolding n using fresh_state_in_order(1,2) by simp_all
  have sane: "\<forall>k. sane plain_mutator (nn_diff (feedback_answers f k)) (zero_data :: (nat, nat, nat, nat) sgdata)" for f
    using fresh_state_in_order(4) by (simp add: counting_answers_def feedback_answers_def)
  have e: "enable_feedback fresh_state" "gives_no_feedback (feedback_answers f 0) (data_of fresh_state 0) \<longleftrightarrow> f = None"
    "(entry_graphs fresh_state)[0 := Some (seed_graph plain_mutator None (data_of fresh_state 0))] = [Some 0]" for f
    by (simp_all add: fresh_state_def entry_graphs_def seed_graph_def data_of_def gives_no_feedback_def feedback_answers_def
        counting_answers_def zero_data_def FSRV_RUN_OK_def EXIT_MISMATCH_def)
  note t = fuzz_one_session [OF h ok fresh_state_in_order(3) rounds_Fin sane, where file_graph = None]
  show ?thesis using t [of "Some 9"] t [of None] e(1,2) unfolding e(3) n by auto
qed

end
