(* ===== verification/SchedRmw.thy ===== *)
theory SchedRmw imports SchedEvents begin

text \<open>
  The value a read-modify-write computes (\<open>rmw_value\<close>, in \<^verbatim>\<open>scheduler_on_rmw_bytes_ex\<close>) against the
  operation on the operand's own width. The instrumentation (\<^verbatim>\<open>InstrumentWMM.cpp\<close>) widens the operand
  with zeros, the handler reads the old value into a zeroed buffer, and the low bytes of the result
  are stored.
\<close>

section \<open>Words and their zero extensions\<close>

lemma narrow_arith:
  fixes a b :: "'a::len word" assumes "LENGTH('a) < 64"
  shows "(ucast ((ucast a :: u64) + ucast b) :: 'a word) = a + b"
    "(ucast ((ucast a :: u64) - ucast b) :: 'a word) = a - b"
    "(ucast (ucast a :: u64) :: 'a word) = a"
    "(ucast a :: u64) < ucast b \<longleftrightarrow> a < b"
  using assms by (transfer; simp add: take_bit_add take_bit_diff min_def)+

lemma narrow_bits:
  fixes a b :: "'a::len word" assumes "LENGTH('a) < 64"
  shows "(ucast ((ucast a :: u64) AND ucast b) :: 'a word) = a AND b"
    "(ucast ((ucast a :: u64) OR ucast b) :: 'a word) = a OR b"
    "(ucast ((ucast a :: u64) XOR ucast b) :: 'a word) = a XOR b"
    "(ucast (NOT ((ucast a :: u64) AND ucast b)) :: 'a word) = NOT (a AND b)"
  using assms by (transfer; simp add: take_bit_not_take_bit min_def)+

text \<open>A zero extension is never negative.\<close>

lemma sint_ucast:
  fixes a :: "'a::len word" assumes "LENGTH('a) < 64"
  shows "sint (ucast a :: u64) = uint a"
proof -
  have "uint a < 2 ^ LENGTH('a)" by simp
  also have "(2::int) ^ LENGTH('a) \<le> 2 ^ 63" using assms by (intro power_increasing) auto
  finally have l: "uint a < 2 ^ 63" .
  then have "uint (ucast a :: u64) = uint a" by (simp add: unsigned_ucast_eq take_bit_int_eq_self)
  moreover have "signed_take_bit 63 (uint a) = uint a"
    using l by (intro signed_take_bit_int_eq_self) (simp_all add: order_trans [of _ 0])
  ultimately show ?thesis by (simp add: sint_uint)
qed

lemma sint_sign: "sint a = uint a - (if sint a < 0 then 2 ^ LENGTH('a) else 0)" for a :: "'a::len word"
proof -
  have m: "uint a = sint a mod 2 ^ LENGTH('a)" by (metis uint_sint take_bit_eq_mod)
  have p: "(2::int) ^ (LENGTH('a) - 1) \<le> 2 ^ LENGTH('a)" by (intro power_increasing) auto
  show ?thesis
  proof (cases "sint a < 0")
    case True
    have "(sint a + 2 ^ LENGTH('a)) mod 2 ^ LENGTH('a) = sint a + 2 ^ LENGTH('a)"
    proof (rule mod_pos_pos_trivial)
      show "0 \<le> sint a + 2 ^ LENGTH('a)" using p sint_ge [of a] by linarith
    qed (use True in simp)
    then show ?thesis using True m by simp
  next
    case False
    have "sint a mod 2 ^ LENGTH('a) = sint a"
    proof (rule mod_pos_pos_trivial)
      show "sint a < 2 ^ LENGTH('a)" using p sint_lt [of a] by linarith
    qed (use False in simp)
    then show ?thesis using False m by simp
  qed
qed

text \<open>The greater of two words, unsigned, is the greater one, signed, when their signs agree.\<close>

lemma extremes_int:
  fixes x y sx sy N :: int
  assumes "- N \<le> 2 * sx" and "2 * sx < N" and "- N \<le> 2 * sy" and "2 * sy < N"
    and "sx = x - (if sx < 0 then N else 0)" and "sy = y - (if sy < 0 then N else 0)"
  shows "(if x \<le> y then sy else sx) = max sx sy \<longleftrightarrow> x = y \<or> (sx < 0 \<longleftrightarrow> sy < 0)"
    "(if x \<le> y then sx else sy) = min sx sy \<longleftrightarrow> x = y \<or> (sx < 0 \<longleftrightarrow> sy < 0)"
  using assms unfolding max_def min_def by (auto split: if_splits)

lemma unsigned_extremes:
  fixes a b :: "'a::len word"
  shows "sint (max a b) = max (sint a) (sint b) \<longleftrightarrow> a = b \<or> (sint a < 0 \<longleftrightarrow> sint b < 0)"
    "sint (min a b) = min (sint a) (sint b) \<longleftrightarrow> a = b \<or> (sint a < 0 \<longleftrightarrow> sint b < 0)"
proof -
  have e: "uint a = uint b \<longleftrightarrow> a = b" using word_uint_eqI by blast
  have m: "sint (max a b) = (if uint a \<le> uint b then sint b else sint a)"
    "sint (min a b) = (if uint a \<le> uint b then sint a else sint b)" by (simp_all add: max_def min_def word_le_def)
  have p: "(2::int) ^ LENGTH('a) = 2 * 2 ^ (LENGTH('a) - 1)" by (metis Suc_pred' len_gt_0 power_Suc)
  have range: "- (2 ^ LENGTH('a)) \<le> 2 * sint c" "2 * sint c < 2 ^ LENGTH('a)" for c :: "'a word"
    unfolding p using sint_ge [of c] sint_lt [of c] by linarith+
  note x = extremes_int [OF range range sint_sign [of a] sint_sign [of b]]
  show "sint (max a b) = max (sint a) (sint b) \<longleftrightarrow> a = b \<or> (sint a < 0 \<longleftrightarrow> sint b < 0)"
    "sint (min a b) = min (sint a) (sint b) \<longleftrightarrow> a = b \<or> (sint a < 0 \<longleftrightarrow> sint b < 0)"
    unfolding m e [symmetric] by (rule x)+
qed

section \<open>Properties\<close>

text \<open>The result the handler stores for an operand of the width of \<open>'a\<close>.\<close>

definition rmw_narrow :: "u32 \<Rightarrow> 'a::len word \<Rightarrow> 'a word \<Rightarrow> 'a word" where
  "rmw_narrow opn a b = ucast (rmw_value opn (ucast a) (ucast b))"

text \<open>
  C31. Read-modify-write on operands narrower than 64 bits: exchange, add, subtract, and, nand, or,
  exclusive or and the unsigned maximum and minimum are the operations on the operand's own width.
  The signed maximum (7) and minimum (8) give the unsigned ones instead, which are the signed ones
  exactly when the operands are equal or have the same sign.
\<close>
theorem sched_rmw_narrow:
  fixes a b :: "'a::len word"
  assumes "LENGTH('a) < 64"
  shows "rmw_narrow 0 a b = b \<and> rmw_narrow 1 a b = a + b \<and> rmw_narrow 2 a b = a - b \<and>
    rmw_narrow 3 a b = a AND b \<and> rmw_narrow 4 a b = NOT (a AND b) \<and> rmw_narrow 5 a b = a OR b \<and>
    rmw_narrow 6 a b = a XOR b \<and> rmw_narrow 9 a b = max a b \<and> rmw_narrow 10 a b = min a b \<and>
    (sint (rmw_narrow 7 a b) = max (sint a) (sint b) \<longleftrightarrow> a = b \<or> (sint a < 0 \<longleftrightarrow> sint b < 0)) \<and>
    (sint (rmw_narrow 8 a b) = min (sint a) (sint b) \<longleftrightarrow> a = b \<or> (sint a < 0 \<longleftrightarrow> sint b < 0))"
proof -
  note n = narrow_arith [OF assms] narrow_bits [OF assms]
  have "rmw_narrow 9 a b = max a b" "rmw_narrow 10 a b = min a b"
    by (auto simp: rmw_narrow_def rmw_value_def n max_def min_def)
  moreover have "rmw_narrow 7 a b = max a b" "rmw_narrow 8 a b = min a b"
    by (auto simp: rmw_narrow_def rmw_value_def n sint_ucast [OF assms] max_def min_def word_le_def word_uint_eqI)
  moreover have "rmw_narrow 0 a b = b" "rmw_narrow 1 a b = a + b" "rmw_narrow 2 a b = a - b"
    "rmw_narrow 3 a b = a AND b" "rmw_narrow 5 a b = a OR b" "rmw_narrow 6 a b = a XOR b"
    by (simp_all add: rmw_narrow_def rmw_value_def n)
  moreover have "rmw_value 4 x y = NOT (x AND y)" for x y by (simp add: rmw_value_def)
  then have "rmw_narrow 4 a b = NOT (a AND b)" unfolding rmw_narrow_def by (simp only: n)
  ultimately show ?thesis using unsigned_extremes [of a b] by (simp only:)
qed

theorem sched_rmw_narrow_witness: "sint (rmw_narrow 7 (1 :: 8 word) (- 1)) \<noteq> max (sint (1 :: 8 word)) (sint (- 1 :: 8 word))"
  using sched_rmw_narrow [of "1 :: 8 word" "- 1"] by simp

end
