(* ===== verification/Utf8.thy ===== *)
theory Utf8 imports Prelude begin

text \<open>
  UTF-8 and surrogate pairs, as the JSON library of the runtime handles them
  (\<^verbatim>\<open>src/wmm-runtime/json.c\<close>). A C string is the list of its bytes before the NUL, and
  reading at its end gives the NUL. Reading a valid character and writing it gives its bytes, and
  writing a code point and reading it gives the code point.
\<close>

type_synonym cbytes = "u8 list"

definition peek :: "cbytes \<Rightarrow> u8" where
  "peek s = (case s of [] \<Rightarrow> 0 | c # _ \<Rightarrow> c)"

lemma peek_simps [simp]: "peek [] = 0" "peek (c # s) = c"
  by (simp_all add: peek_def)

section \<open>UTF-8\<close>

text \<open>The length of the character at the start, 0 when it is invalid or cut off.\<close>

definition utf8_validate_cz :: "cbytes \<Rightarrow> nat" where
  "utf8_validate_cz s =
     (let c = peek s; c1 = peek (drop 1 s); c2 = peek (drop 2 s); c3 = peek (drop 3 s)
      in if c \<le> 0x7F then 1
         else if c \<le> 0xC1 then 0
         else if c \<le> 0xDF then (if c1 AND 0xC0 \<noteq> 0x80 then 0 else 2)
         else if c \<le> 0xEF then
           (if c = 0xE0 \<and> c1 < 0xA0 then 0
            else if c = 0xED \<and> 0x9F < c1 then 0
            else if c1 AND 0xC0 \<noteq> 0x80 then 0
            else if c2 AND 0xC0 \<noteq> 0x80 then 0 else 3)
         else if c \<le> 0xF4 then
           (if c = 0xF0 \<and> c1 < 0x90 then 0
            else if c = 0xF4 \<and> 0x8F < c1 then 0
            else if c1 AND 0xC0 \<noteq> 0x80 then 0
            else if c2 AND 0xC0 \<noteq> 0x80 then 0
            else if c3 AND 0xC0 \<noteq> 0x80 then 0 else 4)
         else 0)"

function utf8_validate :: "cbytes \<Rightarrow> bool" where
  "utf8_validate s =
     (if s = [] then True
      else if utf8_validate_cz s = 0 then False else utf8_validate (drop (utf8_validate_cz s) s))"
  by pat_completeness auto
termination by (relation "measure length") auto

declare utf8_validate.simps [simp del]

definition utf8_read_char :: "cbytes \<Rightarrow> u32" where
  "utf8_read_char s =
     (let c = peek s; c1 = ucast (peek (drop 1 s)); c2 = ucast (peek (drop 2 s)); c3 = ucast (peek (drop 3 s))
      in if c \<le> 0x7F then ucast c
         else if c \<le> 0xDF then push_bit 6 (ucast c AND 0x1F) OR (c1 AND 0x3F)
         else if c \<le> 0xEF then push_bit 12 (ucast c AND 0xF) OR push_bit 6 (c1 AND 0x3F) OR (c2 AND 0x3F)
         else push_bit 18 (ucast c AND 0x7) OR push_bit 12 (c1 AND 0x3F) OR push_bit 6 (c2 AND 0x3F) OR (c3 AND 0x3F))"

definition utf8_write_char :: "u32 \<Rightarrow> cbytes" where
  "utf8_write_char u =
     (if u \<le> 0x7F then [ucast u]
      else if u \<le> 0x7FF then [ucast (0xC0 OR drop_bit 6 u), ucast (0x80 OR (u AND 0x3F))]
      else if u \<le> 0xFFFF then
        [ucast (0xE0 OR drop_bit 12 u), ucast (0x80 OR (drop_bit 6 u AND 0x3F)), ucast (0x80 OR (u AND 0x3F))]
      else [ucast (0xF0 OR drop_bit 18 u), ucast (0x80 OR (drop_bit 12 u AND 0x3F)),
            ucast (0x80 OR (drop_bit 6 u AND 0x3F)), ucast (0x80 OR (u AND 0x3F))])"

definition from_surrogate_pair :: "u16 \<Rightarrow> u16 \<Rightarrow> u32 option" where
  "from_surrogate_pair uc lc =
     (if 0xD800 \<le> uc \<and> uc \<le> 0xDBFF \<and> 0xDC00 \<le> lc \<and> lc \<le> 0xDFFF
      then Some (0x10000 + (push_bit 10 (ucast uc AND 0x3FF) OR (ucast lc AND 0x3FF))) else None)"

definition to_surrogate_pair :: "u32 \<Rightarrow> u16 \<times> u16" where
  "to_surrogate_pair u =
     (let n = u - 0x10000 in (ucast ((drop_bit 10 n AND 0x3FF) OR 0xD800), ucast ((n AND 0x3FF) OR 0xDC00)))"

section \<open>Words as numbers\<close>

lemma and_low:
  fixes x :: "'a::len word"
  shows "x AND 0x3F = take_bit 6 x" and "x AND 0x1F = take_bit 5 x" and "x AND 0xF = take_bit 4 x"
    and "x AND 0x7 = take_bit 3 x" and "x AND 0x3FF = take_bit 10 x"
  by (simp_all add: take_bit_eq_mask mask_eq_exp_minus_1)

lemma unat_take: "unat (take_bit n (x :: 'a::len word)) = unat x mod 2 ^ n"
  unfolding unsigned_take_bit_eq unfolding take_bit_eq_mod ..

lemma unat_drop: "unat (drop_bit n (x :: 'a::len word)) = unat x div 2 ^ n"
  by (simp only: unat_drop_bit_eq) (simp add: drop_bit_eq_div)

lemma unat_push_or:
  fixes a b :: "'a::len word"
  assumes "unat a * 2 ^ n + unat b < 2 ^ LENGTH('a)" and "unat b < 2 ^ n"
  shows "unat (push_bit n a OR b) = unat a * 2 ^ n + unat b"
proof -
  have "take_bit n b = b"
    using assms(2) by (simp add: word_unat_eq_iff unat_take)
  then have "push_bit n a AND b = 0"
    by (metis (no_types, lifting) bit.conj_zero_right bit_eqI bit_and_iff bit_push_bit_iff bit_take_bit_iff linorder_not_le bit_0_eq bot_apply)
  then have "push_bit n a OR b = push_bit n a + b" by (simp add: disjunctive_add_eq_or)
  moreover have "push_bit n a = of_nat (unat a * 2 ^ n)" by (simp add: push_bit_eq_mult)
  then have "unat (push_bit n a) = unat a * 2 ^ n"
    using assms(1) by (simp only: unat_of_nat) simp
  ultimately show ?thesis using assms(1) by (simp add: unat_word_ariths)
qed

lemma u8_top: "(c :: u8) AND 0xC0 = 0x80 \<longleftrightarrow> 0x80 \<le> c \<and> c \<le> 0xBF"
proof -
  have "c AND NOT (mask 6) = push_bit 6 (drop_bit 6 c)" by (rule bit_word_eqI) (auto simp: bit_simps)
  moreover have "NOT (mask 6) = (0xC0 :: u8)" by code_simp
  ultimately have "c AND 0xC0 = push_bit 6 (drop_bit 6 c)" by (simp only:)
  then have "unat (c AND 0xC0) = unat c div 64 * 64"
    using unsigned_less [of c, where 'a = nat] by (simp add: push_bit_eq_mult unat_word_ariths unat_drop)
  moreover have "n div 64 * 64 = 128 \<longleftrightarrow> 128 \<le> n \<and> n \<le> 191" for n :: nat
    using less_eq_div_iff_mult_less_eq [of 64 2 n] div_less_iff_less_mult [of 64 n 3] by auto
  ultimately show ?thesis by (simp add: word_unat_eq_iff word_le_nat_alt)
qed

lemma unat_or_tag:
  assumes "unat (b :: u32) < 2 ^ k" and "k < 10" and "m < 16"
  shows "unat ((of_nat (m * 2 ^ k) :: u32) OR b) = m * 2 ^ k + unat b"
proof -
  have "(2 :: nat) ^ k \<le> 2 ^ 9" using assms(2) by (intro power_increasing) auto
  moreover from this have "m * 2 ^ k \<le> 15 * 512" using assms(3) by (intro mult_mono) auto
  moreover have "unat (of_nat m :: u32) = m" using assms(3) by (simp add: unat_of_nat)
  ultimately show ?thesis
    using unat_push_or [of "of_nat m :: u32" k b] assms(1) by (simp add: push_bit_eq_mult)
qed

lemma tags:
  "unat (b :: u32) < 64 \<Longrightarrow> unat (0xC0 OR b) = 192 + unat b"
  "unat (b :: u32) < 32 \<Longrightarrow> unat (0xE0 OR b) = 224 + unat b"
  "unat (b :: u32) < 16 \<Longrightarrow> unat (0xF0 OR b) = 240 + unat b"
  "unat (b :: u32) < 128 \<Longrightarrow> unat (0x80 OR b) = 128 + unat b"
  using unat_or_tag [of b 6 3] unat_or_tag [of b 5 7] unat_or_tag [of b 4 15] unat_or_tag [of b 7 1] by simp_all

lemma write_form:
  assumes "unat u \<le> 0x10FFFF"
  shows "map unat (utf8_write_char u) =
    (let n = unat u
     in if n \<le> 0x7F then [n]
        else if n \<le> 0x7FF then [192 + n div 64, 128 + n mod 64]
        else if n \<le> 0xFFFF then [224 + n div 4096, 128 + n div 64 mod 64, 128 + n mod 64]
        else [240 + n div 262144, 128 + n div 4096 mod 64, 128 + n div 64 mod 64, 128 + n mod 64])"
proof -
  have c: "unat (ucast (w :: u32) :: u8) = unat w" if "unat w < 256" for w
    using that by (simp add: unsigned_ucast_eq take_bit_eq_mod)
  have d: "a div 64 < 32" if "a \<le> 0x7FF" for a :: nat using that by (simp add: div_less_iff_less_mult)
  have e: "a div 4096 < 16" if "a \<le> 0xFFFF" for a :: nat using that by (simp add: div_less_iff_less_mult)
  have f: "unat u div 262144 < 5" using assms by (simp add: div_less_iff_less_mult)
  have m: "a mod 64 < 64" for a :: nat by simp
  show ?thesis
    using d [of "unat u"] e [of "unat u"] f m [of "unat u"] m [of "unat u div 64"] m [of "unat u div 4096"]
    by (auto simp: utf8_write_char_def Let_def word_le_nat_alt and_low c tags unat_take unat_drop)
qed

lemma read_form:
  "unat (utf8_read_char s) =
    (let c = unat (peek s); c1 = unat (peek (drop 1 s)); c2 = unat (peek (drop 2 s)); c3 = unat (peek (drop 3 s))
     in if c \<le> 0x7F then c
        else if c \<le> 0xDF then c mod 32 * 64 + c1 mod 64
        else if c \<le> 0xEF then c mod 16 * 4096 + (c1 mod 64 * 64 + c2 mod 64)
        else c mod 8 * 262144 + (c1 mod 64 * 4096 + (c2 mod 64 * 64 + c3 mod 64)))"
proof -
  have c: "unat (ucast (w :: u8) :: u32) = unat w" for w
    using unsigned_less [of w, where 'a = nat] by (simp add: unsigned_ucast_eq take_bit_eq_mod)
  have m: "unat (ucast (w :: u8) AND 0x3F :: u32) = unat w mod 64" "unat (ucast w AND 0x1F :: u32) = unat w mod 32"
    "unat (ucast w AND 0xF :: u32) = unat w mod 16" "unat (ucast w AND 0x7 :: u32) = unat w mod 8" for w
    by (simp_all add: and_low unat_take c)
  have l: "a mod 64 < 64" "a mod 32 < 32" "a mod 16 < 16" "a mod 8 < 8" for a :: nat by simp_all
  have p6: "unat (push_bit 6 (x AND 0x3F) OR (y AND 0x3F) :: u32) = unat (x AND 0x3F) * 64 + unat (y AND 0x3F)"
    and p6b: "unat (push_bit 6 (x AND 0x1F) OR (y AND 0x3F) :: u32) = unat (x AND 0x1F) * 64 + unat (y AND 0x3F)" for x y
    using l(1) [of "unat x"] l(1) [of "unat y"] l(2) [of "unat x"] by (simp_all add: unat_push_or and_low unat_take)
  have p12: "unat (push_bit 12 (x AND 0xF) OR z) = unat (x AND 0xF) * 4096 + unat z"
    and p12b: "unat (push_bit 12 (x AND 0x3F) OR z) = unat (x AND 0x3F) * 4096 + unat z" if "unat z < 4096" for x z :: u32
    using that l(1,3) [of "unat x"] by (simp_all add: unat_push_or and_low unat_take)
  have p18: "unat (push_bit 18 (x AND 0x7) OR z) = unat (x AND 0x7) * 262144 + unat z" if "unat z < 262144" for x z :: u32
    using that l(4) [of "unat x"] by (simp add: unat_push_or and_low unat_take)
  have q: "a mod 64 * 64 + b mod 64 < 4096" "c mod 64 * 4096 + (a mod 64 * 64 + b mod 64) < 262144" for a b c :: nat
    using l(1) [of a] l(1) [of b] l(1) [of c] by auto
  show ?thesis
    by (simp add: utf8_read_char_def Let_def word_le_nat_alt c p6 p6b p12 p12b p18 m q del: push_bit_and)
qed

section \<open>UTF-8 read and written\<close>

text \<open>A character that starts a byte string, by its length.\<close>

lemma validate_form:
  "utf8_validate_cz s =
    (let c = unat (peek s); c1 = unat (peek (drop 1 s)); c2 = unat (peek (drop 2 s)); c3 = unat (peek (drop 3 s));
         cont = (\<lambda>x. 128 \<le> x \<and> x \<le> 191)
     in if c \<le> 127 then 1
        else if 194 \<le> c \<and> c \<le> 223 \<and> cont c1 then 2
        else if 224 \<le> c \<and> c \<le> 239 \<and> cont c1 \<and> cont c2 \<and> (c = 224 \<longrightarrow> 160 \<le> c1) \<and> (c = 237 \<longrightarrow> c1 \<le> 159) then 3
        else if 240 \<le> c \<and> c \<le> 244 \<and> cont c1 \<and> cont c2 \<and> cont c3 \<and>
          (c = 240 \<longrightarrow> 144 \<le> c1) \<and> (c = 244 \<longrightarrow> c1 \<le> 143) then 4
        else 0)"
proof -
  have "unat (x AND 0xC0 :: u8) = 128 \<longleftrightarrow> 128 \<le> unat x \<and> unat x \<le> 191" for x
    using u8_top [of x] by (simp add: word_unat_eq_iff word_le_nat_alt)
  then have t: "(x AND 0xC0 = (0x80 :: u8)) = (128 \<le> unat x \<and> unat x \<le> 191)" for x
    by (simp add: word_unat_eq_iff)
  consider "unat (peek s) \<le> 193" | "194 \<le> unat (peek s)" "unat (peek s) \<le> 223"
    | "224 \<le> unat (peek s)" "unat (peek s) \<le> 239" | "240 \<le> unat (peek s)" "unat (peek s) \<le> 244"
    | "245 \<le> unat (peek s)" by linarith
  then show ?thesis
    by cases (simp_all add: utf8_validate_cz_def Let_def word_le_nat_alt word_less_nat_alt t, simp_all add: word_unat_eq_iff not_le, (auto; fail)+)
qed

definition scalar_value :: "u32 \<Rightarrow> bool" where
  "scalar_value u \<longleftrightarrow> u \<le> 0x10FFFF \<and> \<not> (0xD800 \<le> u \<and> u \<le> 0xDFFF)"

lemma base64:
  fixes a b c d :: nat
  assumes "b < 64" and "c < 64" and "d < 64"
  shows "(a * 64 + b) div 64 = a" and "(a * 64 + b) mod 64 = b"
    and "(a * 4096 + (b * 64 + c)) div 4096 = a" and "(a * 4096 + (b * 64 + c)) div 64 mod 64 = b"
    and "(a * 4096 + (b * 64 + c)) mod 64 = c"
    and "(a * 262144 + (b * 4096 + (c * 64 + d))) div 262144 = a"
    and "(a * 262144 + (b * 4096 + (c * 64 + d))) div 4096 mod 64 = b"
    and "(a * 262144 + (b * 4096 + (c * 64 + d))) div 64 mod 64 = c"
    and "(a * 262144 + (b * 4096 + (c * 64 + d))) mod 64 = d"
proof -
  have g: "(x * 64 + y) div 64 = x" "(x * 64 + y) mod 64 = y" if "y < 64" for x y :: nat
    using that by simp_all
  have e: "a * 4096 + (b * 64 + c) = (a * 64 + b) * 64 + c"
    "a * 262144 + (b * 4096 + (c * 64 + d)) = ((a * 64 + b) * 64 + c) * 64 + d" by simp_all
  have d: "n div 4096 = n div 64 div 64" "n div 262144 = n div 64 div 64 div 64" for n :: nat
    by (simp_all add: div_mult2_eq [symmetric])
  show "(a * 64 + b) div 64 = a" "(a * 64 + b) mod 64 = b" by (rule g, rule assms)+
  show "(a * 4096 + (b * 64 + c)) div 4096 = a" "(a * 4096 + (b * 64 + c)) div 64 mod 64 = b"
    "(a * 4096 + (b * 64 + c)) mod 64 = c"
    "(a * 262144 + (b * 4096 + (c * 64 + d))) div 262144 = a"
    "(a * 262144 + (b * 4096 + (c * 64 + d))) div 4096 mod 64 = b"
    "(a * 262144 + (b * 4096 + (c * 64 + d))) div 64 mod 64 = c"
    "(a * 262144 + (b * 4096 + (c * 64 + d))) mod 64 = d"
    by (simp_all only: e d g assms)
qed

lemma cont_byte: "128 \<le> x \<Longrightarrow> x \<le> 191 \<Longrightarrow> x mod 64 = x - 128" for x :: nat
  by (auto simp: mod_if)

lemma valid_char_cases:
  assumes "utf8_validate_cz s \<noteq> 0" and "s \<noteq> []"
  obtains (one) a t where "s = a # t" "utf8_validate_cz s = 1" "unat a \<le> 127"
  | (two) a b t p q where "s = a # b # t" "utf8_validate_cz s = 2" "unat a = 192 + p" "unat b = 128 + q"
      "2 \<le> p" "p < 32" "q < 64"
  | (three) a b c t p q r where "s = a # b # c # t" "utf8_validate_cz s = 3" "unat a = 224 + p" "unat b = 128 + q"
      "unat c = 128 + r" "p < 16" "q < 64" "r < 64" "p = 0 \<longrightarrow> 32 \<le> q" "p = 13 \<longrightarrow> q < 32"
  | (four) a b c d t p q r x where "s = a # b # c # d # t" "utf8_validate_cz s = 4" "unat a = 240 + p" "unat b = 128 + q"
      "unat c = 128 + r" "unat d = 128 + x" "p < 5" "q < 64" "r < 64" "x < 64" "p = 0 \<longrightarrow> 16 \<le> q" "p = 4 \<longrightarrow> q < 16"
proof -
  obtain a s1 where s: "s = a # s1" using assms(2) by (cases s) auto
  have ex: "\<exists>p. n = k + p \<and> p < m - k" if "k \<le> n" "n < m" for k n m :: nat
    using that by (intro exI [of _ "n - k"]) auto
  have ne: "x \<noteq> []" if "128 \<le> unat (peek x)" for x using that by auto
  consider "unat a \<le> 127" | "194 \<le> unat a" "unat a \<le> 223" | "224 \<le> unat a" "unat a \<le> 239"
    | "240 \<le> unat a" "unat a \<le> 244"
    using assms(1) unfolding validate_form s by (fastforce simp: Let_def split: if_splits)
  then show thesis
  proof cases
    case 1
    show ?thesis by (rule one [of a s1]) (use 1 s in \<open>simp_all add: validate_form\<close>)
  next
    case 2
    then have c: "128 \<le> unat (peek s1)" "unat (peek s1) \<le> 191" "utf8_validate_cz s = 2"
      using assms(1) s by (auto simp: validate_form Let_def split: if_splits)
    obtain b t where t: "s1 = b # t" using ne [OF c(1)] by (cases s1) auto
    show ?thesis
      by (rule two [of a b t "unat a - 192" "unat b - 128"]) (use 2 c t s in simp_all)
  next
    case 3
    then have c: "128 \<le> unat (peek s1)" "unat (peek s1) \<le> 191" "128 \<le> unat (peek (drop 1 s1))"
      "unat (peek (drop 1 s1)) \<le> 191" "unat a = 224 \<longrightarrow> 160 \<le> unat (peek s1)"
      "unat a = 237 \<longrightarrow> unat (peek s1) \<le> 159" "utf8_validate_cz s = 3"
      using assms(1) s by (auto simp: validate_form Let_def numeral_2_eq_2 split: if_splits)
    obtain b s2 where t: "s1 = b # s2" using ne [OF c(1)] by (cases s1) auto
    obtain c' t' where t': "s2 = c' # t'" using ne [OF c(3)] t by (cases s2) auto
    show ?thesis
      by (rule three [of a b c' t' "unat a - 224" "unat b - 128" "unat c' - 128"]) (use 3 c t t' s in auto)
  next
    case 4
    then have c: "128 \<le> unat (peek s1)" "unat (peek s1) \<le> 191" "128 \<le> unat (peek (drop 1 s1))"
      "unat (peek (drop 1 s1)) \<le> 191" "128 \<le> unat (peek (drop 2 s1))" "unat (peek (drop 2 s1)) \<le> 191"
      "unat a = 240 \<longrightarrow> 144 \<le> unat (peek s1)" "unat a = 244 \<longrightarrow> unat (peek s1) \<le> 143" "utf8_validate_cz s = 4"
      using assms(1) s by (auto simp: validate_form Let_def numeral_2_eq_2 numeral_3_eq_3 split: if_splits)
    obtain b s2 where t: "s1 = b # s2" using ne [OF c(1)] by (cases s1) auto
    obtain c' s3 where t': "s2 = c' # s3" using ne [OF c(3)] t by (cases s2) auto
    obtain d t'' where t'': "s3 = d # t''" using ne [OF c(5)] t t' by (cases s3) (auto simp: numeral_2_eq_2)
    show ?thesis
      by (rule four [of a b c' d t'' "unat a - 240" "unat b - 128" "unat c' - 128" "unat d - 128"])
        (use 4 c t t' t'' s in \<open>auto simp: numeral_2_eq_2\<close>)
  qed
qed

lemma map_unat_inj: "map unat (xs :: u8 list) = map unat ys \<Longrightarrow> xs = ys"
  by (rule map_injective) (auto intro: injI simp: word_unat_eq_iff)

lemma byte_mods:
  fixes p :: nat
  shows "p < 64 \<Longrightarrow> (128 + p) mod 64 = p" and "p < 32 \<Longrightarrow> (192 + p) mod 32 = p"
    and "p < 16 \<Longrightarrow> (224 + p) mod 16 = p" and "p < 5 \<Longrightarrow> (240 + p) mod 8 = p"
  using mod_mult_self3 [of 2 64 p] mod_mult_self3 [of 6 32 p] mod_mult_self3 [of 14 16 p] mod_mult_self3 [of 30 8 p]
  by simp_all

lemma write_parts:
  assumes "q < 64" and "r < 64" and "x < 64"
  shows "unat u = p * 64 + q \<Longrightarrow> 127 < unat u \<Longrightarrow> unat u \<le> 0x7FF \<Longrightarrow>
      map unat (utf8_write_char u) = [192 + p, 128 + q]"
    and "unat u = p * 4096 + (q * 64 + r) \<Longrightarrow> 0x7FF < unat u \<Longrightarrow> unat u \<le> 0xFFFF \<Longrightarrow>
      map unat (utf8_write_char u) = [224 + p, 128 + q, 128 + r]"
    and "unat u = p * 262144 + (q * 4096 + (r * 64 + x)) \<Longrightarrow> 0xFFFF < unat u \<Longrightarrow> unat u \<le> 0x10FFFF \<Longrightarrow>
      map unat (utf8_write_char u) = [240 + p, 128 + q, 128 + r, 128 + x]"
proof -
  note form = write_form [of u, unfolded Let_def]
  show "map unat (utf8_write_char u) = [192 + p, 128 + q]"
    if "unat u = p * 64 + q" "127 < unat u" "unat u \<le> 0x7FF"
  proof -
    have "map unat (utf8_write_char u) = [192 + unat u div 64, 128 + unat u mod 64]"
      using form that(2,3) by simp
    then show ?thesis unfolding that(1) by (simp only: base64 [OF assms])
  qed
  show "map unat (utf8_write_char u) = [224 + p, 128 + q, 128 + r]"
    if "unat u = p * 4096 + (q * 64 + r)" "0x7FF < unat u" "unat u \<le> 0xFFFF"
  proof -
    have "map unat (utf8_write_char u) = [224 + unat u div 4096, 128 + unat u div 64 mod 64, 128 + unat u mod 64]"
      using form that(2,3) by simp
    then show ?thesis unfolding that(1) by (simp only: base64 [OF assms])
  qed
  show "map unat (utf8_write_char u) = [240 + p, 128 + q, 128 + r, 128 + x]"
    if "unat u = p * 262144 + (q * 4096 + (r * 64 + x))" "0xFFFF < unat u" "unat u \<le> 0x10FFFF"
  proof -
    have "map unat (utf8_write_char u) =
        [240 + unat u div 262144, 128 + unat u div 4096 mod 64, 128 + unat u div 64 mod 64, 128 + unat u mod 64]"
      using form that(2,3) by simp
    then show ?thesis unfolding that(1) by (simp only: base64 [OF assms])
  qed
qed

lemma scalar_unat: "scalar_value u \<longleftrightarrow> unat u \<le> 0x10FFFF \<and> \<not> (0xD800 \<le> unat u \<and> unat u \<le> 0xDFFF)"
  by (simp add: scalar_value_def word_le_nat_alt)

lemma valid_char:
  assumes "utf8_validate_cz s \<noteq> 0" and "s \<noteq> []"
  shows "utf8_write_char (utf8_read_char s) = take (utf8_validate_cz s) s \<and> scalar_value (utf8_read_char s) \<and>
    utf8_validate_cz s \<le> length s"
  using assms
proof (cases rule: valid_char_cases)
  case (one a t)
  then have "unat (utf8_read_char s) = unat a" by (simp add: read_form)
  then show ?thesis
    using one write_form [of "utf8_read_char s"] by (auto simp: scalar_unat intro: map_unat_inj)
next
  case (two a b t p q)
  let ?u = "utf8_read_char s"
  have u: "unat ?u = p * 64 + q" using two by (simp add: read_form byte_mods)
  then have n: "127 < unat ?u" "unat ?u \<le> 0x7FF" using two(5-7) by linarith+
  have "map unat (utf8_write_char ?u) = map unat [a, b]"
    using write_parts(1) [OF two(7) two(7) two(7) u n] two(3,4) by simp
  from map_unat_inj [OF this] show ?thesis using two(1,2) n by (auto simp: scalar_unat)
next
  case (three a b c t p q r)
  let ?u = "utf8_read_char s"
  have u: "unat ?u = p * 4096 + (q * 64 + r)" using three by (simp add: read_form byte_mods)
  have n: "0x7FF < unat ?u" "unat ?u \<le> 0xFFFF"
    unfolding u using three(6-9) by (cases "p = 0", simp_all)
  have n3: "\<not> (0xD800 \<le> unat ?u \<and> unat ?u \<le> 0xDFFF)"
    unfolding u using three(7,8,10) by (cases "p \<le> 12"; cases "p = 13") auto
  have "map unat (utf8_write_char ?u) = map unat [a, b, c]"
    using write_parts(2) [OF three(7,8,8) u n] three(3-5) by simp
  from map_unat_inj [OF this] show ?thesis using three(1,2) n n3 by (auto simp: scalar_unat)
next
  case (four a b c d t p q r x)
  let ?u = "utf8_read_char s"
  have u: "unat ?u = p * 262144 + (q * 4096 + (r * 64 + x))" using four by (simp add: read_form byte_mods)
  have n: "0xFFFF < unat ?u" "unat ?u \<le> 0x10FFFF"
    unfolding u using four(7-12) by (cases "p = 0"; cases "p = 4"; simp)+
  have "map unat (utf8_write_char ?u) = map unat [a, b, c, d]"
    using write_parts(3) [OF four(8-10) u n] four(3-6) by simp
  from map_unat_inj [OF this] show ?thesis using four(1,2) n by (auto simp: scalar_unat)
qed

lemma unat_of_u8: "n < 256 \<Longrightarrow> unat (of_nat n :: u8) = n"
  by (simp add: unat_of_nat)

lemma four_byte_char:
  fixes p q r x :: nat
  assumes "unat a = 240 + p" "unat b = 128 + q" "unat c = 128 + r" "unat d = 128 + x"
    and "p < 5" "q < 64" "r < 64" "x < 64" "p = 0 \<longrightarrow> 16 \<le> q" "p = 4 \<longrightarrow> q < 16"
  shows "utf8_validate_cz (a # b # c # d # t) = 4"
    and "unat (utf8_read_char (a # b # c # d # t)) = p * 262144 + (q * 4096 + (r * 64 + x))"
  using assms by (auto simp: read_form validate_form byte_mods Let_def)

lemma write_valid:
  assumes "scalar_value u"
  shows "utf8_validate_cz (utf8_write_char u @ t) = length (utf8_write_char u) \<and>
    utf8_read_char (utf8_write_char u @ t) = u"
proof -
  define n where "n = unat u"
  have n: "n \<le> 0x10FFFF" "\<not> (0xD800 \<le> n \<and> n \<le> 0xDFFF)" "unat u \<le> 0x10FFFF"
    using assms by (auto simp: scalar_value_def word_le_nat_alt n_def)
  have w: "map unat (utf8_write_char u) =
     (if n \<le> 0x7F then [n]
      else if n \<le> 0x7FF then [192 + n div 64, 128 + n mod 64]
      else if n \<le> 0xFFFF then [224 + n div 4096, 128 + n div 64 mod 64, 128 + n mod 64]
      else [240 + n div 262144, 128 + n div 4096 mod 64, 128 + n div 64 mod 64, 128 + n mod 64])"
    using write_form [OF n(3)] by (simp add: n_def Let_def)
  have d: "n div 4096 = n div 64 div 64" "n div 262144 = n div 64 div 64 div 64"
    by (simp_all add: div_mult2_eq [symmetric])
  have m: "n = n div 64 * 64 + n mod 64" "n = n div 4096 * 4096 + (n div 64 mod 64 * 64 + n mod 64)"
    "n = n div 262144 * 262144 + (n div 4096 mod 64 * 4096 + (n div 64 mod 64 * 64 + n mod 64))"
    using div_mult_mod_eq [of n 64] div_mult_mod_eq [of "n div 64" 64] div_mult_mod_eq [of "n div 64 div 64" 64]
    unfolding d by linarith+
  have l: "n mod 64 < 64" "n div 64 mod 64 < 64" "n div 4096 mod 64 < 64" by simp_all
  have l': "n mod 64 \<le> 63" "n div 64 mod 64 \<le> 63" "n div 4096 mod 64 \<le> 63" using l by linarith+
  have "unat (utf8_read_char (utf8_write_char u @ t)) = n \<and>
    utf8_validate_cz (utf8_write_char u @ t) = length (utf8_write_char u)"
  proof (cases "n \<le> 0x7F")
    case True
    then obtain a where "utf8_write_char u = [a]" "unat a = n" using w by auto
    then show ?thesis using True by (simp add: read_form validate_form)
  next
    case F1: False
    show ?thesis
    proof (cases "n \<le> 0x7FF")
      case True
      obtain a b where "utf8_write_char u = [a, b]" "unat a = 192 + n div 64" "unat b = 128 + n mod 64"
        using w F1 True by auto
      moreover have "2 \<le> n div 64" "n div 64 < 32" using F1 True m(1) l by auto
      ultimately show ?thesis using m(1) [symmetric] l l' by (simp add: read_form validate_form byte_mods Let_def)
    next
      case F2: False
      show ?thesis
      proof (cases "n \<le> 0xFFFF")
        case True
        obtain a b c where "utf8_write_char u = [a, b, c]" "unat a = 224 + n div 4096"
          "unat b = 128 + n div 64 mod 64" "unat c = 128 + n mod 64"
          using w F1 F2 True by auto
        moreover have "n div 4096 < 16" "n div 4096 = 0 \<longrightarrow> 32 \<le> n div 64 mod 64"
          "n div 4096 = 13 \<longrightarrow> n div 64 mod 64 \<le> 31" using F2 True m(2) l n(2) by auto
        ultimately show ?thesis using m(2) [symmetric] l l' by (simp add: read_form validate_form byte_mods Let_def)
      next
        case F3: False
        obtain a b c d where "utf8_write_char u = [a, b, c, d]" "unat a = 240 + n div 262144"
          "unat b = 128 + n div 4096 mod 64" "unat c = 128 + n div 64 mod 64" "unat d = 128 + n mod 64"
          using w F1 F2 F3 by auto
        moreover have "n div 262144 < 5" "n div 262144 = 0 \<longrightarrow> 16 \<le> n div 4096 mod 64"
          "n div 262144 = 4 \<longrightarrow> n div 4096 mod 64 < 16" using F3 m(3) l n(1) by auto
        ultimately show ?thesis
          using four_byte_char [of a "n div 262144" b "n div 4096 mod 64" c "n div 64 mod 64" d "n mod 64" t] l m(3)
          by (simp only: append_Cons append_Nil list.size) simp
      qed
    qed
  qed
  then show ?thesis by (simp add: word_unat_eq_iff n_def)
qed

lemma ascii_char:
  assumes "utf8_validate_cz s \<noteq> 0" and "s \<noteq> []" and "b \<in> set (take (utf8_validate_cz s) s)" and "b \<le> 0x7F"
  shows "take (utf8_validate_cz s) s = [b]"
  using assms(1,2)
  by (cases rule: valid_char_cases) (use assms(3,4) in \<open>auto simp: word_le_nat_alt\<close>)

lemma take_valid:
  assumes "utf8_validate_cz s \<noteq> 0" and "s \<noteq> []"
  shows "utf8_validate_cz (take (utf8_validate_cz s) s @ t) = utf8_validate_cz s"
  using write_valid [of "utf8_read_char s" t] valid_char [OF assms] by simp

lemma validate_append:
  "utf8_validate_cz c = length c \<Longrightarrow> c \<noteq> [] \<Longrightarrow> (\<And>t. utf8_validate_cz (c @ t) = length c) \<Longrightarrow>
    utf8_validate (c @ t) = utf8_validate t"
  by (subst utf8_validate.simps) simp

lemma validate_written:
  assumes "scalar_value u"
  shows "utf8_validate (utf8_write_char u @ t) = utf8_validate t"
  using write_valid [OF assms]
  by (intro validate_append) (auto simp: utf8_write_char_def split: if_splits dest: spec [of _ "[]"])

lemma written_no_nul:
  assumes "scalar_value u" and "u \<noteq> 0" shows "0 \<notin> set (utf8_write_char u)"
proof
  let ?w = "utf8_write_char u"
  assume "0 \<in> set ?w"
  moreover have "utf8_validate_cz ?w = length ?w" "?w \<noteq> []"
    using write_valid [OF assms(1), of "[]"] by (auto simp: utf8_write_char_def)
  ultimately have "?w = [0]" using ascii_char [of ?w 0] by auto
  moreover have "utf8_read_char ?w = u" using write_valid [OF assms(1), of "[]"] by simp
  ultimately show False using assms(2) by (simp add: utf8_read_char_def)
qed

section \<open>Surrogate pairs\<close>

lemma unat_ucast_16: "unat (ucast (a :: u16) :: u32) = unat a"
  using unsigned_less [of a, where 'a = nat] by (simp add: unsigned_ucast_eq take_bit_eq_mod)

lemma surrogates:
  assumes "0x10000 \<le> u" and "u \<le> 0x10FFFF" and "to_surrogate_pair u = (uc, lc)"
  shows "from_surrogate_pair uc lc = Some u \<and> 0xD800 \<le> uc \<and> uc \<le> 0xDFFF"
proof -
  define n where "n = unat u - 65536"
  have u: "unat u = 65536 + n" "n < 1048576" using assms(1,2) by (auto simp: word_le_nat_alt n_def)
  have n: "unat (u - 0x10000) = n" using assms(1) by (simp add: unat_sub n_def)
  have hi: "n div 1024 < 1024" using u(2) by (simp add: div_less_iff_less_mult)
  have h: "unat (drop_bit 10 (u - 0x10000) AND 0x3FF) = n div 1024" "unat ((u - 0x10000) AND 0x3FF) = n mod 1024"
    using hi by (simp_all add: and_low unat_take unat_drop n)
  have w: "unat (ucast (x OR 0xD800) :: u16) = 55296 + unat x" "unat (ucast (x OR 0xDC00) :: u16) = 56320 + unat x"
    if "unat x < 1024" for x :: u32
    using that unat_push_or [of "0x36 :: u32" 10 x] unat_push_or [of "0x37 :: u32" 10 x]
    by (simp_all add: or.commute unsigned_ucast_eq take_bit_eq_mod)
  have uc: "unat uc = 55296 + n div 1024" "unat lc = 56320 + n mod 1024"
    using assms(3) w [of "drop_bit 10 (u - 0x10000) AND 0x3FF"] w [of "(u - 0x10000) AND 0x3FF"] h hi
    by (auto simp: to_surrogate_pair_def Let_def)
  have x: "unat (ucast (a :: u16) AND 0x3FF :: u32) = unat a mod 1024" for a
    by (simp add: and_low unat_take unat_ucast_16)
  have m: "(55296 + n div 1024) mod 1024 = n div 1024" "(56320 + n mod 1024) mod 1024 = n mod 1024"
    using hi mod_mult_self3 [of 54 1024 "n div 1024"] mod_mult_self3 [of 55 1024 "n mod 1024"] by simp_all
  have "unat (push_bit 10 (ucast uc AND 0x3FF) OR (ucast lc AND 0x3FF) :: u32) = n div 1024 * 1024 + n mod 1024"
    using hi by (subst unat_push_or) (simp_all add: x uc m)
  also have "\<dots> = n" by simp
  finally have "unat (0x10000 + (push_bit 10 (ucast uc AND 0x3FF) OR (ucast lc AND 0x3FF)) :: u32) = unat u"
    using u by (simp add: unat_word_ariths)
  then show ?thesis
    using uc hi by (simp add: from_surrogate_pair_def word_le_nat_alt word_unat_eq_iff)
qed

lemma from_surrogate_scalar:
  assumes "from_surrogate_pair uc lc = Some u" shows "scalar_value u \<and> u \<noteq> 0"
proof -
  have x: "unat (ucast (a :: u16) AND 0x3FF :: u32) = unat a mod 1024" for a
    by (simp add: and_low unat_take unat_ucast_16)
  let ?x = "push_bit 10 (ucast uc AND 0x3FF) OR (ucast lc AND 0x3FF) :: u32"
  have l: "n mod 1024 \<le> 1023" for n :: nat using mod_less_divisor [of 1024 n] by linarith
  have "unat ?x = unat uc mod 1024 * 1024 + unat lc mod 1024"
    using l [of "unat uc"] by (subst unat_push_or) (simp_all add: x)
  then have "unat ?x < 1048576" using l [of "unat uc"] l [of "unat lc"] by simp
  moreover have "u = 0x10000 + ?x" using assms by (auto simp: from_surrogate_pair_def split: if_splits)
  ultimately have "unat u = 65536 + unat ?x \<and> unat ?x < 1048576" by (simp add: unat_word_ariths)
  then show ?thesis by (auto simp: scalar_unat)
qed

end
