(* ===== verification/JsonNumbers.thy ===== *)
theory JsonNumbers imports EventGraphBinary Carith Utf8 begin

text \<open>
  The numbers of the JSON library (\<^verbatim>\<open>src/wmm-runtime/json.c\<close>): the grammar it accepts, what
  \<open>strtod\<close> makes of it, and what \<open>snprintf\<close> prints for \<open>%.16g\<close>, \<open>%llu\<close> and
  \<open>%lld\<close>. The numbers a graph is stored with are read back: integers of at most \<open>2 ^ 53\<close>.
\<close>

section \<open>Integers\<close>

definition bytes :: "string \<Rightarrow> cstring" where
  "bytes s = map of_char s"

text \<open>\<open>%llu\<close>, \<open>%lld\<close> and \<open>%d\<close>.\<close>

fun digits :: "nat \<Rightarrow> nat list" where
  "digits n = (if n < 10 then [n] else digits (n div 10) @ [n mod 10])"

declare digits.simps [simp del]

definition dec :: "nat \<Rightarrow> string" where
  "dec n = map (\<lambda>d. char_of (48 + d)) (digits n)"

definition dec_int :: "int \<Rightarrow> string" where
  "dec_int i = (if i < 0 then CHR ''-'' # dec (nat (- i)) else dec (nat i))"

lemma digits_lt: "\<forall>d\<in>set (digits n). d < 10"
proof (induction n rule: digits.induct)
  case (1 n) then show ?case by (subst digits.simps) auto
qed

lemma digits_value: "foldl (\<lambda>a d. a * 10 + d) 0 (digits n) = n"
proof (induction n rule: digits.induct)
  case (1 n) then show ?case by (subst digits.simps) (auto simp: mult.commute)
qed

lemma digits_ne: "digits n \<noteq> []"
  by (subst digits.simps) simp

lemma digits_hd: "hd (digits n) = 0 \<Longrightarrow> n = 0"
proof (induction n rule: digits.induct)
  case (1 n) then show ?case
    by (cases "n < 10") (use digits_ne [of "n div 10"] in \<open>auto simp: digits.simps [of n] hd_append\<close>)
qed

lemma digits_0 [simp]: "digits 0 = [0]"
  by (subst digits.simps) simp

definition digit_byte :: "nat \<Rightarrow> u8" where
  "digit_byte d = 48 + of_nat d"

lemma unat_digit_byte: "d < 10 \<Longrightarrow> unat (digit_byte d) = 48 + d"
  by (simp add: digit_byte_def unat_word_ariths unat_of_nat)

lemma bytes_dec: "bytes (dec n) = map digit_byte (digits n)"
proof -
  have "(of_char (char_of (48 + d)) :: u8) = digit_byte d" if "d < 10" for d :: nat
  proof -
    have "(of_char (char_of (48 + d)) :: u8) = of_nat (of_char (char_of (48 + d)) :: nat)"
      by (simp only: of_nat_of_char)
    also have "\<dots> = of_nat (48 + d)" using that by (simp only: of_char_of) simp
    finally show ?thesis by (simp add: digit_byte_def)
  qed
  then show ?thesis using digits_lt [of n] by (simp add: bytes_def dec_def)
qed

lemma digit_byte_facts:
  assumes "d < 10"
  shows "is_digit 10 (digit_byte d)" and "the (digit_value (digit_byte d)) = d" and "\<not> isspace_u8 (digit_byte d)"
    and "digit_byte d \<noteq> 45" and "digit_byte d \<noteq> 43" and "digit_byte d \<noteq> 120" and "digit_byte d \<noteq> 88"
    and "digit_byte d = 48 \<longleftrightarrow> d = 0"
  using assms unat_digit_byte [OF assms]
  by (auto simp: is_digit_def digit_value_def isspace_u8_def word_le_nat_alt word_unat_eq_iff)

lemma foldl_digit_bytes:
  "\<forall>d\<in>set ds. d < 10 \<Longrightarrow>
    foldl (\<lambda>a c. a * 10 + the (digit_value c)) k (map digit_byte ds) = foldl (\<lambda>a d. a * 10 + d) k ds"
  by (induction ds arbitrary: k) (auto simp: digit_byte_facts(2))

lemma bytes_dec_int:
  "bytes (dec_int i) = (if i < 0 then 45 # bytes (dec (nat (- i))) else bytes (dec (nat i)))"
  by (simp add: dec_int_def bytes_def of_char_def)

section \<open>Reading\<close>

definition json_digit :: "u8 \<Rightarrow> bool" where
  "json_digit c \<longleftrightarrow> 0x30 \<le> c \<and> c \<le> 0x39"

definition skip_digits :: "cstring \<Rightarrow> cstring option" where
  "skip_digits s = (if json_digit (peek s) then Some (dropWhile json_digit s) else None)"

text \<open>
  The text after a number: an optional sign, digits without a leading zero, an optional fraction, an
  optional exponent.
\<close>

definition scan_unsigned :: "cstring \<Rightarrow> cstring option" where
  "scan_unsigned s =
     (case (if peek s = 0x30 then Some (tl s) else skip_digits s) of
        None \<Rightarrow> None
      | Some s \<Rightarrow>
          (case (if peek s = 0x2E then skip_digits (tl s) else Some s) of
             None \<Rightarrow> None
           | Some s \<Rightarrow>
               (if peek s = 0x45 \<or> peek s = 0x65
                then (let s = tl s; s = (if peek s = 0x2B \<or> peek s = 0x2D then tl s else s) in skip_digits s)
                else Some s)))"

definition scan_number :: "cstring \<Rightarrow> cstring option" where
  "scan_number s = scan_unsigned (if peek s = 0x2D then tl s else s)"

text \<open>
  \<open>strtod\<close> on a text that starts with a number of this grammar. It reads further than the grammar
  where the text goes on with more digits or as a hexadecimal number; then no JSON text follows.
\<close>

definition digits_value :: "nat \<Rightarrow> cstring \<Rightarrow> nat" where
  "digits_value base ds = foldl (\<lambda>a c. a * base + the (digit_value c)) 0 ds"

definition exponent_part :: "cstring \<Rightarrow> int" where
  "exponent_part s =
     (let s = tl s; neg = (peek s = 0x2D); s = (if peek s = 0x2B \<or> neg then tl s else s);
          e = int (digits_value 10 (takeWhile (is_digit 10) s))
      in if neg then - e else e)"

definition unsigned_value :: "cstring \<Rightarrow> real" where
  "unsigned_value s =
     (let hex = (peek s = 0x30 \<and> (peek (drop 1 s) = 0x78 \<or> peek (drop 1 s) = 0x58) \<and>
            (is_digit 16 (peek (drop 2 s)) \<or> peek (drop 2 s) = 0x2E \<and> is_digit 16 (peek (drop 3 s))));
          base = (if hex then 16 else 10);
          s = (if hex then drop 2 s else s);
          whole = takeWhile (is_digit base) s;
          s = dropWhile (is_digit base) s;
          part = (if peek s = 0x2E then takeWhile (is_digit base) (tl s) else []);
          s = (if peek s = 0x2E then dropWhile (is_digit base) (tl s) else s);
          mant = real (digits_value base (whole @ part)) / real base ^ length part;
          marks = (if hex then {0x50, 0x70} else {0x45, 0x65})
      in mant * (if hex then 2 else 10) powi (if peek s \<in> marks then exponent_part s else 0))"

definition strtod :: "rounding \<Rightarrow> cstring \<Rightarrow> double" where
  "strtod r s = r (if peek s = 0x2D then - unsigned_value (tl s) else unsigned_value s)"

definition parse_number :: "rounding \<Rightarrow> cstring \<Rightarrow> (double \<times> cstring) option" where
  "parse_number r s = map_option (\<lambda>t. (strtod r s, t)) (scan_number s)"

section \<open>Printing\<close>

text \<open>
  \<open>%.16g\<close> of a finite number: 16 significant digits, rounded to even, with an exponent when it is
  below \<open>-4\<close> or at least 16, without zeros at the end of the fraction.
\<close>

definition decimal_exponent :: "real \<Rightarrow> int" where
  "decimal_exponent a = last (filter (\<lambda>e. 10 powi e \<le> a) [- 324..308])"

definition round_even :: "real \<Rightarrow> int" where
  "round_even x = (let d = x - of_int \<lfloor>x\<rfloor> in if d < 1 / 2 \<or> d = 1 / 2 \<and> even \<lfloor>x\<rfloor> then \<lfloor>x\<rfloor> else \<lfloor>x\<rfloor> + 1)"

definition significant :: "real \<Rightarrow> nat \<times> int" where
  "significant a =
     (let e = decimal_exponent a; m = round_even (a * 10 powi (15 - e))
      in if m = 10 ^ 16 then (10 ^ 15, e + 1) else (nat m, e))"

definition strip_zeros :: "nat list \<Rightarrow> nat list" where
  "strip_zeros ds = rev (dropWhile (\<lambda>d. d = 0) (rev ds))"

definition fraction :: "nat list \<Rightarrow> cstring" where
  "fraction ds = (if strip_zeros ds = [] then [] else 0x2E # map digit_byte (strip_zeros ds))"

definition print_exponent :: "int \<Rightarrow> cstring" where
  "print_exponent e =
     (let ds = digits (nat \<bar>e\<bar>)
      in [0x65, if e < 0 then 0x2D else 0x2B] @ map digit_byte (if length ds < 2 then 0 # ds else ds))"

fun print_16g :: "double \<Rightarrow> cstring" where
  "print_16g NaN = bytes ''nan''"
| "print_16g PInf = bytes ''inf''"
| "print_16g NInf = bytes ''-inf''"
| "print_16g (Fin x) =
     (if x = 0 then [0x30]
      else let (m, e) = significant \<bar>x\<bar>; ds = digits m
           in (if x < 0 then [0x2D] else []) @
             (if e < - 4 \<or> 16 \<le> e then map digit_byte (take 1 ds) @ fraction (drop 1 ds) @ print_exponent e
              else if 0 \<le> e then map digit_byte (take (nat e + 1) ds) @ fraction (drop (nat e + 1) ds)
              else [0x30] @ fraction (replicate (nat (- e) - 1) 0 @ ds)))"

definition number_is_valid :: "cstring \<Rightarrow> bool" where
  "number_is_valid s \<longleftrightarrow> scan_number s = Some []"

definition emit_number :: "double \<Rightarrow> cstring" where
  "emit_number x = (if number_is_valid (print_16g x) then print_16g x else bytes ''null'')"

section \<open>Integers printed and read back\<close>

lemma digits_bounds: "0 < n \<Longrightarrow> 10 ^ (length (digits n) - 1) \<le> n \<and> n < 10 ^ length (digits n)"
proof (induction n rule: digits.induct)
  case (1 n)
  show ?case
  proof (cases "n < 10")
    case False
    then have "10 ^ (length (digits (n div 10)) - 1) \<le> n div 10" "n div 10 < 10 ^ length (digits (n div 10))"
      using 1 by simp_all
    moreover have "digits (n div 10) \<noteq> []" by (rule digits_ne)
    ultimately have "10 ^ length (digits (n div 10)) \<le> n" "n < 10 * 10 ^ length (digits (n div 10))"
      by (auto simp: neq_Nil_conv)
    then show ?thesis using False by (simp add: digits.simps [of n])
  qed (use 1(2) in \<open>simp add: digits.simps [of n]\<close>)
qed

lemma digits_shift: "0 < n \<Longrightarrow> digits (n * 10 ^ i) = digits n @ replicate i 0"
proof (induction i)
  case (Suc i)
  have "0 < n * 10 ^ i" using Suc(2) by simp
  then have "\<not> n * 10 ^ Suc i < 10" by (simp add: mult.commute)
  then have "digits (n * 10 ^ Suc i) = digits (n * 10 ^ i) @ [0]"
    by (subst digits.simps) (simp add: mult.assoc [symmetric] mult.commute)
  then show ?case using Suc by (simp add: replicate_append_same)
qed simp

lemma decimal_exponent_nat:
  assumes "10 ^ j \<le> n" and "n < 10 ^ Suc j" and "j \<le> 308"
  shows "decimal_exponent (real n) = int j"
proof -
  let ?P = "\<lambda>e. 10 powi e \<le> real n"
  have "[- 324..308] = [- 324..int j - 1] @ [int j] @ [int j + 1..308]"
    using assms(3) upto_split2 [of "- 324" "int j" 308] upto_rec2 [of "- 324" "int j"] by simp
  moreover have "?P (int j)" using assms(1) by (simp add: power_int_def)
  moreover have "\<not> ?P e" if "int j + 1 \<le> e" for e
  proof -
    have "real n < 10 ^ Suc j" using assms(2) by (metis of_nat_less_iff of_nat_numeral of_nat_power)
    also have "\<dots> = 10 powi (int j + 1)" by (simp add: power_int_def nat_add_distrib)
    also have "\<dots> \<le> 10 powi e" using that by (intro power_int_increasing) auto
    finally show ?thesis by simp
  qed
  ultimately show ?thesis by (simp add: decimal_exponent_def filter_empty_conv)
qed

lemma round_even_int [simp]: "round_even (of_int m) = m"
  by (simp add: round_even_def)

lemma significant_nat:
  assumes "0 < n" and "n \<le> 2 ^ 53"
  obtains j where "length (digits n) = Suc j" "j \<le> 15" "significant (real n) = (n * 10 ^ (15 - j), int j)"
proof -
  obtain j where j: "length (digits n) = Suc j" using digits_ne [of n] by (cases "digits n") auto
  have b: "10 ^ j \<le> n" "n < 10 ^ Suc j" using digits_bounds [OF assms(1)] j by simp_all
  have "j < 16"
  proof (rule ccontr)
    assume "\<not> j < 16"
    then have "(10 :: nat) ^ 16 \<le> 10 ^ j" by (intro power_increasing) auto
    then show False using b(1) assms(2) by simp
  qed
  then have j15: "j \<le> 15" by simp
  have e: "decimal_exponent (real n) = int j" using decimal_exponent_nat [OF b] j15 by simp
  have "(10 :: real) powi (15 - int j) = 10 ^ (15 - j)" using j15 by (simp add: power_int_def nat_diff_distrib)
  then have "round_even (real n * 10 powi (15 - int j)) = int (n * 10 ^ (15 - j))"
    using round_even_int [of "int (n * 10 ^ (15 - j))"] by simp
  moreover have "n * 10 ^ (15 - j) < 10 ^ 16"
  proof -
    have "n * 10 ^ (15 - j) < 10 ^ Suc j * 10 ^ (15 - j)" using b(2) by simp
    also have "\<dots> = 10 ^ 16" using j15 by (simp only: power_add [symmetric]) simp
    finally show ?thesis .
  qed
  then have "int (n * 10 ^ (15 - j)) \<noteq> 10 ^ 16"
    by (metis of_nat_eq_iff of_nat_numeral of_nat_power nat_less_le)
  ultimately have "significant (real n) = (nat (int (n * 10 ^ (15 - j))), int j)"
    by (simp only: significant_def e Let_def if_False)
  then have "significant (real n) = (n * 10 ^ (15 - j), int j)" by (simp only: nat_int)
  then show thesis using that j j15 by blast
qed

lemma fraction_zeros [simp]: "fraction (replicate i 0) = []"
  by (induction i) (auto simp: fraction_def strip_zeros_def)

lemma print_int:
  assumes "\<bar>k\<bar> \<le> 2 ^ 53"
  shows "print_16g (Fin (of_int k)) = bytes (dec_int k)"
proof (cases "k = 0")
  case True
  then show ?thesis by (simp add: dec_int_def bytes_dec digit_byte_def)
next
  case False
  let ?n = "nat \<bar>k\<bar>"
  have n: "0 < ?n" "?n \<le> 2 ^ 53" "\<bar>real_of_int k\<bar> = real ?n" using False assms by auto
  obtain j where j: "length (digits ?n) = Suc j" "j \<le> 15" "significant (real ?n) = (?n * 10 ^ (15 - j), int j)"
    using significant_nat [OF n(1,2)] by blast
  have sg: "significant \<bar>real_of_int k\<bar> = (?n * 10 ^ (15 - j), int j)" by (simp only: n(3) j(3))
  have d: "digits (?n * 10 ^ (15 - j)) = digits ?n @ replicate (15 - j) 0" by (rule digits_shift [OF n(1)])
  have c: "\<not> (int j < - 4 \<or> 16 \<le> int j)" "0 \<le> int j" "nat (int j) + 1 = length (digits ?n)"
    using j(1,2) by simp_all
  have "real_of_int k \<noteq> 0" using False by simp
  then have "print_16g (Fin (of_int k)) = (if k < 0 then [0x2D] else []) @ map digit_byte (digits ?n)"
    by (simp only: print_16g.simps Let_def sg prod.case d c if_True if_False) simp
  then show ?thesis by (auto simp: bytes_dec_int bytes_dec)
qed

text \<open>What may follow a number in a JSON text.\<close>

definition delimited :: "cstring \<Rightarrow> bool" where
  "delimited t \<longleftrightarrow> peek t \<in> {0, 9, 10, 13, 32, 0x2C, 0x5D, 0x7D}"

lemma delimited_peek:
  assumes "delimited t"
  shows "\<not> json_digit (peek t)" and "\<not> is_digit 10 (peek t)" and "peek t \<notin> {0x2E, 0x45, 0x65, 0x78, 0x58}"
  using assms by (auto simp: delimited_def json_digit_def is_digit_def digit_value_def)

lemma while_digits:
  assumes "\<And>d. d < 10 \<Longrightarrow> P (digit_byte d)" and "\<forall>d\<in>set ds. d < 10" and "\<not> P (peek t)"
  shows "takeWhile P (map digit_byte ds @ t) = map digit_byte ds" and "dropWhile P (map digit_byte ds @ t) = t"
proof -
  have "takeWhile P t = [] \<and> dropWhile P t = t" using assms(3) by (cases t) auto
  moreover have "\<forall>x\<in>set (map digit_byte ds). P x" using assms(1,2) by auto
  ultimately show "takeWhile P (map digit_byte ds @ t) = map digit_byte ds" "dropWhile P (map digit_byte ds @ t) = t"
    by (simp_all add: takeWhile_append2 dropWhile_append2 del: set_map)
qed

lemma json_digit_byte: "d < 10 \<Longrightarrow> json_digit (digit_byte d)"
  using unat_digit_byte [of d] by (simp add: json_digit_def word_le_nat_alt)

lemma peek_digits:
  assumes "digits n = d # ds"
  shows "peek (map digit_byte (digits n) @ t) = digit_byte d" and "d < 10" and "\<forall>x\<in>set ds. x < 10"
    and "d = 0 \<Longrightarrow> n = 0 \<and> ds = []"
proof -
  show "d = 0 \<Longrightarrow> n = 0 \<and> ds = []" using digits_hd [of n] assms by auto
qed (use digits_lt [of n] assms in auto)

lemma scan_digits_text:
  assumes "delimited t"
  shows "scan_number (map digit_byte (digits n) @ t) = Some t"
    and "scan_number (0x2D # map digit_byte (digits n) @ t) = Some t"
proof -
  obtain d ds where d: "digits n = d # ds" using digits_ne [of n] by (cases "digits n") auto
  note h = peek_digits [OF d]
  note b = digit_byte_facts [OF h(2)]
  let ?s = "map digit_byte (digits n) @ t"
  have whole: "(if peek ?s = 0x30 then Some (tl ?s) else skip_digits ?s) = Some t"
  proof (cases "d = 0")
    case True
    then show ?thesis using h(4) d by (simp add: digit_byte_def)
  next
    case False
    then have "peek ?s \<noteq> 0x30" using h(1) b(8) by simp
    moreover have "skip_digits ?s = Some t"
      using while_digits(2) [of json_digit "digits n" t] json_digit_byte digits_lt [of n] delimited_peek(1) [OF assms] h(1,2)
      by (simp add: skip_digits_def)
    ultimately show ?thesis by simp
  qed
  have "scan_unsigned ?s = Some t"
    using delimited_peek(3) [OF assms] by (simp only: scan_unsigned_def whole option.case) simp
  moreover have "peek ?s \<noteq> 0x2D" using h(1) b(4) by simp
  ultimately show "scan_number ?s = Some t" "scan_number (0x2D # ?s) = Some t"
    by (simp_all only: scan_number_def peek_simps list.sel if_True if_False simp_thms)
qed

lemma scan_number_int: "delimited t \<Longrightarrow> scan_number (bytes (dec_int k) @ t) = Some t"
  using scan_digits_text by (simp add: bytes_dec_int bytes_dec)

lemma strtod_digits:
  assumes "delimited t"
  shows "strtod r (map digit_byte (digits n) @ t) = r (real n)"
    and "strtod r (0x2D # map digit_byte (digits n) @ t) = r (- real n)"
proof -
  obtain d ds where d: "digits n = d # ds" using digits_ne [of n] by (cases "digits n") auto
  note h = peek_digits [OF d]
  note b = digit_byte_facts [OF h(2)]
  let ?s = "map digit_byte (digits n) @ t"
  have second: "peek (drop 1 ?s) \<notin> {0x78, 0x58} \<or> peek ?s \<noteq> 0x30"
  proof (cases "d = 0")
    case True
    then show ?thesis using h(4) d delimited_peek(3) [OF assms] by auto
  next
    case False
    then show ?thesis using h(1) b(8) by simp
  qed
  then have nohex: "\<not> (peek ?s = 0x30 \<and> (peek (drop 1 ?s) = 0x78 \<or> peek (drop 1 ?s) = 0x58) \<and> X)" for X by auto
  have w: "takeWhile (is_digit 10) ?s = map digit_byte (digits n)" "dropWhile (is_digit 10) ?s = t"
    using while_digits [of "is_digit 10" "digits n" t] digit_byte_facts(1) digits_lt [of n] delimited_peek(2) [OF assms]
    by auto
  have v: "digits_value 10 (map digit_byte (digits n)) = n"
    using foldl_digit_bytes [OF digits_lt [of n], of 0] digits_value [of n] by (simp add: digits_value_def)
  have neg: "peek ?s \<noteq> 0x2D" using h(1) b(4) by simp
  have t: "peek t \<noteq> 0x2E" "peek t \<notin> {0x45, 0x65}" using delimited_peek(3) [OF assms] by auto
  have "unsigned_value ?s = real n"
    using t by (simp only: unsigned_value_def Let_def nohex w v if_True if_False append_Nil2 simp_thms) simp
  then show "strtod r ?s = r (real n)" "strtod r (0x2D # ?s) = r (- real n)"
    using neg by (simp_all only: strtod_def peek_simps list.sel if_True if_False simp_thms)
qed

lemma strtod_int: "delimited t \<Longrightarrow> strtod r (bytes (dec_int k) @ t) = r (of_int k)"
  using strtod_digits [of t r "nat \<bar>k\<bar>"] by (cases "k < 0") (simp_all add: bytes_dec_int bytes_dec)

end
