(* ===== verification/JsonStrings.thy ===== *)
theory JsonStrings imports Utf8 begin

text \<open>
  The string literals of the JSON library (\<^verbatim>\<open>src/wmm-runtime/json.c\<close>): escapes, the loops that
  read and print a literal. The buffer a string is built in is the list of the bytes written; without
  memory for it the program ends. What is read is valid UTF-8, what is printed is read back, but for
  the byte \<open>0x1F\<close>.
\<close>

section \<open>Hexadecimal escapes\<close>

definition hex_value :: "u8 \<Rightarrow> u16 option" where
  "hex_value c =
     (if 0x30 \<le> c \<and> c \<le> 0x39 then Some (ucast c - 0x30)
      else if 0x41 \<le> c \<and> c \<le> 0x46 then Some (ucast c - 0x41 + 10)
      else if 0x61 \<le> c \<and> c \<le> 0x66 then Some (ucast c - 0x61 + 10) else None)"

fun hex_loop :: "nat \<Rightarrow> u16 \<Rightarrow> cbytes \<Rightarrow> (u16 \<times> cbytes) option" where
  "hex_loop 0 ret s = Some (ret, s)"
| "hex_loop (Suc i) ret s =
     (case hex_value (peek s) of None \<Rightarrow> None | Some tmp \<Rightarrow> hex_loop i (push_bit 4 ret + tmp) (tl s))"

definition parse_hex16 :: "cbytes \<Rightarrow> (u16 \<times> cbytes) option" where
  "parse_hex16 s = hex_loop 4 0 s"

definition hex_digit :: "u16 \<Rightarrow> u8" where
  "hex_digit v = (let d = v AND 0xF in if d < 10 then 0x30 + ucast d else 0x41 + (ucast d - 10))"

definition write_hex16 :: "u16 \<Rightarrow> cbytes" where
  "write_hex16 v = [hex_digit (drop_bit 12 v), hex_digit (drop_bit 8 v), hex_digit (drop_bit 4 v), hex_digit v]"

section \<open>String literals\<close>

text \<open>The character after a backslash; \<open>s\<close> starts at it.\<close>

definition unicode_escape :: "cbytes \<Rightarrow> (cbytes \<times> cbytes) option" where
  "unicode_escape s =
     (case parse_hex16 s of
        None \<Rightarrow> None
      | Some (uc, s) \<Rightarrow>
          (if 0xD800 \<le> uc \<and> uc \<le> 0xDFFF then
             (if peek s \<noteq> 0x5C \<or> peek (tl s) \<noteq> 0x75 then None
              else case parse_hex16 (tl (tl s)) of
                None \<Rightarrow> None
              | Some (lc, s) \<Rightarrow>
                  (case from_surrogate_pair uc lc of None \<Rightarrow> None | Some u \<Rightarrow> Some (utf8_write_char u, s)))
           else if uc = 0 then None
           else Some (utf8_write_char (ucast uc), s)))"

definition parse_escape :: "cbytes \<Rightarrow> (cbytes \<times> cbytes) option" where
  "parse_escape s =
     (let c = peek s; s = tl s
      in if c = 0x22 \<or> c = 0x5C \<or> c = 0x2F then Some ([c], s)
         else if c = 0x62 then Some ([8], s)
         else if c = 0x66 then Some ([12], s)
         else if c = 0x6E then Some ([10], s)
         else if c = 0x72 then Some ([13], s)
         else if c = 0x74 then Some ([9], s)
         else if c = 0x75 then unicode_escape s
         else None)"

text \<open>One turn of the loop: the bytes it writes, and the rest.\<close>

definition parse_char :: "cbytes \<Rightarrow> (cbytes \<times> cbytes) option" where
  "parse_char s =
     (let c = peek s
      in if c = 0x5C then parse_escape (tl s)
         else if c \<le> 0x1F then None
         else let len = utf8_validate_cz s
              in if len = 0 then None else Some (take len s, drop len s))"

lemma hex_loop_shorter: "hex_loop i ret s = Some (v, t) \<Longrightarrow> length t \<le> length s"
  by (induction i arbitrary: ret s) (fastforce split: option.splits)+

lemma parse_char_shorter:
  assumes "parse_char s = Some (out, t)" shows "length t < length s"
proof (cases "peek s = 0x5C")
  case True
  then obtain s' where s: "s = 0x5C # s'" by (cases s) auto
  have "length t \<le> length s'"
    using assms s unfolding parse_char_def parse_escape_def unicode_escape_def parse_hex16_def Let_def
    by (auto split: if_splits option.splits dest!: hex_loop_shorter)
  then show ?thesis using s by simp
next
  case False
  then have "s \<noteq> []" using assms by (auto simp: parse_char_def Let_def)
  then show ?thesis using assms False by (auto simp: parse_char_def Let_def split: if_splits)
qed

function string_loop :: "cbytes \<Rightarrow> (cbytes \<times> cbytes) option" where
  "string_loop s =
     (if peek s = 0x22 then Some ([], tl s)
      else case parse_char s of
        None \<Rightarrow> None
      | Some (out, s) \<Rightarrow> (case string_loop s of None \<Rightarrow> None | Some (b, s) \<Rightarrow> Some (out @ b, s)))"
  by pat_completeness auto
termination by (relation "measure length") (auto dest: parse_char_shorter)

declare string_loop.simps [simp del]

definition parse_string :: "cbytes \<Rightarrow> (cbytes \<times> cbytes) option" where
  "parse_string s = (if peek s \<noteq> 0x22 then None else string_loop (tl s))"

text \<open>
  One turn of the loop that prints a string. The source fixes \<open>escape_unicode\<close> to false; with it,
  every character beyond ASCII would be printed as one or two escapes.
\<close>

definition emit_unicode :: "u32 \<Rightarrow> cbytes" where
  "emit_unicode u =
     (if u \<le> 0xFFFF then [0x5C, 0x75] @ write_hex16 (ucast u)
      else let (uc, lc) = to_surrogate_pair u in [0x5C, 0x75] @ write_hex16 uc @ [0x5C, 0x75] @ write_hex16 lc)"

text \<open>\<open>None\<close> is an assertion that fails.\<close>

definition emit_char :: "bool \<Rightarrow> cbytes \<Rightarrow> (cbytes \<times> cbytes) option" where
  "emit_char escape_unicode s =
     (let c = peek s
      in if c = 0x22 then Some ([0x5C, 0x22], tl s)
         else if c = 0x5C then Some ([0x5C, 0x5C], tl s)
         else if c = 8 then Some ([0x5C, 0x62], tl s)
         else if c = 12 then Some ([0x5C, 0x66], tl s)
         else if c = 10 then Some ([0x5C, 0x6E], tl s)
         else if c = 13 then Some ([0x5C, 0x72], tl s)
         else if c = 9 then Some ([0x5C, 0x74], tl s)
         else let len = utf8_validate_cz s
              in if len = 0 then None
                 else if c < 0x1F \<or> 0x80 \<le> c \<and> escape_unicode then Some (emit_unicode (utf8_read_char s), drop len s)
                 else Some (take len s, drop len s))"

function emit_loop :: "bool \<Rightarrow> cbytes \<Rightarrow> cbytes option" where
  "emit_loop esc s =
     (if s = [] then Some []
      else case emit_char esc s of
        None \<Rightarrow> None
      | Some (out, s) \<Rightarrow> map_option (\<lambda>b. out @ b) (emit_loop esc s))"
  by pat_completeness auto
termination
  by (relation "measure (\<lambda>(esc, s). length s)") (auto simp: emit_char_def Let_def split: if_splits)

declare emit_loop.simps [simp del]

definition emit_string :: "bool \<Rightarrow> cbytes \<Rightarrow> cbytes option" where
  "emit_string esc s =
     (if \<not> utf8_validate s then None else map_option (\<lambda>b. [0x22] @ b @ [0x22]) (emit_loop esc s))"

section \<open>Escapes read and written\<close>

lemma hex_digit_value: "hex_value (hex_digit v) = Some (v AND 0xF)"
proof -
  define n where "n = unat (v AND 0xF)"
  have n: "n < 16" by (simp add: n_def and_low unat_take)
  have v: "v AND 0xF = of_nat n" by (simp add: n_def)
  have c: "(ucast (of_nat n :: u16) :: u8) = of_nat n" "unat (of_nat n :: u16) = n"
    using n by (simp_all add: word_unat_eq_iff unsigned_ucast_eq take_bit_eq_mod unat_of_nat)
  show ?thesis
  proof (cases "n < 10")
    case True
    have u: "unat (0x30 + of_nat n :: u8) = 48 + n" using True by (simp add: unat_word_ariths unat_of_nat)
    then have "(ucast (0x30 + of_nat n :: u8) :: u16) = 48 + of_nat n"
      using True by (simp add: word_unat_eq_iff unsigned_ucast_eq take_bit_eq_mod unat_word_ariths unat_of_nat)
    then show ?thesis using True u c by (simp add: hex_digit_def Let_def v hex_value_def word_less_nat_alt word_le_nat_alt)
  next
    case False
    have "(0x41 + (of_nat n - 10) :: u8) = of_nat (55 + n)" by (simp add: algebra_simps)
    moreover have u: "unat (of_nat (55 + n) :: u8) = 55 + n" using n by (simp only: unat_of_nat) simp
    moreover have "(ucast (of_nat (55 + n) :: u8) :: u16) = of_nat (55 + n)"
      by (subst of_nat_unat [symmetric]) (simp only: u)
    ultimately show ?thesis
      using False n c by (simp add: hex_digit_def Let_def v hex_value_def word_less_nat_alt word_le_nat_alt)
  qed
qed

lemma parse_write_hex16: "parse_hex16 (write_hex16 v @ t) = Some (v, t)"
proof -
  have d: "unat v div 256 = unat v div 16 div 16" "unat v div 4096 = unat v div 16 div 16 div 16"
    by (simp_all add: div_mult2_eq [symmetric])
  let ?d = "\<lambda>n. drop_bit n v AND 0xF"
  have u: "unat (?d n) = unat v div 2 ^ n mod 16" for n by (simp add: and_low unat_take unat_drop)
  have "unat v div 16 div 16 div 16 < 16"
    using unsigned_less [of v, where 'a = nat] by (simp add: d(2) [symmetric] div_less_iff_less_mult)
  then have "16 * (16 * (16 * (unat v div 4096 mod 16) + unat v div 256 mod 16) + unat v div 16 mod 16) + unat v mod 16 = unat v"
    using div_mult_mod_eq [of "unat v" 16] div_mult_mod_eq [of "unat v div 16" 16]
      div_mult_mod_eq [of "unat v div 16 div 16" 16] unfolding d by simp
  then have "of_nat (16 * (16 * (16 * (unat v div 4096 mod 16) + unat v div 256 mod 16) + unat v div 16 mod 16) + unat v mod 16) = v"
    by (simp only:) simp
  moreover have "?d n = of_nat (unat v div 2 ^ n mod 16)" for n by (simp only: u [symmetric]) simp
  from this [of 12] this [of 8] this [of 4] this [of 0]
  have "?d 12 = of_nat (unat v div 4096 mod 16)" "?d 8 = of_nat (unat v div 256 mod 16)"
    "?d 4 = of_nat (unat v div 16 mod 16)" "v AND 0xF = of_nat (unat v mod 16)" by simp_all
  ultimately have "push_bit 4 (push_bit 4 (push_bit 4 (push_bit 4 0 + ?d 12) + ?d 8) + ?d 4) + (v AND 0xF) = v"
    by (simp only: push_bit_eq_mult of_nat_add of_nat_mult of_nat_numeral) (simp add: mult.commute)
  then show ?thesis
    by (simp add: parse_hex16_def write_hex16_def eval_nat_numeral(3) numeral_eq_Suc hex_digit_value)
qed

section \<open>Strings read and written\<close>

lemma parse_plain:
  assumes "utf8_validate_cz s \<noteq> 0" and "s \<noteq> []" and "0x1F < peek s" and "peek s \<noteq> 0x5C"
  shows "parse_char (take (utf8_validate_cz s) s @ t) = Some (take (utf8_validate_cz s) s, t)"
proof -
  have "peek (take (utf8_validate_cz s) s @ t) = peek s"
    using assms(1,2) by (cases s; cases "utf8_validate_cz s") auto
  then show ?thesis
    using take_valid [OF assms(1,2)] valid_char [OF assms(1,2)] assms by (simp add: parse_char_def Let_def)
qed

lemma parse_unicode:
  assumes "scalar_value u" and "u \<noteq> 0"
  shows "parse_char (emit_unicode u @ t) = Some (utf8_write_char u, t)"
proof (cases "u \<le> 0xFFFF")
  case True
  have b: "unat (ucast u :: u16) = unat u"
    using True by (simp add: unsigned_ucast_eq take_bit_eq_mod word_le_nat_alt)
  have "\<not> (0xD800 \<le> (ucast u :: u16) \<and> (ucast u :: u16) \<le> 0xDFFF)" "(ucast u :: u16) \<noteq> 0"
    using assms by (simp_all add: word_le_nat_alt word_unat_eq_iff b scalar_unat)
  moreover have "ucast (ucast u :: u16) = u"
    using unat_ucast_16 [of "ucast u"] b by (simp add: word_unat_eq_iff)
  ultimately show ?thesis
    using True parse_write_hex16
    by (auto simp: emit_unicode_def parse_char_def parse_escape_def unicode_escape_def Let_def)
next
  case False
  obtain uc lc where p: "to_surrogate_pair u = (uc, lc)" by (cases "to_surrogate_pair u")
  have "0x10000 \<le> u" "u \<le> 0x10FFFF"
    using False assms(1) by (simp_all add: word_le_nat_alt scalar_unat)
  from surrogates [OF this p] show ?thesis
    using False p parse_write_hex16 [of uc "0x5C # 0x75 # write_hex16 lc @ t"] parse_write_hex16 [of lc t]
    by (simp add: emit_unicode_def parse_char_def parse_escape_def unicode_escape_def Let_def)
qed

text \<open>A character printed is read back, but for \<open>0x1F\<close>, which is printed as it is and not read.\<close>

lemma emit_parse_char:
  assumes "emit_char esc s = Some (out, s')" and "s \<noteq> []" and "peek s \<noteq> 0"
  shows "\<exists>c. s = c @ s' \<and> c \<noteq> [] \<and> (0x1F \<in> set c \<longleftrightarrow> peek s = 0x1F) \<and> peek (out @ t) \<noteq> 0x22 \<and>
    parse_char (out @ t) = (if peek s = 0x1F then None else Some (c, t))"
proof -
  obtain a s1 where s: "s = a # s1" using assms(2) by (cases s) auto
  let ?len = "utf8_validate_cz s"
  show ?thesis
  proof (cases "a \<in> {0x22, 0x5C, 8, 12, 10, 13, 9}")
    case True
    then show ?thesis
      using assms(1) by (auto simp: s emit_char_def parse_char_def parse_escape_def)
  next
    case False
    then have len: "?len \<noteq> 0" and s': "s' = drop ?len s"
      and out: "out = (if a < 0x1F \<or> 0x80 \<le> a \<and> esc then emit_unicode (utf8_read_char s) else take ?len s)"
      using assms(1) by (auto simp: s emit_char_def Let_def split: if_splits)
    note v = valid_char [OF len assms(2)]
    have c: "s = take ?len s @ s'" "take ?len s \<noteq> []" using len assms(2) s' by simp_all
    have z: "utf8_read_char s \<noteq> 0"
    proof
      assume "utf8_read_char s = 0"
      then have "take ?len s = [0]" using v by (simp add: utf8_write_char_def)
      then show False using assms(3) s len by (cases ?len) auto
    qed
    have mem: "b \<in> set (take ?len s) \<Longrightarrow> b \<le> 0x7F \<Longrightarrow> take ?len s = [b]" for b
      by (rule ascii_char [OF len assms(2)])
    have hd: "a \<in> set (take ?len s)" "peek (take ?len s @ t) = a" using len by (cases ?len; simp add: s)+
    have sep: "0x1F \<in> set (take ?len s) \<longleftrightarrow> a = 0x1F" using mem [of "0x1F"] hd by auto
    show ?thesis
    proof (cases "a < 0x1F \<or> 0x80 \<le> a \<and> esc")
      case True
      then have "a \<noteq> 0x1F" by auto
      moreover have "peek (emit_unicode u @ t) = 0x5C" for u
        by (simp add: emit_unicode_def split: prod.split)
      ultimately show ?thesis
        using parse_unicode [of "utf8_read_char s" t] v z c sep True
        by (intro exI [of _ "take ?len s"]) (simp add: out, simp add: s)
    next
      case F: False
      have "parse_char (take ?len s @ t) = (if a = 0x1F then None else Some (take ?len s, t))"
      proof (cases "a = 0x1F")
        case True
        then show ?thesis using hd(2) by (simp add: parse_char_def Let_def)
      next
        case n: False
        then have "0x1F < peek s" using F by (simp add: s not_less order_le_less)
        then show ?thesis using parse_plain [OF len assms(2), of t] False n by (simp add: s)
      qed
      moreover have "out = take ?len s" using out F by simp
      ultimately show ?thesis
        using False c sep hd(2) by (intro exI [of _ "take ?len s"]) (simp, simp add: s)
    qed
  qed
qed

lemma string_loop_emitted:
  assumes "emit_loop esc s = Some b" and "0 \<notin> set s"
  shows "string_loop (b @ 0x22 # t) = (if 0x1F \<in> set s then None else Some (s, t))"
  using assms
proof (induction esc s arbitrary: b rule: emit_loop.induct)
  case (1 esc s)
  show ?case
  proof (cases "s = []")
    case True
    then show ?thesis using 1(2) by (simp add: emit_loop.simps string_loop.simps)
  next
    case False
    then obtain out s' b' where e: "emit_char esc s = Some (out, s')" "emit_loop esc s' = Some b'" "b = out @ b'"
      using 1(2) by (auto simp: emit_loop.simps [of esc s] split: option.splits)
    have "peek s \<noteq> 0" using 1(3) False by (cases s) auto
    then obtain c where c: "s = c @ s'" "c \<noteq> []" "0x1F \<in> set c \<longleftrightarrow> peek s = 0x1F"
      "peek (out @ b' @ 0x22 # t) \<noteq> 0x22"
      "parse_char (out @ b' @ 0x22 # t) = (if peek s = 0x1F then None else Some (c, b' @ 0x22 # t))"
      using emit_parse_char [OF e(1) False, of "b' @ 0x22 # t"] by auto
    have "string_loop (b' @ 0x22 # t) = (if 0x1F \<in> set s' then None else Some (s', t))"
      using 1(1) [OF False e(1)] e(2) 1(3) c(1) by simp
    then show ?thesis
      using c(3-5) by (subst string_loop.simps) (simp add: e(3) c(1))
  qed
qed

lemma in_set_tl: "x \<in> set (tl s) \<Longrightarrow> x \<in> set s"
  by (cases s) auto

lemma hex_digit_no_nul: "hex_digit v \<noteq> 0"
  using hex_digit_value [of v] by (auto simp: hex_value_def)

lemma emit_loop_no_nul: "emit_loop esc s = Some b \<Longrightarrow> 0 \<notin> set s \<Longrightarrow> 0 \<notin> set b"
proof (induction esc s arbitrary: b rule: emit_loop.induct)
  case (1 esc s)
  show ?case
  proof (cases "s = []")
    case False
    then obtain out s' b' where e: "emit_char esc s = Some (out, s')" "emit_loop esc s' = Some b'" "b = out @ b'"
      using 1(2) by (auto simp: emit_loop.simps [of esc s] split: option.splits)
    have u: "0 \<notin> set (emit_unicode u)" for u
      using hex_digit_no_nul by (auto simp: emit_unicode_def write_hex16_def split: prod.splits)
    have "0 \<notin> set out \<and> 0 \<notin> set s'"
      using e(1) 1(3) u by (auto simp: emit_char_def Let_def dest: in_set_takeD in_set_dropD in_set_tl split: if_splits)
    then show ?thesis using 1(1) [OF False e(1)] e(2,3) by auto
  qed (use 1(2) in \<open>simp add: emit_loop.simps\<close>)
qed

lemma emit_loop_valid:
  "utf8_validate s \<Longrightarrow> \<exists>b. emit_loop esc s = Some b"
proof (induction esc s rule: emit_loop.induct)
  case (1 esc s)
  show ?case
  proof (cases "s = []")
    case False
    then have v: "utf8_validate_cz s \<noteq> 0" "utf8_validate (drop (utf8_validate_cz s) s)"
      using 1(2) by (auto simp: utf8_validate.simps [of s] split: if_splits)
    obtain a s1 where s: "s = a # s1" using False by (cases s) auto
    have l: "a \<le> 0x7F \<Longrightarrow> utf8_validate_cz s = 1" by (simp add: s utf8_validate_cz_def Let_def)
    have "emit_char esc s \<noteq> None" using v(1) by (simp add: emit_char_def Let_def)
    then obtain out s' where e: "emit_char esc s = Some (out, s')" by auto
    then have "s' = drop (utf8_validate_cz s) s"
      using l by (auto simp: s emit_char_def Let_def split: if_splits)
    then show ?thesis using 1(1) [OF False e] v(2) e by (auto simp: emit_loop.simps [of esc s])
  qed (simp add: emit_loop.simps)
qed

lemma emit_string_valid: "utf8_validate s \<longleftrightarrow> (\<exists>b. emit_string esc s = Some b)"
  using emit_loop_valid [of s esc] by (auto simp: emit_string_def)

lemma parse_emitted_string:
  assumes "emit_string esc s = Some b" and "0 \<notin> set s"
  shows "parse_string (b @ t) = (if 0x1F \<in> set s then None else Some (s, t))"
  using assms string_loop_emitted [of esc s _ t] by (auto simp: emit_string_def parse_string_def split: if_splits)

text \<open>What is read is valid UTF-8 without a NUL.\<close>

definition valid_string :: "cbytes \<Rightarrow> bool" where
  "valid_string s \<longleftrightarrow> utf8_validate s \<and> 0 \<notin> set s"

lemma hex_loop_rest: "hex_loop i ret s = Some (v, t) \<Longrightarrow> set t \<subseteq> set s"
proof (induction i arbitrary: ret s)
  case (Suc i)
  then obtain ret' where "hex_loop i ret' (tl s) = Some (v, t)" by (auto split: option.splits)
  from Suc.IH [OF this] show ?case by (auto dest: in_set_tl)
qed simp

lemma unicode_escape_valid:
  assumes "unicode_escape s = Some (out, t)" and "0 \<notin> set s"
  shows "(\<exists>u. out = utf8_write_char u \<and> scalar_value u \<and> u \<noteq> 0) \<and> 0 \<notin> set t"
proof -
  obtain uc s1 where 1: "hex_loop 4 0 s = Some (uc, s1)"
    using assms(1) by (auto simp: unicode_escape_def parse_hex16_def split: option.splits)
  then have z: "0 \<notin> set s1" "0 \<notin> set (tl (tl s1))" using hex_loop_rest [OF 1] assms(2) by (auto dest!: in_set_tl)
  show ?thesis
  proof (cases "0xD800 \<le> uc \<and> uc \<le> 0xDFFF")
    case True
    then obtain lc u where 2: "hex_loop 4 0 (tl (tl s1)) = Some (lc, t)" "from_surrogate_pair uc lc = Some u"
      "out = utf8_write_char u"
      using assms(1) 1 by (auto simp: unicode_escape_def parse_hex16_def split: option.splits if_splits)
    then show ?thesis using from_surrogate_scalar [OF 2(2)] hex_loop_rest [OF 2(1)] z(2) by auto
  next
    case False
    then have "out = utf8_write_char (ucast uc) \<and> t = s1 \<and> uc \<noteq> 0"
      using assms(1) 1 by (auto simp: unicode_escape_def parse_hex16_def split: if_splits)
    moreover from this have "scalar_value (ucast uc)" "(ucast uc :: u32) \<noteq> 0"
      using False unsigned_less [of uc, where 'a = nat]
      by (auto simp: scalar_unat unat_ucast_16 word_le_nat_alt word_unat_eq_iff)
    ultimately show ?thesis using z(1) by auto
  qed
qed

lemma parse_char_valid:
  assumes "parse_char s = Some (out, t)" and "0 \<notin> set s"
  shows "(\<forall>x. utf8_validate (out @ x) = utf8_validate x) \<and> 0 \<notin> set out \<and> 0 \<notin> set t"
proof (cases "peek s = 0x5C")
  case True
  let ?s = "tl (tl s)"
  have z: "0 \<notin> set ?s" using assms(2) by (auto dest!: in_set_tl)
  have one: "utf8_validate ([c] @ x) = utf8_validate x" if "c \<le> 0x7F" for c :: u8 and x
    using that by (subst utf8_validate.simps) (simp add: utf8_validate_cz_def Let_def)
  show ?thesis
  proof (cases "peek (tl s) = 0x75")
    case u: True
    then have "unicode_escape ?s = Some (out, t)"
      using assms(1) True by (simp add: parse_char_def parse_escape_def Let_def)
    from unicode_escape_valid [OF this z] show ?thesis
      using validate_written written_no_nul by auto
  next
    case False
    then obtain c where "out = [c]" "c \<le> 0x7F" "c \<noteq> 0" "t = ?s"
      using assms(1) True by (auto simp: parse_char_def parse_escape_def Let_def split: if_splits)
    then show ?thesis using one z by auto
  qed
next
  case False
  then have len: "utf8_validate_cz s \<noteq> 0" and e: "out = take (utf8_validate_cz s) s" "t = drop (utf8_validate_cz s) s"
    and ne: "s \<noteq> []"
    using assms(1) by (auto simp: parse_char_def Let_def split: if_splits)
  have "0 \<notin> set out" "0 \<notin> set t" using assms(2) e by (auto dest: in_set_takeD in_set_dropD)
  then show ?thesis
    using validate_written [of "utf8_read_char s"] valid_char [OF len ne] e by simp
qed

lemma string_loop_valid:
  "string_loop s = Some (out, t) \<Longrightarrow> 0 \<notin> set s \<Longrightarrow> valid_string out \<and> 0 \<notin> set t \<and> length t < length s"
proof (induction s arbitrary: out rule: string_loop.induct)
  case (1 s)
  show ?case
  proof (cases "peek s = 0x22")
    case True
    then have "out = [] \<and> t = tl s \<and> s \<noteq> []" using 1(2) by (auto simp: string_loop.simps [of s])
    then show ?thesis using 1(3) by (auto simp: valid_string_def utf8_validate.simps dest: in_set_tl)
  next
    case False
    then obtain c s' b where e: "parse_char s = Some (c, s')" "string_loop s' = Some (b, t)" "out = c @ b"
      using 1(2) by (auto simp: string_loop.simps [of s] split: option.splits)
    have v: "\<forall>x. utf8_validate (c @ x) = utf8_validate x" "0 \<notin> set c" "0 \<notin> set s'"
      using parse_char_valid [OF e(1) 1(3)] by auto
    have "valid_string b \<and> 0 \<notin> set t \<and> length t < length s'"
      using 1(1) [OF False e(1) refl e(2) v(3)] .
    then show ?thesis
      using v(1,2) e(3) parse_char_shorter [OF e(1)] by (auto simp: valid_string_def)
  qed
qed

lemma parse_string_valid:
  assumes "parse_string s = Some (out, t)" and "0 \<notin> set s"
  shows "valid_string out \<and> 0 \<notin> set t \<and> length t < length s"
proof -
  have "s \<noteq> []" "string_loop (tl s) = Some (out, t)"
    using assms(1) by (auto simp: parse_string_def split: if_splits)
  then show ?thesis using string_loop_valid [of "tl s" out t] assms(2) by (cases s) auto
qed

end
