(* ===== verification/JsonText.thy ===== *)
theory JsonText imports JsonNumbers JsonStrings begin

text \<open>
  The JSON library of the runtime (\<^verbatim>\<open>src/wmm-runtime/json.c\<close>): the recursive descent of
  \<open>json_decode\<close> and the printer \<open>json_stringify\<close>, compact and indented. A tree is a value:
  the links between its nodes are the lists of its children, a value is only ever added at their end.
  The functions for strings and numbers are those of \<open>JsonStrings\<close> and \<open>JsonNumbers\<close>.
  Without memory for a node the program ends, which is left out, as is the depth of the C stack.
\<close>

section \<open>Trees\<close>

datatype json = JSON_NULL | JSON_BOOL bool | JSON_STRING string | JSON_NUMBER double
  | JSON_ARRAY "json list" | JSON_OBJECT "(string \<times> json) list"

definition chars :: "cstring \<Rightarrow> string" where
  "chars b = map (\<lambda>c. char_of (unat c)) b"

lemma bytes_chars [simp]: "bytes (chars b) = b"
proof -
  have "(of_char (char_of (unat c)) :: u8) = c" for c :: u8
  proof -
    have "(of_char (char_of (unat c)) :: u8) = of_nat (of_char (char_of (unat c)) :: nat)" by (simp only: of_nat_of_char)
    also have "\<dots> = of_nat (unat c mod 256)" by (simp only: of_char_of)
    finally show ?thesis using unsigned_less [of c, where 'a = nat] by simp
  qed
  then show ?thesis by (simp add: bytes_def chars_def map_idI)
qed

lemma chars_bytes [simp]: "chars (bytes s) = s"
proof -
  have "char_of (unat (of_char c :: u8)) = c" for c
  proof -
    have "(of_char c :: u8) = of_nat (of_char c :: nat)" by (simp only: of_nat_of_char)
    then have "unat (of_char c :: u8) = of_char c mod 256" by (simp only: unat_of_nat) simp
    then show ?thesis by (simp add: char_of_def [symmetric])
  qed
  then show ?thesis by (simp add: bytes_def chars_def map_idI)
qed

section \<open>Reading\<close>

definition is_space :: "u8 \<Rightarrow> bool" where
  "is_space c \<longleftrightarrow> c = 9 \<or> c = 10 \<or> c = 13 \<or> c = 32"

definition skip_space :: "cstring \<Rightarrow> cstring" where
  "skip_space s = dropWhile is_space s"

definition expect_literal :: "cstring \<Rightarrow> string \<Rightarrow> json \<Rightarrow> (json \<times> cstring) option" where
  "expect_literal s lit j = (if take (length lit) s = bytes lit then Some (j, drop (length lit) s) else None)"

text \<open>
  A function of the descent gives a result and the rest of the text, or fails; \<open>Diverges\<close> when
  the fuel is used up. A loop has one turn for each byte of its text and one more as fuel, the descent
  one level for each byte, which is never exceeded. The functions for arrays and objects have the
  function for the values in them as a parameter.
\<close>

type_synonym 'a parsed = "('a \<times> cstring) option outcome"

definition and_then :: "'a parsed \<Rightarrow> ('a \<Rightarrow> cstring \<Rightarrow> 'b parsed) \<Rightarrow> 'b parsed" where
  "and_then p k = bind_outcome p (\<lambda>x. case x of None \<Rightarrow> Returns None | Some (a, s) \<Rightarrow> k a s)"

primrec array_loop :: "(cstring \<Rightarrow> json parsed) \<Rightarrow> nat \<Rightarrow> cstring \<Rightarrow> json list parsed" where
  "array_loop value 0 s = Diverges"
| "array_loop value (Suc n) s =
     and_then (value s) (\<lambda>x t.
       let t = skip_space t
       in if peek t = 0x5D then Returns (Some ([x], tl t))
          else if peek t \<noteq> 0x2C then Returns None
          else and_then (array_loop value n (skip_space (tl t))) (\<lambda>xs t. Returns (Some (x # xs, t))))"

definition parse_array :: "(cstring \<Rightarrow> json parsed) \<Rightarrow> cstring \<Rightarrow> json parsed" where
  "parse_array value s =
     (if peek s \<noteq> 0x5B then Returns None
      else let s = skip_space (tl s)
           in if peek s = 0x5D then Returns (Some (JSON_ARRAY [], tl s))
              else and_then (array_loop value (length s + 1) s) (\<lambda>xs t. Returns (Some (JSON_ARRAY xs, t))))"

primrec object_loop :: "(cstring \<Rightarrow> json parsed) \<Rightarrow> nat \<Rightarrow> cstring \<Rightarrow> (string \<times> json) list parsed" where
  "object_loop value 0 s = Diverges"
| "object_loop value (Suc n) s =
     and_then (Returns (parse_string s)) (\<lambda>key t.
       let t = skip_space t
       in if peek t \<noteq> 0x3A then Returns None
          else and_then (value (skip_space (tl t))) (\<lambda>x t.
            let t = skip_space t
            in if peek t = 0x7D then Returns (Some ([(chars key, x)], tl t))
               else if peek t \<noteq> 0x2C then Returns None
               else and_then (object_loop value n (skip_space (tl t))) (\<lambda>ms t. Returns (Some ((chars key, x) # ms, t)))))"

definition parse_object :: "(cstring \<Rightarrow> json parsed) \<Rightarrow> cstring \<Rightarrow> json parsed" where
  "parse_object value s =
     (if peek s \<noteq> 0x7B then Returns None
      else let s = skip_space (tl s)
           in if peek s = 0x7D then Returns (Some (JSON_OBJECT [], tl s))
              else and_then (object_loop value (length s + 1) s) (\<lambda>ms t. Returns (Some (JSON_OBJECT ms, t))))"

primrec parse_value :: "rounding \<Rightarrow> nat \<Rightarrow> cstring \<Rightarrow> json parsed" where
  "parse_value r 0 s = Diverges"
| "parse_value r (Suc f) s =
     (let c = peek s
      in if c = 0x6E then Returns (expect_literal s ''null'' JSON_NULL)
         else if c = 0x66 then Returns (expect_literal s ''false'' (JSON_BOOL False))
         else if c = 0x74 then Returns (expect_literal s ''true'' (JSON_BOOL True))
         else if c = 0x22 then Returns (map_option (\<lambda>(b, t). (JSON_STRING (chars b), t)) (parse_string s))
         else if c = 0x5B then parse_array (parse_value r f) s
         else if c = 0x7B then parse_object (parse_value r f) s
         else Returns (map_option (\<lambda>(x, t). (JSON_NUMBER x, t)) (parse_number r s)))"

definition json_decode :: "rounding \<Rightarrow> cstring \<Rightarrow> json option outcome" where
  "json_decode r s =
     (let s = skip_space s
      in bind_outcome (parse_value r (length s + 1) s) (\<lambda>x.
           case x of None \<Rightarrow> Returns None
           | Some (j, t) \<Rightarrow> (if skip_space t \<noteq> [] then Returns None else Returns (Some j))))"

section \<open>Printing\<close>

text \<open>\<open>None\<close> is an assertion that fails: a string that is not valid UTF-8.\<close>

definition put_string :: "string \<Rightarrow> cstring option" where
  "put_string s = emit_string False (bytes s)"

definition prepend :: "cstring option \<Rightarrow> cstring option \<Rightarrow> cstring option" where
  "prepend a b = (case a of None \<Rightarrow> None | Some x \<Rightarrow> map_option (\<lambda>y. x @ y) b)"

fun emit_value :: "json \<Rightarrow> cstring option"
  and emit_elements :: "json list \<Rightarrow> cstring option"
  and emit_members :: "(string \<times> json) list \<Rightarrow> cstring option"
where
  "emit_value JSON_NULL = Some (bytes ''null'')"
| "emit_value (JSON_BOOL b) = Some (if b then bytes ''true'' else bytes ''false'')"
| "emit_value (JSON_STRING s) = put_string s"
| "emit_value (JSON_NUMBER x) = Some (emit_number x)"
| "emit_value (JSON_ARRAY xs) = prepend (Some [0x5B]) (emit_elements xs)"
| "emit_value (JSON_OBJECT ms) = prepend (Some [0x7B]) (emit_members ms)"
| "emit_elements [] = Some [0x5D]"
| "emit_elements (x # xs) =
     prepend (emit_value x) (prepend (Some (if xs \<noteq> [] then [0x2C] else [])) (emit_elements xs))"
| "emit_members [] = Some [0x7D]"
| "emit_members ((key, x) # ms) =
     prepend (put_string key) (prepend (Some [0x3A])
       (prepend (emit_value x) (prepend (Some (if ms \<noteq> [] then [0x2C] else [])) (emit_members ms))))"

definition indentation :: "cstring \<Rightarrow> nat \<Rightarrow> cstring" where
  "indentation space n = concat (replicate n space)"

fun emit_value_indented :: "cstring \<Rightarrow> nat \<Rightarrow> json \<Rightarrow> cstring option"
  and emit_elements_indented :: "cstring \<Rightarrow> nat \<Rightarrow> json list \<Rightarrow> cstring option"
  and emit_members_indented :: "cstring \<Rightarrow> nat \<Rightarrow> (string \<times> json) list \<Rightarrow> cstring option"
where
  "emit_value_indented space level JSON_NULL = Some (bytes ''null'')"
| "emit_value_indented space level (JSON_BOOL b) = Some (if b then bytes ''true'' else bytes ''false'')"
| "emit_value_indented space level (JSON_STRING s) = put_string s"
| "emit_value_indented space level (JSON_NUMBER x) = Some (emit_number x)"
| "emit_value_indented space level (JSON_ARRAY xs) =
     (if xs = [] then Some [0x5B, 0x5D] else prepend (Some [0x5B, 10]) (emit_elements_indented space level xs))"
| "emit_value_indented space level (JSON_OBJECT ms) =
     (if ms = [] then Some [0x7B, 0x7D] else prepend (Some [0x7B, 10]) (emit_members_indented space level ms))"
| "emit_elements_indented space level [] = Some (indentation space level @ [0x5D])"
| "emit_elements_indented space level (x # xs) =
     prepend (Some (indentation space (level + 1))) (prepend (emit_value_indented space (level + 1) x)
       (prepend (Some (if xs \<noteq> [] then [0x2C, 10] else [10])) (emit_elements_indented space level xs)))"
| "emit_members_indented space level [] = Some (indentation space level @ [0x7D])"
| "emit_members_indented space level ((key, x) # ms) =
     prepend (Some (indentation space (level + 1))) (prepend (put_string key) (prepend (Some [0x3A, 32])
       (prepend (emit_value_indented space (level + 1) x)
         (prepend (Some (if ms \<noteq> [] then [0x2C, 10] else [10])) (emit_members_indented space level ms)))))"

definition json_stringify :: "json \<Rightarrow> cstring option \<Rightarrow> cstring outcome" where
  "json_stringify node space =
     (case (case space of Some sp \<Rightarrow> emit_value_indented sp 0 node | None \<Rightarrow> emit_value node) of
        None \<Rightarrow> Exits ABORTED | Some text \<Rightarrow> Returns text)"

definition json_encode :: "json \<Rightarrow> cstring outcome" where
  "json_encode node = json_stringify node None"

section \<open>Every text of a tree is read\<close>

text \<open>
  The texts of a tree whose strings and numbers are printed as the printer does, with any white
  space between its parts. A list is printed with its closing bracket.
\<close>

definition string_ok :: "string \<Rightarrow> bool" where
  "string_ok s \<longleftrightarrow> valid_string (bytes s) \<and> 0x1F \<notin> set (bytes s)"

definition white :: "cstring \<Rightarrow> bool" where
  "white w \<longleftrightarrow> (\<forall>c\<in>set w. is_space c)"

inductive renders :: "json \<Rightarrow> cstring \<Rightarrow> bool"
  and renders_elements :: "json list \<Rightarrow> cstring \<Rightarrow> bool"
  and renders_members :: "(string \<times> json) list \<Rightarrow> cstring \<Rightarrow> bool"
where
  null: "renders JSON_NULL (bytes ''null'')"
| false: "renders (JSON_BOOL False) (bytes ''false'')"
| true: "renders (JSON_BOOL True) (bytes ''true'')"
| string: "string_ok s \<Longrightarrow> put_string s = Some b \<Longrightarrow> renders (JSON_STRING s) b"
| number: "\<bar>k\<bar> \<le> 2 ^ 53 \<Longrightarrow> renders (JSON_NUMBER (Fin (of_int k))) (bytes (dec_int k))"
| no_elements: "white w \<Longrightarrow> renders (JSON_ARRAY []) ([0x5B] @ w @ [0x5D])"
| elements: "white w \<Longrightarrow> renders_elements xs c \<Longrightarrow> renders (JSON_ARRAY xs) ([0x5B] @ w @ c)"
| no_members: "white w \<Longrightarrow> renders (JSON_OBJECT []) ([0x7B] @ w @ [0x7D])"
| members: "white w \<Longrightarrow> renders_members ms c \<Longrightarrow> renders (JSON_OBJECT ms) ([0x7B] @ w @ c)"
| last_element: "renders x b \<Longrightarrow> white w \<Longrightarrow> renders_elements [x] (b @ w @ [0x5D])"
| next_element: "renders x b \<Longrightarrow> white v \<Longrightarrow> white w \<Longrightarrow> renders_elements xs c \<Longrightarrow>
    renders_elements (x # xs) (b @ v @ [0x2C] @ w @ c)"
| last_member: "string_ok k \<Longrightarrow> put_string k = Some a \<Longrightarrow> white u \<Longrightarrow> white v \<Longrightarrow> renders x b \<Longrightarrow> white w \<Longrightarrow>
    renders_members [(k, x)] (a @ u @ [0x3A] @ v @ b @ w @ [0x7D])"
| next_member: "string_ok k \<Longrightarrow> put_string k = Some a \<Longrightarrow> white u \<Longrightarrow> white v \<Longrightarrow> renders x b \<Longrightarrow> white w \<Longrightarrow> white z \<Longrightarrow>
    renders_members ms c \<Longrightarrow> renders_members ((k, x) # ms) (a @ u @ [0x3A] @ v @ b @ w @ [0x2C] @ z @ c)"

lemma white_spaces [simp]: "white []" "white (10 # w) = white w" "white (32 # w) = white w"
  "white (v @ w) \<longleftrightarrow> white v \<and> white w"
  by (auto simp: white_def is_space_def)

lemma skip_white: "white w \<Longrightarrow> \<not> is_space (peek s) \<Longrightarrow> skip_space (w @ s) = s"
  by (cases s) (auto simp: white_def skip_space_def)

lemma bytes_literals:
  "bytes ''null'' = [0x6E, 0x75, 0x6C, 0x6C]" "bytes ''true'' = [0x74, 0x72, 0x75, 0x65]"
  "bytes ''false'' = [0x66, 0x61, 0x6C, 0x73, 0x65]"
  by (simp_all add: bytes_def of_char_def)

lemma put_string_start: "put_string s = Some b \<Longrightarrow> b \<noteq> []" "put_string s = Some b \<Longrightarrow> peek (b @ t) = 0x22"
  by (auto simp: put_string_def emit_string_def split: if_splits)

lemma put_string_read:
  assumes "string_ok s" and "put_string s = Some b"
  shows "parse_string (b @ t) = Some (bytes s, t)"
  using parse_emitted_string [of False "bytes s" b t] assms by (simp add: string_ok_def valid_string_def put_string_def)

lemma int_start: "bytes (dec_int k) \<noteq> [] \<and> (peek (bytes (dec_int k) @ t) = 0x2D \<or> json_digit (peek (bytes (dec_int k) @ t)))"
proof -
  obtain d ds where d: "digits (nat \<bar>k\<bar>) = d # ds" using digits_ne by (cases "digits (nat \<bar>k\<bar>)") auto
  then show ?thesis
    using digits_lt [of "nat \<bar>k\<bar>"] json_digit_byte [of d] by (auto simp: bytes_dec_int bytes_dec)
qed

lemma renders_start:
  shows "renders j b \<Longrightarrow> b \<noteq> [] \<and> \<not> is_space (peek (b @ t)) \<and> peek (b @ t) \<noteq> 0x5D"
    and "renders_elements xs c \<Longrightarrow> c \<noteq> [] \<and> \<not> is_space (peek (c @ t)) \<and> peek (c @ t) \<noteq> 0x5D"
    and "renders_members ms d \<Longrightarrow> d \<noteq> [] \<and> \<not> is_space (peek (d @ t)) \<and> peek (d @ t) \<noteq> 0x7D"
proof (induction arbitrary: t and t and t rule: renders_renders_elements_renders_members.inducts)
  case (number k)
  then show ?case using int_start [of k t] by (auto simp: is_space_def json_digit_def)
qed (auto simp: is_space_def bytes_literals put_string_start)

lemma delimited_after:
  "white w \<Longrightarrow> c \<in> {0x2C, 0x5D, 0x7D} \<Longrightarrow> delimited (w @ c # t)"
  by (cases w) (auto simp: delimited_def white_def is_space_def)

lemma and_then_Some [simp]: "and_then (Returns (Some (a, t))) k = k a t"
  by (simp add: and_then_def)

lemma peek_ne: "peek s \<noteq> 0 \<Longrightarrow> s = peek s # tl s"
  by (cases s) auto

lemma read_number:
  assumes "\<bar>k\<bar> \<le> 2 ^ 53" and "rounds r" and "delimited t"
  shows "parse_value r (Suc f) (bytes (dec_int k) @ t) = Returns (Some (JSON_NUMBER (Fin (of_int k)), t))"
proof -
  have "peek (bytes (dec_int k) @ t) \<notin> {0x6E, 0x66, 0x74, 0x22, 0x5B, 0x7B}"
    using int_start [of k t] by (auto simp: json_digit_def)
  moreover have "parse_number r (bytes (dec_int k) @ t) = Some (Fin (of_int k), t)"
    using scan_number_int [OF assms(3)] strtod_int [OF assms(3)] rounds_int [OF assms(2,1)] by (simp add: parse_number_def)
  ultimately show ?thesis by (simp add: Let_def)
qed

lemma read_array_text:
  assumes "white w" and "renders_elements xs c"
    and "array_loop value (length (c @ t) + 1) (c @ t) = Returns (Some (xs, t))"
  shows "parse_array value ([0x5B] @ w @ c @ t) = Returns (Some (JSON_ARRAY xs, t))"
proof -
  have "skip_space (w @ c @ t) = c @ t" "peek (c @ t) \<noteq> 0x5D"
    using renders_start(2) [OF assms(2), of t] skip_white [OF assms(1)] by auto
  then show ?thesis using assms(3) by (simp add: parse_array_def Let_def)
qed

lemma read_object:
  assumes "white w" and "renders_members ms c"
    and "object_loop value (length (c @ t) + 1) (c @ t) = Returns (Some (ms, t))"
  shows "parse_object value ([0x7B] @ w @ c @ t) = Returns (Some (JSON_OBJECT ms, t))"
proof -
  have "skip_space (w @ c @ t) = c @ t" "peek (c @ t) \<noteq> 0x7D"
    using renders_start(3) [OF assms(2), of t] skip_white [OF assms(1)] by auto
  then show ?thesis using assms(3) by (simp add: parse_object_def Let_def)
qed

lemma bracket_not_space [simp]: "\<not> is_space 0x5D" "\<not> is_space 0x2C" "\<not> is_space 0x7D" "\<not> is_space 0x3A"
  by (simp_all add: is_space_def)

lemma read_element:
  assumes "value (b @ w @ c # t) = Returns (Some (x, w @ c # t))" and "white w" and "c = 0x5D \<or> c = 0x2C"
  shows "array_loop value (Suc n) (b @ w @ c # t) =
    (if c = 0x5D then Returns (Some ([x], t))
     else and_then (array_loop value n (skip_space t)) (\<lambda>xs t. Returns (Some (x # xs, t))))"
  using assms skip_white [OF assms(2), of "c # t"] by (auto simp: Let_def)

lemma read_member:
  assumes "string_ok k" and "put_string k = Some a" and "white u" and "white v" and "\<not> is_space (peek (b @ w @ c # t))"
    and "value (b @ w @ c # t) = Returns (Some (x, w @ c # t))" and "white w" and "c = 0x7D \<or> c = 0x2C"
  shows "object_loop value (Suc n) (a @ u @ [0x3A] @ v @ b @ w @ c # t) =
    (if c = 0x7D then Returns (Some ([(k, x)], t))
     else and_then (object_loop value n (skip_space t)) (\<lambda>ms t. Returns (Some ((k, x) # ms, t))))"
  using assms(6,8) skip_white [OF assms(7), of "c # t"] skip_white [OF assms(3), of "0x3A # v @ b @ w @ c # t"]
    skip_white [OF assms(4,5)] put_string_read [OF assms(1,2)]
  by (auto simp: Let_def)

lemma renders_read:
  assumes "rounds r"
  shows "renders j b \<Longrightarrow> delimited t \<Longrightarrow> length b \<le> f \<Longrightarrow> parse_value r f (b @ t) = Returns (Some (j, t))"
    and "renders_elements xs c \<Longrightarrow> length c \<le> n \<Longrightarrow> length c \<le> f \<Longrightarrow>
      array_loop (parse_value r f) n (c @ t) = Returns (Some (xs, t))"
    and "renders_members ms d \<Longrightarrow> length d \<le> n \<Longrightarrow> length d \<le> f \<Longrightarrow>
      object_loop (parse_value r f) n (d @ t) = Returns (Some (ms, t))"
proof (induction arbitrary: f t and n f t and n f t rule: renders_renders_elements_renders_members.inducts)
  case (string s b)
  then obtain g where "f = Suc g" using put_string_start(1) by (cases f) auto
  then show ?case using string put_string_start(2) [of s b t] put_string_read [of s b t] by (simp add: Let_def)
next
  case (number k)
  then obtain g where "f = Suc g" using int_start [of k t] by (cases f) auto
  then show ?case using read_number [OF number(1) assms number(2), of g] by simp
next
  case (no_elements w)
  then obtain g where "f = Suc g" by (cases f) auto
  then show ?case using skip_white [OF no_elements(1), of "0x5D # t"] by (simp add: parse_array_def Let_def)
next
  case (elements w xs c)
  then obtain g where g: "f = Suc g" by (cases f) auto
  then show ?case
    using read_array_text [OF elements(1,2)] elements(3) [of "length (c @ t) + 1" g t] elements(5) by simp
next
  case (no_members w)
  then obtain g where "f = Suc g" by (cases f) auto
  then show ?case using skip_white [OF no_members(1), of "0x7D # t"] by (simp add: parse_object_def Let_def)
next
  case (members w ms c)
  then obtain g where g: "f = Suc g" by (cases f) auto
  then show ?case
    using read_object [OF members(1,2)] members(3) [of "length (c @ t) + 1" g t] members(5) by simp
next
  case (last_element x b w)
  then obtain m where m: "n = Suc m" by (cases n) auto
  have "parse_value r f (b @ w @ 0x5D # t) = Returns (Some (x, w @ 0x5D # t))"
    using last_element delimited_after [of w "0x5D" t] by simp
  then show ?case
    using read_element [of "parse_value r f" b w "0x5D" t x m] last_element(2) by (simp add: m)
next
  case (next_element x b v w xs c)
  then obtain m where m: "n = Suc m" by (cases n) auto
  have "parse_value r f (b @ v @ 0x2C # w @ c @ t) = Returns (Some (x, v @ 0x2C # w @ c @ t))"
    using next_element delimited_after [of v "0x2C"] by simp
  moreover have "skip_space (w @ c @ t) = c @ t"
    using skip_white [OF next_element(3)] renders_start(2) [OF next_element(4), of t] by simp
  moreover have "array_loop (parse_value r f) m (c @ t) = Returns (Some (xs, t))"
    using next_element m by simp
  ultimately show ?case
    using read_element [of "parse_value r f" b v "0x2C" "w @ c @ t" x m] next_element(2) by (simp add: m)
next
  case (last_member k a u v x b w)
  then obtain m where m: "n = Suc m" by (cases n) auto
  have "parse_value r f (b @ w @ 0x7D # t) = Returns (Some (x, w @ 0x7D # t))"
    using last_member delimited_after [of w "0x7D" t] by simp
  then show ?case
    using read_member [OF last_member(1-4) _ _ last_member(6), of b "0x7D" t "parse_value r f" x m]
      renders_start(1) [OF last_member(5), of "w @ 0x7D # t"] by (simp add: m)
next
  case (next_member k a u v x b w z ms c)
  then obtain m where m: "n = Suc m" by (cases n) auto
  have "parse_value r f (b @ w @ 0x2C # z @ c @ t) = Returns (Some (x, w @ 0x2C # z @ c @ t))"
    using next_member delimited_after [of w "0x2C"] by simp
  moreover have "skip_space (z @ c @ t) = c @ t"
    using skip_white [OF next_member(7)] renders_start(3) [OF next_member(8), of t] by simp
  moreover have "object_loop (parse_value r f) m (c @ t) = Returns (Some (ms, t))"
    using next_member m by simp
  ultimately show ?case
    using read_member [OF next_member(1-4) _ _ next_member(6), of b "0x2C" "z @ c @ t" "parse_value r f" x m]
      renders_start(1) [OF next_member(5), of "w @ 0x2C # z @ c @ t"] by (simp add: m)
next
  case null
  then obtain g where "f = Suc g" by (cases f) (auto simp: bytes_literals)
  then show ?case by (simp add: bytes_literals expect_literal_def Let_def)
next
  case false
  then obtain g where "f = Suc g" by (cases f) (auto simp: bytes_literals)
  then show ?case by (simp add: bytes_literals expect_literal_def Let_def)
next
  case true
  then obtain g where "f = Suc g" by (cases f) (auto simp: bytes_literals)
  then show ?case by (simp add: bytes_literals expect_literal_def Let_def)
qed

section \<open>The printer prints texts of the tree\<close>

fun printable :: "json \<Rightarrow> bool" where
  "printable (JSON_STRING s) = string_ok s"
| "printable (JSON_NUMBER x) = (\<exists>k :: int. \<bar>k\<bar> \<le> 2 ^ 53 \<and> x = Fin (of_int k))"
| "printable (JSON_ARRAY xs) = (\<forall>x\<in>set xs. printable x)"
| "printable (JSON_OBJECT ms) = (\<forall>(k, x)\<in>set ms. string_ok k \<and> printable x)"
| "printable j = True"

lemma put_string_ok: "valid_string (bytes s) \<Longrightarrow> \<exists>b. put_string s = Some b"
  using emit_string_valid [of "bytes s" False] by (simp add: valid_string_def put_string_def)

lemma emit_int:
  assumes "\<bar>k\<bar> \<le> 2 ^ 53" shows "emit_number (Fin (of_int k)) = bytes (dec_int k)"
  using scan_number_int [of "[]" k] print_int [OF assms]
  by (simp add: emit_number_def number_is_valid_def delimited_def del: print_16g.simps)

lemma prepend_simps [simp]: "prepend (Some x) (Some y) = Some (x @ y)"
  by (simp add: prepend_def)

lemmas render_intros = renders_renders_elements_renders_members.intros

lemma emit_renders:
  shows "printable j \<Longrightarrow> \<exists>b. emit_value j = Some b \<and> renders j b"
    and "(\<forall>x\<in>set xs. printable x) \<Longrightarrow> \<exists>c. emit_elements xs = Some c \<and> (if xs = [] then c = [0x5D] else renders_elements xs c)"
    and "(\<forall>(k, x)\<in>set ms. string_ok k \<and> printable x) \<Longrightarrow>
      \<exists>c. emit_members ms = Some c \<and> (if ms = [] then c = [0x7D] else renders_members ms c)"
proof (induction j and xs and ms rule: emit_value_emit_elements_emit_members.induct)
  case (2 b)
  then show ?case by (auto intro: render_intros)
next
  case (3 s)
  then show ?case using put_string_ok [of s] string [of s] by (auto simp: string_ok_def)
next
  case (4 x)
  then show ?case using emit_int by (auto intro!: render_intros)
next
  case (5 xs)
  then obtain c where c: "emit_elements xs = Some c" "if xs = [] then c = [0x5D] else renders_elements xs c" by auto
  then show ?case
    using no_elements [of "[]"] elements [of "[]" xs c] by (cases "xs = []") simp_all
next
  case (6 ms)
  then obtain c where c: "emit_members ms = Some c" "if ms = [] then c = [0x7D] else renders_members ms c" by auto
  then show ?case
    using no_members [of "[]"] members [of "[]" ms c] by (cases "ms = []") simp_all
next
  case (8 x xs)
  then obtain b c where b: "emit_value x = Some b" "renders x b" "emit_elements xs = Some c"
    "if xs = [] then c = [0x5D] else renders_elements xs c" by auto
  then show ?case
    using last_element [of x b "[]"] next_element [of x b "[]" "[]" xs c] by (cases "xs = []") simp_all
next
  case (10 k x ms)
  then obtain b c where b: "emit_value x = Some b" "renders x b" "emit_members ms = Some c"
    "if ms = [] then c = [0x7D] else renders_members ms c" by auto
  obtain a where a: "put_string k = Some a" "string_ok k" using 10(3) put_string_ok [of k] by (auto simp: string_ok_def)
  from a b show ?case
    using last_member [of k a "[]" "[]" x b "[]"] next_member [of k a "[]" "[]" x b "[]" "[]" ms c]
    by (cases "ms = []") simp_all
qed (auto intro: render_intros)

lemma white_indentation [simp]: "white sp \<Longrightarrow> white (indentation sp n)"
  by (induction n) (simp_all add: indentation_def)

lemma emit_indented_renders:
  shows "white sp \<Longrightarrow> printable j \<Longrightarrow> \<exists>b. emit_value_indented sp l j = Some b \<and> renders j b"
    and "white sp \<Longrightarrow> (\<forall>x\<in>set xs. printable x) \<Longrightarrow> \<exists>w c. emit_elements_indented sp l xs = Some (w @ c) \<and> white w \<and>
      (if xs = [] then c = [0x5D] else renders_elements xs c)"
    and "white sp \<Longrightarrow> (\<forall>(k, x)\<in>set ms. string_ok k \<and> printable x) \<Longrightarrow>
      \<exists>w c. emit_members_indented sp l ms = Some (w @ c) \<and> white w \<and> (if ms = [] then c = [0x7D] else renders_members ms c)"
proof (induction sp l j and sp l xs and sp l ms rule: emit_value_indented_emit_elements_indented_emit_members_indented.induct)
  case (2 sp l b)
  then show ?case by (auto intro: render_intros)
next
  case (3 sp l s)
  then show ?case using put_string_ok [of s] string [of s] by (auto simp: string_ok_def)
next
  case (4 sp l x)
  then show ?case using emit_int by (auto intro!: render_intros)
next
  case (5 sp l xs)
  show ?case
  proof (cases "xs = []")
    case True
    then show ?thesis using no_elements [of "[]"] by simp
  next
    case False
    then obtain w c where c: "emit_elements_indented sp l xs = Some (w @ c)" "white w" "renders_elements xs c"
      using 5 by auto
    then show ?thesis using False elements [of "[10] @ w" xs c] by simp
  qed
next
  case (6 sp l ms)
  show ?case
  proof (cases "ms = []")
    case True
    then show ?thesis using no_members [of "[]"] by simp
  next
    case False
    then obtain w c where c: "emit_members_indented sp l ms = Some (w @ c)" "white w" "renders_members ms c"
      using 6 by auto
    then show ?thesis using False members [of "[10] @ w" ms c] by simp
  qed
next
  case (7 sp l)
  then show ?case by (intro exI [of _ "indentation sp l"] exI [of _ "[0x5D]"]) simp
next
  case (8 sp l x xs)
  then obtain b w c where b: "emit_value_indented sp (l + 1) x = Some b" "renders x b"
    "emit_elements_indented sp l xs = Some (w @ c)" "white w" "if xs = [] then c = [0x5D] else renders_elements xs c"
    by auto
  show ?case
  proof (rule exI [of _ "indentation sp (l + 1)"], rule exI [of _ "b @ (if xs = [] then [10] else [0x2C, 10]) @ w @ c"])
    show "emit_elements_indented sp l (x # xs) =
        Some (indentation sp (l + 1) @ b @ (if xs = [] then [10] else [0x2C, 10]) @ w @ c) \<and> white (indentation sp (l + 1)) \<and>
      (if x # xs = [] then b @ (if xs = [] then [10] else [0x2C, 10]) @ w @ c = [0x5D]
       else renders_elements (x # xs) (b @ (if xs = [] then [10] else [0x2C, 10]) @ w @ c))"
      using b 8(3) last_element [of x b "[10] @ w"] next_element [of x b "[]" "[10] @ w" xs c] by (cases "xs = []") simp_all
  qed
next
  case (9 sp l)
  then show ?case by (intro exI [of _ "indentation sp l"] exI [of _ "[0x7D]"]) simp
next
  case (10 sp l k x ms)
  then obtain b w c where b: "emit_value_indented sp (l + 1) x = Some b" "renders x b"
    "emit_members_indented sp l ms = Some (w @ c)" "white w" "if ms = [] then c = [0x7D] else renders_members ms c"
    by auto
  obtain a where a: "put_string k = Some a" "string_ok k" using 10(4) put_string_ok [of k] by (auto simp: string_ok_def)
  show ?case
  proof (rule exI [of _ "indentation sp (l + 1)"],
      rule exI [of _ "a @ [0x3A, 32] @ b @ (if ms = [] then [10] else [0x2C, 10]) @ w @ c"])
    show "emit_members_indented sp l ((k, x) # ms) =
        Some (indentation sp (l + 1) @ a @ [0x3A, 32] @ b @ (if ms = [] then [10] else [0x2C, 10]) @ w @ c) \<and>
      white (indentation sp (l + 1)) \<and>
      (if (k, x) # ms = [] then a @ [0x3A, 32] @ b @ (if ms = [] then [10] else [0x2C, 10]) @ w @ c = [0x7D]
       else renders_members ((k, x) # ms) (a @ [0x3A, 32] @ b @ (if ms = [] then [10] else [0x2C, 10]) @ w @ c))"
      using a b 10(3) last_member [of k a "[]" "[32]" x b "[10] @ w"]
        next_member [of k a "[]" "[32]" x b "[]" "[10] @ w" ms c]
      by (cases "ms = []") simp_all
  qed
qed (auto intro: render_intros)

section \<open>What is read\<close>

text \<open>A tree the library builds: its strings are valid UTF-8 without a NUL.\<close>

fun tree_ok :: "json \<Rightarrow> bool" where
  "tree_ok (JSON_STRING s) = valid_string (bytes s)"
| "tree_ok (JSON_ARRAY xs) = (\<forall>x\<in>set xs. tree_ok x)"
| "tree_ok (JSON_OBJECT ms) = (\<forall>(k, x)\<in>set ms. valid_string (bytes k) \<and> tree_ok x)"
| "tree_ok j = True"

definition ends :: "('a \<Rightarrow> bool) \<Rightarrow> cstring \<Rightarrow> 'a parsed \<Rightarrow> bool" where
  "ends P s p \<longleftrightarrow> (\<exists>x. p = Returns x \<and> (\<forall>a t. x = Some (a, t) \<longrightarrow> P a \<and> 0 \<notin> set t \<and> length t < length s))"

lemma ends_simps [simp]:
  "ends P s (Returns None)"
  "ends P s (Returns (Some (a, t))) \<longleftrightarrow> P a \<and> 0 \<notin> set t \<and> length t < length s"
  by (auto simp: ends_def)

lemma ends_and_then:
  assumes "ends P s p" and "\<And>a t. P a \<Longrightarrow> 0 \<notin> set t \<Longrightarrow> length t < length s \<Longrightarrow> ends Q s (k a t)"
  shows "ends Q s (and_then p k)"
proof -
  obtain x where x: "p = Returns x" "\<forall>a t. x = Some (a, t) \<longrightarrow> P a \<and> 0 \<notin> set t \<and> length t < length s"
    using assms(1) by (auto simp: ends_def)
  show ?thesis
  proof (cases x)
    case None
    then show ?thesis using x by (simp add: and_then_def)
  next
    case (Some y)
    obtain a t where "y = (a, t)" by (cases y)
    then show ?thesis using Some x assms(2) [of a t] by simp
  qed
qed

lemma ends_longer: "ends P s p \<Longrightarrow> length s \<le> length s' \<Longrightarrow> ends P s' p"
  by (fastforce simp: ends_def)

lemma skip_space_rest: "length (skip_space s) \<le> length s" "0 \<notin> set s \<Longrightarrow> 0 \<notin> set (skip_space s)"
  by (auto simp: skip_space_def length_dropWhile_le dest: set_dropWhileD)

lemma tl_rest: "0 \<notin> set s \<Longrightarrow> 0 \<notin> set (tl s)" "peek s \<noteq> 0 \<Longrightarrow> length (tl s) < length s"
  by (cases s; simp)+

lemma skip_digits_rest:
  assumes "skip_digits s = Some t" shows "length t < length s \<and> set t \<subseteq> set s"
proof -
  have d: "json_digit (peek s)" "t = dropWhile json_digit s" using assms by (auto simp: skip_digits_def split: if_splits)
  then obtain c s' where "s = c # s'" "json_digit c" by (cases s) (auto simp: json_digit_def)
  then show ?thesis using d(2) length_dropWhile_le [of json_digit s'] by (auto dest: set_dropWhileD)
qed

lemma scan_number_rest:
  assumes "scan_number s = Some t" shows "length t < length s \<and> set t \<subseteq> set s"
proof -
  let ?s = "if peek s = 0x2D then tl s else s"
  have tl: "set (tl u) \<subseteq> set u" "length (tl u) \<le> length u" for u :: cstring by (cases u; auto)+
  have e: "scan_unsigned ?s = Some t" using assms by (simp only: scan_number_def)
  obtain u where u: "(if peek ?s = 0x30 then Some (tl ?s) else skip_digits ?s) = Some u"
  proof (cases "if peek ?s = 0x30 then Some (tl ?s) else skip_digits ?s")
    case None
    then show ?thesis using e by (simp only: scan_unsigned_def option.case option.distinct)
  qed (rule that)
  have 1: "length u < length ?s \<and> set u \<subseteq> set ?s"
    using u skip_digits_rest [of ?s u] tl [of ?s] tl_rest(2) [of ?s] by (auto split: if_splits)
  obtain v where v: "(if peek u = 0x2E then skip_digits (tl u) else Some u) = Some v"
  proof (cases "if peek u = 0x2E then skip_digits (tl u) else Some u")
    case None
    then show ?thesis using e u by (simp only: scan_unsigned_def option.case option.distinct)
  qed (rule that)
  have 2: "length v \<le> length u \<and> set v \<subseteq> set u"
    using v skip_digits_rest [of "tl u" v] tl [of u] by (fastforce split: if_splits)
  have "(if peek v = 0x45 \<or> peek v = 0x65
      then skip_digits (if peek (tl v) = 0x2B \<or> peek (tl v) = 0x2D then tl (tl v) else tl v) else Some v) = Some t"
    using e by (simp only: scan_unsigned_def u v option.case Let_def)
  then have 3: "length t \<le> length v \<and> set t \<subseteq> set v"
    using skip_digits_rest [of "tl v" t] skip_digits_rest [of "tl (tl v)" t] tl [of v] tl [of "tl v"]
    by (fastforce split: if_splits)
  have "length ?s \<le> length s \<and> set ?s \<subseteq> set s" using tl [of s] by auto
  with 1 2 3 show ?thesis by (meson le_trans less_le_trans order_trans le_less_trans)
qed

lemma array_loop_ends:
  assumes "\<And>s. 0 \<notin> set s \<Longrightarrow> length s < m \<Longrightarrow> ends tree_ok s (value s)"
  shows "0 \<notin> set s \<Longrightarrow> length s < m \<Longrightarrow> length s < n \<Longrightarrow> ends (\<lambda>xs. \<forall>x\<in>set xs. tree_ok x) s (array_loop value n s)"
proof (induction n arbitrary: s)
  case (Suc n)
  show ?case unfolding array_loop.simps
  proof (rule ends_and_then [OF assms [OF Suc.prems(1,2)]])
    fix x and t :: cstring assume t: "tree_ok x" "0 \<notin> set t" "length t < length s"
    let ?t = "skip_space t" and ?u = "skip_space (tl (skip_space t))"
    have l: "0 \<notin> set ?t" "length ?t < length s" using skip_space_rest [of t] t by auto
    show "ends (\<lambda>xs. \<forall>x\<in>set xs. tree_ok x) s (let t = skip_space t
       in if peek t = 0x5D then Returns (Some ([x], tl t))
          else if peek t \<noteq> 0x2C then Returns None
          else and_then (array_loop value n (skip_space (tl t))) (\<lambda>xs t. Returns (Some (x # xs, t))))"
    proof (cases "peek ?t = 0x2C")
      case True
      then have u: "0 \<notin> set ?u" "length ?u < length ?t"
        using l tl_rest [of ?t] skip_space_rest [of "tl ?t"] by auto
      then have "ends (\<lambda>xs. \<forall>x\<in>set xs. tree_ok x) ?u (array_loop value n ?u)"
        using Suc.IH [of ?u] Suc.prems l(2) by simp
      then have "ends (\<lambda>xs. \<forall>x\<in>set xs. tree_ok x) s (array_loop value n ?u)"
        by (rule ends_longer) (use u l in simp)
      then have "ends (\<lambda>xs. \<forall>x\<in>set xs. tree_ok x) s
          (and_then (array_loop value n ?u) (\<lambda>xs t. Returns (Some (x # xs, t))))"
        by (rule ends_and_then) (use t(1) in auto)
      then show ?thesis using True by (simp add: Let_def)
    qed (use l t(1) tl_rest [of ?t] in \<open>auto simp: Let_def\<close>)
  qed
qed simp

abbreviation members_ok :: "(string \<times> json) list \<Rightarrow> bool" where
  "members_ok ms \<equiv> \<forall>(k, x)\<in>set ms. valid_string (bytes k) \<and> tree_ok x"

lemma object_loop_ends:
  assumes "\<And>s. 0 \<notin> set s \<Longrightarrow> length s < m \<Longrightarrow> ends tree_ok s (value s)"
  shows "0 \<notin> set s \<Longrightarrow> length s < m \<Longrightarrow> length s < n \<Longrightarrow> ends members_ok s (object_loop value n s)"
proof (induction n arbitrary: s)
  case (Suc n)
  have key: "ends valid_string s (Returns (parse_string s))"
    using parse_string_valid [of s] Suc.prems(1) by (auto simp: ends_def)
  show ?case unfolding object_loop.simps
  proof (rule ends_and_then [OF key])
    fix key and t :: cstring assume t: "valid_string key" "0 \<notin> set t" "length t < length s"
    let ?t = "skip_space t" and ?u = "skip_space (tl (skip_space t))"
    have l: "0 \<notin> set ?t" "length ?t < length s" using skip_space_rest [of t] t by auto
    have u: "0 \<notin> set ?u" "length ?u \<le> length ?t"
      using l tl_rest(1) [of ?t] skip_space_rest [of "tl ?t"] by auto
    let ?rest = "\<lambda>x t. let t = skip_space t
            in if peek t = 0x7D then Returns (Some ([(chars key, x)], tl t))
               else if peek t \<noteq> 0x2C then Returns None
               else and_then (object_loop value n (skip_space (tl t))) (\<lambda>ms t. Returns (Some ((chars key, x) # ms, t)))"
    have "ends members_ok s (and_then (value ?u) ?rest)"
    proof (rule ends_and_then)
      show "ends tree_ok s (value ?u)"
      proof (rule ends_longer)
        show "ends tree_ok ?u (value ?u)" by (rule assms [OF u(1)]) (use u(2) l(2) Suc.prems(2) in linarith)
        show "length ?u \<le> length s" using u(2) l(2) by linarith
      qed
      fix x and v :: cstring assume v: "tree_ok x" "0 \<notin> set v" "length v < length s"
      let ?v = "skip_space v" and ?w = "skip_space (tl (skip_space v))"
      have vl: "0 \<notin> set ?v" "length ?v < length s" using skip_space_rest [of v] v by auto
      show "ends members_ok s (?rest x v)"
      proof (cases "peek ?v = 0x2C")
        case True
        then have w: "0 \<notin> set ?w" "length ?w < length ?v"
          using vl tl_rest [of ?v] skip_space_rest [of "tl ?v"] by auto
        then have "ends members_ok ?w (object_loop value n ?w)"
          using Suc.IH [of ?w] Suc.prems vl(2) by simp
        then have "ends members_ok s (object_loop value n ?w)"
          by (rule ends_longer) (use w vl in simp)
        then have "ends members_ok s (and_then (object_loop value n ?w) (\<lambda>ms t. Returns (Some ((chars key, x) # ms, t))))"
          by (rule ends_and_then) (use t(1) v(1) in auto)
        then show ?thesis using True by (simp add: Let_def)
      qed (use vl v(1) t(1) tl_rest [of ?v] in \<open>auto simp: Let_def\<close>)
    qed
    then show "ends members_ok s (let t = skip_space t
       in if peek t \<noteq> 0x3A then Returns None else and_then (value (skip_space (tl t))) ?rest)"
      by (simp add: Let_def)
  qed
qed simp

lemma parse_value_ends: "0 \<notin> set s \<Longrightarrow> length s < f \<Longrightarrow> ends tree_ok s (parse_value r f s)"
proof (induction f arbitrary: s)
  case (Suc f)
  let ?t = "skip_space (tl s)"
  have t: "0 \<notin> set ?t" "length ?t \<le> length s"
    using Suc.prems(1) tl_rest(1) [of s] skip_space_rest [of "tl s"] by auto
  have vals: "0 \<notin> set u \<Longrightarrow> length u < f \<Longrightarrow> ends tree_ok u (parse_value r f u)" for u by (rule Suc.IH)
  have fin: "0 \<notin> set (tl ?t) \<and> length (tl ?t) < length s" if "peek s \<noteq> 0"
    using that t tl_rest [of s] tl_rest(1) [of ?t] skip_space_rest [of "tl s"] by (cases ?t) auto
  have arr: "ends tree_ok s (parse_array (parse_value r f) s)"
  proof (cases "peek s = 0x5B")
    case True
    then have lt: "length ?t < length s" using tl_rest(2) [of s] skip_space_rest(1) [of "tl s"] by simp
    have "ends (\<lambda>xs. \<forall>x\<in>set xs. tree_ok x) ?t (array_loop (parse_value r f) (length ?t + 1) ?t)"
      using array_loop_ends [of f "parse_value r f" ?t "length ?t + 1"] vals t(1) lt Suc.prems(2) by auto
    then have "ends (\<lambda>xs. \<forall>x\<in>set xs. tree_ok x) s (array_loop (parse_value r f) (length ?t + 1) ?t)"
      by (rule ends_longer) (rule t(2))
    then have "ends tree_ok s (and_then (array_loop (parse_value r f) (length ?t + 1) ?t) (\<lambda>xs t. Returns (Some (JSON_ARRAY xs, t))))"
      by (rule ends_and_then) auto
    then show ?thesis using True fin by (simp add: parse_array_def Let_def)
  qed (simp add: parse_array_def)
  have obj: "ends tree_ok s (parse_object (parse_value r f) s)"
  proof (cases "peek s = 0x7B")
    case True
    then have lt: "length ?t < length s" using tl_rest(2) [of s] skip_space_rest(1) [of "tl s"] by simp
    have "ends members_ok ?t (object_loop (parse_value r f) (length ?t + 1) ?t)"
      using object_loop_ends [of f "parse_value r f" ?t "length ?t + 1"] vals t(1) lt Suc.prems(2) by auto
    then have "ends members_ok s (object_loop (parse_value r f) (length ?t + 1) ?t)"
      by (rule ends_longer) (rule t(2))
    then have "ends tree_ok s (and_then (object_loop (parse_value r f) (length ?t + 1) ?t) (\<lambda>ms t. Returns (Some (JSON_OBJECT ms, t))))"
      by (rule ends_and_then) auto
    then show ?thesis using True fin by (simp add: parse_object_def Let_def)
  qed (simp add: parse_object_def)
  have lit: "ends tree_ok s (Returns (expect_literal s l j))" if "l \<noteq> []" "tree_ok j" for l j
    using that Suc.prems(1) by (cases s) (auto simp: ends_def expect_literal_def bytes_def dest: in_set_dropD split: if_splits)
  have str: "ends tree_ok s (Returns (map_option (\<lambda>(b, t). (JSON_STRING (chars b), t)) (parse_string s)))"
    using parse_string_valid [of s] Suc.prems(1) by (auto simp: ends_def)
  have num: "ends tree_ok s (Returns (map_option (\<lambda>(x, t). (JSON_NUMBER x, t)) (parse_number r s)))"
    using scan_number_rest [of s] Suc.prems(1) by (auto simp: ends_def parse_number_def)
  show ?case using lit arr obj str num by (simp add: Let_def)
qed simp

lemma json_decode_ends:
  assumes "0 \<notin> set s"
  shows "\<exists>x. json_decode r s = Returns x \<and> (\<forall>j. x = Some j \<longrightarrow> tree_ok j)"
proof -
  have "ends tree_ok (skip_space s) (parse_value r (length (skip_space s) + 1) (skip_space s))"
    by (rule parse_value_ends) (simp_all add: skip_space_rest(2) [OF assms])
  then obtain x where x: "parse_value r (length (skip_space s) + 1) (skip_space s) = Returns x"
    "\<forall>a t. x = Some (a, t) \<longrightarrow> tree_ok a" by (auto simp: ends_def)
  show ?thesis
  proof (cases x)
    case (Some y)
    then show ?thesis using x by (cases y) (simp add: json_decode_def Let_def del: parse_value.simps)
  qed (use x in \<open>simp add: json_decode_def Let_def del: parse_value.simps\<close>)
qed

lemma tree_ok_emitted:
  shows "tree_ok j \<Longrightarrow> \<exists>b. emit_value j = Some b"
    and "\<forall>x\<in>set xs. tree_ok x \<Longrightarrow> \<exists>b. emit_elements xs = Some b"
    and "members_ok ms \<Longrightarrow> \<exists>b. emit_members ms = Some b"
proof (induction j and xs and ms rule: emit_value_emit_elements_emit_members.induct)
  case (10 k x ms)
  then obtain a b c where "put_string k = Some a" "emit_value x = Some b" "emit_members ms = Some c"
    using put_string_ok [of k] by auto
  then show ?case by simp
qed (use put_string_ok in auto)

lemma tree_ok_emitted_indented:
  shows "tree_ok j \<Longrightarrow> \<exists>b. emit_value_indented sp l j = Some b"
    and "\<forall>x\<in>set xs. tree_ok x \<Longrightarrow> \<exists>b. emit_elements_indented sp l xs = Some b"
    and "members_ok ms \<Longrightarrow> \<exists>b. emit_members_indented sp l ms = Some b"
proof (induction sp l j and sp l xs and sp l ms rule: emit_value_indented_emit_elements_indented_emit_members_indented.induct)
  case (10 sp l k x ms)
  then obtain a b c where "put_string k = Some a" "emit_value_indented sp (l + 1) x = Some b"
    "emit_members_indented sp l ms = Some c"
    using put_string_ok [of k] by auto
  then show ?case by simp
qed (use put_string_ok in auto)

lemma tree_ok_stringify: "tree_ok j \<Longrightarrow> \<exists>t. json_stringify j space = Returns t"
proof (cases space)
  case (Some sp)
  assume "tree_ok j"
  then obtain b where "emit_value_indented sp 0 j = Some b" using tree_ok_emitted_indented(1) by blast
  then show ?thesis using Some by (simp add: json_stringify_def)
next
  case None
  assume "tree_ok j"
  then obtain b where "emit_value j = Some b" using tree_ok_emitted(1) by blast
  then show ?thesis using None by (simp add: json_stringify_def)
qed

lemma renders_decode:
  assumes "rounds r" and "renders j b" and "white v" and "white w"
  shows "json_decode r (v @ b @ w) = Returns (Some j)"
proof -
  have "delimited w" using assms(4) by (cases w) (auto simp: delimited_def white_def is_space_def)
  moreover have "skip_space (v @ b @ w) = b @ w"
    using renders_start(1) [OF assms(2), of w] skip_white [OF assms(3)] by simp
  moreover have "skip_space w = []" using assms(4) by (simp add: white_def skip_space_def)
  ultimately show ?thesis
    using renders_read(1) [OF assms(1,2), of w "length (b @ w) + 1"]
    by (simp add: json_decode_def Let_def del: parse_value.simps)
qed

lemma stringify_renders:
  assumes "printable j" and "\<forall>sp. space = Some sp \<longrightarrow> white sp"
  shows "\<exists>t. json_stringify j space = Returns t \<and> renders j t"
proof (cases space)
  case None
  then show ?thesis using emit_renders(1) [OF assms(1)] by (auto simp: json_stringify_def)
next
  case (Some sp)
  then show ?thesis using emit_indented_renders(1) [of sp j 0] assms by (auto simp: json_stringify_def)
qed

lemma put_string_no_nul: "string_ok s \<Longrightarrow> put_string s = Some b \<Longrightarrow> 0 \<notin> set b"
  using emit_loop_no_nul [of False "bytes s"]
  by (auto simp: string_ok_def valid_string_def put_string_def emit_string_def split: if_splits)

lemma int_no_nul: "0 \<notin> set (bytes (dec_int k))"
proof -
  have "digit_byte d \<noteq> 0" if "d < 10" for d using unat_digit_byte [OF that] by auto
  then have "0 \<notin> set (bytes (dec n))" for n using digits_lt [of n] by (force simp: bytes_dec)
  then show ?thesis by (simp add: bytes_dec_int)
qed

lemma renders_no_nul:
  "renders j b \<Longrightarrow> 0 \<notin> set b" "renders_elements xs c \<Longrightarrow> 0 \<notin> set c" "renders_members ms d \<Longrightarrow> 0 \<notin> set d"
  by (induction rule: renders_renders_elements_renders_members.inducts)
    (auto simp: bytes_literals put_string_no_nul int_no_nul white_def is_space_def)

section \<open>Properties\<close>

text \<open>
  Round trip: a tree whose strings are valid UTF-8 without NUL and without the byte \<open>0x1F\<close> and
  whose numbers are integers of at most \<open>2 ^ 53\<close>, printed compactly or indented by any white
  space, is read back as the same tree, also with white space before and after it.
\<close>
theorem json_decode_stringify:
  assumes "rounds r" and "printable j" and "\<forall>sp. space = Some sp \<longrightarrow> white sp" and "white v" and "white w"
  shows "\<exists>t. json_stringify j space = Returns t \<and> json_decode r (v @ t @ w) = Returns (Some j)"
  using stringify_renders [OF assms(2,3)] renders_decode [OF assms(1) _ assms(4,5)] by auto

text \<open>
  Reading any text ends, within one level of the descent and one turn of a loop for each byte. When
  it gives a tree, every string in it is valid UTF-8 without a NUL, whatever escapes it was written
  with, so that printing it fails no assertion.
\<close>
theorem json_decode_total:
  assumes "0 \<notin> set s"
  shows "json_decode r s = Returns None \<or>
    (\<exists>j. json_decode r s = Returns (Some j) \<and> tree_ok j \<and> (\<forall>space. \<exists>t. json_stringify j space = Returns t))"
  using json_decode_ends [OF assms, of r] tree_ok_stringify by (metis option.exhaust)

text \<open>
  The printer writes the byte \<open>0x1F\<close> as it is (\<open>c < 0x1F\<close> is what it escapes), the reader
  refuses it (\<open>c \<le> 0x1F\<close>): a string is read back exactly when it does not contain it.
\<close>
theorem json_unit_separator_lost:
  assumes "valid_string b"
  shows "\<exists>t. json_encode (JSON_STRING (chars b)) = Returns t \<and>
    json_decode r t = Returns (if 0x1F \<in> set b then None else Some (JSON_STRING (chars b)))"
proof -
  obtain t where t: "put_string (chars b) = Some t" using put_string_ok [of "chars b"] assms by auto
  then have e: "emit_string False b = Some t" by (simp add: put_string_def)
  have p: "peek t = 0x22" using put_string_start(2) [OF t, of "[]"] by simp
  then have "skip_space t = t" by (cases t) (auto simp: skip_space_def is_space_def)
  moreover have "parse_string t = (if 0x1F \<in> set b then None else Some (b, []))"
    using parse_emitted_string [OF e, of "[]"] assms by (simp add: valid_string_def)
  ultimately have "json_decode r t = Returns (if 0x1F \<in> set b then None else Some (JSON_STRING (chars b)))"
    using p by (simp add: json_decode_def Let_def skip_space_def)
  then show ?thesis using t by (simp add: json_encode_def json_stringify_def)
qed

lemma ascii_valid: "\<forall>c\<in>set b. 0x20 \<le> c \<and> c \<le> 0x7E \<Longrightarrow> valid_string b \<and> 0x1F \<notin> set b"
proof (induction b)
  case (Cons c b)
  then have "utf8_validate_cz (c # b) = 1" by (auto simp: utf8_validate_cz_def Let_def word_le_nat_alt)
  then show ?case using Cons by (auto simp: valid_string_def utf8_validate.simps [of "c # b"])
qed (simp add: valid_string_def utf8_validate.simps)

theorem json_decode_stringify_witness:
  "\<exists>t. json_stringify (JSON_OBJECT [(''a'', JSON_ARRAY [JSON_NUMBER (Fin (- 7)), JSON_STRING ''x'', JSON_NULL])]) (Some [32, 32]) = Returns t \<and>
    json_decode Fin ([10] @ t @ []) =
      Returns (Some (JSON_OBJECT [(''a'', JSON_ARRAY [JSON_NUMBER (Fin (- 7)), JSON_STRING ''x'', JSON_NULL])]))"
proof (rule json_decode_stringify)
  have "string_ok ''a''" "string_ok ''x''"
    using ascii_valid [of "bytes ''a''"] ascii_valid [of "bytes ''x''"] by (simp_all add: string_ok_def bytes_def of_char_def)
  then show "printable (JSON_OBJECT [(''a'', JSON_ARRAY [JSON_NUMBER (Fin (- 7)), JSON_STRING ''x'', JSON_NULL])])"
    using exI [of "\<lambda>k :: int. \<bar>k\<bar> \<le> 2 ^ 53 \<and> (- 7 :: real) = of_int k" "- 7"] by simp
qed (simp_all add: rounds_Fin)

theorem json_decode_total_witness:
  "json_decode Fin [0x5B, 0x22, 0x5C, 0x62, 0x22] = Returns None \<or>
    (\<exists>j. json_decode Fin [0x5B, 0x22, 0x5C, 0x62, 0x22] = Returns (Some j) \<and> tree_ok j \<and>
      (\<forall>space. \<exists>t. json_stringify j space = Returns t))"
  by (rule json_decode_total) simp

theorem json_unit_separator_lost_witness:
  "\<exists>t. json_encode (JSON_STRING (chars [0x61, 0x1F])) = Returns t \<and> json_decode Fin t = Returns None"
proof -
  have "valid_string [0x61, 0x1F]" by (simp add: valid_string_def utf8_validate.simps utf8_validate_cz_def)
  from json_unit_separator_lost [OF this, of Fin] show ?thesis by simp
qed

end
