(* ===== verification/EventGraphJson.thy ===== *)
theory EventGraphJson imports JsonText begin

text \<open>
  The JSON form of an event graph and its loader (\<open>json_to_u64\<close>, \<open>json_to_ll\<close>,
  \<open>json_to_i32\<close>, \<open>eg_graph_from_json_node\<close>, \<open>eg_serialize_json\<close> and
  \<open>eg_deserialize_json_mem\<close> in \<^verbatim>\<open>eg.c\<close>), over the trees and texts of \<open>JsonText\<close>:
  every lookup, conversion and check of the code, with the behaviour on members that are missing
  or of the wrong type. Writing the text to the file is left out.
\<close>

section \<open>Conversions\<close>

definition find_member :: "json \<Rightarrow> string \<Rightarrow> json option" where
  "find_member j name = (case j of JSON_OBJECT ms \<Rightarrow> map_of ms name | _ \<Rightarrow> None)"

definition find_element :: "json \<Rightarrow> nat \<Rightarrow> json option" where
  "find_element j i = (case j of JSON_ARRAY xs \<Rightarrow> (if i < length xs then Some (xs ! i) else None) | _ \<Rightarrow> None)"

text \<open>
  The member \<open>string_\<close> of the union, whatever the tag says: NULL for the values whose bits are
  all 0, and otherwise, when the value is no string, an address that no code may use. The member
  \<open>number_\<close> of anything but a number is 0 or a denormal number, 0 after every conversion.
\<close>

fun string_member :: "json \<Rightarrow> string option outcome" where
  "string_member (JSON_STRING s) = Returns (Some s)"
| "string_member JSON_NULL = Returns None"
| "string_member (JSON_BOOL b) = (if b then Exits UNDEFINED else Returns None)"
| "string_member (JSON_NUMBER x) = (if x = Fin 0 then Returns None else Exits UNDEFINED)"
| "string_member (JSON_ARRAY xs) = (if xs = [] then Returns None else Exits UNDEFINED)"
| "string_member (JSON_OBJECT ms) = (if ms = [] then Returns None else Exits UNDEFINED)"

fun number_member :: "json \<Rightarrow> double" where
  "number_member (JSON_NUMBER x) = x"
| "number_member j = Fin 0"

text \<open>
  A double converted to an integer, as compilers do it on x86-64: toward zero, the most negative
  integer for what does not fit. The unsigned conversion subtracts \<open>2 ^ 63\<close> first from what is
  not below it.
\<close>

definition truncated :: "real \<Rightarrow> int" where
  "truncated x = (if x < 0 then \<lceil>x\<rceil> else \<lfloor>x\<rfloor>)"

definition double_to_s64 :: "double \<Rightarrow> s64" where
  "double_to_s64 x =
     (case x of Fin a \<Rightarrow> (if - (2 ^ 63) \<le> truncated a \<and> truncated a < 2 ^ 63 then of_int (truncated a) else 2 ^ 63)
      | _ \<Rightarrow> 2 ^ 63)"

definition double_to_s32 :: "double \<Rightarrow> s32" where
  "double_to_s32 x =
     (case x of Fin a \<Rightarrow> (if - (2 ^ 31) \<le> truncated a \<and> truncated a < 2 ^ 31 then of_int (truncated a) else 2 ^ 31)
      | _ \<Rightarrow> 2 ^ 31)"

definition double_to_u64 :: "double \<Rightarrow> u64" where
  "double_to_u64 x =
     (if Fin (2 ^ 63) \<le> x then (case x of Fin a \<Rightarrow> double_to_s64 (Fin (a - 2 ^ 63)) | _ \<Rightarrow> 2 ^ 63) XOR 2 ^ 63
      else double_to_s64 x)"

definition json_to_u64 :: "json option \<Rightarrow> u64 \<Rightarrow> u64" where
  "json_to_u64 node fallback =
     (case node of Some (JSON_NUMBER x) \<Rightarrow> double_to_u64 x
      | Some (JSON_STRING s) \<Rightarrow> fst (strtoull (bytes s))
      | _ \<Rightarrow> fallback)"

definition json_to_ll :: "json option \<Rightarrow> s64 \<Rightarrow> s64" where
  "json_to_ll node fallback =
     (case node of Some (JSON_NUMBER x) \<Rightarrow> double_to_s64 x
      | Some (JSON_STRING s) \<Rightarrow>
          (case scan_integer (bytes s) of None \<Rightarrow> fallback
           | Some (neg, v, rest) \<Rightarrow> (if 2 ^ 64 \<le> v \<or> rest \<noteq> [] then fallback else fst (strtoull (bytes s))))
      | _ \<Rightarrow> fallback)"

definition json_to_i32 :: "json option \<Rightarrow> s32 \<Rightarrow> s32" where
  "json_to_i32 node fallback =
     (case node of Some (JSON_NUMBER x) \<Rightarrow> double_to_s32 x
      | Some (JSON_STRING s) \<Rightarrow> ucast (fst (strtol (bytes s)))
      | _ \<Rightarrow> fallback)"

section \<open>The loader\<close>

definition DEFAULT_VISIT_ID :: s32 where "DEFAULT_VISIT_ID = 1"

text \<open>
  One event. The graph is \<open>None\<close> when \<open>eg_create\<close> found no memory: then the lookups
  find nothing and nothing is added, but the count of its nodes is read where the event has no
  identifier. An event whose key is taken must repeat the kind and the location of the first.
\<close>

definition json_kind :: "json \<Rightarrow> s32 outcome" where
  "json_kind n =
     (case find_member n ''kind'' of
        None \<Rightarrow> Returns (eg_string_to_type (Some ''Unknown''))
      | Some j \<Rightarrow> bind_outcome (string_member j) (\<lambda>s. Returns (eg_string_to_type s)))"

definition json_loc :: "json \<Rightarrow> string option outcome" where
  "json_loc n = (case find_member n ''loc'' of None \<Rightarrow> Returns (Some []) | Some j \<Rightarrow> string_member j)"

definition json_loc_id :: "json \<Rightarrow> u64" where
  "json_loc_id n =
     (case find_member n ''loc_id'' of None \<Rightarrow> 0
      | Some (JSON_STRING s) \<Rightarrow> parse_field_sensitive_loc_id (Some (bytes s))
      | Some j \<Rightarrow> json_to_u64 (Some j) 0)"

definition json_node_key :: "json \<Rightarrow> dyn_key" where
  "json_node_key n =
     (json_to_u64 (find_member n ''thread_id'') 0, json_to_ll (find_member n ''instruction_id'') 0,
      json_to_i32 (find_member n ''visit_id'') DEFAULT_VISIT_ID)"

definition json_value :: "json \<Rightarrow> s64" where
  "json_value n = (case find_member n ''value'' of None \<Rightarrow> - 1 | Some j \<Rightarrow> double_to_s64 (number_member j))"

definition json_event_id :: "eg_graph option \<Rightarrow> json \<Rightarrow> u64 outcome" where
  "json_event_id g n =
     (case find_member n ''event_id'' of
        Some j \<Rightarrow> Returns (json_to_u64 (Some j) 0)
      | None \<Rightarrow> (case g of None \<Rightarrow> Exits SEGFAULT | Some g \<Rightarrow> Returns (of_nat (length (eg_nodes g)) + 1)))"

definition load_json_node :: "eg_memory \<Rightarrow> json \<Rightarrow> eg_graph option \<Rightarrow> eg_graph option outcome" where
  "load_json_node mem n g =
     bind_outcome (json_event_id g n) (\<lambda>eid.
     bind_outcome (json_kind n) (\<lambda>new_type.
       if new_type = - 1 then Exits EXIT_INVALID_INPUT
       else case g of None \<Rightarrow> Returns None
       | Some g \<Rightarrow>
           bind_outcome (eg_find_node_by_dynamic g (json_node_key n)) (\<lambda>existing.
           bind_outcome (json_loc n) (\<lambda>loc.
             case existing of
               Some x \<Rightarrow>
                 (if n_type x \<noteq> new_type then Exits EXIT_INVALID_INPUT
                  else case loc of None \<Rightarrow> Exits SEGFAULT
                  | Some l \<Rightarrow> (if n_location x \<noteq> bytes l then Exits EXIT_INVALID_INPUT else Returns (Some g)))
             | None \<Rightarrow>
                 bind_outcome (eg_add_node mem g eid (json_node_key n) (json_loc_id n) new_type
                   (map_option bytes loc) (json_value n)) (\<lambda>g. Returns (Some g))))))"

text \<open>
  The node an end of an edge names: by its key in an array of two or three, by its identifier
  in a number or a string. A key must exist; an identifier is taken as it is, and \<open>dflt\<close> is
  the identifier of anything else.
\<close>

definition json_pair_key :: "json \<Rightarrow> dyn_key option" where
  "json_pair_key j =
     (case (find_element j 0, find_element j 1) of
        (Some t, Some i) \<Rightarrow>
          Some (json_to_u64 (Some t) 0, json_to_ll (Some i) 0, json_to_i32 (find_element j 2) DEFAULT_VISIT_ID)
      | _ \<Rightarrow> None)"

definition edge_end :: "eg_graph \<Rightarrow> u64 \<Rightarrow> json option \<Rightarrow> u64 outcome" where
  "edge_end g dflt j =
     (case j of
        Some (JSON_ARRAY xs) \<Rightarrow>
          (case json_pair_key (JSON_ARRAY xs) of None \<Rightarrow> Returns dflt
           | Some k \<Rightarrow>
               bind_outcome (eg_find_node_by_dynamic g k) (\<lambda>n.
                 case n of None \<Rightarrow> Exits EXIT_EVENT_NOT_FOUND | Some n \<Rightarrow> Returns (n_id n)))
      | Some (JSON_NUMBER x) \<Rightarrow> Returns (json_to_u64 j (- 1))
      | Some (JSON_STRING s) \<Rightarrow> Returns (json_to_u64 j (- 1))
      | _ \<Rightarrow> Returns dflt)"

definition load_json_target :: "eg_memory \<Rightarrow> u64 \<Rightarrow> json \<Rightarrow> eg_graph \<Rightarrow> eg_graph outcome" where
  "load_json_target mem write_id item g =
     bind_outcome (edge_end g 0 (Some item)) (\<lambda>read_id.
       if write_id \<noteq> - 1 \<and> read_id \<noteq> - 1
       then (let wn = eg_find_node_by_id g write_id; rn = eg_find_node_by_id g read_id
             in if (case wn of None \<Rightarrow> False | Some n \<Rightarrow> \<not> eg_is_write_like (n_type n)) then Exits EXIT_RF_TYPE_MISMATCH
                else if (case rn of None \<Rightarrow> False | Some n \<Rightarrow> \<not> eg_is_read_like (n_type n)) then Exits EXIT_RF_TYPE_MISMATCH
                else eg_add_edge_rf mem g write_id read_id)
       else Returns g)"

definition load_json_edge :: "eg_memory \<Rightarrow> json \<Rightarrow> eg_graph \<Rightarrow> eg_graph outcome" where
  "load_json_edge mem e g =
     bind_outcome (edge_end g (- 1) (find_member e ''from'')) (\<lambda>write_id.
       case find_member e ''to'' of
         Some (JSON_ARRAY to_list) \<Rightarrow> fold_outcome (load_json_target mem write_id) to_list g
       | _ \<Rightarrow> Returns g)"

definition elements :: "json option \<Rightarrow> json list" where
  "elements j = (case j of Some (JSON_ARRAY xs) \<Rightarrow> xs | _ \<Rightarrow> [])"

text \<open>
  The whole loader. Without a graph the check of the compare-and-swaps reads through NULL.
\<close>

definition eg_graph_from_json_node :: "eg_memory \<Rightarrow> json \<Rightarrow> eg_graph option outcome" where
  "eg_graph_from_json_node mem tree =
     bind_outcome (fold_outcome (load_json_node mem) (elements (find_member tree ''nodes'')) (eg_create mem)) (\<lambda>g.
       case g of None \<Rightarrow> Exits SEGFAULT
       | Some g \<Rightarrow>
           bind_outcome (eg_validate_cas_resolved g) (\<lambda>_.
           bind_outcome (fold_outcome (load_json_edge mem) (elements (find_member tree ''rf_edges'')) g) (\<lambda>g.
           bind_outcome (eg_validate_read_nodes_have_rf g) (\<lambda>_. Returns (Some g)))))"

text \<open>The text is copied and ends at its first NUL.\<close>

definition eg_deserialize_json_mem ::
    "rounding \<Rightarrow> bool \<Rightarrow> eg_memory \<Rightarrow> u8 list option \<Rightarrow> eg_graph option outcome" where
  "eg_deserialize_json_mem r grants_copy mem buf =
     (case buf of None \<Rightarrow> Returns None
      | Some b \<Rightarrow>
          (if b = [] then Returns None
           else if \<not> grants_copy then Returns None
           else bind_outcome (json_decode r (takeWhile (\<lambda>c. c \<noteq> 0) b)) (\<lambda>root.
             case root of None \<Rightarrow> Returns None | Some tree \<Rightarrow> eg_graph_from_json_node mem tree)))"

text \<open>The dispatch between the two formats: a text never starts with the magic number.\<close>

definition eg_deserialize_mem ::
    "rounding \<Rightarrow> bool \<Rightarrow> eg_memory \<Rightarrow> u8 list option \<Rightarrow> eg_graph option outcome" where
  "eg_deserialize_mem r grants_copy mem buf =
     (case buf of None \<Rightarrow> Returns None
      | Some b \<Rightarrow>
          (if b = [] then Returns None
           else if 4 \<le> length b \<and> (of_nat (field b 0 4) :: u32) = EG_BIN_MAGIC
           then eg_deserialize_binary_mem mem b else eg_deserialize_json_mem r grants_copy mem buf))"

section \<open>The writer\<close>

definition key_array :: "u64 \<Rightarrow> s64 \<Rightarrow> s32 \<Rightarrow> json" where
  "key_array tid iid vid =
     JSON_ARRAY [JSON_STRING (dec (unat tid)), JSON_STRING (dec_int (sint iid)), JSON_STRING (dec_int (sint vid))]"

definition eg_mk_tid_id_pair :: "eg_graph \<Rightarrow> u64 \<Rightarrow> json" where
  "eg_mk_tid_id_pair g eid =
     (case eg_find_node_by_id g eid of
        None \<Rightarrow> key_array 0 0 (- 1)
      | Some n \<Rightarrow> key_array (n_tid n) (n_iid n) (n_vid n))"

definition eg_cmp_rf_edges :: "eg_edge \<Rightarrow> eg_edge \<Rightarrow> int" where
  "eg_cmp_rf_edges a b =
     (if src_id a < src_id b then - 1 else if src_id b < src_id a then 1
      else if dst_id a < dst_id b then - 1 else if dst_id b < dst_id a then 1 else 0)"

definition node_json :: "rounding \<Rightarrow> eg_node \<Rightarrow> json" where
  "node_json r n =
     JSON_OBJECT
      [(''event_id'', JSON_STRING (dec (unat (n_id n)))),
       (''thread_id'', JSON_STRING (dec (unat (n_tid n)))),
       (''kind'', JSON_STRING (eg_type_to_string (n_type n))),
       (''loc_id'', JSON_STRING (dec (unat (n_loc_id n)))),
       (''value'', JSON_NUMBER (r (real_of_int (sint (n_value n))))),
       (''instruction_id'', JSON_STRING (dec_int (sint (n_iid n)))),
       (''visit_id'', JSON_STRING (dec_int (sint (n_vid n)))),
       (''access_mode'', JSON_STRING ''RLX'')]"

function group_edges :: "eg_graph \<Rightarrow> eg_edge list \<Rightarrow> json list" where
  "group_edges g [] = []"
| "group_edges g (e # es) =
     JSON_OBJECT
      [(''from'', eg_mk_tid_id_pair g (src_id e)),
       (''to'', JSON_ARRAY (map (\<lambda>x. eg_mk_tid_id_pair g (dst_id x)) (e # takeWhile (\<lambda>x. src_id x = src_id e) es)))]
     # group_edges g (dropWhile (\<lambda>x. src_id x = src_id e) es)"
  by pat_completeness auto
termination by (relation "measure (\<lambda>(g, es). length es)") (auto simp: le_imp_less_Suc length_dropWhile_le)

text \<open>Without memory for the sorted copy the edges are left out.\<close>

definition eg_json_tree :: "rounding \<Rightarrow> bool \<Rightarrow> eg_graph \<Rightarrow> json" where
  "eg_json_tree r grants_sorted g =
     JSON_OBJECT
      [(''nodes'', JSON_ARRAY (map (node_json r) (eg_nodes g))),
       (''rf_edges'', JSON_ARRAY (if grants_sorted then group_edges g (qsort eg_cmp_rf_edges (rf_edges g)) else []))]"

definition eg_serialize_json :: "rounding \<Rightarrow> bool \<Rightarrow> eg_graph \<Rightarrow> cstring outcome" where
  "eg_serialize_json r grants_sorted g = json_stringify (eg_json_tree r grants_sorted g) (Some [32, 32])"

section \<open>Numbers read back\<close>

lemma scan_digits:
  assumes "neg \<longrightarrow> c = 45" and "bs = (if neg then c # map digit_byte (digits n) else map digit_byte (digits n))"
  shows "scan_integer bs = Some (neg, n, [])"
proof -
  let ?ds = "map digit_byte (digits n)"
  obtain d ds where d: "digits n = d # ds" using digits_ne [of n] by (cases "digits n") auto
  have lt: "d < 10" "\<forall>d\<in>set ds. d < 10" using digits_lt [of n] d by auto
  note f = digit_byte_facts [OF lt(1)]
  have "dropWhile isspace_u8 bs = bs" using assms d f by (auto simp: isspace_u8_def)
  moreover have "(bs \<noteq> [] \<and> hd bs = 45) = neg" using assms d f by auto
  moreover have "(if bs \<noteq> [] \<and> (hd bs = 45 \<or> hd bs = 43) then tl bs else bs) = ?ds" using assms d f by auto
  moreover have nohex: "\<not> (3 \<le> length ?ds \<and> ?ds ! 0 = 48 \<and> (?ds ! 1 = 120 \<or> ?ds ! 1 = 88) \<and> is_digit 16 (?ds ! 2))"
    using digit_byte_facts(6,7) lt(2) d by (cases ds) auto
  moreover have "?ds \<noteq> []" using d by simp
  moreover have "takeWhile (is_digit (if ?ds \<noteq> [] \<and> hd ?ds = 48 then 8 else 10)) ?ds = ?ds"
  proof (cases "d = 0")
    case True
    then have "n = 0" using digits_hd [of n] d by simp
    then show ?thesis by (simp add: digit_byte_def is_digit_def digit_value_def)
  next
    case False
    then show ?thesis using f lt digit_byte_facts(1) d by (simp add: takeWhile_eq_all_conv)
  qed
  moreover have "foldl (\<lambda>a c. a * (if ?ds \<noteq> [] \<and> hd ?ds = 48 then 8 else 10) + the (digit_value c)) 0 ?ds = n"
  proof (cases "d = 0")
    case True
    then have "n = 0" using digits_hd [of n] d by simp
    then show ?thesis by (simp add: digit_byte_def digit_value_def)
  next
    case False
    then have "hd ?ds \<noteq> 48" using f d by simp
    then show ?thesis using foldl_digit_bytes [OF digits_lt] digits_value by simp
  qed
  ultimately show ?thesis unfolding scan_integer_def Let_def by (simp only: if_False) simp
qed

lemma scan_dec: "scan_integer (bytes (dec n)) = Some (False, n, [])"
  by (rule scan_digits) (auto simp: bytes_dec)

lemma scan_dec_int: "scan_integer (bytes (dec_int i)) = Some (i < 0, nat \<bar>i\<bar>, [])"
  using scan_digits [of "i < 0" 45] by (auto simp: bytes_dec_int bytes_dec)

lemma u64_dec [simp]: "json_to_u64 (Some (JSON_STRING (dec (unat x)))) d = x"
  using unsigned_less [of x, where 'a = nat] by (simp add: json_to_u64_def strtoull_def scan_dec)

lemma sint_abs: "nat \<bar>sint (x :: s64)\<bar> < 2 ^ 64"
  using sint_ge [of x] sint_lt [of x] by auto

lemma word_of_abs: "(if i < 0 then - of_nat (nat \<bar>i\<bar>) else of_nat (nat \<bar>i\<bar>)) = (of_int i :: 'a::ring_1)"
  by auto

lemma ll_dec [simp]: "json_to_ll (Some (JSON_STRING (dec_int (sint x)))) d = x"
  using sint_abs [of x] word_of_abs [of "sint x", where 'a = "64 word"]
  by (simp add: json_to_ll_def strtoull_def scan_dec_int)

lemma i32_dec [simp]: "json_to_i32 (Some (JSON_STRING (dec_int (sint x)))) d = x"
proof -
  have "fst (strtol (bytes (dec_int (sint x)))) = (of_int (sint x) :: 64 word)"
    using sint_ge [of x] sint_lt [of x] by (cases "sint x < 0") (auto simp: strtol_def scan_dec_int)
  moreover have "ucast (of_int (sint x) :: 64 word) = x"
    by (rule bit_word_eqI) (auto simp: bit_simps)
  ultimately show ?thesis by (simp add: json_to_i32_def)
qed

lemma loc_id_dec [simp]: "parse_field_sensitive_loc_id (Some (bytes (dec (unat x)))) = x"
  using unsigned_less [of x, where 'a = nat]
  by (simp add: parse_field_sensitive_loc_id_def strtoull_def scan_dec field_index_tag_def)

lemma value_read_back:
  assumes "rounds r" and "\<bar>sint x\<bar> \<le> 2 ^ 53"
  shows "double_to_s64 (r (real_of_int (sint x))) = x"
proof -
  have "truncated (real_of_int (sint x)) = sint x" by (simp add: truncated_def del: of_int_sint)
  then show ?thesis
    using rounds_int [OF assms] sint_ge [of x] sint_lt [of x] by (simp add: double_to_s64_def del: of_int_sint) simp
qed

section \<open>A graph read back\<close>

text \<open>What the writer keeps of a node, and the graphs that are read back.\<close>

definition reloaded :: "eg_node \<Rightarrow> eg_node" where
  "reloaded n = n\<lparr>n_location := []\<rparr>"

definition storable :: "eg_graph \<Rightarrow> bool" where
  "storable g \<longleftrightarrow>
     distinct (map node_key (eg_nodes g)) \<and> distinct (map n_id (eg_nodes g)) \<and>
     length (eg_nodes g) < 2 ^ 27 \<and> length (rf_edges g) < 2 ^ 30 \<and>
     list_all (\<lambda>n. n_id n \<noteq> - 1 \<and> \<bar>sint (n_value n)\<bar> \<le> 2 ^ 53 \<and>
       n_type n \<in> {EG_OP_READ, EG_OP_WRITE, EG_OP_RMW, EG_OP_FENCE, EG_OP_CAS_SUCCESS, EG_OP_CAS_FAIL} \<and>
       (eg_is_read_like (n_type n) \<longrightarrow> list_ex (\<lambda>e. dst_id e = n_id n) (rf_edges g))) (eg_nodes g) \<and>
     list_all (edge_ok (eg_nodes g)) (rf_edges g)"

lemma reloaded_simps [simp]:
  "node_key (reloaded n) = node_key n" "n_id (reloaded n) = n_id n" "n_type (reloaded n) = n_type n"
  by (simp_all add: reloaded_def node_key_def)

lemma find_unique:
  assumes "distinct (map f xs)" and "x \<in> set xs"
  shows "find (\<lambda>y. f y = f x) xs = Some x"
  using assms by (induction xs) (auto simp: image_iff)

lemma find_reloaded:
  assumes "distinct (map f xs)" and "x \<in> set xs" and "\<And>y. f (reloaded y) = f y"
  shows "find (\<lambda>y. f y = f x) (map reloaded xs) = Some (reloaded x)"
  using assms by (induction xs) (auto simp: image_iff)

lemma load_node_json:
  assumes "graph_inv g" and "length (eg_nodes g) < 2 ^ 30" and "grants_all mem" and "rounds r"
    and "find (\<lambda>x. node_key x = node_key n) (eg_nodes g) = None" and "\<bar>sint (n_value n)\<bar> \<le> 2 ^ 53"
    and "n_type n \<in> {EG_OP_READ, EG_OP_WRITE, EG_OP_RMW, EG_OP_FENCE, EG_OP_CAS_SUCCESS, EG_OP_CAS_FAIL}"
  shows "\<exists>g'. load_json_node mem (node_json r n) (Some g) = Returns (Some g') \<and> graph_inv g' \<and>
    eg_nodes g' = eg_nodes g @ [reloaded n] \<and> rf_edges g' = rf_edges g"
proof -
  let ?c = "(n_id n, node_key n, n_loc_id n, n_type n, Some [], n_value n)"
  have ty: "eg_string_to_type (Some (eg_type_to_string (n_type n))) = n_type n" "n_type n \<noteq> - 1"
    using assms(7) by (auto simp: eg_type_names eg_ops)
  have "json_event_id (Some g) (node_json r n) = Returns (n_id n)"
    "json_kind (node_json r n) = Returns (n_type n)" "json_loc (node_json r n) = Returns (Some [])"
    "json_loc_id (node_json r n) = n_loc_id n" "json_node_key (node_json r n) = node_key n"
    "json_value (node_json r n) = n_value n"
    using ty value_read_back [OF assms(4,6)]
    by (simp_all add: json_event_id_def json_kind_def json_loc_def json_loc_id_def json_node_key_def json_value_def
        node_json_def find_member_def node_key_def del: of_int_sint)
  then have "load_json_node mem (node_json r n) (Some g) = bind_outcome (add_call mem g ?c) (\<lambda>g. Returns (Some g))"
    using ty assms(5) by (simp add: load_json_node_def find_dynamic_first [OF assms(1)] bytes_def)
  moreover have "new_node ?c = reloaded n" by (simp add: node_key_def reloaded_def)
  ultimately show ?thesis using add_call_cases [OF assms(1,2), of mem ?c] assms(3) by auto
qed

lemma load_nodes_json:
  assumes "grants_all mem" and "rounds r" and "graph_inv g" and "eg_nodes g = map reloaded ps" and "rf_edges g = []"
    and "distinct (map node_key (ps @ ns))" and "length ps + length ns < 2 ^ 30"
    and "\<forall>n\<in>set ns. \<bar>sint (n_value n)\<bar> \<le> 2 ^ 53 \<and>
      n_type n \<in> {EG_OP_READ, EG_OP_WRITE, EG_OP_RMW, EG_OP_FENCE, EG_OP_CAS_SUCCESS, EG_OP_CAS_FAIL}"
  shows "\<exists>g'. fold_outcome (load_json_node mem) (map (node_json r) ns) (Some g) = Returns (Some g') \<and> graph_inv g' \<and>
    eg_nodes g' = map reloaded (ps @ ns) \<and> rf_edges g' = []"
  using assms(3-)
proof (induction ns arbitrary: g ps)
  case (Cons n ns)
  have "find (\<lambda>x. node_key x = node_key n) (eg_nodes g) = None"
    using Cons.prems(2,4) by (auto simp: find_None_iff image_iff)
  moreover have "length (eg_nodes g) < 2 ^ 30" using Cons.prems(2,5) by simp
  moreover have n: "\<bar>sint (n_value n)\<bar> \<le> 2 ^ 53"
    "n_type n \<in> {EG_OP_READ, EG_OP_WRITE, EG_OP_RMW, EG_OP_FENCE, EG_OP_CAS_SUCCESS, EG_OP_CAS_FAIL}"
    using Cons.prems(6) by auto
  ultimately obtain g1 where g1: "load_json_node mem (node_json r n) (Some g) = Returns (Some g1)" "graph_inv g1"
    "eg_nodes g1 = eg_nodes g @ [reloaded n]" "rf_edges g1 = rf_edges g"
    using load_node_json [OF Cons.prems(1) _ assms(1,2), of n] by blast
  have "eg_nodes g1 = map reloaded (ps @ [n])" using g1(3) Cons.prems(2) by simp
  then show ?case using Cons.IH [OF g1(2), of "ps @ [n]"] g1(1,4) Cons.prems(3-6) by auto
qed simp

lemma edge_end_pair:
  assumes "graph_inv g" and "eg_nodes g = map reloaded (eg_nodes g0)" and "n \<in> set (eg_nodes g0)"
    and "distinct (map node_key (eg_nodes g0))" and "distinct (map n_id (eg_nodes g0))"
  shows "edge_end g d (Some (eg_mk_tid_id_pair g0 (n_id n))) = Returns (n_id n)"
proof -
  have "json_pair_key (key_array (n_tid n) (n_iid n) (n_vid n)) = Some (node_key n)"
    by (simp add: json_pair_key_def key_array_def find_element_def node_key_def)
  moreover have "find (\<lambda>x. node_key x = node_key n) (eg_nodes g) = Some (reloaded n)"
    using find_reloaded [of node_key, OF assms(4,3)] assms(2) by simp
  ultimately show ?thesis
    using find_unique [OF assms(5,3)] find_dynamic_first [OF assms(1)]
    by (simp add: edge_end_def eg_mk_tid_id_pair_def eg_find_node_by_id_def key_array_def)
qed

text \<open>The two graphs, the written one and the one being read, while the edges are read.\<close>

definition nodes_read :: "eg_graph \<Rightarrow> eg_graph \<Rightarrow> bool" where
  "nodes_read g0 g \<longleftrightarrow> graph_inv g \<and> eg_nodes g = map reloaded (eg_nodes g0) \<and>
     distinct (map node_key (eg_nodes g0)) \<and> distinct (map n_id (eg_nodes g0)) \<and> (\<forall>n\<in>set (eg_nodes g0). n_id n \<noteq> - 1)"

lemma load_target_pair:
  assumes "nodes_read g0 g" and "grants_all mem" and "edge_ok (eg_nodes g0) e" and "length (rf_edges g) < 2 ^ 30"
  shows "\<exists>g'. load_json_target mem (src_id e) (eg_mk_tid_id_pair g0 (dst_id e)) g = Returns g' \<and>
    nodes_read g0 g' \<and> rf_edges g' = rf_edges g @ [e]"
proof -
  obtain w x where wx: "w \<in> set (eg_nodes g0)" "x \<in> set (eg_nodes g0)" "src_id e = n_id w" "dst_id e = n_id x"
    "eg_is_write_like (n_type w)" "eg_is_read_like (n_type x)"
    using assms(3) by (auto simp: edge_ok_def)
  have a: "graph_inv g" "eg_nodes g = map reloaded (eg_nodes g0)" "distinct (map node_key (eg_nodes g0))"
    "distinct (map n_id (eg_nodes g0))" "n_id w \<noteq> - 1" "n_id x \<noteq> - 1"
    using assms(1) wx by (auto simp: nodes_read_def)
  have "eg_find_node_by_id g (n_id w) = Some (reloaded w)" "eg_find_node_by_id g (n_id x) = Some (reloaded x)"
    using find_reloaded [of n_id, OF a(4) wx(1)] find_reloaded [of n_id, OF a(4) wx(2)] a(2)
    by (simp_all add: eg_find_node_by_id_def)
  then show ?thesis
    using edge_end_pair [OF a(1,2) wx(2) a(3,4), of 0] wx(3-) a(5,6) assms(1,2,4)
    by (cases e) (auto simp: load_json_target_def Let_def eg_add_edge_rf_def grants_all_def nodes_read_def graph_inv_def)
qed

lemma load_targets_group:
  assumes "grants_all mem" and "nodes_read g0 g" and "\<forall>e\<in>set es. edge_ok (eg_nodes g0) e \<and> src_id e = s"
    and "length (rf_edges g) + length es \<le> 2 ^ 30"
  shows "\<exists>g'. fold_outcome (load_json_target mem s) (map (\<lambda>x. eg_mk_tid_id_pair g0 (dst_id x)) es) g = Returns g' \<and>
    nodes_read g0 g' \<and> rf_edges g' = rf_edges g @ es"
  using assms(2-)
proof (induction es arbitrary: g)
  case (Cons e es)
  then obtain g1 where g1: "load_json_target mem s (eg_mk_tid_id_pair g0 (dst_id e)) g = Returns g1"
    "nodes_read g0 g1" "rf_edges g1 = rf_edges g @ [e]"
    using load_target_pair [OF Cons.prems(1) assms(1), of e] Cons.prems(2,3) by auto
  then show ?case using Cons.IH [OF g1(2)] Cons.prems(2,3) by auto
qed simp

lemma load_groups:
  assumes "grants_all mem" and "nodes_read g0 g" and "\<forall>e\<in>set es. edge_ok (eg_nodes g0) e"
    and "length (rf_edges g) + length es \<le> 2 ^ 30"
  shows "\<exists>g'. fold_outcome (load_json_edge mem) (group_edges g0 es) g = Returns g' \<and>
    nodes_read g0 g' \<and> rf_edges g' = rf_edges g @ es"
  using assms(2-)
proof (induction g0 es arbitrary: g rule: group_edges.induct)
  case (2 g0 e es)
  let ?near = "takeWhile (\<lambda>x. src_id x = src_id e) es" and ?rest = "dropWhile (\<lambda>x. src_id x = src_id e) es"
  let ?j = "JSON_OBJECT [(''from'', eg_mk_tid_id_pair g0 (src_id e)),
    (''to'', JSON_ARRAY (map (\<lambda>x. eg_mk_tid_id_pair g0 (dst_id x)) (e # ?near)))]"
  have near: "\<forall>x\<in>set (e # ?near). edge_ok (eg_nodes g0) x \<and> src_id x = src_id e"
    using "2.prems"(2) by (auto dest: set_takeWhileD)
  have len: "length (e # ?near) + length ?rest = length (e # es)" by (simp flip: length_append)
  then have room: "length (rf_edges g) + length (e # ?near) \<le> 2 ^ 30" using "2.prems"(3) by linarith
  obtain g1 where g1: "fold_outcome (load_json_target mem (src_id e))
      (map (\<lambda>x. eg_mk_tid_id_pair g0 (dst_id x)) (e # ?near)) g = Returns g1"
    "nodes_read g0 g1" "rf_edges g1 = rf_edges g @ e # ?near"
    using load_targets_group [OF assms(1) "2.prems"(1) near room] by blast
  obtain w where "w \<in> set (eg_nodes g0)" "src_id e = n_id w" using "2.prems"(2) by (auto simp: edge_ok_def)
  then have "edge_end g (- 1) (Some (eg_mk_tid_id_pair g0 (src_id e))) = Returns (src_id e)"
    using "2.prems"(1) edge_end_pair [of g g0 w] by (auto simp: nodes_read_def)
  then have "load_json_edge mem ?j g = Returns g1"
    using g1(1) by (simp add: load_json_edge_def find_member_def)
  moreover have "\<forall>x\<in>set ?rest. edge_ok (eg_nodes g0) x"
    using "2.prems"(2) set_dropWhileD by fastforce
  moreover have "length (rf_edges g1) + length ?rest \<le> 2 ^ 30" using g1(3) len "2.prems"(3) by (simp only: length_append)
  ultimately show ?case using "2.IH" [OF g1(2)] g1(3) takeWhile_dropWhile_id [of "\<lambda>x. src_id x = src_id e" es] by auto
qed simp

lemma json_read_back:
  assumes "storable g" and "rounds r" and "grants_all mem"
  shows "\<exists>g'. eg_graph_from_json_node mem (eg_json_tree r True g) = Returns (Some g') \<and>
    eg_nodes g' = map reloaded (eg_nodes g) \<and> rf_edges g' = qsort eg_cmp_rf_edges (rf_edges g)"
proof -
  let ?es = "qsort eg_cmp_rf_edges (rf_edges g)"
  have s: "distinct (map node_key (eg_nodes g))" "distinct (map n_id (eg_nodes g))" "length (eg_nodes g) < 2 ^ 30"
    "length ?es < 2 ^ 30" "\<forall>n\<in>set (eg_nodes g). \<bar>sint (n_value n)\<bar> \<le> 2 ^ 53 \<and>
      n_type n \<in> {EG_OP_READ, EG_OP_WRITE, EG_OP_RMW, EG_OP_FENCE, EG_OP_CAS_SUCCESS, EG_OP_CAS_FAIL}"
    "\<forall>n\<in>set (eg_nodes g). n_id n \<noteq> - 1" "\<forall>e\<in>set ?es. edge_ok (eg_nodes g) e"
    "\<forall>n\<in>set (eg_nodes g). eg_is_read_like (n_type n) \<longrightarrow> (\<exists>e\<in>set ?es. dst_id e = n_id n)"
    using assms(1) unfolding storable_def list_all_iff list_ex_iff set_qsort by (auto simp: length_qsort)
  obtain g0 where g0: "eg_create mem = Some g0" using assms(3) by (simp add: eg_create_def grants_all_def)
  have "\<exists>h. fold_outcome (load_json_node mem) (map (node_json r) (eg_nodes g)) (Some g0) = Returns (Some h) \<and>
      graph_inv h \<and> eg_nodes h = map reloaded ([] @ eg_nodes g) \<and> rf_edges h = []"
    by (rule load_nodes_json [OF assms(3,2)]) (use create_inv [OF g0] s in auto)
  then obtain g1 where g1: "fold_outcome (load_json_node mem) (map (node_json r) (eg_nodes g)) (Some g0) = Returns (Some g1)"
    "graph_inv g1" "eg_nodes g1 = map reloaded (eg_nodes g)" "rf_edges g1 = []" by auto
  then have "nodes_read g g1" using s by (simp add: nodes_read_def)
  then obtain g2 where g2: "fold_outcome (load_json_edge mem) (group_edges g ?es) g1 = Returns g2"
    "nodes_read g g2" "rf_edges g2 = ?es"
    using load_groups [OF assms(3), of g g1 ?es] s(4,7) g1(4) by auto
  have "eg_validate_cas_resolved g1 = Returns ()" "eg_validate_read_nodes_have_rf g2 = Returns ()"
    using s(5,8) g1(3) g2(2,3)
    by (auto simp: eg_validate_cas_resolved_def eg_validate_read_nodes_have_rf_def eg_has_incoming_rf_edge_def
        list_ex_iff nodes_read_def eg_ops)
  then show ?thesis
    using g0 g1(1) g2 by (auto simp: eg_graph_from_json_node_def eg_json_tree_def find_member_def elements_def nodes_read_def)
qed

section \<open>The text of a graph\<close>

lemma string_ok_ascii: "list_all (\<lambda>c. 0x20 \<le> (of_char c :: u8) \<and> of_char c \<le> (0x7E :: u8)) s \<Longrightarrow> string_ok s"
  using ascii_valid [of "bytes s"] by (auto simp: string_ok_def bytes_def list_all_iff)

lemma string_ok_bytes: "\<forall>c\<in>set (bytes s). 0x20 \<le> c \<and> c \<le> 0x7E \<Longrightarrow> string_ok s"
  using ascii_valid [of "bytes s"] by (simp add: string_ok_def)

lemma string_ok_dec [simp]: "string_ok (dec n)" "string_ok (dec_int i)"
proof -
  have b: "0x20 \<le> digit_byte d \<and> digit_byte d \<le> 0x7E" if "d < 10" for d
    using unat_digit_byte [OF that] that by (simp add: word_le_nat_alt)
  then have d: "\<forall>c\<in>set (bytes (dec m)). 0x20 \<le> c \<and> c \<le> 0x7E" for m
    using digits_lt [of m] by (auto simp: bytes_dec)
  then show "string_ok (dec n)" "string_ok (dec_int i)"
    using d [of "nat i"] d [of "nat (- i)"] by (auto intro!: string_ok_bytes simp: bytes_dec_int split: if_splits)
qed

lemma names_ok [simp]:
  "string_ok ''event_id''" "string_ok ''thread_id''" "string_ok ''kind''" "string_ok ''loc_id''" "string_ok ''value''"
  "string_ok ''instruction_id''" "string_ok ''visit_id''" "string_ok ''access_mode''" "string_ok ''RLX''"
  "string_ok ''from''" "string_ok ''to''" "string_ok ''nodes''" "string_ok ''rf_edges''" "string_ok (eg_type_to_string t)"
  by (auto intro!: string_ok_ascii simp: of_char_def eg_type_to_string_def)

lemma pair_printable [simp]: "printable (eg_mk_tid_id_pair g i)"
  by (simp add: eg_mk_tid_id_pair_def key_array_def split: option.split)

lemma groups_printable: "x \<in> set (group_edges g es) \<Longrightarrow> printable x"
  by (induction g es rule: group_edges.induct) auto

lemma storable_printable:
  assumes "storable g" and "rounds r" shows "printable (eg_json_tree r True g)"
proof -
  have "\<exists>k :: int. \<bar>k\<bar> \<le> 2 ^ 53 \<and> r (real_of_int (sint (n_value n))) = Fin (of_int k)" if "n \<in> set (eg_nodes g)" for n
  proof -
    have "\<bar>sint (n_value n)\<bar> \<le> 2 ^ 53" using assms(1) that by (simp add: storable_def list_all_iff)
    with rounds_int [OF assms(2) this] show ?thesis by blast
  qed
  then show ?thesis using groups_printable by (auto simp: eg_json_tree_def node_json_def simp del: of_int_sint)
qed

lemma object_text_start: "renders (JSON_OBJECT ms) t \<Longrightarrow> \<exists>u. t = 0x7B # u"
  by (cases rule: renders.cases) auto

lemma text_not_binary: "(of_nat (field (0x7B # t) 0 4) :: u32) \<noteq> EG_BIN_MAGIC"
proof
  assume eq: "(of_nat (field (0x7B # t) 0 4) :: u32) = EG_BIN_MAGIC"
  have "unat (of_nat n :: u32) mod 256 = n mod 256" for n by (simp add: unat_of_nat mod_mod_cancel)
  then have "field (0x7B # t) 0 4 mod 256 = unat EG_BIN_MAGIC mod 256" unfolding eq [symmetric] by simp
  moreover have "unat EG_BIN_MAGIC mod 256 = 0x45" by (simp add: EG_BIN_MAGIC_def)
  moreover have "field (0x7B # t) 0 4 mod 256 = 0x7B" by (simp add: field_def)
  ultimately show False by simp
qed

section \<open>What a loaded graph satisfies\<close>

definition named_kinds :: "s32 set" where
  "named_kinds = {EG_OP_READ, EG_OP_WRITE, EG_OP_RMW, EG_OP_FENCE, EG_OP_CAS_SUCCESS, EG_OP_CAS_FAIL, EG_OP_CAS}"

text \<open>An edge of the right types, as far as its ends name nodes.\<close>

definition edge_checked :: "eg_node list \<Rightarrow> eg_edge \<Rightarrow> bool" where
  "edge_checked ns e \<longleftrightarrow>
     (\<forall>w. find (\<lambda>n. n_id n = src_id e) ns = Some w \<longrightarrow> eg_is_write_like (n_type w)) \<and>
     (\<forall>x. find (\<lambda>n. n_id n = dst_id e) ns = Some x \<longrightarrow> eg_is_read_like (n_type x))"

definition json_checked :: "eg_graph \<Rightarrow> bool" where
  "json_checked g \<longleftrightarrow> graph_inv g \<and> distinct (map node_key (eg_nodes g)) \<and>
     (\<forall>n\<in>set (eg_nodes g). n_type n \<in> named_kinds - {EG_OP_CAS}) \<and>
     (\<forall>e\<in>set (rf_edges g). edge_checked (eg_nodes g) e) \<and>
     (\<forall>n\<in>set (eg_nodes g). eg_is_read_like (n_type n) \<longrightarrow> (\<exists>e\<in>set (rf_edges g). dst_id e = n_id n))"

abbreviation json_exits :: "nat set" where
  "json_exits \<equiv> {EXIT_INVALID_INPUT, EXIT_EVENT_NOT_FOUND, SEGFAULT, UNDEFINED}"

lemma string_member_cases:
  "(\<exists>s. string_member j = Returns s) \<or> string_member j = Exits UNDEFINED"
  by (cases j) auto

lemma json_parts:
  "(\<exists>k. json_kind n = Returns k \<and> (k = - 1 \<or> k \<in> named_kinds)) \<or> json_kind n = Exits UNDEFINED"
  "(\<exists>s. json_loc n = Returns s) \<or> json_loc n = Exits UNDEFINED"
  "(\<exists>i. json_event_id g n = Returns i) \<or> json_event_id g n = Exits SEGFAULT"
proof -
  have "eg_string_to_type s = - 1 \<or> eg_string_to_type s \<in> named_kinds" for s
    by (cases s) (auto simp: eg_string_to_type_def named_kinds_def)
  then show "(\<exists>k. json_kind n = Returns k \<and> (k = - 1 \<or> k \<in> named_kinds)) \<or> json_kind n = Exits UNDEFINED"
    using string_member_cases by (fastforce simp: json_kind_def split: option.splits)
  show "(\<exists>s. json_loc n = Returns s) \<or> json_loc n = Exits UNDEFINED"
    using string_member_cases by (fastforce simp: json_loc_def split: option.splits)
  show "(\<exists>i. json_event_id g n = Returns i) \<or> json_event_id g n = Exits SEGFAULT"
    by (auto simp: json_event_id_def split: option.splits)
qed

lemma load_json_node_cases:
  assumes "graph_inv h" and "length (eg_nodes h) < 2 ^ 30"
  shows "(\<exists>h'. load_json_node mem n (Some h) = Returns (Some h') \<and> graph_inv h' \<and> rf_edges h' = rf_edges h \<and>
      (eg_nodes h' = eg_nodes h \<or> (\<exists>x. eg_nodes h' = eg_nodes h @ [x] \<and> n_type x \<in> named_kinds \<and>
        node_key x \<notin> node_key ` set (eg_nodes h)))) \<or>
    (\<exists>c. load_json_node mem n (Some h) = Exits c \<and> c \<in> json_exits)"
proof -
  consider (early) "json_event_id (Some h) n = Exits SEGFAULT"
    | (wild) i where "json_event_id (Some h) n = Returns i" "json_kind n = Exits UNDEFINED"
    | (unnamed) i where "json_event_id (Some h) n = Returns i" "json_kind n = Returns (- 1)"
    | (lost) i k where "json_event_id (Some h) n = Returns i" "json_kind n = Returns k" "k \<noteq> - 1"
      "json_loc n = Exits UNDEFINED"
    | (go) eid k loc where "json_event_id (Some h) n = Returns eid" "json_kind n = Returns k" "k \<noteq> - 1"
      "k \<in> named_kinds" "json_loc n = Returns loc"
    using json_parts(1,2) [of n] json_parts(3) [of "Some h" n] by blast
  then show ?thesis
  proof cases
    case go
    let ?c = "(eid, json_node_key n, json_loc_id n, k, map_option bytes loc, json_value n)"
    show ?thesis
    proof (cases "find (\<lambda>x. node_key x = json_node_key n) (eg_nodes h)")
      case None
      then have "load_json_node mem n (Some h) = bind_outcome (add_call mem h ?c) (\<lambda>g. Returns (Some g))"
        using go by (simp add: load_json_node_def find_dynamic_first [OF assms(1)])
      moreover have "node_key (new_node ?c) = json_node_key n" "n_type (new_node ?c) = k"
        by (cases "json_node_key n"; simp add: node_key_def)+
      moreover have "json_node_key n \<notin> node_key ` set (eg_nodes h)"
        using None unfolding find_None_iff image_iff by metis
      ultimately show ?thesis
        using add_call_cases [OF assms, of mem ?c] go(4) by (elim disjE exE conjE) auto
    qed (use go assms(1) in \<open>auto simp: load_json_node_def find_dynamic_first [OF assms(1)] split: option.splits\<close>)
  qed (simp_all add: load_json_node_def find_dynamic_first [OF assms(1)])
qed

lemma load_json_nodes_ok:
  assumes "length ns < 2 ^ 30"
  shows "(\<exists>g. fold_outcome (load_json_node mem) ns (eg_create mem) = Returns g \<and>
      (\<forall>h. g = Some h \<longrightarrow> graph_inv h \<and> distinct (map node_key (eg_nodes h)) \<and>
        (\<forall>n\<in>set (eg_nodes h). n_type n \<in> named_kinds) \<and> rf_edges h = [])) \<or>
    (\<exists>c. fold_outcome (load_json_node mem) ns (eg_create mem) = Exits c \<and> c \<in> json_exits)"
proof -
  let ?Q = "\<lambda>i h. graph_inv h \<and> distinct (map node_key (eg_nodes h)) \<and>
    (\<forall>n\<in>set (eg_nodes h). n_type n \<in> named_kinds) \<and> rf_edges h = [] \<and> length (eg_nodes h) \<le> i"
  let ?P = "\<lambda>i g. \<forall>h. g = Some h \<longrightarrow> ?Q i h"
  have "(\<exists>g'. load_json_node mem n g = Returns g' \<and> ?P (Suc i) g') \<or>
      (\<exists>c. load_json_node mem n g = Exits c \<and> c \<in> json_exits)" if "i < length ns" "?P i g" for n i g
  proof (cases g)
    case None
    consider "json_event_id None n = Exits SEGFAULT"
      | i where "json_event_id None n = Returns i" "json_kind n = Exits UNDEFINED"
      | i where "json_event_id None n = Returns i" "json_kind n = Returns (- 1)"
      | i k where "json_event_id None n = Returns i" "json_kind n = Returns k" "k \<noteq> - 1"
      using json_parts(1) [of n] json_parts(3) [of None n] by blast
    then show ?thesis using None by cases (simp_all add: load_json_node_def)
  next
    case (Some h)
    then have "graph_inv h" "length (eg_nodes h) < 2 ^ 30" using that assms by auto
    from load_json_node_cases [OF this, of mem n] show ?thesis using that(2) Some by fastforce
  qed
  moreover have "?P 0 (eg_create mem)" using create_inv by auto
  ultimately show ?thesis
    using fold_outcome_inv [of ?P "eg_create mem" ns "load_json_node mem" json_exits] by blast
qed

text \<open>The two steps of an edge: its ends are found, and it is checked and added.\<close>

lemma edge_end_cases:
  "graph_inv g \<Longrightarrow> (\<exists>i. edge_end g d j = Returns i) \<or> edge_end g d j = Exits EXIT_EVENT_NOT_FOUND"
  by (auto simp: edge_end_def find_dynamic_first split: option.splits json.splits)

definition checked_so_far :: "eg_node list \<Rightarrow> eg_graph \<Rightarrow> bool" where
  "checked_so_far ns g \<longleftrightarrow> graph_inv g \<and> eg_nodes g = ns \<and> (\<forall>e\<in>set (rf_edges g). edge_checked ns e)"

lemma load_json_target_ok:
  assumes "checked_so_far ns g"
  shows "(\<exists>g'. load_json_target mem w j g = Returns g' \<and> checked_so_far ns g') \<or>
    (\<exists>c. load_json_target mem w j g = Exits c \<and> c \<in> json_exits)"
proof -
  consider "edge_end g 0 (Some j) = Exits EXIT_EVENT_NOT_FOUND" | i where "edge_end g 0 (Some j) = Returns i"
    using assms edge_end_cases [of g 0 "Some j"] by (auto simp: checked_so_far_def)
  then show ?thesis
  proof cases
    case (2 i)
    have add: "(\<exists>g'. eg_add_edge_rf mem g w i = Returns g' \<and> checked_so_far ns g') \<or>
        (\<exists>c. eg_add_edge_rf mem g w i = Exits c \<and> c \<in> json_exits)" if "edge_checked ns \<lparr>src_id = w, dst_id = i\<rparr>"
      using assms that by (auto simp: eg_add_edge_rf_def Let_def checked_so_far_def graph_inv_def)
    show ?thesis
    proof (cases "edge_checked ns \<lparr>src_id = w, dst_id = i\<rparr>")
      case True
      then have "load_json_target mem w j g = (if w \<noteq> - 1 \<and> i \<noteq> - 1 then eg_add_edge_rf mem g w i else Returns g)"
        using 2 assms by (auto simp: load_json_target_def Let_def eg_find_node_by_id_def edge_checked_def
            checked_so_far_def split: option.splits)
      then show ?thesis using add [OF True] assms by auto
    next
      case False
      then have "load_json_target mem w j g = (if w \<noteq> - 1 \<and> i \<noteq> - 1 then Exits EXIT_RF_TYPE_MISMATCH else Returns g)"
        using 2 assms by (auto simp: load_json_target_def Let_def eg_find_node_by_id_def edge_checked_def
            checked_so_far_def split: option.splits)
      then show ?thesis using assms by (auto simp: EXIT_INVALID_INPUT_def)
    qed
  qed (simp add: load_json_target_def)
qed

lemma load_json_edge_ok:
  assumes "checked_so_far ns g"
  shows "(\<exists>g'. load_json_edge mem j g = Returns g' \<and> checked_so_far ns g') \<or>
    (\<exists>c. load_json_edge mem j g = Exits c \<and> c \<in> json_exits)"
proof -
  have "(\<exists>g'. fold_outcome (load_json_target mem w) xs g = Returns g' \<and> checked_so_far ns g') \<or>
      (\<exists>c. fold_outcome (load_json_target mem w) xs g = Exits c \<and> c \<in> json_exits)" for w xs
    using fold_outcome_inv [of "\<lambda>_. checked_so_far ns" g xs "load_json_target mem w" json_exits]
      assms load_json_target_ok by blast
  moreover have "load_json_edge mem j g = fold_outcome (load_json_target mem i) (elements (find_member j ''to'')) g"
    if "edge_end g (- 1) (find_member j ''from'') = Returns i" for i
    using that by (auto simp: load_json_edge_def elements_def split: option.splits json.splits)
  moreover have "load_json_edge mem j g = Exits EXIT_EVENT_NOT_FOUND"
    if "edge_end g (- 1) (find_member j ''from'') = Exits EXIT_EVENT_NOT_FOUND"
    using that by (simp add: load_json_edge_def)
  moreover have "(\<exists>i. edge_end g (- 1) (find_member j ''from'') = Returns i) \<or>
      edge_end g (- 1) (find_member j ''from'') = Exits EXIT_EVENT_NOT_FOUND"
    using assms edge_end_cases by (simp add: checked_so_far_def)
  ultimately show ?thesis by (metis insertI1 insertI2)
qed

lemma load_json_edges_ok:
  assumes "checked_so_far ns g"
  shows "(\<exists>g'. fold_outcome (load_json_edge mem) es g = Returns g' \<and> checked_so_far ns g') \<or>
    (\<exists>c. fold_outcome (load_json_edge mem) es g = Exits c \<and> c \<in> json_exits)"
  using fold_outcome_inv [of "\<lambda>_. checked_so_far ns" g es "load_json_edge mem" json_exits]
    assms load_json_edge_ok by blast

section \<open>Properties\<close>

text \<open>
  Whatever tree the text holds (below \<open>2 ^ 27\<close> events), members missing or of the wrong
  type included, the JSON loader ends: it ends the run with one of the two statuses for bad input,
  or by reading through a NULL or an undefined pointer, or returns a graph with unique dynamic keys,
  events of the six decided kinds, an edge for every read, and edges that lead from stores to reads
  as far as their ends name events.
\<close>
theorem eg_json_loads_checked:
  assumes "length (elements (find_member tree ''nodes'')) < 2 ^ 27"
  shows "case eg_graph_from_json_node mem tree of
      Returns g \<Rightarrow> (\<exists>h. g = Some h \<and> json_checked h)
    | Exits c \<Rightarrow> c \<in> {EXIT_INVALID_INPUT, EXIT_EVENT_NOT_FOUND, SEGFAULT, UNDEFINED}
    | Diverges \<Rightarrow> False"
proof (cases "fold_outcome (load_json_node mem) (elements (find_member tree ''nodes'')) (eg_create mem)")
  case (Returns g)
  show ?thesis
  proof (cases g)
    case (Some h)
    then have h: "graph_inv h" "distinct (map node_key (eg_nodes h))" "\<forall>n\<in>set (eg_nodes h). n_type n \<in> named_kinds"
      "rf_edges h = []"
      using load_json_nodes_ok [of "elements (find_member tree ''nodes'')" mem] assms Returns by auto
    then have "checked_so_far (eg_nodes h) h" by (simp add: checked_so_far_def)
    from load_json_edges_ok [OF this, of mem "elements (find_member tree ''rf_edges'')"] show ?thesis
      using Returns Some h
      by (auto simp: eg_graph_from_json_node_def eg_validate_cas_resolved_def eg_validate_read_nodes_have_rf_def
          eg_has_incoming_rf_edge_def list_ex_iff checked_so_far_def json_checked_def)
  qed (use Returns in \<open>simp add: eg_graph_from_json_node_def\<close>)
qed (use load_json_nodes_ok [of "elements (find_member tree ''nodes'')" mem] assms in \<open>auto simp: eg_graph_from_json_node_def\<close>)

text \<open>
  C10. Round trip: a stored graph (fewer than \<open>2 ^ 27\<close> events and \<open>2 ^ 30\<close> edges, unique
  keys and identifiers, none of them \<open>-1\<close>, decided kinds, values of at most \<open>2 ^ 53\<close>, edges from
  stores to reads, one for every read) is written as a text that, with memory available, is loaded,
  byte by byte, with the same events in the same order under the same identifiers, without their
  locations, and with the same edges in the order of the writer.
\<close>
theorem eg_json_roundtrip:
  assumes "storable g" and "rounds r" and "grants_all mem"
  shows "\<exists>t g'. eg_serialize_json r True g = Returns t \<and>
    eg_deserialize_mem r True mem (Some t) = Returns (Some g') \<and>
    eg_nodes g' = map reloaded (eg_nodes g) \<and> rf_edges g' = qsort eg_cmp_rf_edges (rf_edges g) \<and>
    mset (rf_edges g') = mset (rf_edges g)"
proof -
  obtain t where t: "json_stringify (eg_json_tree r True g) (Some [32, 32]) = Returns t" "renders (eg_json_tree r True g) t"
    using stringify_renders [OF storable_printable [OF assms(1,2)], of "Some [32, 32]"] by auto
  have n: "t \<noteq> []" "0 \<notin> set t" using renders_start(1) [OF t(2)] renders_no_nul(1) [OF t(2)] by auto
  then have w: "takeWhile (\<lambda>c. c \<noteq> 0) t = t" unfolding takeWhile_eq_all_conv by blast
  have d: "json_decode r t = Returns (Some (eg_json_tree r True g))"
    using renders_decode [OF assms(2) t(2), of "[]" "[]"] by simp
  obtain g' where g': "eg_graph_from_json_node mem (eg_json_tree r True g) = Returns (Some g')"
    "eg_nodes g' = map reloaded (eg_nodes g)" "rf_edges g' = qsort eg_cmp_rf_edges (rf_edges g)"
    using json_read_back [OF assms] by blast
  have json: "eg_deserialize_json_mem r True mem (Some t) = Returns (Some g')"
    using n(1) by (simp only: eg_deserialize_json_mem_def w d g'(1) option.case bind_outcome.simps if_False not_True_eq_False)
  moreover obtain u where "t = 0x7B # u" using object_text_start t(2) unfolding eg_json_tree_def by blast
  ultimately have "eg_deserialize_mem r True mem (Some t) = Returns (Some g')"
    using text_not_binary [of u] by (simp add: eg_deserialize_mem_def)
  then show ?thesis using t(1) g'(2,3) mset_qsort [of eg_cmp_rf_edges "rf_edges g"]
    by (intro exI [of _ t] exI [of _ g']) (simp add: eg_serialize_json_def)
qed

text \<open>
  An edge whose ends are given as numbers or strings is not looked up: the loader accepts a
  graph without any event whose one edge leads from event 7 to event 9. The same edge given by keys
  ends the run with the status of a missing event.
\<close>
theorem eg_json_unchecked_edge:
  "(\<exists>g. eg_graph_from_json_node ample
       (JSON_OBJECT [(''rf_edges'', JSON_ARRAY [JSON_OBJECT
         [(''from'', JSON_STRING ''7''), (''to'', JSON_ARRAY [JSON_NUMBER (Fin 9)])]])]) = Returns (Some g) \<and>
     eg_nodes g = [] \<and> rf_edges g = [\<lparr>src_id = 7, dst_id = 9\<rparr>] \<and> \<not> well_formed g) \<and>
   eg_graph_from_json_node ample
     (JSON_OBJECT [(''rf_edges'', JSON_ARRAY [JSON_OBJECT
       [(''from'', JSON_ARRAY [JSON_STRING ''7'', JSON_STRING ''7'']), (''to'', JSON_ARRAY [])]])]) =
     Exits EXIT_EVENT_NOT_FOUND"
proof -
  obtain g0 where g0: "eg_create ample = Some g0" "graph_inv g0" "eg_nodes g0 = []" "rf_edges g0 = []"
    using create_inv [of ample] by (auto simp: eg_create_def ample_def)
  have "json_to_u64 (Some (JSON_STRING ''7'')) (- 1) = 7"
    using u64_dec [of 7 "- 1"] by (simp add: dec_def digits.simps [of 7] char_of_def bit_0)
  moreover have "json_to_u64 (Some (JSON_NUMBER (Fin 9))) (- 1) = 9"
    by (simp add: json_to_u64_def double_to_u64_def double_to_s64_def truncated_def)
  ultimately show ?thesis
    using g0 by (auto simp: eg_graph_from_json_node_def find_member_def elements_def load_json_edge_def edge_end_def
        load_json_target_def eg_find_node_by_id_def eg_add_edge_rf_def Let_def ample_def find_dynamic_first [OF g0(2)]
        eg_validate_cas_resolved_def eg_validate_read_nodes_have_rf_def json_pair_key_def find_element_def
        well_formed_def edge_ok_def)
qed

definition stored_sample :: eg_graph where
  "stored_sample =
     \<lparr>eg_nodes =
        [\<lparr>n_id = 4, n_tid = 1, n_iid = - 5, n_loc_id = 65, n_vid = 1, n_type = 1, n_location = [], n_value = - 7\<rparr>,
         \<lparr>n_id = 2, n_tid = 2, n_iid = 9, n_loc_id = 65, n_vid = 3, n_type = 0, n_location = [88], n_value = 0\<rparr>],
      node_capacity = 2, rf_edges = [\<lparr>src_id = 4, dst_id = 2\<rparr>], rf_capacity = 1, hash_table = []\<rparr>"

theorem eg_json_roundtrip_witness:
  "\<exists>t g'. eg_serialize_json Fin True stored_sample = Returns t \<and>
    eg_deserialize_mem Fin True ample (Some t) = Returns (Some g') \<and>
    map n_id (eg_nodes g') = [4, 2] \<and> map n_iid (eg_nodes g') = [- 5, 9] \<and> map n_location (eg_nodes g') = [[], []] \<and>
    rf_edges g' = [\<lparr>src_id = 4, dst_id = 2\<rparr>]"
proof -
  have "storable stored_sample"
    by (simp add: storable_def stored_sample_def node_key_def edge_ok_def eg_is_read_like_def eg_is_write_like_def eg_ops)
  moreover have "grants_all ample" by (simp add: grants_all_def ample_def)
  ultimately obtain t g' where "eg_serialize_json Fin True stored_sample = Returns t"
    "eg_deserialize_mem Fin True ample (Some t) = Returns (Some g')"
    "eg_nodes g' = map reloaded (eg_nodes stored_sample)" "rf_edges g' = qsort eg_cmp_rf_edges (rf_edges stored_sample)"
    using eg_json_roundtrip [of stored_sample Fin ample] rounds_Fin by blast
  then show ?thesis by (intro exI [of _ t] exI [of _ g']) (simp add: stored_sample_def reloaded_def)
qed

theorem eg_json_loads_checked_witness:
  "case eg_graph_from_json_node ample (eg_json_tree Fin True stored_sample) of
      Returns g \<Rightarrow> (\<exists>h. g = Some h \<and> json_checked h)
    | Exits c \<Rightarrow> c \<in> {EXIT_INVALID_INPUT, EXIT_EVENT_NOT_FOUND, SEGFAULT, UNDEFINED} | Diverges \<Rightarrow> False"
  by (rule eg_json_loads_checked)
    (simp add: eg_json_tree_def find_member_def elements_def stored_sample_def)

end
