(* ===== verification/AliasTable.thy ===== *)
theory AliasTable imports FuzzScoreLaws FuzzPhases begin

text \<open>
  The choice of the next seed: the weights of the seeds and the alias table built of them
  (\<open>create_alias_table\<close>, \<open>select_next_queue_entry\<close> in
  \<^verbatim>\<open>main/src/sgf-fuzz-queue.c\<close>), the random numbers (\<open>rand_next\<close>,
  \<open>rand_next_percent\<close>, \<open>rand_below\<close>) and the selection in the loop of
  \<open>main\<close> (\<^verbatim>\<open>sgf-fuzz.c\<close>). The two logarithms of the mathematical library are parameters.
\<close>

section \<open>State\<close>

text \<open>
  The fields of \<open>queue_entry\<close> that only the selection uses, in a list beside
  \<open>entries\<close>, and the fields of the fuzzer that it uses. \<open>n_fuzz\<close> counts by path.
\<close>

record seed_stats =
  was_fuzzed :: bool
  fs_redundant :: bool
  bitmap_size :: u32
  exec_us :: u64
  seed_len :: u32
  n_fuzz_entry :: u32
  weight :: double

record selection =
  stats :: "seed_stats list"
  schedule :: u8
  queued_discovered :: u32
  n_fuzz :: "u32 \<Rightarrow> u32"
  old_seed_selection :: bool
  pending_favored :: u32
  smallest_favored :: s64
  prev_queued_items :: u32
  reinit_table :: bool
  alias_probability :: "double list"
  alias_table :: "u32 list"
  rand_seed :: "u64 \<times> u64 \<times> u64"
  rand_cnt :: u32
  fixed_seed :: bool

definition MMOPT :: u8 where "MMOPT = 1"
definition FAST :: u8 where "FAST = 3"
definition RARE :: u8 where "RARE = 7"

record libm =
  ln_of :: "double \<Rightarrow> double"
  log10_of :: "double \<Rightarrow> double"

abbreviation of_u32 :: "u32 \<Rightarrow> double" where
  "of_u32 x \<equiv> Fin (real (unat x))"

section \<open>Weights\<close>

definition time_factor :: "rounding \<Rightarrow> double \<Rightarrow> double \<Rightarrow> double" where
  "time_factor r t w =
     (if t < r (1 / 10) then w
      else if t \<le> Fin (1 / 4) then dmul r w (r (95 / 100))
      else if t \<le> Fin (1 / 2) then w
      else if t \<le> Fin (3 / 4) then dmul r w (r (105 / 100))
      else if t \<le> Fin 1 then dmul r w (r (11 / 10))
      else if t < Fin (5 / 4) then dmul r w (r (2 / 10))
      else if t \<le> Fin (3 / 2) then w
      else if t \<le> Fin 2 then dmul r w (r (11 / 10))
      else if t \<le> Fin (5 / 2) then w
      else if t \<le> Fin 5 then dmul r w (r (115 / 100))
      else if t \<le> Fin 20 then dmul r w (r (11 / 10))
      else w)"

definition len_factor :: "rounding \<Rightarrow> double \<Rightarrow> double \<Rightarrow> double" where
  "len_factor r l w =
     (if l < r (1 / 10) then dmul r w (Fin (1 / 2))
      else if l \<le> Fin (1 / 2) then w
      else if l \<le> Fin (5 / 4) then dmul r w (r (105 / 100))
      else if l \<le> Fin (7 / 4) then w
      else if l \<le> Fin 2 then dmul r w (r (95 / 100))
      else if l \<le> Fin 5 then w
      else if l \<le> Fin 10 then dmul r w (r (105 / 100))
      else dmul r w (r (115 / 100)))"

definition bitmap_factor :: "rounding \<Rightarrow> double \<Rightarrow> double \<Rightarrow> double" where
  "bitmap_factor r bms w =
     (if bms < r (1 / 10) then dmul r w (r (1 / 100))
      else if bms \<le> Fin (1 / 4) then dmul r w (r (55 / 100))
      else if bms \<le> Fin (1 / 2) then w
      else if bms \<le> Fin (3 / 4) then dmul r w (r (12 / 10))
      else if bms \<le> Fin (5 / 4) then dmul r w (r (13 / 10))
      else if bms \<le> Fin (7 / 4) then dmul r w (Fin (5 / 4))
      else if bms \<le> Fin 2 then w
      else if bms \<le> Fin (5 / 2) then dmul r w (r (13 / 10))
      else dmul r w (Fin (3 / 4)))"

text \<open>The averages over the seeds that are not disabled: of the time, the logarithm of the bitmap, the length.\<close>

definition u64_to_double :: "rounding \<Rightarrow> u64 \<Rightarrow> double" where
  "u64_to_double r x = r (real (unat x))"

definition sum_over :: "rounding \<Rightarrow> (nat \<Rightarrow> bool) \<Rightarrow> (nat \<Rightarrow> double) \<Rightarrow> nat \<Rightarrow> double" where
  "sum_over r active f n = foldl (\<lambda>a i. if active i then dadd r a (f i) else a) (Fin 0) [0..<n]"

definition averages :: "rounding \<Rightarrow> libm \<Rightarrow> (nat \<Rightarrow> bool) \<Rightarrow> seed_stats list \<Rightarrow> nat \<Rightarrow> double \<times> double \<times> double" where
  "averages r m active st n =
     (let count = Fin (real (length (filter active [0..<n])))
      in (ddiv r (sum_over r active (\<lambda>i. u64_to_double r (exec_us (st ! i))) n) count,
          ddiv r (sum_over r active (\<lambda>i. ln_of m (of_u32 (bitmap_size (st ! i)))) n) count,
          ddiv r (sum_over r active (\<lambda>i. of_u32 (seed_len (st ! i))) n) count))"

definition seed_weight :: "rounding \<Rightarrow> libm \<Rightarrow> selection \<Rightarrow> double \<times> double \<times> double \<Rightarrow> seed_stats \<Rightarrow> double" where
  "seed_weight r m sel avg q =
     (case avg of (avg_exec_us, avg_bitmap_size, avg_len) \<Rightarrow>
        let w = Fin 1;
            w = (if FAST \<le> schedule sel \<and> schedule sel \<le> RARE
                 then (let hits = n_fuzz sel (n_fuzz_entry q)
                       in if hits \<noteq> 0 then ddiv r w (dadd r (log10_of m (of_u32 hits)) (Fin 1)) else w)
                 else w);
            w = (if schedule sel < RARE then time_factor r (ddiv r (u64_to_double r (exec_us q)) avg_exec_us) w else w);
            w = len_factor r (ddiv r (of_u32 (seed_len q)) avg_len) w;
            w = bitmap_factor r (ddiv r (of_u32 (bitmap_size q)) avg_bitmap_size) w;
            w = (if \<not> was_fuzzed q then dmul r w (Fin (5 / 2)) else w)
        in if fs_redundant q then dmul r w (Fin (3 / 4)) else w)"

text \<open>A score that has decayed to 1 is computed anew. \<open>nn i\<close> is the neighbour found for seed \<open>i\<close>.\<close>

definition refresh_score ::
    "rounding \<Rightarrow> ('g, 'p, 'r) mutator \<Rightarrow> (nat \<Rightarrow> double option) \<Rightarrow> nat \<Rightarrow> ('g, 'p, 'r, 'f) sgf_state \<Rightarrow>
     ('g, 'p, 'r, 'f) sgf_state" where
  "refresh_score r mut nn i sgf =
     (let e = entries sgf ! i
      in if perf_score e \<le> Fin 1
         then (let (s, d) = calculate_score r mut (nn i) sgf (data e)
               in sgf\<lparr>entries := (entries sgf)[i := e\<lparr>perf_score := s, data := d\<rparr>]\<rparr>)
         else sgf)"

fun weigh_loop ::
    "rounding \<Rightarrow> ('g, 'p, 'r) mutator \<Rightarrow> (nat \<Rightarrow> double option) \<Rightarrow> (seed_stats \<Rightarrow> double) \<Rightarrow> nat list \<Rightarrow>
     ('g, 'p, 'r, 'f) sgf_state \<Rightarrow> seed_stats list \<Rightarrow> double \<Rightarrow> ('g, 'p, 'r, 'f) sgf_state \<times> seed_stats list \<times> double" where
  "weigh_loop r mut nn f [] sgf st acc = (sgf, st, acc)"
| "weigh_loop r mut nn f (i # is) sgf st acc =
     (if disabled (entries sgf ! i) then weigh_loop r mut nn f is sgf st acc
      else let w = f (st ! i)
           in weigh_loop r mut nn f is (refresh_score r mut nn i sgf) (st[i := (st ! i)\<lparr>weight := w\<rparr>]) (dadd r acc w))"

fun score_loop ::
    "rounding \<Rightarrow> ('g, 'p, 'r) mutator \<Rightarrow> (nat \<Rightarrow> double option) \<Rightarrow> nat list \<Rightarrow>
     ('g, 'p, 'r, 'f) sgf_state \<Rightarrow> double \<Rightarrow> ('g, 'p, 'r, 'f) sgf_state \<times> double" where
  "score_loop r mut nn [] sgf acc = (sgf, acc)"
| "score_loop r mut nn (i # is) sgf acc =
     (if disabled (entries sgf ! i) then score_loop r mut nn is sgf acc
      else let sgf = refresh_score r mut nn i sgf
           in score_loop r mut nn is sgf (dadd r acc (perf_score (entries sgf ! i))))"

text \<open>The schedule MMOPT doubles the weights of the last five discoveries, after they have been summed.\<close>

definition double_recent :: "rounding \<Rightarrow> selection \<Rightarrow> u32 \<Rightarrow> (nat \<Rightarrow> bool) \<Rightarrow> seed_stats list \<Rightarrow> seed_stats list" where
  "double_recent r sel n active st =
     (if schedule sel = MMOPT \<and> queued_discovered sel \<noteq> 0
      then (let cnt = (if 5 \<le> queued_discovered sel then 5 else queued_discovered sel)
            in foldl (\<lambda>st i. if active i then st[i := (st ! i)\<lparr>weight := dmul r (weight (st ! i)) (Fin 2)\<rparr>] else st)
                 st [unat (n - cnt)..<unat n])
      else st)"

definition share :: "rounding \<Rightarrow> u32 \<Rightarrow> double \<Rightarrow> double \<Rightarrow> double" where
  "share r n acc w = ddiv r (dmul r w (of_u32 n)) acc"

definition seed_shares ::
    "rounding \<Rightarrow> libm \<Rightarrow> ('g, 'p, 'r) mutator \<Rightarrow> (nat \<Rightarrow> double option) \<Rightarrow> ('g, 'p, 'r, 'f) sgf_state \<Rightarrow> selection \<Rightarrow>
     double list \<times> ('g, 'p, 'r, 'f) sgf_state \<times> seed_stats list" where
  "seed_shares r m mut nn sgf sel =
     (let n = queued_items sgf; active = (\<lambda>i. \<not> disabled (entries sgf ! i))
      in if schedule sel < RARE
         then (let avg = averages r m active (stats sel) (unat n);
                   (sgf, st, acc) = weigh_loop r mut nn (seed_weight r m sel avg) [0..<unat n] sgf (stats sel) (Fin 0);
                   st = double_recent r sel n active st
               in (map (\<lambda>i. if active i then share r n acc (weight (st ! i)) else Fin 0) [0..<unat n], sgf, st))
         else (let (sgf, acc) = score_loop r mut nn [0..<unat n] sgf (Fin 0)
               in (map (\<lambda>i. if active i then share r n acc (perf_score (entries sgf ! i)) else Fin 0) [0..<unat n],
                   sgf, stats sel)))"

section \<open>The alias table\<close>

text \<open>
  \<open>Small\<close> and \<open>Large\<close> are stacks, with the last element first. Each array has a slot for
  every seed, and together the stacks hold every seed at most once. The first loop counts down
  with a signed index, so that it does nothing from \<open>2 ^ 31 + 1\<close> seeds on.
\<close>

fun split_slots :: "double list \<Rightarrow> nat list \<Rightarrow> nat list \<Rightarrow> nat list \<Rightarrow> nat list \<times> nat list" where
  "split_slots P [] S L = (S, L)"
| "split_slots P (j # js) S L = (if P ! j < Fin 1 then split_slots P js (j # S) L else split_slots P js S (j # L))"

type_synonym pairing_state = "nat list \<times> nat list \<times> double list \<times> u32 list"

function pairing :: "rounding \<Rightarrow> double list \<Rightarrow> nat list \<Rightarrow> nat list \<Rightarrow> double list \<Rightarrow> u32 list \<Rightarrow> pairing_state" where
  "pairing r P (small # S) (large # L) prob alias =
     (let prob = prob[small := P ! small]; alias = alias[small := of_nat large];
          P = P[large := dsub r (P ! large) (dsub r (Fin 1) (P ! small))]
      in if P ! large < Fin 1 then pairing r P (large # S) L prob alias
         else pairing r P S (large # L) prob alias)"
| "pairing r P [] L prob alias = ([], L, prob, alias)"
| "pairing r P S [] prob alias = (S, [], prob, alias)"
  by pat_completeness auto
termination by (relation "measure (\<lambda>(r, P, S, L, prob, alias). length S + length L)") auto

definition fill_ones :: "nat list \<Rightarrow> double list \<Rightarrow> double list" where
  "fill_ones is prob = foldl (\<lambda>prob i. prob[i := Fin 1]) prob is"

definition alias_arrays :: "rounding \<Rightarrow> double list \<Rightarrow> double list \<times> u32 list" where
  "alias_arrays r P =
     (let n = length P;
          (S, L) = split_slots P (if n \<le> 2 ^ 31 then rev [0..<n] else []) [] [];
          (S, L, prob, alias) = pairing r P S L (replicate n (Fin 0)) (replicate n 0)
      in (fill_ones L (fill_ones S prob), alias))"

definition EXIT_FATAL :: nat where "EXIT_FATAL = 1"

text \<open>The allocator returns no memory for 0 bytes.\<close>

definition create_alias_table ::
    "rounding \<Rightarrow> libm \<Rightarrow> ('g, 'p, 'r) mutator \<Rightarrow> (nat \<Rightarrow> double option) \<Rightarrow> bool \<Rightarrow> ('g, 'p, 'r, 'f) sgf_state \<Rightarrow>
     selection \<Rightarrow> (('g, 'p, 'r, 'f) sgf_state \<times> selection) outcome" where
  "create_alias_table r m mut nn grants_arrays sgf sel =
     (if queued_items sgf = 0 \<or> \<not> grants_arrays then Exits EXIT_FATAL
      else let (P, sgf, st) = seed_shares r m mut nn sgf sel;
               (prob, alias) = alias_arrays r P
           in Returns (sgf, sel\<lparr>stats := st, alias_probability := prob, alias_table := alias, reinit_table := False\<rparr>))"

section \<open>Random numbers\<close>

definition rotl64 :: "u64 \<Rightarrow> nat \<Rightarrow> u64" where
  "rotl64 d k = push_bit k d OR drop_bit (64 - k) d"

definition rand_next :: "selection \<Rightarrow> u64 \<times> selection" where
  "rand_next sel =
     (case rand_seed sel of (a, b, c) \<Rightarrow> (a, sel\<lparr>rand_seed := (15241094284759029579 * b, rotl64 (b - a) 27, c)\<rparr>))"

definition rand_next_percent :: "rounding \<Rightarrow> selection \<Rightarrow> double \<times> selection" where
  "rand_next_percent r sel =
     (let (x, sel) = rand_next sel in (ddiv r (u64_to_double r x) (u64_to_double r (- 1)), sel))"

definition RESEED_RNG :: u32 where "RESEED_RNG = 2500000"

text \<open>\<open>urandom\<close> is what \<^verbatim>\<open>/dev/urandom\<close> delivers.\<close>

definition reseed :: "u64 \<times> u64 \<times> u64 \<Rightarrow> selection \<Rightarrow> selection" where
  "reseed urandom sel =
     (let out_of = (rand_cnt sel = 0); sel = sel\<lparr>rand_cnt := rand_cnt sel - 1\<rparr>
      in if out_of \<and> \<not> fixed_seed sel
         then sel\<lparr>rand_seed := urandom,
                  rand_cnt := RESEED_RNG div 2 + ucast (fst (snd urandom) mod ucast RESEED_RNG)\<rparr>
         else sel)"

partial_function (option) draw :: "u64 \<Rightarrow> selection \<Rightarrow> (u64 \<times> selection) option" where
  "draw limit sel =
     (let (x, sel) = rand_next sel
      in if - 1 - (- 1 mod limit) \<le> x then draw limit sel else Some (x mod limit, sel))"

definition rand_below :: "u64 \<times> u64 \<times> u64 \<Rightarrow> u32 \<Rightarrow> selection \<Rightarrow> (u32 \<times> selection) option" where
  "rand_below urandom limit sel =
     (if limit \<le> 1 then Some (0, sel)
      else map_option (\<lambda>(x, sel). (ucast x, sel)) (draw (ucast limit) (reseed urandom sel)))"

section \<open>The selection\<close>

definition select_next_queue_entry ::
    "rounding \<Rightarrow> u64 \<times> u64 \<times> u64 \<Rightarrow> u32 \<Rightarrow> selection \<Rightarrow> (u32 \<times> selection) option" where
  "select_next_queue_entry r urandom queued sel =
     (case rand_below urandom queued sel of None \<Rightarrow> None
      | Some (s, sel) \<Rightarrow>
          (let (p, sel) = rand_next_percent r sel
           in Some (if p < alias_probability sel ! unat s then s else alias_table sel ! unat s, sel)))"

partial_function (option) select_loop ::
    "rounding \<Rightarrow> (nat \<Rightarrow> u64 \<times> u64 \<times> u64) \<Rightarrow> nat \<Rightarrow> u32 \<Rightarrow> selection \<Rightarrow> (u32 \<times> selection) option" where
  "select_loop r urandom k queued sel =
     (case select_next_queue_entry r (urandom k) queued sel of None \<Rightarrow> None
      | Some (i, sel) \<Rightarrow> (if queued \<le> i then select_loop r urandom (Suc k) queued sel else Some (i, sel)))"

text \<open>
  The selection of a turn: the favoured seed, or one by the table, which is made anew when there
  are more seeds than at the last time or when it is asked for; then the bounded queue may
  override it.
\<close>

definition renew_table ::
    "rounding \<Rightarrow> libm \<Rightarrow> ('g, 'p, 'r) mutator \<Rightarrow> (nat \<Rightarrow> double option) \<Rightarrow> bool \<Rightarrow> ('g, 'p, 'r, 'f) sgf_state \<Rightarrow>
     selection \<Rightarrow> (('g, 'p, 'r, 'f) sgf_state \<times> selection) outcome" where
  "renew_table r m mut nn grants_arrays sgf sel =
     (if prev_queued_items sel < queued_items sgf \<or> reinit_table sel
      then create_alias_table r m mut nn grants_arrays sgf (sel\<lparr>prev_queued_items := queued_items sgf\<rparr>)
      else Returns (sgf, sel))"

definition select_seed ::
    "rounding \<Rightarrow> libm \<Rightarrow> ('g, 'p, 'r) mutator \<Rightarrow> (nat \<Rightarrow> double option) \<Rightarrow> bool \<Rightarrow> (nat \<Rightarrow> u64 \<times> u64 \<times> u64) \<Rightarrow>
     ('g, 'p, 'r, 'f) sgf_state \<Rightarrow> selection \<Rightarrow> (('g, 'p, 'r, 'f) sgf_state \<times> selection) outcome" where
  "select_seed r m mut nn grants_arrays urandom sgf sel =
     bind_outcome
       (if old_seed_selection sel then Returns (sgf, sel)
        else if pending_favored sel \<noteq> 0 \<and> 0 \<le> sint (smallest_favored sel)
        then (let i = ucast (smallest_favored sel)
              in Returns (sgf\<lparr>current_entry := i, queue_cur := Some (unat i)\<rparr>, sel))
        else bind_outcome (renew_table r m mut nn grants_arrays sgf sel) (\<lambda>(sgf, sel).
               case select_loop r urandom 0 (queued_items sgf) sel of
                 None \<Rightarrow> Diverges
               | Some (i, sel) \<Rightarrow> Returns (sgf\<lparr>current_entry := i, queue_cur := Some (unat i)\<rparr>, sel)))
       (\<lambda>(sgf, sel). Returns (select_bounded sgf, sel))"

section \<open>The table holds seeds\<close>

lemma split_slots_set:
  "split_slots P js S L = (S', L') \<Longrightarrow> mset (S' @ L') = mset (js @ S @ L)"
proof (induction js arbitrary: S L)
  case (Cons j js)
  then show ?case by (cases "P ! j < Fin 1") auto
qed simp

definition table_ok :: "nat \<Rightarrow> double list \<Rightarrow> u32 list \<Rightarrow> bool" where
  "table_ok n prob al \<longleftrightarrow> length prob = n \<and> length al = n \<and> (\<forall>a\<in>set al. unat a < n)"

lemma pairing_ok:
  assumes "table_ok n prob al" and "\<forall>i\<in>set (S @ L). i < n" and "n < 2 ^ 32"
    and "pairing r P S L prob al = (S', L', prob', al')"
  shows "table_ok n prob' al'"
  using assms
proof (induction r P S L prob al rule: pairing.induct)
  case (1 r P small S large L prob al)
  have u: "unat (of_nat large :: u32) < n" using "1.prems"(2,3) by (simp add: unat_of_nat)
  have ok: "table_ok n (prob[small := P ! small]) (al[small := of_nat large])"
    using "1.prems"(1) u set_update_subset_insert [of al small "of_nat large"] by (auto simp: table_ok_def)
  show ?case
  proof (cases "P[large := dsub r (P ! large) (dsub r (Fin 1) (P ! small))] ! large < Fin 1")
    case True
    then show ?thesis using "1.IH"(1) [OF refl refl refl True ok] "1.prems"(2-4) by (simp add: Let_def)
  next
    case False
    then show ?thesis using "1.IH"(2) [OF refl refl refl False ok] "1.prems"(2-4) by (simp add: Let_def)
  qed
qed auto

lemma fill_ones_length [simp]: "length (fill_ones is prob) = length prob"
  unfolding fill_ones_def by (induction "is" arbitrary: prob) auto

lemma alias_arrays_ok:
  assumes "P \<noteq> []" and "length P < 2 ^ 32" and "alias_arrays r P = (prob, al)"
  shows "table_ok (length P) prob al"
proof -
  let ?js = "if length P \<le> 2 ^ 31 then rev [0..<length P] else []"
  obtain S L where S: "split_slots P ?js [] [] = (S, L)" by (cases "split_slots P ?js [] []") auto
  obtain S' L' prob0 al0 where p: "pairing r P S L (replicate (length P) (Fin 0)) (replicate (length P) 0) = (S', L', prob0, al0)"
    by (cases "pairing r P S L (replicate (length P) (Fin 0)) (replicate (length P) 0)") auto
  have "set (S @ L) = set ?js" using set_mset_eqI [OF split_slots_set [OF S]] by simp
  then have "\<forall>i\<in>set (S @ L). i < length P" by (auto split: if_splits)
  moreover have "table_ok (length P) (replicate (length P) (Fin 0)) (replicate (length P) 0)"
    using assms(1) by (simp add: table_ok_def)
  ultimately have "table_ok (length P) prob0 al0" using pairing_ok p assms(2) by blast
  then show ?thesis using assms(3) S p by (auto simp: alias_arrays_def Let_def table_ok_def)
qed

text \<open>Drawing changes nothing but the state of the generator.\<close>

definition unseeded :: "selection \<Rightarrow> selection" where
  "unseeded sel = sel\<lparr>rand_seed := (0, 0, 0), rand_cnt := 0\<rparr>"

lemma draw_less:
  "draw limit sel = Some y \<Longrightarrow> 0 < limit \<longrightarrow> fst y < limit \<and> unseeded (snd y) = unseeded sel"
proof (induction rule: draw.raw_induct [rotated 1, consumes 1])
  case (1 draw limit sel y)
  then show ?case
    by (auto simp: Let_def rand_next_def word_mod_less_divisor unseeded_def split: prod.splits if_splits) fastforce?
qed

lemma rand_below_less:
  assumes "rand_below urandom limit sel = Some (s, sel')" and "limit \<noteq> 0"
  shows "s < limit \<and> unseeded sel' = unseeded sel"
proof (cases "limit \<le> 1")
  case True
  then have "0 < limit" using assms(2) by (simp add: word_gt_0)
  then show ?thesis using assms(1) True by (simp add: rand_below_def)
next
  case False
  then obtain x where x: "draw (ucast limit) (reseed urandom sel) = Some (x, sel')" "s = ucast x"
    using assms(1) by (auto simp: rand_below_def)
  have u: "unat (ucast limit :: u64) = unat limit"
    using unsigned_less [of limit, where 'a = nat] by (simp add: unsigned_ucast_eq take_bit_nat_eq_self)
  have "0 < (ucast limit :: u64)" using False u by (simp add: word_less_nat_alt word_le_nat_alt)
  then have "x < ucast limit" "unseeded sel' = unseeded (reseed urandom sel)" using draw_less [OF x(1)] by auto
  moreover have "unseeded (reseed urandom sel) = unseeded sel" by (simp add: reseed_def unseeded_def Let_def)
  moreover have "unat s = unat x"
    using x(2) \<open>x < ucast limit\<close> u unsigned_less [of limit, where 'a = nat]
    by (simp add: unsigned_ucast_eq take_bit_nat_eq_self word_less_nat_alt)
  ultimately show ?thesis using u by (simp add: word_less_nat_alt)
qed

lemma select_next_less:
  assumes "select_next_queue_entry r urandom n sel = Some (i, sel')" and "n \<noteq> 0"
    and "table_ok (unat n) (alias_probability sel) (alias_table sel)"
  shows "i < n \<and> unseeded sel' = unseeded sel"
proof -
  obtain s sel1 where s1: "rand_below urandom n sel = Some (s, sel1)"
    using assms(1) by (cases "rand_below urandom n sel") (auto simp: select_next_queue_entry_def)
  obtain p sel2 where s2: "rand_next_percent r sel1 = (p, sel2)" by (cases "rand_next_percent r sel1") auto
  have s: "i = (if p < alias_probability sel2 ! unat s then s else alias_table sel2 ! unat s)" "sel' = sel2"
    using assms(1) by (auto simp: select_next_queue_entry_def s1 s2)
  have "unseeded sel2 = unseeded sel1"
    using s2 by (cases "rand_seed sel1") (auto simp: rand_next_percent_def rand_next_def unseeded_def)
  moreover have b: "s < n" "unseeded sel1 = unseeded sel" using rand_below_less [OF s1 assms(2)] by auto
  ultimately have u: "unseeded sel2 = unseeded sel" by simp
  have "alias_table (unseeded x) = alias_table x" for x by (simp add: unseeded_def)
  then have "alias_table sel2 = alias_table sel" using u by metis
  moreover have "unat s < unat n" using b(1) by (simp add: word_less_nat_alt)
  ultimately have "unat (alias_table sel2 ! unat s) < unat n" using assms(3) nth_mem by (fastforce simp: table_ok_def)
  then show ?thesis using s b(1) u by (simp add: word_less_nat_alt)
qed

text \<open>So the loop of the selection ends with its first choice, if that is made.\<close>

lemma select_loop_first:
  assumes "n \<noteq> 0" and "table_ok (unat n) (alias_probability sel) (alias_table sel)"
  shows "select_loop r urandom k n sel = select_next_queue_entry r (urandom k) n sel"
  using select_next_less [of r "urandom k" n sel] assms
  by (subst select_loop.simps) (auto split: option.splits simp: not_less [symmetric])

section \<open>Every seed is chosen as often as its share\<close>

text \<open>
  The chance of seed \<open>i\<close>, when a slot is drawn evenly and then a number in the unit interval:
  its own slot, and what other slots give to it.
\<close>

definition chance :: "double list \<times> u32 list \<Rightarrow> nat \<Rightarrow> real" where
  "chance tbl i =
     (let prob = (\<lambda>j. case fst tbl ! j of Fin a \<Rightarrow> a | _ \<Rightarrow> 0)
      in prob i + (\<Sum>j\<leftarrow>[0..<length (fst tbl)]. if unat (snd tbl ! j) = i then 1 - prob j else 0))"

text \<open>
  While the slots are paired: \<open>ps\<close> are the shares still to be placed, \<open>qs\<close> the
  probabilities of the slots that are done, and \<open>ts\<close> the shares to be reached.
\<close>

definition given :: "nat set \<Rightarrow> real list \<Rightarrow> u32 list \<Rightarrow> nat \<Rightarrow> real" where
  "given D qs al i = (\<Sum>j\<in>D. if unat (al ! j) = i then 1 - qs ! j else 0)"

definition pairing_inv :: "real list \<Rightarrow> real list \<Rightarrow> nat list \<Rightarrow> nat list \<Rightarrow> real list \<Rightarrow> u32 list \<Rightarrow> bool" where
  "pairing_inv ts ps S L qs al \<longleftrightarrow>
     length ps = length ts \<and> length qs = length ts \<and> length al = length ts \<and> length ts < 2 ^ 32 \<and>
     distinct (S @ L) \<and> set (S @ L) \<subseteq> {..<length ts} \<and> (\<forall>i\<in>set S. 0 \<le> ps ! i \<and> ps ! i < 1) \<and> (\<forall>i\<in>set L. 1 \<le> ps ! i) \<and>
     sum_list (map (nth ps) (S @ L)) = real (length (S @ L)) \<and>
     (\<forall>i<length ts. ts ! i = (if i \<in> set (S @ L) then ps ! i else qs ! i) + given ({..<length ts} - set (S @ L)) qs al i)"

lemma given_insert:
  assumes "finite D" and "x \<notin> D" and "x < length qs" and "x < length al"
  shows "given (insert x D) (qs[x := q]) (al[x := a]) i = (if unat a = i then 1 - q else 0) + given D qs al i"
proof -
  have "(\<Sum>j\<in>D. if unat (al[x := a] ! j) = i then 1 - qs[x := q] ! j else 0) =
      (\<Sum>j\<in>D. if unat (al ! j) = i then 1 - qs ! j else 0)"
    by (rule sum.cong) (use assms in \<open>auto simp: nth_list_update\<close>)
  then show ?thesis using assms by (simp add: given_def)
qed

lemma pairing_step_inv:
  assumes "pairing_inv ts ps (s # S) (l # L) qs al"
  defines "p \<equiv> ps ! l - (1 - ps ! s)" and "qs' \<equiv> qs[s := ps ! s]" and "al' \<equiv> al[s := of_nat l]"
  shows "p < 1 \<Longrightarrow> pairing_inv ts (ps[l := p]) (l # S) L qs' al'"
    and "\<not> p < 1 \<Longrightarrow> pairing_inv ts (ps[l := p]) S (l # L) qs' al'"
proof -
  let ?n = "length ts"
  have a: "length ps = ?n" "length qs = ?n" "length al = ?n" "?n < 2 ^ 32" "distinct (s # S @ l # L)"
    "s < ?n" "l < ?n" "set S \<subseteq> {..<?n}" "set L \<subseteq> {..<?n}" "0 \<le> ps ! s" "ps ! s < 1" "1 \<le> ps ! l"
    "\<forall>i\<in>set S. 0 \<le> ps ! i \<and> ps ! i < 1" "\<forall>i\<in>set L. 1 \<le> ps ! i"
    "ps ! s + sum_list (map (nth ps) S) + (ps ! l + sum_list (map (nth ps) L)) = real (length S + length L + 2)"
    "\<And>i. i < ?n \<Longrightarrow> ts ! i = (if i \<in> set (s # S @ l # L) then ps ! i else qs ! i) + given ({..<?n} - set (s # S @ l # L)) qs al i"
    using assms(1) by (auto simp: pairing_inv_def)
  have ul: "unat (of_nat l :: u32) = l" using a(4,7) by (simp add: unat_of_nat)
  have same: "map (nth (ps[l := p])) S = map (nth ps) S" "map (nth (ps[l := p])) L = map (nth ps) L"
    using a(1,5,7) by (auto simp: nth_list_update)
  let ?D = "{..<?n} - set (s # S @ l # L)"
  have D: "{..<?n} - set (S @ l # L) = insert s ?D" "s \<notin> ?D" "finite ?D" using a(5,6) by auto
  have give: "given ({..<?n} - set (S @ l # L)) qs' al' i = (if l = i then 1 - ps ! s else 0) + given ?D qs al i" for i
    unfolding D(1) qs'_def al'_def using given_insert [OF D(3,2), of qs al "ps ! s" "of_nat l"] a(2,3,6) ul by simp
  have key: "ts ! i = (if i \<in> set (S @ l # L) then ps[l := p] ! i else qs' ! i) + given ({..<?n} - set (S @ l # L)) qs' al' i"
    if "i < ?n" for i
    unfolding give using a(16) [OF that] a(1,2,5,6,7) that by (auto simp: qs'_def p_def nth_list_update)
  have p0: "0 \<le> p" using a(10,12) by (simp add: p_def)
  have tot: "sum_list (map (nth (ps[l := p])) S) + (p + sum_list (map (nth (ps[l := p])) L)) = real (length S + length L + 1)"
    unfolding same using a(15) by (simp add: p_def)
  have rest: "length (ps[l := p]) = ?n" "length qs' = ?n" "length al' = ?n" "(ps[l := p]) ! l = p"
    "\<forall>i\<in>set S. 0 \<le> ps[l := p] ! i \<and> ps[l := p] ! i < 1" "\<forall>i\<in>set L. 1 \<le> ps[l := p] ! i"
    using a by (auto simp: qs'_def al'_def nth_list_update)
  have sets: "set ((l # S) @ L) = set (S @ l # L)" by auto
  show "p < 1 \<Longrightarrow> pairing_inv ts (ps[l := p]) (l # S) L qs' al'"
    unfolding pairing_inv_def sets using key rest tot p0 a(4-9) by auto
  show "\<not> p < 1 \<Longrightarrow> pairing_inv ts (ps[l := p]) S (l # L) qs' al'"
    unfolding pairing_inv_def using key rest tot a(4-9) by auto
qed

lemma pairing_exact:
  assumes "pairing_inv ts ps S L qs al"
  shows "\<exists>ps' S' L' qs' al'. pairing Fin (map Fin ps) S L (map Fin qs) al = (S', L', map Fin qs', al') \<and>
    pairing_inv ts ps' S' L' qs' al' \<and> (S' = [] \<or> L' = [])"
  using assms
proof (induction "length S + length L" arbitrary: ps S L qs al)
  case 0
  then show ?case by auto
next
  case (Suc k)
  show ?case
  proof (cases "S = [] \<or> L = []")
    case True
    then show ?thesis using Suc.prems by (cases S; cases L) auto
  next
    case False
    then obtain s S1 l L1 where SL: "S = s # S1" "L = l # L1" by (cases S; cases L) auto
    let ?p = "ps ! l - (1 - ps ! s)"
    have len: "s < length ps" "l < length ps" "length qs = length ps" using Suc.prems SL by (auto simp: pairing_inv_def)
    have st: "pairing Fin (map Fin ps) S L (map Fin qs) al =
        (if ?p < 1 then pairing Fin (map Fin (ps[l := ?p])) (l # S1) L1 (map Fin (qs[s := ps ! s])) (al[s := of_nat l])
         else pairing Fin (map Fin (ps[l := ?p])) S1 (l # L1) (map Fin (qs[s := ps ! s])) (al[s := of_nat l]))"
      using len SL by (simp add: Let_def dsub_def map_update algebra_simps)
    note inv = pairing_step_inv [OF Suc.prems [unfolded SL]]
    show ?thesis
    proof (cases "?p < 1")
      case True
      then show ?thesis unfolding st using Suc.hyps(1) [OF _ inv(1) [OF True]] Suc.hyps(2) SL by simp
    next
      case False
      then show ?thesis unfolding st using Suc.hyps(1) [OF _ inv(2) [OF False]] Suc.hyps(2) SL by simp
    qed
  qed
qed

lemma split_slots_sides:
  assumes "\<forall>j\<in>set js. j < length ts" and "\<forall>i\<in>set S. ts ! i < 1" and "\<forall>i\<in>set L. 1 \<le> ts ! i"
  shows "(\<forall>i\<in>set (fst (split_slots (map Fin ts) js S L)). ts ! i < 1) \<and>
    (\<forall>i\<in>set (snd (split_slots (map Fin ts) js S L)). 1 \<le> ts ! i)"
  using assms
proof (induction js arbitrary: S L)
  case (Cons j js)
  have j: "map Fin ts ! j = Fin (ts ! j)" using Cons.prems(1) by simp
  have js: "\<forall>j\<in>set js. j < length ts" using Cons.prems(1) by simp
  show ?case
  proof (cases "ts ! j < 1")
    case True
    have "\<forall>i\<in>set (j # S). ts ! i < 1" using Cons.prems(2) True by simp
    from Cons.IH [OF js this Cons.prems(3)] show ?thesis using True j by simp
  next
    case False
    then have "\<forall>i\<in>set (j # L). 1 \<le> ts ! i" using Cons.prems(3) by simp
    from Cons.IH [OF js Cons.prems(2) this] show ?thesis using False j by simp
  qed
qed simp

lemma fill_ones_map:
  "\<forall>i\<in>set is. i < length qs \<Longrightarrow>
    fill_ones is (map Fin qs) = map Fin (map (\<lambda>j. if j \<in> set is then 1 else qs ! j) [0..<length qs])"
proof (induction "is" arbitrary: qs)
  case Nil
  then show ?case by (simp add: fill_ones_def map_nth)
next
  case (Cons i "is")
  have "fill_ones (i # is) (map Fin qs) = fill_ones is (map Fin (qs[i := 1]))"
    by (simp add: fill_ones_def map_update)
  then show ?case using Cons by (auto simp: nth_list_update intro!: map_cong)
qed

lemma sum_list_ge_length:
  assumes "\<forall>i\<in>set xs. 1 \<le> f i" and "sum_list (map f xs) = real (length xs)" and "i \<in> set xs"
  shows "f i = (1::real)"
proof -
  have ge: "\<forall>i\<in>set ys. 1 \<le> f i \<Longrightarrow> real (length ys) \<le> sum_list (map f ys)" for ys
    by (induction ys) auto
  obtain a b where "xs = a @ i # b" using assms(3) by (auto dest: split_list)
  then show ?thesis using assms(1,2) ge [of a] ge [of b] by auto
qed

lemma sum_list_less_length:
  assumes "\<forall>i\<in>set xs. f i < (1::real)" and "xs \<noteq> []"
  shows "sum_list (map f xs) < real (length xs)"
  using assms(2,1) by (induction xs rule: list_nonempty_induct) auto

lemma alias_arrays_exact:
  assumes "ts \<noteq> []" and "length ts \<le> 2 ^ 31" and "\<forall>t\<in>set ts. 0 \<le> t" and "sum_list ts = real (length ts)" and "i < length ts"
  shows "chance (alias_arrays Fin (map Fin ts)) i = ts ! i"
proof -
  let ?n = "length ts"
  obtain S L where sl: "split_slots (map Fin ts) (rev [0..<?n]) [] [] = (S, L)"
    by (cases "split_slots (map Fin ts) (rev [0..<?n]) [] []") auto
  have m: "mset (S @ L) = mset [0..<?n]" using split_slots_set [OF sl] by simp
  have set: "set (S @ L) = {..<?n}" using set_mset_eqI [OF m] by auto
  have dist: "distinct (S @ L)" using mset_eq_imp_distinct_iff [OF m] by simp
  have sides: "(\<forall>i\<in>set S. ts ! i < 1) \<and> (\<forall>i\<in>set L. 1 \<le> ts ! i)"
    using split_slots_sides [of "rev [0..<?n]" ts "[]" "[]"] sl by simp
  have "mset (map (nth ts) (S @ L)) = mset (map (nth ts) [0..<?n])" using m by (simp only: mset_map)
  then have "sum_list (map (nth ts) (S @ L)) = sum_list ts" by (metis map_nth sum_mset_sum_list)
  moreover have "length (S @ L) = ?n" using m by (metis length_upt minus_nat.diff_0 size_mset)
  moreover have "\<forall>j\<in>set S. 0 \<le> ts ! j"
    using set assms(3) by (metis UnI1 lessThan_iff nth_mem set_append)
  ultimately have "pairing_inv ts ts S L (replicate ?n 0) (replicate ?n 0)"
    using set dist sides assms(1,2,4) by (auto simp: pairing_inv_def given_def)
  from pairing_exact [OF this] obtain ps S' L' qs al where p:
    "pairing Fin (map Fin ts) S L (map Fin (replicate ?n 0)) (replicate ?n 0) = (S', L', map Fin qs, al)"
    "pairing_inv ts ps S' L' qs al" "S' = [] \<or> L' = []" by blast
  have "S' = []"
    using p(2,3) sum_list_less_length [of S' "nth ps"] by (cases "S' = []") (auto simp: pairing_inv_def)
  then have inv: "length qs = ?n" "length al = ?n" "set L' \<subseteq> {..<?n}" "\<And>j. j \<in> set L' \<Longrightarrow> ps ! j = 1"
    "\<And>j. j < ?n \<Longrightarrow> ts ! j = (if j \<in> set L' then ps ! j else qs ! j) + given ({..<?n} - set L') qs al j"
    using p(2) sum_list_ge_length [of L' "nth ps"] by (auto simp: pairing_inv_def)
  let ?pr = "map (\<lambda>j. if j \<in> set L' then 1 else qs ! j) [0..<?n]"
  have "alias_arrays Fin (map Fin ts) = (map Fin ?pr, al)"
    using sl p(1) \<open>S' = []\<close> assms(2) inv(1,3) fill_ones_map [of L' qs]
    by (auto simp: alias_arrays_def Let_def map_replicate_const fill_ones_def)
  then have "chance (alias_arrays Fin (map Fin ts)) i =
      ?pr ! i + (\<Sum>j\<leftarrow>[0..<?n]. if unat (al ! j) = i then 1 - ?pr ! j else 0)"
    using assms(5) by (auto simp: chance_def intro!: arg_cong [where f = sum_list] map_cong)
  also have "(\<Sum>j\<leftarrow>[0..<?n]. if unat (al ! j) = i then 1 - ?pr ! j else 0) =
      (\<Sum>j\<in>{..<?n}. if unat (al ! j) = i then 1 - ?pr ! j else 0)"
    by (simp add: sum_list_distinct_conv_sum_set atLeast0LessThan)
  also have "\<dots> = given ({..<?n} - set L') qs al i"
    unfolding given_def by (rule sum.mono_neutral_cong_right) (use inv(3) in auto)
  finally show ?thesis using inv(4,5) assms(5) by simp
qed

section \<open>Properties\<close>

lemma select_after_table:
  assumes "n \<noteq> 0" and "table_ok (unat n) (alias_probability sel) (alias_table sel)"
    and "select_loop r urandom k n sel = Some (i, sel')"
  shows "i < n"
  using assms select_next_less by (simp add: select_loop_first)

lemma weigh_loop_fields:
  "weigh_loop r mut nn f is sgf st acc = (sgf', st', acc') \<Longrightarrow>
    length (entries sgf') = length (entries sgf) \<and> queued_items sgf' = queued_items sgf"
  by (induction "is" arbitrary: sgf st acc) (auto simp: refresh_score_def Let_def split: if_splits prod.splits)

lemma score_loop_fields:
  "score_loop r mut nn is sgf acc = (sgf', acc') \<Longrightarrow>
    length (entries sgf') = length (entries sgf) \<and> queued_items sgf' = queued_items sgf"
  by (induction "is" arbitrary: sgf acc) (auto simp: refresh_score_def Let_def split: if_splits prod.splits)

lemma seed_shares_fields:
  assumes "seed_shares r m mut nn sgf sel = (P, sgf', st)"
  shows "length P = unat (queued_items sgf)" and "length (entries sgf') = length (entries sgf)"
    and "queued_items sgf' = queued_items sgf"
  using assms by (auto simp: seed_shares_def Let_def split: if_splits prod.splits
      dest!: weigh_loop_fields score_loop_fields)

lemma refresh_disabled: "disabled (entries (refresh_score r mut nn i sgf) ! j) = disabled (entries sgf ! j)"
  by (cases "i < length (entries sgf)")
    (auto simp: list_update_beyond refresh_score_def Let_def nth_list_update split: prod.splits)

text \<open>Of the entries the loop of the weights reads only which are disabled.\<close>

lemma weigh_loop_ignores:
  "\<forall>i\<in>set is. disabled (entries sgf ! i) = disabled (entries sgf2 ! i) \<Longrightarrow>
    snd (weigh_loop r mut nn f is sgf st acc) = snd (weigh_loop r mut2 nn2 f is sgf2 st acc)"
  by (induction "is" arbitrary: sgf sgf2 st acc) (auto simp: Let_def refresh_disabled)

lemma double_recent_ignores:
  assumes "\<forall>i<unat n. a i = b i"
  shows "double_recent r sel n a st = double_recent r sel n b st"
proof -
  have "foldl (\<lambda>st i. if a i then f st i else st) st is = foldl (\<lambda>st i. if b i then f st i else st) st is"
    if "\<forall>i\<in>set is. i < unat n" for "is" and f :: "seed_stats list \<Rightarrow> nat \<Rightarrow> seed_stats list"
    using that assms by (induction "is" arbitrary: st) auto
  then show ?thesis unfolding double_recent_def Let_def by auto
qed

lemma sum_over_cong: "\<forall>i<n. a i = b i \<Longrightarrow> sum_over r a f n = sum_over r b f n"
  unfolding sum_over_def by (rule foldl_cong) auto

text \<open>
  Whenever the table is made anew, for a queue that is not empty and whatever the weights
  (NaN and infinities included), the next selection by the table, if the generator gives a number,
  ends at the first choice and chooses a seed of the queue.
\<close>
theorem alias_selects_in_queue:
  assumes "queued_items sgf \<noteq> 0" and "prev_queued_items sel < queued_items sgf \<or> reinit_table sel"
  shows "\<exists>sgf' sel'. renew_table r m mut nn True sgf sel = Returns (sgf', sel') \<and>
    queued_items sgf' = queued_items sgf \<and> length (entries sgf') = length (entries sgf) \<and>
    \<not> reinit_table sel' \<and> prev_queued_items sel' = queued_items sgf' \<and>
    select_loop r urandom k (queued_items sgf') sel' = select_next_queue_entry r (urandom k) (queued_items sgf') sel' \<and>
    (\<forall>i sel2. select_loop r urandom k (queued_items sgf') sel' = Some (i, sel2) \<longrightarrow> i < queued_items sgf')"
proof -
  obtain P sgf' st where P: "seed_shares r m mut nn sgf (sel\<lparr>prev_queued_items := queued_items sgf\<rparr>) = (P, sgf', st)"
    by (cases "seed_shares r m mut nn sgf (sel\<lparr>prev_queued_items := queued_items sgf\<rparr>)") auto
  note f = seed_shares_fields [OF P]
  obtain prob al where a: "alias_arrays r P = (prob, al)" by (cases "alias_arrays r P") auto
  have "P \<noteq> []" using f(1) assms(1) by (auto simp: unat_eq_zero)
  moreover have "length P < 2 ^ 32" using f(1) unsigned_less [of "queued_items sgf", where 'a = nat] by simp
  ultimately have ok: "table_ok (unat (queued_items sgf)) prob al" using alias_arrays_ok [OF _ _ a] f(1) by simp
  let ?sel = "sel\<lparr>prev_queued_items := queued_items sgf, stats := st, alias_probability := prob, alias_table := al,
    reinit_table := False\<rparr>"
  have "renew_table r m mut nn True sgf sel = Returns (sgf', ?sel)"
    using assms P a by (simp add: renew_table_def create_alias_table_def)
  moreover have t: "table_ok (unat (queued_items sgf)) (alias_probability ?sel) (alias_table ?sel)" using ok by simp
  ultimately show ?thesis
    using f(2,3) select_loop_first [OF assms(1) t] select_after_table [OF assms(1) t]
    by (intro exI [of _ sgf'] exI [of _ ?sel]) auto
qed

text \<open>
  Equivalence with weighted choice: in exact arithmetic, with at most \<open>2 ^ 31\<close> seeds of
  weights that are not negative and not all 0, an even choice of a slot and of a number in the unit
  interval selects each seed with the probability of its weight in the sum of the weights.
\<close>
theorem alias_chance_is_share:
  assumes "length ws = unat n" and "unat n \<le> 2 ^ 31" and "\<forall>w\<in>set ws. 0 \<le> w" and "0 < sum_list ws" and "i < unat n"
  shows "chance (alias_arrays Fin (map (\<lambda>w. share Fin n (Fin (sum_list ws)) (Fin w)) ws)) i / real (unat n) =
    ws ! i / sum_list ws"
proof -
  let ?ts = "map (\<lambda>w. w * real (unat n) / sum_list ws) ws"
  have eq: "map (\<lambda>w. share Fin n (Fin (sum_list ws)) (Fin w)) ws = map Fin ?ts"
    using assms(4) by (simp add: share_def)
  have "sum_list ?ts = real (length ?ts)"
  proof -
    have "sum_list ?ts = sum_list ws * (real (unat n) / sum_list ws)"
      using sum_list_mult_const [of "\<lambda>w. w" "real (unat n) / sum_list ws" ws] by simp
    then show ?thesis using assms(1,4) by simp
  qed
  moreover have "\<forall>t\<in>set ?ts. 0 \<le> t"
  proof -
    have "0 \<le> w * real (unat n) / sum_list ws" if "w \<in> set ws" for w
      using assms(3,4) that by (intro divide_nonneg_pos mult_nonneg_nonneg of_nat_0_le_iff) auto
    then show ?thesis by auto
  qed
  moreover have "?ts \<noteq> []" using assms(4) by auto
  ultimately have "chance (alias_arrays Fin (map Fin ?ts)) i = ?ts ! i"
    using alias_arrays_exact [of ?ts i] assms(1,2,5) by simp
  moreover have "0 < real (unat n)" using assms(5) by (simp only: of_nat_0_less_iff)
  ultimately show ?thesis unfolding eq using assms(1,5) by simp
qed

text \<open>
  Under every schedule before RARE, the default among them, the table does not depend on the
  scores of the seeds: two states with the same seeds disabled, whatever their entries, scores,
  mutators and neighbours, give the same shares.
\<close>
theorem alias_ignores_scores:
  assumes "schedule sel < RARE" and "queued_items sgf = queued_items sgf2"
    and "\<forall>i<unat (queued_items sgf). disabled (entries sgf ! i) = disabled (entries sgf2 ! i)"
  shows "fst (seed_shares r m mut nn sgf sel) = fst (seed_shares r m mut2 nn2 sgf2 sel)"
proof -
  let ?n = "queued_items sgf2"
  let ?a = "\<lambda>i. \<not> disabled (entries sgf ! i)" and ?b = "\<lambda>i. \<not> disabled (entries sgf2 ! i)"
  have ab: "\<forall>i<unat ?n. ?a i = ?b i" using assms(2,3) by simp
  have "filter ?a [0..<unat ?n] = filter ?b [0..<unat ?n]" by (rule filter_cong) (use ab in auto)
  then have avg: "averages r m ?a (stats sel) (unat ?n) = averages r m ?b (stats sel) (unat ?n)"
    unfolding averages_def using sum_over_cong [OF ab] by simp
  let ?f = "seed_weight r m sel (averages r m ?b (stats sel) (unat ?n))"
  have w: "snd (weigh_loop r mut nn ?f [0..<unat ?n] sgf (stats sel) (Fin 0)) =
      snd (weigh_loop r mut2 nn2 ?f [0..<unat ?n] sgf2 (stats sel) (Fin 0))"
    using ab by (intro weigh_loop_ignores) auto
  show ?thesis
    using assms(1,2) w ab double_recent_ignores [OF ab]
    by (auto simp: seed_shares_def Let_def avg split: prod.splits)
qed

definition sample_selection :: selection where
  "sample_selection =
     \<lparr>stats = [\<lparr>was_fuzzed = False, fs_redundant = False, bitmap_size = 8, exec_us = 100, seed_len = 50, n_fuzz_entry = 0,
        weight = Fin 1\<rparr>],
      schedule = 0, queued_discovered = 0, n_fuzz = (\<lambda>_. 0), old_seed_selection = False, pending_favored = 0,
      smallest_favored = - 1, prev_queued_items = 0, reinit_table = True, alias_probability = [], alias_table = [],
      rand_seed = (5, 6, 7), rand_cnt = 9, fixed_seed = True\<rparr>"

definition plain_libm :: libm where
  "plain_libm = \<lparr>ln_of = (\<lambda>x. x), log10_of = (\<lambda>x. x)\<rparr>"

theorem alias_selects_in_queue_witness:
  "\<exists>sgf' sel'. renew_table Fin plain_libm plain_mutator (\<lambda>_. None) True fresh_state sample_selection = Returns (sgf', sel') \<and>
    \<not> reinit_table sel' \<and> prev_queued_items sel' = 1"
proof -
  have "queued_items fresh_state \<noteq> 0" "prev_queued_items sample_selection < queued_items fresh_state \<or> reinit_table sample_selection"
    "queued_items fresh_state = 1"
    by (simp_all add: fresh_state_def sample_selection_def)
  with alias_selects_in_queue [OF this(1,2), of Fin plain_libm plain_mutator "\<lambda>_. None" "\<lambda>_. (0, 0, 0)" 0]
  show ?thesis by auto
qed

theorem alias_chance_is_share_witness:
  "chance (alias_arrays Fin (map (\<lambda>w. share Fin 2 (Fin (sum_list [1, 3])) (Fin w)) [1, 3])) 1 / real (unat (2 :: u32)) = 3 / 4"
  using alias_chance_is_share [of "[1, 3]" 2 1] by simp

theorem alias_ignores_scores_witness:
  "fst (seed_shares Fin plain_libm plain_mutator (\<lambda>_. None) fresh_state sample_selection) =
   fst (seed_shares Fin plain_libm plain_mutator (\<lambda>_. None)
     (fresh_state\<lparr>entries := [(entries fresh_state ! 0)\<lparr>perf_score := Fin 2\<rparr>]\<rparr>) sample_selection)"
  by (rule alias_ignores_scores) (simp_all add: sample_selection_def RARE_def fresh_state_def)

end
