(* ===== verification/BitmapCounts.thy ===== *)
theory BitmapCounts imports Bitmap begin

text \<open>
  Counting the bits and bytes of a coverage map and compacting it: the loops over half words
  are proved equal to counts over bits and bytes, in the range where the 32-bit counter does not
  wrap (maps below \<open>2 ^ 29 - 4\<close> bytes).
\<close>

section \<open>Counting, byte by byte\<close>

definition mem_bit :: "bitmap \<Rightarrow> nat \<Rightarrow> bool" where
  "mem_bit ws j = bit (ws ! (j div 64)) (j mod 64)"

lemma filter_blocks:
  "(\<Sum>i\<leftarrow>[0..<n]. length (filter (\<lambda>k. P (m * i + k)) [0..<m])) = length (filter P [0..<m * n])"
proof (induction n)
  case (Suc n)
  have "[0..<m * Suc n] = [0..<m * n] @ map (\<lambda>k. m * n + k) [0..<m]"
    using upt_add_eq_append [of 0 "m * n" m] map_add_upt [of "m * n" m] by (simp add: add.commute)
  then show ?case using Suc by (simp add: filter_map comp_def)
qed simp

lemma count_words_sum:
  assumes "\<And>i. f (mem32 ws i) = of_nat (length (filter (\<lambda>k. P (m * i + k)) [0..<m]))"
    and "m \<le> 32" and "unat rsize \<le> 2 ^ 29 - 4"
  shows "unat (count_words f rsize ws) = length (filter P [0..<m * ((unat rsize + 3) div 4)])"
proof -
  let ?n = "(unat rsize + 3) div 4"
  have n: "unat (drop_bit 2 (rsize + 3)) = ?n"
    using assms(3) by (simp add: drop_bit_eq_div unat_div_distrib unat_word_ariths)
  have "foldl (\<lambda>ret i. ret + f (mem32 ws i)) 0 is = of_nat (\<Sum>i\<leftarrow>is. length (filter (\<lambda>k. P (m * i + k)) [0..<m]))" for "is"
    by (induction "is" rule: rev_induct) (simp_all add: assms(1))
  then have c: "count_words f rsize ws = of_nat (length (filter P [0..<m * ?n]))"
    unfolding count_words_def n by (simp only: filter_blocks)
  have "m * ?n \<le> 32 * ?n" using assms(2) by simp
  also have "\<dots> < 2 ^ 32"
  proof -
    have "?n < 2 ^ 27" using assms(3) by simp
    then show ?thesis by simp
  qed
  finally have "length (filter P [0..<m * ?n]) < 2 ^ 32" using length_filter_le [of P "[0..<m * ?n]"] by simp
  then show ?thesis unfolding c by (simp add: unat_of_nat)
qed


lemma two_blocks:
  assumes "k < (m::nat)"
  shows "(m * i + k) div (2 * m) = i div 2" and "(m * i + k) mod (2 * m) = m * (i mod 2) + k"
proof -
  have "m * i + k = m * (2 * (i div 2) + i mod 2) + k" by simp
  then have e: "m * i + k = 2 * m * (i div 2) + (m * (i mod 2) + k)" by (simp only: distrib_left mult.assoc mult.left_commute add.assoc)
  have "m * (i mod 2) \<le> m * 1" by (rule mult_le_mono2) simp
  then have l: "m * (i mod 2) + k < 2 * m" using assms by linarith
  show "(m * i + k) div (2 * m) = i div 2" unfolding e using l assms by simp
  show "(m * i + k) mod (2 * m) = m * (i mod 2) + k" unfolding e using l by simp
qed

lemma popcount_bits: "popcount (mem32 ws i) = length (filter (\<lambda>k. mem_bit ws (32 * i + k)) [0..<32])"
proof -
  have "bit (mem32 ws i) k = mem_bit ws (32 * i + k)" if "k < 32" for k
  proof -
    have "(32 * i + k) div 64 = i div 2" "(32 * i + k) mod 64 = 32 * (i mod 2) + k" using that two_blocks [of k 32 i] by simp_all
    then show ?thesis using that by (simp add: mem32_def mem_bit_def bit_simps)
  qed
  then show ?thesis unfolding popcount_def by (intro arg_cong [where f = length] filter_cong) auto
qed

text \<open>A mask selects one byte of a half word.\<close>

definition byte32 :: "u32 \<Rightarrow> nat \<Rightarrow> u8" where
  "byte32 v k = ucast (drop_bit (8 * k) v)"

lemma byte32_mem: "k < 4 \<Longrightarrow> byte32 (mem32 ws i) k = mem_byte ws (4 * i + k)"
proof -
  assume k: "k < 4"
  then have "(4 * i + k) div 8 = i div 2" "(4 * i + k) mod 8 = 4 * (i mod 2) + k" using two_blocks [of k 4 i] by simp_all
  then show ?thesis using k
    by (intro bit_word_eqI) (auto simp: byte32_def mem32_def mem_byte_def byte_def bit_simps algebra_simps)
qed

lemma select_byte_mask:
  fixes v :: u32 and c :: u8
  assumes "k < 4"
  shows "v AND push_bit (8 * k) (mask 8) = push_bit (8 * k) (ucast c) \<longleftrightarrow> byte32 v k = c"
proof
  assume e: "byte32 v k = c"
  have b: "bit c m \<longleftrightarrow> m < 8 \<and> bit v (8 * k + m)" for m unfolding e [symmetric] by (auto simp: byte32_def bit_simps)
  show "v AND push_bit (8 * k) (mask 8) = push_bit (8 * k) (ucast c)"
    by (rule bit_word_eqI) (auto simp: bit_simps b)
next
  assume e: "v AND push_bit (8 * k) (mask 8) = push_bit (8 * k) (ucast c)"
  show "byte32 v k = c"
  proof (rule bit_word_eqI)
    fix m assume m: "m < LENGTH(8)"
    have "bit (v AND push_bit (8 * k) (mask 8)) (8 * k + m) = bit (push_bit (8 * k) (ucast c) :: u32) (8 * k + m)"
      using e by simp
    then show "bit (byte32 v k) m = bit c m" using m assms by (auto simp: bit_simps byte32_def)
  qed
qed

lemma masks:
  "push_bit (8 * 0) (mask 8) = (0xff :: u32)" "push_bit (8 * 1) (mask 8) = (0xff00 :: u32)"
  "push_bit (8 * 2) (mask 8) = (0xff0000 :: u32)" "push_bit (8 * 3) (mask 8) = (0xff000000 :: u32)"
  by (simp_all add: mask_eq_exp_minus_1 push_bit_eq_mult)

lemma full_bytes:
  "push_bit (8 * 0) (ucast (0xff :: u8)) = (0xff :: u32)" "push_bit (8 * 1) (ucast (0xff :: u8)) = (0xff00 :: u32)"
  "push_bit (8 * 2) (ucast (0xff :: u8)) = (0xff0000 :: u32)" "push_bit (8 * 3) (ucast (0xff :: u8)) = (0xff000000 :: u32)"
  by (simp_all add: push_bit_eq_mult)

lemma selects:
  "(v AND 0xff = 0) = (byte32 v 0 = 0)" "(v AND 0xff00 = 0) = (byte32 v 1 = 0)"
  "(v AND 0xff0000 = 0) = (byte32 v 2 = 0)" "(v AND 0xff000000 = 0) = (byte32 v 3 = 0)"
  "(v AND 0xff = 0xff) = (byte32 v 0 = 0xff)" "(v AND 0xff00 = 0xff00) = (byte32 v 1 = 0xff)"
  "(v AND 0xff0000 = 0xff0000) = (byte32 v 2 = 0xff)" "(v AND 0xff000000 = 0xff000000) = (byte32 v 3 = 0xff)"
  using select_byte_mask [where k = 0 and v = v and c = 0] select_byte_mask [where k = 1 and v = v and c = 0] select_byte_mask [where k = 2 and v = v and c = 0] select_byte_mask [where k = 3 and v = v and c = 0]
    select_byte_mask [where k = 0 and v = v and c = "0xff"] select_byte_mask [where k = 1 and v = v and c = "0xff"] select_byte_mask [where k = 2 and v = v and c = "0xff"] select_byte_mask [where k = 3 and v = v and c = "0xff"]
  unfolding masks full_bytes by simp_all

lemma four_bytes: "length (filter P [0..<4]) = of_bool (P 0) + of_bool (P 1) + of_bool (P 2) + of_bool (P 3)"
proof -
  have "[0..<4] = [0, 1, 2, 3 :: nat]" by (simp add: upt_rec)
  then show ?thesis by simp
qed

lemma count_bytes_word:
  "(if v = 0 then 0 else of_bool (v AND 0xff \<noteq> 0) + of_bool (v AND 0xff00 \<noteq> 0) +
      of_bool (v AND 0xff0000 \<noteq> 0) + of_bool (v AND 0xff000000 \<noteq> 0)) =
    (of_nat (length (filter (\<lambda>k. byte32 v k \<noteq> 0) [0..<4])) :: u32)"
  by (auto simp: selects four_bytes byte32_def)

lemma count_non_255_word:
  "(if v = 0xffffffff then 0 else of_bool (v AND 0xff \<noteq> 0xff) + of_bool (v AND 0xff00 \<noteq> 0xff00) +
      of_bool (v AND 0xff0000 \<noteq> 0xff0000) + of_bool (v AND 0xff000000 \<noteq> 0xff000000)) =
    (of_nat (length (filter (\<lambda>k. byte32 v k \<noteq> 0xff) [0..<4])) :: u32)"
proof (cases "v = 0xffffffff")
  case True
  have "byte32 (0xffffffff :: u32) k = 0xff" if "k \<in> {0, 1, 2, 3}" for k
    using that selects(5-8) [of "0xffffffff"] by auto
  then show ?thesis using True by (simp add: four_bytes)
qed (simp add: selects four_bytes)

lemma minimize_length [simp]: "length (minimize_bits n dst src) = length dst"
proof -
  have "length (foldl (\<lambda>dst i. if mem_byte src i \<noteq> 0 then dst[i div 8 := dst ! (i div 8) OR push_bit (i mod 8) 1] else dst) dst is) =
      length dst" for "is" and dst :: "u8 list"
    by (induction "is" arbitrary: dst) auto
  then show ?thesis by (simp add: minimize_bits_def)
qed

lemma minimize_upto:
  assumes "n \<le> 8 * length dst" and "j < 8 * length dst"
  shows "bit (foldl (\<lambda>dst i. if mem_byte src i \<noteq> 0 then dst[i div 8 := dst ! (i div 8) OR push_bit (i mod 8) 1] else dst)
      dst [0..<n] ! (j div 8)) (j mod 8) \<longleftrightarrow> bit ((dst :: u8 list) ! (j div 8)) (j mod 8) \<or> j < n \<and> mem_byte src j \<noteq> 0"
  using assms
proof (induction n)
  case (Suc n)
  let ?d = "foldl (\<lambda>dst i. if mem_byte src i \<noteq> 0 then dst[i div 8 := dst ! (i div 8) OR push_bit (i mod 8) 1] else dst) dst [0..<n]"
  have len: "length ?d = length dst"
    by (induction n) auto
  have bit1: "bit (push_bit (n mod 8) (1 :: u8)) (j mod 8) \<longleftrightarrow> n mod 8 = j mod 8"
    by (auto simp: bit_simps)
  have eq: "n = j \<longleftrightarrow> n div 8 = j div 8 \<and> n mod 8 = j mod 8" by (metis div_mult_mod_eq)
  show ?case
    using Suc.IH Suc.prems len bit1 eq by (cases "n div 8 = j div 8") (auto simp: bit_or_iff less_Suc_eq)
qed simp

section \<open>Properties\<close>

text \<open>
  Equivalence with counts over single bits and bytes: on maps below \<open>2 ^ 29 - 4\<close> bytes the
  three counters, which read half words and skip full or empty ones, give the number of bits set, of
  bytes that are not 0 and of bytes that are not 255, in the bytes up to the next multiple of four;
  no counter wraps.
\<close>
theorem counts_bytewise:
  assumes "unat rsize \<le> 2 ^ 29 - 4"
  defines "n \<equiv> (unat rsize + 3) div 4"
  shows "unat (count_bits rsize ws) = length (filter (mem_bit ws) [0..<32 * n]) \<and>
    unat (count_bytes rsize ws) = length (filter (\<lambda>j. mem_byte ws j \<noteq> 0) [0..<4 * n]) \<and>
    unat (count_non_255_bytes rsize ws) = length (filter (\<lambda>j. mem_byte ws j \<noteq> 0xff) [0..<4 * n])"
proof -
  have all: "popcount (0xffffffff :: u32) = 32"
  proof -
    have m: "(0xffffffff :: u32) = - 1" by simp
    have "bit (- 1 :: u32) k" if "k < 32" for k using that by (simp add: bit_simps)
    then have "filter (bit (0xffffffff :: u32)) [0..<32] = [0..<32]" unfolding m by (intro filter_True) auto
    then show ?thesis by (simp add: popcount_def)
  qed
  have word: "(if v = 0xffffffff then 32 else of_nat (popcount v)) = (of_nat (popcount v) :: u32)" for v
    using all by simp
  have bits: "(if mem32 ws i = 0xffffffff then 32 else of_nat (popcount (mem32 ws i))) =
      (of_nat (length (filter (\<lambda>k. mem_bit ws (32 * i + k)) [0..<32])) :: u32)" for i
    unfolding popcount_bits [symmetric] by (rule word)
  have four: "filter (\<lambda>k. byte32 (mem32 ws i) k \<noteq> c) [0..<4] = filter (\<lambda>k. mem_byte ws (4 * i + k) \<noteq> c) [0..<4]" for c i
    by (rule filter_cong) (simp_all add: byte32_mem)
  have "unat (count_bits rsize ws) = length (filter (mem_bit ws) [0..<32 * n])"
    unfolding count_bits_def n_def by (rule count_words_sum [OF bits _ assms(1)]) simp
  moreover have "unat (count_bytes rsize ws) = length (filter (\<lambda>j. mem_byte ws j \<noteq> 0) [0..<4 * n])"
    unfolding count_bytes_def n_def
    by (rule count_words_sum [OF _ _ assms(1)]) (rule trans [OF count_bytes_word arg_cong [OF four, where f = "\<lambda>xs. of_nat (length xs)"]], simp)
  moreover have "unat (count_non_255_bytes rsize ws) = length (filter (\<lambda>j. mem_byte ws j \<noteq> 0xff) [0..<4 * n])"
    unfolding count_non_255_bytes_def n_def
    by (rule count_words_sum [OF _ _ assms(1)]) (rule trans [OF count_non_255_word arg_cong [OF four, where f = "\<lambda>xs. of_nat (length xs)"]], simp)
  ultimately show ?thesis by blast
qed

text \<open>
  Compacting: the bit of a byte of the map is set in the small map when it was before or the
  byte is not 0; the other bits stay.
\<close>
theorem minimize_bits_bitwise:
  assumes "unat map_size \<le> 8 * length dst" and "j < 8 * length dst"
  shows "bit (minimize_bits map_size dst src ! (j div 8)) (j mod 8) \<longleftrightarrow>
    bit (dst ! (j div 8)) (j mod 8) \<or> j < unat map_size \<and> mem_byte src j \<noteq> 0"
  using minimize_upto [OF assms] by (simp add: minimize_bits_def)

theorem counts_bytewise_witness:
  "unat (count_bytes 9 [0x0100, 0x7f]) = length (filter (\<lambda>j. mem_byte [0x0100, 0x7f] j \<noteq> 0) [0..<12])"
  using counts_bytewise [of 9 "[0x0100, 0x7f]"] by simp

end
