(* ===== verification/CrashReports.thy ===== *)
theory CrashReports imports Campaign SeenSetsLaws Bitmap begin

text \<open>
  Which crashing and hanging graphs are saved (\<open>save_if_interesting_skeleton\<close> in
  \<^verbatim>\<open>main/src/sgf-fuzz-bitmap.c\<close>): a crash by the set of the graphs that crashed and, when the
  target is run as an instrumented one, by its coverage; a hang by its coverage alone. Whether the
  graph can be serialised and whether it is sequentially consistent is decided by the C++ mutator
  and a parameter, as is its hash; writing the file is left out.
\<close>

section \<open>State\<close>

definition FSRV_RUN_TMOUT :: u8 where "FSRV_RUN_TMOUT = 1"
definition FSRV_RUN_CRASH :: u8 where "FSRV_RUN_CRASH = 2"

definition KEEP_UNIQUE_HANG :: u64 where "KEEP_UNIQUE_HANG = 512"
definition KEEP_UNIQUE_CRASH :: u64 where "KEEP_UNIQUE_CRASH = 25600"

record crash_setup =
  non_instrumented_mode :: bool
  sc_mode :: bool
  map_size :: u32
  real_map_size :: u32

record crash_state =
  total_tmouts :: u64
  saved_hangs :: u64
  total_crashes :: u64
  saved_crashes :: u64
  crash_set :: hash_set
  virgin_tmout :: bitmap
  virgin_crash :: bitmap

text \<open>A graph that ended a run abnormally: its hash, and what the mutator says of it.\<close>

record bad_graph =
  bad_hash :: u64
  serialisable :: bool
  sc_consistent :: bool

section \<open>Saving\<close>

text \<open>
  The test of the coverage. The trace is simplified in place first, so that a byte that was not hit
  becomes 1; it is cleared before the next run.
\<close>

definition new_coverage :: "crash_setup \<Rightarrow> bitmap \<Rightarrow> bitmap \<Rightarrow> bool \<times> bitmap" where
  "new_coverage su trace virgin =
     (if non_instrumented_mode su then (True, virgin)
      else let (ret, virgin, _) = has_new_bits (real_map_size su) (simplify_trace (map_size su) trace) virgin False False
           in (ret \<noteq> 0, virgin))"

definition save_hang :: "crash_setup \<Rightarrow> bitmap \<Rightarrow> crash_state \<Rightarrow> bool \<times> crash_state" where
  "save_hang su trace st =
     (let st = st\<lparr>total_tmouts := total_tmouts st + 1\<rparr>
      in if KEEP_UNIQUE_HANG \<le> saved_hangs st then (False, st)
         else let (new, virgin) = new_coverage su trace (virgin_tmout st);
                  st = st\<lparr>virgin_tmout := virgin\<rparr>
              in if new then (True, st\<lparr>saved_hangs := saved_hangs st + 1\<rparr>) else (False, st))"

definition save_crash :: "(nat \<Rightarrow> bool) \<Rightarrow> crash_setup \<Rightarrow> bitmap \<Rightarrow> bad_graph \<Rightarrow> crash_state \<Rightarrow> (bool \<times> crash_state) outcome" where
  "save_crash alloc_ok su trace g st =
     (if sc_mode su \<and> \<not> sc_consistent g then Returns (False, st)
      else let st = st\<lparr>total_crashes := total_crashes st + 1\<rparr>
           in bind_outcome (crash_graph_seen_or_add alloc_ok (crash_set st) (bad_hash g)) (\<lambda>(seen, hs).
                let st = st\<lparr>crash_set := hs\<rparr>
                in if seen then Returns (False, st)
                   else if KEEP_UNIQUE_CRASH \<le> saved_crashes st then Returns (False, st)
                   else let (new, virgin) = new_coverage su trace (virgin_crash st);
                            st = st\<lparr>virgin_crash := virgin\<rparr>
                        in if new then Returns (True, st\<lparr>saved_crashes := saved_crashes st + 1\<rparr>)
                           else Returns (False, st)))"

definition save_if_interesting_skeleton ::
    "(nat \<Rightarrow> bool) \<Rightarrow> crash_setup \<Rightarrow> bitmap \<Rightarrow> bad_graph option \<Rightarrow> u8 \<Rightarrow> crash_state \<Rightarrow> (bool \<times> crash_state) outcome" where
  "save_if_interesting_skeleton alloc_ok su trace graph fault st =
     (case graph of None \<Rightarrow> Returns (False, st)
      | Some g \<Rightarrow>
          (if fault = FSRV_RUN_OK then Returns (False, st)
           else if \<not> serialisable g then Returns (False, st)
           else if fault = FSRV_RUN_TMOUT then Returns (save_hang su trace st)
           else if fault = FSRV_RUN_CRASH then save_crash alloc_ok su trace g st
           else Returns (False, st)))"

section \<open>Sequences of crashes\<close>

text \<open>The crashes of a campaign, with the trace of each run.\<close>

fun crash_all :: "crash_setup \<Rightarrow> crash_state \<Rightarrow> (bitmap \<times> bad_graph) list \<Rightarrow> (bool list \<times> crash_state) outcome" where
  "crash_all su st [] = Returns ([], st)"
| "crash_all su st ((trace, g) # gs) =
     bind_outcome (save_if_interesting_skeleton (\<lambda>_. True) su trace (Some g) FSRV_RUN_CRASH st) (\<lambda>(b, st).
       bind_outcome (crash_all su st gs) (\<lambda>(bs, st). Returns (b # bs, st)))"

definition fresh_crashes :: "nat \<Rightarrow> crash_state" where
  "fresh_crashes n = \<lparr>total_tmouts = 0, saved_hangs = 0, total_crashes = 0, saved_crashes = 0, crash_set = empty_hash_set,
     virgin_tmout = replicate n (- 1), virgin_crash = replicate n (- 1)\<rparr>"

lemma save_crash_once:
  assumes "serialisable g" and "sc_mode su \<longrightarrow> sc_consistent g" and "non_instrumented_mode su"
    and "skeleton_graph_seen_or_add (\<lambda>_. True) (crash_set st) (bad_hash g) = Returns (seen, hs)"
    and "saved_crashes st < KEEP_UNIQUE_CRASH"
  shows "save_if_interesting_skeleton (\<lambda>_. True) su trace (Some g) FSRV_RUN_CRASH st =
    Returns (\<not> seen, st\<lparr>total_crashes := total_crashes st + 1, crash_set := hs,
      saved_crashes := saved_crashes st + (if seen then 0 else 1)\<rparr>)"
  using assms
  by (auto simp: save_if_interesting_skeleton_def save_crash_def crash_graph_seen_or_add_def new_coverage_def not_le
      FSRV_RUN_OK_def FSRV_RUN_TMOUT_def FSRV_RUN_CRASH_def Let_def)

lemma crash_all_adds:
  assumes "\<forall>(t, g)\<in>set gs. serialisable g \<and> (sc_mode su \<longrightarrow> sc_consistent g)" and "non_instrumented_mode su"
    and "unat (saved_crashes st) + length gs \<le> 25600"
    and "add_all (skeleton_graph_seen_or_add (\<lambda>_. True)) (crash_set st) (map (\<lambda>x. bad_hash (snd x)) gs) = Returns (bs, hs)"
  shows "crash_all su st gs = Returns (map Not bs, st\<lparr>total_crashes := total_crashes st + of_nat (length gs), crash_set := hs,
    saved_crashes := saved_crashes st + of_nat (length (filter Not bs))\<rparr>)"
  using assms
proof (induction gs arbitrary: st bs)
  case (Cons tg gs)
  obtain t g where tg: "tg = (t, g)" by (cases tg)
  obtain seen hs1 cs where 1: "skeleton_graph_seen_or_add (\<lambda>_. True) (crash_set st) (bad_hash g) = Returns (seen, hs1)"
    and 2: "add_all (skeleton_graph_seen_or_add (\<lambda>_. True)) hs1 (map (\<lambda>x. bad_hash (snd x)) gs) = Returns (cs, hs)" "bs = seen # cs"
    using Cons.prems(4) tg by auto
  have k: "unat KEEP_UNIQUE_CRASH = 25600" by (simp add: KEEP_UNIQUE_CRASH_def)
  have lim: "saved_crashes st < KEEP_UNIQUE_CRASH" using Cons.prems(3) by (simp add: word_less_nat_alt k)
  have g: "serialisable g" "sc_mode su \<longrightarrow> sc_consistent g" using Cons.prems(1) tg by auto
  let ?st = "st\<lparr>total_crashes := total_crashes st + 1, crash_set := hs1,
    saved_crashes := saved_crashes st + (if seen then 0 else 1)\<rparr>"
  have "unat (saved_crashes st + (if seen then 0 else 1)) \<le> Suc (unat (saved_crashes st))"
    by (cases seen) (simp_all add: unat_word_ariths)
  then have "unat (saved_crashes ?st) + length gs \<le> 25600" using Cons.prems(3) by simp
  from Cons.IH [of ?st, OF _ Cons.prems(2) this] show ?case
    using Cons.prems(1) 2 save_crash_once [OF g Cons.prems(2) 1 lim] by (simp add: add.assoc tg)
qed simp

text \<open>An empty trace is new once.\<close>

abbreviation ones :: u64 where
  "ones \<equiv> 0x0101010101010101"

definition after_ones :: "u32 \<Rightarrow> nat \<Rightarrow> bitmap" where
  "after_ones rsize n = map (\<lambda>j. if j < words rsize then - 1 AND NOT ones else - 1) [0..<n]"

lemma empty_trace_coverage:
  assumes "\<not> non_instrumented_mode su" and "unat (map_size su) = 8 * n" and "0 < unat (real_map_size su)"
    and "unat (real_map_size su) \<le> 8 * n" and "unat (real_map_size su) + 7 < 2 ^ 32"
  shows "new_coverage su (replicate n 0) (replicate n (- 1)) = (True, after_ones (real_map_size su) n)"
    and "\<exists>v. new_coverage su (replicate n 0) (after_ones (real_map_size su) n) = (False, v)"
proof -
  let ?w = "words (real_map_size su)"
  have w: "?w = (unat (real_map_size su) + 7) div 8" using words_eq [OF assms(5)] .
  then have wn: "0 < ?w" "?w \<le> n" using assms(3,4) by auto
  have t: "simplify_trace (map_size su) (replicate n 0) = replicate n ones"
    using assms(2) by (simp add: simplify_trace_def map_words Let_def)
  have "byte (- 1) 0 = (- 1 :: u8)" by (rule bit_word_eqI) (simp add: bit_byte)
  moreover have "byte ones 0 = 1" by (simp add: byte_def)
  ultimately have hit: "hits_new_byte ones (- 1)" unfolding hits_new_byte_def by (intro exI [of _ 0]) simp
  have z: "ones AND (- 1 AND NOT ones) = 0" by (rule bit_word_eqI) (auto simp: bit_simps)
  then have gone: "\<not> hits_new_count ones (- 1 AND NOT ones)" using word_and_bytes by blast
  then have gone2: "\<not> hits_new_byte ones (- 1 AND NOT ones)" using new_byte_new_count by blast
  show "new_coverage su (replicate n 0) (replicate n (- 1)) = (True, after_ones (real_map_size su) n)"
    unfolding new_coverage_def t using assms(1) wn hit
    by (subst has_new_bits_words) (auto simp: report_def after_ones_def Let_def)
  have len: "length (after_ones (real_map_size su) n) = n"
    and nth: "\<And>j. j < ?w \<Longrightarrow> after_ones (real_map_size su) n ! j = - 1 AND NOT ones"
    using wn(2) by (simp_all add: after_ones_def)
  have no: "\<not> (\<exists>w<?w. hits_new_count (replicate n ones ! w) (after_ones (real_map_size su) n ! w))"
    "\<not> (\<exists>w<?w. hits_new_byte (replicate n ones ! w) (after_ones (real_map_size su) n ! w))"
    using nth gone gone2 wn(2) by auto
  show "\<exists>v. new_coverage su (replicate n 0) (after_ones (real_map_size su) n) = (False, v)"
    unfolding new_coverage_def t using assms(1) wn(2) no len
    by (subst has_new_bits_words) (simp_all add: report_def Let_def)
qed

section \<open>Properties\<close>

text \<open>
  Crash reports of targets run without instrumentation, as the documentation runs them: over any
  sequence of at most 25600 crashes a graph is saved exactly when the key of its hash is new, whatever
  the traces, and every crash is counted.
\<close>
theorem crashes_saved_once:
  assumes "non_instrumented_mode su" and "\<forall>(t, g)\<in>set gs. serialisable g \<and> (sc_mode su \<longrightarrow> sc_consistent g)"
    and "\<forall>x\<in>set gs. bad_hash (snd x) \<noteq> 0" and "length gs \<le> 25600"
  shows "\<exists>st. crash_all su (fresh_crashes n) gs =
      Returns (map (\<lambda>i. skel_key (bad_hash (snd (gs ! i))) \<notin> (\<lambda>x. skel_key (bad_hash (snd x))) ` set (take i gs)) [0..<length gs], st) \<and>
    total_crashes st = of_nat (length gs)"
proof -
  let ?hs = "map (\<lambda>x. bad_hash (snd x)) gs"
  have "skel_inv empty_hash_set" by (simp add: skel_inv_def)
  moreover have "\<forall>h\<in>set ?hs. h \<noteq> 0" using assms(3) by simp
  moreover have "card (hs_keys empty_hash_set) + length ?hs \<le> 23488103" using assms(4) by simp
  ultimately obtain hs where "add_all (skeleton_graph_seen_or_add (\<lambda>_. True)) (crash_set (fresh_crashes n)) ?hs =
      Returns (map (\<lambda>i. skel_key (?hs ! i) \<in> hs_keys empty_hash_set \<union> skel_key ` set (take i ?hs)) [0..<length ?hs], hs)"
    using skel.session [of empty_hash_set ?hs] by (auto simp: fresh_crashes_def simp del: empty_keys)
  note a = crash_all_adds [OF assms(2,1) _ this]
  have "map Not (map (\<lambda>i. skel_key (?hs ! i) \<in> hs_keys empty_hash_set \<union> skel_key ` set (take i ?hs)) [0..<length ?hs]) =
      map (\<lambda>i. skel_key (bad_hash (snd (gs ! i))) \<notin> (\<lambda>x. skel_key (bad_hash (snd x))) ` set (take i gs)) [0..<length gs]"
    by (auto simp: take_map image_image)
  moreover have "unat (saved_crashes (fresh_crashes n)) + length gs \<le> 25600" using assms(4) by (simp add: fresh_crashes_def)
  ultimately show ?thesis using a by (simp add: fresh_crashes_def)
qed

text \<open>
  Run as an instrumented target (without \<^verbatim>\<open>-n\<close>), a target that leaves no trace, as the
  instrumented binaries of this project do, has only its first crash saved: the simplified empty
  trace consists of ones, which are new once. A second crash of another graph is counted and
  not saved, contrary to the comment that calls the test of the coverage a no-op there.
\<close>
theorem empty_traces_hide_crashes:
  assumes "\<not> non_instrumented_mode su" and "unat (map_size su) = 8 * n" and "0 < unat (real_map_size su)"
    and "unat (real_map_size su) \<le> 8 * n" and "unat (real_map_size su) + 7 < 2 ^ 32"
    and "serialisable g" and "serialisable h" and "sc_mode su \<longrightarrow> sc_consistent g \<and> sc_consistent h"
    and "bad_hash g \<noteq> 0" and "bad_hash h \<noteq> 0"
  shows "\<exists>st. crash_all su (fresh_crashes n) [(replicate n 0, g), (replicate n 0, h)] = Returns ([True, False], st) \<and>
    total_crashes st = 2 \<and> saved_crashes st = 1"
proof -
  let ?w = "words (real_map_size su)" and ?st = "fresh_crashes n"
  obtain v where cov: "new_coverage su (replicate n 0) (replicate n (- 1)) = (True, after_ones (real_map_size su) n)"
    "new_coverage su (replicate n 0) (after_ones (real_map_size su) n) = (False, v)"
    using empty_trace_coverage [OF assms(1-5)] by blast
  obtain hs1 where 1: "skeleton_graph_seen_or_add (\<lambda>_. True) empty_hash_set (bad_hash g) = Returns (False, hs1)"
    "skel_inv hs1" "hs_keys hs1 = {skel_key (bad_hash g)}"
    using skel_step [of empty_hash_set "bad_hash g" "\<lambda>_. True"] assms(9) by (auto simp: skel_inv_def)
  obtain seen hs2 where 2: "skeleton_graph_seen_or_add (\<lambda>_. True) hs1 (bad_hash h) = Returns (seen, hs2)"
    using skel_step [of hs1 "bad_hash h" "\<lambda>_. True"] assms(10) 1(2,3) by auto
  let ?st1 = "?st\<lparr>total_crashes := 1, crash_set := hs1, virgin_crash := after_ones (real_map_size su) n, saved_crashes := 1\<rparr>"
  note defs = save_if_interesting_skeleton_def save_crash_def crash_graph_seen_or_add_def FSRV_RUN_OK_def FSRV_RUN_TMOUT_def
    FSRV_RUN_CRASH_def Let_def fresh_crashes_def KEEP_UNIQUE_CRASH_def
  have "save_if_interesting_skeleton (\<lambda>_. True) su (replicate n 0) (Some g) FSRV_RUN_CRASH ?st = Returns (True, ?st1)"
    using assms(6,8) 1(1) cov(1) by (simp add: defs)
  moreover have "\<exists>st. save_if_interesting_skeleton (\<lambda>_. True) su (replicate n 0) (Some h) FSRV_RUN_CRASH ?st1 = Returns (False, st) \<and>
      total_crashes st = 2 \<and> saved_crashes st = 1"
    using assms(7,8) 2 cov(2) by (cases seen) (simp_all add: defs)
  ultimately show ?thesis by auto
qed

definition sample_setup :: "bool \<Rightarrow> crash_setup" where
  "sample_setup plain = \<lparr>non_instrumented_mode = plain, sc_mode = False, map_size = 64, real_map_size = 64\<rparr>"

definition sample_crash :: "u64 \<Rightarrow> bad_graph" where
  "sample_crash h = \<lparr>bad_hash = h, serialisable = True, sc_consistent = True\<rparr>"

theorem crashes_saved_once_witness:
  "\<exists>st. crash_all (sample_setup True) (fresh_crashes 8) [([], sample_crash 5), ([], sample_crash 5)] = Returns ([True, False], st) \<and>
    total_crashes st = 2"
proof -
  let ?gs = "[([], sample_crash 5), ([], sample_crash 5)]"
  have "non_instrumented_mode (sample_setup True)"
    "\<forall>(t, g)\<in>set ?gs. serialisable g \<and> (sc_mode (sample_setup True) \<longrightarrow> sc_consistent g)"
    "\<forall>x\<in>set ?gs. bad_hash (snd x) \<noteq> 0" "length ?gs \<le> 25600"
    by (simp_all add: sample_setup_def sample_crash_def)
  from crashes_saved_once [OF this, of 8] show ?thesis by (simp add: upt_rec)
qed

theorem empty_traces_hide_crashes_witness:
  "\<exists>st. crash_all (sample_setup False) (fresh_crashes 8) [(replicate 8 0, sample_crash 5), (replicate 8 0, sample_crash 7)] =
      Returns ([True, False], st) \<and> total_crashes st = 2 \<and> saved_crashes st = 1"
  by (rule empty_traces_hide_crashes) (simp_all add: sample_setup_def sample_crash_def)

end
