(* ===== verification/Spec2Isabelle.thy ===== *)
theory Spec2Isabelle imports QueueDispatch Diversity VerifyAssert HooksLaws SeedLaws SchedRmw SchedRecord EventGraphJson AliasTable BitmapCounts CrashReports begin

text \<open>
  A verification library for the skeleton-graph fuzzer under \<^verbatim>\<open>src/SGF\<close>.

  The program has two halves. The fuzzer (\<^verbatim>\<open>main/src\<close>, a descendant of AFL) keeps a
  corpus of skeleton graphs: which event of a concurrent program reads from which. It selects a graph, mutates
  it and hands it to the runtime (\<^verbatim>\<open>src/wmm-runtime\<close>), which is linked into the program under
  test: its hooks receive every memory access and thread operation, its scheduler delays, serves
  and records them so that the run instantiates the graph, and its exit status and the events it
  met beyond the graph are the feedback by which the fuzzer keeps or drops the mutant. Paths below are
  relative to \<^verbatim>\<open>src/SGF\<close>.
\<close>

section \<open>The parts and their theories\<close>

text \<open>
  \<^bold>\<open>Shared.\<close> \<open>Prelude\<close> names the C integers as words and C pointers as options, and holds the
  named collections of lemmas. \<open>Cdouble\<close> is the type \<open>double\<close> with C's comparisons
  (a NaN is unordered), \<open>Carith\<close> its arithmetic with the rounding as a
  parameter, of which only monotonicity and exactness on some small numbers is used.
  \<open>LinearProbe\<close> is open addressing: the locale \<open>probe_table\<close> says what a table's slots and
  hash promise, and its lemmas (a lookup finds what was inserted, rehashing keeps the keys) are
  used by the variable table, both levels of the event pair set and the sets of seen graphs through
  their interpretations; the index of the event graph uses its lemmas on the order of probing.

  \<^bold>\<open>Queues of the fuzzer\<close> (\<^verbatim>\<open>main/src/sgf-queue-*.c\<close>). \<open>HeapArray\<close> and
  \<open>QueueTiers\<close> hold the array heaps and sorted arrays that each file carries a copy of;
  \<open>QueueMaxheap\<close>, \<open>QueueRunnerUp\<close>, \<open>QueueThresholdBucket\<close> and
  \<open>QueueMaxheapBucket\<close> translate the four implementations, one definition per function, and
  \<open>QueueDispatch\<close> the table of operations by name. \<open>QueueInterface\<close> is the contract of
  \<^verbatim>\<open>main/include/sgf-queue.h\<close> as a locale over a multiset of entries; each implementation
  interprets it (every entry is returned, still there or among those freed, whose number is known;
  draining ends). Per
  implementation there is more: descending order for the plain heap, the tier invariant for the
  runner-up queue, what a rebuild keeps.

  \<^bold>\<open>Coverage of reads-from edges.\<close> \<open>EventPairSet\<close> translates
  \<^verbatim>\<open>event_pair_set.c\<close>, \<open>EventGraphCounts\<close> refines it to a count per edge, and
  \<open>Diversity\<close> is \<^verbatim>\<open>diversity_checker.c\<close> on top of it.

  \<^bold>\<open>Assertions of the program under test\<close> (\<^verbatim>\<open>assert.c\<close>). \<open>VerifyTable\<close> is
  the table of variables, \<open>VerifyAssert\<close> the recursive descent over the text of an expression;
  printing and evaluating is a round trip, and a sequence of stores refines a map.

  \<^bold>\<open>Event graphs\<close> (\<^verbatim>\<open>eg.c\<close>, \<^verbatim>\<open>eg_binary.h\<close>). \<open>EventGraph\<close>: nodes, edges,
  index, growth and the failure of each allocation. \<open>EventGraphBinary\<close>: the binary form byte by byte.
  \<open>EventGraphJson\<close>: the JSON form, from the text to the graph and back. Both loaders are shown to end on any input, with
  a status or a graph whose well-formedness is stated, and both have a round trip. The text is read and
  printed by \<^verbatim>\<open>json.c\<close>: \<open>Utf8\<close> (characters and surrogate pairs), \<open>JsonStrings\<close>
  (literals and their escapes), \<open>JsonNumbers\<close> (the grammar of numbers, \<open>strtod\<close> and
  \<open>%.16g\<close>) and \<open>JsonText\<close> (the recursive descent and both printers, related by
  \<open>renders\<close>, the texts of a tree with any white space).

  \<^bold>\<open>Scheduler\<close> (\<^verbatim>\<open>scheduler.c\<close>). \<open>SchedHistory\<close>: the last writes to each
  address and serving a read from one. \<open>SchedThreads\<close>: thread tables and counters as a
  transition system. \<open>SchedCoverage\<close>: what the run has covered of the graph.
  \<open>SchedDeadlock\<close>: when no progress is possible, over both. \<open>SchedTree\<close>: creation and
  joins, pruning, and publishing unknown events. \<open>SchedEvents\<close>: the handlers that use all of
  these, each as a step up to its wait and a step at each wake-up. \<open>SchedReplay\<close>,
  \<open>SchedRmw\<close> and \<open>SchedRecord\<close> are about the handlers: replay of reads and of
  compare-exchanges, narrow read-modify-writes, recording. \<open>Hooks\<close> is
  \<^verbatim>\<open>wmm_hooks.c\<close>, which calls the handlers; \<open>HooksLaws\<close> composes the two.

  \<^bold>\<open>Campaign of the fuzzer.\<close> \<open>SeenSets\<close>, \<open>SeenSetsLaws\<close>: the sets of graphs,
  crashes and races seen (\<^verbatim>\<open>sgf-fuzz-run.c\<close>), whose contract is the locale \<open>dedup\<close>,
  interpreted for the graphs and again for the races. \<open>RaceReports\<close>: which races are reported.
  \<open>FuzzState\<close>: the fields of \<open>sgf_state_t\<close> and \<open>queue_entry\<close> that the campaign uses.
  \<open>FuzzScores\<close>, \<open>FuzzScoreLaws\<close>: scores, cutoff and decay
  (\<^verbatim>\<open>sgf-fuzz-queue.c\<close>). \<open>FuzzPhases\<close>: the phases in the loop of \<open>main\<close>
  (\<^verbatim>\<open>sgf-fuzz.c\<close>). \<open>AliasTable\<close>: choice of the next seed by weight and its random
  numbers. \<open>Campaign\<close>, \<open>FuzzOne\<close>: one mutation with its chain, run, admission and enqueueing, and the
  tree of mutations of a seed (\<^verbatim>\<open>sgf-fuzz-one.c\<close>); \<open>CampaignLaws\<close>, \<open>SeedLaws\<close> and
  \<open>Admission\<close> state what they keep. \<open>CrashReports\<close>: which crashing and hanging graphs are
  saved, over \<open>SeenSets\<close> and the coverage bitmap of \<open>Bitmap\<close> and \<open>BitmapCounts\<close>
  (\<^verbatim>\<open>sgf-fuzz-bitmap.c\<close>, \<^verbatim>\<open>coverage-64.h\<close>).
\<close>

section \<open>Conventions\<close>

text \<open>
  Names are those of the source. A structure is a record, C integers are words of their width
  (\<open>u8\<close> to \<open>u64\<close>, \<open>s64\<close> for the signed reading), a pointer that can be NULL an option, and
  the result of each allocation a flag or a function of the number of the allocation, so that every
  failure is a branch. Ways not to return are values: \<open>outcome\<close> (a result, the end of the program with a
  status, or a loop that does not end), or an option.
  Locks make an operation one step. Loops are recursions on their data, or \<open>function\<close>s with a
  measure, or carry fuel.
\<close>

section \<open>Bounds and fuel\<close>

text \<open>
  \<^item> Probing loops have the capacity of the table as fuel: the loop of the code is bounded by it or
    meets a free slot earlier, which the load factor guarantees.
  \<^item> Evaluating an assertion has fuel \<open>4 * length + 4\<close>; no call needs more on any text.
  \<^item> Reading JSON has as fuel one level of the descent and one turn of a loop for each byte, and one more;
    it is shown to end within it on any text. Numbers are read back up to \<open>2 ^ 53\<close>.
  \<^item> Pruning the thread tree has fuel \<open>(next_ref + 1) * (next_ref + 2)\<close>; it is shown to end
    within it.
  \<^item> Growing a capacity by doubling has fuel 33, one more than the bits of the counter.
  \<^item> Binary graphs are read from buffers below \<open>2 ^ 33\<close> bytes; both forms are read back with fewer than \<open>2 ^ 27\<close> nodes
    and \<open>2 ^ 30\<close> edges: the counters and capacities of a graph are of type \<open>int\<close>, and doubling the
    capacity of the edges overflows at \<open>2 ^ 30\<close>, which is the outcome \<open>UNDEFINED\<close>.
  \<^item> Indices of type \<open>int\<close> into the arrays of the queues (the start of building a heap, the bounds of
    the binary search in a sorted array) are natural numbers: the arrays are bounded by
    \<open>m\<close> and \<open>r\<close>, which the program sets to 500 and 100.
  \<^item> The history is followed for up to \<open>2 ^ 60\<close> stores; it keeps 39 per address, the number
    that 4096 bytes give for the size of a \<open>WriteEvent\<close>.
  \<^item> Threads and published events are limited to 128, as in the source; visits of an instruction to
    \<open>2 ^ 31\<close>.
  \<^item> A set of seen graphs is a set for 23488103 additions, the point where its load check wraps; what
    happens then is a property of its own. Races and crashes are kept up to 25600, a racy graph
    with at most \<open>2 ^ 27\<close> pairs, for whose hashes the allocator has room.
  \<^item> The alias table holds at most \<open>2 ^ 31\<close> seeds; the counters over a coverage map are exact for
    maps below \<open>2 ^ 29 - 4\<close> bytes.
  \<^item> The tree of mutations of a seed has \<open>2 ^ h - 1\<close> members for a highest step \<open>h < 31\<close>.
\<close>

section \<open>Parameters, and what is not modelled\<close>

text \<open>
  Parameters of the definitions, because their code is not C or not the program's: the graph
  mutator, its hash of a graph, consistency, race detection, footprints and the nearest-neighbour
  index (\<^verbatim>\<open>main/src/*.cpp\<close>), the 64-bit hash of bytes (\<^verbatim>\<open>xxhash.h\<close>), the logarithms,
  \<open>rand\<close> and the real \<open>pthread\<close> functions of the C library, the run of the program under test as
  the fuzzer sees it (an exit status and its feedback), and the rounding of \<open>double\<close>.

  Not modelled: the fork server, start-up, statistics, screen and files of the fuzzer
  (\<^verbatim>\<open>sgf-forkserver.c\<close>, \<^verbatim>\<open>sgf-fuzz-init.c\<close>, \<^verbatim>\<open>sgf-fuzz-stats.c\<close>,
  \<^verbatim>\<open>sgf-fuzz-state.c\<close> and others: input and output); what AFL does with inputs of bytes
  (calibration, trimming, favoured seeds, dictionaries, custom mutators, the stand-alone tools),
  which a campaign over graphs never reaches; the JSON library of the mutator
  (\<^verbatim>\<open>json.hpp\<close>, vendored C++), and of \<^verbatim>\<open>json.c\<close> what the program does not call; the runtime that the scheduler replaced
  (\<^verbatim>\<open>wmm.c\<close>, not built any more); the LLVM passes in C++ that insert the calls of the hooks;
  the other tool under \<^verbatim>\<open>pctwm\<close> and its vendored C files; benchmarks and scripts. Log lines
  and messages are left out everywhere.

  The machine is little-endian with 64-bit pointers, and its atomic operations are sequentially
  consistent: the runtime performs every access itself, under a lock.
\<close>

end
